(* ===== verification/Prelude.thy ===== *)
theory Prelude
  imports Main "HOL-Library.Word"
begin

unbundle bit_operations_syntax

text \<open>
  Shared vocabulary of the development: machine integers at the width the C++ code declares
  them, the ways a C++ operation can end other than by returning, and generic lemmas on lists
  that several components use. Nothing in this theory is specific to one component.
\<close>

section \<open>Machine integers and bytes\<close>

type_synonym u8 = "8 word"
type_synonym u16 = "16 word"
type_synonym u32 = "32 word"
type_synonym u64 = "64 word"

text \<open>A \<open>std::string\<close> or \<open>std::vector<char>\<close> that carries binary data.\<close>

type_synonym bytes = "u8 list"

section \<open>Abnormal ends of a C++ operation\<close>

text \<open>
  \<^item> \<open>Out_Of_Range\<close>: \<open>std::out_of_range\<close>, thrown by \<open>substr\<close> and \<open>at\<close>;
  \<^item> \<open>Invalid_Argument\<close>: \<open>std::invalid_argument\<close>, thrown by \<open>stoi\<close>;
  \<^item> \<open>Thrown s\<close>: the code's own \<open>throw "s"\<close>;
  \<^item> \<open>Assert_Failed\<close>: a failing \<open>assert\<close> (the build type is Debug, so it aborts);
  \<^item> \<open>Undefined\<close>: undefined behaviour of the language (null or dangling pointer, reading
    outside a container, an uninitialised value).
\<close>

datatype cxx_error = Out_Of_Range | Invalid_Argument | Thrown string | Assert_Failed | Undefined

type_synonym 'a cxx = "cxx_error + 'a"

text \<open>Sequencing: the first abnormal end is the end of the whole.\<close>

definition bindE :: "'e + 'a \<Rightarrow> ('a \<Rightarrow> 'e + 'b) \<Rightarrow> 'e + 'b" where
  "bindE m f = (case m of Inl e \<Rightarrow> Inl e | Inr x \<Rightarrow> f x)"

definition assertE :: "bool \<Rightarrow> unit cxx" where
  "assertE b = (if b then Inr () else Inl Assert_Failed)"

definition of_optionE :: "'e \<Rightarrow> 'a option \<Rightarrow> 'e + 'a" where
  "of_optionE e x = (case x of None \<Rightarrow> Inl e | Some v \<Rightarrow> Inr v)"

lemma bindE_simps [simp]:
  "bindE (Inl e) f = Inl e"
  "bindE (Inr x) f = f x"
  by (simp_all add: bindE_def)

lemma bindE_eq_Inr_iff: "bindE m f = Inr y \<longleftrightarrow> (\<exists>x. m = Inr x \<and> f x = Inr y)"
  by (cases m) simp_all

lemma bindE_eq_Inl_iff: "bindE m f = Inl e \<longleftrightarrow> m = Inl e \<or> (\<exists>x. m = Inr x \<and> f x = Inl e)"
  by (cases m) simp_all

lemma bindE_assoc: "bindE (bindE m f) g = bindE m (\<lambda>x. bindE (f x) g)"
  by (cases m) simp_all

lemma assertE_simps [simp]:
  "assertE True = Inr ()"
  "assertE False = Inl Assert_Failed"
  by (simp_all add: assertE_def)

lemma assertE_eq_Inr_iff [simp]: "assertE b = Inr u \<longleftrightarrow> b"
  by (simp add: assertE_def)

lemma of_optionE_simps [simp]:
  "of_optionE e None = Inl e"
  "of_optionE e (Some v) = Inr v"
  by (simp_all add: of_optionE_def)

lemmas cxx_iffs = bindE_eq_Inr_iff bindE_eq_Inl_iff

section \<open>Operations on an object\<close>

text \<open>
  A member function or a function with an output reference takes the object and gives a result or
  an abnormal end together with the object as it is then: what was assigned before an exception
  stays assigned.
\<close>

type_synonym ('s, 'a) sm = "'s \<Rightarrow> 'a cxx \<times> 's"

definition sret :: "'a \<Rightarrow> ('s, 'a) sm" where
  "sret x s = (Inr x, s)"

definition slift :: "'a cxx \<Rightarrow> ('s, 'a) sm" where
  "slift r s = (r, s)"

definition smodify :: "('s \<Rightarrow> 's) \<Rightarrow> ('s, unit) sm" where
  "smodify f s = (Inr (), f s)"

definition sbind :: "('s, 'a) sm \<Rightarrow> ('a \<Rightarrow> ('s, 'b) sm) \<Rightarrow> ('s, 'b) sm" where
  "sbind m f s = (case m s of (Inl e, s') \<Rightarrow> (Inl e, s') | (Inr x, s') \<Rightarrow> f x s')"

definition sthen :: "('s, 'a) sm \<Rightarrow> ('s, 'b) sm \<Rightarrow> ('s, 'b) sm" where
  "sthen m n = sbind m (\<lambda>_. n)"

text \<open>\<open>try { m } catch (const std::out_of_range &) { h }\<close>\<close>

definition catch_oor :: "('s, 'a) sm \<Rightarrow> ('s, 'a) sm \<Rightarrow> ('s, 'a) sm" where
  "catch_oor m h s = (case m s of (Inl Out_Of_Range, s') \<Rightarrow> h s' | r \<Rightarrow> r)"

lemma sm_simps [simp]:
  "sret x s = (Inr x, s)"
  "slift r s = (r, s)"
  "smodify f s = (Inr (), f s)"
  "sthen m n = sbind m (\<lambda>_. n)"
  by (simp_all add: sret_def slift_def smodify_def sthen_def)

lemma sbind_simps [simp]:
  "m s = (Inr x, s') \<Longrightarrow> sbind m f s = f x s'"
  "m s = (Inl e, s') \<Longrightarrow> sbind m f s = (Inl e, s')"
  by (simp_all add: sbind_def)

lemma catch_oor_simps [simp]:
  "m s = (Inr x, s') \<Longrightarrow> catch_oor m h s = (Inr x, s')"
  "m s = (Inl Out_Of_Range, s') \<Longrightarrow> catch_oor m h s = h s'"
  "m s = (Inl e, s') \<Longrightarrow> e \<noteq> Out_Of_Range \<Longrightarrow> catch_oor m h s = (Inl e, s')"
  by (auto simp: catch_oor_def split: cxx_error.splits)

section \<open>Bounds-checked access\<close>

text \<open>
  \<open>v[i]\<close> of a \<open>std::vector\<close> outside its range is undefined; \<open>s.substr(pos, n)\<close> throws
  when \<open>pos\<close> is past the end and is cut at the end otherwise.
\<close>

definition index_at :: "'a list \<Rightarrow> nat \<Rightarrow> 'a cxx" where
  "index_at xs i = (if i < length xs then Inr (xs ! i) else Inl Undefined)"

definition substr :: "'a list \<Rightarrow> nat \<Rightarrow> nat \<Rightarrow> 'a list cxx" where
  "substr s pos n = (if pos \<le> length s then Inr (take n (drop pos s)) else Inl Out_Of_Range)"

lemma index_at_in [simp]: "i < length xs \<Longrightarrow> index_at xs i = Inr (xs ! i)"
  by (simp add: index_at_def)

lemma index_at_out: "length xs \<le> i \<Longrightarrow> index_at xs i = Inl Undefined"
  by (simp add: index_at_def)

lemma index_at_eq_Inr_iff: "index_at xs i = Inr x \<longleftrightarrow> i < length xs \<and> x = xs ! i"
  by (auto simp: index_at_def)

lemma substr_in [simp]: "pos \<le> length s \<Longrightarrow> substr s pos n = Inr (take n (drop pos s))"
  by (simp add: substr_def)

lemma substr_out: "length s < pos \<Longrightarrow> substr s pos n = Inl Out_Of_Range"
  by (simp add: substr_def)

section \<open>Generic list facts\<close>

lemma take_drop_split: "i \<le> j \<Longrightarrow> take (j - i) (drop i xs) @ drop j xs = drop i xs"
  by (metis append_take_drop_id drop_drop le_add_diff_inverse2)

lemma drop_take_append: "i \<le> length xs \<Longrightarrow> drop i (take n xs @ ys) = drop i (take n xs) @ drop (i - min (length xs) n) ys"
  by simp

lemma list_of_length_4: "length xs = 4 \<longleftrightarrow> (\<exists>a b c d. xs = [a, b, c, d])"
  by (auto simp: numeral_eq_Suc length_Suc_conv)

lemma set_take_Un_drop: "set (take j xs) \<union> set (drop j xs) = set xs"
  by (metis append_take_drop_id set_append)

lemma nth_mod_Suc: "i < n \<Longrightarrow> Suc i mod n = (if Suc i = n then 0 else Suc i)"
  by (auto simp: mod_Suc)

lemma add_mod_cancel_left:
  assumes "(a + x) mod m = (a + y) mod (m :: nat)"
  shows "x mod m = y mod m"
proof -
  from assms obtain q1 q2 where "a + x + m * q1 = a + y + m * q2"
    by (auto simp: nat_mod_eq_iff)
  then have "x + m * q1 = y + m * q2" by simp
  then show ?thesis by (auto simp: nat_mod_eq_iff)
qed

lemma mod_add_wrap:
  "x < m \<Longrightarrow> y \<le> m \<Longrightarrow> (x + y) mod m = (if x + y < m then x + y else x + y - (m :: nat))"
  by (simp add: mod_if)

section \<open>Numbers and text\<close>

text \<open>\<open>std::to_string\<close> of a natural number: its decimal digits.\<close>

definition digit_char :: "nat \<Rightarrow> char" where
  "digit_char d = char_of (48 + d)"

fun to_string :: "nat \<Rightarrow> string" where
  "to_string n = (if n < 10 then [digit_char n] else to_string (n div 10) @ [digit_char (n mod 10)])"

declare to_string.simps [simp del]

definition is_digit :: "char \<Rightarrow> bool" where
  "is_digit c = (48 \<le> (of_char c :: nat) \<and> (of_char c :: nat) \<le> 57)"

definition is_space :: "char \<Rightarrow> bool" where
  "is_space c = ((of_char c :: nat) = 32 \<or> (9 \<le> (of_char c :: nat) \<and> (of_char c :: nat) \<le> 13))"

definition digits_value :: "string \<Rightarrow> int" where
  "digits_value ds = foldl (\<lambda>n c. 10 * n + (int (of_char c) - 48)) 0 ds"

text \<open>
  The number \<open>strtol\<close> reads in base 10: white space, an optional sign, then the longest run of
  digits; \<open>None\<close> when there is no digit. What follows the digits is ignored.
\<close>

definition read_number :: "string \<Rightarrow> int option" where
  "read_number s =
     (let t = dropWhile is_space s;
          neg = (t \<noteq> [] \<and> hd t = CHR ''-'');
          u = (if t \<noteq> [] \<and> (hd t = CHR ''-'' \<or> hd t = CHR ''+'') then tl t else t);
          ds = takeWhile is_digit u
      in if ds = [] then None else Some (if neg then - digits_value ds else digits_value ds))"

definition int_range :: "int \<Rightarrow> bool" where
  "int_range i = (- (2 ^ 31) \<le> i \<and> i < 2 ^ 31)"

text \<open>\<open>atoi\<close> is 0 without digits and undefined out of range; \<open>std::stoi\<close> throws in both cases.\<close>

definition atoi :: "string \<Rightarrow> int cxx" where
  "atoi s = (case read_number s of None \<Rightarrow> Inr 0 | Some i \<Rightarrow> if int_range i then Inr i else Inl Undefined)"

definition stoi :: "string \<Rightarrow> int cxx" where
  "stoi s = (case read_number s of None \<Rightarrow> Inl Invalid_Argument
     | Some i \<Rightarrow> if int_range i then Inr i else Inl Out_Of_Range)"

lemma of_char_digit_char: "d < 10 \<Longrightarrow> (of_char (digit_char d) :: nat) = 48 + d"
  by (simp add: digit_char_def)

lemma is_digit_digit_char: "d < 10 \<Longrightarrow> is_digit (digit_char d)"
  by (simp add: is_digit_def of_char_digit_char)

lemma to_string_digits: "list_all is_digit (to_string n)"
proof (induction n rule: to_string.induct)
  case (1 n)
  then show ?case
    by (simp add: to_string.simps [of n] is_digit_digit_char)
qed

lemma to_string_nonempty [simp]: "to_string n \<noteq> []"
  by (simp add: to_string.simps [of n])

lemma digits_value_snoc: "digits_value (ds @ [c]) = 10 * digits_value ds + (int (of_char c) - 48)"
  by (simp add: digits_value_def)

lemma digits_value_to_string: "digits_value (to_string n) = int n"
proof (induction n rule: to_string.induct)
  case (1 n)
  show ?case
  proof (cases "n < 10")
    case True
    then show ?thesis
      by (subst to_string.simps) (simp add: digits_value_def of_char_digit_char)
  next
    case False
    have "n mod 10 < 10" by simp
    then have "int (of_char (digit_char (n mod 10))) - 48 = int (n mod 10)"
      by (simp only: of_char_digit_char of_nat_add)
    moreover have "10 * int (n div 10) + int (n mod 10) = int n"
      by (simp add: zdiv_int zmod_int)
    ultimately show ?thesis
      using 1 False by (subst to_string.simps) (simp add: digits_value_snoc)
  qed
qed

lemma read_number_to_string: "read_number (to_string n) = Some (int n)"
proof -
  obtain c cs where t: "to_string n = c # cs" by (cases "to_string n") simp_all
  have d: "list_all is_digit (to_string n)" by (rule to_string_digits)
  with t have c: "is_digit c" by simp
  then have "\<not> is_space c" "c \<noteq> CHR ''-''" "c \<noteq> CHR ''+''"
    by (auto simp: is_digit_def is_space_def)
  moreover have "takeWhile is_digit (to_string n) = to_string n"
    using d by (simp add: list_all_iff takeWhile_eq_all_conv)
  ultimately show ?thesis
    using t digits_value_to_string [of n] by (simp add: read_number_def Let_def)
qed

lemma to_string_inject: "to_string m = to_string n \<longleftrightarrow> m = n"
  by (metis digits_value_to_string of_nat_eq_iff)

section \<open>Sorted lists of entries\<close>

text \<open>A new entry goes in front of the first key that is not smaller.\<close>

definition ins_entry :: "'k::linorder \<Rightarrow> 'v \<Rightarrow> ('k \<times> 'v) list \<Rightarrow> ('k \<times> 'v) list" where
  "ins_entry k v es = takeWhile (\<lambda>e. fst e < k) es @ (k, v) # dropWhile (\<lambda>e. fst e < k) es"

lemma sorted_ins_entry: "sorted (map fst es) \<Longrightarrow> sorted (map fst (ins_entry k v es))"
  by (induction es) (auto simp: ins_entry_def dest!: set_takeWhileD set_dropWhileD)

lemma ins_entry_split:
  assumes "\<forall>e \<in> set xs. fst e < k" "\<forall>e \<in> set ys. k \<le> fst e"
  shows "ins_entry k v (xs @ ys) = xs @ (k, v) # ys"
proof -
  have "takeWhile (\<lambda>e. fst e < k) ys = []" "dropWhile (\<lambda>e. fst e < k) ys = ys"
    using assms(2) by (cases ys; auto)+
  with assms(1) show ?thesis by (simp add: ins_entry_def takeWhile_append dropWhile_append takeWhile_eq_all_conv)
qed

end
