(* ===== verification/Channel.thy ===== *)
theory Channel
  imports Prelude
begin

text \<open>
  src/Rpc/channel.cc: a 64-bit \<open>user_data\<close> that carries the address of the object whose
  operation completed (low 48 bits) and the kind of operation (the byte above them), and the
  dispatch of a completion to that object.
\<close>

section \<open>Event kinds (include/Rpc/channel.h)\<close>

definition USER_EVENT_ACCEPT :: u8 where "USER_EVENT_ACCEPT = 0"
definition USER_EVENT_READ :: u8 where "USER_EVENT_READ = 1"
definition USER_EVENT_WRITE :: u8 where "USER_EVENT_WRITE = 2"
definition USER_EVENT_HANDLE :: u8 where "USER_EVENT_HANDLE = 3"
definition USER_EVENT_CLOSE :: u8 where "USER_EVENT_CLOSE = 4"
definition USER_EVENT_WRITE_THEN_CLOSE :: u8 where "USER_EVENT_WRITE_THEN_CLOSE = 5"
definition USER_EVENT_TIMEOUT :: u8 where "USER_EVENT_TIMEOUT = 6"

lemmas user_event_defs = USER_EVENT_ACCEPT_def USER_EVENT_READ_def USER_EVENT_WRITE_def
  USER_EVENT_HANDLE_def USER_EVENT_CLOSE_def USER_EVENT_WRITE_THEN_CLOSE_def USER_EVENT_TIMEOUT_def

section \<open>Packing and dispatch\<close>

text \<open>An object's address is the 64-bit value of its pointer; 0 is the null pointer.\<close>

type_synonym ptr = u64

definition getIOUringUserdata :: "ptr \<Rightarrow> u8 \<Rightarrow> u64 cxx" where
  "getIOUringUserdata tc event_type =
     bindE (assertE (tc \<noteq> 0)) (\<lambda>_.
     bindE (assertE (tc AND 0xFFFF000000000000 = 0)) (\<lambda>_.
     Inr (tc OR push_bit 48 (ucast event_type))))"

text \<open>
  \<open>executeIOUringCallback\<close> decodes and calls the virtual \<open>do_io_uring\<close> of the object; the
  object's method is the parameter, a function of the address, the result and the event type.
\<close>

definition executeIOUringCallback :: "(ptr \<Rightarrow> int \<Rightarrow> int \<Rightarrow> 'a cxx) \<Rightarrow> u64 \<Rightarrow> int \<Rightarrow> 'a cxx" where
  "executeIOUringCallback do_io_uring user_data res =
     (let tc = user_data AND 0x0000FFFFFFFFFFFF;
          event_type = (ucast (drop_bit 48 user_data) :: u8)
      in bindE (assertE (tc \<noteq> 0)) (\<lambda>_. do_io_uring tc res (uint event_type)))"

section \<open>Laws\<close>

lemma mask_high: "(0xFFFF000000000000 :: u64) = NOT (mask 48)"
  by (simp add: mask_eq_exp_minus_1)

lemma mask_low: "(0x0000FFFFFFFFFFFF :: u64) = mask 48"
  by (simp add: mask_eq_exp_minus_1)

lemma address_bits:
  fixes tc :: u64
  assumes "tc AND 0xFFFF000000000000 = 0"
  shows "48 \<le> i \<Longrightarrow> \<not> bit tc i"
proof
  assume i: "48 \<le> i" and b: "bit tc i"
  then have "bit (tc AND 0xFFFF000000000000) i"
    unfolding mask_high by (auto simp: bit_simps dest: bit_imp_le_length)
  with assms show False by simp
qed

lemma pack_low:
  fixes tc :: u64
  assumes "tc AND 0xFFFF000000000000 = 0"
  shows "(tc OR push_bit 48 (ucast (ev :: u8))) AND 0x0000FFFFFFFFFFFF = tc"
  unfolding mask_low
  by (rule bit_word_eqI) (auto simp: bit_simps dest: address_bits [OF assms, rotated] intro: ccontr not_le_imp_less)

lemma pack_high:
  fixes tc :: u64
  assumes "tc AND 0xFFFF000000000000 = 0"
  shows "ucast (drop_bit 48 (tc OR push_bit 48 (ucast (ev :: u8)))) = ev"
proof (rule bit_word_eqI)
  fix i assume "i < LENGTH(8)"
  then show "bit (ucast (drop_bit 48 (tc OR push_bit 48 (ucast ev))) :: u8) i \<longleftrightarrow> bit ev i"
    using address_bits [OF assms, of "48 + i"] by (simp add: bit_simps)
qed

text \<open>For a non-null pointer below \<open>2 ^ 48\<close>, packing it with any event type succeeds, and
  executing the completion of the packed value calls that very object with that event type and
  the completion's result.\<close>

theorem userdata_dispatch_roundtrip:
  assumes "tc \<noteq> 0" and "tc AND 0xFFFF000000000000 = 0"
  shows "\<exists>ud. getIOUringUserdata tc ev = Inr ud \<and>
           (\<forall>do_io res. executeIOUringCallback do_io ud res = do_io tc res (uint ev))"
  using assms pack_low [OF assms(2)] pack_high [OF assms(2)]
  by (simp add: getIOUringUserdata_def executeIOUringCallback_def Let_def)

theorem userdata_dispatch_roundtrip_witness:
  "\<exists>ud. getIOUringUserdata 0x7FFFDEADBEE0 USER_EVENT_WRITE = Inr ud \<and>
     (\<forall>do_io res. executeIOUringCallback (do_io :: ptr \<Rightarrow> int \<Rightarrow> int \<Rightarrow> unit cxx) ud res
        = do_io 0x7FFFDEADBEE0 res (uint USER_EVENT_WRITE))"
  by (rule userdata_dispatch_roundtrip) simp_all

end
