(* ===== verification/Fifo.thy ===== *)
theory Fifo
  imports Prelude
begin

text \<open>
  The two first-in-first-out contracts of the program. \<open>stream\<close>: blocks of elements go in and out, as
  in the ring buffer of a connection. \<open>queue\<close>: one element at a time, as in the thread-safe queues and
  the idle list of the connection manager. Each is stated as an interface with an abstraction to a
  list; what a client may conclude about a whole sequence of operations is proved here once.
\<close>

section \<open>Streams\<close>

datatype 'a stream_op = Put "'a list" | Get nat

fun stream_puts :: "'a stream_op list \<Rightarrow> 'a list" where
  "stream_puts [] = []"
| "stream_puts (Put xs # ops) = xs @ stream_puts ops"
| "stream_puts (Get n # ops) = stream_puts ops"

text \<open>A run collects everything the gets return; \<open>run_fits\<close> says that every put finds room.\<close>

fun run_stream :: "('a list \<Rightarrow> 's \<Rightarrow> 's) \<Rightarrow> (nat \<Rightarrow> 's \<Rightarrow> 'a list \<times> 's) \<Rightarrow> 'a stream_op list \<Rightarrow> 's \<Rightarrow>
    'a list \<times> 's" where
  "run_stream put get [] s = ([], s)"
| "run_stream put get (Put xs # ops) s = run_stream put get ops (put xs s)"
| "run_stream put get (Get n # ops) s =
     (case get n s of (xs, s') \<Rightarrow> case run_stream put get ops s' of (ys, s'') \<Rightarrow> (xs @ ys, s''))"

fun run_fits :: "('s \<Rightarrow> nat) \<Rightarrow> ('a list \<Rightarrow> 's \<Rightarrow> 's) \<Rightarrow> (nat \<Rightarrow> 's \<Rightarrow> 'a list \<times> 's) \<Rightarrow> 'a stream_op list \<Rightarrow>
    's \<Rightarrow> bool" where
  "run_fits room put get [] s \<longleftrightarrow> True"
| "run_fits room put get (Put xs # ops) s \<longleftrightarrow> length xs \<le> room s \<and> run_fits room put get ops (put xs s)"
| "run_fits room put get (Get n # ops) s \<longleftrightarrow> run_fits room put get ops (snd (get n s))"

locale stream =
  fixes inv :: "'s \<Rightarrow> bool"
    and items :: "'s \<Rightarrow> 'a list"
    and room :: "'s \<Rightarrow> nat"
    and put :: "'a list \<Rightarrow> 's \<Rightarrow> 's"
    and get :: "nat \<Rightarrow> 's \<Rightarrow> 'a list \<times> 's"
  assumes put_inv: "inv s \<Longrightarrow> length xs \<le> room s \<Longrightarrow> inv (put xs s)"
    and put_items: "inv s \<Longrightarrow> length xs \<le> room s \<Longrightarrow> items (put xs s) = items s @ xs"
    and get_inv: "inv s \<Longrightarrow> inv (snd (get n s))"
    and get_items: "inv s \<Longrightarrow> fst (get n s) @ items (snd (get n s)) = items s"
    and get_length: "inv s \<Longrightarrow> length (fst (get n s)) = min n (length (items s))"
begin

lemma get_prefix: "inv s \<Longrightarrow> fst (get n s) = take n (items s)"
  by (metis append_eq_conv_conj get_items get_length min.commute take_all_iff take_take linorder_le_cases min_def)

text \<open>What came out, followed by what is still inside, is what was inside, followed by what went in.\<close>

lemma run_conserves:
  "inv s \<Longrightarrow> run_fits room put get ops s \<Longrightarrow>
   fst (run_stream put get ops s) @ items (snd (run_stream put get ops s)) = items s @ stream_puts ops \<and>
   inv (snd (run_stream put get ops s))"
proof (induction ops arbitrary: s)
  case (Cons a ops)
  show ?case
  proof (cases a)
    case (Put xs)
    with Cons show ?thesis by (simp add: put_inv put_items)
  next
    case (Get n)
    obtain xs s' where g: "get n s = (xs, s')" by fastforce
    obtain ys s'' where r: "run_stream put get ops s' = (ys, s'')" by fastforce
    have "inv s'" "xs @ items s' = items s"
      using get_inv [OF Cons.prems(1), of n] get_items [OF Cons.prems(1), of n] g by simp_all
    with Cons.IH [of s'] Cons.prems(2) Get g r show ?thesis by auto
  qed
qed simp

end

section \<open>Queues\<close>

datatype 'a queue_op = Enq 'a | Deq

fun queue_enqs :: "'a queue_op list \<Rightarrow> 'a list" where
  "queue_enqs [] = []"
| "queue_enqs (Enq x # ops) = x # queue_enqs ops"
| "queue_enqs (Deq # ops) = queue_enqs ops"

fun run_queue :: "('a \<Rightarrow> 's \<Rightarrow> 's) \<Rightarrow> ('s \<Rightarrow> ('a \<times> 's) option) \<Rightarrow> 'a queue_op list \<Rightarrow> 's \<Rightarrow> 'a list \<times> 's" where
  "run_queue enq deq [] s = ([], s)"
| "run_queue enq deq (Enq x # ops) s = run_queue enq deq ops (enq x s)"
| "run_queue enq deq (Deq # ops) s =
     (case deq s of
        None \<Rightarrow> run_queue enq deq ops s
      | Some (x, s') \<Rightarrow> (case run_queue enq deq ops s' of (ys, s'') \<Rightarrow> (x # ys, s'')))"

locale queue =
  fixes inv :: "'s \<Rightarrow> bool"
    and items :: "'s \<Rightarrow> 'a list"
    and enq :: "'a \<Rightarrow> 's \<Rightarrow> 's"
    and deq :: "'s \<Rightarrow> ('a \<times> 's) option"
  assumes enq_inv: "inv s \<Longrightarrow> inv (enq x s)"
    and enq_items: "inv s \<Longrightarrow> items (enq x s) = items s @ [x]"
    and deq_None: "inv s \<Longrightarrow> deq s = None \<Longrightarrow> items s = []"
    and deq_Some: "inv s \<Longrightarrow> deq s = Some (x, s') \<Longrightarrow> items s = x # items s' \<and> inv s'"
begin

lemma deq_empty_iff: "inv s \<Longrightarrow> deq s = None \<longleftrightarrow> items s = []"
  using deq_None deq_Some by (cases "deq s") auto

lemma run_conserves:
  "inv s \<Longrightarrow> fst (run_queue enq deq ops s) @ items (snd (run_queue enq deq ops s)) = items s @ queue_enqs ops \<and>
   inv (snd (run_queue enq deq ops s))"
proof (induction ops arbitrary: s)
  case (Cons a ops)
  show ?case
  proof (cases a)
    case (Enq x)
    with Cons show ?thesis by (simp add: enq_inv enq_items)
  next
    case Deq
    show ?thesis
    proof (cases "deq s")
      case None
      with Cons Deq show ?thesis by simp
    next
      case (Some p)
      obtain x s' where p: "p = (x, s')" by fastforce
      with Some deq_Some [OF Cons.prems] have "inv s'" "items s = x # items s'" by auto
      with Cons.IH [of s'] Deq Some p show ?thesis by (auto split: prod.splits)
    qed
  qed
qed simp

text \<open>The outputs are a prefix of what was inside followed by what was enqueued, in that order.\<close>

lemma run_prefix: "inv s \<Longrightarrow> \<exists>rest. items s @ queue_enqs ops = fst (run_queue enq deq ops s) @ rest"
  using run_conserves by metis

end

end
