(* ===== verification/Ring_Buffer.thy ===== *)
theory Ring_Buffer
  imports Fifo
begin

text \<open>
  include/Rpc/buffer.h and src/Rpc/buffer.cc: the ring buffer a connection reads into and writes
  from. Indices are natural numbers below \<open>MAX_BUFFER_SIZE\<close>; the conversions to \<open>uint16_t\<close> that can
  lose information are written out. The abstraction is the list of unread bytes, \<open>content\<close>.
\<close>

section \<open>State and operations\<close>

definition MAX_BUFFER_SIZE :: nat where "MAX_BUFFER_SIZE = 1024"

lemma MAX_pos [simp]: "0 < MAX_BUFFER_SIZE" "MAX_BUFFER_SIZE \<noteq> 0"
  by (simp_all add: MAX_BUFFER_SIZE_def)

text \<open>
  \<open>iov_valid\<close> says whether the pointer \<open>iov\<close> was set: the constructor allocates the two segments,
  the copy and move constructors leave the pointer uninitialised.
\<close>

record buffer =
  buf :: bytes
  readIndex :: nat
  writeIndex :: nat
  iov_valid :: bool

definition Buffer :: "nat \<Rightarrow> buffer" where
  "Buffer max_size = \<lparr>buf = replicate max_size 0, readIndex = 0, writeIndex = 0, iov_valid = True\<rparr>"

definition Buffer_copy :: "buffer \<Rightarrow> buffer" where
  "Buffer_copy other = \<lparr>buf = buf other, readIndex = readIndex other, writeIndex = writeIndex other,
                        iov_valid = False\<rparr>"

text \<open>The two assignment operators copy the data and the indices and keep the target's \<open>iov\<close>.\<close>

definition Buffer_assign :: "buffer \<Rightarrow> buffer \<Rightarrow> buffer" where
  "Buffer_assign this other =
     this\<lparr>buf := buf other, readIndex := readIndex other, writeIndex := writeIndex other\<rparr>"

definition readableBytes :: "buffer \<Rightarrow> nat" where
  "readableBytes b =
     (if writeIndex b \<ge> readIndex b then writeIndex b - readIndex b
      else MAX_BUFFER_SIZE - readIndex b + writeIndex b)"

definition writableBytes :: "buffer \<Rightarrow> nat" where
  "writableBytes b = MAX_BUFFER_SIZE - readableBytes b - 1"

definition clear :: "buffer \<Rightarrow> buffer" where
  "clear b = b\<lparr>writeIndex := 0, readIndex := 0\<rparr>"

definition hasWritten :: "nat \<Rightarrow> buffer \<Rightarrow> buffer" where
  "hasWritten sz b = b\<lparr>writeIndex := (writeIndex b + sz) mod MAX_BUFFER_SIZE\<rparr>"

definition hasRead :: "nat \<Rightarrow> buffer \<Rightarrow> buffer" where
  "hasRead sz b = b\<lparr>readIndex := (readIndex b + sz) mod MAX_BUFFER_SIZE\<rparr>"

text \<open>The range \<open>[i, j)\<close> of a vector, as the iterator constructor of \<open>std::string\<close> copies it.\<close>

definition vec_range :: "'a list \<Rightarrow> nat \<Rightarrow> nat \<Rightarrow> 'a list cxx" where
  "vec_range xs i j = (if i \<le> j \<and> j \<le> length xs then Inr (take (j - i) (drop i xs)) else Inl Undefined)"

definition read :: "nat \<Rightarrow> buffer \<Rightarrow> (bytes \<times> buffer) cxx" where
  "read read_size b =
     (let readable = min (readableBytes b) read_size
      in bindE
          (if readIndex b + readable \<le> writeIndex b \<or> readIndex b + readable < MAX_BUFFER_SIZE
           then vec_range (buf b) (readIndex b) (readIndex b + readable)
           else bindE (vec_range (buf b) (readIndex b) (length (buf b))) (\<lambda>hi.
                bindE (vec_range (buf b) 0 (readable + readIndex b - MAX_BUFFER_SIZE)) (\<lambda>lo.
                Inr (hi @ lo))))
          (\<lambda>ans. Inr (ans, hasRead readable b)))"

definition retrieveAllBufferAsString :: "buffer \<Rightarrow> (bytes \<times> buffer) cxx" where
  "retrieveAllBufferAsString b = read (readableBytes b) b"

text \<open>
  The loop of \<open>append(const char *, uint16_t)\<close>. The guard \<open>writeIndex != readIndex - 1\<close> is computed
  in \<open>int\<close>. The result is the number of bytes stored and the buffer.
\<close>

fun append_loop :: "bytes \<Rightarrow> nat \<Rightarrow> buffer \<Rightarrow> (nat \<times> buffer) cxx" where
  "append_loop [] i b = Inr (i, b)"
| "append_loop (c # cs) i b =
     (if int (writeIndex b) \<noteq> int (readIndex b) - 1 then
        (if writeIndex b < length (buf b) then
           append_loop cs (Suc i) (hasWritten (Suc 0) (b\<lparr>buf := (buf b)[writeIndex b := c]\<rparr>))
         else Inl Undefined)
      else Inr (i, b))"

text \<open>
  An append that does not fit throws after having stored a part: the result is the buffer as it is
  then, with the number of bytes or the exception. \<open>append_chars str\<close> is called with \<open>size\<close> bytes.
\<close>

definition append_chars :: "bytes \<Rightarrow> buffer \<Rightarrow> nat cxx \<times> buffer" where
  "append_chars str b =
     (case append_loop str 0 b of
        Inl e \<Rightarrow> (Inl e, b)
      | Inr (i, b') \<Rightarrow>
          (if i < length str then Inl (Thrown ''no more space for write'') else Inr i, b'))"

text \<open>\<open>append(const std::string &)\<close> passes the length as a \<open>uint16_t\<close>.\<close>

definition append :: "bytes \<Rightarrow> buffer \<Rightarrow> nat cxx \<times> buffer" where
  "append str b = append_chars (take (length str mod 2 ^ 16) str) b"

text \<open>
  The two segments for \<open>readv\<close>/\<open>writev\<close>, each an offset into \<open>buf\<close> and a length. The first three
  assertions of \<open>readvBegin\<close> are in the source.
\<close>

type_synonym iovec = "nat \<times> nat"

definition readv_segments :: "buffer \<Rightarrow> iovec \<times> iovec" where
  "readv_segments b =
     ((readIndex b, (if writeIndex b \<ge> readIndex b then writeIndex b else MAX_BUFFER_SIZE) - readIndex b),
      (0, if writeIndex b \<ge> readIndex b then 0 else writeIndex b))"

definition readvBegin :: "buffer \<Rightarrow> (iovec \<times> iovec) cxx" where
  "readvBegin b =
     (if \<not> iov_valid b then Inl Undefined
      else let iov = readv_segments b in
        bindE (assertE (snd (fst iov) = 15)) (\<lambda>_.
        bindE (assertE (snd (snd iov) = 0)) (\<lambda>_. Inr iov)))"

definition writev_segments :: "buffer \<Rightarrow> iovec \<times> iovec" where
  "writev_segments b =
     ((writeIndex b, (if writeIndex b \<ge> readIndex b then MAX_BUFFER_SIZE else readIndex b - 1) - writeIndex b),
      (0, if writeIndex b \<ge> readIndex b then readIndex b else 0))"

definition writevBegin :: "buffer \<Rightarrow> (iovec \<times> iovec) cxx" where
  "writevBegin b = (if \<not> iov_valid b then Inl Undefined else Inr (writev_segments b))"

definition writeBegin :: "buffer \<Rightarrow> nat" where
  "writeBegin b = writeIndex b"

section \<open>What the kernel does with the segments\<close>

text \<open>
  POSIX \<open>readv\<close> fills the segments in order with the bytes it received, \<open>writev\<close> sends the bytes of
  the segments in order.
\<close>

definition overwrite :: "'a list \<Rightarrow> nat \<Rightarrow> 'a list \<Rightarrow> 'a list" where
  "overwrite m off xs = take off m @ xs @ drop (off + length xs) m"

definition scatter :: "iovec \<times> iovec \<Rightarrow> bytes \<Rightarrow> bytes \<Rightarrow> bytes" where
  "scatter iov d m =
     (case iov of ((o0, n0), (o1, n1)) \<Rightarrow>
        overwrite (overwrite m o0 (take n0 d)) o1 (take n1 (drop n0 d)))"

definition gather :: "iovec \<times> iovec \<Rightarrow> bytes \<Rightarrow> bytes" where
  "gather iov m =
     (case iov of ((o0, n0), (o1, n1)) \<Rightarrow> take n0 (drop o0 m) @ take n1 (drop o1 m))"

text \<open>A completed \<open>readv\<close> of \<open>d\<close> into the buffer: the kernel's stores, then \<open>hasWritten\<close>.\<close>

definition received :: "bytes \<Rightarrow> buffer \<Rightarrow> buffer" where
  "received d b = hasWritten (length d) (b\<lparr>buf := scatter (writev_segments b) d (buf b)\<rparr>)"

section \<open>Invariant and abstraction\<close>

definition buffer_wf :: "buffer \<Rightarrow> bool" where
  "buffer_wf b \<longleftrightarrow> length (buf b) = MAX_BUFFER_SIZE \<and> readIndex b < MAX_BUFFER_SIZE \<and>
     writeIndex b < MAX_BUFFER_SIZE"

definition content :: "buffer \<Rightarrow> bytes" where
  "content b = map (\<lambda>k. buf b ! ((readIndex b + k) mod MAX_BUFFER_SIZE)) [0..<readableBytes b]"

named_theorems buffer_defs
declare readableBytes_def [buffer_defs] writableBytes_def [buffer_defs] hasWritten_def [buffer_defs]
  hasRead_def [buffer_defs] buffer_wf_def [buffer_defs]

lemma length_content [simp]: "length (content b) = readableBytes b"
  by (simp add: content_def)

lemma nth_content: "k < readableBytes b \<Longrightarrow> content b ! k = buf b ! ((readIndex b + k) mod MAX_BUFFER_SIZE)"
  by (simp add: content_def)

lemma readableBytes_buf [simp]: "readableBytes (b\<lparr>buf := m\<rparr>) = readableBytes b"
  by (simp add: readableBytes_def)

lemma readable_less: "buffer_wf b \<Longrightarrow> readableBytes b < MAX_BUFFER_SIZE"
  by (auto simp: buffer_defs)

lemma readable_plus_writable: "buffer_wf b \<Longrightarrow> readableBytes b + writableBytes b = MAX_BUFFER_SIZE - 1"
  using readable_less [of b] by (simp add: writableBytes_def)

text \<open>The write index is where the byte after the last unread one goes.\<close>

lemma writeIndex_eq: "buffer_wf b \<Longrightarrow> writeIndex b = (readIndex b + readableBytes b) mod MAX_BUFFER_SIZE"
  by (auto simp: buffer_defs mod_if)

lemma slot_inj:
  assumes "k < n" "n < MAX_BUFFER_SIZE"
  shows "(r + k) mod MAX_BUFFER_SIZE \<noteq> (r + n) mod MAX_BUFFER_SIZE"
proof
  assume "(r + k) mod MAX_BUFFER_SIZE = (r + n) mod MAX_BUFFER_SIZE"
  then have "MAX_BUFFER_SIZE dvd (r + n) - (r + k)"
    using assms by (metis mod_eq_dvd_iff_nat add_le_cancel_left less_imp_le)
  then have "MAX_BUFFER_SIZE dvd n - k" by simp
  with assms show False by (auto dest: dvd_imp_le)
qed

lemma buffer_wf_new: "buffer_wf (Buffer MAX_BUFFER_SIZE)" "content (Buffer MAX_BUFFER_SIZE) = []"
  by (simp_all add: Buffer_def buffer_defs content_def)

lemma buffer_wf_clear: "buffer_wf b \<Longrightarrow> buffer_wf (clear b)" "content (clear b) = []"
  by (simp_all add: clear_def buffer_defs content_def)

lemma content_copy: "content (Buffer_copy b) = content b" "content (Buffer_assign a b) = content b"
  by (simp_all add: Buffer_copy_def Buffer_assign_def content_def readableBytes_def)

lemma readable_hasWritten:
  assumes "buffer_wf b"
  shows "readableBytes (hasWritten n b) = (readableBytes b + n) mod MAX_BUFFER_SIZE"
proof -
  let ?M = "MAX_BUFFER_SIZE" and ?b = "hasWritten n b"
  have wf: "buffer_wf ?b" using assms by (simp add: buffer_defs)
  have "(readIndex b + readableBytes ?b) mod ?M = writeIndex ?b"
    using writeIndex_eq [OF wf] by (simp add: hasWritten_def)
  also have "\<dots> = (readIndex b + (readableBytes b + n)) mod ?M"
    using writeIndex_eq [OF assms] by (simp add: hasWritten_def mod_simps ac_simps)
  finally have "readableBytes ?b mod ?M = (readableBytes b + n) mod ?M"
    by (rule add_mod_cancel_left)
  with readable_less [OF wf] show ?thesis by simp
qed


lemma readable_hasRead:
  assumes "buffer_wf b" "n \<le> readableBytes b"
  shows "readableBytes (hasRead n b) = readableBytes b - n"
proof -
  have "n \<le> MAX_BUFFER_SIZE" using assms readable_less [OF assms(1)] by simp
  with assms show ?thesis by (auto simp: buffer_defs mod_add_wrap split: if_splits)
qed

section \<open>Appending\<close>

lemma content_push:
  assumes wf: "buffer_wf b" and room: "0 < writableBytes b"
  shows "content (hasWritten (Suc 0) (b\<lparr>buf := (buf b)[writeIndex b := c]\<rparr>)) = content b @ [c]"
    (is "content ?b = _")
proof -
  let ?stored = "b\<lparr>buf := (buf b)[writeIndex b := c]\<rparr>"
  have lt: "Suc (readableBytes b) < MAX_BUFFER_SIZE"
    using room by (simp add: writableBytes_def)
  have wf0: "buffer_wf ?stored" using wf by (simp add: buffer_wf_def)
  have rd: "readableBytes ?b = Suc (readableBytes b)"
    using readable_hasWritten [OF wf0, of "Suc 0"] lt
    by (simp only: readableBytes_buf add_Suc_right add_0_right mod_less)
  show ?thesis
  proof (rule nth_equalityI)
    show "length (content ?b) = length (content b @ [c])" by (simp add: rd)
    fix k assume "k < length (content ?b)"
    then have k: "k < Suc (readableBytes b)" by (simp add: rd)
    then have at: "content ?b ! k = (buf b)[writeIndex b := c] ! ((readIndex b + k) mod MAX_BUFFER_SIZE)"
      by (simp add: nth_content rd) (simp add: hasWritten_def)
    show "content ?b ! k = (content b @ [c]) ! k"
    proof (cases "k = readableBytes b")
      case True
      with at wf show ?thesis
        by (simp add: writeIndex_eq [OF wf, symmetric] nth_append) (simp add: buffer_wf_def)
    next
      case False
      with k have kl: "k < readableBytes b" by simp
      with slot_inj [of k "readableBytes b" "readIndex b"] lt writeIndex_eq [OF wf]
      have "(readIndex b + k) mod MAX_BUFFER_SIZE \<noteq> writeIndex b" by simp
      with at kl show ?thesis by (simp add: nth_append nth_content)
    qed
  qed
qed

lemma buffer_wf_push:
  "buffer_wf b \<Longrightarrow> buffer_wf (hasWritten n (b\<lparr>buf := (buf b)[i := c]\<rparr>))"
  by (simp add: buffer_wf_def hasWritten_def)

lemma writable_push:
  assumes "buffer_wf b" "0 < writableBytes b"
  shows "writableBytes (hasWritten (Suc 0) (b\<lparr>buf := (buf b)[writeIndex b := c]\<rparr>)) = writableBytes b - 1"
proof -
  have "readableBytes (hasWritten (Suc 0) (b\<lparr>buf := (buf b)[writeIndex b := c]\<rparr>)) = Suc (readableBytes b)"
    using content_push [OF assms, of c] by (metis length_append_singleton length_content)
  then show ?thesis by (simp add: writableBytes_def)
qed

lemma guard_room:
  assumes "buffer_wf b"
  shows "0 < writableBytes b \<Longrightarrow> int (writeIndex b) \<noteq> int (readIndex b) - 1"
    and "writableBytes b = 0 \<Longrightarrow> 0 < readIndex b \<Longrightarrow> int (writeIndex b) = int (readIndex b) - 1"
  using assms by (auto simp: buffer_defs split: if_splits)

lemma readIndex_push [simp]: "readIndex (hasWritten n (b\<lparr>buf := m\<rparr>)) = readIndex b"
  by (simp add: hasWritten_def)

text \<open>The loop stores as much as fits; with the read index at 0 the guard never stops it.\<close>

lemma append_loop_fits:
  assumes "buffer_wf b" "length s \<le> writableBytes b"
  shows "\<exists>b'. append_loop s i b = Inr (i + length s, b') \<and> buffer_wf b' \<and>
           content b' = content b @ s \<and> readIndex b' = readIndex b"
  using assms
proof (induction s arbitrary: i b)
  case Nil
  then show ?case by simp
next
  case (Cons c s)
  let ?b = "hasWritten (Suc 0) (b\<lparr>buf := (buf b)[writeIndex b := c]\<rparr>)"
  have room: "0 < writableBytes b" using Cons.prems(2) by simp
  have "buffer_wf ?b" by (rule buffer_wf_push [OF Cons.prems(1)])
  moreover have "length s \<le> writableBytes ?b"
    using Cons.prems(2) writable_push [OF Cons.prems(1) room] by simp
  ultimately obtain b' where "append_loop s (Suc i) ?b = Inr (Suc i + length s, b')" "buffer_wf b'"
      "content b' = content ?b @ s" "readIndex b' = readIndex ?b"
    using Cons.IH by blast
  moreover have "writeIndex b < length (buf b)" using Cons.prems(1) by (simp add: buffer_wf_def)
  ultimately show ?case
    using guard_room(1) [OF Cons.prems(1) room] content_push [OF Cons.prems(1) room] by simp
qed

lemma append_loop_full:
  assumes "buffer_wf b" "writableBytes b < length s" "0 < readIndex b"
  shows "\<exists>b'. append_loop s i b = Inr (i + writableBytes b, b') \<and> buffer_wf b' \<and>
           content b' = content b @ take (writableBytes b) s"
  using assms
proof (induction s arbitrary: i b)
  case Nil
  then show ?case by simp
next
  case (Cons c s)
  let ?b = "hasWritten (Suc 0) (b\<lparr>buf := (buf b)[writeIndex b := c]\<rparr>)"
  show ?case
  proof (cases "writableBytes b = 0")
    case True
    with Cons.prems guard_room(2) show ?thesis by simp
  next
    case False
    then have room: "0 < writableBytes b" by simp
    have "buffer_wf ?b" by (rule buffer_wf_push [OF Cons.prems(1)])
    moreover have "writableBytes ?b < length s" "0 < readIndex ?b"
      using Cons.prems writable_push [OF Cons.prems(1) room] room by simp_all
    ultimately obtain b' where "append_loop s (Suc i) ?b = Inr (Suc i + writableBytes ?b, b')"
        "buffer_wf b'" "content b' = content ?b @ take (writableBytes ?b) s"
      using Cons.IH by blast
    moreover have "writeIndex b < length (buf b)" using Cons.prems(1) by (simp add: buffer_wf_def)
    ultimately show ?thesis
      using guard_room(1) [OF Cons.prems(1) room] content_push [OF Cons.prems(1) room]
        writable_push [OF Cons.prems(1) room] room
      by (cases "writableBytes b") simp_all
  qed
qed

lemma append_loop_unguarded:
  assumes "buffer_wf b" "readIndex b = 0"
  shows "\<exists>b'. append_loop s i b = Inr (i + length s, b') \<and> buffer_wf b' \<and> readIndex b' = 0 \<and>
           readableBytes b' = (readableBytes b + length s) mod MAX_BUFFER_SIZE"
  using assms
proof (induction s arbitrary: i b)
  case Nil
  with readable_less [of b] show ?case by simp
next
  case (Cons c s)
  let ?stored = "b\<lparr>buf := (buf b)[writeIndex b := c]\<rparr>"
  let ?b = "hasWritten (Suc 0) ?stored"
  have wf: "buffer_wf ?b" by (rule buffer_wf_push [OF Cons.prems(1)])
  have wf0: "buffer_wf ?stored" using Cons.prems(1) by (simp add: buffer_wf_def)
  then have rd: "readableBytes ?b = Suc (readableBytes b) mod MAX_BUFFER_SIZE"
    using readable_hasWritten [of ?stored "Suc 0"]
    by (simp only: readableBytes_buf add_Suc_right add_0_right)
  from Cons.IH [OF wf] Cons.prems(2) obtain b' where
    "append_loop s (Suc i) ?b = Inr (Suc i + length s, b')" "buffer_wf b'" "readIndex b' = 0"
    "readableBytes b' = (readableBytes ?b + length s) mod MAX_BUFFER_SIZE"
    by (metis readIndex_push)
  moreover have "writeIndex b < length (buf b)" using Cons.prems(1) by (simp add: buffer_wf_def)
  ultimately show ?case
    using Cons.prems(2) rd by (simp add: mod_simps)
qed


lemma append_loop_iov: "append_loop s i b = Inr (n, b') \<Longrightarrow> iov_valid b' = iov_valid b"
  by (induction s i b rule: append_loop.induct) (auto simp: hasWritten_def split: if_splits)

lemma append_fits:
  assumes "buffer_wf b" "length s \<le> writableBytes b"
  shows "\<exists>b'. append s b = (Inr (length s), b') \<and> buffer_wf b' \<and> content b' = content b @ s \<and>
           iov_valid b' = iov_valid b \<and> readIndex b' = readIndex b"
proof -
  have "length s < 2 ^ 16" using assms(2) by (simp add: writableBytes_def MAX_BUFFER_SIZE_def)
  then have "append s b = append_chars s b" by (simp add: append_def)
  then show ?thesis
    using append_loop_fits [OF assms, of 0] append_loop_iov [of s 0 b] by (auto simp: append_chars_def)
qed

text \<open>An append that fits (as \<open>writableBytes\<close> counts) stores every byte behind the unread ones
  and reports their number; one that does not fit throws, with exactly the free bytes filled, as long
  as the read index is not 0.\<close>

theorem append_functional:
  assumes "buffer_wf b" and "length s < 2 ^ 16"
  shows "(length s \<le> writableBytes b \<longrightarrow>
            (\<exists>b'. append s b = (Inr (length s), b') \<and> buffer_wf b' \<and> content b' = content b @ s)) \<and>
         (writableBytes b < length s \<and> 0 < readIndex b \<longrightarrow>
            (\<exists>b'. append s b = (Inl (Thrown ''no more space for write''), b') \<and> buffer_wf b' \<and>
                  content b' = content b @ take (writableBytes b) s))"
proof -
  have "append s b = append_chars s b"
    using assms(2) by (simp add: append_def)
  then show ?thesis
    using append_loop_fits [OF assms(1), of s 0] append_loop_full [OF assms(1), of s 0]
    by (auto simp: append_chars_def)
qed

theorem append_functional_witness:
  "\<exists>b'. append [1, 2, 3] (Buffer MAX_BUFFER_SIZE) = (Inr 3, b') \<and> buffer_wf b' \<and> content b' = [1, 2, 3]"
proof -
  have "length [1, 2, 3 :: u8] \<le> writableBytes (Buffer MAX_BUFFER_SIZE)"
    by (simp add: Buffer_def writableBytes_def readableBytes_def MAX_BUFFER_SIZE_def)
  then show ?thesis
    using append_functional [OF buffer_wf_new(1), of "[1, 2, 3]"] by (simp add: buffer_wf_new numeral_3_eq_3)
qed

text \<open>While the read index is 0 (a fresh or cleared buffer nothing was read from) the guard
  against overflow never fires: an append of any length is accepted without an exception and the
  number of readable bytes wraps modulo the buffer size, so unread bytes are lost.\<close>

theorem append_overflow_unguarded:
  assumes "buffer_wf b" and "readIndex b = 0" and "length s < 2 ^ 16"
  shows "\<exists>b'. append s b = (Inr (length s), b') \<and>
           readableBytes b' = (readableBytes b + length s) mod MAX_BUFFER_SIZE"
proof -
  have "append s b = append_chars s b"
    using assms(3) by (simp add: append_def)
  then show ?thesis
    using append_loop_unguarded [OF assms(1,2), of s 0] by (auto simp: append_chars_def)
qed

theorem append_overflow_unguarded_witness:
  "\<exists>b'. append (replicate 1024 7) (Buffer MAX_BUFFER_SIZE) = (Inr 1024, b') \<and> readableBytes b' = 0"
  using append_overflow_unguarded [of "Buffer MAX_BUFFER_SIZE" "replicate 1024 7"] buffer_wf_new
  by (simp add: Buffer_def readableBytes_def MAX_BUFFER_SIZE_def)

section \<open>Reading\<close>

lemma take_drop_nth_map: "j \<le> length xs \<Longrightarrow> i \<le> j \<Longrightarrow> take (j - i) (drop i xs) = map (nth xs) [i..<j]"
  by (rule nth_equalityI; simp)

lemma vec_range_in: "i \<le> j \<Longrightarrow> j \<le> length xs \<Longrightarrow> vec_range xs i j = Inr (map (nth xs) [i..<j])"
  by (simp add: vec_range_def take_drop_nth_map)

lemma content_prefix:
  "n \<le> readableBytes b \<Longrightarrow> take n (content b) = map (\<lambda>k. buf b ! ((readIndex b + k) mod MAX_BUFFER_SIZE)) [0..<n]"
  by (simp add: content_def take_map)

text \<open>The ring as a list: straight up to the end of the array, then from its start.\<close>

lemma ring_straight:
  "r + n \<le> MAX_BUFFER_SIZE \<Longrightarrow> map (\<lambda>k. m ! ((r + k) mod MAX_BUFFER_SIZE)) [0..<n] = map (nth m) [r..<r + n]"
  by (rule nth_equalityI) simp_all

lemma ring_wrapped:
  assumes "r < MAX_BUFFER_SIZE" "MAX_BUFFER_SIZE \<le> r + n" "n \<le> MAX_BUFFER_SIZE"
  shows "map (\<lambda>k. m ! ((r + k) mod MAX_BUFFER_SIZE)) [0..<n] =
     map (nth m) [r..<MAX_BUFFER_SIZE] @ map (nth m) [0..<r + n - MAX_BUFFER_SIZE]"
proof (rule nth_equalityI)
  fix k assume "k < length (map (\<lambda>k. m ! ((r + k) mod MAX_BUFFER_SIZE)) [0..<n])"
  then have "k \<le> MAX_BUFFER_SIZE" "k < n" using assms by simp_all
  with assms show "map (\<lambda>k. m ! ((r + k) mod MAX_BUFFER_SIZE)) [0..<n] ! k =
      (map (nth m) [r..<MAX_BUFFER_SIZE] @ map (nth m) [0..<r + n - MAX_BUFFER_SIZE]) ! k"
    by (auto simp: nth_append mod_add_wrap intro: arg_cong [where f = "nth m"])
qed (use assms in simp)

lemma content_hasRead:
  assumes "buffer_wf b" "n \<le> readableBytes b"
  shows "content (hasRead n b) = drop n (content b)"
proof (rule nth_equalityI)
  show "length (content (hasRead n b)) = length (drop n (content b))"
    by (simp add: readable_hasRead [OF assms])
  fix k assume "k < length (content (hasRead n b))"
  then have k: "n + k < readableBytes b" by (simp add: readable_hasRead [OF assms])
  then have "content (hasRead n b) ! k = buf b ! (((readIndex b + n) mod MAX_BUFFER_SIZE + k) mod MAX_BUFFER_SIZE)"
    by (simp add: nth_content readable_hasRead [OF assms]) (simp add: hasRead_def)
  also have "\<dots> = buf b ! ((readIndex b + (n + k)) mod MAX_BUFFER_SIZE)"
    by (simp add: mod_simps ac_simps)
  also have "\<dots> = drop n (content b) ! k"
    using k by (simp add: nth_content)
  finally show "content (hasRead n b) ! k = drop n (content b) ! k" .
qed

lemma buffer_wf_hasRead: "buffer_wf b \<Longrightarrow> buffer_wf (hasRead n b)"
  by (simp add: buffer_defs)

lemma read_eq:
  assumes "buffer_wf b"
  shows "read n b = Inr (take n (content b), hasRead (min (readableBytes b) n) b)"
proof -
  let ?n = "min (readableBytes b) n" and ?r = "readIndex b"
  have wf: "?r < MAX_BUFFER_SIZE" "length (buf b) = MAX_BUFFER_SIZE" "?n \<le> MAX_BUFFER_SIZE"
    using assms readable_less [OF assms] by (auto simp: buffer_wf_def)
  have "take n (content b) = take ?n (content b)" by (simp add: min_def)
  also have "\<dots> = map (\<lambda>k. buf b ! ((?r + k) mod MAX_BUFFER_SIZE)) [0..<?n]"
    by (rule content_prefix) simp
  finally have pre: "take n (content b) = \<dots>" .
  show ?thesis
  proof (cases "?r + ?n \<le> writeIndex b \<or> ?r + ?n < MAX_BUFFER_SIZE")
    case True
    then have "?r + ?n \<le> MAX_BUFFER_SIZE" using assms by (auto simp: buffer_wf_def)
    with True wf show ?thesis
      unfolding pre by (simp add: read_def Let_def vec_range_in ring_straight)
  next
    case False
    then have "MAX_BUFFER_SIZE \<le> ?r + ?n" by simp
    then show ?thesis
      using False wf unfolding pre ring_wrapped [OF wf(1) \<open>MAX_BUFFER_SIZE \<le> ?r + ?n\<close> wf(3)]
      by (simp add: read_def Let_def vec_range_in add.commute)
  qed
qed

text \<open>A read of \<open>n\<close> bytes returns the first \<open>n\<close> unread bytes, or all of them when there are
  fewer, in order and across the end of the array, and leaves the rest unread.\<close>

theorem read_takes_prefix:
  assumes "buffer_wf b"
  shows "\<exists>b'. read n b = Inr (take n (content b), b') \<and> buffer_wf b' \<and> content b' = drop n (content b)"
  using assms by (simp add: read_eq buffer_wf_hasRead content_hasRead min_def)

theorem read_takes_prefix_witness:
  "\<exists>b'. read 2 (Buffer MAX_BUFFER_SIZE) = Inr (take 2 (content (Buffer MAX_BUFFER_SIZE)), b') \<and>
     buffer_wf b' \<and> content b' = drop 2 (content (Buffer MAX_BUFFER_SIZE))"
  by (rule read_takes_prefix) (rule buffer_wf_new)


section \<open>Segments\<close>

lemma length_overwrite [simp]: "off + length xs \<le> length m \<Longrightarrow> length (overwrite m off xs) = length m"
  by (simp add: overwrite_def)

lemma nth_overwrite:
  "off + length xs \<le> length m \<Longrightarrow> i < length m \<Longrightarrow>
   overwrite m off xs ! i = (if off \<le> i \<and> i < off + length xs then xs ! (i - off) else m ! i)"
  by (auto simp: overwrite_def nth_append)

lemma overwrite_Nil [simp]: "overwrite m off [] = m"
  by (simp add: overwrite_def)

lemma gather_content:
  assumes "buffer_wf b"
  shows "gather (readv_segments b) (buf b) = content b"
proof -
  have wf: "readIndex b < MAX_BUFFER_SIZE" "length (buf b) = MAX_BUFFER_SIZE" "writeIndex b < MAX_BUFFER_SIZE"
    using assms by (simp_all add: buffer_wf_def)
  show ?thesis
  proof (cases "readIndex b \<le> writeIndex b")
    case True
    then have "readIndex b + readableBytes b \<le> MAX_BUFFER_SIZE" using wf by (simp add: readableBytes_def)
    then show ?thesis
      using True wf
      by (simp add: content_def ring_straight) (simp add: gather_def readv_segments_def readableBytes_def
          take_drop_nth_map)
  next
    case False
    then have "MAX_BUFFER_SIZE \<le> readIndex b + readableBytes b" "readableBytes b \<le> MAX_BUFFER_SIZE"
      using wf by (simp_all add: readableBytes_def)
    then show ?thesis
      using False wf
      by (simp add: content_def ring_wrapped) (simp add: gather_def readv_segments_def readableBytes_def
          flip: take_drop_nth_map)
  qed
qed

lemma readvBegin_eq:
  assumes "buffer_wf b" and "iov_valid b"
  shows "readvBegin b = (if readableBytes b = 15 \<and> (readIndex b \<le> writeIndex b \<or> writeIndex b = 0)
            then Inr (readv_segments b) else Inl Assert_Failed)"
  using assms by (auto simp: readvBegin_def readv_segments_def readableBytes_def Let_def assertE_def buffer_wf_def)

text \<open>The bytes the kernel sends from the segments of \<open>readvBegin\<close> are the unread bytes, in
  order; but \<open>readvBegin\<close> hands the segments out only when there are exactly 15 unread bytes in one
  piece: in every other state one of its leftover assertions stops the program.\<close>

theorem readvBegin_sends_content:
  assumes "buffer_wf b" and "iov_valid b"
  shows "gather (readv_segments b) (buf b) = content b \<and>
         readvBegin b =
           (if readableBytes b = 15 \<and> (readIndex b \<le> writeIndex b \<or> writeIndex b = 0)
            then Inr (readv_segments b) else Inl Assert_Failed)"
  using assms by (simp add: gather_content readvBegin_eq)

theorem readvBegin_sends_content_witness:
  "gather (readv_segments (Buffer 1024)) (buf (Buffer 1024)) = content (Buffer 1024) \<and>
   readvBegin (Buffer 1024) = Inl Assert_Failed"
  using readvBegin_sends_content [of "Buffer MAX_BUFFER_SIZE"] buffer_wf_new
  by (simp add: MAX_BUFFER_SIZE_def) (simp add: Buffer_def readableBytes_def)

text \<open>How many bytes the segments of \<open>writevBegin\<close> let the kernel store.\<close>

lemma writev_segments_total:
  assumes "buffer_wf b"
  shows "snd (fst (writev_segments b)) + snd (snd (writev_segments b)) =
           (if readIndex b \<le> writeIndex b then writableBytes b + 1 else writableBytes b)"
  using assms by (auto simp: writev_segments_def buffer_defs)

lemma length_scatter:
  assumes "buffer_wf b"
  shows "length (scatter (writev_segments b) d (buf b)) = MAX_BUFFER_SIZE"
proof -
  obtain o0 n0 o1 n1 where seg: "writev_segments b = ((o0, n0), (o1, n1))" by (metis prod.exhaust)
  have "o0 + n0 \<le> MAX_BUFFER_SIZE" "o1 + n1 \<le> MAX_BUFFER_SIZE" "length (buf b) = MAX_BUFFER_SIZE"
    using assms seg by (auto simp: writev_segments_def buffer_wf_def split: if_splits)
  then show ?thesis by (simp add: seg scatter_def)
qed

lemma buffer_wf_received: "buffer_wf b \<Longrightarrow> buffer_wf (received d b)"
  using length_scatter [of b d] by (simp add: received_def hasWritten_def buffer_wf_def)

text \<open>Byte \<open>j\<close> of what was received lands \<open>j\<close> places behind the write index.\<close>

lemma nth_scatter_new:
  assumes "buffer_wf b" "length d \<le> writableBytes b" "j < length d"
  shows "scatter (writev_segments b) d (buf b) ! ((writeIndex b + j) mod MAX_BUFFER_SIZE) = d ! j"
proof -
  have wf: "readIndex b < MAX_BUFFER_SIZE" "length (buf b) = MAX_BUFFER_SIZE" "writeIndex b < MAX_BUFFER_SIZE"
    using assms(1) by (simp_all add: buffer_wf_def)
  have j: "j \<le> MAX_BUFFER_SIZE" using assms(2,3) by (simp add: writableBytes_def)
  show ?thesis
  proof (cases "readIndex b \<le> writeIndex b")
    case True
    with assms wf j show ?thesis
      by (auto simp: scatter_def writev_segments_def mod_add_wrap nth_overwrite buffer_defs)
  next
    case False
    with assms wf j show ?thesis
      by (auto simp: scatter_def writev_segments_def mod_add_wrap nth_overwrite buffer_defs)
  qed
qed

lemma nth_scatter_old:
  assumes "buffer_wf b" "length d \<le> writableBytes b" "k < readableBytes b"
  shows "scatter (writev_segments b) d (buf b) ! ((readIndex b + k) mod MAX_BUFFER_SIZE) =
         buf b ! ((readIndex b + k) mod MAX_BUFFER_SIZE)"
proof -
  have wf: "readIndex b < MAX_BUFFER_SIZE" "length (buf b) = MAX_BUFFER_SIZE" "writeIndex b < MAX_BUFFER_SIZE"
    using assms(1) by (simp_all add: buffer_wf_def)
  have k: "k \<le> MAX_BUFFER_SIZE" using assms(3) readable_less [OF assms(1)] by simp
  show ?thesis
  proof (cases "readIndex b \<le> writeIndex b")
    case True
    with assms wf k show ?thesis
      by (auto simp: scatter_def writev_segments_def mod_add_wrap nth_overwrite buffer_defs)
  next
    case False
    with assms wf k show ?thesis
      by (auto simp: scatter_def writev_segments_def mod_add_wrap nth_overwrite buffer_defs split: if_splits)
  qed
qed

lemma readable_received:
  assumes "buffer_wf b"
  shows "readableBytes (received d b) = (readableBytes b + length d) mod MAX_BUFFER_SIZE"
proof -
  have "buffer_wf (b\<lparr>buf := scatter (writev_segments b) d (buf b)\<rparr>)"
    using assms length_scatter [OF assms] by (simp add: buffer_wf_def)
  then show ?thesis
    unfolding received_def using readable_hasWritten [of "b\<lparr>buf := scatter (writev_segments b) d (buf b)\<rparr>"]
    by simp
qed

lemma content_received:
  assumes wf: "buffer_wf b" and fits: "length d \<le> writableBytes b"
  shows "content (received d b) = content b @ d"
proof -
  have lt: "readableBytes b + length d < MAX_BUFFER_SIZE"
    using fits readable_plus_writable [OF wf] MAX_pos by linarith
  then have rd: "readableBytes (received d b) = readableBytes b + length d"
    using readable_received [OF wf, of d] by simp
  show ?thesis
  proof (rule nth_equalityI)
    show "length (content (received d b)) = length (content b @ d)" by (simp add: rd)
    fix k assume "k < length (content (received d b))"
    then have k: "k < readableBytes b + length d" by (simp add: rd)
    then have at: "content (received d b) ! k =
        scatter (writev_segments b) d (buf b) ! ((readIndex b + k) mod MAX_BUFFER_SIZE)"
      by (simp add: nth_content rd) (simp add: received_def hasWritten_def)
    show "content (received d b) ! k = (content b @ d) ! k"
    proof (cases "k < readableBytes b")
      case True
      with at nth_scatter_old [OF wf fits] show ?thesis by (simp add: nth_append nth_content)
    next
      case False
      define j where "j = k - readableBytes b"
      with False k have j: "k = readableBytes b + j" "j < length d" by simp_all
      have "(readIndex b + k) mod MAX_BUFFER_SIZE = (writeIndex b + j) mod MAX_BUFFER_SIZE"
        using writeIndex_eq [OF wf] by (simp add: j mod_simps ac_simps)
      with at j nth_scatter_new [OF wf fits, of j] show ?thesis by (simp add: nth_append)
    qed
  qed
qed

text \<open>Bytes received through the segments of \<open>writevBegin\<close> are appended to the unread bytes
  when there are at most \<open>writableBytes\<close> of them; but from a state whose free area wraps the segments
  admit one byte more than that, and receiving so many makes the full buffer look empty.\<close>

theorem received_appends:
  assumes "buffer_wf b"
  shows "(length d \<le> writableBytes b \<longrightarrow> content (received d b) = content b @ d) \<and>
         (readIndex b \<le> writeIndex b \<longrightarrow>
            snd (fst (writev_segments b)) + snd (snd (writev_segments b)) = writableBytes b + 1 \<and>
            (length d = writableBytes b + 1 \<longrightarrow> content (received d b) = []))"
proof -
  have "readableBytes b + (writableBytes b + 1) = MAX_BUFFER_SIZE"
    using readable_plus_writable [OF assms] by (simp add: MAX_BUFFER_SIZE_def)
  then have "length d = writableBytes b + 1 \<Longrightarrow> readableBytes (received d b) = 0"
    using readable_received [OF assms, of d] by simp
  then show ?thesis
    using content_received [OF assms, of d] writev_segments_total [OF assms] by (auto simp: content_def)
qed

theorem received_appends_witness:
  "content (received [1, 2, 3] (Buffer MAX_BUFFER_SIZE)) = [1, 2, 3]"
  using received_appends [OF buffer_wf_new(1), of "[1, 2, 3]"]
  by (simp add: buffer_wf_new) (simp add: Buffer_def writableBytes_def readableBytes_def MAX_BUFFER_SIZE_def)

section \<open>The buffer as a stream\<close>

text \<open>
  Two uses of the class: the receive side is filled by the kernel and emptied by \<open>read\<close>, the send side
  is filled by \<open>append\<close> and emptied by \<open>hasRead\<close> once the kernel has sent a prefix of the segments.
\<close>

definition rx_get :: "nat \<Rightarrow> buffer \<Rightarrow> bytes \<times> buffer" where
  "rx_get n b = (case read n b of Inl e \<Rightarrow> ([], b) | Inr r \<Rightarrow> r)"

definition tx_put :: "bytes \<Rightarrow> buffer \<Rightarrow> buffer" where
  "tx_put str b = snd (append str b)"

definition tx_get :: "nat \<Rightarrow> buffer \<Rightarrow> bytes \<times> buffer" where
  "tx_get n b = (let sent = take n (gather (readv_segments b) (buf b)) in (sent, hasRead (length sent) b))"

interpretation rx: stream buffer_wf content writableBytes received rx_get
  by unfold_locales
    (auto simp: rx_get_def read_eq buffer_wf_received content_received buffer_wf_hasRead content_hasRead min_def)

interpretation tx: stream buffer_wf content writableBytes tx_put tx_get
  by unfold_locales
    (use append_fits in \<open>auto simp: tx_put_def tx_get_def Let_def gather_content buffer_wf_hasRead
       content_hasRead min_def dest: append_fits\<close>)

text \<open>C18: over any sequence of completed receptions and reads on a well-formed buffer, as long as
  every reception is within \<open>writableBytes\<close>, the bytes handed out followed by the unread ones are
  the bytes that were unread followed by the received ones: nothing is lost, repeated or reordered.\<close>

theorem receive_side_is_fifo:
  assumes "buffer_wf b" and "run_fits writableBytes received rx_get ops b"
  shows "fst (run_stream received rx_get ops b) @ content (snd (run_stream received rx_get ops b)) =
           content b @ stream_puts ops"
  using rx.run_conserves [OF assms] by simp

theorem receive_side_is_fifo_witness:
  "fst (run_stream received rx_get [Put [1, 2, 3], Get 2, Get 7] (Buffer MAX_BUFFER_SIZE)) @
     content (snd (run_stream received rx_get [Put [1, 2, 3], Get 2, Get 7] (Buffer MAX_BUFFER_SIZE))) = [1, 2, 3]"
proof -
  have "run_fits writableBytes received rx_get [Put [1, 2, 3], Get 2, Get 7] (Buffer MAX_BUFFER_SIZE)"
    by (simp add: Buffer_def writableBytes_def readableBytes_def MAX_BUFFER_SIZE_def)
  from receive_side_is_fifo [OF buffer_wf_new(1) this] show ?thesis
    by (simp only: buffer_wf_new stream_puts.simps append_Nil append_Nil2 append.simps)
qed



end
