(* ===== verification/Byte_Order.thy ===== *)
theory Byte_Order
  imports Prelude
begin

text \<open>
  Byte order of the wire format: how a word sits in memory on the little-endian hosts the code
  is written for (x86-64 and arm64), the library's \<open>htonl\<close>/\<open>ntohl\<close>/\<open>htons\<close>/\<open>ntohs\<close>, and
  the code's own 64-bit \<open>htonll\<close>/\<open>ntohll\<close> (src/Rpc/rpc_protocal.cc), with their laws.
\<close>

section \<open>Words in memory\<close>

text \<open>\<open>memcpy\<close> between a word and a byte array on a little-endian host.\<close>

fun load_le :: "bytes \<Rightarrow> 'a::len word" where
  "load_le [] = 0"
| "load_le (b # bs) = ucast b OR push_bit 8 (load_le bs)"

fun store_le :: "nat \<Rightarrow> 'a::len word \<Rightarrow> bytes" where
  "store_le 0 w = []"
| "store_le (Suc n) w = ucast w # store_le n (drop_bit 8 w)"

lemma length_store_le [simp]: "length (store_le n w) = n"
  by (induction n arbitrary: w) simp_all

lemma bit_load_le:
  "bit (load_le bs :: 'a::len word) i \<longleftrightarrow> i < LENGTH('a) \<and> i < 8 * length bs \<and> bit (bs ! (i div 8)) (i mod 8)"
proof (induction bs arbitrary: i)
  case Nil
  then show ?case by simp
next
  case (Cons b bs)
  show ?case
  proof (cases "i < 8")
    case True
    then show ?thesis
      by (auto simp: bit_simps dest: bit_imp_le_length)
  next
    case False
    then have "i div 8 = Suc ((i - 8) div 8)" and "i mod 8 = (i - 8) mod 8"
      by (simp_all add: le_div_geq le_mod_geq)
    with False Cons.IH [of "i - 8"] show ?thesis
      by (auto simp: bit_simps dest: bit_imp_le_length)
  qed
qed

lemma nth_store_le:
  "k < n \<Longrightarrow> store_le n w ! k = ucast (drop_bit (8 * k) w)"
proof (induction n arbitrary: w k)
  case 0
  then show ?case by simp
next
  case (Suc n)
  then show ?case by (cases k) (simp_all add: add.commute)
qed

lemma store_le_load_le:
  assumes "8 * length bs \<le> LENGTH('a::len)"
  shows "store_le (length bs) (load_le bs :: 'a word) = bs"
proof (rule nth_equalityI)
  show "length (store_le (length bs) (load_le bs :: 'a word)) = length bs" by simp
next
  fix k assume "k < length (store_le (length bs) (load_le bs :: 'a word))"
  then have k: "k < length bs" by simp
  then have "8 * k + 8 \<le> 8 * length bs" by linarith
  with assms k show "store_le (length bs) (load_le bs :: 'a word) ! k = bs ! k"
    by (intro bit_word_eqI) (auto simp: nth_store_le bit_simps bit_load_le)
qed

lemma load_le_store_le:
  assumes "LENGTH('a::len) \<le> 8 * n"
  shows "load_le (store_le n (w :: 'a word)) = w"
proof (rule bit_word_eqI)
  fix i assume "i < LENGTH('a)"
  with assms show "bit (load_le (store_le n w) :: 'a word) i \<longleftrightarrow> bit w i"
    by (auto simp: bit_load_le nth_store_le bit_simps)
qed

section \<open>Host and network order\<close>

text \<open>
  \<open>htonl\<close> and \<open>ntohl\<close> (and the 16-bit pair) reverse the bytes of a word on a little-endian
  host, as POSIX documents them.
\<close>

definition bswap :: "'a::len word \<Rightarrow> 'a word" where
  "bswap w = load_le (rev (store_le (LENGTH('a) div 8) w))"

abbreviation htonl :: "u32 \<Rightarrow> u32" where "htonl \<equiv> bswap"
abbreviation ntohl :: "u32 \<Rightarrow> u32" where "ntohl \<equiv> bswap"
abbreviation htons :: "u16 \<Rightarrow> u16" where "htons \<equiv> bswap"
abbreviation ntohs :: "u16 \<Rightarrow> u16" where "ntohs \<equiv> bswap"

lemma bswap_bswap:
  assumes "8 dvd LENGTH('a::len)"
  shows "bswap (bswap w) = (w :: 'a word)"
proof -
  let ?n = "LENGTH('a) div 8"
  from assms have n: "8 * ?n = LENGTH('a)" by simp
  have "store_le ?n (load_le (rev (store_le ?n w)) :: 'a word) = rev (store_le ?n w)"
    using store_le_load_le [of "rev (store_le ?n w)", where 'a = 'a] n by simp
  then show ?thesis
    unfolding bswap_def using load_le_store_le [of ?n w] n by simp
qed

lemma bswap_bswap_16 [simp]: "bswap (bswap w) = (w :: u16)"
  by (rule bswap_bswap) simp

lemma bswap_bswap_32 [simp]: "bswap (bswap w) = (w :: u32)"
  by (rule bswap_bswap) simp

lemma bswap_bswap_64 [simp]: "bswap (bswap w) = (w :: u64)"
  by (rule bswap_bswap) simp

lemma bit_bswap:
  assumes "8 dvd LENGTH('a::len)" "i < LENGTH('a)"
  shows "bit (bswap w :: 'a word) i \<longleftrightarrow> bit w (LENGTH('a) - 8 - 8 * (i div 8) + i mod 8)"
proof -
  let ?n = "LENGTH('a) div 8"
  from assms(1) have n: "8 * ?n = LENGTH('a)" by simp
  with assms(2) have q: "i div 8 < ?n" by linarith
  then have "rev (store_le ?n w) ! (i div 8) = ucast (drop_bit (8 * (?n - Suc (i div 8))) w)"
    by (simp add: rev_nth nth_store_le)
  moreover have "8 * (?n - Suc (i div 8)) = LENGTH('a) - 8 - 8 * (i div 8)"
    using n q by (simp add: diff_mult_distrib2)
  ultimately show ?thesis
    using assms n by (simp add: bswap_def bit_load_le bit_simps)
qed

text \<open>Storing a swapped word is storing it most significant byte first.\<close>

lemma store_bswap:
  assumes "8 dvd LENGTH('a::len)"
  shows "store_le (LENGTH('a) div 8) (bswap w :: 'a word) = rev (store_le (LENGTH('a) div 8) w)"
  using store_le_load_le [of "rev (store_le (LENGTH('a) div 8) w)", where 'a = 'a] assms
  by (simp add: bswap_def)

lemma load_store_bswap_32 [simp]: "bswap (load_le (store_le 4 (bswap w :: u32))) = w"
  using load_le_store_le [of 4 "bswap w :: u32"] by simp

lemma load_store_bswap_64 [simp]: "bswap (load_le (store_le 8 (bswap w :: u64))) = w"
  using load_le_store_le [of 8 "bswap w :: u64"] by simp

section \<open>The code's 64-bit conversion\<close>

text \<open>
  \<open>htonll\<close> of src/Rpc/rpc_protocal.cc. The host test reads the first byte in memory of
  \<open>0x12345678\<close>; the parameter says whether that byte is \<open>0x78\<close>, which holds exactly on a
  little-endian host.
\<close>

definition htonll_on :: "bool \<Rightarrow> u64 \<Rightarrow> u64" where
  "htonll_on little value =
     (if little then
        drop_bit 56 (value AND 0xFF00000000000000) OR
        drop_bit 40 (value AND 0x00FF000000000000) OR
        drop_bit 24 (value AND 0x0000FF0000000000) OR
        drop_bit 8 (value AND 0x000000FF00000000) OR
        push_bit 8 (value AND 0x00000000FF000000) OR
        push_bit 24 (value AND 0x0000000000FF0000) OR
        push_bit 40 (value AND 0x000000000000FF00) OR
        push_bit 56 (value AND 0x00000000000000FF)
      else value)"

definition htonll :: "u64 \<Rightarrow> u64" where
  "htonll value = htonll_on (hd (store_le 4 (0x12345678 :: u32)) = 0x78) value"

definition ntohll :: "u64 \<Rightarrow> u64" where
  "ntohll value = htonll value"

lemma htonll_little: "htonll_on True v = bswap v"
proof (rule bit_word_eqI)
  fix i assume "i < LENGTH(64)"
  then have i: "i < 64" by simp
  have "\<forall>i \<in> {..<64::nat}. bit (htonll_on True v) i \<longleftrightarrow> bit v (64 - 8 - 8 * (i div 8) + i mod 8)"
    by (simp add: htonll_on_def lessThan_nat_numeral bit_simps) (simp add: numeral_2_eq_2)
  with i show "bit (htonll_on True v) i \<longleftrightarrow> bit (bswap v) i"
    by (simp add: bit_bswap)
qed

lemma host_little: "hd (store_le 4 (0x12345678 :: u32)) = (0x78 :: u8)"
  by code_simp

lemma htonll_bswap: "htonll v = bswap v"
  by (simp add: htonll_def host_little htonll_little)

lemma ntohll_bswap: "ntohll v = bswap v"
  by (simp add: ntohll_def htonll_bswap)

text \<open>On a little-endian host the mask-and-shift conversion is the reversal of the
  eight bytes of the value, and applying it twice gives the value back: what one side writes with
  \<open>htonll\<close> the other side reads with \<open>ntohll\<close>.\<close>

theorem htonll_reverses_bytes:
  "store_le 8 (htonll v) = rev (store_le 8 v) \<and> ntohll (htonll v) = v"
  using store_bswap [of v] by (simp add: htonll_bswap ntohll_bswap)

end
