(* ===== verification/Protocol.thy ===== *)
theory Protocol
  imports Byte_Order
begin

text \<open>
  include/Rpc/rpc_protocal.h and src/Rpc/rpc_protocal.cc: the wire format of a request, its
  generator, the parser of a complete message and the three parsers of its parts. The generated
  serializer and parser of the message \<open>RpcHeader\<close> are the parameters \<open>SerializeAsString\<close> and
  \<open>ParseFromString\<close>; the code ignores the parser's success flag, so the parameter is the message
  it leaves behind.
\<close>

section \<open>Data\<close>

definition MagicNumber :: u32 where "MagicNumber = 0x48635270"
definition MESSAGE_TYPE_REQUEST :: u8 where "MESSAGE_TYPE_REQUEST = 0"
definition MESSAGE_TYPE_RESPONSE :: u8 where "MESSAGE_TYPE_RESPONSE = 1"
definition STATUS_SUCCESS :: u8 where "STATUS_SUCCESS = 0"
definition PROTOCAL_HEADER_LEN :: nat where "PROTOCAL_HEADER_LEN = 20"

record rpc_header =
  h_service_name :: bytes
  h_method_name :: bytes
  h_args_size :: u32

text \<open>\<open>conn\<close> is the pointer to the connection the request came from, as an address.\<close>

record request_info =
  conn :: u64
  request_id :: u64
  version :: u8
  message_type :: u8
  status :: u8
  flag :: u8
  service_name :: bytes
  method_name :: bytes
  body_data :: bytes

definition header_of :: "request_info \<Rightarrow> rpc_header" where
  "header_of info = \<lparr>h_service_name = service_name info, h_method_name = method_name info,
                     h_args_size = word_of_nat (length (body_data info))\<rparr>"

section \<open>Generating a message\<close>

text \<open>
  The string is resized to the total size and filled piece by piece; the pieces are adjacent and
  cover it.
\<close>

definition fixed_part :: "request_info \<Rightarrow> nat \<Rightarrow> bytes" where
  "fixed_part info header_len =
     store_le 4 (htonl MagicNumber) @
     [version info, message_type info, status info, flag info] @
     store_le 8 (htonll (request_id info)) @
     store_le 4 (htonl (word_of_nat header_len))"

definition generateStringFromProtocal :: "(rpc_header \<Rightarrow> bytes) \<Rightarrow> request_info \<Rightarrow> bytes" where
  "generateStringFromProtocal SerializeAsString info =
     (let proto_header = SerializeAsString (header_of info)
      in fixed_part info (length proto_header) @ proto_header @ body_data info)"

section \<open>Parsing\<close>

text \<open>
  \<open>memcpy(dst, s.c_str(), n)\<close>: the characters of \<open>s\<close> are followed by one null character; reading
  further is undefined. \<open>s[i]\<close> of a constant string may read that null character too.
\<close>

definition memcpy_n :: "nat \<Rightarrow> bytes \<Rightarrow> bytes cxx" where
  "memcpy_n n s = (if n \<le> length s + 1 then Inr (take n (s @ [0])) else Inl Undefined)"

definition char_at :: "bytes \<Rightarrow> nat \<Rightarrow> u8 cxx" where
  "char_at s i = (if i < length s then Inr (s ! i) else if i = length s then Inr 0 else Inl Undefined)"

text \<open>
  The part both parsers share: check the magic number (\<open>None\<close> when it is wrong), fill the fixed
  fields, and give the length of the protobuf header.
\<close>

definition parse_fixed :: "bytes \<Rightarrow> (request_info, u32 option) sm" where
  "parse_fixed recv_str =
     sbind (slift (bindE (substr recv_str 0 4) (memcpy_n 4))) (\<lambda>magic_num.
     if ntohl (load_le magic_num) XOR MagicNumber \<noteq> 0 then sret None
     else
       sbind (slift (char_at recv_str 4)) (\<lambda>x. sthen (smodify (\<lambda>i. i\<lparr>version := x\<rparr>)) (
       sbind (slift (char_at recv_str 5)) (\<lambda>x. sthen (smodify (\<lambda>i. i\<lparr>message_type := x\<rparr>)) (
       sbind (slift (char_at recv_str 6)) (\<lambda>x. sthen (smodify (\<lambda>i. i\<lparr>status := x\<rparr>)) (
       sbind (slift (char_at recv_str 7)) (\<lambda>x. sthen (smodify (\<lambda>i. i\<lparr>flag := x\<rparr>)) (
       sbind (slift (bindE (substr recv_str 8 8) (memcpy_n 8))) (\<lambda>x.
         sthen (smodify (\<lambda>i. i\<lparr>request_id := ntohll (load_le x)\<rparr>)) (
       sbind (slift (bindE (substr recv_str 16 4) (memcpy_n 4))) (\<lambda>x.
         sret (Some (ntohl (load_le x)))))))))))))))"

text \<open>\<open>20 + proto_header_len\<close> is computed in \<open>uint32_t\<close>.\<close>

definition parserProtocalFromString :: "(bytes \<Rightarrow> rpc_header) \<Rightarrow> bytes \<Rightarrow> (request_info, bool) sm" where
  "parserProtocalFromString ParseFromString recv_str =
     catch_oor
       (sbind (parse_fixed recv_str) (\<lambda>len.
        case len of
          None \<Rightarrow> sret False
        | Some proto_header_len \<Rightarrow>
            sbind (slift (substr recv_str 20 (unat proto_header_len))) (\<lambda>protobuf_str.
            let header = ParseFromString protobuf_str in
            sthen (smodify (\<lambda>i. i\<lparr>service_name := h_service_name header, method_name := h_method_name header\<rparr>)) (
            sbind (slift (substr recv_str (unat (20 + proto_header_len)) (unat (h_args_size header)))) (\<lambda>body.
            sthen (smodify (\<lambda>i. i\<lparr>body_data := body\<rparr>)) (sret True))))))
       (sret False)"

text \<open>
  \<open>parserProtocalHeader\<close> returns \<open>std::optional<uint16_t>\<close>; on a wrong magic number it executes
  \<open>return false\<close>, which is the optional that holds 0.
\<close>

definition parserProtocalHeader :: "bytes \<Rightarrow> (request_info, nat option) sm" where
  "parserProtocalHeader recv_str =
     sthen (slift (assertE (length recv_str = PROTOCAL_HEADER_LEN)))
       (catch_oor
         (sbind (parse_fixed recv_str) (\<lambda>len.
          case len of
            None \<Rightarrow> sret (Some 0)
          | Some proto_header_len \<Rightarrow>
              sthen (slift (assertE (unat proto_header_len \<le> 2 ^ 16 - 1)))
                (sret (Some (unat proto_header_len mod 2 ^ 16)))))
         (sret None))"

text \<open>The size of the arguments is a \<open>uint32\<close> of the message and is returned as a \<open>uint16_t\<close>.\<close>

definition parserProtocalRpcHeader :: "(bytes \<Rightarrow> rpc_header) \<Rightarrow> bytes \<Rightarrow> (request_info, nat option) sm" where
  "parserProtocalRpcHeader ParseFromString protobuf_str =
     (let header = ParseFromString protobuf_str in
      sthen (smodify (\<lambda>i. i\<lparr>service_name := h_service_name header, method_name := h_method_name header\<rparr>))
        (sret (Some (unat (h_args_size header) mod 2 ^ 16))))"

definition parserProtocalBody :: "bytes \<Rightarrow> (request_info, bool) sm" where
  "parserProtocalBody protobuf_str =
     sthen (smodify (\<lambda>i. i\<lparr>body_data := protobuf_str\<rparr>)) (sret True)"

section \<open>Laws\<close>

lemma length_fixed_part [simp]: "length (fixed_part info n) = 20"
  by (simp add: fixed_part_def)

lemma memcpy_n_exact [simp]: "length s = n \<Longrightarrow> memcpy_n n s = Inr s"
  by (simp add: memcpy_n_def)

text \<open>The fixed fields that a header of 20 bytes or more holds.\<close>

definition fixed_fields :: "bytes \<Rightarrow> request_info \<Rightarrow> request_info" where
  "fixed_fields s info =
     info\<lparr>version := s ! 4, message_type := s ! 5, status := s ! 6, flag := s ! 7,
          request_id := ntohll (load_le (take 8 (drop 8 s)))\<rparr>"

definition magic_ok :: "bytes \<Rightarrow> bool" where
  "magic_ok s \<longleftrightarrow> ntohl (load_le (take 4 s)) = MagicNumber"

lemma xor_eq_0_iff_eq: "a XOR b = 0 \<longleftrightarrow> a = (b :: 'a::len word)"
proof
  assume "a XOR b = 0"
  then have "(a XOR b) XOR b = 0 XOR b" by simp
  then show "a = b" by (simp add: xor.assoc)
qed simp

lemma parse_fixed_long:
  assumes "20 \<le> length s"
  shows "parse_fixed s info =
    (if magic_ok s then (Inr (Some (ntohl (load_le (take 4 (drop 16 s))))), fixed_fields s info)
     else (Inr None, info))"
  using assms
  by (simp add: parse_fixed_def magic_ok_def char_at_def fixed_fields_def xor_eq_0_iff_eq)


text \<open>What the generator writes into the first 20 bytes is what the parser finds there.\<close>

lemma fixed_part_fields:
  "magic_ok (fixed_part info n @ rest)"
  "ntohl (load_le (drop 16 (fixed_part info n))) = word_of_nat n"
  "fixed_fields (fixed_part info n @ rest) i =
     i\<lparr>version := version info, message_type := message_type info, status := status info,
       flag := flag info, request_id := request_id info\<rparr>"
  by (simp_all add: magic_ok_def fixed_fields_def fixed_part_def nth_append ntohll_bswap htonll_bswap)

lemma header_of_fields [simp]:
  "h_service_name (header_of info) = service_name info"
  "h_method_name (header_of info) = method_name info"
  "h_args_size (header_of info) = word_of_nat (length (body_data info))"
  by (simp_all add: header_of_def)

lemma unat_of_length: "n < 2 ^ 32 \<Longrightarrow> unat (word_of_nat n :: u32) = n"
  by (simp add: unat_of_nat)

text \<open>C20: parsing a generated message gives every field of the request back, whatever the
  connection field of the receiver is, provided the protobuf codec restores this header and the
  sizes fit the 32-bit length fields.\<close>

theorem request_roundtrip:
  assumes codec: "ParseFromString (SerializeAsString (header_of info)) = header_of info"
    and size: "length (SerializeAsString (header_of info)) + length (body_data info) < 2 ^ 32 - 20"
  shows "parserProtocalFromString ParseFromString (generateStringFromProtocal SerializeAsString info) dst =
           (Inr True, info\<lparr>conn := conn dst\<rparr>)"
proof -
  let ?h = "SerializeAsString (header_of info)"
  let ?s = "generateStringFromProtocal SerializeAsString info"
  have s: "?s = fixed_part info (length ?h) @ ?h @ body_data info"
    by (simp add: generateStringFromProtocal_def Let_def)
  have h: "unat (word_of_nat (length ?h) :: u32) = length ?h"
    using size by (intro unat_of_length) simp
  have b: "unat (word_of_nat (length (body_data info)) :: u32) = length (body_data info)"
    using size by (intro unat_of_length) simp
  have h20: "unat (20 + word_of_nat (length ?h) :: u32) = 20 + length ?h"
    using size h by (simp add: unat_word_ariths)
  have "parse_fixed ?s dst = (Inr (Some (word_of_nat (length ?h))),
      dst\<lparr>version := version info, message_type := message_type info, status := status info,
       flag := flag info, request_id := request_id info\<rparr>)"
    unfolding s by (subst parse_fixed_long) (simp_all add: fixed_part_fields)
  then show ?thesis
    by (simp add: parserProtocalFromString_def s h h20 b codec Let_def)
qed


text \<open>A codec for the witnesses: both names behind their lengths, then the size.\<close>

definition demo_serialize :: "rpc_header \<Rightarrow> bytes" where
  "demo_serialize h = word_of_nat (length (h_service_name h)) # h_service_name h @
     word_of_nat (length (h_method_name h)) # h_method_name h @ store_le 4 (h_args_size h)"

definition demo_parse :: "bytes \<Rightarrow> rpc_header" where
  "demo_parse s = (let n = unat (hd s); t = drop n (tl s); m = unat (hd t)
     in \<lparr>h_service_name = take n (tl s), h_method_name = take m (tl t),
         h_args_size = load_le (drop m (tl t))\<rparr>)"

lemma demo_codec:
  assumes "length (h_service_name h) < 256" "length (h_method_name h) < 256"
  shows "demo_parse (demo_serialize h) = h"
  using assms load_le_store_le [of 4 "h_args_size h"]
  by (simp add: demo_parse_def demo_serialize_def Let_def unat_of_nat)

definition demo_request :: request_info where
  "demo_request = \<lparr>conn = 0, request_id = 0x12345678, version = 0, message_type = MESSAGE_TYPE_REQUEST,
     status = STATUS_SUCCESS, flag = 1, service_name = [85, 83], method_name = [76], body_data = [1, 2, 3]\<rparr>"

lemma demo_request_codec: "demo_parse (demo_serialize (header_of demo_request)) = header_of demo_request"
  by (rule demo_codec) (simp_all add: demo_request_def)

lemma demo_request_sizes [simp]:
  "length (demo_serialize (header_of demo_request)) = 9"
  "length (body_data demo_request) = 3"
  by (simp_all add: demo_serialize_def demo_request_def)

theorem request_roundtrip_witness:
  "parserProtocalFromString demo_parse (generateStringFromProtocal demo_serialize demo_request)
     (demo_request\<lparr>conn := 7, body_data := []\<rparr>) = (Inr True, demo_request\<lparr>conn := 7\<rparr>)"
  using request_roundtrip [of demo_parse demo_serialize demo_request, OF demo_request_codec] by simp

lemma header_parser_cases:
  "parserProtocalHeader s info =
     (if length s \<noteq> 20 then (Inl Assert_Failed, info)
      else if \<not> magic_ok s then (Inr (Some 0), info)
      else let n = unat (ntohl (load_le (drop 16 s)))
           in if n < 2 ^ 16 then (Inr (Some n), fixed_fields s info)
              else (Inl Assert_Failed, fixed_fields s info))"
  by (simp add: parserProtocalHeader_def PROTOCAL_HEADER_LEN_def parse_fixed_long Let_def assertE_def)

text \<open>C33: the header parser on every input. It demands exactly 20 bytes; it never reports a
  failure (no \<open>std::nullopt\<close>): a wrong magic number is answered with the length 0 and changes
  nothing, and a header length above 65535 stops the program.\<close>

theorem header_parser_outcomes:
  "parserProtocalHeader s info =
     (if length s \<noteq> 20 then (Inl Assert_Failed, info)
      else if \<not> magic_ok s then (Inr (Some 0), info)
      else let n = unat (ntohl (load_le (drop 16 s)))
           in if n < 2 ^ 16 then (Inr (Some n), fixed_fields s info)
              else (Inl Assert_Failed, fixed_fields s info))"
  by (rule header_parser_cases)

text \<open>A message cut inside the fixed part (the magic number intact) is rejected with
  \<open>false\<close> only when 7, 15 or 19 bytes of it are there; at every other length the parser reads past
  the end of a string.\<close>

theorem truncated_header_outcomes:
  assumes "4 \<le> length s" and "length s < 20" and "magic_ok s"
  shows "fst (parserProtocalFromString ParseFromString s info) =
           (if length s \<in> {7, 15, 19} then Inr False else Inl Undefined)"
proof -
  have "length s \<in> {4..<20}" using assms by simp
  then have "length s \<in> {4, 5, 6, 7, 8, 9, 10, 11, 12, 13, 14, 15, 16, 17, 18, 19}"
    by (simp add: atLeastLessThan_nat_numeral) linarith
  then show ?thesis
    using assms(3)
    by (elim insertE emptyE)
      (simp_all add: parserProtocalFromString_def parse_fixed_def magic_ok_def char_at_def
        memcpy_n_def substr_def sbind_def catch_oor_def)
qed

theorem truncated_header_outcomes_witness:
  "fst (parserProtocalFromString demo_parse (take 19 (fixed_part demo_request 9)) demo_request) = Inr False"
proof -
  have "magic_ok (take 19 (fixed_part demo_request 9))"
    using fixed_part_fields(1) [of demo_request 9 "[]"] by (simp add: magic_ok_def)
  then show ?thesis
    using truncated_header_outcomes [of "take 19 (fixed_part demo_request 9)"] by simp
qed

end
