(* ===== verification/Connection.thy ===== *)
theory Connection
  imports Channel Ring_Buffer Protocol
begin

text \<open>
  The class \<open>TcpConnection\<close> of include/Rpc/connection_pool.h and src/Rpc/connection_pool.cc: one
  connection of the event loop, its io_uring callbacks, and the state machine that cuts the received
  bytes into protocol header, protobuf header and body.

  What a member function asks of the rest of the system (a submission to io_uring, a request handed
  to the event loop, a call of the connection manager) is appended to the field \<open>out\<close>, in order. The
  submission queue is taken to have a free entry whenever \<open>getOneSqe\<close> is called. The generated
  parser of \<open>RpcHeader\<close> is the parameter \<open>ParseFromString\<close>.
\<close>

section \<open>State\<close>

datatype action =
    Sqe_Accept
  | Sqe_Read "iovec \<times> iovec"
  | Sqe_Writev u8 "iovec \<times> iovec"
  | Sqe_Close int
  | Dispatch request_info
  | Accept_Done
  | Send_Back

definition CONNECTION_STATUS_READABLE :: u8 where "CONNECTION_STATUS_READABLE = 1"
definition CONNECTION_STATUS_WRITABLE :: u8 where "CONNECTION_STATUS_WRITABLE = 2"
definition CONNECTION_STATUS_CLOSING :: u8 where "CONNECTION_STATUS_CLOSING = 4"

record tcp =
  self :: ptr
  event_loop :: bool
  clientfd :: int
  target_bytes :: nat
  header_process :: nat
  connect_status :: u8
  to_send_bytes :: int
  active :: bool
  ri :: request_info
  read_buffer :: buffer
  write_buffer :: buffer
  out :: "action list"

definition emit :: "action \<Rightarrow> (tcp, unit) sm" where
  "emit a = smodify (\<lambda>c. c\<lparr>out := out c @ [a]\<rparr>)"

text \<open>A request whose strings were moved out of it.\<close>

definition moved_from :: "request_info \<Rightarrow> request_info" where
  "moved_from r = r\<lparr>service_name := [], method_name := [], body_data := []\<rparr>"

definition empty_request :: request_info where
  "empty_request = \<lparr>conn = 0, request_id = 0, version = 0, message_type = 0, status = 0, flag = 0,
     service_name = [], method_name = [], body_data = []\<rparr>"

text \<open>The constructor. \<open>_clientfd\<close> and the numbers of \<open>_ri\<close> have no initialiser; 0 stands for them.\<close>

definition TcpConnection :: "ptr \<Rightarrow> bool \<Rightarrow> tcp" where
  "TcpConnection this loop =
     \<lparr>self = this, event_loop = loop, clientfd = 0, target_bytes = PROTOCAL_HEADER_LEN,
      header_process = 0, connect_status = 0, to_send_bytes = 0, active = False, ri = empty_request,
      read_buffer = Buffer MAX_BUFFER_SIZE, write_buffer = Buffer MAX_BUFFER_SIZE, out = []\<rparr>"

section \<open>Operations\<close>

definition disconnect_async :: "(tcp, bool) sm" where
  "disconnect_async c =
     (if \<not> event_loop c then (Inr False, c) else sthen (emit (Sqe_Close (clientfd c))) (sret True) c)"

definition accept :: "(tcp, bool) sm" where
  "accept c = sthen (emit Sqe_Accept) (sret True) c"

text \<open>
  \<open>read()\<close>: \<open>status & READABLE == 0\<close> parses as \<open>status & (READABLE == 0)\<close>. The compare-exchange
  puts back the value it read; a failure repeats the loop.
\<close>

definition read_guard :: "u8 \<Rightarrow> bool" where
  "read_guard connection_status \<longleftrightarrow>
     connection_status AND (if CONNECTION_STATUS_READABLE = 0 then 1 else 0) \<noteq> 0"

definition tcp_read :: "(tcp, unit) sm" where
  "tcp_read c =
     (if read_guard (connect_status c) then (Inr (), c)
      else sbind (slift (writevBegin (read_buffer c))) (\<lambda>iov. emit (Sqe_Read iov)) c)"

text \<open>\<open>send\<close>: when \<open>append\<close> throws, the exception leaves \<open>send\<close> with the partly filled buffer.\<close>

definition write_append :: "bytes \<Rightarrow> (tcp, nat) sm" where
  "write_append str c =
     (case append str (write_buffer c) of (r, wb) \<Rightarrow> (r, c\<lparr>write_buffer := wb\<rparr>))"

definition submit_writev :: "u8 \<Rightarrow> (tcp, unit) sm" where
  "submit_writev ev c =
     sbind (slift (readvBegin (write_buffer c))) (\<lambda>iov. emit (Sqe_Writev ev iov)) c"

definition tcp_send :: "bytes \<Rightarrow> (tcp, bool) sm" where
  "tcp_send str =
     sbind (write_append str) (\<lambda>ret.
     sthen (smodify (\<lambda>c. c\<lparr>to_send_bytes := to_send_bytes c + int ret\<rparr>)) (
     sthen (submit_writev USER_EVENT_WRITE) (sret True)))"

definition sendThenClose :: "bytes \<Rightarrow> (tcp, unit) sm" where
  "sendThenClose str =
     sbind (write_append str) (\<lambda>ret.
     sthen (submit_writev USER_EVENT_WRITE_THEN_CLOSE)
       (smodify (\<lambda>c. c\<lparr>write_buffer := hasRead ret (write_buffer c)\<rparr>)))"

definition setFd :: "int \<Rightarrow> (tcp, unit) sm" where
  "setFd fd = smodify (\<lambda>c. c\<lparr>clientfd := fd\<rparr>)"

text \<open>
  The calls of the client side. The system calls are parameters: \<open>::connect\<close> on the socket, whose result is
  \<open>ret\<close>, and \<open>::close\<close>. \<open>disconnect\<close> closes \<open>_clientfd\<close>, which \<open>connect\<close> never sets.
\<close>

definition connect :: "int \<Rightarrow> (tcp, bool) sm" where
  "connect ret = (if ret = 0 then sthen (smodify (\<lambda>c. c\<lparr>active := True\<rparr>)) (sret True) else sret False)"

definition disconnect :: "(int \<Rightarrow> int) \<Rightarrow> (tcp, bool) sm" where
  "disconnect close_fd c = (Inr (close_fd (clientfd c) = 0), c)"

definition is_connected :: "tcp \<Rightarrow> bool" where
  "is_connected c = active c"

lemma disconnected_still_connected:
  "fst (sthen (connect 0) (disconnect close_fd) (TcpConnection p l)) = Inr (close_fd 0 = 0) \<and>
   is_connected (snd (sthen (connect 0) (disconnect close_fd) (TcpConnection p l)))"
  by (simp add: connect_def disconnect_def is_connected_def TcpConnection_def sbind_def)

definition clearBuffer :: "(tcp, unit) sm" where
  "clearBuffer = smodify (\<lambda>c. c\<lparr>read_buffer := clear (read_buffer c), write_buffer := clear (write_buffer c)\<rparr>)"

definition retrieveAllAsString :: "(tcp, bytes) sm" where
  "retrieveAllAsString c =
     (case retrieveAllBufferAsString (read_buffer c) of
        Inl e \<Rightarrow> (Inl e, c) | Inr (s, rb) \<Rightarrow> (Inr s, c\<lparr>read_buffer := rb\<rparr>))"

definition recordWrittenBytes :: "nat \<Rightarrow> (tcp, unit) sm" where
  "recordWrittenBytes n = smodify (\<lambda>c. c\<lparr>read_buffer := hasWritten (n mod 2 ^ 16) (read_buffer c)\<rparr>)"

section \<open>Callbacks\<close>

definition callback_accepted :: "int \<Rightarrow> (tcp, unit) sm" where
  "callback_accepted res =
     (if res < 0 then sret ()
      else sthen (setFd res) (
           sthen (smodify (\<lambda>c. c\<lparr>connect_status := CONNECTION_STATUS_READABLE OR CONNECTION_STATUS_WRITABLE\<rparr>)) (
           sthen (emit Accept_Done) tcp_read)))"

text \<open>The three branches of the loop body, on the string \<open>str\<close> taken from the buffer.\<close>

definition on_ri :: "(request_info, 'a) sm \<Rightarrow> (tcp, 'a) sm" where
  "on_ri m c = (case m (ri c) of (r, i) \<Rightarrow> (r, c\<lparr>ri := i\<rparr>))"

definition handle_header :: "bytes \<Rightarrow> (tcp, unit) sm" where
  "handle_header str =
     sbind (on_ri (parserProtocalHeader str)) (\<lambda>ret.
     case ret of
       Some n \<Rightarrow> smodify (\<lambda>c. c\<lparr>target_bytes := n, header_process := 1\<rparr>)
     | None \<Rightarrow> slift (Inl (Thrown ''Bad Request For Protocal Header'')))"

definition handle_rpc_header :: "(bytes \<Rightarrow> rpc_header) \<Rightarrow> bytes \<Rightarrow> (tcp, unit) sm" where
  "handle_rpc_header ParseFromString str =
     sbind (on_ri (parserProtocalRpcHeader ParseFromString str)) (\<lambda>ret.
     case ret of
       Some n \<Rightarrow> smodify (\<lambda>c. c\<lparr>target_bytes := n, header_process := 2\<rparr>)
     | None \<Rightarrow> slift (Inl (Thrown ''Bad Request For Rpc Header'')))"

definition handle_body :: "bytes \<Rightarrow> (tcp, unit) sm" where
  "handle_body str =
     sbind (on_ri (parserProtocalBody str)) (\<lambda>_.
     sthen (smodify (\<lambda>c. c\<lparr>target_bytes := PROTOCAL_HEADER_LEN, header_process := 0,
                           ri := (ri c)\<lparr>conn := self c\<rparr>\<rparr>))
       (\<lambda>c. sthen (emit (Dispatch (ri c))) (smodify (\<lambda>c. c\<lparr>ri := moved_from (ri c)\<rparr>)) c))"

definition handle_part :: "(bytes \<Rightarrow> rpc_header) \<Rightarrow> bytes \<Rightarrow> (tcp, unit) sm" where
  "handle_part ParseFromString str c =
     (if header_process c = 0 then handle_header str c
      else if header_process c = 1 then handle_rpc_header ParseFromString str c
      else handle_body str c)"

definition parse_step :: "(bytes \<Rightarrow> rpc_header) \<Rightarrow> (tcp, unit) sm" where
  "parse_step ParseFromString c =
     (case read (target_bytes c) (read_buffer c) of
        Inl e \<Rightarrow> (Inl e, c)
      | Inr (str, rb) \<Rightarrow> handle_part ParseFromString str (c\<lparr>read_buffer := rb\<rparr>))"

text \<open>
  \<open>while (readableBytes >= _target_bytes) ...\<close> with the local counter \<open>readable\<close>, which every branch
  lowers by the target it had. Whether the loop ends is a theorem; \<open>None\<close> is a run that does not.
\<close>

partial_function (option) parse_loop ::
  "(bytes \<Rightarrow> rpc_header) \<Rightarrow> nat \<Rightarrow> tcp \<Rightarrow> (unit cxx \<times> tcp) option" where
  "parse_loop ParseFromString readable c =
     (if readable \<ge> target_bytes c then
        (case parse_step ParseFromString c of
           (Inl e, c') \<Rightarrow> Some (Inl e, c')
         | (Inr u, c') \<Rightarrow> parse_loop ParseFromString (readable - target_bytes c) c')
      else Some (Inr (), c))"

definition callback_read :: "(bytes \<Rightarrow> rpc_header) \<Rightarrow> int \<Rightarrow> tcp \<Rightarrow> (unit cxx \<times> tcp) option" where
  "callback_read ParseFromString res c =
     (if res < 0 then Some (Inr (), c)
      else if res = 0 then Some (sthen disconnect_async (sret ()) c)
      else let c1 = c\<lparr>read_buffer := hasWritten (nat res mod 2 ^ 16) (read_buffer c)\<rparr>
           in case parse_loop ParseFromString (readableBytes (read_buffer c1)) c1 of
                None \<Rightarrow> None
              | Some (Inl e, c2) \<Rightarrow> Some (Inl e, c2)
              | Some (Inr u, c2) \<Rightarrow> Some (tcp_read c2))"

definition callback_written :: "int \<Rightarrow> (tcp, unit) sm" where
  "callback_written res =
     (if res < 0 then sthen disconnect_async (sret ())
      else sthen (smodify (\<lambda>c. c\<lparr>write_buffer := hasRead (nat res mod 2 ^ 16) (write_buffer c),
                                  to_send_bytes := to_send_bytes c - res\<rparr>))
             (\<lambda>c. if to_send_bytes c > 0 then submit_writev USER_EVENT_WRITE c else (Inr (), c)))"

definition callback_closed :: "int \<Rightarrow> (tcp, unit) sm" where
  "callback_closed res = sthen clearBuffer (emit Send_Back)"

definition callback_written_then_close :: "int \<Rightarrow> (tcp, unit) sm" where
  "callback_written_then_close res = sthen disconnect_async (sret ())"

text \<open>\<open>do_io_uring\<close>: the completion of one operation. An unknown event prints a message.\<close>

definition do_io_uring :: "(bytes \<Rightarrow> rpc_header) \<Rightarrow> int \<Rightarrow> int \<Rightarrow> tcp \<Rightarrow> (unit cxx \<times> tcp) option" where
  "do_io_uring ParseFromString last_res ev c =
     (if ev = uint USER_EVENT_CLOSE then Some (callback_closed last_res c)
      else if ev = uint USER_EVENT_ACCEPT then Some (callback_accepted last_res c)
      else if ev = uint USER_EVENT_READ then callback_read ParseFromString last_res c
      else if ev = uint USER_EVENT_HANDLE then Some (Inr (), c)
      else if ev = uint USER_EVENT_WRITE_THEN_CLOSE then Some (callback_written_then_close last_res c)
      else if ev = uint USER_EVENT_WRITE then Some (callback_written last_res c)
      else Some (Inr (), c))"


section \<open>The byte-stream decoder\<close>

text \<open>
  The same loop on a list of unread bytes instead of the ring buffer. Its result is the outcome, the
  connection (whose read buffer it does not touch) and the bytes left.
\<close>

lemma handle_header_cases:
  "handle_header str c =
     (case parserProtocalHeader str (ri c) of
        (Inl e, i) \<Rightarrow> (Inl e, c\<lparr>ri := i\<rparr>)
      | (Inr (Some n), i) \<Rightarrow> (Inr (), c\<lparr>ri := i, target_bytes := n, header_process := 1\<rparr>)
      | (Inr None, i) \<Rightarrow> (Inl (Thrown ''Bad Request For Protocal Header''), c\<lparr>ri := i\<rparr>))"
  by (simp add: handle_header_def on_ri_def sbind_def split: prod.splits sum.splits option.splits)

lemma handle_rpc_header_eq:
  "handle_rpc_header P str c =
     (Inr (), c\<lparr>ri := (ri c)\<lparr>service_name := h_service_name (P str), method_name := h_method_name (P str)\<rparr>,
                target_bytes := unat (h_args_size (P str)) mod 2 ^ 16, header_process := 2\<rparr>)"
  by (simp add: handle_rpc_header_def on_ri_def sbind_def parserProtocalRpcHeader_def Let_def)

lemma handle_body_eq:
  "handle_body str c =
     (let r = (ri c)\<lparr>body_data := str, conn := self c\<rparr>
      in (Inr (), c\<lparr>target_bytes := 20, header_process := 0, ri := moved_from r, out := out c @ [Dispatch r]\<rparr>))"
  by (simp add: handle_body_def on_ri_def sbind_def parserProtocalBody_def emit_def Let_def
      PROTOCAL_HEADER_LEN_def)

lemma handle_part_header_len:
  "handle_part P str c = (Inr u, c') \<Longrightarrow> header_process c = 0 \<Longrightarrow> length str = 20"
  by (auto simp: handle_part_def handle_header_cases header_parser_cases split: if_splits)

definition phase_rank :: "tcp \<Rightarrow> nat" where
  "phase_rank c = (if header_process c = 0 then 0 else if header_process c = 1 then 2 else 1)"

lemma handle_part_rank:
  assumes "handle_part P str c = (Inr u, c')" and "header_process c \<noteq> 0"
  shows "phase_rank c' < phase_rank c"
  using assms
  by (auto simp: handle_part_def handle_rpc_header_eq handle_body_eq phase_rank_def Let_def split: if_splits)

function decode :: "(bytes \<Rightarrow> rpc_header) \<Rightarrow> tcp \<Rightarrow> bytes \<Rightarrow> unit cxx \<times> tcp \<times> bytes" where
  "decode P c bs =
     (if target_bytes c \<le> length bs then
        (case handle_part P (take (target_bytes c) bs) c of
           (Inl e, c') \<Rightarrow> (Inl e, c', drop (target_bytes c) bs)
         | (Inr u, c') \<Rightarrow> decode P c' (drop (target_bytes c) bs))
      else (Inr (), c, bs))"
  by pat_completeness auto
termination
proof (relation "measures [\<lambda>(P, c, bs). length bs, \<lambda>(P, c, bs). phase_rank c]")
  fix P c bs r c' u
  assume le: "target_bytes c \<le> length bs"
    and step: "(r, c') = handle_part P (take (target_bytes c) bs) c" "r = Inr u"
  show "((P, c', drop (target_bytes c) bs), P, c, bs)
      \<in> measures [\<lambda>(P, c, bs). length bs, \<lambda>(P, c, bs). phase_rank c]"
  proof (cases "header_process c = 0")
    case True
    with step handle_part_header_len [of P "take (target_bytes c) bs" c u c']
    have "length (take (target_bytes c) bs) = 20" by simp
    with le show ?thesis by auto
  next
    case False
    with handle_part_rank [of P _ c u c'] step have "phase_rank c' < phase_rank c" by metis
    then show ?thesis by auto
  qed
qed simp

declare decode.simps [simp del]

lemma decode_wait: "length bs < target_bytes c \<Longrightarrow> decode P c bs = (Inr (), c, bs)"
  by (simp add: decode.simps [of P c bs])

lemma decode_step:
  "target_bytes c \<le> length bs \<Longrightarrow>
   decode P c bs =
     (case handle_part P (take (target_bytes c) bs) c of
        (Inl e, c') \<Rightarrow> (Inl e, c', drop (target_bytes c) bs)
      | (Inr u, c') \<Rightarrow> decode P c' (drop (target_bytes c) bs))"
  by (subst decode.simps) simp

text \<open>The branches do not look at the read buffer and do not change it.\<close>

lemma handle_part_read_buffer:
  "handle_part P str (c\<lparr>read_buffer := rb\<rparr>) =
     (fst (handle_part P str c), (snd (handle_part P str c))\<lparr>read_buffer := rb\<rparr>)"
  by (simp add: handle_part_def handle_header_cases handle_rpc_header_eq handle_body_eq Let_def
      split: prod.splits sum.splits option.splits)

lemma decode_read_buffer:
  "decode P (c\<lparr>read_buffer := rb\<rparr>) bs =
     (case decode P c bs of (r, c', rest) \<Rightarrow> (r, c'\<lparr>read_buffer := rb\<rparr>, rest))"
proof (induction P c bs rule: decode.induct)
  case (1 P c bs)
  show ?case
  proof (cases "target_bytes c \<le> length bs")
    case True
    obtain r c' where h: "handle_part P (take (target_bytes c) bs) c = (r, c')" by fastforce
    with True 1 show ?thesis
      by (cases r) (simp_all add: decode_step handle_part_read_buffer)
  next
    case False
    then show ?thesis by (simp add: decode_wait)
  qed
qed

text \<open>Decoding does not depend on how the bytes are cut: what is left waits for what comes next.\<close>

lemma decode_append:
  "decode P c (xs @ ys) =
     (case decode P c xs of
        (Inl e, c', rest) \<Rightarrow> (Inl e, c', rest @ ys)
      | (Inr u, c', rest) \<Rightarrow> decode P c' (rest @ ys))"
proof (induction P c xs rule: decode.induct)
  case (1 P c xs)
  show ?case
  proof (cases "target_bytes c \<le> length xs")
    case True
    obtain r c' where h: "handle_part P (take (target_bytes c) xs) c = (r, c')" by fastforce
    with True 1 show ?thesis
      by (cases r) (simp_all add: decode_step)
  next
    case False
    then show ?thesis by (simp add: decode_wait)
  qed
qed

section \<open>The loop of the code computes the decoder\<close>

lemma parse_loop_decode:
  "buffer_wf rb \<Longrightarrow> content rb = bs \<Longrightarrow>
   \<exists>rb'. (case decode P c bs of (r, c', rest) \<Rightarrow>
     parse_loop P (readableBytes rb) (c\<lparr>read_buffer := rb\<rparr>) = Some (r, c'\<lparr>read_buffer := rb'\<rparr>) \<and>
     buffer_wf rb' \<and> content rb' = rest \<and> iov_valid rb' = iov_valid rb)"
proof (induction P c bs arbitrary: rb rule: decode.induct)
  case (1 P c bs)
  let ?n = "target_bytes c" and ?c = "c\<lparr>read_buffer := rb\<rparr>"
  have len: "length bs = readableBytes rb" using 1(3) by auto
  show ?case
  proof (cases "?n \<le> length bs")
    case False
    with len have "parse_loop P (readableBytes rb) ?c = Some (Inr (), ?c)"
      by (subst parse_loop.simps) simp
    with False 1(2,3) show ?thesis by (auto simp: decode_wait)
  next
    case True
    define rb1 where "rb1 = hasRead ?n rb"
    have rd: "read ?n rb = Inr (take ?n bs, rb1)"
      using True len 1(3) read_eq [OF 1(2), of ?n] by (simp add: rb1_def min_def)
    have wf1: "buffer_wf rb1" and c1: "content rb1 = drop ?n bs"
      using 1(2,3) True len by (simp_all add: rb1_def buffer_wf_hasRead content_hasRead)
    have v1: "iov_valid rb1 = iov_valid rb" by (simp add: rb1_def hasRead_def)
    have n1: "readableBytes rb1 = readableBytes rb - ?n"
      using c1 len by (metis length_content length_drop)
    obtain r c' where h: "handle_part P (take ?n bs) c = (r, c')" by fastforce
    then have step: "parse_step P ?c = (r, c'\<lparr>read_buffer := rb1\<rparr>)"
      using handle_part_read_buffer [of P "take ?n bs" rb1 c] by (simp add: parse_step_def rd)
    show ?thesis
    proof (cases r)
      case (Inl e)
      have "parse_loop P (readableBytes rb) ?c = Some (Inl e, c'\<lparr>read_buffer := rb1\<rparr>)"
        using True len step Inl by (subst parse_loop.simps) simp
      with True h Inl wf1 c1 v1 show ?thesis by (auto simp: decode_step)
    next
      case (Inr u)
      have "parse_loop P (readableBytes rb) ?c = parse_loop P (readableBytes rb1) (c'\<lparr>read_buffer := rb1\<rparr>)"
        using True len step Inr n1 by (subst parse_loop.simps) simp
      with 1(1) [OF True h [symmetric] Inr wf1 c1] True h Inr v1 show ?thesis
        by (simp add: decode_step)
    qed
  qed
qed

section \<open>A completed read\<close>

text \<open>
  The kernel stores the bytes \<open>d\<close> through the segments of the submitted read and completes it with
  their number. \<open>feed\<close> is a sequence of such completions.
\<close>

definition deliver :: "(bytes \<Rightarrow> rpc_header) \<Rightarrow> bytes \<Rightarrow> tcp \<Rightarrow> (unit cxx \<times> tcp) option" where
  "deliver P d c =
     callback_read P (int (length d))
       (c\<lparr>read_buffer := (read_buffer c)\<lparr>buf := scatter (writev_segments (read_buffer c)) d (buf (read_buffer c))\<rparr>\<rparr>)"

fun feed :: "(bytes \<Rightarrow> rpc_header) \<Rightarrow> bytes list \<Rightarrow> tcp \<Rightarrow> (unit cxx \<times> tcp) option" where
  "feed P [] c = Some (Inr (), c)"
| "feed P (d # ds) c =
     (case deliver P d c of Some (Inr u, c') \<Rightarrow> feed P ds c' | r \<Rightarrow> r)"

text \<open>Every chunk is non-empty and no longer than the space that is free when it arrives.\<close>

fun chunks_fit :: "(bytes \<Rightarrow> rpc_header) \<Rightarrow> bytes list \<Rightarrow> tcp \<Rightarrow> bool" where
  "chunks_fit P [] c \<longleftrightarrow> True"
| "chunks_fit P (d # ds) c \<longleftrightarrow>
     d \<noteq> [] \<and> length d \<le> writableBytes (read_buffer c) \<and>
     (case deliver P d c of Some (Inr u, c') \<Rightarrow> chunks_fit P ds c' | _ \<Rightarrow> True)"

fun dispatched :: "action list \<Rightarrow> request_info list" where
  "dispatched [] = []"
| "dispatched (Dispatch r # as) = r # dispatched as"
| "dispatched (_ # as) = dispatched as"

lemma dispatched_append [simp]: "dispatched (as @ bs) = dispatched as @ dispatched bs"
  by (induction as rule: dispatched.induct) simp_all

lemma tcp_read_eq:
  "iov_valid (read_buffer c) \<Longrightarrow>
   tcp_read c = (Inr (), c\<lparr>out := out c @ [Sqe_Read (writev_segments (read_buffer c))]\<rparr>)"
  by (simp add: tcp_read_def read_guard_def CONNECTION_STATUS_READABLE_def writevBegin_def emit_def sbind_def)

lemma callback_read_decode:
  assumes wf: "buffer_wf (hasWritten (nat res mod 2 ^ 16) (read_buffer c))"
    and iov: "iov_valid (read_buffer c)" and res: "0 < res"
  shows "\<exists>rb'. (case decode P c (content (hasWritten (nat res mod 2 ^ 16) (read_buffer c))) of (r, c', rest) \<Rightarrow>
     callback_read P res c = Some (r, c'\<lparr>read_buffer := rb',
        out := out c' @ (case r of Inl e \<Rightarrow> [] | Inr u \<Rightarrow> [Sqe_Read (writev_segments rb')])\<rparr>) \<and>
     buffer_wf rb' \<and> content rb' = rest \<and> iov_valid rb')"
proof -
  let ?b = "hasWritten (nat res mod 2 ^ 16) (read_buffer c)"
  obtain r c' rest where d: "decode P c (content ?b) = (r, c', rest)" by (metis prod.exhaust)
  with parse_loop_decode [OF wf refl, of P c] iov obtain rb' where
    "parse_loop P (readableBytes ?b) (c\<lparr>read_buffer := ?b\<rparr>) = Some (r, c'\<lparr>read_buffer := rb'\<rparr>)"
    and "buffer_wf rb'" "content rb' = rest" "iov_valid rb'"
    by (auto simp: hasWritten_def)
  with d res show ?thesis
    by (intro exI [of _ rb']) (auto simp: callback_read_def Let_def tcp_read_eq split: sum.split)
qed

lemma deliver_decode:
  assumes "buffer_wf (read_buffer c)" and "iov_valid (read_buffer c)"
    and "d \<noteq> []" and "length d \<le> writableBytes (read_buffer c)"
  shows "\<exists>rb'. (case decode P c (content (read_buffer c) @ d) of (r, c', rest) \<Rightarrow>
     deliver P d c = Some (r, c'\<lparr>read_buffer := rb',
        out := out c' @ (case r of Inl e \<Rightarrow> [] | Inr u \<Rightarrow> [Sqe_Read (writev_segments rb')])\<rparr>) \<and>
     buffer_wf rb' \<and> content rb' = rest \<and> iov_valid rb')"
proof -
  let ?b = "(read_buffer c)\<lparr>buf := scatter (writev_segments (read_buffer c)) d (buf (read_buffer c))\<rparr>"
  have small: "nat (int (length d)) mod 2 ^ 16 = length d"
    using assms(4) by (simp add: writableBytes_def MAX_BUFFER_SIZE_def)
  then have b: "hasWritten (nat (int (length d)) mod 2 ^ 16) ?b = received d (read_buffer c)"
    by (simp only: received_def)
  have pos: "0 < int (length d)" using assms(3) by simp
  have "buffer_wf (received d (read_buffer c))" "content (received d (read_buffer c)) = content (read_buffer c) @ d"
    by (rule buffer_wf_received [OF assms(1)], rule content_received [OF assms(1,4)])
  with callback_read_decode [of "int (length d)" "c\<lparr>read_buffer := ?b\<rparr>" P] assms(2) b pos
  show ?thesis
    by (simp add: deliver_def decode_read_buffer split: prod.splits)
qed

lemma TcpConnection_buffers [simp]:
  "read_buffer (TcpConnection this l) = Buffer MAX_BUFFER_SIZE"
  "write_buffer (TcpConnection this l) = Buffer MAX_BUFFER_SIZE"
  "target_bytes (TcpConnection this l) = 20" "header_process (TcpConnection this l) = 0"
  "out (TcpConnection this l) = []" "self (TcpConnection this l) = this"
  by (simp_all add: TcpConnection_def PROTOCAL_HEADER_LEN_def)

lemma new_buffer_facts [simp]:
  "iov_valid (Buffer n)" "writableBytes (Buffer n) = 1023" "buffer_wf (Buffer MAX_BUFFER_SIZE)"
  "content (Buffer n) = []"
  using buffer_wf_new
  by (simp_all add: Buffer_def writableBytes_def readableBytes_def content_def MAX_BUFFER_SIZE_def)

text \<open>C11: a read completion ends, whatever the bytes are, and does to the connection what the
  decoder of byte lists does with the unread bytes followed by the received ones; the bytes it did
  not consume stay in the buffer, and after a normal end the next read is submitted.\<close>

theorem deliver_refines_decode:
  assumes "buffer_wf (read_buffer c)" and "iov_valid (read_buffer c)"
    and "d \<noteq> []" and "length d \<le> writableBytes (read_buffer c)"
  shows "\<exists>rb'. (case decode P c (content (read_buffer c) @ d) of (r, c', rest) \<Rightarrow>
     deliver P d c = Some (r, c'\<lparr>read_buffer := rb',
        out := out c' @ (case r of Inl e \<Rightarrow> [] | Inr u \<Rightarrow> [Sqe_Read (writev_segments rb')])\<rparr>) \<and>
     buffer_wf rb' \<and> content rb' = rest \<and> iov_valid rb')"
  by (rule deliver_decode [OF assms])

theorem deliver_refines_decode_witness:
  "\<exists>rb'. deliver demo_parse [72, 99] (TcpConnection 7 True) =
     Some (Inr (), (TcpConnection 7 True)\<lparr>read_buffer := rb', out := [Sqe_Read (writev_segments rb')]\<rparr>) \<and>
     content rb' = [72, 99]"
  using deliver_refines_decode [of "TcpConnection 7 True" "[72, 99]" demo_parse]
  by (auto simp: decode_wait)

section \<open>Messages\<close>

lemma generate_eq:
  "generateStringFromProtocal S m = fixed_part m (length (S (header_of m))) @ S (header_of m) @ body_data m"
  by (simp add: generateStringFromProtocal_def Let_def)

text \<open>What the receiver needs of a request: its codec, and sizes that fit the parser's 16 bits.\<close>

definition sendable :: "(rpc_header \<Rightarrow> bytes) \<Rightarrow> (bytes \<Rightarrow> rpc_header) \<Rightarrow> request_info \<Rightarrow> bool" where
  "sendable S P m \<longleftrightarrow> P (S (header_of m)) = header_of m \<and> length (S (header_of m)) < 2 ^ 16 \<and>
     length (body_data m) < 2 ^ 16"

definition awaiting_header :: "tcp \<Rightarrow> bool" where
  "awaiting_header c \<longleftrightarrow> header_process c = 0 \<and> target_bytes c = 20"

lemma request_info_eqI:
  "conn r = conn s \<Longrightarrow> request_id r = request_id s \<Longrightarrow> version r = version s \<Longrightarrow>
   message_type r = message_type s \<Longrightarrow> status r = status s \<Longrightarrow> flag r = flag s \<Longrightarrow>
   service_name r = service_name s \<Longrightarrow> method_name r = method_name s \<Longrightarrow>
   body_data r = body_data s \<Longrightarrow> r = (s :: request_info)"
  by simp

text \<open>One message in front of the stream is dispatched, and the decoder goes on behind it.\<close>

lemma decode_message:
  assumes "awaiting_header c" and s: "sendable S P m"
  shows "decode P c (generateStringFromProtocal S m @ bs) =
     decode P (c\<lparr>ri := moved_from (m\<lparr>conn := self c\<rparr>), out := out c @ [Dispatch (m\<lparr>conn := self c\<rparr>)]\<rparr>) bs"
proof -
  let ?h = "S (header_of m)" and ?m = "m\<lparr>conn := self c\<rparr>"
  let ?F = "fixed_part m (length ?h)"
  let ?i = "(ri c)\<lparr>version := version m, message_type := message_type m, status := status m,
       flag := flag m, request_id := request_id m\<rparr>"
  define cA where "cA = c\<lparr>ri := ?i, target_bytes := length ?h, header_process := 1\<rparr>"
  define cB where "cB = cA\<lparr>ri := ?i\<lparr>service_name := service_name m, method_name := method_name m\<rparr>,
       target_bytes := length (body_data m), header_process := 2\<rparr>"
  have c: "header_process c = 0" "target_bytes c = 20"
    using assms(1) by (simp_all add: awaiting_header_def)
  have sz: "P ?h = header_of m" "length ?h < 65536" "length (body_data m) < 65536"
    using s by (simp_all add: sendable_def)
  have u: "unat (word_of_nat (length ?h) :: u32) = length ?h"
    "unat (word_of_nat (length (body_data m)) :: u32) = length (body_data m)"
    using sz by (simp_all add: unat_of_nat)
  have "parserProtocalHeader ?F (ri c) = (Inr (Some (length ?h)), ?i)"
    using sz fixed_part_fields(1) [of m "length ?h" "[]"] fixed_part_fields(2) [of m "length ?h"]
      fixed_part_fields(3) [of m "length ?h" "[]" "ri c"]
    by (simp add: header_parser_cases u Let_def)
  then have 1: "handle_part P ?F c = (Inr (), cA)"
    by (simp add: handle_part_def c handle_header_cases cA_def)
  have 2: "handle_part P ?h cA = (Inr (), cB)"
    using sz by (simp add: handle_part_def handle_rpc_header_eq u cA_def cB_def)
  have r: "?i\<lparr>service_name := service_name m, method_name := method_name m, body_data := body_data m,
      conn := self c\<rparr> = ?m"
    by simp
  have 3: "handle_part P (body_data m) cB =
      (Inr (), c\<lparr>ri := moved_from ?m, out := out c @ [Dispatch ?m]\<rparr>)"
    using c by (simp add: handle_part_def handle_body_eq Let_def r cA_def cB_def)
  have t: "target_bytes cA = length ?h" "target_bytes cB = length (body_data m)"
    by (simp_all add: cA_def cB_def)
  show ?thesis
    unfolding generate_eq append_assoc
    by (simp add: decode_step c 1 2 3 t)
qed

lemma decode_messages:
  assumes "awaiting_header c" and "\<forall>m \<in> set ms. sendable S P m"
  shows "\<exists>i. decode P c (concat (map (generateStringFromProtocal S) ms) @ bs) =
     decode P (c\<lparr>ri := i, out := out c @ map (\<lambda>m. Dispatch (m\<lparr>conn := self c\<rparr>)) ms\<rparr>) bs"
  using assms
proof (induction ms arbitrary: c)
  case Nil
  have "c = c\<lparr>ri := ri c, out := out c\<rparr>" by simp
  then show ?case by (metis append_Nil append_Nil2 concat.simps(1) list.simps(8))
next
  case (Cons m ms)
  let ?c = "c\<lparr>ri := moved_from (m\<lparr>conn := self c\<rparr>), out := out c @ [Dispatch (m\<lparr>conn := self c\<rparr>)]\<rparr>"
  have "awaiting_header ?c" using Cons.prems(1) by (simp add: awaiting_header_def)
  from Cons.IH [OF this] Cons.prems(2) obtain i where
    "decode P ?c (concat (map (generateStringFromProtocal S) ms) @ bs) =
       decode P (?c\<lparr>ri := i, out := out ?c @ map (\<lambda>m. Dispatch (m\<lparr>conn := self ?c\<rparr>)) ms\<rparr>) bs"
    by auto
  then show ?case
    using Cons.prems by (intro exI [of _ i]) (simp add: decode_message)
qed

lemma handle_part_out:
  "handle_part P str (c\<lparr>out := os\<rparr>) =
     (fst (handle_part P str (c\<lparr>out := []\<rparr>)),
      (snd (handle_part P str (c\<lparr>out := []\<rparr>)))\<lparr>out := os @ out (snd (handle_part P str (c\<lparr>out := []\<rparr>)))\<rparr>)"
  by (simp add: handle_part_def handle_header_cases handle_rpc_header_eq handle_body_eq Let_def
      split: prod.splits sum.splits option.splits)

text \<open>What a connection has already sent out does not influence decoding.\<close>

lemma decode_out:
  "decode P (c\<lparr>out := os\<rparr>) bs =
     (case decode P (c\<lparr>out := []\<rparr>) bs of (r, c', rest) \<Rightarrow> (r, c'\<lparr>out := os @ out c'\<rparr>, rest))"
proof (induction P c bs arbitrary: os rule: decode.induct)
  case (1 P c bs)
  let ?str = "take (target_bytes c) bs"
  show ?case
  proof (cases "target_bytes c \<le> length bs")
    case True
    obtain r c' where h: "handle_part P ?str c = (r, c')" by fastforce
    obtain r0 c0 where h0: "handle_part P ?str (c\<lparr>out := []\<rparr>) = (r0, c0)" by fastforce
    have eq: "r0 = r" "\<And>x. c'\<lparr>out := x\<rparr> = c0\<lparr>out := x\<rparr>"
      using handle_part_out [of P ?str "out c" c] h h0 by auto
    show ?thesis
    proof (cases r)
      case (Inl e)
      then show ?thesis
        using True h0 eq handle_part_out [of P ?str os c] by (simp add: decode_step)
    next
      case (Inr u)
      have IH: "decode P (c0\<lparr>out := os\<rparr>) (drop (target_bytes c) bs) =
          (case decode P (c0\<lparr>out := []\<rparr>) (drop (target_bytes c) bs) of
             (r, c', rest) \<Rightarrow> (r, c'\<lparr>out := os @ out c'\<rparr>, rest))" for os
        using 1 [OF True h [symmetric] Inr, of os] eq(2) by simp
      have "decode P c0 (drop (target_bytes c) bs) =
          (case decode P (c0\<lparr>out := []\<rparr>) (drop (target_bytes c) bs) of
             (r, c', rest) \<Rightarrow> (r, c'\<lparr>out := out c0 @ out c'\<rparr>, rest))"
        using IH [of "out c0"] by simp
      then show ?thesis
        using True h0 eq Inr handle_part_out [of P ?str os c] IH [of "os @ out c0"]
        by (simp add: decode_step split: prod.splits)
    qed
  next
    case False
    then show ?thesis by (simp add: decode_wait)
  qed
qed

lemma decode_quiescent: "decode P c bs = (Inr u, c', rest) \<Longrightarrow> length rest < target_bytes c'"
proof (induction P c bs rule: decode.induct)
  case (1 P c bs)
  show ?case
  proof (cases "target_bytes c \<le> length bs")
    case True
    obtain r d where h: "handle_part P (take (target_bytes c) bs) c = (r, d)" by fastforce
    with True 1(2) obtain v where "r = Inr v" by (cases r) (auto simp: decode_step)
    with 1 True h show ?thesis by (simp add: decode_step)
  next
    case False
    with 1(2) show ?thesis by (simp add: decode_wait)
  qed
qed

lemma read_buffer_out: "c\<lparr>read_buffer := rb, out := os\<rparr> = c\<lparr>out := os, read_buffer := rb\<rparr>"
  by simp

text \<open>
  A stream fed in chunks has the effect of decoding it at once; between two chunks only the submission
  of the next read is added to \<open>out\<close>.
\<close>

lemma feed_decode:
  assumes "buffer_wf (read_buffer c)" "iov_valid (read_buffer c)" "chunks_fit P ds c"
    and "readableBytes (read_buffer c) < target_bytes c"
    and "decode P c (content (read_buffer c) @ concat ds) = (Inr u, cf, rest)"
  shows "\<exists>c'. feed P ds c = Some (Inr (), c') \<and> dispatched (out c') = dispatched (out cf) \<and>
           content (read_buffer c') = rest \<and> header_process c' = header_process cf \<and>
           target_bytes c' = target_bytes cf \<and> write_buffer c' = write_buffer cf"
  using assms
proof (induction ds arbitrary: c cf)
  case Nil
  then show ?case by (auto simp: decode_wait)
next
  case (Cons d ds)
  let ?b = "read_buffer c"
  obtain r c1 rest1 where d1: "decode P c (content ?b @ d) = (r, c1, rest1)" by (metis prod.exhaust)
  have whole: "decode P c (content ?b @ concat (d # ds)) =
      (case decode P c (content ?b @ d) of
         (Inl e, c', rest) \<Rightarrow> (Inl e, c', rest @ concat ds)
       | (Inr u, c', rest) \<Rightarrow> decode P c' (rest @ concat ds))"
    using decode_append [of P c "content ?b @ d" "concat ds"] by simp
  with d1 Cons.prems(5) have r: "r = Inr ()" and d2: "decode P c1 (rest1 @ concat ds) = (Inr u, cf, rest)"
    by (auto split: sum.splits)
  have fit: "d \<noteq> []" "length d \<le> writableBytes ?b" using Cons.prems(3) by auto
  from deliver_decode [OF Cons.prems(1,2) fit, of P] d1 r obtain rb where
    del: "deliver P d c = Some (Inr (), c1\<lparr>read_buffer := rb, out := out c1 @ [Sqe_Read (writev_segments rb)]\<rparr>)"
    and rb: "buffer_wf rb" "content rb = rest1" "iov_valid rb" by auto
  let ?c = "c1\<lparr>read_buffer := rb, out := out c1 @ [Sqe_Read (writev_segments rb)]\<rparr>"
  obtain r0 c0 rest0 where d0: "decode P (c1\<lparr>out := []\<rparr>) (rest1 @ concat ds) = (r0, c0, rest0)"
    by (metis prod.exhaust)
  have e1: "r0 = Inr u" "rest0 = rest" "cf = c0\<lparr>out := out c1 @ out c0\<rparr>"
    using decode_out [of P "out c1" c1 "rest1 @ concat ds"] d2 d0 by auto
  have "decode P (c1\<lparr>out := out ?c\<rparr>) (rest1 @ concat ds) = (Inr u, c0\<lparr>out := out ?c @ out c0\<rparr>, rest)"
    using decode_out [of P "out ?c" c1 "rest1 @ concat ds"] d0 e1 by simp
  then have "decode P ((c1\<lparr>out := out ?c\<rparr>)\<lparr>read_buffer := rb\<rparr>) (rest1 @ concat ds) =
      (Inr u, (c0\<lparr>out := out ?c @ out c0\<rparr>)\<lparr>read_buffer := rb\<rparr>, rest)"
    by (subst decode_read_buffer) simp
  then have d3: "decode P ?c (content (read_buffer ?c) @ concat ds) =
      (Inr u, c0\<lparr>out := out ?c @ out c0, read_buffer := rb\<rparr>, rest)"
    using rb by (simp add: read_buffer_out)
  have "readableBytes rb = length rest1" using rb by auto
  then have q: "readableBytes (read_buffer ?c) < target_bytes ?c"
    using decode_quiescent [of P c "content ?b @ d" "()" c1 rest1] d1 r by simp
  have "chunks_fit P ds ?c" using Cons.prems(3) del by simp
  from Cons.IH [OF _ _ this q d3] rb del e1 show ?case by simp
qed

text \<open>C10: a client may send any sequence of well-formed requests, and the network may cut the
  stream anywhere: as long as every chunk fits into the free space, a new connection dispatches
  exactly these requests, in order, each with itself as the origin, and ends with an empty buffer,
  waiting for the next header.\<close>

theorem stream_dispatches_requests:
  assumes "\<forall>m \<in> set ms. sendable SerializeAsString ParseFromString m"
    and "concat ds = concat (map (generateStringFromProtocal SerializeAsString) ms)"
    and "chunks_fit ParseFromString ds (TcpConnection p True)"
  shows "\<exists>c. feed ParseFromString ds (TcpConnection p True) = Some (Inr (), c) \<and>
           dispatched (out c) = map (\<lambda>m. m\<lparr>conn := p\<rparr>) ms \<and> content (read_buffer c) = [] \<and>
           header_process c = 0 \<and> target_bytes c = 20"
proof -
  let ?c = "TcpConnection p True"
  have "awaiting_header ?c" by (simp add: awaiting_header_def)
  from decode_messages [OF this assms(1), of "[]"] obtain i where
    "decode ParseFromString ?c (concat ds) =
       (Inr (), ?c\<lparr>ri := i, out := map (\<lambda>m. Dispatch (m\<lparr>conn := p\<rparr>)) ms\<rparr>, [])"
    using assms(2) by (auto simp: decode_wait)
  moreover have "dispatched (map (\<lambda>m. Dispatch (m\<lparr>conn := p\<rparr>)) ms) = map (\<lambda>m. m\<lparr>conn := p\<rparr>) ms"
    by (induction ms) simp_all
  moreover have "readableBytes (Buffer MAX_BUFFER_SIZE) < target_bytes ?c"
    by (simp add: Buffer_def readableBytes_def)
  ultimately show ?thesis
    using feed_decode [of ?c ParseFromString ds] assms(3) by fastforce
qed

lemma demo_sendable: "sendable demo_serialize demo_parse demo_request"
  by (simp add: sendable_def demo_request_codec)

definition demo_message :: bytes where
  "demo_message = generateStringFromProtocal demo_serialize demo_request"

lemma length_demo_message: "length demo_message = 32"
  by (simp add: demo_message_def generate_eq)

lemma demo_message_not_Nil [simp]: "demo_message \<noteq> []"
  using length_demo_message by auto

theorem stream_dispatches_requests_witness:
  "\<exists>c. feed demo_parse [demo_message @ take 5 demo_message, drop 5 demo_message] (TcpConnection 7 True) =
         Some (Inr (), c) \<and>
       dispatched (out c) = [demo_request\<lparr>conn := 7\<rparr>, demo_request\<lparr>conn := 7\<rparr>]"
proof -
  let ?c = "TcpConnection 7 True" and ?d = "demo_message @ take 5 demo_message"
  have "awaiting_header ?c" by (simp add: awaiting_header_def)
  from decode_message [OF this demo_sendable, of "take 5 demo_message"] obtain c1 where
    "decode demo_parse ?c ?d = (Inr (), c1, take 5 demo_message)"
    by (simp add: decode_wait length_demo_message flip: demo_message_def)
  moreover have "?d \<noteq> []" "length ?d \<le> writableBytes (read_buffer ?c)"
    by (simp_all add: length_demo_message)
  ultimately obtain rb c2 where del: "deliver demo_parse ?d ?c = Some (Inr (), c2\<lparr>read_buffer := rb, out := out c1 @ [Sqe_Read (writev_segments rb)]\<rparr>)"
      and rb: "content rb = take 5 demo_message"
    using deliver_decode [of ?c ?d demo_parse] by auto
  have "readableBytes rb = 5"
    unfolding length_content [symmetric] rb by (simp add: length_demo_message)
  then have "writableBytes rb = 1018"
    by (simp add: writableBytes_def MAX_BUFFER_SIZE_def)
  then have "chunks_fit demo_parse [?d, drop 5 demo_message] ?c"
    using del by (auto simp: length_demo_message split: option.splits sum.splits)
  then show ?thesis
    using stream_dispatches_requests [of "[demo_request, demo_request]" demo_serialize demo_parse
        "[?d, drop 5 demo_message]" 7] demo_sendable
    by (auto simp: demo_message_def)
qed

section \<open>Malformed input\<close>

text \<open>A wrong magic number is not rejected. When the protobuf parser reads an empty header as
  the default message, the 20 bytes are dispatched as a request with empty names and an empty body,
  and with the identifier and the flags of the request parsed before.\<close>

theorem bad_magic_dispatches_stale_request:
  assumes "awaiting_header c" and "length s = 20" and "\<not> magic_ok s"
    and "ParseFromString [] = \<lparr>h_service_name = [], h_method_name = [], h_args_size = 0\<rparr>"
  shows "decode ParseFromString c (s @ bs) =
     (let r = (ri c)\<lparr>service_name := [], method_name := [], body_data := [], conn := self c\<rparr>
      in decode ParseFromString (c\<lparr>ri := r, out := out c @ [Dispatch r]\<rparr>) bs)"
proof -
  let ?P = ParseFromString
  let ?r = "(ri c)\<lparr>service_name := [], method_name := [], body_data := [], conn := self c\<rparr>"
  have c: "header_process c = 0" "target_bytes c = 20"
    using assms(1) by (simp_all add: awaiting_header_def)
  define cA where "cA = c\<lparr>target_bytes := 0, header_process := 1\<rparr>"
  define cB where "cB = cA\<lparr>ri := (ri c)\<lparr>service_name := [], method_name := []\<rparr>, header_process := 2\<rparr>"
  have t: "target_bytes cA = 0" "target_bytes cB = 0" by (simp_all add: cA_def cB_def)
  have 1: "handle_part ?P s c = (Inr (), cA)"
    using assms(2,3) by (simp add: handle_part_def c handle_header_cases header_parser_cases cA_def)
  have 2: "handle_part ?P [] cA = (Inr (), cB)"
    using assms(4) by (simp add: handle_part_def handle_rpc_header_eq cA_def cB_def)
  have 3: "handle_part ?P [] cB = (Inr (), c\<lparr>ri := ?r, out := out c @ [Dispatch ?r]\<rparr>)"
    using c by (simp add: handle_part_def handle_body_eq Let_def moved_from_def cA_def cB_def)
  show ?thesis
    using assms(2) by (simp add: decode_step c 1 2 3 t Let_def)
qed

theorem bad_magic_dispatches_stale_request_witness:
  "dispatched (out (fst (snd (decode (\<lambda>_. \<lparr>h_service_name = [], h_method_name = [], h_args_size = 0\<rparr>)
     (TcpConnection 7 True) (replicate 20 65))))) = [empty_request\<lparr>conn := 7\<rparr>]"
proof -
  let ?s = "replicate 20 65 :: bytes"
  have "\<not> magic_ok ?s"
    by (simp add: magic_ok_def MagicNumber_def eval_nat_numeral) code_simp
  then show ?thesis
    using bad_magic_dispatches_stale_request [of "TcpConnection 7 True" ?s
        "\<lambda>_. \<lparr>h_service_name = [], h_method_name = [], h_args_size = 0\<rparr>" "[]"]
    by (simp add: awaiting_header_def Let_def decode_wait TcpConnection_def PROTOCAL_HEADER_LEN_def
        empty_request_def)
qed

text \<open>A part longer than the 1023 bytes the ring buffer can hold is never consumed: once the
  connection waits for one, every later completion leaves it waiting for the same part, with nothing
  dispatched.\<close>

theorem oversized_part_stalls:
  assumes "MAX_BUFFER_SIZE \<le> target_bytes c" and "buffer_wf (read_buffer c)" and "iov_valid (read_buffer c)"
    and "0 < res"
  shows "\<exists>rb. callback_read ParseFromString res c =
     Some (Inr (), c\<lparr>read_buffer := rb, out := out c @ [Sqe_Read (writev_segments rb)]\<rparr>) \<and>
     buffer_wf rb \<and> iov_valid rb"
proof -
  let ?b = "hasWritten (nat res mod 2 ^ 16) (read_buffer c)"
  have wf: "buffer_wf ?b" using assms(2) by (simp add: buffer_wf_def hasWritten_def)
  then have "readableBytes ?b < target_bytes c" using assms(1) readable_less [OF wf] by simp
  then show ?thesis
    using callback_read_decode [OF wf assms(3,4), of ParseFromString] by (auto simp: decode_wait)
qed

theorem oversized_part_stalls_witness:
  "\<exists>rb. callback_read demo_parse 500 ((TcpConnection 7 True)\<lparr>target_bytes := 3000\<rparr>) =
     Some (Inr (), (TcpConnection 7 True)\<lparr>target_bytes := 3000, read_buffer := rb,
                     out := [Sqe_Read (writev_segments rb)]\<rparr>)"
  using oversized_part_stalls [of "(TcpConnection 7 True)\<lparr>target_bytes := 3000\<rparr>" 500 demo_parse]
  using buffer_wf_new by (auto simp: MAX_BUFFER_SIZE_def)

lemma tcp_send_cases:
  assumes "buffer_wf (write_buffer c)" and "iov_valid (write_buffer c)"
    and "length str \<le> writableBytes (write_buffer c)"
  shows "\<exists>wb. content wb = content (write_buffer c) @ str \<and> buffer_wf wb \<and> readIndex wb = readIndex (write_buffer c) \<and>
     (let c' = c\<lparr>write_buffer := wb, to_send_bytes := to_send_bytes c + int (length str)\<rparr>
      in tcp_send str c =
         (if readableBytes wb = 15 \<and> (readIndex wb \<le> writeIndex wb \<or> writeIndex wb = 0)
          then (Inr True, c'\<lparr>out := out c @ [Sqe_Writev USER_EVENT_WRITE (readv_segments wb)]\<rparr>)
          else (Inl Assert_Failed, c')))"
proof -
  from append_fits [OF assms(1,3)] assms(2) obtain wb where
    a: "append str (write_buffer c) = (Inr (length str), wb)" and wb: "buffer_wf wb"
      "content wb = content (write_buffer c) @ str" and v: "iov_valid wb"
    and "readIndex wb = readIndex (write_buffer c)" by auto
  then show ?thesis
    by (intro exI [of _ wb])
      (simp add: tcp_send_def write_append_def submit_writev_def sbind_def emit_def Let_def readvBegin_eq)
qed



end
