(* ===== verification/Conn_Manager.thy ===== *)
theory Conn_Manager
  imports Fifo
begin

text \<open>
  The class \<open>ConnectionManager\<close> of include/Rpc/connection_pool.h and src/Rpc/connection_pool.cc: the
  counters and the idle list of pooled connections, as one event loop thread uses them. A connection
  is named by the number of its allocation. The vendored \<open>ConcurrentQueue\<close> behind the idle list is a
  list (one thread, one producer: first in, first out). Counters are integers; they stay far below the
  range of \<open>int\<close> because the limit does. \<open>accepts\<close> collects the connections whose accept was
  submitted to io_uring.
\<close>

section \<open>State and operations\<close>

record manager =
  upper_limit_count :: int
  outer_count :: int
  accepting_count :: int
  allocated_count :: int
  total_count :: int
  idle_pool :: "nat list"
  next_connection :: nat
  accepts :: "nat list"

definition try_dequeue :: "'a list \<Rightarrow> ('a \<times> 'a list) option" where
  "try_dequeue q = (case q of [] \<Rightarrow> None | x # xs \<Rightarrow> Some (x, xs))"

definition enqueue :: "'a \<Rightarrow> 'a list \<Rightarrow> 'a list" where
  "enqueue x q = q @ [x]"

text \<open>\<open>size_approx() < add_size\<close> converts \<open>add_size\<close> to \<open>size_t\<close>: a negative number is larger than any size.\<close>

definition size_less :: "nat \<Rightarrow> int \<Rightarrow> bool" where
  "size_less n i \<longleftrightarrow> i < 0 \<or> int n < i"

fun expand_loop :: "nat \<Rightarrow> manager \<Rightarrow> manager" where
  "expand_loop 0 m = m"
| "expand_loop (Suc k) m =
     expand_loop k (m\<lparr>allocated_count := allocated_count m + 1,
                      idle_pool := enqueue (next_connection m) (idle_pool m),
                      next_connection := Suc (next_connection m)\<rparr>)"

definition expandConnections :: "int \<Rightarrow> manager \<Rightarrow> manager" where
  "expandConnections sz m =
     expand_loop (nat (min sz (upper_limit_count m - outer_count m - accepting_count m))) m"

definition ConnectionManager :: "int \<Rightarrow> int \<Rightarrow> manager" where
  "ConnectionManager init_conn max_conn =
     expandConnections init_conn
       \<lparr>upper_limit_count = max_conn, outer_count = 0, accepting_count = 0, allocated_count = 0,
        total_count = 0, idle_pool = [], next_connection = 0, accepts = []\<rparr>"

text \<open>The loops of the two accepting operations; only the second counts what it submits.\<close>

fun accept_loop :: "bool \<Rightarrow> nat \<Rightarrow> manager \<Rightarrow> manager" where
  "accept_loop counted 0 m = m"
| "accept_loop counted (Suc k) m =
     (case try_dequeue (idle_pool m) of
        None \<Rightarrow> m
      | Some (tc, q) \<Rightarrow>
          accept_loop counted k
            (m\<lparr>idle_pool := q, accepting_count := accepting_count m + (if counted then 1 else 0),
               accepts := accepts m @ [tc]\<rparr>))"

definition acceptConnection :: "int \<Rightarrow> manager \<Rightarrow> manager" where
  "acceptConnection sz m =
     (let add_size = min sz (upper_limit_count m - outer_count m - accepting_count m);
          m1 = (if size_less (length (idle_pool m)) add_size then expandConnections (2 * add_size) m else m)
      in accept_loop False (nat add_size) m1)"

definition acceptForCount :: "int \<Rightarrow> manager \<Rightarrow> manager" where
  "acceptForCount sz m =
     (let add_size = min (sz - accepting_count m) (upper_limit_count m - outer_count m - accepting_count m);
          m1 = (if size_less (length (idle_pool m)) add_size then expandConnections (2 * add_size) m else m)
      in accept_loop True (nat add_size) m1)"

definition sendBack :: "nat \<Rightarrow> manager \<Rightarrow> manager" where
  "sendBack tc m = m\<lparr>idle_pool := enqueue tc (idle_pool m), outer_count := outer_count m - 1,
                     total_count := total_count m + 1\<rparr>"

definition acceptDone :: "manager \<Rightarrow> manager" where
  "acceptDone m = m\<lparr>accepting_count := accepting_count m - 1, outer_count := outer_count m + 1\<rparr>"

definition getActiveCoon :: "manager \<Rightarrow> int" where
  "getActiveCoon m = outer_count m"

text \<open>
  The destructor: \<open>while(_allocated_count)\<close> deletes what it dequeues; when the queue is empty the
  pointer it deletes is uninitialised. The result is the list of deleted connections.
\<close>

fun destroy_loop :: "int \<Rightarrow> nat list \<Rightarrow> nat list \<Rightarrow> nat list cxx" where
  "destroy_loop allocated [] deleted = (if allocated \<noteq> 0 then Inl Undefined else Inr deleted)"
| "destroy_loop allocated (tc # q) deleted =
     (if allocated \<noteq> 0 then destroy_loop allocated q (deleted @ [tc]) else Inr deleted)"

definition destroy_ConnectionManager :: "manager \<Rightarrow> nat list cxx" where
  "destroy_ConnectionManager m = destroy_loop (allocated_count m) (idle_pool m) []"

section \<open>The pool over time\<close>

text \<open>
  \<open>pending\<close>: accepts submitted and not completed; \<open>active\<close>: accepted and not closed; \<open>lost\<close>: accepts that
  completed with an error, which \<open>callback_accepted\<close> ignores, so that nothing refers to the connection
  any more. The steps are those of the event loop with a fixed count \<open>k\<close>.
\<close>

record pool =
  mgr :: manager
  pending :: "nat set"
  active :: "nat set"
  lost :: "nat set"

definition fill :: "int \<Rightarrow> pool \<Rightarrow> pool" where
  "fill k s = (let m = acceptForCount k ((mgr s)\<lparr>accepts := []\<rparr>)
     in s\<lparr>mgr := m, pending := pending s \<union> set (accepts m)\<rparr>)"

inductive pool_step :: "int \<Rightarrow> pool \<Rightarrow> pool \<Rightarrow> bool" for k where
  Fill: "pool_step k s (fill k s)"
| Accepted: "tc \<in> pending s \<Longrightarrow>
    pool_step k s (s\<lparr>mgr := acceptDone (mgr s), pending := pending s - {tc}, active := insert tc (active s)\<rparr>)"
| Accept_failed: "tc \<in> pending s \<Longrightarrow>
    pool_step k s (s\<lparr>pending := pending s - {tc}, lost := insert tc (lost s)\<rparr>)"
| Closed: "tc \<in> active s \<Longrightarrow>
    pool_step k s (s\<lparr>mgr := sendBack tc (mgr s), active := active s - {tc}\<rparr>)"

inductive pool_reachable :: "int \<Rightarrow> int \<Rightarrow> int \<Rightarrow> pool \<Rightarrow> bool" for k init limit where
  Start: "pool_reachable k init limit
    \<lparr>mgr = ConnectionManager init limit, pending = {}, active = {}, lost = {}\<rparr>"
| Step: "pool_reachable k init limit s \<Longrightarrow> pool_step k s s' \<Longrightarrow> pool_reachable k init limit s'"

inductive_cases pool_stepE: "pool_step k s s'"

text \<open>Every allocated connection is in exactly one place, and the counters count these places.\<close>

definition pool_inv :: "int \<Rightarrow> int \<Rightarrow> pool \<Rightarrow> bool" where
  "pool_inv k limit s \<longleftrightarrow>
     (let m = mgr s in
      finite (pending s) \<and> finite (active s) \<and> finite (lost s) \<and> distinct (idle_pool m) \<and>
      set (idle_pool m) \<inter> pending s = {} \<and> set (idle_pool m) \<inter> active s = {} \<and>
      set (idle_pool m) \<inter> lost s = {} \<and> pending s \<inter> active s = {} \<and> pending s \<inter> lost s = {} \<and>
      active s \<inter> lost s = {} \<and>
      set (idle_pool m) \<union> pending s \<union> active s \<union> lost s = {..<next_connection m} \<and>
      allocated_count m = int (next_connection m) \<and>
      outer_count m = int (card (active s)) \<and>
      accepting_count m = int (card (pending s)) + int (card (lost s)) \<and>
      upper_limit_count m = limit \<and> outer_count m + accepting_count m \<le> max 0 limit)"

interpretation idle: queue "\<lambda>_. True" "\<lambda>q. q" enqueue try_dequeue
  by unfold_locales (auto simp: enqueue_def try_dequeue_def split: list.splits)

section \<open>The loops in closed form\<close>

lemma expand_loop_eq:
  "expand_loop k m = m\<lparr>allocated_count := allocated_count m + int k,
     idle_pool := idle_pool m @ [next_connection m..<next_connection m + k],
     next_connection := next_connection m + k\<rparr>"
proof (induction k arbitrary: m)
  case (Suc k)
  have "[next_connection m..<next_connection m + Suc k] =
      next_connection m # [Suc (next_connection m)..<Suc (next_connection m) + k]"
    by (simp add: upt_conv_Cons)
  then show ?case by (simp add: Suc enqueue_def)
qed simp

lemma accept_loop_eq:
  "k \<le> length (idle_pool m) \<Longrightarrow>
   accept_loop b k m = m\<lparr>idle_pool := drop k (idle_pool m),
     accepting_count := accepting_count m + (if b then int k else 0),
     accepts := accepts m @ take k (idle_pool m)\<rparr>"
  by (induction k arbitrary: m) (auto simp: try_dequeue_def split: list.splits)

definition free_slots :: "manager \<Rightarrow> int" where
  "free_slots m = upper_limit_count m - outer_count m - accepting_count m"

lemma expandConnections_eq:
  "expandConnections n m = (let j = nat (min n (free_slots m)) in
     m\<lparr>allocated_count := allocated_count m + int j,
       idle_pool := idle_pool m @ [next_connection m..<next_connection m + j],
       next_connection := next_connection m + j\<rparr>)"
  by (simp add: expandConnections_def expand_loop_eq free_slots_def Let_def algebra_simps)

text \<open>How many connections \<open>acceptForCount\<close> submits, and how many it has to allocate for that.\<close>

definition missing :: "int \<Rightarrow> manager \<Rightarrow> int" where
  "missing k m = min (k - accepting_count m) (free_slots m)"

definition to_allocate :: "int \<Rightarrow> manager \<Rightarrow> nat" where
  "to_allocate k m =
     (if int (length (idle_pool m)) < missing k m then nat (min (2 * missing k m) (free_slots m)) else 0)"

lemma missing_covered: "nat (missing k m) \<le> length (idle_pool m) + to_allocate k m"
proof -
  have "missing k m \<le> free_slots m" by (simp add: missing_def)
  then show ?thesis unfolding to_allocate_def by (cases "0 \<le> missing k m") auto
qed

lemma acceptForCount_eq:
  "acceptForCount k m =
     (let j = nat (missing k m); n = to_allocate k m; q = idle_pool m @ [next_connection m..<next_connection m + n]
      in m\<lparr>allocated_count := allocated_count m + int n, next_connection := next_connection m + n,
           idle_pool := drop j q, accepting_count := accepting_count m + int j,
           accepts := accepts m @ take j q\<rparr>)"
proof -
  let ?n = "to_allocate k m" and ?j = "nat (missing k m)"
  let ?m1 = "m\<lparr>allocated_count := allocated_count m + int ?n,
       idle_pool := idle_pool m @ [next_connection m..<next_connection m + ?n],
       next_connection := next_connection m + ?n\<rparr>"
  have m1: "(if size_less (length (idle_pool m)) (missing k m) then expandConnections (2 * missing k m) m else m) = ?m1"
    by (auto simp: size_less_def expandConnections_eq to_allocate_def Let_def)
  have "?j \<le> length (idle_pool ?m1)"
    using missing_covered [of k m] by simp
  then have "accept_loop True ?j ?m1 = ?m1\<lparr>idle_pool := drop ?j (idle_pool ?m1),
     accepting_count := accepting_count ?m1 + int ?j, accepts := accepts ?m1 @ take ?j (idle_pool ?m1)\<rparr>"
    by (simp add: accept_loop_eq)
  then show ?thesis
    by (simp add: acceptForCount_def Let_def m1 missing_def [symmetric] free_slots_def [symmetric])
qed

section \<open>Invariant\<close>

lemma card_take_disjoint:
  assumes "distinct q" "finite A" "set q \<inter> A = {}" "j \<le> length q"
  shows "card (A \<union> set (take j q)) = card A + j"
proof -
  have "A \<inter> set (take j q) = {}" using assms(3) set_take_subset [of j q] by blast
  then show ?thesis
    using assms by (simp add: card_Un_disjoint distinct_card)
qed

lemma int_card_remove: "finite A \<Longrightarrow> x \<in> A \<Longrightarrow> int (card A - Suc 0) = int (card A) - 1"
  using card_gt_0_iff [of A] by (cases "card A") auto

lemma split_places:
  assumes "T \<union> D = Q" "T \<inter> D = {}" "Q \<inter> P = {}" "Q \<inter> A = {}" "Q \<inter> L = {}" "P \<inter> A = {}" "P \<inter> L = {}"
    "Q \<union> P \<union> A \<union> L = U"
  shows "D \<inter> (P \<union> T) = {}" "D \<inter> A = {}" "D \<inter> L = {}" "(P \<union> T) \<inter> A = {}" "(P \<union> T) \<inter> L = {}"
    "D \<union> (P \<union> T) \<union> A \<union> L = U"
  using assms by auto

lemma pool_inv_fill:
  assumes "pool_inv k limit s"
  shows "pool_inv k limit (fill k s)"
proof -
  let ?m = "(mgr s)\<lparr>accepts := []\<rparr>"
  let ?j = "nat (missing k ?m)" and ?n = "to_allocate k ?m"
  let ?q = "idle_pool ?m @ [next_connection ?m..<next_connection ?m + ?n]"
  note inv = assms [unfolded pool_inv_def Let_def]
  have sub: "set (idle_pool ?m) \<subseteq> {..<next_connection ?m}" "pending s \<subseteq> {..<next_connection ?m}"
    "active s \<subseteq> {..<next_connection ?m}" "lost s \<subseteq> {..<next_connection ?m}"
    using inv by auto
  have dis: "distinct ?q" using inv sub(1) by auto
  have new: "set ?q \<inter> A = {}" if "set (idle_pool ?m) \<inter> A = {}" "A \<subseteq> {..<next_connection ?m}" for A
    using that by auto
  have qd: "set ?q \<inter> pending s = {}" "set ?q \<inter> active s = {}" "set ?q \<inter> lost s = {}"
    using inv sub by (auto intro!: new)
  have j: "?j \<le> length ?q"
    using missing_covered [of k ?m] by simp
  have dr: "distinct (drop ?j ?q)" using dis by (rule distinct_drop)
  have parts: "set (take ?j ?q) \<union> set (drop ?j ?q) = set ?q" "set (take ?j ?q) \<inter> set (drop ?j ?q) = {}"
    by (rule set_take_Un_drop, rule set_take_disj_set_drop_if_distinct [OF dis]) simp
  have all: "set ?q \<union> pending s \<union> active s \<union> lost s = {..<next_connection ?m + ?n}"
  proof -
    have "set ?q \<union> pending s \<union> active s \<union> lost s =
        (set (idle_pool ?m) \<union> pending s \<union> active s \<union> lost s) \<union> {next_connection ?m..<next_connection ?m + ?n}"
      by auto
    also have "\<dots> = {..<next_connection ?m} \<union> {next_connection ?m..<next_connection ?m + ?n}"
      using inv by simp
    finally show ?thesis by (simp add: ivl_disj_un)
  qed
  have le: "outer_count ?m + accepting_count ?m + int ?j \<le> max 0 limit"
    using inv by (auto simp: missing_def free_slots_def)
  have mgr: "mgr (fill k s) = ?m\<lparr>allocated_count := allocated_count ?m + int ?n,
      next_connection := next_connection ?m + ?n, idle_pool := drop ?j ?q,
      accepting_count := accepting_count ?m + int ?j, accepts := take ?j ?q\<rparr>"
    and rest: "pending (fill k s) = pending s \<union> set (take ?j ?q)" "active (fill k s) = active s"
      "lost (fill k s) = lost s"
    by (simp_all add: fill_def acceptForCount_eq Let_def)
  have card: "card (pending s \<union> set (take ?j ?q)) = card (pending s) + ?j"
    using inv qd by (intro card_take_disjoint dis j) auto
  have PA: "pending s \<inter> active s = {}" "pending s \<inter> lost s = {}" using inv by auto
  note places = split_places [OF parts qd PA all]
  show ?thesis
    unfolding pool_inv_def Let_def mgr rest
    using inv places dr card le by (simp only: manager.simps finite_Un finite_set) simp
qed

lemma pool_inv_step: "pool_step k s s' \<Longrightarrow> pool_inv k limit s \<Longrightarrow> pool_inv k limit s'"
proof (induction rule: pool_step.induct)
  case (Fill s)
  then show ?case by (rule pool_inv_fill)
next
  case (Accepted tc s)
  then have "int (card (pending s) - Suc 0) = int (card (pending s)) - 1" "tc \<notin> active s"
    by (auto simp: pool_inv_def Let_def intro: int_card_remove)
  with Accepted show ?case
    by (auto simp: pool_inv_def Let_def acceptDone_def)
next
  case (Accept_failed tc s)
  then have "int (card (pending s) - Suc 0) = int (card (pending s)) - 1" "tc \<notin> lost s"
    by (auto simp: pool_inv_def Let_def intro: int_card_remove)
  with Accept_failed show ?case
    by (auto simp: pool_inv_def Let_def)
next
  case (Closed tc s)
  then have "int (card (active s) - Suc 0) = int (card (active s)) - 1" "tc \<notin> set (idle_pool (mgr s))"
    by (auto simp: pool_inv_def Let_def intro: int_card_remove)
  with Closed show ?case
    by (auto simp: pool_inv_def Let_def sendBack_def enqueue_def)
qed

lemma pool_inv_start: "pool_inv k limit \<lparr>mgr = ConnectionManager init limit, pending = {}, active = {}, lost = {}\<rparr>"
  by (auto simp: pool_inv_def ConnectionManager_def expandConnections_eq Let_def)

lemma pool_reachable_inv: "pool_reachable k init limit s \<Longrightarrow> pool_inv k limit s"
  by (induction rule: pool_reachable.induct) (simp_all add: pool_inv_start pool_inv_step)

section \<open>Properties\<close>


definition demo_pool :: pool where
  "demo_pool = (let s = fill 2 \<lparr>mgr = ConnectionManager 1 3, pending = {}, active = {}, lost = {}\<rparr>
     in s\<lparr>mgr := acceptDone (mgr s), pending := pending s - {0}, active := insert 0 (active s)\<rparr>)"

lemma demo_pool_reachable: "pool_reachable 2 1 3 demo_pool"
proof -
  let ?s = "\<lparr>mgr = ConnectionManager 1 3, pending = {}, active = {}, lost = {}\<rparr>"
  have "pool_reachable 2 1 3 (fill 2 ?s)" by (rule Step [OF Start Fill])
  moreover have "0 \<in> pending (fill 2 ?s)"
    by (simp add: fill_def acceptForCount_eq ConnectionManager_def expandConnections_eq Let_def missing_def
        free_slots_def to_allocate_def)
  ultimately show ?thesis
    unfolding demo_pool_def Let_def by (rule Step [OF _ Accepted])
qed


text \<open>One call of \<open>acceptForCount\<close> brings the number of accepting connections up to the asked
  count, or as far as the limit allows, never lowers it, and submits exactly the difference, whatever
  is idle: it allocates what is missing.\<close>

theorem acceptForCount_reaches_target:
  "accepting_count (acceptForCount k m) =
     max (accepting_count m) (min k (upper_limit_count m - outer_count m)) \<and>
   outer_count (acceptForCount k m) = outer_count m \<and>
   (\<exists>new. accepts (acceptForCount k m) = accepts m @ new \<and>
     int (length new) = accepting_count (acceptForCount k m) - accepting_count m)"
proof -
  have "nat (missing k m) \<le> length (idle_pool m @ [next_connection m..<next_connection m + to_allocate k m])"
    using missing_covered [of k m] by simp
  then show ?thesis
    by (auto simp: acceptForCount_eq Let_def missing_def free_slots_def)
qed

text \<open>Once as many accepts have failed as the loop keeps in flight, the server accepts no
  connection any more: filling up changes nothing and submits nothing.\<close>

theorem failed_accepts_stall_server:
  assumes "pool_reachable k init limit s" and "k \<le> int (card (lost s))"
  shows "accepts (mgr (fill k s)) = [] \<and> pending (fill k s) = pending s \<and>
         accepting_count (mgr (fill k s)) = accepting_count (mgr s)"
proof -
  have "k \<le> accepting_count (mgr s)"
    using pool_reachable_inv [OF assms(1)] assms(2) by (simp add: pool_inv_def Let_def)
  then have "nat (missing k ((mgr s)\<lparr>accepts := []\<rparr>)) = 0" by (simp add: missing_def)
  then show ?thesis
    by (simp add: fill_def acceptForCount_eq Let_def)
qed

theorem failed_accepts_stall_server_witness:
  "\<exists>s. pool_reachable 1 1 3 s \<and> lost s = {0} \<and> accepts (mgr (fill 1 s)) = []"
proof -
  let ?s = "fill 1 \<lparr>mgr = ConnectionManager 1 3, pending = {}, active = {}, lost = {}\<rparr>"
  let ?t = "?s\<lparr>pending := pending ?s - {0}, lost := insert 0 (lost ?s)\<rparr>"
  have "pool_reachable 1 1 3 ?s" by (rule Step [OF Start Fill])
  moreover have "0 \<in> pending ?s"
    by (simp add: fill_def acceptForCount_eq ConnectionManager_def expandConnections_eq Let_def missing_def
        free_slots_def to_allocate_def)
  ultimately have r: "pool_reachable 1 1 3 ?t" by (rule Step [OF _ Accept_failed])
  have l: "lost ?t = {0}" by (simp add: fill_def Let_def)
  then have "(1 :: int) \<le> int (card (lost ?t))" by (simp only: card.insert_remove) simp
  with failed_accepts_stall_server [OF r] l r show ?thesis by blast
qed

lemma destroy_loop_stuck: "allocated \<noteq> 0 \<Longrightarrow> destroy_loop allocated q deleted = Inl Undefined"
  by (induction q arbitrary: deleted) simp_all

text \<open>The destructor never ends normally once a connection was allocated: \<open>_allocated_count\<close> is not
  lowered, so after deleting every idle connection it deletes an uninitialised pointer.\<close>

theorem destructor_undefined:
  assumes "pool_reachable k init limit s" and "0 < init" and "0 < limit"
  shows "destroy_ConnectionManager (mgr s) = Inl Undefined"
proof -
  have "0 < allocated_count (mgr s)"
    using assms
  proof (induction rule: pool_reachable.induct)
    case Start
    then show ?case by (simp add: ConnectionManager_def expandConnections_eq free_slots_def Let_def)
  next
    case (Step s s')
    from Step(2) Step(3) [OF Step(4,5)] show ?case
      by (cases rule: pool_step.cases) (simp_all add: fill_def acceptForCount_eq acceptDone_def sendBack_def Let_def)
  qed
  then show ?thesis by (simp add: destroy_ConnectionManager_def destroy_loop_stuck)
qed

theorem destructor_undefined_witness: "destroy_ConnectionManager (mgr demo_pool) = Inl Undefined"
  using destructor_undefined [OF demo_pool_reachable] by simp

text \<open>The limit bounds the connections that are active or accepting, not those that exist, which
  the comment of \<open>_upper_limit_count\<close> promises (active plus idle): expanding ignores the idle ones, so
  a limit of 10 with 4 initial connections and 5 accepts allocates 14.\<close>

theorem allocation_exceeds_limit:
  "allocated_count (acceptForCount 5 (ConnectionManager 4 10)) = 14 \<and>
   length (idle_pool (acceptForCount 5 (ConnectionManager 4 10))) = 9"
  by (simp add: acceptForCount_eq ConnectionManager_def expandConnections_eq Let_def missing_def
        free_slots_def to_allocate_def)

end
