(* ===== verification/Net_Base.thy ===== *)
theory Net_Base
  imports Complex_Main Byte_Order
begin

text \<open>
  include/Rpc/net_base.h and src/Rpc/net_base.cc without the Base64 part: socket addresses,
  service endpoints as they are read from etcd, and the cached local address. The address parser
  \<open>inet_addr\<close> of the C library, the generated parser of \<open>RpcNodeInfo\<close> and the rounding of a real
  number to a \<open>float\<close> are parameters.
\<close>

section \<open>Socket addresses\<close>

text \<open>\<open>sockaddr_in\<close>: the two words are kept as they are in memory, in network order.\<close>

record inet_addr_t =
  sin_family :: nat
  s_addr :: u32
  sin_port :: u16

definition AF_INET :: nat where "AF_INET = 2"

definition InetAddr_u32_u16 :: "u32 \<Rightarrow> u16 \<Rightarrow> inet_addr_t" where
  "InetAddr_u32_u16 ip port = \<lparr>sin_family = AF_INET, s_addr = htonl ip, sin_port = htons port\<rparr>"

definition InetAddr_str_str :: "(string \<Rightarrow> u32) \<Rightarrow> string \<Rightarrow> string \<Rightarrow> inet_addr_t cxx" where
  "InetAddr_str_str inet_addr ip port =
     bindE (atoi port) (\<lambda>p. Inr \<lparr>sin_family = AF_INET, s_addr = inet_addr ip, sin_port = htons (word_of_int p)\<rparr>)"

definition InetAddr_u32_str :: "u32 \<Rightarrow> string \<Rightarrow> inet_addr_t cxx" where
  "InetAddr_u32_str ip port =
     bindE (atoi port) (\<lambda>p. Inr \<lparr>sin_family = AF_INET, s_addr = htonl ip, sin_port = htons (word_of_int p)\<rparr>)"

definition InetAddr_str_u16 :: "(string \<Rightarrow> u32) \<Rightarrow> string \<Rightarrow> u16 \<Rightarrow> inet_addr_t" where
  "InetAddr_str_u16 inet_addr ip port = \<lparr>sin_family = AF_INET, s_addr = inet_addr ip, sin_port = htons port\<rparr>"

definition ip_of :: "inet_addr_t \<Rightarrow> u32" where "ip_of a = ntohl (s_addr a)"
definition port_of :: "inet_addr_t \<Rightarrow> u16" where "port_of a = ntohs (sin_port a)"
definition ipString :: "inet_addr_t \<Rightarrow> string" where "ipString a = to_string (unat (s_addr a))"
definition portString :: "inet_addr_t \<Rightarrow> string" where "portString a = to_string (unat (sin_port a))"

lemmas inet_addr_defs = InetAddr_u32_u16_def InetAddr_str_str_def InetAddr_u32_str_def
  InetAddr_str_u16_def ip_of_def port_of_def ipString_def portString_def

text \<open>The constructors agree with each other on the port: text and number give the same word.\<close>

lemma atoi_to_string: "n < 2 ^ 31 \<Longrightarrow> atoi (to_string n) = Inr (int n)"
  by (simp add: atoi_def read_number_to_string int_range_def)

lemma stoi_to_string: "n < 2 ^ 31 \<Longrightarrow> stoi (to_string n) = Inr (int n)"
  by (simp add: stoi_def read_number_to_string int_range_def)

text \<open>An address built from a host-order pair gives the pair back, and naming the port in
  decimal instead of passing it as a number builds the same address.\<close>

theorem inet_addr_roundtrip:
  "ip_of (InetAddr_u32_u16 i p) = i \<and> port_of (InetAddr_u32_u16 i p) = p \<and>
   InetAddr_u32_str i (to_string (unat p)) = Inr (InetAddr_u32_u16 i p)"
proof -
  have "unat p < 2 ^ 16" using unsigned_less [of p, where ?'a = nat] by simp
  then have "atoi (to_string (unat p)) = Inr (int (unat p))"
    by (intro atoi_to_string) simp
  then show ?thesis by (simp add: inet_addr_defs)
qed

text \<open>\<open>portString\<close> prints the port as it lies in memory: it is the decimal text of the port
  exactly when the two bytes of the port are equal.\<close>

theorem portString_shows_port_iff:
  "portString (InetAddr_u32_u16 i p) = to_string (unat p) \<longleftrightarrow> bswap p = p"
  by (simp add: inet_addr_defs to_string_inject word_unat_eq_iff)

section \<open>Service endpoints\<close>

text \<open>The fields of the generated message \<open>RpcNodeInfo\<close> the code reads and writes.\<close>

record rpc_node_info =
  node_addr :: u32
  node_port :: u32
  node_active_conn :: u32
  node_max_conn :: u32

text \<open>
  \<open>ServiceEndpoint\<close>. The address is what the raw pointer \<open>addr\<close> points to; who owns it and when it
  is deleted is the subject of the theory on the service seeker.
\<close>

record 's service_endpoint =
  active_conns :: u32
  max_conns :: u32
  load_score :: 's

definition fullAddress :: "inet_addr_t \<Rightarrow> string" where
  "fullAddress a = ipString a @ '':'' @ portString a"

text \<open>\<open>(max_conns - active_conns) / (max_conns + 1.0)\<close>: the subtraction is on \<open>uint32_t\<close>.\<close>

definition exact_score :: "u32 \<Rightarrow> u32 \<Rightarrow> rat" where
  "exact_score active maxc = of_nat (unat (maxc - active)) / (of_nat (unat maxc) + 1)"

definition parserNodeFromEtcd ::
  "(bytes \<Rightarrow> rpc_node_info) \<Rightarrow> (rat \<Rightarrow> 's) \<Rightarrow> bytes \<Rightarrow> 's service_endpoint \<times> inet_addr_t" where
  "parserNodeFromEtcd ParseFromString float_of serialized_str =
     (let node_info = ParseFromString serialized_str
      in (\<lparr>active_conns = node_active_conn node_info,
           max_conns = node_max_conn node_info,
           load_score = float_of (exact_score (node_active_conn node_info) (node_max_conn node_info))\<rparr>,
          InetAddr_u32_u16 (node_addr node_info) (ucast (node_port node_info))))"

lemma exact_score_no_wrap:
  assumes "active \<le> maxc"
  shows "exact_score active maxc = (of_nat (unat maxc) - of_nat (unat active)) / (of_nat (unat maxc) + 1)"
proof -
  have "unat (maxc - active) = unat maxc - unat active"
    using assms by (simp add: unat_sub)
  moreover have "unat active \<le> unat maxc" using assms by (simp add: word_le_nat_alt)
  ultimately show ?thesis by (simp add: exact_score_def of_nat_diff)
qed

lemma rat_limit_pos: "(0 :: rat) < of_nat n + 1"
  by (simp add: add_nonneg_pos)

lemma free_share_bounds:
  "0 \<le> x \<Longrightarrow> x \<le> m \<Longrightarrow> 0 \<le> (m - x) / (m + 1) \<and> (m - x) / (m + 1) < (1 :: rat)"
  by simp

lemma exact_score_bounds: "a \<le> maxc \<Longrightarrow> 0 \<le> exact_score a maxc \<and> exact_score a maxc < 1"
proof -
  assume le: "a \<le> maxc"
  then have "unat a \<le> unat maxc" by (simp add: word_le_nat_alt)
  then have "(of_nat (unat a) :: rat) \<le> of_nat (unat maxc)" by (simp only: of_nat_le_iff)
  then show ?thesis
    unfolding exact_score_no_wrap [OF le] by (rule free_share_bounds [OF of_nat_0_le_iff])
qed

text \<open>As long as a node reports no more active connections than its limit, its score is the
  free share of its capacity, in \<open>[0, 1)\<close>, and among nodes with the same limit the one with fewer
  active connections never scores less, for every monotone rounding to \<open>float\<close>.\<close>

theorem load_score_ranks_by_free_capacity:
  assumes "a \<le> b" and "b \<le> maxc"
    and "\<And>x y. x \<le> y \<Longrightarrow> float_of x \<le> (float_of y :: 's::linorder)"
  shows "0 \<le> exact_score b maxc \<and> exact_score b maxc < 1 \<and>
         float_of (exact_score b maxc) \<le> float_of (exact_score a maxc)"
proof -
  have le: "unat a \<le> unat b" "unat b \<le> unat maxc"
    using assms(1,2) by (simp_all add: word_le_nat_alt)
  from assms(1,2) have "a \<le> maxc" by simp
  note eqs = exact_score_no_wrap [OF assms(2)] exact_score_no_wrap [OF this]
  have ab: "(of_nat (unat a) :: rat) \<le> of_nat (unat b)" using le(1) by (simp only: of_nat_le_iff)
  have pos: "(0 :: rat) < of_nat (unat maxc) + 1" by (rule rat_limit_pos)
  have "exact_score b maxc \<le> exact_score a maxc"
    unfolding eqs using ab pos by (intro divide_right_mono) simp_all
  moreover have "0 \<le> exact_score b maxc \<and> exact_score b maxc < 1"
    by (rule exact_score_bounds [OF assms(2)])
  ultimately show ?thesis using assms(3) by blast
qed

theorem load_score_ranks_by_free_capacity_witness:
  "0 \<le> exact_score 30 100 \<and> exact_score 30 100 < 1 \<and>
   id (exact_score 30 100) \<le> id (exact_score 20 100)"
  by (rule load_score_ranks_by_free_capacity) simp_all

text \<open>The score of a node that reports more active connections than its limit is computed
  from a wrapped difference: one connection too many already scores above every node of the same
  limit that is not overloaded.\<close>

theorem overloaded_node_scores_best:
  assumes "unat active = unat maxc + 1" and "a \<le> maxc" and "unat maxc < 2 ^ 31"
  shows "exact_score a maxc < 1 \<and> 1 \<le> exact_score active maxc"
proof -
  have "active = maxc + 1"
  proof (rule word_unat_eq_iff [THEN iffD2])
    show "unat active = unat (maxc + 1)" using assms(1,3) by (simp add: unat_word_ariths)
  qed
  then have "unat (maxc - active) = 2 ^ 32 - 1" by (simp add: unsigned_minus_1_eq_mask mask_eq_exp_minus_1)
  moreover have "(0 :: rat) < of_nat (unat maxc) + 1" by (rule rat_limit_pos)
  moreover have "(of_nat (unat maxc) :: rat) + 1 \<le> 2 ^ 32 - 1"
  proof -
    have "unat maxc + 1 \<le> 2 ^ 32 - 1" using assms(3) by simp
    then have "(of_nat (unat maxc + 1) :: rat) \<le> of_nat (2 ^ 32 - 1)" by (simp only: of_nat_le_iff)
    then show ?thesis by simp
  qed
  ultimately have "1 \<le> exact_score active maxc" by (simp add: exact_score_def)
  moreover have "exact_score a maxc < 1"
    using exact_score_bounds [OF assms(2)] by simp
  ultimately show ?thesis by simp
qed

theorem overloaded_node_scores_best_witness:
  "exact_score 0 100 < 1 \<and> 1 \<le> exact_score 101 100"
  by (rule overloaded_node_scores_best) simp_all

section \<open>The local address\<close>

text \<open>
  \<open>getLocalIP\<close> keeps its result in a function-local static string. What the system calls return is
  the argument: the descriptor of the probe socket and the text \<open>inet_ntop\<close> produced, if any. When
  the socket cannot be opened the result goes to an inner variable that shadows the static one, so
  it is not kept.
\<close>

record local_ip_env =
  sock_fd :: int
  ntop_result :: "string option"

definition getLocalIP :: "local_ip_env \<Rightarrow> string \<Rightarrow> string \<times> string" where
  "getLocalIP env ip_str =
     (if ip_str \<noteq> [] then (ip_str, ip_str)
      else if sock_fd env < 0 then (''127.0.0.1'', ip_str)
      else let ip_str' = (case ntop_result env of Some buffer \<Rightarrow> buffer | None \<Rightarrow> ''127.0.0.1'')
           in (ip_str', ip_str'))"

lemma getLocalIP_cached: "ip_str \<noteq> [] \<Longrightarrow> getLocalIP env ip_str = (ip_str, ip_str)"
  by (simp add: getLocalIP_def)

lemma getLocalIP_no_socket: "sock_fd env < 0 \<Longrightarrow> getLocalIP env [] = (''127.0.0.1'', [])"
  by (simp add: getLocalIP_def)

lemma getLocalIP_stable:
  "getLocalIP env s = (r, s') \<Longrightarrow> s' \<noteq> [] \<Longrightarrow> getLocalIP env' s' = (r, s')"
  by (auto simp: getLocalIP_def Let_def split: if_splits option.splits)

end
