(* ===== verification/Config.thy ===== *)
theory Config
  imports Prelude
begin

text \<open>
  include/Rpc/gcrpcconfig.h and src/Rpc/gcrpcconfig.cc: the configuration file and the map it is loaded
  into. The contents of the file are the argument; opening it and the messages on the console are not
  modelled.
\<close>

section \<open>Searching in a string\<close>

fun find_pos :: "('a \<Rightarrow> bool) \<Rightarrow> 'a list \<Rightarrow> nat option" where
  "find_pos P [] = None"
| "find_pos P (x # xs) = (if P x then Some 0 else map_option Suc (find_pos P xs))"

definition find_last_pos :: "('a \<Rightarrow> bool) \<Rightarrow> 'a list \<Rightarrow> nat option" where
  "find_last_pos P s = map_option (\<lambda>i. length s - 1 - i) (find_pos P (rev s))"

definition not_blank :: "char \<Rightarrow> bool" where
  "not_blank c \<longleftrightarrow> c \<noteq> CHR '' ''"

section \<open>Loading\<close>

text \<open>\<open>std::getline\<close> until the end of the file: what stands behind the last newline is a line if it is not empty.\<close>

fun getlines :: "string \<Rightarrow> string \<Rightarrow> string list" where
  "getlines cur [] = (if cur = [] then [] else [cur])"
| "getlines cur (c # cs) = (if c = CHR 0x0A then cur # getlines [] cs else getlines (cur @ [c]) cs)"

text \<open>
  One round of the loop. \<open>pos1\<close> and \<open>pos2\<close> exist because the line has a \<open>=\<close>; \<open>substr\<close> at
  \<open>std::string::npos\<close> throws.
\<close>

definition config_line :: "string \<Rightarrow> (string \<rightharpoonup> string, unit) sm" where
  "config_line line0 m =
     (let line = (case find_pos (\<lambda>c. c = CHR ''#'') line0 of None \<Rightarrow> line0 | Some pos \<Rightarrow> take pos line0) in
      case find_pos (\<lambda>c. c = CHR ''='') line of
        None \<Rightarrow> (Inr (), m)
      | Some pos3 \<Rightarrow>
          (let pos1 = the (find_pos not_blank line); pos2 = the (find_last_pos not_blank line) in
           sbind (slift (substr line pos1 (pos3 - pos1))) (\<lambda>key.
           sbind (slift (substr line (pos3 + 1) (pos2 - pos3))) (\<lambda>value.
           let key' = take (case find_last_pos not_blank key of None \<Rightarrow> 0 | Some p \<Rightarrow> p + 1) key in
           case find_pos not_blank value of
             None \<Rightarrow> slift (Inl Out_Of_Range)
           | Some p \<Rightarrow>
               sbind (slift (substr value p (length value - p))) (\<lambda>value'.
               smodify (\<lambda>m. m(key' \<mapsto> value'))))) m))"

fun config_lines :: "string list \<Rightarrow> (string \<rightharpoonup> string, unit) sm" where
  "config_lines [] = sret ()"
| "config_lines (l # ls) = sthen (config_line l) (config_lines ls)"

definition LoadConfigFile :: "string \<Rightarrow> (string \<rightharpoonup> string, unit) sm" where
  "LoadConfigFile file_text = config_lines (getlines [] file_text)"

definition Load :: "(string \<rightharpoonup> string) \<Rightarrow> string \<Rightarrow> string" where
  "Load m key = (case m key of Some v \<Rightarrow> v | None \<Rightarrow> [])"

section \<open>Laws\<close>

lemma find_pos_append:
  "find_pos P (xs @ ys) =
     (case find_pos P xs of Some i \<Rightarrow> Some i | None \<Rightarrow> map_option (\<lambda>i. length xs + i) (find_pos P ys))"
  by (cases "find_pos P ys") (induction xs, auto split: option.splits)+

lemma find_pos_None: "find_pos P xs = None \<longleftrightarrow> (\<forall>x \<in> set xs. \<not> P x)"
  by (induction xs) auto

lemma find_pos_skip:
  "\<forall>x \<in> set xs. \<not> P x \<Longrightarrow> P y \<Longrightarrow> find_pos P (xs @ y # ys) = Some (length xs)"
  by (simp add: find_pos_append find_pos_None [THEN iffD2])

lemma find_last_pos_skip:
  "\<forall>x \<in> set ys. \<not> P x \<Longrightarrow> P y \<Longrightarrow> find_last_pos P (xs @ y # ys) = Some (length xs)"
  using find_pos_skip [of "rev ys" P y "rev xs"] by (simp add: find_last_pos_def)

text \<open>A word is not empty and neither begins nor ends with a blank.\<close>

definition trimmed :: "string \<Rightarrow> bool" where
  "trimmed w \<longleftrightarrow> w \<noteq> [] \<and> not_blank (hd w) \<and> not_blank (last w)"

definition blanks :: "nat \<Rightarrow> string" where
  "blanks n = replicate n CHR '' ''"

lemma blanks_blank: "\<forall>x \<in> set (blanks n). \<not> not_blank x"
  by (simp add: blanks_def not_blank_def)

lemma trimmed_split:
  assumes "trimmed w"
  obtains c w' w'' d where "w = c # w'" "not_blank c" "w = w'' @ [d]" "not_blank d"
  using assms that [of "hd w" "tl w" "butlast w" "last w"] by (simp add: trimmed_def)

text \<open>A line with blanks around key and value and a comment behind.\<close>

definition render_line :: "nat \<Rightarrow> nat \<Rightarrow> nat \<Rightarrow> nat \<Rightarrow> string \<Rightarrow> string \<Rightarrow> string \<Rightarrow> string" where
  "render_line a b c d comment key value =
     blanks a @ key @ blanks b @ ''='' @ blanks c @ value @ blanks d @ (if comment = [] then [] else CHR ''#'' # comment)"

definition good_key :: "string \<Rightarrow> bool" where
  "good_key k \<longleftrightarrow> trimmed k \<and> CHR ''#'' \<notin> set k \<and> CHR ''='' \<notin> set k"

definition good_value :: "string \<Rightarrow> bool" where
  "good_value v \<longleftrightarrow> trimmed v \<and> CHR ''#'' \<notin> set v"

lemma strip_comment:
  assumes "CHR ''#'' \<notin> set line"
  shows "(case find_pos (\<lambda>c. c = CHR ''#'') (line @ (if comment = [] then [] else CHR ''#'' # comment)) of
      None \<Rightarrow> line @ (if comment = [] then [] else CHR ''#'' # comment)
    | Some pos \<Rightarrow> take pos (line @ (if comment = [] then [] else CHR ''#'' # comment))) = line"
proof -
  have "\<forall>x \<in> set line. x \<noteq> CHR ''#''" using assms by auto
  then show ?thesis
    by (auto simp: find_pos_append find_pos_None [THEN iffD2] split: option.splits)
qed

lemma config_line_render:
  assumes "good_key k" "good_value v"
  shows "config_line (render_line a b c d comment k v) m = (Inr (), m(k \<mapsto> v))"
proof -
  let ?line = "blanks a @ k @ blanks b @ CHR ''='' # blanks c @ v @ blanks d"
  have nb: "CHR ''#'' \<notin> set (blanks n)" "\<forall>x \<in> set (blanks n). x \<noteq> CHR ''=''" for n
    by (auto simp: blanks_def)
  have line: "CHR ''#'' \<notin> set ?line" using assms nb by (auto simp: good_key_def good_value_def)
  note strip = strip_comment [OF line, of comment]
  have r: "render_line a b c d comment k v = ?line @ (if comment = [] then [] else CHR ''#'' # comment)"
    by (simp add: render_line_def)
  have keq: "\<forall>x \<in> set (blanks a @ k @ blanks b). x \<noteq> CHR ''=''"
    using assms(1) nb(2) by (auto simp: good_key_def)
  have p3: "find_pos (\<lambda>c. c = CHR ''='') ?line = Some (a + length k + b)"
    using find_pos_skip [OF keq, of "CHR ''=''" "blanks c @ v @ blanks d"] by (simp add: blanks_def)
  obtain k1 k' k2 k'' where k: "k = k1 # k'" "not_blank k1" "k = k'' @ [k2]" "not_blank k2"
    using assms(1) trimmed_split by (metis good_key_def)
  obtain v1 v' v2 v'' where v: "v = v1 # v'" "not_blank v1" "v = v'' @ [v2]" "not_blank v2"
    using assms(2) trimmed_split by (metis good_value_def)
  have p1: "find_pos not_blank ?line = Some a"
    using find_pos_skip [OF blanks_blank k(2), of a "k' @ blanks b @ CHR ''='' # blanks c @ v @ blanks d"]
    by (simp add: k(1) blanks_def)
  have p2: "find_last_pos not_blank ?line = Some (a + length k + b + c + length v)"
    using find_last_pos_skip [OF blanks_blank v(4), of "blanks a @ k @ blanks b @ CHR ''='' # blanks c @ v''" d]
    by (simp add: v(3) blanks_def)
  have key: "substr ?line a (a + length k + b - a) = Inr (k @ blanks b)" by (simp add: blanks_def)
  have val: "substr ?line (a + length k + b + 1) (a + length k + b + c + length v - (a + length k + b)) = Inr (blanks c @ v)"
    by (simp add: blanks_def)
  have kl: "find_last_pos not_blank (k @ blanks b) = Some (length k - 1)"
    using find_last_pos_skip [OF blanks_blank k(4), of k'' b] by (simp add: k(3))
  have vf: "find_pos not_blank (blanks c @ v) = Some c"
    using find_pos_skip [OF blanks_blank v(2), of c v'] by (simp add: v(1) blanks_def)
  have lk: "Suc (length k - Suc 0) = length k" using k(1) by simp
  have "config_line (render_line a b c d comment k v) m =
      sbind (slift (substr (blanks c @ v) c (length (blanks c @ v) - c))) (\<lambda>value'. smodify (\<lambda>m. m(k \<mapsto> value'))) m"
    unfolding config_line_def r strip Let_def p3 option.case p1 p2 option.sel key val
    by (simp add: kl vf lk)
  then show ?thesis by (simp add: blanks_def)
qed

lemma config_line_empty_value:
  assumes "good_key k"
  shows "config_line (blanks a @ k @ blanks b @ ''='' @ blanks c) m = (Inl Out_Of_Range, m)"
proof -
  let ?line = "blanks a @ k @ blanks b @ CHR ''='' # blanks c"
  have nb: "CHR ''#'' \<notin> set (blanks n)" "\<forall>x \<in> set (blanks n). x \<noteq> CHR ''=''" for n
    by (auto simp: blanks_def)
  have "CHR ''#'' \<notin> set ?line" using assms nb by (auto simp: good_key_def)
  then have strip: "find_pos (\<lambda>c. c = CHR ''#'') ?line = None" by (auto simp: find_pos_None)
  have keq: "\<forall>x \<in> set (blanks a @ k @ blanks b). x \<noteq> CHR ''=''"
    using assms(1) nb(2) by (auto simp: good_key_def)
  have p3: "find_pos (\<lambda>c. c = CHR ''='') ?line = Some (a + length k + b)"
    using find_pos_skip [OF keq, of "CHR ''=''" "blanks c"] by (simp add: blanks_def)
  obtain k1 k' where k: "k = k1 # k'" "not_blank k1"
    using assms(1) trimmed_split by (metis good_key_def)
  have p1: "find_pos not_blank ?line = Some a"
    using find_pos_skip [OF blanks_blank k(2), of a "k' @ blanks b @ CHR ''='' # blanks c"]
    by (simp add: k(1) blanks_def)
  have p2: "find_last_pos not_blank ?line = Some (a + length k + b)"
  proof -
    have "not_blank CHR ''=''" by (simp add: not_blank_def)
    from find_last_pos_skip [OF blanks_blank this, of "blanks a @ k @ blanks b" c]
    show ?thesis by (simp add: blanks_def)
  qed
  have key: "substr ?line a (a + length k + b - a) = Inr (k @ blanks b)" by (simp add: blanks_def)
  have val: "substr ?line (a + length k + b + 1) (a + length k + b - (a + length k + b)) = Inr []"
    by (simp add: blanks_def)
  have "blanks a @ k @ blanks b @ ''='' @ blanks c = ?line" by simp
  then show ?thesis
    unfolding config_line_def Let_def
    by (simp only: append_Cons append_Nil strip p3 option.case p1 p2 option.sel key val) simp
qed

lemma good_line_no_newline:
  assumes "good_key k" "CHR 0x0A \<notin> set k" "CHR 0x0A \<notin> set v" "CHR 0x0A \<notin> set comment"
  shows "CHR 0x0A \<notin> set (render_line a b c d comment k v)"
  using assms by (auto simp: render_line_def blanks_def)

lemma getlines_line: "CHR 0x0A \<notin> set l \<Longrightarrow> getlines cur (l @ CHR 0x0A # rest) = (cur @ l) # getlines [] rest"
  by (induction l arbitrary: cur) auto

text \<open>A configuration file: bindings with their layout, one per line.\<close>

record binding =
  key_text :: string
  value_text :: string
  layout :: "nat \<times> nat \<times> nat \<times> nat"
  comment_text :: string

definition render_binding :: "binding \<Rightarrow> string" where
  "render_binding x = (case layout x of (a, b, c, d) \<Rightarrow>
     render_line a b c d (comment_text x) (key_text x) (value_text x))"

definition good_binding :: "binding \<Rightarrow> bool" where
  "good_binding x \<longleftrightarrow> good_key (key_text x) \<and> good_value (value_text x) \<and>
     CHR 0x0A \<notin> set (key_text x @ value_text x @ comment_text x)"

definition render_file :: "binding list \<Rightarrow> string" where
  "render_file xs = concat (map (\<lambda>x. render_binding x @ [CHR 0x0A]) xs)"

text \<open>C32: a file with one binding per line, blanks around keys and values and comments behind them
  loads without an error into exactly these bindings; a later line wins over an earlier one.\<close>

theorem config_file_roundtrip:
  assumes "\<forall>x \<in> set xs. good_binding x"
  shows "LoadConfigFile (render_file xs) m = (Inr (), m ++ map_of (rev (map (\<lambda>x. (key_text x, value_text x)) xs)))"
  using assms
proof (induction xs arbitrary: m)
  case Nil
  then show ?case by (simp add: LoadConfigFile_def render_file_def)
next
  case (Cons x xs)
  obtain a b c d where l: "layout x = (a, b, c, d)" by (metis prod.exhaust)
  have g: "good_key (key_text x)" "good_value (value_text x)" and nl: "CHR 0x0A \<notin> set (render_binding x)"
    using Cons.prems good_line_no_newline [of "key_text x" "value_text x" "comment_text x" a b c d] l
    by (simp_all add: good_binding_def render_binding_def)
  have "config_line (render_binding x) m = (Inr (), m(key_text x \<mapsto> value_text x))"
    using config_line_render [OF g] l by (simp add: render_binding_def)
  moreover have "getlines [] (render_file (x # xs)) = render_binding x # getlines [] (render_file xs)"
    using getlines_line [OF nl, of "[]"] by (simp add: render_file_def)
  ultimately have "LoadConfigFile (render_file (x # xs)) m =
      LoadConfigFile (render_file xs) (m(key_text x \<mapsto> value_text x))"
    by (simp add: LoadConfigFile_def)
  then show ?case using Cons by (simp add: map_add_def fun_eq_iff split: option.split)
qed

theorem config_file_roundtrip_witness:
  "LoadConfigFile (render_file [\<lparr>key_text = ''port'', value_text = ''8080'', layout = (1, 2, 1, 0), comment_text = ''x''\<rparr>,
     \<lparr>key_text = ''port'', value_text = ''99'', layout = (0, 0, 0, 3), comment_text = []\<rparr>]) Map.empty =
   (Inr (), [''port'' \<mapsto> ''99''])"
  by (subst config_file_roundtrip)
    (simp_all add: good_binding_def good_key_def good_value_def trimmed_def not_blank_def)

text \<open>A key without a value is not skipped: the loader throws \<open>std::out_of_range\<close>, whatever stands
  on the following lines.\<close>

theorem empty_value_throws:
  assumes "good_key k" and "CHR 0x0A \<notin> set k"
  shows "LoadConfigFile (blanks a @ k @ blanks b @ ''='' @ blanks c @ CHR 0x0A # rest) m = (Inl Out_Of_Range, m)"
proof -
  have "CHR 0x0A \<notin> set (blanks a @ k @ blanks b @ ''='' @ blanks c)" using assms(2) by (auto simp: blanks_def)
  from getlines_line [OF this, of "[]" rest]
  have "getlines [] (blanks a @ k @ blanks b @ ''='' @ blanks c @ CHR 0x0A # rest) =
      (blanks a @ k @ blanks b @ ''='' @ blanks c) # getlines [] rest" by simp
  then show ?thesis
    using config_line_empty_value [OF assms(1)] by (simp add: LoadConfigFile_def)
qed

theorem empty_value_throws_witness:
  "LoadConfigFile (''ttl='' @ [CHR 0x0A]) Map.empty = (Inl Out_Of_Range, Map.empty)"
  using empty_value_throws [of "''ttl''" 0 0 0 "[]" Map.empty]
  by (simp add: good_key_def trimmed_def not_blank_def blanks_def)

end
