(* ===== verification/Provider.thy ===== *)
theory Provider
  imports Connection Conn_Manager Net_Base Config
begin

text \<open>
  The server side \<open>RpcProvider\<close> (include/Rpc/rpcprovider.h, src/Rpc/rpcprovider.cc) and the client side
  \<open>RpcCaller\<close> (include/Rpc/rpc_caller.h, src/Rpc/rpc_caller.cc). A protobuf service is its descriptor
  (name and methods) together with the function from a method and the serialized request to the
  serialized response, which stands for the generated message classes and the user's method. Sockets
  and io_uring itself are not modelled; what \<open>recv\<close> delivers is an argument.
\<close>

section \<open>Settings\<close>

record settings =
  s_ttl :: int
  s_sq_entries :: int
  s_port :: int
  s_worker_thread :: int
  s_max_conn :: int

definition load_int :: "(string \<rightharpoonup> string) \<Rightarrow> string \<Rightarrow> int cxx" where
  "load_int cfg key = stoi (Load cfg key)"

text \<open>What the constructor reads, in its order; \<open>port\<close> is read twice.\<close>

definition read_settings :: "(string \<rightharpoonup> string) \<Rightarrow> settings cxx" where
  "read_settings cfg =
     bindE (load_int cfg ''ttl'') (\<lambda>t.
     bindE (load_int cfg ''sq_entries'') (\<lambda>sq.
     bindE (load_int cfg ''port'') (\<lambda>p.
     bindE (load_int cfg ''worker_thread'') (\<lambda>w.
     bindE (load_int cfg ''max_conn'') (\<lambda>mc.
     bindE (load_int cfg ''port'') (\<lambda>p2.
     Inr \<lparr>s_ttl = t, s_sq_entries = sq, s_port = p2, s_worker_thread = w, s_max_conn = mc\<rparr>))))))"

section \<open>Provider\<close>

record 'm service =
  svc_name :: bytes
  svc_methods :: "(bytes \<times> 'm) list"
  svc_call :: "'m \<Rightarrow> bytes \<Rightarrow> bytes"

record 'm method_table =
  mt_service :: "'m service"
  methodTable :: "bytes \<rightharpoonup> 'm"

datatype provider_status = PROVIDER_UNSTART | PROVIDER_LOOPING | PROVIDER_WAIT_TO_STOP | PROVIDER_STOP

record 'm provider =
  serviceTable :: "bytes \<rightharpoonup> 'm method_table"
  prov_status :: provider_status
  node_info :: rpc_node_info
  conn_manager :: manager

text \<open>
  The constructor; \<open>sq_entries\<close> is what io_uring granted. The address goes into the node information
  as \<open>inet_addr\<close> returns it, in network order.
\<close>

definition RpcProvider :: "(string \<Rightarrow> u32) \<Rightarrow> string \<Rightarrow> int \<Rightarrow> (string \<rightharpoonup> string) \<Rightarrow> 'm provider cxx" where
  "RpcProvider inet_addr localIP sq_entries cfg =
     bindE (read_settings cfg) (\<lambda>s.
     Inr \<lparr>serviceTable = Map.empty, prov_status = PROVIDER_UNSTART,
          node_info = \<lparr>node_addr = inet_addr localIP, node_port = word_of_int (s_port s), node_active_conn = 0,
                       node_max_conn = word_of_int (s_max_conn s)\<rparr>,
          conn_manager = ConnectionManager sq_entries (s_max_conn s)\<rparr>)"

definition add_method :: "bytes \<times> 'm \<Rightarrow> (bytes \<rightharpoonup> 'm) \<Rightarrow> (bytes \<rightharpoonup> 'm)" where
  "add_method nm t = t(fst nm \<mapsto> snd nm)"

definition Notify :: "'m service \<Rightarrow> 'm provider \<Rightarrow> 'm provider" where
  "Notify new_service p =
     p\<lparr>serviceTable := (serviceTable p)(svc_name new_service \<mapsto>
        \<lparr>mt_service = new_service, methodTable = fold add_method (svc_methods new_service) Map.empty\<rparr>)\<rparr>"

text \<open>\<open>onMessage\<close> up to the call of \<open>send\<close>: \<open>None\<close> when it returns without one.\<close>

definition onMessage :: "'m provider \<Rightarrow> request_info \<Rightarrow> bytes option" where
  "onMessage p r =
     (case serviceTable p (service_name r) of
        None \<Rightarrow> None
      | Some mt \<Rightarrow>
          (case methodTable mt (method_name r) of
             None \<Rightarrow> None
           | Some m \<Rightarrow> Some (svc_call (mt_service mt) m (body_data r))))"

text \<open>A dispatched request runs on the connection it points to; \<open>None\<close> is a null or dead pointer.\<close>

definition handle_request :: "'m provider \<Rightarrow> request_info \<Rightarrow> tcp option \<Rightarrow> (unit cxx \<times> tcp option)" where
  "handle_request p r c =
     (case onMessage p r of
        None \<Rightarrow> (Inr (), c)
      | Some send_str \<Rightarrow>
          (case c of
             None \<Rightarrow> (Inl Undefined, None)
           | Some c0 \<Rightarrow> (case tcp_send send_str c0 of
                          (Inl e, c1) \<Rightarrow> (Inl e, Some c1)
                        | (Inr ok, c1) \<Rightarrow> (Inr (), Some c1))))"

definition sigint_handler :: "int \<Rightarrow> 'm provider \<Rightarrow> 'm provider" where
  "sigint_handler sig p = (if sig = 2 then p\<lparr>prov_status := PROVIDER_WAIT_TO_STOP\<rparr> else p)"

definition getNodeInfo :: "(rpc_node_info \<Rightarrow> bytes) \<Rightarrow> 'm provider \<Rightarrow> bytes \<times> 'm provider" where
  "getNodeInfo SerializeAsString p =
     (let i = (node_info p)\<lparr>node_active_conn := word_of_int (getActiveCoon (conn_manager p))\<rparr>
      in (SerializeAsString i, p\<lparr>node_info := i\<rparr>))"

section \<open>Caller\<close>

text \<open>
  The constructor: the address from the configuration, then \<open>connect\<close> until it succeeds. \<open>results\<close> is
  what the calls of \<open>connect\<close> return, one after the other; \<open>None\<close>: it is still trying after these. The
  result is the socket address and the number of attempts.
\<close>

fun connect_loop :: "int list \<Rightarrow> nat \<Rightarrow> nat option" where
  "connect_loop [] n = None"
| "connect_loop (r # rs) n = (if r \<noteq> 0 then connect_loop rs (Suc n) else Some (Suc n))"

definition RpcCaller :: "(string \<Rightarrow> u32) \<Rightarrow> (string \<rightharpoonup> string) \<Rightarrow> int list \<Rightarrow> ((u32 \<times> u16) \<times> nat) cxx option" where
  "RpcCaller inet_addr cfg results =
     (case load_int cfg ''port'' of
        Inl e \<Rightarrow> Some (Inl e)
      | Inr port \<Rightarrow>
          map_option (\<lambda>n. Inr ((inet_addr (Load cfg ''client_ip''), htons (word_of_int port)), n))
            (connect_loop results 0))"

text \<open>The request \<open>CallMethod\<close> builds. \<open>conn\<close> is not set; it is not sent either.\<close>

definition call_request :: "bytes \<Rightarrow> bytes \<Rightarrow> bytes \<Rightarrow> request_info" where
  "call_request service method serializedString_args =
     \<lparr>conn = 0, request_id = 0x12345678, version = 0, message_type = MESSAGE_TYPE_REQUEST,
      status = STATUS_SUCCESS, flag = 1, service_name = service, method_name = method,
      body_data = serializedString_args\<rparr>"

definition call_bytes :: "(rpc_header \<Rightarrow> bytes) \<Rightarrow> bytes \<Rightarrow> bytes \<Rightarrow> bytes \<Rightarrow> bytes" where
  "call_bytes SerializeAsString service method args =
     generateStringFromProtocal SerializeAsString (call_request service method args)"

text \<open>
  \<open>std::string recv_ed = buf\<close>: the characters up to the first null character. \<open>buf\<close> is an
  uninitialised array of \<open>max_buffer_size\<close> bytes of which \<open>recv\<close> has filled the first ones; a read
  behind them is undefined.
\<close>

definition c_string :: "bytes \<Rightarrow> bytes cxx" where
  "c_string filled = (if 0 \<in> set filled then Inr (takeWhile (\<lambda>c. c \<noteq> 0) filled) else Inl Undefined)"

text \<open>
  What \<open>CallMethod\<close> passes to the parser of the response: nothing when sending or receiving fails.
  \<open>recvd\<close> is what \<open>recv\<close> returned: \<open>None\<close> for an error, otherwise the bytes it stored, at most
  \<open>max_buffer_size\<close>.
\<close>

definition CallMethod :: "(string \<rightharpoonup> string) \<Rightarrow> int \<Rightarrow> bytes option \<Rightarrow> bytes option cxx" where
  "CallMethod cfg sent recvd =
     (if sent \<le> 0 then Inr None
      else bindE (load_int cfg ''max_buffer_size'') (\<lambda>max_buffer_size.
           if max_buffer_size \<le> 0 then Inl Undefined
           else case recvd of
             None \<Rightarrow> Inr None
           | Some r \<Rightarrow> bindE (c_string (take (nat max_buffer_size) r)) (\<lambda>s. Inr (Some s))))"

text \<open>
  The member template \<open>call\<close>: the stub's descriptor gives the method, a null pointer when it has none of that
  name, and the stub passes the call on to \<open>CallMethod\<close>. It returns true whatever happened there.
\<close>

definition caller_call :: "'m service \<Rightarrow> bytes \<Rightarrow> (string \<rightharpoonup> string) \<Rightarrow> int \<Rightarrow> bytes option \<Rightarrow> (bool \<times> bytes option) cxx" where
  "caller_call stub mname cfg sent recvd =
     (if map_of (svc_methods stub) mname = None then Inl Undefined
      else bindE (CallMethod cfg sent recvd) (\<lambda>response. Inr (True, response)))"

section \<open>Properties\<close>

text \<open>The provider starts only when every setting is there: a missing one reads as the empty string
  and \<open>stoi\<close> throws.\<close>

theorem settings_required:
  "(\<exists>k \<in> {''ttl'', ''sq_entries'', ''port'', ''worker_thread'', ''max_conn''}. cfg k = None) \<longrightarrow>
     (\<exists>e. read_settings cfg = Inl e)"
proof
  have n: "load_int cfg k = Inl Invalid_Argument" if "cfg k = None" for k
    using that by (simp add: load_int_def Load_def stoi_def read_number_def)
  assume "\<exists>k \<in> {''ttl'', ''sq_entries'', ''port'', ''worker_thread'', ''max_conn''}. cfg k = None"
  then obtain k where k: "k \<in> {''ttl'', ''sq_entries'', ''port'', ''worker_thread'', ''max_conn''}" "cfg k = None"
    by blast
  from n [OF k(2)] k(1) have "\<not> (\<exists>s. read_settings cfg = Inr s)"
    by (auto simp: read_settings_def bindE_eq_Inr_iff)
  then show "\<exists>e. read_settings cfg = Inl e" by (cases "read_settings cfg") auto
qed

theorem settings_required_witness:
  "\<exists>e. read_settings [''ttl'' \<mapsto> ''20'', ''port'' \<mapsto> ''8080''] = Inl e"
proof -
  have "\<exists>k \<in> {''ttl'', ''sq_entries'', ''port'', ''worker_thread'', ''max_conn''}.
      [''ttl'' \<mapsto> ''20'', ''port'' \<mapsto> ''8080''] k = None"
    by (rule bexI [of _ "''max_conn''"]) simp_all
  with settings_required [of "[''ttl'' \<mapsto> ''20'', ''port'' \<mapsto> ''8080'']"] show ?thesis by blast
qed

text \<open>A service with one method that answers with the first byte of its arguments, 15 times.\<close>

definition demo_service :: "unit service" where
  "demo_service = \<lparr>svc_name = [85, 83], svc_methods = [([76], ())], svc_call = (\<lambda>_ args. replicate 15 (hd args))\<rparr>"

lemma demo_call_request: "call_request (svc_name demo_service) [76] [1, 2, 3] = demo_request"
  by (simp add: call_request_def demo_request_def demo_service_def)

lemma demo_call_bytes: "call_bytes demo_serialize (svc_name demo_service) [76] [1, 2, 3] = demo_message"
  by (simp add: call_bytes_def demo_call_request demo_message_def)

text \<open>A complete configuration.\<close>

definition demo_cfg :: "string \<rightharpoonup> string" where
  "demo_cfg = [''ttl'' \<mapsto> ''20'', ''sq_entries'' \<mapsto> ''64'', ''port'' \<mapsto> ''8080'', ''worker_thread'' \<mapsto> ''4'',
     ''max_conn'' \<mapsto> ''100'']"

lemma demo_cfg_settings:
  "read_settings demo_cfg = Inr \<lparr>s_ttl = 20, s_sq_entries = 64, s_port = 8080, s_worker_thread = 4, s_max_conn = 100\<rparr>"
  by code_simp

lemma fold_add_method: "fold add_method ms t = t ++ map_of (rev ms)"
  by (induction ms arbitrary: t) (auto simp: add_method_def map_add_def fun_eq_iff split: option.splits)

text \<open>A request for a method of a registered service runs exactly this method on the body, and the
  response is what the method returns; for an unknown service or method nothing is sent at all, so the
  client waits for an answer that never comes. Registering a service again replaces it.\<close>

theorem onMessage_dispatch:
  "onMessage (Notify s p) r =
     (if service_name r = svc_name s then
        (case map_of (rev (svc_methods s)) (method_name r) of
           Some m \<Rightarrow> Some (svc_call s m (body_data r))
         | None \<Rightarrow> None)
      else onMessage p r)"
  by (simp add: onMessage_def Notify_def fold_add_method split: option.split)

text \<open>The caller cuts the response at its first null byte, and reads uninitialised memory when it
  has none: whatever the server sent, the parser never gets all of it.\<close>

theorem caller_never_gets_whole_response:
  assumes "CallMethod cfg sent (Some response) = Inr (Some s)"
  shows "\<exists>n < length response. s = take n response \<and> response ! n = 0"
proof -
  from assms obtain m where "load_int cfg ''max_buffer_size'' = Inr m" "c_string (take (nat m) response) = Inr s"
    by (auto simp: CallMethod_def bindE_eq_Inr_iff split: if_splits)
  then have z: "0 \<in> set (take (nat m) response)" and s: "s = takeWhile (\<lambda>c. c \<noteq> 0) (take (nat m) response)"
    by (auto simp: c_string_def split: if_splits)
  let ?t = "take (nat m) response"
  have "takeWhile (\<lambda>c. c \<noteq> 0) ?t \<noteq> ?t" using z by (auto simp: takeWhile_eq_all_conv)
  then have lt: "length s < length ?t"
    unfolding s using length_takeWhile_le [of "\<lambda>c. c \<noteq> 0" ?t] takeWhile_eq_take [of "\<lambda>c. c \<noteq> 0" ?t]
    by (metis le_neq_implies_less take_all_iff order_refl)
  have "?t ! length s = 0"
    using nth_length_takeWhile [of "\<lambda>c. c \<noteq> 0" ?t] lt unfolding s by simp
  moreover have "s = take (length s) ?t" unfolding s by (metis takeWhile_eq_take)
  moreover have "length s < length response" "length s < nat m" using lt by simp_all
  ultimately show ?thesis by (intro exI [of _ "length s"]) simp
qed

theorem caller_never_gets_whole_response_witness:
  "CallMethod [''max_buffer_size'' \<mapsto> ''64''] 30 (Some [8, 1, 0, 5]) = Inr (Some [8, 1]) \<and>
   (\<exists>n < length [8, 1, 0, 5 :: u8]. [8, 1] = take n [8, 1, 0, 5 :: u8] \<and> [8, 1, 0, 5 :: u8] ! n = 0)"
proof -
  have "load_int [''max_buffer_size'' \<mapsto> ''64''] ''max_buffer_size'' = Inr 64" by code_simp
  then have "CallMethod [''max_buffer_size'' \<mapsto> ''64''] 30 (Some [8, 1, 0, 5]) = Inr (Some [8, 1])"
    by (simp add: CallMethod_def c_string_def)
  with caller_never_gets_whole_response [OF this] show ?thesis by blast
qed

lemma connect_loop_refused: "0 \<notin> set rs \<Longrightarrow> connect_loop rs k = None"
  by (induction rs arbitrary: k) auto

text \<open>The constructor of the caller tries again after every failed attempt, without a bound and
  without a pause: it returns with the first successful one, and not before.\<close>

theorem caller_connects_or_retries:
  assumes "load_int cfg ''port'' = Inr port" and "0 \<notin> set failures"
  shows "RpcCaller inet_addr cfg failures = None \<and>
         RpcCaller inet_addr cfg (failures @ 0 # later) =
           Some (Inr ((inet_addr (Load cfg ''client_ip''), htons (word_of_int port)), Suc (length failures)))"
proof -
  have "connect_loop (failures @ 0 # later) k = Some (Suc (k + length failures))" for k
    using assms(2) by (induction failures arbitrary: k) auto
  with assms show ?thesis by (simp add: RpcCaller_def connect_loop_refused)
qed

theorem caller_connects_or_retries_witness:
  "RpcCaller (\<lambda>_. 0x0100007F) [''port'' \<mapsto> ''8080'', ''client_ip'' \<mapsto> ''127.0.0.1''] [-1, -1, 0] =
     Some (Inr ((0x0100007F, htons 8080), 3))"
proof -
  have "load_int [''port'' \<mapsto> ''8080'', ''client_ip'' \<mapsto> ''127.0.0.1''] ''port'' = Inr 8080" by code_simp
  from caller_connects_or_retries [OF this, of "[-1, -1]" "\<lambda>_. 0x0100007F" "[]"] show ?thesis by simp
qed

end
