(* ===== verification/Json_Value.thy ===== *)
theory Json_Value
  imports Prelude "HOL-Library.Char_ord" "HOL-Library.List_Lexorder"
begin

text \<open>
  include/thirdParty/nlohmann/json.hpp, the JSON library that the etcd client uses: the values of
  \<open>basic_json\<close>, its exceptions, and the member functions that the client calls. An object is a \<open>std::map\<close>,
  here the list of its entries in the order of their keys, which are compared byte by byte. A \<open>double\<close> is its
  64 bits. The allocators, iterators, other formats and diagnostics of the library are not modelled.
\<close>

section \<open>Values\<close>

datatype json =
    J_null
  | J_obj "(string \<times> json) list"
  | J_arr "json list"
  | J_str string
  | J_bool bool
  | J_int u64
  | J_unsigned u64
  | J_float u64
  | J_binary bytes "u64 option"
  | J_discarded

definition type_name :: "json \<Rightarrow> string" where
  "type_name j =
     (case j of
        J_null \<Rightarrow> ''null''
      | J_obj _ \<Rightarrow> ''object''
      | J_arr _ \<Rightarrow> ''array''
      | J_str _ \<Rightarrow> ''string''
      | J_bool _ \<Rightarrow> ''boolean''
      | J_binary _ _ \<Rightarrow> ''binary''
      | J_discarded \<Rightarrow> ''discarded''
      | _ \<Rightarrow> ''number'')"

section \<open>Exceptions\<close>

text \<open>An exception of the library is thrown with its text; all of them are derived from \<open>std::exception\<close>.\<close>

definition exception_name :: "string \<Rightarrow> nat \<Rightarrow> string" where
  "exception_name ename nr = ''[json.exception.'' @ ename @ ''.'' @ to_string nr @ ''] ''"

definition type_error :: "nat \<Rightarrow> string \<Rightarrow> cxx_error" where
  "type_error nr what_arg = Thrown (exception_name ''type_error'' nr @ what_arg)"

definition json_out_of_range :: "nat \<Rightarrow> string \<Rightarrow> cxx_error" where
  "json_out_of_range nr what_arg = Thrown (exception_name ''out_of_range'' nr @ what_arg)"

text \<open>\<open>parse_error\<close> with a position: the number of line breaks read and the column.\<close>

definition parse_error :: "nat \<Rightarrow> nat \<Rightarrow> nat \<Rightarrow> string \<Rightarrow> cxx_error" where
  "parse_error nr lines_read column what_arg =
     Thrown (exception_name ''parse_error'' nr @ ''parse error at line '' @ to_string (lines_read + 1) @ '', column '' @
       to_string column @ '': '' @ what_arg)"

section \<open>Objects\<close>

text \<open>\<open>std::map::emplace\<close> leaves an entry that is there; assigning through a reference replaces it.\<close>

definition map_emplace :: "'k::linorder \<Rightarrow> 'v \<Rightarrow> ('k \<times> 'v) list \<Rightarrow> ('k \<times> 'v) list" where
  "map_emplace k v es = (if k \<in> set (map fst es) then es else ins_entry k v es)"

definition map_assign :: "'k \<Rightarrow> 'v \<Rightarrow> ('k \<times> 'v) list \<Rightarrow> ('k \<times> 'v) list" where
  "map_assign k v es = map (\<lambda>(k', v'). (k', if k' = k then v else v')) es"

text \<open>The constructor from an initializer list: an object when every element is an array of a string and a value.\<close>

definition is_pair :: "json \<Rightarrow> bool" where
  "is_pair j = (case j of J_arr [J_str _, _] \<Rightarrow> True | _ \<Rightarrow> False)"

definition emplace_pair :: "json \<Rightarrow> (string \<times> json) list \<Rightarrow> (string \<times> json) list" where
  "emplace_pair j es = (case j of J_arr [J_str k, v] \<Rightarrow> map_emplace k v es | _ \<Rightarrow> es)"

definition init_list :: "json list \<Rightarrow> json" where
  "init_list init = (if list_all is_pair init then J_obj (fold emplace_pair init []) else J_arr init)"

text \<open>\<open>operator[]\<close> with a key makes the entry; \<open>j[key] = v\<close> assigns to it.\<close>

definition at_key :: "string \<Rightarrow> json \<Rightarrow> json cxx" where
  "at_key key j =
     (case (if j = J_null then J_obj [] else j) of
        J_obj es \<Rightarrow> Inr (J_obj (map_emplace key J_null es))
      | j' \<Rightarrow> Inl (type_error 305 (''cannot use operator[] with a string argument with '' @ type_name j')))"

definition assign_key :: "string \<Rightarrow> json \<Rightarrow> json \<Rightarrow> json cxx" where
  "assign_key key v j =
     bindE (at_key key j) (\<lambda>j'. case j' of J_obj es \<Rightarrow> Inr (J_obj (map_assign key v es)) | _ \<Rightarrow> Inr j')"

definition contains :: "json \<Rightarrow> string \<Rightarrow> bool" where
  "contains j key = (case j of J_obj es \<Rightarrow> key \<in> set (map fst es) | _ \<Rightarrow> False)"

text \<open>The value of \<open>j[key]\<close>, a null value when it was not there.\<close>

definition value_at :: "json \<Rightarrow> string \<Rightarrow> json cxx" where
  "value_at j key =
     bindE (at_key key j) (\<lambda>j'. case j' of J_obj es \<Rightarrow> of_optionE Undefined (map_of es key) | _ \<Rightarrow> Inl Undefined)"

section \<open>Conversions\<close>

text \<open>
  \<open>get<std::string>\<close> and \<open>get<int>\<close>. Integers are reduced to 32 bits; a floating-point number is cut at the point,
  which is undefined when the result does not fit (or is infinite or not a number).
\<close>

definition get_string :: "json \<Rightarrow> string cxx" where
  "get_string j =
     (case j of J_str s \<Rightarrow> Inr s | _ \<Rightarrow> Inl (type_error 302 (''type must be string, but is '' @ type_name j)))"

definition double_sign :: "u64 \<Rightarrow> bool" where "double_sign x = bit x 63"
definition double_exponent :: "u64 \<Rightarrow> nat" where "double_exponent x = unat (drop_bit 52 x AND 0x7FF)"
definition double_fraction :: "u64 \<Rightarrow> nat" where "double_fraction x = unat (take_bit 52 x)"

definition isfinite :: "u64 \<Rightarrow> bool" where
  "isfinite x = (double_exponent x \<noteq> 0x7FF)"

definition truncated :: "u64 \<Rightarrow> int" where
  "truncated x =
     (let e = double_exponent x;
          m = (if e = 0 then 0 else double_fraction x + 2 ^ 52);
          a = int (if e \<ge> 1075 then m * 2 ^ (e - 1075) else m div 2 ^ (1075 - e))
      in if double_sign x then - a else a)"

definition get_int :: "json \<Rightarrow> int cxx" where
  "get_int j =
     (case j of
        J_unsigned x \<Rightarrow> Inr (sint (ucast x :: 32 word))
      | J_int x \<Rightarrow> Inr (sint (ucast x :: 32 word))
      | J_float x \<Rightarrow> if isfinite x \<and> int_range (truncated x) then Inr (truncated x) else Inl Undefined
      | J_bool b \<Rightarrow> Inr (of_bool b)
      | _ \<Rightarrow> Inl (type_error 302 (''type must be number, but is '' @ type_name j)))"

text \<open>The elements a range-based \<open>for\<close> visits: a value that is not a container is its only element.\<close>

definition elements :: "json \<Rightarrow> json list" where
  "elements j = (case j of J_null \<Rightarrow> [] | J_arr js \<Rightarrow> js | J_obj es \<Rightarrow> map snd es | _ \<Rightarrow> [j])"

section \<open>Well-formed values\<close>

text \<open>The keys of every object are distinct and in order, as a \<open>std::map\<close> keeps them.\<close>

definition keys_ok :: "(string \<times> 'v) list \<Rightarrow> bool" where
  "keys_ok es \<longleftrightarrow> sorted (map fst es) \<and> distinct (map fst es)"

fun json_wf :: "json \<Rightarrow> bool" where
  "json_wf (J_obj es) \<longleftrightarrow> keys_ok es \<and> (\<forall>e \<in> set es. json_wf (snd e))"
| "json_wf (J_arr js) \<longleftrightarrow> (\<forall>j \<in> set js. json_wf j)"
| "json_wf j \<longleftrightarrow> True"

lemma keys_ok_Nil [simp]: "keys_ok []" by (simp add: keys_ok_def)

lemma set_ins_entry: "set (ins_entry k v es) = insert (k, v) (set es)"
proof -
  have "set es = set (takeWhile P es) \<union> set (dropWhile P es)" for P by (metis set_append takeWhile_dropWhile_id)
  then show ?thesis by (auto simp: ins_entry_def)
qed

lemma distinct_ins_entry:
  assumes "distinct (map fst es)" "k \<notin> fst ` set es"
  shows "distinct (map fst (ins_entry k v es))"
proof -
  let ?P = "\<lambda>e. fst e < k"
  have "set (takeWhile ?P es) \<union> set (dropWhile ?P es) = set es" by (metis set_append takeWhile_dropWhile_id)
  with assms(2) have "k \<notin> fst ` set (takeWhile ?P es)" "k \<notin> fst ` set (dropWhile ?P es)" by blast+
  moreover have "distinct (map fst (takeWhile ?P es @ dropWhile ?P es))" using assms(1) by simp
  ultimately show ?thesis unfolding ins_entry_def by (simp del: takeWhile_dropWhile_id)
qed

lemma keys_ok_emplace: "keys_ok es \<Longrightarrow> keys_ok (map_emplace k v es)"
  by (auto simp: keys_ok_def map_emplace_def sorted_ins_entry distinct_ins_entry)

lemma fst_map_assign [simp]: "map fst (map_assign k v es) = map fst es"
  by (simp add: map_assign_def case_prod_beta comp_def)

lemma keys_ok_assign: "keys_ok (map_assign k v es) = keys_ok es"
  by (simp only: keys_ok_def fst_map_assign)

lemma set_map_emplace: "set (map_emplace k v es) = (if k \<in> fst ` set es then set es else insert (k, v) (set es))"
  by (auto simp: map_emplace_def set_ins_entry)

lemma set_map_assign: "x \<in> set (map_assign k v es) \<Longrightarrow> x \<in> set es \<or> snd x = v"
  by (auto simp: map_assign_def split: if_splits)

lemma init_list_wf: "\<forall>j \<in> set init. json_wf j \<Longrightarrow> json_wf (init_list init)"
proof -
  assume a: "\<forall>j \<in> set init. json_wf j"
  have step: "json_wf (J_obj (emplace_pair j es))" if "json_wf (J_obj es)" "json_wf j" for es j
    using that by (auto simp: emplace_pair_def keys_ok_emplace set_map_emplace split: json.splits list.splits if_splits)
  have "json_wf (J_obj (fold emplace_pair init es))" if "json_wf (J_obj es)" for es
    using a that by (induction init arbitrary: es) (simp_all del: json_wf.simps(1) add: step)
  from this [of "[]"] a show ?thesis by (simp add: init_list_def)
qed

text \<open>Appending entries in order.\<close>

lemma map_emplace_last: "\<forall>e \<in> set es. fst e < k \<Longrightarrow> map_emplace k v es = es @ [(k, v)]"
  using ins_entry_split [of es k "[]" v] by (auto simp: map_emplace_def)

lemma map_assign_last: "\<forall>e \<in> set es. fst e < (k :: 'k :: linorder) \<Longrightarrow> map_assign k w (es @ [(k, v)]) = es @ [(k, w)]"
  by (induction es) (auto simp: map_assign_def)

end
