(* ===== verification/Json_Lexer.thy ===== *)
theory Json_Lexer
  imports Json_Value
begin

text \<open>
  include/thirdParty/nlohmann/json.hpp, class \<open>lexer\<close>: the scanner of JSON texts over a \<open>std::string\<close>. A
  character is an \<open>int\<close> between 0 and 255, the end of the input is -1. The locale is "C", as the program never
  sets another one, so the decimal point is a point. Assertions that the callers establish are left out.
\<close>

section \<open>State\<close>

datatype token_type =
    Uninitialized | Literal_true | Literal_false | Literal_null | Value_string | Value_unsigned | Value_integer
  | Value_float | Begin_array | Begin_object | End_array | End_object | Name_separator | Value_separator
  | Parse_error | End_of_input | Literal_or_value

definition token_type_name :: "token_type \<Rightarrow> string" where
  "token_type_name t =
     (case t of
        Uninitialized \<Rightarrow> ''<uninitialized>''
      | Literal_true \<Rightarrow> ''true literal''
      | Literal_false \<Rightarrow> ''false literal''
      | Literal_null \<Rightarrow> ''null literal''
      | Value_string \<Rightarrow> ''string literal''
      | Value_unsigned \<Rightarrow> ''number literal''
      | Value_integer \<Rightarrow> ''number literal''
      | Value_float \<Rightarrow> ''number literal''
      | Begin_array \<Rightarrow> [CHR 0x27, CHR ''['', CHR 0x27]
      | Begin_object \<Rightarrow> [CHR 0x27, CHR ''{'', CHR 0x27]
      | End_array \<Rightarrow> [CHR 0x27, CHR '']'', CHR 0x27]
      | End_object \<Rightarrow> [CHR 0x27, CHR ''}'', CHR 0x27]
      | Name_separator \<Rightarrow> [CHR 0x27, CHR '':'', CHR 0x27]
      | Value_separator \<Rightarrow> [CHR 0x27, CHR '','', CHR 0x27]
      | Parse_error \<Rightarrow> ''<parse error>''
      | End_of_input \<Rightarrow> ''end of input''
      | Literal_or_value \<Rightarrow> [CHR 0x27, CHR ''['', CHR 0x27] @ '', '' @ [CHR 0x27, CHR ''{'', CHR 0x27] @ '', or a literal'')"

text \<open>\<open>input\<close> is what the input adapter has not delivered yet.\<close>

record lexer =
  input :: string
  ignore_comments :: bool
  current :: int
  next_unget :: bool
  chars_read_total :: nat
  chars_read_current_line :: nat
  lines_read :: nat
  token_string :: string
  token_buffer :: string
  error_message :: string
  value_integer :: u64
  value_unsigned :: u64
  value_float :: u64

abbreviation eof :: int where "eof \<equiv> - 1"

definition new_lexer :: "string \<Rightarrow> bool \<Rightarrow> lexer" where
  "new_lexer adapter ignore =
     \<lparr>input = adapter, ignore_comments = ignore, current = eof, next_unget = False, chars_read_total = 0,
      chars_read_current_line = 0, lines_read = 0, token_string = [], token_buffer = [], error_message = [],
      value_integer = 0, value_unsigned = 0, value_float = 0\<rparr>"

text \<open>\<open>get_character\<close> of the input adapter.\<close>

definition get_character :: "lexer \<Rightarrow> lexer" where
  "get_character l =
     (case input l of [] \<Rightarrow> l\<lparr>current := eof\<rparr> | c # cs \<Rightarrow> l\<lparr>current := of_char c, input := cs\<rparr>)"

definition get :: "lexer \<Rightarrow> lexer" where
  "get l =
     (let l1 = l\<lparr>chars_read_total := chars_read_total l + 1, chars_read_current_line := chars_read_current_line l + 1\<rparr>;
          l2 = (if next_unget l1 then l1\<lparr>next_unget := False\<rparr> else get_character l1);
          l3 = (if current l2 \<noteq> eof then l2\<lparr>token_string := token_string l2 @ [char_of (current l2)]\<rparr> else l2)
      in if current l3 = 10 then l3\<lparr>lines_read := lines_read l3 + 1, chars_read_current_line := 0\<rparr> else l3)"

definition unget :: "lexer \<Rightarrow> lexer" where
  "unget l =
     (let l1 = l\<lparr>next_unget := True, chars_read_total := chars_read_total l - 1\<rparr>;
          l2 = (if chars_read_current_line l1 = 0 then
                  (if lines_read l1 > 0 then l1\<lparr>lines_read := lines_read l1 - 1\<rparr> else l1)
                else l1\<lparr>chars_read_current_line := chars_read_current_line l1 - 1\<rparr>)
      in if current l2 \<noteq> eof then l2\<lparr>token_string := butlast (token_string l2)\<rparr> else l2)"

definition add :: "int \<Rightarrow> lexer \<Rightarrow> lexer" where
  "add c l = l\<lparr>token_buffer := token_buffer l @ [char_of c]\<rparr>"

definition reset :: "lexer \<Rightarrow> lexer" where
  "reset l = l\<lparr>token_buffer := [], token_string := [char_of (current l)]\<rparr>"

text \<open>\<open>error_message = m; return token_type::parse_error;\<close>\<close>

definition fail :: "string \<Rightarrow> lexer \<Rightarrow> token_type \<times> lexer" where
  "fail m l = (Parse_error, l\<lparr>error_message := m\<rparr>)"

text \<open>The last token for error messages, with control characters written as \<open><U+XXXX>\<close>.\<close>

definition hex_upper :: "nat \<Rightarrow> char" where
  "hex_upper d = char_of (if d < 10 then 48 + d else 55 + d)"

definition escape_control :: "char \<Rightarrow> string" where
  "escape_control c =
     (let n = of_char c :: nat
      in if n \<le> 0x1F then ''<U+00'' @ [hex_upper (n div 16), hex_upper (n mod 16)] @ ''>'' else [c])"

definition get_token_string :: "lexer \<Rightarrow> string" where
  "get_token_string l = concat (map escape_control (token_string l))"

section \<open>What is left to read\<close>

definition unread :: "lexer \<Rightarrow> string" where
  "unread l = (if next_unget l \<and> current l \<noteq> eof then char_of (current l) # input l else input l)"

lemma get_fields [simp]:
  "next_unget (get l) = False" "token_buffer (get l) = token_buffer l" "ignore_comments (get l) = ignore_comments l"
  "chars_read_total (get l) = Suc (chars_read_total l)" "value_float (get l) = value_float l"
  "value_integer (get l) = value_integer l" "value_unsigned (get l) = value_unsigned l" "error_message (get l) = error_message l"
  by (auto simp: get_def get_character_def Let_def split: list.splits)

lemma get_shorter: "current (get l) \<noteq> eof \<Longrightarrow> length (unread (get l)) < length (unread l)"
  by (auto simp: unread_def get_def get_character_def Let_def split: list.splits if_splits)

lemma get_le: "length (unread (get l)) \<le> length (unread l)"
  by (auto simp: unread_def get_def get_character_def Let_def split: list.splits)

lemma unread_simps [simp]:
  "unread (add c l) = unread l" "unread (reset l) = unread l" "unread (l\<lparr>error_message := m\<rparr>) = unread l"
  by (simp_all add: unread_def add_def reset_def)

section \<open>Strings\<close>

definition hex_digit :: "int \<Rightarrow> int option" where
  "hex_digit c =
     (if 48 \<le> c \<and> c \<le> 57 then Some (c - 0x30)
      else if 65 \<le> c \<and> c \<le> 70 then Some (c - 0x37)
      else if 97 \<le> c \<and> c \<le> 102 then Some (c - 0x57)
      else None)"

fun codepoint_loop :: "nat list \<Rightarrow> int \<Rightarrow> lexer \<Rightarrow> int \<times> lexer" where
  "codepoint_loop [] codepoint l = (codepoint, l)"
| "codepoint_loop (factor # fs) codepoint l =
     (let l1 = get l
      in case hex_digit (current l1) of
           None \<Rightarrow> (- 1, l1)
         | Some d \<Rightarrow> codepoint_loop fs (codepoint + push_bit factor d) l1)"

definition get_codepoint :: "lexer \<Rightarrow> int \<times> lexer" where
  "get_codepoint l = codepoint_loop [12, 8, 4, 0] 0 l"

text \<open>A code point is translated into bytes.\<close>

definition add_codepoint :: "int \<Rightarrow> lexer \<Rightarrow> lexer" where
  "add_codepoint codepoint l =
     (if codepoint < 0x80 then add codepoint l
      else if codepoint \<le> 0x7FF then
        add (0x80 OR (codepoint AND 0x3F)) (add (0xC0 OR drop_bit 6 codepoint) l)
      else if codepoint \<le> 0xFFFF then
        add (0x80 OR (codepoint AND 0x3F)) (add (0x80 OR (drop_bit 6 codepoint AND 0x3F)) (add (0xE0 OR drop_bit 12 codepoint) l))
      else
        add (0x80 OR (codepoint AND 0x3F)) (add (0x80 OR (drop_bit 6 codepoint AND 0x3F))
          (add (0x80 OR (drop_bit 12 codepoint AND 0x3F)) (add (0xF0 OR drop_bit 18 codepoint) l))))"

definition hex_message :: string where
  "hex_message = ''invalid string: '' @ [CHR 0x27, CHR 0x5C, CHR ''u'', CHR 0x27] @ '' must be followed by 4 hex digits''"

definition high_message :: string where
  "high_message = ''invalid string: surrogate U+D800..U+DBFF must be followed by U+DC00..U+DFFF''"

definition low_message :: string where
  "low_message = ''invalid string: surrogate U+DC00..U+DFFF must follow U+D800..U+DBFF''"

text \<open>What follows \<open>\u\<close>; the result is \<open>Value_string\<close> for "go on".\<close>

definition low_surrogate :: "int \<Rightarrow> lexer \<Rightarrow> token_type \<times> lexer" where
  "low_surrogate codepoint1 l =
     (let l1 = get l
      in if current l1 \<noteq> 0x5C then fail high_message l1
         else let l2 = get l1
              in if current l2 \<noteq> 0x75 then fail high_message l2
                 else case get_codepoint l2 of (codepoint2, l3) \<Rightarrow>
                   if codepoint2 = - 1 then fail hex_message l3
                   else if 0xDC00 \<le> codepoint2 \<and> codepoint2 \<le> 0xDFFF then
                     (Value_string, add_codepoint (push_bit 10 codepoint1 + codepoint2 - 0x35FDC00) l3)
                   else fail high_message l3)"

definition scan_unicode :: "lexer \<Rightarrow> token_type \<times> lexer" where
  "scan_unicode l =
     (case get_codepoint l of (codepoint1, l1) \<Rightarrow>
        if codepoint1 = - 1 then fail hex_message l1
        else if 0xD800 \<le> codepoint1 \<and> codepoint1 \<le> 0xDBFF then low_surrogate codepoint1 l1
        else if 0xDC00 \<le> codepoint1 \<and> codepoint1 \<le> 0xDFFF then fail low_message l1
        else (Value_string, add_codepoint codepoint1 l1))"

text \<open>The character after a backslash.\<close>

definition simple_escape :: "int \<Rightarrow> int option" where
  "simple_escape c =
     (if c = 0x22 then Some 0x22 else if c = 0x5C then Some 0x5C else if c = 0x2F then Some 0x2F
      else if c = 0x62 then Some 8 else if c = 0x66 then Some 12 else if c = 0x6E then Some 10
      else if c = 0x72 then Some 13 else if c = 0x74 then Some 9 else None)"

definition scan_escape :: "lexer \<Rightarrow> token_type \<times> lexer" where
  "scan_escape l =
     (let l1 = get l
      in case simple_escape (current l1) of
           Some c \<Rightarrow> (Value_string, add c l1)
         | None \<Rightarrow>
             if current l1 = 0x75 then scan_unicode l1
             else fail ''invalid string: forbidden character after backslash'' l1)"

text \<open>The messages for the control characters: name and escape sequence.\<close>

definition control_names :: "string list" where
  "control_names =
     [''NUL'', ''SOH'', ''STX'', ''ETX'', ''EOT'', ''ENQ'', ''ACK'', ''BEL'', ''BS'', ''HT'', ''LF'', ''VT'', ''FF'', ''CR'', ''SO'', ''SI'',
      ''DLE'', ''DC1'', ''DC2'', ''DC3'', ''DC4'', ''NAK'', ''SYN'', ''ETB'', ''CAN'', ''EM'', ''SUB'', ''ESC'', ''FS'', ''GS'', ''RS'', ''US'']"

definition short_escape :: "nat \<Rightarrow> string" where
  "short_escape n =
     (if n = 8 then '' or '' @ [CHR 0x5C, CHR ''b''] else if n = 9 then '' or '' @ [CHR 0x5C, CHR ''t'']
      else if n = 10 then '' or '' @ [CHR 0x5C, CHR ''n''] else if n = 12 then '' or '' @ [CHR 0x5C, CHR ''f'']
      else if n = 13 then '' or '' @ [CHR 0x5C, CHR ''r''] else [])"

definition control_message :: "nat \<Rightarrow> string" where
  "control_message n =
     (let h = ''00'' @ [hex_upper (n div 16), hex_upper (n mod 16)]
      in ''invalid string: control character U+'' @ h @ '' ('' @ control_names ! n @ '') must be escaped to '' @
         [CHR 0x5C, CHR ''u''] @ h @ short_escape n)"

text \<open>The ranges of the bytes that follow a first byte, by the switch; \<open>None\<close>: an ill-formed first byte.\<close>

definition utf8_ranges :: "int \<Rightarrow> (int \<times> int) list option" where
  "utf8_ranges c =
     (if 0x20 \<le> c \<and> c \<le> 0x7F then Some []
      else if 0xC2 \<le> c \<and> c \<le> 0xDF then Some [(0x80, 0xBF)]
      else if c = 0xE0 then Some [(0xA0, 0xBF), (0x80, 0xBF)]
      else if c = 0xED then Some [(0x80, 0x9F), (0x80, 0xBF)]
      else if 0xE1 \<le> c \<and> c \<le> 0xEF then Some [(0x80, 0xBF), (0x80, 0xBF)]
      else if c = 0xF0 then Some [(0x90, 0xBF), (0x80, 0xBF), (0x80, 0xBF)]
      else if 0xF1 \<le> c \<and> c \<le> 0xF3 then Some [(0x80, 0xBF), (0x80, 0xBF), (0x80, 0xBF)]
      else if c = 0xF4 then Some [(0x80, 0x8F), (0x80, 0xBF), (0x80, 0xBF)]
      else None)"

definition utf8_message :: string where
  "utf8_message = ''invalid string: ill-formed UTF-8 byte''"

fun next_bytes :: "(int \<times> int) list \<Rightarrow> lexer \<Rightarrow> token_type \<times> lexer" where
  "next_bytes [] l = (Value_string, l)"
| "next_bytes ((lo, hi) # ranges) l =
     (let l1 = get l
      in if lo \<le> current l1 \<and> current l1 \<le> hi then next_bytes ranges (add (current l1) l1) else fail utf8_message l1)"

definition next_byte_in_range :: "(int \<times> int) list \<Rightarrow> lexer \<Rightarrow> token_type \<times> lexer" where
  "next_byte_in_range ranges l = next_bytes ranges (add (current l) l)"

text \<open>Every other character than quote, backslash and the end. The ASCII characters are added as they are.\<close>

definition scan_other :: "lexer \<Rightarrow> token_type \<times> lexer" where
  "scan_other l =
     (if 0 \<le> current l \<and> current l \<le> 0x1F then fail (control_message (nat (current l))) l
      else case utf8_ranges (current l) of
             None \<Rightarrow> fail utf8_message l
           | Some [] \<Rightarrow> (Value_string, add (current l) l)
           | Some ranges \<Rightarrow> next_byte_in_range ranges l)"

lemma codepoint_loop_le: "codepoint_loop fs cp l = (r, l') \<Longrightarrow> length (unread l') \<le> length (unread l)"
proof (induction fs arbitrary: cp l)
  case (Cons f fs)
  then show ?case using get_le [of l] by (fastforce simp: Let_def split: option.splits)
qed simp

lemma get_codepoint_le: "get_codepoint l = (r, l') \<Longrightarrow> length (unread l') \<le> length (unread l)"
  unfolding get_codepoint_def by (rule codepoint_loop_le)

lemma unread_codepoint [simp]: "unread (add_codepoint cp l) = unread l"
  by (simp add: add_codepoint_def)

lemma unread_fail: "fail m l = (t, l') \<Longrightarrow> unread l' = unread l \<and> t = Parse_error"
  by (auto simp: fail_def)

lemma scan_unicode_le: "scan_unicode l = (t, l') \<Longrightarrow> length (unread l') \<le> length (unread l)"
proof -
  assume s: "scan_unicode l = (t, l')"
  obtain cp l1 where c: "get_codepoint l = (cp, l1)" by fastforce
  then have le: "length (unread l1) \<le> length (unread l)" by (rule get_codepoint_le)
  have low: "length (unread l') \<le> length (unread l1)" if "low_surrogate cp l1 = (t, l')"
  proof -
    obtain cp2 l3 where c2: "get_codepoint (get (get l1)) = (cp2, l3)" by fastforce
    have "length (unread l3) \<le> length (unread (get (get l1)))" using get_codepoint_le [OF c2] .
    then show ?thesis
      using that c2 get_le [of l1] get_le [of "get l1"]
      by (auto simp: low_surrogate_def Let_def split: if_splits dest!: unread_fail)
  qed
  show ?thesis
    using s c le low by (auto simp: scan_unicode_def split: if_splits dest!: unread_fail)
qed

lemma scan_escape_le: "scan_escape l = (t, l') \<Longrightarrow> length (unread l') \<le> length (unread l)"
  using get_le [of l] scan_unicode_le [of "get l" t l']
  by (fastforce simp: scan_escape_def Let_def split: option.splits if_splits dest!: unread_fail)

lemma next_bytes_le: "next_bytes rs l = (t, l') \<Longrightarrow> length (unread l') \<le> length (unread l)"
proof (induction rs l rule: next_bytes.induct)
  case (2 lo hi rs l)
  show ?case
  proof (cases "lo \<le> current (get l) \<and> current (get l) \<le> hi")
    case True
    with 2 have "length (unread l') \<le> length (unread (add (current (get l)) (get l)))" by (simp add: Let_def)
    with get_le [of l] show ?thesis by simp
  next
    case False
    with 2(2) get_le [of l] show ?thesis by (auto simp: Let_def dest!: unread_fail)
  qed
qed simp

lemma scan_other_le: "scan_other l = (t, l') \<Longrightarrow> length (unread l') \<le> length (unread l)"
  by (auto simp: scan_other_def next_byte_in_range_def split: if_splits option.splits list.splits
      dest!: unread_fail next_bytes_le)

function scan_string_loop :: "lexer \<Rightarrow> token_type \<times> lexer" where
  "scan_string_loop l =
     (let l1 = get l
      in if current l1 = eof then fail ''invalid string: missing closing quote'' l1
         else if current l1 = 0x22 then (Value_string, l1)
         else case (if current l1 = 0x5C then scan_escape l1 else scan_other l1) of
                (t, l2) \<Rightarrow> if t = Value_string then scan_string_loop l2 else (t, l2))"
  by pat_completeness auto
termination
proof (relation "measure (\<lambda>l. length (unread l))")
  fix l l1 t l2
  assume l1: "l1 = get l" "current l1 \<noteq> eof"
    and x: "(t, l2) = (if current l1 = 0x5C then scan_escape l1 else scan_other l1)"
  have "length (unread l2) \<le> length (unread l1)"
    using x scan_escape_le [of l1 t l2] scan_other_le [of l1 t l2] by (cases "current l1 = 0x5C") auto
  moreover have "length (unread l1) < length (unread l)" using l1 get_shorter by blast
  ultimately show "(l2, l) \<in> measure (\<lambda>l. length (unread l))" by (simp only: in_measure)
qed simp

declare scan_string_loop.simps [simp del]

definition scan_string :: "lexer \<Rightarrow> token_type \<times> lexer" where
  "scan_string l = scan_string_loop (reset l)"

section \<open>Numbers\<close>

text \<open>
  The states of \<open>scan_number\<close>, one definition per label: what the next character leads to. \<open>Next\<close> adds it to
  the buffer first.
\<close>

datatype number_state = N_minus | N_zero | N_any1 | N_decimal1 | N_decimal2 | N_exponent | N_sign | N_any2

datatype number_next = Next number_state | Done | Bad string

definition is_digit_code :: "int \<Rightarrow> bool" where "is_digit_code c \<longleftrightarrow> 48 \<le> c \<and> c \<le> 57"

definition scan_number_minus :: "int \<Rightarrow> number_next" where
  "scan_number_minus c =
     (if c = 48 then Next N_zero else if 49 \<le> c \<and> c \<le> 57 then Next N_any1
      else Bad (''invalid number; expected digit after '' @ [CHR 0x27, CHR ''-'', CHR 0x27]))"

definition scan_number_zero :: "int \<Rightarrow> number_next" where
  "scan_number_zero c = (if c = 0x2E then Next N_decimal1 else if c = 0x65 \<or> c = 0x45 then Next N_exponent else Done)"

definition scan_number_any1 :: "int \<Rightarrow> number_next" where
  "scan_number_any1 c =
     (if is_digit_code c then Next N_any1 else if c = 0x2E then Next N_decimal1
      else if c = 0x65 \<or> c = 0x45 then Next N_exponent else Done)"

definition scan_number_decimal1 :: "int \<Rightarrow> number_next" where
  "scan_number_decimal1 c =
     (if is_digit_code c then Next N_decimal2
      else Bad (''invalid number; expected digit after '' @ [CHR 0x27, CHR ''.'', CHR 0x27]))"

definition scan_number_decimal2 :: "int \<Rightarrow> number_next" where
  "scan_number_decimal2 c =
     (if is_digit_code c then Next N_decimal2 else if c = 0x65 \<or> c = 0x45 then Next N_exponent else Done)"

definition scan_number_exponent :: "int \<Rightarrow> number_next" where
  "scan_number_exponent c =
     (if c = 0x2B \<or> c = 0x2D then Next N_sign else if is_digit_code c then Next N_any2
      else Bad (''invalid number; expected '' @ [CHR 0x27, CHR ''+'', CHR 0x27] @ '', '' @ [CHR 0x27, CHR ''-'', CHR 0x27] @
        '', or digit after exponent''))"

definition scan_number_sign :: "int \<Rightarrow> number_next" where
  "scan_number_sign c =
     (if is_digit_code c then Next N_any2 else Bad ''invalid number; expected digit after exponent sign'')"

definition scan_number_any2 :: "int \<Rightarrow> number_next" where
  "scan_number_any2 c = (if is_digit_code c then Next N_any2 else Done)"

definition number_switch :: "number_state \<Rightarrow> int \<Rightarrow> number_next" where
  "number_switch st =
     (case st of
        N_minus \<Rightarrow> scan_number_minus | N_zero \<Rightarrow> scan_number_zero | N_any1 \<Rightarrow> scan_number_any1
      | N_decimal1 \<Rightarrow> scan_number_decimal1 | N_decimal2 \<Rightarrow> scan_number_decimal2 | N_exponent \<Rightarrow> scan_number_exponent
      | N_sign \<Rightarrow> scan_number_sign | N_any2 \<Rightarrow> scan_number_any2)"

text \<open>The assignment to \<open>number_type\<close> at a label.\<close>

definition number_type_at :: "number_state \<Rightarrow> token_type \<Rightarrow> token_type" where
  "number_type_at st ty =
     (case st of N_minus \<Rightarrow> Value_integer | N_decimal1 \<Rightarrow> Value_float | N_exponent \<Rightarrow> Value_float | _ \<Rightarrow> ty)"

text \<open>
  \<open>strtoull\<close> and \<open>strtoll\<close> in base 10: the value, and whether \<open>errno\<close> became \<open>ERANGE\<close>, when the value is the
  nearest limit.
\<close>

definition clamped :: "int \<Rightarrow> int \<Rightarrow> int \<Rightarrow> int \<times> bool" where
  "clamped lo hi i = (if i < lo then (lo, True) else if hi < i then (hi, True) else (i, False))"

definition strtoull :: "string \<Rightarrow> u64 \<times> bool" where
  "strtoull s = map_prod word_of_int id (clamped 0 (2 ^ 64 - 1) (case read_number s of None \<Rightarrow> 0 | Some i \<Rightarrow> i))"

definition strtoll :: "string \<Rightarrow> u64 \<times> bool" where
  "strtoll s = map_prod word_of_int id (clamped (- (2 ^ 63)) (2 ^ 63 - 1) (case read_number s of None \<Rightarrow> 0 | Some i \<Rightarrow> i))"

text \<open>
  \<open>strtod\<close>: the decimal number as a fraction, rounded to the nearest \<open>double\<close>, ties to even; too large numbers
  are infinite. \<open>bit_length\<close> bounds the exponent: \<open>2 ^ (k - 1) < n / d < 2 ^ (k + 1)\<close>.
\<close>

function bit_length :: "int \<Rightarrow> int" where
  "bit_length n = (if n \<le> 0 then 0 else bit_length (n div 2) + 1)"
  by pat_completeness auto
termination by (relation "measure nat") auto

declare bit_length.simps [simp del]

definition round_ratio :: "int \<Rightarrow> int \<Rightarrow> int" where
  "round_ratio n d = (let q = n div d; r = n mod d in if 2 * r > d \<or> 2 * r = d \<and> odd q then q + 1 else q)"

definition scaled :: "int \<Rightarrow> int \<Rightarrow> int \<Rightarrow> int \<times> int" where
  "scaled n d e = (if e \<ge> 0 then (n, d * 2 ^ nat e) else (n * 2 ^ nat (- e), d))"

definition double_of_ratio :: "int \<Rightarrow> int \<Rightarrow> int" where
  "double_of_ratio n d =
     (if n = 0 then 0
      else let k = bit_length n - bit_length d;
               (n0, d0) = scaled n d (k - 53);
               e = max (if n0 div d0 \<ge> 2 ^ 53 then k - 52 else k - 53) (- 1074);
               (n1, d1) = scaled n d e
           in min ((e + 1074) * 2 ^ 52 + round_ratio n1 d1) (0x7FF * 2 ^ 52))"

definition strtod :: "string \<Rightarrow> u64" where
  "strtod s =
     (let neg = (s \<noteq> [] \<and> hd s = CHR ''-'');
          u = (if neg then tl s else s);
          ip = takeWhile is_digit u;
          u1 = dropWhile is_digit u;
          fp = (if u1 \<noteq> [] \<and> hd u1 = CHR ''.'' then takeWhile is_digit (tl u1) else []);
          u2 = (if u1 \<noteq> [] \<and> hd u1 = CHR ''.'' then dropWhile is_digit (tl u1) else u1);
          ex = (if u2 \<noteq> [] \<and> (hd u2 = CHR ''e'' \<or> hd u2 = CHR ''E'')
                then (case read_number (tl u2) of None \<Rightarrow> 0 | Some i \<Rightarrow> i) else 0);
          m = digits_value (ip @ fp);
          e = ex - int (length fp);
          w = word_of_int (if e \<ge> 0 then double_of_ratio (m * 10 ^ nat e) 1 else double_of_ratio m (10 ^ nat (- e)))
      in if neg then w OR push_bit 63 1 else w)"

text \<open>\<open>scan_number_done\<close>: integers first, floating-point numbers when they are out of range.\<close>

definition number_float :: "lexer \<Rightarrow> token_type \<times> lexer" where
  "number_float l = (Value_float, l\<lparr>value_float := strtod (token_buffer l)\<rparr>)"

definition scan_number_done :: "token_type \<Rightarrow> lexer \<Rightarrow> token_type \<times> lexer" where
  "scan_number_done number_type l0 =
     (let l = unget l0
      in if number_type = Value_unsigned then
           (case strtoull (token_buffer l) of
              (x, erange) \<Rightarrow> if \<not> erange then (Value_unsigned, l\<lparr>value_unsigned := x\<rparr>) else number_float l)
         else if number_type = Value_integer then
           (case strtoll (token_buffer l) of
              (x, erange) \<Rightarrow> if \<not> erange then (Value_integer, l\<lparr>value_integer := x\<rparr>) else number_float l)
         else number_float l)"

lemma number_switch_eof: "number_switch st eof \<noteq> Next st'"
  by (cases st) (auto simp: number_switch_def scan_number_minus_def scan_number_zero_def scan_number_any1_def
      scan_number_decimal1_def scan_number_decimal2_def scan_number_exponent_def scan_number_sign_def
      scan_number_any2_def is_digit_code_def)

function scan_number_from :: "number_state \<Rightarrow> token_type \<Rightarrow> lexer \<Rightarrow> token_type \<times> lexer" where
  "scan_number_from st ty l =
     (let l1 = get l
      in case number_switch st (current l1) of
           Next st' \<Rightarrow> scan_number_from st' (number_type_at st ty) (add (current l1) l1)
         | Done \<Rightarrow> scan_number_done (number_type_at st ty) l1
         | Bad m \<Rightarrow> fail m l1)"
  by pat_completeness auto
termination
proof (relation "measure (\<lambda>(_, _, l). length (unread l))")
  fix st ty l l1 st'
  assume "l1 = get l" "number_switch st (current l1) = Next st'"
  then have "current (get l) \<noteq> eof" using number_switch_eof by metis
  with \<open>l1 = get l\<close> show "((st', number_type_at st ty, add (current l1) l1), st, ty, l) \<in> measure (\<lambda>(_, _, l). length (unread l))"
    using get_shorter [of l] by simp
qed simp

declare scan_number_from.simps [simp del]

text \<open>The first character has been read by \<open>scan\<close>; it is a digit or a minus sign.\<close>

definition scan_number :: "lexer \<Rightarrow> token_type \<times> lexer" where
  "scan_number l =
     (let l1 = add (current l) (reset l)
      in scan_number_from (if current l = 0x2D then N_minus else if current l = 48 then N_zero else N_any1) Value_unsigned l1)"

section \<open>Literals, white space and comments\<close>

fun scan_literal_loop :: "string \<Rightarrow> token_type \<Rightarrow> lexer \<Rightarrow> token_type \<times> lexer" where
  "scan_literal_loop [] return_type l = (return_type, l)"
| "scan_literal_loop (c # cs) return_type l =
     (let l1 = get l
      in if current l1 \<noteq> of_char c then fail ''invalid literal'' l1 else scan_literal_loop cs return_type l1)"

definition scan_literal :: "string \<Rightarrow> token_type \<Rightarrow> lexer \<Rightarrow> token_type \<times> lexer" where
  "scan_literal literal_text return_type l = scan_literal_loop (tl literal_text) return_type l"

text \<open>The byte order mark; \<open>&&\<close> stops reading at the first byte that differs.\<close>

definition skip_bom :: "lexer \<Rightarrow> bool \<times> lexer" where
  "skip_bom l =
     (let l1 = get l
      in if current l1 = 0xEF then
           (let l2 = get l1
            in if current l2 \<noteq> 0xBB then (False, l2) else let l3 = get l2 in (current l3 = 0xBF, l3))
         else (True, unget l1))"

definition is_ws :: "int \<Rightarrow> bool" where
  "is_ws c \<longleftrightarrow> c = 0x20 \<or> c = 9 \<or> c = 10 \<or> c = 13"

function skip_whitespace :: "lexer \<Rightarrow> lexer" where
  "skip_whitespace l = (let l1 = get l in if is_ws (current l1) then skip_whitespace l1 else l1)"
  by pat_completeness auto
termination
proof (relation "measure (\<lambda>l. length (unread l))")
  fix l l1
  assume "l1 = get l" "is_ws (current l1)"
  then have "current (get l) \<noteq> eof" by (auto simp: is_ws_def)
  with \<open>l1 = get l\<close> show "(l1, l) \<in> measure (\<lambda>l. length (unread l))" using get_shorter [of l] by simp
qed simp

function skip_line :: "lexer \<Rightarrow> lexer" where
  "skip_line l = (let l1 = get l in if current l1 \<in> {10, 13, eof, 0} then l1 else skip_line l1)"
  by pat_completeness auto
termination
proof (relation "measure (\<lambda>l. length (unread l))")
  fix l l1
  assume "l1 = get l" "current l1 \<notin> {10, 13, eof, 0}"
  then show "(l1, l) \<in> measure (\<lambda>l. length (unread l))" using get_shorter [of l] by simp
qed simp

declare skip_whitespace.simps [simp del] skip_line.simps [simp del]

text \<open>Inside a comment: after a star that no slash follows, that character is read again.\<close>

definition comment_message :: string where
  "comment_message = ''invalid comment; missing closing '' @ [CHR 0x27, CHR ''*'', CHR ''/'', CHR 0x27]"

lemma get_unget_le: "length (unread (unget (get l))) \<le> length (unread l)"
proof -
  have u: "input (unget m) = input m" "current (unget m) = current m" "next_unget (unget m)" for m
    by (auto simp: unget_def Let_def)
  have p: "input (get l) = unread (get l)" by (simp add: unread_def)
  show ?thesis
    using get_shorter [of l] get_le [of l] unfolding unread_def [of "unget (get l)"] u p
    by (cases "current (get l) = eof") auto
qed

function skip_block :: "lexer \<Rightarrow> bool \<times> lexer" where
  "skip_block l =
     (let l1 = get l
      in if current l1 = eof \<or> current l1 = 0 then (False, snd (fail comment_message l1))
         else if current l1 = 0x2A then
           (let l2 = get l1 in if current l2 = 0x2F then (True, l2) else skip_block (unget l2))
         else skip_block l1)"
  by pat_completeness auto
termination
proof (relation "measure (\<lambda>l. length (unread l))")
  fix l l1 l2
  assume a: "l1 = get l" "\<not> (current l1 = eof \<or> current l1 = 0)"
  then have "length (unread l1) < length (unread l)" using get_shorter by blast
  moreover assume "l2 = get l1"
  then have "length (unread (unget l2)) \<le> length (unread l1)" using get_unget_le by simp
  ultimately show "(unget l2, l) \<in> measure (\<lambda>l. length (unread l))" by simp
next
  fix l l1
  assume a: "l1 = get l" "\<not> (current l1 = eof \<or> current l1 = 0)"
  then show "(l1, l) \<in> measure (\<lambda>l. length (unread l))" using get_shorter [of l] by simp
qed simp

declare skip_block.simps [simp del]

definition scan_comment :: "lexer \<Rightarrow> bool \<times> lexer" where
  "scan_comment l =
     (let l1 = get l
      in if current l1 = 0x2F then (True, skip_line l1)
         else if current l1 = 0x2A then skip_block l1
         else (False, snd (fail (''invalid comment; expecting '' @ [CHR 0x27, CHR ''/'', CHR 0x27] @ '' or '' @
           [CHR 0x27, CHR ''*'', CHR 0x27] @ '' after '' @ [CHR 0x27, CHR ''/'', CHR 0x27]) l1)))"

lemma skip_whitespace_le: "length (unread (skip_whitespace l)) \<le> length (unread l)"
proof (induction l rule: skip_whitespace.induct)
  case (1 l)
  then show ?case
    using get_le [of l] by (subst skip_whitespace.simps) (force simp: Let_def)
qed

lemma skip_line_le: "length (unread (skip_line l)) \<le> length (unread l)"
proof (induction l rule: skip_line.induct)
  case (1 l)
  then show ?case
    using get_le [of l] by (subst skip_line.simps) (force simp: Let_def)
qed

lemma skip_block_le: "length (unread (snd (skip_block l))) \<le> length (unread l)"
proof (induction l rule: skip_block.induct)
  case (1 l)
  have le: "length (unread (get l)) \<le> length (unread l)" "length (unread (get (get l))) \<le> length (unread (get l))"
    "length (unread (unget (get (get l)))) \<le> length (unread (get l))"
    by (rule get_le get_unget_le)+
  consider "current (get l) = eof \<or> current (get l) = 0" | "current (get l) = 0x2A" "current (get (get l)) = 0x2F"
    | "current (get l) = 0x2A" "current (get (get l)) \<noteq> 0x2F"
    | "current (get l) \<noteq> eof" "current (get l) \<noteq> 0" "current (get l) \<noteq> 0x2A" by blast
  then show ?case
  proof cases
    case 3
    with 1(1) [of "get l" "get (get l)"] le show ?thesis by (subst skip_block.simps) (simp add: Let_def)
  next
    case 4
    with 1(2) [of "get l"] le show ?thesis by (subst skip_block.simps) (simp add: Let_def)
  qed (use le in \<open>subst skip_block.simps, auto simp: Let_def fail_def\<close>)+
qed

lemma scan_comment_shorter: "scan_comment l = (True, l') \<Longrightarrow> length (unread l') < length (unread l)"
  using get_shorter [of l] skip_line_le [of "get l"] skip_block_le [of "get l"]
  by (auto simp: scan_comment_def Let_def split: if_splits)

text \<open>The loop over comments and the white space behind them.\<close>

function skip_comments :: "lexer \<Rightarrow> bool \<times> lexer" where
  "skip_comments l =
     (if ignore_comments l \<and> current l = 0x2F then
        (case scan_comment l of (ok, l1) \<Rightarrow> if ok then skip_comments (skip_whitespace l1) else (False, l1))
      else (True, l))"
  by pat_completeness auto
termination
proof (relation "measure (\<lambda>l. length (unread l))")
  fix l ok l1
  assume "(ok, l1) = scan_comment l" ok
  then have "length (unread l1) < length (unread l)" using scan_comment_shorter by metis
  then show "(skip_whitespace l1, l) \<in> measure (\<lambda>l. length (unread l))"
    using skip_whitespace_le [of l1] by simp
qed simp

declare skip_comments.simps [simp del]

section \<open>The scanner\<close>

definition bom_message :: string where
  "bom_message = ''invalid BOM; must be 0xEF 0xBB 0xBF if given''"

definition scan_token :: "lexer \<Rightarrow> token_type \<times> lexer" where
  "scan_token l =
     (if current l = 0x5B then (Begin_array, l)
      else if current l = 0x5D then (End_array, l)
      else if current l = 0x7B then (Begin_object, l)
      else if current l = 0x7D then (End_object, l)
      else if current l = 0x3A then (Name_separator, l)
      else if current l = 0x2C then (Value_separator, l)
      else if current l = 0x74 then scan_literal ''true'' Literal_true l
      else if current l = 0x66 then scan_literal ''false'' Literal_false l
      else if current l = 0x6E then scan_literal ''null'' Literal_null l
      else if current l = 0x22 then scan_string l
      else if current l = 0x2D \<or> is_digit_code (current l) then scan_number l
      else if current l = 0 \<or> current l = eof then (End_of_input, l)
      else fail ''invalid literal'' l)"

definition scan :: "lexer \<Rightarrow> token_type \<times> lexer" where
  "scan l =
     (case (if chars_read_total l = 0 then skip_bom l else (True, l)) of
        (False, l1) \<Rightarrow> fail bom_message l1
      | (True, l1) \<Rightarrow>
          (case skip_comments (skip_whitespace l1) of
             (False, l2) \<Rightarrow> (Parse_error, l2)
           | (True, l2) \<Rightarrow> scan_token l2))"

section \<open>Progress\<close>

text \<open>No function of the scanner gives characters back to the input, and a token takes at least one.\<close>

lemma unread_done: "unread (snd (scan_number_done ty l)) = unread (unget l)"
  by (auto simp: scan_number_done_def number_float_def Let_def unread_def split: prod.splits)

lemma scan_number_from_le: "length (unread (snd (scan_number_from st ty l))) \<le> length (unread l)"
proof (induction st ty l rule: scan_number_from.induct)
  case (1 st ty l)
  show ?case
  proof (cases "number_switch st (current (get l))")
    case (Next st')
    with 1 [OF refl Next] get_le [of l] show ?thesis by (subst scan_number_from.simps) (simp add: Let_def)
  next
    case Done
    then show ?thesis using get_unget_le [of l] by (subst scan_number_from.simps) (simp add: Let_def unread_done)
  next
    case (Bad m)
    then show ?thesis using get_le [of l] by (subst scan_number_from.simps) (simp add: Let_def fail_def)
  qed
qed

lemma scan_literal_loop_le: "length (unread (snd (scan_literal_loop cs t l))) \<le> length (unread l)"
proof (induction cs arbitrary: l)
  case (Cons c cs)
  from Cons [of "get l"] get_le [of l] show ?case by (simp add: Let_def fail_def)
qed simp

lemma scan_string_loop_le: "length (unread (snd (scan_string_loop l))) \<le> length (unread l)"
proof (induction l rule: scan_string_loop.induct)
  case (1 l)
  let ?x = "if current (get l) = 0x5C then scan_escape (get l) else scan_other (get l)"
  obtain t l2 where x: "?x = (t, l2)" by fastforce
  then have "length (unread l2) \<le> length (unread (get l))"
    using scan_escape_le [of "get l" t l2] scan_other_le [of "get l" t l2] by (simp split: if_splits)
  with get_le [of l] have le: "length (unread l2) \<le> length (unread l)" by simp
  consider "current (get l) = eof" | "current (get l) = 0x22" | "current (get l) \<noteq> eof" "current (get l) \<noteq> 0x22" by blast
  then show ?case
  proof cases
    case 3
    have u: "scan_string_loop l = (if t = Value_string then scan_string_loop l2 else (t, l2))"
      using 3 x by (subst scan_string_loop.simps) (simp only: Let_def if_False split)
    show ?thesis
    proof (cases "t = Value_string")
      case True
      from 1 [OF refl 3 x [symmetric] True] le u True show ?thesis by simp
    next
      case False
      with le u show ?thesis by simp
    qed
  qed (use get_le [of l] in \<open>subst scan_string_loop.simps, simp add: Let_def fail_def\<close>)+
qed

lemma scan_token_le: "length (unread (snd (scan_token l))) \<le> length (unread l)"
proof -
  have "length (unread (snd (scan_literal x t l))) \<le> length (unread l)" for x t
    by (simp add: scan_literal_def scan_literal_loop_le)
  moreover have "length (unread (snd (scan_string l))) \<le> length (unread l)"
    using scan_string_loop_le [of "reset l"] by (simp add: scan_string_def)
  moreover have "length (unread (snd (scan_number l))) \<le> length (unread l)"
    using scan_number_from_le [of _ Value_unsigned "add (current l) (reset l)"] by (simp add: scan_number_def Let_def)
  ultimately show ?thesis by (simp add: scan_token_def fail_def)
qed

lemma skip_bom_le: "skip_bom l = (b, l') \<Longrightarrow> length (unread l') \<le> length (unread l)"
  using get_le [of l] get_le [of "get l"] get_le [of "get (get l)"] get_unget_le [of l]
  by (auto simp: skip_bom_def Let_def split: if_splits)

lemma skip_whitespace_shorter:
  "current (skip_whitespace l) \<noteq> eof \<Longrightarrow> length (unread (skip_whitespace l)) < length (unread l)"
proof (induction l rule: skip_whitespace.induct)
  case (1 l)
  show ?case
  proof (cases "is_ws (current (get l))")
    case True
    then have u: "skip_whitespace l = skip_whitespace (get l)" by (subst skip_whitespace.simps) (simp add: Let_def)
    from 1(1) [OF refl True] 1(2) get_le [of l] show ?thesis unfolding u by simp
  next
    case False
    then have u: "skip_whitespace l = get l" by (subst skip_whitespace.simps) (simp add: Let_def)
    from 1(2) get_shorter [of l] show ?thesis unfolding u by simp
  qed
qed

lemma scan_comment_le: "length (unread (snd (scan_comment l))) \<le> length (unread l)"
  using get_le [of l] skip_line_le [of "get l"] skip_block_le [of "get l"]
  by (auto simp: scan_comment_def Let_def fail_def)

lemma skip_comments_cases:
  "skip_comments l = (ok, l') \<Longrightarrow> l' = l \<or> length (unread l') < length (unread l) \<or> \<not> ok \<and> length (unread l') \<le> length (unread l)"
proof (induction l arbitrary: ok l' rule: skip_comments.induct)
  case (1 l)
  show ?case
  proof (cases "ignore_comments l \<and> current l = 0x2F")
    case True
    obtain ok1 l1 where s: "scan_comment l = (ok1, l1)" by fastforce
    show ?thesis
    proof (cases ok1)
      case ok: True
      then have r: "skip_comments (skip_whitespace l1) = (ok, l')"
        using 1(2) True s by (subst (asm) skip_comments.simps) simp
      have "length (unread l1) < length (unread l)" using s ok scan_comment_shorter by simp
      with skip_whitespace_le [of l1] 1(1) [OF True s [symmetric] ok r] show ?thesis by auto
    next
      case False
      then have "ok = False" "l' = l1" using 1(2) True s by (subst (asm) skip_comments.simps, simp)+
      with scan_comment_le [of l] s show ?thesis by simp
    qed
  next
    case False
    with 1(2) show ?thesis by (subst (asm) skip_comments.simps) auto
  qed
qed

lemma scan_shorter:
  assumes "scan l = (t, l')"
  shows "length (unread l') \<le> length (unread l)"
    and "t \<notin> {End_of_input, Parse_error} \<Longrightarrow> length (unread l') < length (unread l)"
proof -
  obtain b l1 where b: "(if chars_read_total l = 0 then skip_bom l else (True, l)) = (b, l1)" by fastforce
  then have le1: "length (unread l1) \<le> length (unread l)" using skip_bom_le by (auto split: if_splits)
  obtain ok l2 where c: "skip_comments (skip_whitespace l1) = (ok, l2)" by fastforce
  have le2: "length (unread l2) \<le> length (unread (skip_whitespace l1))" using skip_comments_cases [OF c] by auto
  have le3: "length (unread (skip_whitespace l1)) \<le> length (unread l1)" by (rule skip_whitespace_le)
  have lt2: "length (unread l2) < length (unread l1)" if "current l2 \<noteq> eof" "ok"
    using skip_comments_cases [OF c] skip_whitespace_shorter [of l1] that le3 by auto
  consider "\<not> b" "t = Parse_error" "unread l' = unread l1" | "b" "\<not> ok" "t = Parse_error" "l' = l2"
    | "b" "ok" "scan_token l2 = (t, l')"
    using assms b c by (cases b; cases ok) (auto simp: scan_def fail_def)
  note cs = this
  from cs show "length (unread l') \<le> length (unread l)"
    by cases (use le1 le2 le3 scan_token_le [of l2] in auto)
  assume t: "t \<notin> {End_of_input, Parse_error}"
  from cs show "length (unread l') < length (unread l)"
  proof cases
    case 3
    have "current l2 \<noteq> eof"
      using 3 t by (auto simp: scan_token_def is_digit_code_def split: if_splits)
    with 3 lt2 le1 scan_token_le [of l2] show ?thesis by simp
  qed (use t in auto)
qed

end
