(* ===== verification/Json_Parser.thy ===== *)
theory Json_Parser
  imports Json_Lexer
begin

text \<open>
  include/thirdParty/nlohmann/json.hpp: the classes \<open>json_sax_dom_parser\<close>, which builds the value, and \<open>parser\<close>,
  a loop over tokens with a stack of its own. Pointers into the value that is being built are paths from its
  root. The loop is a partial function; it is proved to end on every input.
\<close>

section \<open>Pointers into a value\<close>

datatype path_step = Elem nat | Member string

type_synonym path = "path_step list"

fun json_at :: "path \<Rightarrow> json \<Rightarrow> json option" where
  "json_at [] j = Some j"
| "json_at (Elem i # r) (J_arr js) = (if i < length js then json_at r (js ! i) else None)"
| "json_at (Member k # r) (J_obj es) = (case map_of es k of None \<Rightarrow> None | Some j \<Rightarrow> json_at r j)"
| "json_at _ _ = None"

fun json_update :: "path \<Rightarrow> (json \<Rightarrow> json) \<Rightarrow> json \<Rightarrow> json" where
  "json_update [] f j = f j"
| "json_update (Elem i # r) f (J_arr js) = (if i < length js then J_arr (js[i := json_update r f (js ! i)]) else J_arr js)"
| "json_update (Member k # r) f (J_obj es) =
     (case map_of es k of None \<Rightarrow> J_obj es | Some j \<Rightarrow> J_obj (map_assign k (json_update r f j) es))"
| "json_update _ f j = j"

section \<open>State\<close>

text \<open>
  The members of \<open>parser\<close>, the local variables of \<open>sax_parse_internal\<close> (\<open>states\<close> and \<open>ref_stack\<close> with the back in
  front; \<open>True\<close> is an array) and the members of \<open>json_sax_dom_parser\<close>.
\<close>

record parser =
  m_lexer :: lexer
  last_token :: token_type
  allow_exceptions :: bool
  ignore_trailing_commas :: bool
  states :: "bool list"
  skip_to_state_evaluation :: bool
  root :: json
  ref_stack :: "path list"
  object_element :: "path option"
  errored :: bool

section \<open>Building the value\<close>

definition handle_value :: "json \<Rightarrow> (parser, path) sm" where
  "handle_value v p =
     (case ref_stack p of
        [] \<Rightarrow> (Inr [], p\<lparr>root := v\<rparr>)
      | r # _ \<Rightarrow>
          (case json_at r (root p) of
             Some (J_arr js) \<Rightarrow> (Inr (r @ [Elem (length js)]), p\<lparr>root := json_update r (\<lambda>_. J_arr (js @ [v])) (root p)\<rparr>)
           | Some (J_obj _) \<Rightarrow>
               (case object_element p of
                  None \<Rightarrow> (Inl Assert_Failed, p)
                | Some e \<Rightarrow> (Inr e, p\<lparr>root := json_update e (\<lambda>_. v) (root p)\<rparr>))
           | _ \<Rightarrow> (Inl Assert_Failed, p)))"

definition sax_value :: "json \<Rightarrow> (parser, unit) sm" where
  "sax_value v = sthen (handle_value v) (sret ())"

definition sax_start :: "json \<Rightarrow> (parser, unit) sm" where
  "sax_start v = sbind (handle_value v) (\<lambda>r. smodify (\<lambda>p. p\<lparr>ref_stack := r # ref_stack p\<rparr>))"

definition start_object :: "(parser, unit) sm" where "start_object = sax_start (J_obj [])"
definition start_array :: "(parser, unit) sm" where "start_array = sax_start (J_arr [])"

definition sax_key :: "string \<Rightarrow> (parser, unit) sm" where
  "sax_key k p =
     (case ref_stack p of
        [] \<Rightarrow> (Inl Assert_Failed, p)
      | r # _ \<Rightarrow>
          (case json_at r (root p) of
             Some (J_obj es) \<Rightarrow>
               (Inr (), p\<lparr>root := json_update r (\<lambda>_. J_obj (map_emplace k J_null es)) (root p), object_element := Some (r @ [Member k])\<rparr>)
           | _ \<Rightarrow> (Inl Assert_Failed, p)))"

definition end_object :: "(parser, unit) sm" where
  "end_object p =
     (case ref_stack p of
        [] \<Rightarrow> (Inl Assert_Failed, p)
      | r # rs \<Rightarrow> (case json_at r (root p) of Some (J_obj _) \<Rightarrow> (Inr (), p\<lparr>ref_stack := rs\<rparr>) | _ \<Rightarrow> (Inl Assert_Failed, p)))"

definition end_array :: "(parser, unit) sm" where
  "end_array p =
     (case ref_stack p of
        [] \<Rightarrow> (Inl Assert_Failed, p)
      | r # rs \<Rightarrow> (case json_at r (root p) of Some (J_arr _) \<Rightarrow> (Inr (), p\<lparr>ref_stack := rs\<rparr>) | _ \<Rightarrow> (Inl Assert_Failed, p)))"

section \<open>Tokens and errors\<close>

definition get_token :: "(parser, token_type) sm" where
  "get_token p = (case scan (m_lexer p) of (t, l) \<Rightarrow> (Inr t, p\<lparr>m_lexer := l, last_token := t\<rparr>))"

definition exception_message :: "token_type \<Rightarrow> string \<Rightarrow> parser \<Rightarrow> string" where
  "exception_message expected context p =
     ''syntax error '' @ (if context \<noteq> [] then ''while parsing '' @ context @ '' '' else []) @ ''- '' @
     (if last_token p = Parse_error
      then error_message (m_lexer p) @ ''; last read: '' @ [CHR 0x27] @ get_token_string (m_lexer p) @ [CHR 0x27]
      else ''unexpected '' @ token_type_name (last_token p)) @
     (if expected \<noteq> Uninitialized then ''; expected '' @ token_type_name expected else [])"

text \<open>What a step of the loop leads to.\<close>

datatype outcome = Value_done | Next_value | Returned bool

definition sax_parse_error :: "cxx_error \<Rightarrow> (parser, outcome) sm" where
  "sax_parse_error e p =
     (if allow_exceptions p then (Inl e, p\<lparr>errored := True\<rparr>) else (Inr (Returned False), p\<lparr>errored := True\<rparr>))"

definition error_101 :: "string \<Rightarrow> parser \<Rightarrow> cxx_error" where
  "error_101 m p = parse_error 101 (lines_read (m_lexer p)) (chars_read_current_line (m_lexer p)) m"

definition unexpected :: "token_type \<Rightarrow> string \<Rightarrow> (parser, outcome) sm" where
  "unexpected expected context p = sax_parse_error (error_101 (exception_message expected context p) p) p"

section \<open>The loop\<close>

text \<open>A key and the separator behind it; the key is the last token.\<close>

definition parse_key :: "(parser, outcome) sm \<Rightarrow> (parser, outcome) sm" where
  "parse_key rest p =
     (if last_token p \<noteq> Value_string then unexpected Value_string ''object key'' p
      else sthen (sax_key (token_buffer (m_lexer p)))
        (sbind get_token (\<lambda>t. if t \<noteq> Name_separator then unexpected Name_separator ''object separator'' else rest)) p)"

definition parse_object :: "(parser, outcome) sm" where
  "parse_object =
     sthen start_object (sbind get_token (\<lambda>t.
       if t = End_object then sthen end_object (sret Value_done)
       else parse_key (sthen (smodify (\<lambda>p. p\<lparr>states := False # states p\<rparr>)) (sthen get_token (sret Next_value)))))"

definition parse_array :: "(parser, outcome) sm" where
  "parse_array =
     sthen start_array (sbind get_token (\<lambda>t.
       if t = End_array then sthen end_array (sret Value_done)
       else sthen (smodify (\<lambda>p. p\<lparr>states := True # states p\<rparr>)) (sret Next_value)))"

definition parse_float :: "(parser, outcome) sm" where
  "parse_float p =
     (let x = value_float (m_lexer p)
      in if \<not> isfinite x then
           sax_parse_error (json_out_of_range 406 (''number overflow parsing '' @ [CHR 0x27] @ get_token_string (m_lexer p) @ [CHR 0x27])) p
         else sthen (sax_value (J_float x)) (sret Value_done) p)"

definition parse_end_of_input :: "(parser, outcome) sm" where
  "parse_end_of_input p =
     (if chars_read_total (m_lexer p) = 1 then
        sax_parse_error (error_101 ''attempting to parse an empty input; check that your input string or stream contains the expected JSON'' p) p
      else unexpected Literal_or_value ''value'' p)"

definition parse_value :: "(parser, outcome) sm" where
  "parse_value p =
     (case last_token p of
        Begin_object \<Rightarrow> parse_object p
      | Begin_array \<Rightarrow> parse_array p
      | Value_float \<Rightarrow> parse_float p
      | Literal_false \<Rightarrow> sthen (sax_value (J_bool False)) (sret Value_done) p
      | Literal_null \<Rightarrow> sthen (sax_value J_null) (sret Value_done) p
      | Literal_true \<Rightarrow> sthen (sax_value (J_bool True)) (sret Value_done) p
      | Value_integer \<Rightarrow> sthen (sax_value (J_int (value_integer (m_lexer p)))) (sret Value_done) p
      | Value_string \<Rightarrow> sthen (sax_value (J_str (token_buffer (m_lexer p)))) (sret Value_done) p
      | Value_unsigned \<Rightarrow> sthen (sax_value (J_unsigned (value_unsigned (m_lexer p)))) (sret Value_done) p
      | Parse_error \<Rightarrow> unexpected Uninitialized ''value'' p
      | End_of_input \<Rightarrow> parse_end_of_input p
      | _ \<Rightarrow> unexpected Literal_or_value ''value'' p)"

text \<open>After a value: the innermost array or object goes on or ends.\<close>

definition close_array :: "(parser, outcome) sm" where
  "close_array p =
     (if last_token p = End_array then
        sthen end_array (sthen (smodify (\<lambda>p. p\<lparr>states := tl (states p), skip_to_state_evaluation := True\<rparr>)) (sret Next_value)) p
      else unexpected End_array ''array'' p)"

definition close_object :: "(parser, outcome) sm" where
  "close_object p =
     (if last_token p = End_object then
        sthen end_object (sthen (smodify (\<lambda>p. p\<lparr>states := tl (states p), skip_to_state_evaluation := True\<rparr>)) (sret Next_value)) p
      else unexpected End_object ''object'' p)"

definition continue_array :: "(parser, outcome) sm" where
  "continue_array p0 =
     sbind get_token (\<lambda>t.
       if t = Value_separator then
         sbind get_token (\<lambda>t'. if \<not> (ignore_trailing_commas p0 \<and> t' = End_array) then sret Next_value else close_array)
       else close_array) p0"

definition continue_object :: "(parser, outcome) sm" where
  "continue_object p0 =
     sbind get_token (\<lambda>t.
       if t = Value_separator then
         sbind get_token (\<lambda>t'.
           if \<not> (ignore_trailing_commas p0 \<and> t' = End_object) then parse_key (sthen get_token (sret Next_value))
           else close_object)
       else close_object) p0"

definition evaluate_state :: "(parser, outcome) sm" where
  "evaluate_state p =
     (case states p of
        [] \<Rightarrow> (Inr (Returned True), p)
      | True # _ \<Rightarrow> continue_array p
      | False # _ \<Rightarrow> continue_object p)"

definition sax_step :: "(parser, outcome) sm" where
  "sax_step p =
     (if \<not> skip_to_state_evaluation p then
        sbind parse_value (\<lambda>r. if r = Value_done then evaluate_state else sret r) p
      else evaluate_state (p\<lparr>skip_to_state_evaluation := False\<rparr>))"

partial_function (option) sax_parse_internal :: "parser \<Rightarrow> (bool cxx \<times> parser) option" where
  "sax_parse_internal p =
     (case sax_step p of
        (Inl e, p') \<Rightarrow> Some (Inl e, p')
      | (Inr (Returned b), p') \<Rightarrow> Some (Inr b, p')
      | (Inr _, p') \<Rightarrow> sax_parse_internal p')"

section \<open>The interface\<close>

text \<open>The constructor reads the first token. \<open>parse\<close> is strict: nothing but white space may follow the value.\<close>

definition new_parser :: "bool \<Rightarrow> bool \<Rightarrow> bool \<Rightarrow> string \<Rightarrow> parser" where
  "new_parser exceptions comments trailing s =
     snd (get_token \<lparr>m_lexer = new_lexer s comments, last_token = Uninitialized, allow_exceptions = exceptions,
       ignore_trailing_commas = trailing, states = [], skip_to_state_evaluation = False, root = J_null, ref_stack = [],
       object_element = None, errored = False\<rparr>)"

definition parse_end :: "(parser, unit) sm" where
  "parse_end =
     sbind get_token (\<lambda>t. if t \<noteq> End_of_input then sthen (unexpected End_of_input ''value'') (sret ()) else sret ())"

definition parse_with :: "bool \<Rightarrow> bool \<Rightarrow> bool \<Rightarrow> string \<Rightarrow> json cxx option" where
  "parse_with exceptions comments trailing s =
     (case sax_parse_internal (new_parser exceptions comments trailing s) of
        None \<Rightarrow> None
      | Some (Inl e, p) \<Rightarrow> Some (Inl e)
      | Some (Inr _, p) \<Rightarrow>
          Some (case parse_end p of
                  (Inl e, p') \<Rightarrow> Inl e
                | (Inr _, p') \<Rightarrow> Inr (if errored p' then J_discarded else root p')))"

definition parse :: "string \<Rightarrow> json cxx option" where
  "parse = parse_with True False False"

declare sax_parse_internal.simps [code]

section \<open>The loop ends\<close>

text \<open>What the steps of \<open>json_sax_dom_parser\<close> leave alone.\<close>

definition same_input :: "parser \<Rightarrow> parser \<Rightarrow> bool" where
  "same_input p q \<longleftrightarrow> m_lexer q = m_lexer p \<and> last_token q = last_token p"

lemma same_input_trans: "same_input p q \<Longrightarrow> same_input q r \<Longrightarrow> same_input p r"
  by (simp add: same_input_def)

lemma handle_value_input: "handle_value v p = (r, q) \<Longrightarrow> same_input p q"
  by (auto simp: handle_value_def same_input_def split: list.splits option.splits json.splits)

lemma sax_value_input: "sax_value v p = (r, q) \<Longrightarrow> same_input p q"
  by (auto simp: sax_value_def sbind_def split: prod.splits sum.splits dest: handle_value_input)

lemma sax_start_input: "sax_start v p = (Inr r, q) \<Longrightarrow> same_input p q"
  by (auto simp: sax_start_def sbind_def same_input_def split: prod.splits sum.splits dest!: handle_value_input)

lemma sax_key_input: "sax_key k p = (r, q) \<Longrightarrow> same_input p q"
  by (auto simp: sax_key_def same_input_def split: list.splits option.splits json.splits)

lemma end_input:
  "end_object p = (r, q) \<Longrightarrow> same_input p q" "end_array p = (r, q) \<Longrightarrow> same_input p q"
  by (auto simp: end_object_def end_array_def same_input_def split: list.splits option.splits json.splits)

text \<open>The characters left, and what counts down: a token that can go on counts as half a character.\<close>

definition chars_left :: "parser \<Rightarrow> nat" where "chars_left p = length (unread (m_lexer p))"

definition good :: "token_type \<Rightarrow> bool" where "good t \<longleftrightarrow> t \<notin> {End_of_input, Parse_error}"

definition effort :: "parser \<Rightarrow> nat" where "effort p = 2 * chars_left p + (if good (last_token p) then 1 else 0)"

lemma left_input: "same_input p q \<Longrightarrow> chars_left q = chars_left p \<and> effort q = effort p"
  by (simp add: same_input_def chars_left_def effort_def)

lemma get_token_left:
  assumes "get_token p = (r, q)"
  shows "r = Inr (last_token q)" "chars_left q \<le> chars_left p" "good (last_token q) \<Longrightarrow> chars_left q < chars_left p"
    "effort q \<le> 2 * chars_left p" "good (last_token q) \<Longrightarrow> effort q < 2 * chars_left p"
  using assms scan_shorter [of "m_lexer p" "last_token q" "m_lexer q"]
  by (auto simp: get_token_def chars_left_def effort_def good_def split: prod.splits)

text \<open>
  A step of the loop from \<open>p\<close>: it can have read a value only when \<open>a\<close> is a
  number, and then at most so many characters are left, and when it goes on,
  the effort is below \<open>b\<close>.
\<close>

definition bounded :: "nat option \<Rightarrow> nat \<Rightarrow> (parser, outcome) sm \<Rightarrow> parser \<Rightarrow> bool" where
  "bounded a b m p \<longleftrightarrow>
     (\<forall>r q. m p = (Inr r, q) \<longrightarrow> (r = Value_done \<longrightarrow> (\<exists>n. a = Some n \<and> chars_left q \<le> n)) \<and> (r = Next_value \<longrightarrow> effort q < b))"

lemma bounded_bind: "(\<And>x q. m p = (Inr x, q) \<Longrightarrow> bounded a b (f x) q) \<Longrightarrow> bounded a b (sbind m f) p"
  by (auto simp: bounded_def sbind_def split: prod.splits sum.splits)

lemma bounded_return:
  "chars_left p \<le> n \<Longrightarrow> bounded (Some n) b (sret Value_done) p" "effort p < b \<Longrightarrow> bounded a b (sret Next_value) p"
  by (simp_all add: bounded_def)

lemma bounded_error [simp]: "bounded a b (sax_parse_error e) p" "bounded a b (unexpected t c) p"
  by (simp_all add: bounded_def sax_parse_error_def unexpected_def)

lemma bounded_modify: "bounded a b m (f p) \<Longrightarrow> bounded a b (sthen (smodify f) m) p"
  by (simp add: bounded_def sbind_def)

lemma bounded_value: "chars_left p \<le> n \<Longrightarrow> bounded (Some n) b (sthen (sax_value v) (sret Value_done)) p"
  unfolding sthen_def by (intro bounded_bind bounded_return) (metis left_input sax_value_input)

lemma bounded_end:
  "chars_left p \<le> n \<Longrightarrow> bounded (Some n) b (sthen end_object (sret Value_done)) p"
  "chars_left p \<le> n \<Longrightarrow> bounded (Some n) b (sthen end_array (sret Value_done)) p"
  unfolding sthen_def by (intro bounded_bind bounded_return; metis left_input end_input)+

lemma bounded_token: "2 * chars_left p < b \<Longrightarrow> bounded a b (sthen get_token (sret Next_value)) p"
  unfolding sthen_def by (intro bounded_bind bounded_return) (metis get_token_left(4) le_less_trans)

lemma left_states [simp]: "chars_left (p\<lparr>states := s\<rparr>) = chars_left p" "chars_left (p\<lparr>skip_to_state_evaluation := c\<rparr>) = chars_left p"
  "effort (p\<lparr>states := s\<rparr>) = effort p" "effort (p\<lparr>skip_to_state_evaluation := c\<rparr>) = effort p"
  by (simp_all add: chars_left_def effort_def)

lemma bounded_key:
  assumes "\<And>q. chars_left q < chars_left p \<Longrightarrow> bounded a b rest q"
  shows "bounded a b (parse_key rest) p"
proof -
  have "bounded a b (sthen (sax_key (token_buffer (m_lexer p)))
      (sbind get_token (\<lambda>t. if t \<noteq> Name_separator then unexpected Name_separator ''object separator'' else rest))) p"
    unfolding sthen_def
  proof (intro bounded_bind)
    fix u p1 t p2
    assume k: "sax_key (token_buffer (m_lexer p)) p = (Inr u, p1)" and t: "get_token p1 = (Inr t, p2)"
    have "bounded a b rest p2" if "t = Name_separator"
      using assms that get_token_left [OF t] left_input [OF sax_key_input [OF k]] by (simp add: good_def)
    then show "bounded a b (if t \<noteq> Name_separator then unexpected Name_separator ''object separator'' else rest) p2" by simp
  qed
  then show ?thesis by (simp add: bounded_def parse_key_def unexpected_def sax_parse_error_def)
qed

lemma bounded_object: "bounded (Some (chars_left p)) (Suc (2 * chars_left p)) parse_object p"
  unfolding parse_object_def sthen_def [of start_object]
proof (intro bounded_bind)
  fix u p1 t p2
  assume s: "start_object p = (Inr u, p1)" and t: "get_token p1 = (Inr t, p2)"
  have l: "chars_left p2 \<le> chars_left p"
    using s get_token_left(2) [OF t] left_input [OF sax_start_input] by (simp add: start_object_def)
  have "bounded (Some (chars_left p)) (Suc (2 * chars_left p)) (parse_key (sthen (smodify (\<lambda>p. p\<lparr>states := False # states p\<rparr>)) (sthen get_token (sret Next_value)))) p2"
    by (intro bounded_key bounded_modify bounded_token) (use l in simp)
  with bounded_end(1) [OF l] show "bounded (Some (chars_left p)) (Suc (2 * chars_left p)) (if t = End_object then sthen end_object (sret Value_done)
      else parse_key (sthen (smodify (\<lambda>p. p\<lparr>states := False # states p\<rparr>)) (sthen get_token (sret Next_value)))) p2"
    by simp
qed

lemma bounded_array: "bounded (Some (chars_left p)) (Suc (2 * chars_left p)) parse_array p"
  unfolding parse_array_def sthen_def [of start_array]
proof (intro bounded_bind)
  fix u p1 t p2
  assume s: "start_array p = (Inr u, p1)" and t: "get_token p1 = (Inr t, p2)"
  have l: "chars_left p1 = chars_left p"
    using s left_input [OF sax_start_input] by (simp add: start_array_def)
  have "bounded (Some (chars_left p)) (Suc (2 * chars_left p)) (sthen (smodify (\<lambda>p. p\<lparr>states := True # states p\<rparr>)) (sret Next_value)) p2"
    using get_token_left(4) [OF t] l by (intro bounded_modify bounded_return) simp
  moreover have "chars_left p2 \<le> chars_left p" using get_token_left(2) [OF t] l by simp
  ultimately show "bounded (Some (chars_left p)) (Suc (2 * chars_left p)) (if t = End_array then sthen end_array (sret Value_done)
      else sthen (smodify (\<lambda>p. p\<lparr>states := True # states p\<rparr>)) (sret Next_value)) p2"
    using bounded_end(2) by simp
qed

lemma bounded_parse_value: "bounded (Some (chars_left p)) (Suc (2 * chars_left p)) parse_value p"
proof -
  have "parse_value p = m p \<Longrightarrow> bounded (Some (chars_left p)) (Suc (2 * chars_left p)) m p \<Longrightarrow> ?thesis" for m
    by (simp add: bounded_def)
  note by_case = this
  show ?thesis
  proof (cases "last_token p")
    case Begin_object
    then show ?thesis by (intro by_case [of parse_object] bounded_object) (simp add: parse_value_def)
  next
    case Begin_array
    then show ?thesis by (intro by_case [of parse_array] bounded_array) (simp add: parse_value_def)
  next
    case Value_float
    then show ?thesis
      using bounded_value [of p "chars_left p" "Suc (2 * chars_left p)" "J_float (value_float (m_lexer p))"] bounded_error(1) [of "Some (chars_left p)" "Suc (2 * chars_left p)"]
      by (simp add: bounded_def parse_value_def parse_float_def Let_def)
  next
    case End_of_input
    then show ?thesis
      using bounded_error [of "Some (chars_left p)" "Suc (2 * chars_left p)"]
      by (simp add: bounded_def parse_value_def parse_end_of_input_def)
  qed (use bounded_value [of p "chars_left p" "Suc (2 * chars_left p)"] bounded_error(2) [of "Some (chars_left p)" "Suc (2 * chars_left p)"] in
      \<open>simp_all add: bounded_def parse_value_def\<close>)
qed

lemma bounded_eq: "m p = n p \<Longrightarrow> bounded a b n p \<Longrightarrow> bounded a b m p"
  by (simp add: bounded_def)

lemma bounded_close:
  "(last_token p = End_array \<Longrightarrow> effort p < b) \<Longrightarrow> bounded a b close_array p"
  "(last_token p = End_object \<Longrightarrow> effort p < b) \<Longrightarrow> bounded a b close_object p"
proof -
  let ?pop = "sthen (smodify (\<lambda>p. p\<lparr>states := tl (states p), skip_to_state_evaluation := True\<rparr>)) (sret Next_value)"
  have pop: "bounded a b ?pop q" if "effort q < b" for q
    using that by (intro bounded_modify bounded_return) simp
  have arr: "bounded a b (sthen end_array ?pop) p" if "effort p < b"
    unfolding sthen_def [of end_array] by (intro bounded_bind pop) (metis that left_input end_input(2))
  have obj: "bounded a b (sthen end_object ?pop) p" if "effort p < b"
    unfolding sthen_def [of end_object] by (intro bounded_bind pop) (metis that left_input end_input(1))
  show "bounded a b close_array p" if "last_token p = End_array \<Longrightarrow> effort p < b"
  proof (cases "last_token p = End_array")
    case True
    then show ?thesis by (intro bounded_eq [OF _ arr [OF that [OF True]]]) (simp add: close_array_def)
  next
    case False
    then show ?thesis by (intro bounded_eq [OF _ bounded_error(2)]) (simp add: close_array_def)
  qed
  show "bounded a b close_object p" if "last_token p = End_object \<Longrightarrow> effort p < b"
  proof (cases "last_token p = End_object")
    case True
    then show ?thesis by (intro bounded_eq [OF _ obj [OF that [OF True]]]) (simp add: close_object_def)
  next
    case False
    then show ?thesis by (intro bounded_eq [OF _ bounded_error(2)]) (simp add: close_object_def)
  qed
qed

text \<open>After a value, going on takes a token that is good, and so at least one character.\<close>

lemma bounded_continue:
  "bounded a (2 * chars_left p) continue_array p" "bounded a (2 * chars_left p) continue_object p"
proof -
  {
    fix t p1
    assume t: "get_token p = (Inr t, p1)"
    have tok: "t = last_token p1" using get_token_left(1) [OF t] by simp
    have e: "effort p1 < 2 * chars_left p" if "good t" using get_token_left(5) [OF t] that tok by simp
    have l: "chars_left p1 < chars_left p" if "good t" using get_token_left(3) [OF t] that tok by simp
    have close: "bounded a (2 * chars_left p) close_array p1" "bounded a (2 * chars_left p) close_object p1"
      by (intro bounded_close e; simp add: tok good_def)+
    have next_token: "effort p2 < 2 * chars_left p" "chars_left p2 < chars_left p" if "good t" "get_token p1 = (Inr t', p2)" for t' p2
      using get_token_left(2,4) [OF that(2)] l [OF that(1)] by simp_all
    note close close [THEN bounded_def [THEN iffD1]] next_token
  }
  note step = this
  show "bounded a (2 * chars_left p) continue_array p"
  proof (rule bounded_eq [OF continue_array_def], intro bounded_bind)
    fix t p1
    assume t: "get_token p = (Inr t, p1)"
    show "bounded a (2 * chars_left p) (if t = Value_separator then
         sbind get_token (\<lambda>t'. if \<not> (ignore_trailing_commas p \<and> t' = End_array) then sret Next_value else close_array)
       else close_array) p1"
    proof (cases "t = Value_separator")
      case True
      have "bounded a (2 * chars_left p) (if \<not> (ignore_trailing_commas p \<and> t' = End_array) then sret Next_value else close_array) p2"
        if "get_token p1 = (Inr t', p2)" for t' p2
        using step(5) [OF t _ that] True bounded_return(2) [of p2 "2 * chars_left p" a] bounded_close(1) [of p2 "2 * chars_left p" a]
        by (simp add: good_def)
      with True show ?thesis by (auto intro: bounded_bind)
    next
      case False
      with step(1) [OF t] show ?thesis by simp
    qed
  qed
  show "bounded a (2 * chars_left p) continue_object p"
  proof (rule bounded_eq [OF continue_object_def], intro bounded_bind)
    fix t p1
    assume t: "get_token p = (Inr t, p1)"
    show "bounded a (2 * chars_left p) (if t = Value_separator then
         sbind get_token (\<lambda>t'.
           if \<not> (ignore_trailing_commas p \<and> t' = End_object) then parse_key (sthen get_token (sret Next_value))
           else close_object)
       else close_object) p1"
    proof (cases "t = Value_separator")
      case True
      have "bounded a (2 * chars_left p) (if \<not> (ignore_trailing_commas p \<and> t' = End_object)
          then parse_key (sthen get_token (sret Next_value)) else close_object) p2"
        if p2: "get_token p1 = (Inr t', p2)" for t' p2
      proof -
        have e: "effort p2 < 2 * chars_left p" "chars_left p2 < chars_left p" using step(5,6) [OF t _ p2] True by (simp_all add: good_def)
        then have "bounded a (2 * chars_left p) (parse_key (sthen get_token (sret Next_value))) p2"
          by (intro bounded_key bounded_token) simp
        with bounded_close(2) [of p2 "2 * chars_left p" a] e show ?thesis by simp
      qed
      with True show ?thesis by (auto intro: bounded_bind)
    next
      case False
      with step(2) [OF t] show ?thesis by simp
    qed
  qed
qed

lemma bounded_evaluate: "bounded None (2 * chars_left p) evaluate_state p"
proof (cases "states p")
  case Nil
  then show ?thesis by (simp add: bounded_def evaluate_state_def)
next
  case (Cons b bs)
  have "evaluate_state p = (if b then continue_array else continue_object) p"
    using Cons by (simp add: evaluate_state_def)
  then show ?thesis by (rule bounded_eq) (simp add: bounded_continue)
qed

text \<open>A bad token ends the loop.\<close>

lemma parse_value_good: "parse_value p = (Inr r, q) \<Longrightarrow> r \<noteq> Returned False \<Longrightarrow> good (last_token p)"
  by (cases "last_token p")
    (auto simp: parse_value_def good_def unexpected_def sax_parse_error_def parse_end_of_input_def split: if_splits)

lemma sax_step_counts_down:
  assumes "sax_step p = (Inr r, q)"
  shows "r = Next_value \<Longrightarrow> effort q < effort p" and "r \<noteq> Value_done"
proof -
  have ev: "r \<noteq> Value_done \<and> (r = Next_value \<longrightarrow> effort q < 2 * chars_left p')" if "evaluate_state p' = (Inr r, q)" for p'
    using that bounded_evaluate [of p'] by (auto simp: bounded_def)
  have le: "2 * chars_left p \<le> effort p" by (simp add: effort_def)
  consider "evaluate_state (p\<lparr>skip_to_state_evaluation := False\<rparr>) = (Inr r, q)"
    | p1 where "parse_value p = (Inr Value_done, p1)" "evaluate_state p1 = (Inr r, q)"
    | "parse_value p = (Inr r, q)" "r \<noteq> Value_done"
    using assms by (auto simp: sax_step_def sbind_def split: prod.splits sum.splits if_splits)
  then have "r \<noteq> Value_done \<and> (r = Next_value \<longrightarrow> effort q < effort p)"
  proof cases
    case 1
    with ev [OF 1] le show ?thesis by auto
  next
    case 2
    have "chars_left p1 \<le> chars_left p" using 2(1) bounded_parse_value [of p] by (auto simp: bounded_def)
    with ev [OF 2(2)] le show ?thesis by auto
  next
    case 3
    have "effort q < Suc (2 * chars_left p)" if "r = Next_value" using 3(1) that bounded_parse_value [of p] by (auto simp: bounded_def)
    moreover have "good (last_token p)" if "r = Next_value" using parse_value_good [OF 3(1)] that by simp
    ultimately show ?thesis using 3(2) by (simp add: effort_def)
  qed
  then show "r = Next_value \<Longrightarrow> effort q < effort p" and "r \<noteq> Value_done" by simp_all
qed

lemma sax_parse_internal_returns: "\<exists>r. sax_parse_internal p = Some r"
proof (induction "effort p" arbitrary: p rule: less_induct)
  case less
  obtain r q where s: "sax_step p = (r, q)" by fastforce
  show ?case
  proof (cases r)
    case (Inl e)
    with s show ?thesis by (subst sax_parse_internal.simps) simp
  next
    case (Inr c)
    with s sax_step_counts_down [of p c q] less [of q] show ?thesis
      by (subst sax_parse_internal.simps) (cases c; simp)
  qed
qed

text \<open>The JSON parser ends on every input and with every setting, comments and trailing commas included: each
  turn of its loop takes at least one more character of the text or ends it.\<close>

theorem json_parser_ends: "\<exists>r. parse_with exceptions comments trailing s = Some r"
  using sax_parse_internal_returns [of "new_parser exceptions comments trailing s"]
  by (auto simp: parse_with_def split: sum.split)

end
