(* ===== verification/Json_Utf8.thy ===== *)
theory Json_Utf8
  imports Json_Lexer
begin

text \<open>
  UTF-8 as a specification: what a well-formed byte sequence is, and the encoding of code points; then that
  every string token of the scanner is well-formed, whatever escapes it was written with.
\<close>

section \<open>Well-formed sequences\<close>

text \<open>The ranges of the bytes that must follow a first byte (table 3-7 of the Unicode standard).\<close>

definition utf8_lead :: "int \<Rightarrow> (int \<times> int) list option" where
  "utf8_lead c = (if 0 \<le> c \<and> c < 0x80 then Some [] else utf8_ranges c)"

fun utf8_from :: "(int \<times> int) list \<Rightarrow> string \<Rightarrow> bool" where
  "utf8_from [] [] = True"
| "utf8_from [] (c # cs) = (case utf8_lead (of_char c) of None \<Rightarrow> False | Some rs \<Rightarrow> utf8_from rs cs)"
| "utf8_from (r # rs) [] = False"
| "utf8_from ((lo, hi) # rs) (c # cs) = (lo \<le> of_char c \<and> of_char c \<le> hi \<and> utf8_from rs cs)"

abbreviation utf8_ok :: "string \<Rightarrow> bool" where
  "utf8_ok \<equiv> utf8_from []"

lemma utf8_from_append: "utf8_from rs a \<Longrightarrow> utf8_from rs (a @ b) = utf8_ok b"
  by (induction rs a rule: utf8_from.induct) (auto split: option.splits)

lemma utf8_ok_append: "utf8_ok a \<Longrightarrow> utf8_ok b \<Longrightarrow> utf8_ok (a @ b)"
  by (simp add: utf8_from_append)

text \<open>Scalar values and their encoding.\<close>

definition scalar :: "int \<Rightarrow> bool" where
  "scalar cp \<longleftrightarrow> 0 \<le> cp \<and> cp < 0xD800 \<or> 0xDFFF < cp \<and> cp \<le> 0x10FFFF"

definition utf8_encode :: "int \<Rightarrow> int list" where
  "utf8_encode cp =
     (if cp < 0x80 then [cp]
      else if cp < 0x800 then [0xC0 + cp div 64, 0x80 + cp mod 64]
      else if cp < 0x10000 then [0xE0 + cp div 4096, 0x80 + cp div 64 mod 64, 0x80 + cp mod 64]
      else [0xF0 + cp div 262144, 0x80 + cp div 4096 mod 64, 0x80 + cp div 64 mod 64, 0x80 + cp mod 64])"

lemma of_char_char_of_int [simp]: "0 \<le> x \<Longrightarrow> x < 256 \<Longrightarrow> (of_char (char_of x) :: int) = x"
  by (simp add: of_char_of)

lemma of_char_range [simp]: "0 \<le> (of_char c :: int)" "(of_char c :: int) < 256"
proof -
  have "(of_char c :: int) = int (of_char c)" by (simp only: of_nat_of_char)
  then show "0 \<le> (of_char c :: int)" "(of_char c :: int) < 256" using nat_of_char_less_256 [of c] by linarith+
qed

lemma utf8_leads:
  "0 \<le> a \<Longrightarrow> a < 0x80 \<Longrightarrow> utf8_lead a = Some []"
  "2 \<le> a \<Longrightarrow> a < 32 \<Longrightarrow> utf8_lead (0xC0 + a) = Some [(0x80, 0xBF)]"
  "0 \<le> a \<Longrightarrow> a < 16 \<Longrightarrow> utf8_lead (0xE0 + a) = Some [(if a = 0 then 0xA0 else 0x80, if a = 13 then 0x9F else 0xBF), (0x80, 0xBF)]"
  "0 \<le> a \<Longrightarrow> a < 5 \<Longrightarrow> utf8_lead (0xF0 + a) = Some [(if a = 0 then 0x90 else 0x80, if a = 4 then 0x8F else 0xBF), (0x80, 0xBF), (0x80, 0xBF)]"
  by (auto simp: utf8_lead_def utf8_ranges_def)

lemma page_13:
  "32 \<le> (q :: int) \<Longrightarrow> q div 64 = 0 \<Longrightarrow> 32 \<le> q mod 64"
  "(q :: int) < 0x360 \<or> 0x380 \<le> q \<Longrightarrow> q div 64 = 13 \<Longrightarrow> q mod 64 < 32"
  using div_mult_mod_eq [of q 64] pos_mod_bound [of 64 q] by linarith+

lemma plane_4:
  "16 \<le> (q :: int) \<Longrightarrow> q div 64 = 0 \<Longrightarrow> 16 \<le> q mod 64" "(q :: int) \<le> 0x10F \<Longrightarrow> q div 64 = 4 \<Longrightarrow> q mod 64 < 16"
  using div_mult_mod_eq [of q 64] by linarith+

text \<open>Sequences of two, three and four bytes, by their payloads.\<close>

lemma utf8_sequences:
  "2 \<le> a \<Longrightarrow> a < 32 \<Longrightarrow> 0 \<le> d \<Longrightarrow> d < 64 \<Longrightarrow> utf8_ok (map char_of [0xC0 + a, 0x80 + d :: int])"
  "0 \<le> a \<Longrightarrow> a < 16 \<Longrightarrow> 0 \<le> b \<Longrightarrow> b < 64 \<Longrightarrow> 0 \<le> d \<Longrightarrow> d < 64 \<Longrightarrow> (a = 0 \<Longrightarrow> 32 \<le> b) \<Longrightarrow> (a = 13 \<Longrightarrow> b < 32) \<Longrightarrow>
     utf8_ok (map char_of [0xE0 + a, 0x80 + b, 0x80 + d :: int])"
  "0 \<le> a \<Longrightarrow> a < 5 \<Longrightarrow> 0 \<le> b \<Longrightarrow> b < 64 \<Longrightarrow> 0 \<le> c \<Longrightarrow> c < 64 \<Longrightarrow> 0 \<le> d \<Longrightarrow> d < 64 \<Longrightarrow> (a = 0 \<Longrightarrow> 16 \<le> b) \<Longrightarrow>
     (a = 4 \<Longrightarrow> b < 16) \<Longrightarrow> utf8_ok (map char_of [0xF0 + a, 0x80 + b, 0x80 + c, 0x80 + d :: int])"
  by (simp_all add: utf8_leads) auto

lemma div_bounds:
  "0x800 \<le> (cp :: int) \<Longrightarrow> 32 \<le> cp div 64" "(cp :: int) < 0xD800 \<Longrightarrow> cp div 64 < 0x360" "0xDFFF < (cp :: int) \<Longrightarrow> 0x380 \<le> cp div 64"
  "0x10000 \<le> (cp :: int) \<Longrightarrow> 16 \<le> cp div 4096" "(cp :: int) \<le> 0x10FFFF \<Longrightarrow> cp div 4096 \<le> 0x10F"
  using div_mult_mod_eq [of cp 64] pos_mod_bound [of 64 cp] pos_mod_sign [of 64 cp] div_mult_mod_eq [of cp 4096] pos_mod_bound [of 4096 cp] pos_mod_sign [of 4096 cp] by linarith+

lemma utf8_encode_ok:
  assumes "scalar cp"
  shows "utf8_ok (map char_of (utf8_encode cp))"
proof -
  have m: "0 \<le> cp mod 64" "cp mod 64 < 64" "0 \<le> cp div 64 mod 64" "cp div 64 mod 64 < 64"
    "0 \<le> cp div 4096 mod 64" "cp div 4096 mod 64 < 64" by simp_all
  consider "0 \<le> cp" "cp < 0x80" | "0x80 \<le> cp" "cp < 0x800" | "0x800 \<le> cp" "cp < 0x10000" "cp < 0xD800 \<or> 0xDFFF < cp"
    | "0x10000 \<le> cp" "cp \<le> 0x10FFFF"
    using assms unfolding scalar_def by linarith
  then show ?thesis
  proof cases
    case 1
    then show ?thesis by (simp add: utf8_encode_def utf8_leads)
  next
    case 2
    have "2 \<le> cp div 64" "cp div 64 < 32" using 2 by simp_all
    moreover have "utf8_encode cp = [0xC0 + cp div 64, 0x80 + cp mod 64]" using 2 by (simp add: utf8_encode_def)
    ultimately show ?thesis using m by (simp only: utf8_sequences)
  next
    case 3
    have a: "0 \<le> cp div 4096" "cp div 4096 < 16" using 3 by simp_all
    have e: "cp div 4096 = 0 \<Longrightarrow> 32 \<le> cp div 64 mod 64" "cp div 4096 = 13 \<Longrightarrow> cp div 64 mod 64 < 32"
      using page_13 [of "cp div 64"] div_bounds(1,2,3) [of cp] 3 zdiv_zmult2_eq [of 64 cp 64] by auto
    have "utf8_encode cp = [0xE0 + cp div 4096, 0x80 + cp div 64 mod 64, 0x80 + cp mod 64]"
      using 3 by (simp add: utf8_encode_def)
    then show ?thesis using a m e by (simp only: utf8_sequences)
  next
    case 4
    have a: "0 \<le> cp div 262144" "cp div 262144 < 5" using 4 by simp_all
    have e: "cp div 262144 = 0 \<Longrightarrow> 16 \<le> cp div 4096 mod 64" "cp div 262144 = 4 \<Longrightarrow> cp div 4096 mod 64 < 16"
      using plane_4 [of "cp div 4096"] div_bounds(4,5) [of cp] 4 zdiv_zmult2_eq [of 64 cp 4096] by auto
    have "utf8_encode cp = [0xF0 + cp div 262144, 0x80 + cp div 4096 mod 64, 0x80 + cp div 64 mod 64, 0x80 + cp mod 64]"
      using 4 by (simp add: utf8_encode_def)
    then show ?thesis using a m e by (simp only: utf8_sequences)
  qed
qed

text \<open>Conversely a well-formed sequence is the encoding of scalar values.\<close>

lemma utf8_from_ConsE:
  assumes "utf8_from ((lo, hi) # rs) s" "0 \<le> lo"
  obtains b t where "s = char_of (b :: int) # t" "lo \<le> b" "b \<le> hi" "utf8_from rs t"
proof -
  from assms(1) obtain d t where "s = d # t" by (cases s) simp_all
  with assms(1) that [of "of_char d" t] show ?thesis by simp
qed

lemma utf8_encode_of:
  "2 \<le> a \<Longrightarrow> a < 32 \<Longrightarrow> 0 \<le> d \<Longrightarrow> d < 64 \<Longrightarrow> utf8_encode (a * 64 + d) = [0xC0 + a, 0x80 + d]"
  "0 \<le> a \<Longrightarrow> a < 16 \<Longrightarrow> 0 \<le> b \<Longrightarrow> b < 64 \<Longrightarrow> 0 \<le> d \<Longrightarrow> d < 64 \<Longrightarrow> (a = 0 \<Longrightarrow> 32 \<le> b) \<Longrightarrow>
     utf8_encode ((a * 64 + b) * 64 + d) = [0xE0 + a, 0x80 + b, 0x80 + d]"
  "0 \<le> a \<Longrightarrow> a < 5 \<Longrightarrow> 0 \<le> b \<Longrightarrow> b < 64 \<Longrightarrow> 0 \<le> c \<Longrightarrow> c < 64 \<Longrightarrow> 0 \<le> d \<Longrightarrow> d < 64 \<Longrightarrow> (a = 0 \<Longrightarrow> 16 \<le> b) \<Longrightarrow>
     utf8_encode (((a * 64 + b) * 64 + c) * 64 + d) = [0xF0 + a, 0x80 + b, 0x80 + c, 0x80 + d]"
proof -
  have dm: "(x * 64 + y) div 64 = x" "(x * 64 + y) mod 64 = y" if "0 \<le> y" "y < 64" for x y :: int
    using that by simp_all
  have dm2: "q div 4096 = q div 64 div 64" "q div 262144 = q div 64 div 64 div 64" for q :: int
    using zdiv_zmult2_eq [of 64 q 64] zdiv_zmult2_eq [of 64 q 4096] zdiv_zmult2_eq [of 64 "q div 64" 64]
    by simp_all
  show "utf8_encode (a * 64 + d) = [0xC0 + a, 0x80 + d]" if "2 \<le> a" "a < 32" "0 \<le> d" "d < 64"
  proof -
    have "128 \<le> a * 64 + d" "a * 64 + d < 0x800" using that by linarith+
    then show ?thesis using that by (simp add: utf8_encode_def dm)
  qed
  show "utf8_encode ((a * 64 + b) * 64 + d) = [0xE0 + a, 0x80 + b, 0x80 + d]"
    if "0 \<le> a" "a < 16" "0 \<le> b" "b < 64" "0 \<le> d" "d < 64" "a = 0 \<Longrightarrow> 32 \<le> b"
  proof -
    have "0x800 \<le> (a * 64 + b) * 64 + d" using that by (cases "a = 0") auto
    moreover have "(a * 64 + b) * 64 + d < 0x10000" using that(1-6) by simp
    ultimately show ?thesis using that by (simp add: utf8_encode_def dm2 dm del: distrib_right_numeral)
  qed
  show "utf8_encode (((a * 64 + b) * 64 + c) * 64 + d) = [0xF0 + a, 0x80 + b, 0x80 + c, 0x80 + d]"
    if "0 \<le> a" "a < 5" "0 \<le> b" "b < 64" "0 \<le> c" "c < 64" "0 \<le> d" "d < 64" "a = 0 \<Longrightarrow> 16 \<le> b"
  proof -
    have "0x10000 \<le> ((a * 64 + b) * 64 + c) * 64 + d"
      using that by (cases "a = 0") auto
    then show ?thesis using that by (simp add: utf8_encode_def dm2 dm del: distrib_right_numeral)
  qed
qed

lemma utf8_ok_scalars: "utf8_ok s \<Longrightarrow> \<exists>cps. list_all scalar cps \<and> s = concat (map (\<lambda>cp. map char_of (utf8_encode cp)) cps)"
proof (induction "length s" arbitrary: s rule: less_induct)
  case less
  show ?case
  proof (cases s)
    case Nil
    then show ?thesis by (intro exI [of _ "[]"]) simp
  next
    case (Cons x t)
    define l :: int where "l = of_char x"
    have x: "x = char_of l" by (simp add: l_def)
    obtain rs where rs: "utf8_lead l = Some rs" "utf8_from rs t"
      using less.prems by (auto simp: Cons l_def split: option.splits)
    have found: ?thesis if "scalar cp" "s = map char_of (utf8_encode cp) @ u" "utf8_ok u" "length u \<le> length t" for cp u
    proof -
      have "length u < length s" using that(4) Cons by simp
      from less.hyps [OF this that(3)] obtain cps where
        "list_all scalar cps" "u = concat (map (\<lambda>cp. map char_of (utf8_encode cp)) cps)" by blast
      with that show ?thesis by (intro exI [of _ "cp # cps"]) simp
    qed
    consider "0 \<le> l" "l < 0x80" "rs = []" | "0xC2 \<le> l" "l < 0xE0" "rs = [(0x80, 0xBF)]"
      | "0xE0 \<le> l" "l < 0xF0" "rs = [(if l = 0xE0 then 0xA0 else 0x80, if l = 0xED then 0x9F else 0xBF), (0x80, 0xBF)]"
      | "0xF0 \<le> l" "l < 0xF5" "rs = [(if l = 0xF0 then 0x90 else 0x80, if l = 0xF4 then 0x8F else 0xBF), (0x80, 0xBF), (0x80, 0xBF)]"
      using rs(1) by (auto simp: utf8_lead_def utf8_ranges_def split: if_splits)
    then show ?thesis
    proof cases
      case 1
      with rs Cons x show ?thesis by (intro found [of l t]) (simp_all add: scalar_def utf8_encode_def)
    next
      case 2
      from rs(2) obtain d u where u: "t = char_of (d :: int) # u" "0x80 \<le> d" "d \<le> 0xBF" "utf8_ok u"
        unfolding 2(3) by (elim utf8_from_ConsE) auto
      with utf8_encode_of(1) [of "l - 0xC0" "d - 0x80"] 2 Cons x show ?thesis
        by (intro found [of "(l - 0xC0) * 64 + (d - 0x80)" u]) (simp_all add: scalar_def)
    next
      case 3
      from rs(2) obtain b d u where u: "t = char_of (b :: int) # char_of (d :: int) # u" "utf8_ok u" "0x80 \<le> d" "d \<le> 0xBF"
        and b: "(if l = 0xE0 then 0xA0 else 0x80) \<le> b" "b \<le> (if l = 0xED then 0x9F else 0xBF)"
        unfolding 3(3) by (elim utf8_from_ConsE) auto
      define cp where "cp = ((l - 0xE0) * 64 + (b - 0x80)) * 64 + (d - 0x80)"
      have "utf8_encode cp = [l, b, d]"
        unfolding cp_def using 3 b u utf8_encode_of(2) [of "l - 0xE0" "b - 0x80" "d - 0x80"] by (simp split: if_splits)
      moreover have "scalar cp"
        using 3 b u by (simp add: cp_def scalar_def split: if_splits) linarith+
      ultimately show ?thesis using u Cons x by (intro found [of cp u]) simp_all
    next
      case 4
      from rs(2) obtain b c d u where u: "t = char_of (b :: int) # char_of (c :: int) # char_of (d :: int) # u" "utf8_ok u"
          "0x80 \<le> c" "c \<le> 0xBF" "0x80 \<le> d" "d \<le> 0xBF"
        and b: "(if l = 0xF0 then 0x90 else 0x80) \<le> b" "b \<le> (if l = 0xF4 then 0x8F else 0xBF)"
        unfolding 4(3) by (elim utf8_from_ConsE) auto
      define cp where "cp = (((l - 0xF0) * 64 + (b - 0x80)) * 64 + (c - 0x80)) * 64 + (d - 0x80)"
      have "utf8_encode cp = [l, b, c, d]"
        unfolding cp_def using 4 b u utf8_encode_of(3) [of "l - 0xF0" "b - 0x80" "c - 0x80" "d - 0x80"] by (simp split: if_splits)
      moreover have "scalar cp"
        using 4 b u by (simp add: cp_def scalar_def split: if_splits)
      ultimately show ?thesis using u Cons x by (intro found [of cp u]) simp_all
    qed
  qed
qed

text \<open>The ranges accept exactly the concatenations of encoded scalar values.\<close>

lemma utf8_ok_iff:
  "utf8_ok s \<longleftrightarrow> (\<exists>cps. list_all scalar cps \<and> s = concat (map (\<lambda>cp. map char_of (utf8_encode cp)) cps))"
proof
  assume "\<exists>cps. list_all scalar cps \<and> s = concat (map (\<lambda>cp. map char_of (utf8_encode cp)) cps)"
  then obtain cps where "list_all scalar cps" "s = concat (map (\<lambda>cp. map char_of (utf8_encode cp)) cps)" by blast
  then show "utf8_ok s"
    by (induction cps arbitrary: s) (simp_all add: utf8_ok_append utf8_encode_ok)
qed (rule utf8_ok_scalars)

section \<open>String tokens\<close>

lemma add_fields [simp]:
  "token_buffer (add c l) = token_buffer l @ [char_of c]" "current (add c l) = current l" "next_unget (add c l) = next_unget l"
  "input (add c l) = input l"
  by (simp_all add: add_def)

lemma or_disjoint: "0 \<le> y \<Longrightarrow> y < 2 ^ n \<Longrightarrow> k * 2 ^ n OR y = k * 2 ^ n + (y :: int)"
  using concat_bit_eq [of n y k] by (simp add: concat_bit_def take_bit_eq_mod push_bit_eq_mult or.commute add.commute mult.commute)

lemma and_63: "x AND 0x3F = x mod (64 :: int)"
  using take_bit_eq_mask [of 6 x] by (simp add: take_bit_eq_mod mask_eq_exp_minus_1)

lemma or_lead:
  "0 \<le> y \<Longrightarrow> y < 64 \<Longrightarrow> 0x80 OR y = 0x80 + (y :: int)" "0 \<le> y \<Longrightarrow> y < 32 \<Longrightarrow> 0xC0 OR y = 0xC0 + (y :: int)"
  "0 \<le> y \<Longrightarrow> y < 16 \<Longrightarrow> 0xE0 OR y = 0xE0 + (y :: int)" "0 \<le> y \<Longrightarrow> y < 8 \<Longrightarrow> 0xF0 OR y = 0xF0 + (y :: int)"
  using or_disjoint [of y 6 2] or_disjoint [of y 5 6] or_disjoint [of y 4 14] or_disjoint [of y 3 30] by simp_all

lemma add_codepoint_encodes:
  assumes "0 \<le> cp" "cp \<le> 0x10FFFF"
  shows "token_buffer (add_codepoint cp l) = token_buffer l @ map char_of (utf8_encode cp)"
proof -
  have d: "drop_bit 6 cp = cp div 64" "drop_bit 12 cp = cp div 4096" "drop_bit 18 cp = cp div 262144"
    by (simp_all add: drop_bit_eq_div)
  have b: "cp \<le> 0x7FF \<Longrightarrow> cp div 64 < 32" "cp \<le> 0xFFFF \<Longrightarrow> cp div 4096 < 16" "cp div 262144 < 8" "0 \<le> cp div 64"
    "0 \<le> cp div 4096" "0 \<le> cp div 262144" "0 \<le> x mod 64" "x mod 64 < 64" for x :: int
    using assms by simp_all
  show ?thesis
    using assms b by (simp add: add_codepoint_def utf8_encode_def d and_63 or_lead)
qed

lemma codepoint_loop_buffer: "codepoint_loop fs cp l = (r, l') \<Longrightarrow> token_buffer l' = token_buffer l"
  by (induction fs arbitrary: cp l) (auto simp: Let_def split: option.splits)

lemma hex_digit_range: "hex_digit c = Some d \<Longrightarrow> 0 \<le> d \<and> d < 16"
  by (auto simp: hex_digit_def split: if_splits)

lemma get_codepoint_range:
  assumes "get_codepoint l = (r, l')"
  shows "token_buffer l' = token_buffer l" and "r = - 1 \<or> 0 \<le> r \<and> r \<le> 0xFFFF"
  using assms codepoint_loop_buffer [of "[12, 8, 4, 0]" 0 l r l']
  by (auto simp: get_codepoint_def push_bit_eq_mult Let_def split: option.splits dest!: hex_digit_range)

lemma scan_unicode_utf8:
  assumes "scan_unicode l = (Value_string, l')"
  shows "\<exists>cp. scalar cp \<and> token_buffer l' = token_buffer l @ map char_of (utf8_encode cp)"
proof -
  obtain cp l1 where c: "get_codepoint l = (cp, l1)" by fastforce
  note r = get_codepoint_range [OF c]
  consider "0xD800 \<le> cp" "cp \<le> 0xDBFF" "low_surrogate cp l1 = (Value_string, l')"
    | "scalar cp" "l' = add_codepoint cp l1"
    using assms c r(2) by (auto simp: scan_unicode_def fail_def scalar_def split: if_splits)
  then show ?thesis
  proof cases
    case 1
    obtain cp2 l3 where c2: "get_codepoint (get (get l1)) = (cp2, l3)" by fastforce
    let ?cp = "push_bit 10 cp + cp2 - 0x35FDC00"
    have l': "0xDC00 \<le> cp2" "cp2 \<le> 0xDFFF" "l' = add_codepoint ?cp l3"
      using 1(3) c2 by (auto simp: low_surrogate_def fail_def Let_def split: if_splits)
    have "?cp = 1024 * cp + cp2 - 0x35FDC00" by (simp add: push_bit_eq_mult)
    then have "0x10000 \<le> ?cp" "?cp \<le> 0x10FFFF" using l' 1 by linarith+
    then have "scalar ?cp" "token_buffer l' = token_buffer l @ map char_of (utf8_encode ?cp)"
      using add_codepoint_encodes [of ?cp l3] get_codepoint_range(1) [OF c2] r(1) l'(3) by (simp_all add: scalar_def)
    then show ?thesis by blast
  next
    case 2
    then have "0 \<le> cp" "cp \<le> 0x10FFFF" by (auto simp: scalar_def)
    with 2 r(1) add_codepoint_encodes [of cp l1] show ?thesis by auto
  qed
qed

lemma next_bytes_utf8:
  "next_bytes rs l = (Value_string, l') \<Longrightarrow> \<forall>r \<in> set rs. 0 \<le> fst r \<and> snd r < 256 \<Longrightarrow>
   \<exists>bs. token_buffer l' = token_buffer l @ bs \<and> utf8_from rs bs"
proof (induction rs l rule: next_bytes.induct)
  case (2 lo hi rs l)
  let ?c = "current (get l)"
  have r: "lo \<le> ?c" "?c \<le> hi" and n: "next_bytes rs (add ?c (get l)) = (Value_string, l')"
    using 2(2) by (auto simp: Let_def fail_def split: if_splits)
  from 2(1) [OF refl _ n] r 2(3) obtain bs where "token_buffer l' = token_buffer l @ [char_of ?c] @ bs" "utf8_from rs bs" by auto
  moreover have "0 \<le> ?c" "?c < 256" using r 2(3) by auto
  ultimately show ?case using r by (intro exI [of _ "char_of ?c # bs"]) simp
qed simp

lemma scan_other_utf8:
  assumes "scan_other l = (Value_string, l')"
  shows "\<exists>bs. token_buffer l' = token_buffer l @ bs \<and> utf8_ok bs"
proof -
  let ?c = "current l"
  obtain rs where rs: "utf8_ranges ?c = Some rs" "next_bytes rs (add ?c l) = (Value_string, l')"
    using assms by (auto simp: scan_other_def fail_def next_byte_in_range_def split: if_splits option.splits list.splits)
  then have c: "0x20 \<le> ?c" "?c < 0xF5" and "\<forall>r \<in> set rs. 0 \<le> fst r \<and> snd r < 256"
    by (auto simp: utf8_ranges_def split: if_splits)
  with next_bytes_utf8 [OF rs(2)] obtain bs where "token_buffer l' = token_buffer l @ [char_of ?c] @ bs" "utf8_from rs bs" by auto
  moreover have "utf8_lead ?c = Some rs \<or> ?c < 0x80 \<and> rs = []" using rs(1) c
    by (auto simp: utf8_lead_def utf8_ranges_def split: if_splits)
  ultimately show ?thesis using c by (intro exI [of _ "char_of ?c # bs"]) (auto simp: utf8_lead_def)
qed

lemma simple_escape_range: "simple_escape c = Some d \<Longrightarrow> 0 \<le> d \<and> d < 0x80"
  by (auto simp: simple_escape_def split: if_splits)

lemma scan_escape_utf8:
  assumes "scan_escape l = (Value_string, l')"
  shows "\<exists>bs. token_buffer l' = token_buffer l @ bs \<and> utf8_ok bs"
proof (cases "simple_escape (current (get l))")
  case None
  with assms have "scan_unicode (get l) = (Value_string, l')"
    by (auto simp: scan_escape_def fail_def Let_def split: if_splits)
  from scan_unicode_utf8 [OF this] show ?thesis using utf8_encode_ok by auto
next
  case (Some d)
  with assms have "l' = add d (get l)" by (simp add: scan_escape_def)
  with simple_escape_range [OF Some] show ?thesis by (simp add: utf8_lead_def)
qed

lemma scan_string_loop_utf8:
  "scan_string_loop l = (Value_string, l') \<Longrightarrow> utf8_ok (token_buffer l) \<Longrightarrow> utf8_ok (token_buffer l')"
proof (induction l rule: scan_string_loop.induct)
  case (1 l)
  let ?x = "if current (get l) = 0x5C then scan_escape (get l) else scan_other (get l)"
  obtain t l2 where x: "?x = (t, l2)" by fastforce
  have u: "scan_string_loop l = (if current (get l) = eof then fail ''invalid string: missing closing quote'' (get l)
      else if current (get l) = 0x22 then (Value_string, get l)
      else if t = Value_string then scan_string_loop l2 else (t, l2))"
    using x by (subst scan_string_loop.simps) (simp only: Let_def split)
  show ?case
  proof (cases "current (get l) = 0x22")
    case True
    with u 1(2,3) show ?thesis by simp
  next
    case False
    then have n: "current (get l) \<noteq> eof" "t = Value_string" "scan_string_loop l2 = (Value_string, l')"
      using u 1(2) by (auto simp: fail_def split: if_splits)
    then obtain bs where "token_buffer l2 = token_buffer l @ bs" "utf8_ok bs"
      using x scan_escape_utf8 [of "get l" l2] scan_other_utf8 [of "get l" l2] by (auto split: if_splits)
    then have "utf8_ok (token_buffer l2)" using 1(3) by (simp add: utf8_ok_append)
    with 1(1) [OF refl n(1) False x [symmetric] n(2,3)] show ?thesis .
  qed
qed

lemma scan_string_utf8: "scan_string l = (Value_string, l') \<Longrightarrow> utf8_ok (token_buffer l')"
  unfolding scan_string_def by (erule scan_string_loop_utf8) (simp add: reset_def)

end
