(* ===== verification/Json_Types.thy ===== *)
theory Json_Types
  imports Json_Parser Json_Utf8
begin

text \<open>
  What the parser gives out: no assertion of the parser can fail, every error is an exception with a text, and
  every value it returns is one that a JSON text can denote. The value under construction is described as a
  container with the path of containers around it; the stack of pointers is determined by that path.
\<close>

section \<open>Values of JSON texts\<close>

fun parsed :: "json \<Rightarrow> bool" where
  "parsed J_null = True"
| "parsed (J_obj es) = (keys_ok es \<and> (\<forall>e \<in> set es. utf8_ok (fst e) \<and> parsed (snd e)))"
| "parsed (J_arr js) = (\<forall>j \<in> set js. parsed j)"
| "parsed (J_str s) = utf8_ok s"
| "parsed (J_bool b) = True"
| "parsed (J_int x) = (sint x \<le> 0)"
| "parsed (J_unsigned x) = True"
| "parsed (J_float x) = isfinite x"
| "parsed (J_binary bs t) = False"
| "parsed J_discarded = False"

section \<open>Tokens\<close>

definition token_ok :: "token_type \<Rightarrow> lexer \<Rightarrow> bool" where
  "token_ok t l \<longleftrightarrow> (t = Value_string \<longrightarrow> utf8_ok (token_buffer l)) \<and> (t = Value_integer \<longrightarrow> sint (value_integer l) \<le> 0)"

lemma digits_value_nonneg: "list_all is_digit ds \<Longrightarrow> 0 \<le> digits_value ds"
proof (induction ds rule: rev_induct)
  case (snoc c ds)
  then have "48 \<le> (of_char c :: nat)" by (simp add: is_digit_def)
  then have "0 \<le> int (of_char c) - 48" by linarith
  with snoc show ?case by (simp add: digits_value_snoc)
qed (simp add: digits_value_def)

lemma read_number_minus:
  "read_number (CHR ''-'' # ds) =
     (if takeWhile is_digit ds = [] then None else Some (- digits_value (takeWhile is_digit ds)))"
proof -
  have "\<not> is_space (CHR ''-'')" by (simp add: is_space_def)
  then show ?thesis by (simp add: read_number_def Let_def)
qed

lemma strtoll_minus:
  assumes "strtoll (CHR ''-'' # ds) = (x, False)"
  shows "sint x \<le> 0"
proof -
  let ?i = "case read_number (CHR ''-'' # ds) of None \<Rightarrow> 0 | Some i \<Rightarrow> i"
  have "list_all is_digit (takeWhile is_digit ds)" by (auto simp: list_all_iff dest: set_takeWhileD)
  then have i: "?i \<le> 0"
    by (simp add: read_number_minus digits_value_nonneg)
  from assms have "clamped (- (2 ^ 63)) (2 ^ 63 - 1) ?i = (fst (clamped (- (2 ^ 63)) (2 ^ 63 - 1) ?i), False)"
      "x = word_of_int (fst (clamped (- (2 ^ 63)) (2 ^ 63 - 1) ?i))"
    by (auto simp: strtoll_def map_prod_def split: prod.splits)
  then have r: "- (2 ^ 63) \<le> ?i" "x = word_of_int ?i"
    by (auto simp: clamped_def split: if_splits)
  have "sint (word_of_int i :: u64) = i" if "- (2 ^ 63) \<le> i" "i \<le> 0" for i
    using that by (simp add: sint_sbintrunc' signed_take_bit_int_eq_self)
  with r i have "sint x = ?i" by metis
  with i show ?thesis by simp
qed

definition minus_first :: "number_state \<Rightarrow> token_type \<Rightarrow> lexer \<Rightarrow> bool" where
  "minus_first st ty l \<longleftrightarrow> (ty = Value_integer \<or> st = N_minus \<longrightarrow> (\<exists>ds. token_buffer l = CHR ''-'' # ds))"

lemma unget_fields [simp]:
  "token_buffer (unget l) = token_buffer l"
  by (simp add: unget_def Let_def)

lemma scan_number_done_ok:
  assumes "scan_number_done ty l = (t, l')" "ty = Value_integer \<Longrightarrow> \<exists>ds. token_buffer l = CHR ''-'' # ds"
  shows "token_ok t l'"
  using assms strtoll_minus
  by (auto simp: scan_number_done_def number_float_def token_ok_def Let_def split: if_splits prod.splits)

lemma scan_number_from_ok:
  "scan_number_from st ty l = (t, l') \<Longrightarrow> minus_first st ty l \<Longrightarrow> token_ok t l'"
proof (induction st ty l rule: scan_number_from.induct)
  case (1 st ty l)
  have m: "\<exists>ds. token_buffer (get l) = CHR ''-'' # ds" if "number_type_at st ty = Value_integer"
    using that 1(3) by (cases st) (auto simp: number_type_at_def minus_first_def)
  show ?case
  proof (cases "number_switch st (current (get l))")
    case (Next st')
    then have "st' \<noteq> N_minus"
      by (cases st) (auto simp: number_switch_def scan_number_minus_def scan_number_zero_def scan_number_any1_def
          scan_number_decimal1_def scan_number_decimal2_def scan_number_exponent_def scan_number_sign_def
          scan_number_any2_def split: if_splits)
    then have "minus_first st' (number_type_at st ty) (add (current (get l)) (get l))"
      using m by (auto simp: minus_first_def)
    from 1(1) [OF refl Next _ this] 1(2) Next show ?thesis by (subst (asm) scan_number_from.simps) (simp add: Let_def)
  next
    case Done
    with 1(2) have "scan_number_done (number_type_at st ty) (get l) = (t, l')"
      by (subst (asm) scan_number_from.simps) (simp add: Let_def)
    then show ?thesis by (rule scan_number_done_ok) (rule m)
  next
    case (Bad e)
    with 1(2) have "t = Parse_error" by (subst (asm) scan_number_from.simps) (simp add: Let_def fail_def)
    then show ?thesis by (simp add: token_ok_def)
  qed
qed

lemma scan_literal_loop_ok: "scan_literal_loop cs rt l = (t, l') \<Longrightarrow> t = rt \<or> t = Parse_error"
  by (induction cs arbitrary: l) (auto simp: Let_def fail_def split: if_splits)

lemma next_bytes_tokens: "next_bytes rs l = (t, l') \<Longrightarrow> t = Value_string \<or> t = Parse_error"
  by (induction rs l rule: next_bytes.induct) (auto simp: Let_def fail_def split: if_splits)

lemma scan_string_parts:
  "scan_escape l = (t, l') \<Longrightarrow> t = Value_string \<or> t = Parse_error"
  "scan_other l = (t, l') \<Longrightarrow> t = Value_string \<or> t = Parse_error"
  by (auto simp: scan_escape_def scan_unicode_def low_surrogate_def scan_other_def next_byte_in_range_def fail_def Let_def
      split: if_splits option.splits prod.splits list.splits dest: next_bytes_tokens)

lemma scan_string_loop_tokens: "scan_string_loop l = (t, l') \<Longrightarrow> t = Value_string \<or> t = Parse_error"
proof (induction l rule: scan_string_loop.induct)
  case (1 l)
  let ?x = "if current (get l) = 0x5C then scan_escape (get l) else scan_other (get l)"
  obtain t2 l2 where x: "?x = (t2, l2)" by fastforce
  then have t2: "t2 = Value_string \<or> t2 = Parse_error" using scan_string_parts by (simp split: if_splits)
  have u: "scan_string_loop l = (if current (get l) = eof then fail ''invalid string: missing closing quote'' (get l)
      else if current (get l) = 0x22 then (Value_string, get l)
      else if t2 = Value_string then scan_string_loop l2 else (t2, l2))"
    using x by (subst scan_string_loop.simps) (simp only: Let_def split)
  from 1(1) [OF refl _ _ x [symmetric]] 1(2) t2 show ?case unfolding u by (auto simp: fail_def split: if_splits)
qed

lemma scan_number_ok: "current l = 0x2D \<or> is_digit_code (current l) \<Longrightarrow> scan_number l = (t, l') \<Longrightarrow> token_ok t l'"
  unfolding scan_number_def Let_def
  by (erule scan_number_from_ok) (auto simp: minus_first_def reset_def char_of_eq_iff split: if_splits)

lemma scan_token_ok:
  assumes "scan_token l = (t, l')"
  shows "token_ok t l'"
proof -
  have lit: "token_ok t l'" if "scan_literal x rt l = (t, l')" "rt \<noteq> Value_string" "rt \<noteq> Value_integer" for x rt
    using that scan_literal_loop_ok [of "tl x" rt l t l'] by (auto simp: scan_literal_def token_ok_def)
  have str: "token_ok t l'" if "scan_string l = (t, l')"
    using that scan_string_utf8 [of l l'] scan_string_loop_tokens [of "reset l" t l']
    by (auto simp: token_ok_def scan_string_def)
  have num: "token_ok t l'" if "current l = 0x2D \<or> is_digit_code (current l)" "scan_number l = (t, l')"
    using scan_number_ok that by blast
  have rest: "token_ok t l'" if "t \<noteq> Value_string" "t \<noteq> Value_integer" using that by (simp add: token_ok_def)
  show ?thesis
    using assms lit str num rest unfolding scan_token_def fail_def
    by (elim if_weak_cong [THEN iffD1, elim_format] | auto split: if_splits)+
qed

lemma scan_ok: "scan l = (t, l') \<Longrightarrow> token_ok t l'"
  by (auto simp: scan_def fail_def token_ok_def [of Parse_error] split: prod.splits bool.splits dest: scan_token_ok)

section \<open>The value under construction\<close>

text \<open>
  A container and the containers around it, innermost first, each with the step that leads inwards.
\<close>

type_synonym surroundings = "(json \<times> path_step) list"

fun put_at :: "path_step \<Rightarrow> json \<Rightarrow> json \<Rightarrow> json" where
  "put_at (Elem i) v (J_arr js) = J_arr (js[i := v])"
| "put_at (Member k) v (J_obj es) = J_obj (map_assign k v es)"
| "put_at _ v j = j"

fun has_step :: "path_step \<Rightarrow> json \<Rightarrow> bool" where
  "has_step (Elem i) (J_arr js) = (i < length js)"
| "has_step (Member k) (J_obj es) = (k \<in> fst ` set es)"
| "has_step _ _ = False"

primrec plug :: "surroundings \<Rightarrow> json \<Rightarrow> json" where
  "plug [] t = t"
| "plug (c # ctx) t = plug ctx (put_at (snd c) t (fst c))"

definition path_to :: "surroundings \<Rightarrow> path" where
  "path_to ctx = rev (map snd ctx)"

primrec stack_of :: "surroundings \<Rightarrow> path list" where
  "stack_of [] = [[]]"
| "stack_of (c # ctx) = path_to (c # ctx) # stack_of ctx"

definition context_ok :: "surroundings \<Rightarrow> bool" where
  "context_ok ctx \<longleftrightarrow> (\<forall>c \<in> set ctx. has_step (snd c) (fst c))"

lemma map_of_map_assign: "map_of (map_assign k v es) k = (if k \<in> fst ` set es then Some v else None)"
  by (induction es) (auto simp: map_assign_def)

lemma map_assign_twice: "map_assign k v (map_assign k w es) = map_assign k v es"
  by (induction es) (auto simp: map_assign_def)

lemma json_at_put: "has_step s c \<Longrightarrow> json_at (s # r) (put_at s t c) = json_at r t"
  by (cases "(s, t, c)" rule: put_at.cases) (simp_all add: map_of_map_assign)

lemma json_update_put: "has_step s c \<Longrightarrow> json_update (s # r) f (put_at s t c) = put_at s (json_update r f t) c"
  by (cases "(s, t, c)" rule: put_at.cases) (simp_all add: map_of_map_assign map_assign_twice)

lemma context_ok_simps [simp]:
  "context_ok []" "context_ok (c # ctx) \<longleftrightarrow> has_step (snd c) (fst c) \<and> context_ok ctx"
  by (simp_all add: context_ok_def)

lemma path_to_simps [simp]: "path_to [] = []" "path_to (c # ctx) = path_to ctx @ [snd c]"
  by (simp_all add: path_to_def)

lemma json_at_plug: "context_ok ctx \<Longrightarrow> json_at (path_to ctx @ r) (plug ctx t) = json_at r t"
  by (induction ctx arbitrary: t r) (simp_all add: json_at_put)

lemma json_update_plug: "context_ok ctx \<Longrightarrow> json_update (path_to ctx @ r) f (plug ctx t) = plug ctx (json_update r f t)"
  by (induction ctx arbitrary: t r) (simp_all add: json_update_put)

lemma stack_of_Cons: "\<exists>rs. stack_of ctx = path_to ctx # rs"
  by (cases ctx) simp_all

definition is_arr :: "json \<Rightarrow> bool" where "is_arr j = (case j of J_arr _ \<Rightarrow> True | _ \<Rightarrow> False)"
definition is_obj :: "json \<Rightarrow> bool" where "is_obj j = (case j of J_obj _ \<Rightarrow> True | _ \<Rightarrow> False)"

text \<open>The parser builds the container \<open>t\<close> within \<open>ctx\<close>.\<close>

definition inside :: "surroundings \<Rightarrow> json \<Rightarrow> parser \<Rightarrow> bool" where
  "inside ctx t p \<longleftrightarrow> root p = plug ctx t \<and> ref_stack p = stack_of ctx \<and> context_ok ctx"

lemma handle_value_root: "ref_stack p = [] \<Longrightarrow> handle_value v p = (Inr [], p\<lparr>root := v\<rparr>)"
  by (simp add: handle_value_def)

lemma inside_at:
  assumes "inside ctx t p"
  shows "json_at (path_to ctx) (root p) = Some t" "json_update (path_to ctx) f (root p) = plug ctx (f t)"
    "\<exists>rs. ref_stack p = path_to ctx # rs"
  using assms json_at_plug [of ctx "[]" t] json_update_plug [of ctx "[]" f t] stack_of_Cons [of ctx]
  by (auto simp: inside_def)

lemma handle_value_arr:
  "inside ctx (J_arr js) p \<Longrightarrow>
   handle_value v p = (Inr (path_to ctx @ [Elem (length js)]), p\<lparr>root := plug ctx (J_arr (js @ [v]))\<rparr>)"
  using inside_at [of ctx "J_arr js" p] by (auto simp: handle_value_def)

lemma handle_value_obj:
  assumes "inside ctx (J_obj es) p" "object_element p = Some (path_to ctx @ [Member k])" "k \<in> fst ` set es"
  shows "handle_value v p = (Inr (path_to ctx @ [Member k]), p\<lparr>root := plug ctx (J_obj (map_assign k v es))\<rparr>)"
proof -
  obtain w where "map_of es k = Some w" using assms(3) by (metis domIff dom_map_of_conv_image_fst option.exhaust)
  then have "json_update (path_to ctx @ [Member k]) (\<lambda>_. v) (root p) = plug ctx (J_obj (map_assign k v es))"
    using json_update_plug [of ctx "[Member k]" "\<lambda>_. v" "J_obj es"] assms(1) by (simp add: inside_def)
  then show ?thesis using inside_at [OF assms(1)] assms(2) by (auto simp: handle_value_def)
qed

lemma sax_key_eq:
  "inside ctx (J_obj es) p \<Longrightarrow>
   sax_key k p = (Inr (), p\<lparr>root := plug ctx (J_obj (map_emplace k J_null es)), object_element := Some (path_to ctx @ [Member k])\<rparr>)"
  using inside_at [of ctx "J_obj es" p] by (auto simp: sax_key_def)

lemma end_eq:
  "inside ctx (J_arr js) p \<Longrightarrow> end_array p = (Inr (), p\<lparr>ref_stack := tl (stack_of ctx)\<rparr>)"
  "inside ctx (J_obj es) p \<Longrightarrow> end_object p = (Inr (), p\<lparr>ref_stack := tl (stack_of ctx)\<rparr>)"
proof -
  show "end_array p = (Inr (), p\<lparr>ref_stack := tl (stack_of ctx)\<rparr>)" if "inside ctx (J_arr js) p"
    using that inside_at [OF that] by (auto simp: end_array_def inside_def)
  show "end_object p = (Inr (), p\<lparr>ref_stack := tl (stack_of ctx)\<rparr>)" if "inside ctx (J_obj es) p"
    using that inside_at [OF that] by (auto simp: end_object_def inside_def)
qed

section \<open>Types are kept\<close>

definition typed :: "surroundings \<Rightarrow> json \<Rightarrow> bool" where
  "typed ctx t \<longleftrightarrow> (\<forall>c \<in> set ctx. parsed (fst c)) \<and> parsed t \<and> (is_arr t \<or> is_obj t)"

lemma parsed_assign: "parsed (J_obj es) \<Longrightarrow> parsed v \<Longrightarrow> parsed (J_obj (map_assign k v es))"
  by (auto simp: keys_ok_assign) (auto simp: map_assign_def split: if_splits)

lemma parsed_emplace: "parsed (J_obj es) \<Longrightarrow> utf8_ok k \<Longrightarrow> parsed (J_obj (map_emplace k J_null es))"
  by (auto simp: keys_ok_emplace set_map_emplace split: if_splits)

lemma parsed_put: "parsed c \<Longrightarrow> parsed v \<Longrightarrow> parsed (put_at s v c)"
proof (cases "(s, v, c)" rule: put_at.cases)
  case (1 i v' js)
  then show "parsed c \<Longrightarrow> parsed v \<Longrightarrow> parsed (put_at s v c)" using set_update_subset_insert [of js i v] by auto
next
  case (2 k v' es)
  then show "parsed c \<Longrightarrow> parsed v \<Longrightarrow> parsed (put_at s v c)" using parsed_assign by simp
qed simp_all

lemma is_arr_put [simp]: "is_arr (put_at s v c) = is_arr c" "is_obj (put_at s v c) = is_obj c"
  by (cases "(s, v, c)" rule: put_at.cases; simp add: is_arr_def is_obj_def)+

lemma container_has_step: "has_step s c \<Longrightarrow> is_arr c \<or> is_obj c"
  by (cases "(s, c)" rule: has_step.cases) (simp_all add: is_arr_def is_obj_def)

text \<open>A value is expected next; a value has just been completed.\<close>

definition building :: "parser \<Rightarrow> bool" where
  "building p \<longleftrightarrow> (\<exists>ctx t. inside ctx t p \<and> typed ctx t \<and> states p = map is_arr (t # map fst ctx))"

definition expects :: "parser \<Rightarrow> bool" where
  "expects p \<longleftrightarrow>
     states p = [] \<and> ref_stack p = [] \<or>
     (\<exists>ctx t. inside ctx t p \<and> typed ctx t \<and> states p = map is_arr (t # map fst ctx) \<and>
        (is_arr t \<or> (\<exists>k. object_element p = Some (path_to ctx @ [Member k]) \<and> has_step (Member k) t)))"

definition has_value :: "parser \<Rightarrow> bool" where
  "has_value p \<longleftrightarrow> states p = [] \<and> ref_stack p = [] \<and> parsed (root p) \<or> building p"

text \<open>A container has been opened and is not yet counted in \<open>states\<close>.\<close>

definition opened :: "surroundings \<Rightarrow> json \<Rightarrow> parser \<Rightarrow> bool" where
  "opened ctx t p \<longleftrightarrow> inside ctx t p \<and> typed ctx t \<and> states p = map is_arr (map fst ctx)"

lemma handle_value_typed:
  assumes "expects p" "parsed v"
  obtains path r where "handle_value v p = (Inr path, p\<lparr>root := r\<rparr>)" "has_value (p\<lparr>root := r\<rparr>)"
    "is_arr v \<or> is_obj v \<Longrightarrow> \<exists>ctx. opened ctx v (p\<lparr>root := r, ref_stack := path # ref_stack p\<rparr>)"
proof -
  from assms(1) consider "states p = []" "ref_stack p = []"
    | ctx js where "inside ctx (J_arr js) p" "typed ctx (J_arr js)" "states p = map is_arr (J_arr js # map fst ctx)"
    | ctx es k where "inside ctx (J_obj es) p" "typed ctx (J_obj es)" "states p = map is_arr (J_obj es # map fst ctx)"
        "object_element p = Some (path_to ctx @ [Member k])" "k \<in> fst ` set es"
    unfolding expects_def by (auto simp: typed_def is_arr_def is_obj_def split: json.splits)
  then show ?thesis
  proof cases
    case 1
    have "opened [] v (p\<lparr>root := v, ref_stack := [[]]\<rparr>)" if "is_arr v \<or> is_obj v"
      using that 1 assms(2) by (simp add: opened_def inside_def typed_def)
    with 1 assms(2) show ?thesis
      by (intro that [of "[]" v]) (auto simp: handle_value_root has_value_def)
  next
    case 2
    let ?t = "J_arr (js @ [v])"
    have t: "typed ctx ?t" using 2(2) assms(2) by (auto simp: typed_def is_arr_def)
    have "has_value (p\<lparr>root := plug ctx ?t\<rparr>)"
      using 2 t by (auto simp: has_value_def building_def inside_def is_arr_def intro!: exI [of _ ctx] exI [of _ ?t])
    moreover have "opened ((?t, Elem (length js)) # ctx) v (p\<lparr>root := plug ctx ?t, ref_stack := (path_to ctx @ [Elem (length js)]) # ref_stack p\<rparr>)"
      if "is_arr v \<or> is_obj v"
      using that 2 t assms(2) by (auto simp: opened_def inside_def typed_def is_arr_def)
    ultimately show ?thesis using handle_value_arr [OF 2(1)] by (intro that) auto
  next
    case 3
    let ?t = "J_obj (map_assign k v es)"
    have t: "typed ctx ?t" using 3(2) assms(2) parsed_assign [of es v k] by (auto simp: typed_def is_obj_def)
    have k: "k \<in> fst ` set (map_assign k v es)" using 3(5) by (metis fst_map_assign list.set_map)
    have "has_value (p\<lparr>root := plug ctx ?t\<rparr>)"
      using 3 t by (auto simp: has_value_def building_def inside_def is_arr_def intro!: exI [of _ ctx] exI [of _ ?t])
    moreover have "opened ((?t, Member k) # ctx) v (p\<lparr>root := plug ctx ?t, ref_stack := (path_to ctx @ [Member k]) # ref_stack p\<rparr>)"
      if "is_arr v \<or> is_obj v"
    proof -
      have "map_assign k v (map_assign k v es) = map_assign k v es" by (rule map_assign_twice)
      with that 3 t k assms(2) show ?thesis by (auto simp: opened_def inside_def typed_def is_arr_def)
    qed
    ultimately show ?thesis using handle_value_obj [OF 3(1,4,5)] by (intro that) auto
  qed
qed

text \<open>Closing a container makes it a value of the one around it.\<close>

lemma close_typed:
  assumes "inside ctx t p" "typed ctx t" "root q = root p" "ref_stack q = tl (stack_of ctx)" "states q = map is_arr (map fst ctx)"
  shows "has_value q"
proof (cases ctx)
  case Nil
  with assms show ?thesis by (auto simp: has_value_def inside_def typed_def)
next
  case (Cons c ctx')
  let ?t = "put_at (snd c) t (fst c)"
  have "typed ctx' ?t"
    using assms(1,2) Cons container_has_step [of "snd c" "fst c"] by (auto simp: typed_def inside_def intro: parsed_put)
  with assms Cons have "building q"
    by (auto simp: building_def inside_def intro!: exI [of _ ctx'] exI [of _ ?t])
  then show ?thesis by (simp add: has_value_def)
qed

section \<open>The parser\<close>

text \<open>\<open>safely a m p Q\<close>: \<open>m\<close> ends with \<open>Q\<close>, or with an exception that has a text, when exceptions are allowed.\<close>

definition safely :: "bool \<Rightarrow> (parser, 'a) sm \<Rightarrow> parser \<Rightarrow> ('a \<Rightarrow> parser \<Rightarrow> bool) \<Rightarrow> bool" where
  "safely a m p Q \<longleftrightarrow> (case m p of (Inl e, q) \<Rightarrow> a \<and> (\<exists>s. e = Thrown s) | (Inr x, q) \<Rightarrow> Q x q)"

lemma safely_value: "m p = (Inr x, q) \<Longrightarrow> Q x q \<Longrightarrow> safely a m p Q"
  by (simp add: safely_def)

lemma safely_eq: "m p = m' p' \<Longrightarrow> safely a m' p' Q \<Longrightarrow> safely a m p Q"
  by (simp add: safely_def)

lemma safely_bind_value: "m p = (Inr x, q) \<Longrightarrow> safely a (f x) q Q \<Longrightarrow> safely a (sbind m f) p Q"
  by (simp add: safely_def)

lemma safely_if: "safely a m p Q \<Longrightarrow> safely a m' p Q \<Longrightarrow> safely a (if c then m else m') p Q"
  by simp

definition calm :: "bool \<Rightarrow> parser \<Rightarrow> bool" where
  "calm a p \<longleftrightarrow> allow_exceptions p = a \<and> \<not> errored p \<and> token_ok (last_token p) (m_lexer p)"

definition loop_inv :: "bool \<Rightarrow> parser \<Rightarrow> bool" where
  "loop_inv a p \<longleftrightarrow> calm a p \<and> (if skip_to_state_evaluation p then has_value p else expects p)"

definition step_post :: "bool \<Rightarrow> outcome \<Rightarrow> parser \<Rightarrow> bool" where
  "step_post a r p =
     (case r of
        Value_done \<Rightarrow> calm a p \<and> has_value p \<and> \<not> skip_to_state_evaluation p
      | Next_value \<Rightarrow> loop_inv a p
      | Returned b \<Rightarrow> allow_exceptions p = a \<and> (if b then \<not> errored p \<and> parsed (root p) else \<not> a \<and> errored p))"

lemma safely_unexpected:
  "allow_exceptions p = a \<Longrightarrow> safely a (unexpected t c) p (step_post a)"
  "allow_exceptions p = a \<Longrightarrow> safely a (sax_parse_error (error_101 m p)) p (step_post a)"
  "allow_exceptions p = a \<Longrightarrow> safely a (sax_parse_error (json_out_of_range n m)) p (step_post a)"
  by (auto simp: safely_def unexpected_def sax_parse_error_def step_post_def error_101_def parse_error_def json_out_of_range_def)

text \<open>A token changes nothing but the lexer and itself.\<close>

lemma safely_token:
  assumes "calm a p" "\<And>l t. calm a (p\<lparr>m_lexer := l, last_token := t\<rparr>) \<Longrightarrow> safely a (f t) (p\<lparr>m_lexer := l, last_token := t\<rparr>) Q"
  shows "safely a (sbind get_token f) p Q"
proof -
  obtain t l where s: "scan (m_lexer p) = (t, l)" by fastforce
  then have "calm a (p\<lparr>m_lexer := l, last_token := t\<rparr>)"
    using assms(1) scan_ok by (simp add: calm_def)
  from assms(2) [OF this] s show ?thesis by (intro safely_bind_value) (auto simp: get_token_def)
qed

lemma dom_updates [simp]:
  "expects (p\<lparr>m_lexer := l, last_token := t\<rparr>) = expects p" "has_value (p\<lparr>m_lexer := l, last_token := t\<rparr>) = has_value p"
  "inside ctx j (p\<lparr>m_lexer := l, last_token := t\<rparr>) = inside ctx j p" "building (p\<lparr>m_lexer := l, last_token := t\<rparr>) = building p"
  "opened ctx j (p\<lparr>m_lexer := l, last_token := t\<rparr>) = opened ctx j p"
  "expects (p\<lparr>skip_to_state_evaluation := b\<rparr>) = expects p" "has_value (p\<lparr>skip_to_state_evaluation := b\<rparr>) = has_value p"
  "inside ctx j (p\<lparr>states := st\<rparr>) = inside ctx j p"
  "calm a (p\<lparr>states := st\<rparr>) = calm a p" "calm a (p\<lparr>skip_to_state_evaluation := b\<rparr>) = calm a p"
  "calm a (p\<lparr>root := r\<rparr>) = calm a p" "calm a (p\<lparr>ref_stack := rs\<rparr>) = calm a p" "calm a (p\<lparr>object_element := e\<rparr>) = calm a p"
  by (simp_all add: expects_def has_value_def building_def inside_def opened_def calm_def)

lemma calm_ok: "calm a p \<Longrightarrow> last_token p = Value_string \<Longrightarrow> utf8_ok (token_buffer (m_lexer p))"
  "calm a p \<Longrightarrow> last_token p = Value_integer \<Longrightarrow> sint (value_integer (m_lexer p)) \<le> 0"
  "calm a p \<Longrightarrow> allow_exceptions p = a"
  by (auto simp: calm_def token_ok_def)

lemma safely_sax_value:
  assumes "calm a p" "expects p" "parsed v" "\<not> skip_to_state_evaluation p"
  shows "safely a (sthen (sax_value v) (sret Value_done)) p (step_post a)"
proof -
  obtain path r where h: "handle_value v p = (Inr path, p\<lparr>root := r\<rparr>)" "has_value (p\<lparr>root := r\<rparr>)"
    using handle_value_typed [OF assms(2,3)] by metis
  then have "sthen (sax_value v) (sret Value_done) p = (Inr Value_done, p\<lparr>root := r\<rparr>)"
    by (simp add: sax_value_def sbind_def)
  then show ?thesis by (rule safely_value) (use assms h in \<open>simp add: step_post_def\<close>)
qed

lemma start_opened:
  assumes "calm a p" "expects p" "parsed v" "is_arr v \<or> is_obj v"
  obtains ctx q where "sax_start v p = (Inr (), q)" "opened ctx v q" "calm a q"
    "skip_to_state_evaluation q = skip_to_state_evaluation p"
proof -
  obtain path r where h: "handle_value v p = (Inr path, p\<lparr>root := r\<rparr>)"
      "\<exists>ctx. opened ctx v (p\<lparr>root := r, ref_stack := path # ref_stack p\<rparr>)"
    using handle_value_typed [OF assms(2,3)] assms(4) by metis
  then obtain ctx where "opened ctx v (p\<lparr>root := r, ref_stack := path # ref_stack p\<rparr>)" by blast
  with h(1) assms(1) show ?thesis
    by (intro that [of "p\<lparr>root := r, ref_stack := path # ref_stack p\<rparr>" ctx]) (simp_all add: sax_start_def sbind_def)
qed

text \<open>The end of a container, right after its start or after a value.\<close>

lemma safely_end:
  assumes "calm a p" "opened ctx t p" "\<not> skip_to_state_evaluation p"
  shows "is_arr t \<Longrightarrow> safely a (sthen end_array (sret Value_done)) p (step_post a)"
    "is_obj t \<Longrightarrow> safely a (sthen end_object (sret Value_done)) p (step_post a)"
proof -
  let ?q = "p\<lparr>ref_stack := tl (stack_of ctx)\<rparr>"
  have o: "inside ctx t p" "typed ctx t" "states p = map is_arr (map fst ctx)" using assms(2) by (simp_all add: opened_def)
  then have q: "step_post a Value_done ?q"
    using close_typed [OF o(1,2), of ?q] assms by (simp add: step_post_def)
  show "is_arr t \<Longrightarrow> safely a (sthen end_array (sret Value_done)) p (step_post a)"
    using end_eq(1) [of ctx _ p] o(1) q by (cases t) (simp_all add: safely_def sbind_def is_arr_def)
  show "is_obj t \<Longrightarrow> safely a (sthen end_object (sret Value_done)) p (step_post a)"
    using end_eq(2) [of ctx _ p] o(1) q by (cases t) (simp_all add: safely_def sbind_def is_obj_def)
qed

text \<open>A key: \<open>rest\<close> is run with the key's value expected.\<close>

lemma safely_key:
  assumes "calm a p" "inside ctx (J_obj es) p" "typed ctx (J_obj es)"
    and rest: "\<And>q t k. calm a q \<Longrightarrow> inside ctx t q \<Longrightarrow> typed ctx t \<Longrightarrow> is_obj t \<Longrightarrow> states q = states p \<Longrightarrow>
      skip_to_state_evaluation q = skip_to_state_evaluation p \<Longrightarrow>
      object_element q = Some (path_to ctx @ [Member k]) \<Longrightarrow> has_step (Member k) t \<Longrightarrow> safely a rest q (step_post a)"
  shows "safely a (parse_key rest) p (step_post a)"
proof (cases "last_token p = Value_string")
  case False
  then have "parse_key rest p = unexpected Value_string ''object key'' p" by (simp add: parse_key_def)
  then show ?thesis by (rule safely_eq) (use assms(1) in \<open>simp add: safely_unexpected calm_def\<close>)
next
  case True
  let ?k = "token_buffer (m_lexer p)" and ?t = "J_obj (map_emplace (token_buffer (m_lexer p)) J_null es)"
  let ?p = "p\<lparr>root := plug ctx ?t, object_element := Some (path_to ctx @ [Member ?k])\<rparr>"
  have "utf8_ok ?k" using calm_ok(1) [OF assms(1) True] .
  then have t: "typed ctx ?t" using assms(3) parsed_emplace [of es ?k] by (simp add: typed_def is_obj_def)
  have i: "inside ctx ?t ?p" using assms(2) by (simp add: inside_def)
  have k: "has_step (Member ?k) ?t" by (auto simp: set_map_emplace)
  have "safely a (sbind get_token (\<lambda>t. if t \<noteq> Name_separator then unexpected Name_separator ''object separator'' else rest)) ?p (step_post a)"
  proof (rule safely_token)
    show "calm a ?p" using assms(1) by simp
    fix l t'
    let ?q = "?p\<lparr>m_lexer := l, last_token := t'\<rparr>"
    assume c: "calm a ?q"
    have "safely a rest ?q (step_post a)"
      by (rule rest [OF c, of ?t ?k]) (use i t k in \<open>simp_all add: is_obj_def\<close>)
    with c show "safely a (if t' \<noteq> Name_separator then unexpected Name_separator ''object separator'' else rest) ?q (step_post a)"
      by (cases "t' = Name_separator") (simp_all add: safely_unexpected calm_def)
  qed
  moreover have "parse_key rest p =
      sbind get_token (\<lambda>t. if t \<noteq> Name_separator then unexpected Name_separator ''object separator'' else rest) ?p"
    using True sax_key_eq [OF assms(2), of ?k] by (simp add: parse_key_def)
  ultimately show ?thesis by (simp add: safely_def)
qed

lemma expects_object:
  "inside ctx t q \<Longrightarrow> typed ctx t \<Longrightarrow> is_obj t \<Longrightarrow> states q = map is_arr (t # map fst ctx) \<Longrightarrow>
   object_element q = Some (path_to ctx @ [Member k]) \<Longrightarrow> has_step (Member k) t \<Longrightarrow> expects q"
  by (auto simp: expects_def)

lemma safely_object:
  assumes "calm a p" "expects p" "\<not> skip_to_state_evaluation p"
  shows "safely a parse_object p (step_post a)"
proof -
  let ?push = "sthen (smodify (\<lambda>p. p\<lparr>states := False # states p\<rparr>)) (sthen get_token (sret Next_value))"
  obtain ctx q where q: "sax_start (J_obj []) p = (Inr (), q)" "opened ctx (J_obj []) q" "calm a q" "\<not> skip_to_state_evaluation q"
    by (rule start_opened [OF assms(1,2), of "J_obj []"]) (use assms(3) in \<open>auto simp: is_obj_def\<close>)
  have o: "inside ctx (J_obj []) q" "typed ctx (J_obj [])" "states q = map is_arr (map fst ctx)"
    using q(2) by (simp_all add: opened_def)
  have push: "safely a ?push q' (step_post a)"
    if "calm a q'" "inside ctx t q'" "typed ctx t" "is_obj t" "states q' = states q" "\<not> skip_to_state_evaluation q'"
      "object_element q' = Some (path_to ctx @ [Member k])" "has_step (Member k) t" for q' t k
  proof -
    let ?q = "q'\<lparr>states := False # states q'\<rparr>"
    have e: "expects ?q"
      by (rule expects_object [of ctx t _ k]) (use that o in \<open>auto simp: is_arr_def is_obj_def split: json.splits\<close>)
    have "safely a (sbind get_token (\<lambda>_. sret Next_value)) ?q (step_post a)"
      by (rule safely_token) (use that e in \<open>simp_all add: safely_def step_post_def loop_inv_def\<close>)
    then show ?thesis by (simp add: safely_def sbind_def)
  qed
  have "safely a (sbind get_token (\<lambda>t. if t = End_object then sthen end_object (sret Value_done) else parse_key ?push)) q (step_post a)"
  proof (rule safely_token [OF q(3)])
    fix l t
    let ?q = "q\<lparr>m_lexer := l, last_token := t\<rparr>"
    assume c: "calm a ?q"
    have "safely a (sthen end_object (sret Value_done)) ?q (step_post a)"
      using safely_end(2) [OF c, of ctx "J_obj []"] q by (simp add: is_obj_def)
    moreover have "safely a (parse_key ?push) ?q (step_post a)"
      by (rule safely_key [OF c, of ctx "[]"], use o in simp, use o in simp, rule push, use q in auto)
    ultimately show "safely a (if t = End_object then sthen end_object (sret Value_done) else parse_key ?push) ?q (step_post a)"
      by (rule safely_if)
  qed
  with q(1) show ?thesis by (simp add: parse_object_def start_object_def safely_def)
qed

lemma safely_array:
  assumes "calm a p" "expects p" "\<not> skip_to_state_evaluation p"
  shows "safely a parse_array p (step_post a)"
proof -
  let ?push = "sthen (smodify (\<lambda>p. p\<lparr>states := True # states p\<rparr>)) (sret Next_value)"
  obtain ctx q where q: "sax_start (J_arr []) p = (Inr (), q)" "opened ctx (J_arr []) q" "calm a q" "\<not> skip_to_state_evaluation q"
    by (rule start_opened [OF assms(1,2), of "J_arr []"]) (use assms(3) in \<open>auto simp: is_arr_def\<close>)
  have "safely a (sbind get_token (\<lambda>t. if t = End_array then sthen end_array (sret Value_done) else ?push)) q (step_post a)"
  proof (rule safely_token [OF q(3)])
    fix l t
    let ?q = "q\<lparr>m_lexer := l, last_token := t\<rparr>"
    assume c: "calm a ?q"
    have "expects (?q\<lparr>states := True # states q\<rparr>)"
      using q(2) unfolding expects_def opened_def
      by (intro disjI2 exI [of _ ctx] exI [of _ "J_arr []"]) (simp add: is_arr_def)
    with c q(4) have "safely a ?push ?q (step_post a)"
      by (simp add: safely_def sbind_def step_post_def loop_inv_def)
    moreover have "safely a (sthen end_array (sret Value_done)) ?q (step_post a)"
      using safely_end(1) [OF c, of ctx "J_arr []"] q by (simp add: is_arr_def)
    ultimately show "safely a (if t = End_array then sthen end_array (sret Value_done) else ?push) ?q (step_post a)"
      by (intro safely_if)
  qed
  with q(1) show ?thesis by (simp add: parse_array_def start_array_def safely_def)
qed

lemma safely_parse_value:
  assumes "calm a p" "expects p" "\<not> skip_to_state_evaluation p"
  shows "safely a parse_value p (step_post a)"
proof -
  have v: "safely a (sthen (sax_value v) (sret Value_done)) p (step_post a)" if "parsed v" for v
    using safely_sax_value assms that by blast
  have u: "allow_exceptions p = a" using assms(1) by (simp add: calm_def)
  show ?thesis
  proof (cases "last_token p")
    case Begin_object
    then show ?thesis by (intro safely_eq [OF _ safely_object [OF assms]]) (simp add: parse_value_def)
  next
    case Begin_array
    then show ?thesis by (intro safely_eq [OF _ safely_array [OF assms]]) (simp add: parse_value_def)
  next
    case Value_float
    let ?x = "value_float (m_lexer p)"
    have "parse_value p = (if \<not> isfinite ?x then
        sax_parse_error (json_out_of_range 406 (''number overflow parsing '' @ [CHR 0x27] @ get_token_string (m_lexer p) @ [CHR 0x27])) p
      else sthen (sax_value (J_float ?x)) (sret Value_done) p)"
      using Value_float by (simp add: parse_value_def parse_float_def Let_def)
    then show ?thesis using v [of "J_float ?x"] safely_unexpected(3) [OF u] by (simp add: safely_def)
  next
    case Value_string
    then show ?thesis
      by (intro safely_eq [OF _ v [of "J_str (token_buffer (m_lexer p))"]])
        (use calm_ok(1) [OF assms(1)] in \<open>simp_all add: parse_value_def\<close>)
  next
    case Value_integer
    then show ?thesis
      by (intro safely_eq [OF _ v [of "J_int (value_integer (m_lexer p))"]])
        (use calm_ok(2) [OF assms(1)] in \<open>simp_all add: parse_value_def\<close>)
  next
    case End_of_input
    then show ?thesis
      using safely_unexpected(1,2) [OF u] by (simp add: safely_def parse_value_def parse_end_of_input_def)
  qed (use v safely_unexpected(1) [OF u] in \<open>simp_all add: safely_def parse_value_def\<close>)
qed

lemma building_top:
  assumes "building p" "states p = b # bs"
  obtains ctx t where "inside ctx t p" "typed ctx t" "bs = map is_arr (map fst ctx)" "b = is_arr t" "b \<noteq> is_obj t"
  using assms by (auto simp: building_def typed_def is_arr_def is_obj_def split: json.splits)

lemma has_value_top: "has_value p \<Longrightarrow> states p \<noteq> [] \<Longrightarrow> building p"
  by (auto simp: has_value_def)

text \<open>The end of the innermost container.\<close>

lemma safely_close:
  assumes "calm a p" "inside ctx t p" "typed ctx t" "states p = is_arr t # map is_arr (map fst ctx)"
  shows "is_arr t \<Longrightarrow> safely a close_array p (step_post a)" "is_obj t \<Longrightarrow> safely a close_object p (step_post a)"
proof -
  let ?q = "p\<lparr>ref_stack := tl (stack_of ctx), states := tl (states p), skip_to_state_evaluation := True\<rparr>"
  have "has_value ?q"
    by (rule close_typed [OF assms(2,3)]) (use assms(4) in simp_all)
  then have q: "step_post a Next_value ?q" using assms(1) by (simp add: step_post_def loop_inv_def calm_def)
  have u: "allow_exceptions p = a" using assms(1) by (simp add: calm_def)
  show "safely a close_array p (step_post a)" if "is_arr t"
  proof (cases "last_token p = End_array")
    case True
    then have "close_array p = (Inr Next_value, ?q)"
      using end_eq(1) [of ctx _ p] assms(2) that by (cases t) (simp_all add: close_array_def is_arr_def)
    then show ?thesis using q by (rule safely_value)
  next
    case False
    then show ?thesis by (intro safely_eq [OF _ safely_unexpected(1) [OF u]]) (simp add: close_array_def)
  qed
  show "safely a close_object p (step_post a)" if "is_obj t"
  proof (cases "last_token p = End_object")
    case True
    then have "close_object p = (Inr Next_value, ?q)"
      using end_eq(2) [of ctx _ p] assms(2) that by (cases t) (simp_all add: close_object_def is_obj_def)
    then show ?thesis using q by (rule safely_value)
  next
    case False
    then show ?thesis by (intro safely_eq [OF _ safely_unexpected(1) [OF u]]) (simp add: close_object_def)
  qed
qed

lemma safely_continue_array:
  assumes "calm a p" "inside ctx t p" "typed ctx t" "states p = True # map is_arr (map fst ctx)" "is_arr t"
    "\<not> skip_to_state_evaluation p"
  shows "safely a continue_array p (step_post a)"
proof -
  have e: "expects p" using assms by (auto simp: expects_def)
  have close: "safely a close_array q (step_post a)"
    if "calm a q" "inside ctx t q" "states q = states p" for q
    using safely_close(1) [OF that(1,2) assms(3)] that(3) assms(4,5) by simp
  show ?thesis
  proof (rule safely_eq [OF continue_array_def], rule safely_token [OF assms(1)])
    fix l u
    let ?q = "p\<lparr>m_lexer := l, last_token := u\<rparr>"
    assume c: "calm a ?q"
    have "safely a (sbind get_token (\<lambda>t'. if \<not> (ignore_trailing_commas p \<and> t' = End_array) then sret Next_value else close_array)) ?q (step_post a)"
    proof (rule safely_token [OF c], rule safely_if)
      fix l2 u2
      let ?q2 = "?q\<lparr>m_lexer := l2, last_token := u2\<rparr>"
      assume c2: "calm a ?q2"
      show "safely a (sret Next_value) ?q2 (step_post a)"
        using c2 e assms(6) by (simp add: safely_def step_post_def loop_inv_def)
      show "safely a close_array ?q2 (step_post a)" by (rule close) (use c2 assms in simp_all)
    qed
    moreover have "safely a close_array ?q (step_post a)" by (rule close) (use c assms in simp_all)
    ultimately show "safely a (if u = Value_separator then
         sbind get_token (\<lambda>t'. if \<not> (ignore_trailing_commas p \<and> t' = End_array) then sret Next_value else close_array)
       else close_array) ?q (step_post a)" by (rule safely_if)
  qed
qed

lemma safely_continue_object:
  assumes "calm a p" "inside ctx t p" "typed ctx t" "states p = False # map is_arr (map fst ctx)" "is_obj t"
    "\<not> skip_to_state_evaluation p"
  shows "safely a continue_object p (step_post a)"
proof -
  obtain es where t: "t = J_obj es" using assms(5) by (cases t) (simp_all add: is_obj_def)
  have na: "\<not> is_arr t" by (simp add: t is_arr_def)
  have close: "safely a close_object q (step_post a)"
    if "calm a q" "inside ctx t q" "states q = states p" for q
    using safely_close(2) [OF that(1,2) assms(3)] that(3) assms(4,5) na by simp
  have rest: "safely a (sthen get_token (sret Next_value)) q (step_post a)"
    if "calm a q" "inside ctx t' q" "typed ctx t'" "is_obj t'" "states q = states p" "\<not> skip_to_state_evaluation q"
      "object_element q = Some (path_to ctx @ [Member k])" "has_step (Member k) t'" for q t' k
  proof -
    have "expects q"
      by (rule expects_object [of ctx t' q k]) (use that assms(4) in \<open>auto simp: is_arr_def is_obj_def split: json.splits\<close>)
    then show ?thesis unfolding sthen_def
      by (intro safely_token [OF that(1)]) (use that(6) in \<open>simp add: safely_def step_post_def loop_inv_def\<close>)
  qed
  show ?thesis
  proof (rule safely_eq [OF continue_object_def], rule safely_token [OF assms(1)])
    fix l u
    let ?q = "p\<lparr>m_lexer := l, last_token := u\<rparr>"
    assume c: "calm a ?q"
    have "safely a (sbind get_token (\<lambda>t'. if \<not> (ignore_trailing_commas p \<and> t' = End_object)
        then parse_key (sthen get_token (sret Next_value)) else close_object)) ?q (step_post a)"
    proof (rule safely_token [OF c], rule safely_if)
      fix l2 u2
      let ?q2 = "?q\<lparr>m_lexer := l2, last_token := u2\<rparr>"
      assume c2: "calm a ?q2"
      show "safely a (parse_key (sthen get_token (sret Next_value))) ?q2 (step_post a)"
        by (rule safely_key [OF c2, of ctx es], use assms(2) t in simp, use assms(3) t in simp, rule rest, use assms(6) in auto)
      show "safely a close_object ?q2 (step_post a)" by (rule close) (use c2 assms in simp_all)
    qed
    moreover have "safely a close_object ?q (step_post a)" by (rule close) (use c assms in simp_all)
    ultimately show "safely a (if u = Value_separator then
         sbind get_token (\<lambda>t'. if \<not> (ignore_trailing_commas p \<and> t' = End_object)
           then parse_key (sthen get_token (sret Next_value)) else close_object)
       else close_object) ?q (step_post a)" by (rule safely_if)
  qed
qed

lemma safely_evaluate:
  assumes "calm a p" "has_value p" "\<not> skip_to_state_evaluation p"
  shows "safely a evaluate_state p (step_post a)"
proof (cases "states p")
  case Nil
  then have "parsed (root p)" using assms(2) by (auto simp: has_value_def building_def)
  with Nil assms(1) show ?thesis by (simp add: safely_def evaluate_state_def step_post_def calm_def)
next
  case (Cons b bs)
  then have "building p" using has_value_top assms(2) by simp
  then obtain ctx t where i: "inside ctx t p" "typed ctx t" "bs = map is_arr (map fst ctx)" "b = is_arr t" "b \<noteq> is_obj t"
    using Cons by (rule building_top)
  show ?thesis
  proof (cases b)
    case True
    then show ?thesis
      using Cons i assms(1,3) by (intro safely_eq [OF _ safely_continue_array [of a p ctx t]]) (auto simp: evaluate_state_def)
  next
    case False
    then show ?thesis
      using Cons i assms(1,3) by (intro safely_eq [OF _ safely_continue_object [of a p ctx t]]) (auto simp: evaluate_state_def)
  qed
qed

lemma safely_step:
  assumes "loop_inv a p"
  shows "safely a sax_step p (step_post a)"
proof (cases "skip_to_state_evaluation p")
  case True
  with assms have "safely a evaluate_state (p\<lparr>skip_to_state_evaluation := False\<rparr>) (step_post a)"
    by (intro safely_evaluate) (simp_all add: loop_inv_def)
  then show ?thesis by (rule safely_eq [rotated]) (simp add: sax_step_def True)
next
  case False
  with assms have v: "safely a parse_value p (step_post a)" by (intro safely_parse_value) (simp_all add: loop_inv_def)
  have e: "safely a evaluate_state q (step_post a)" if "step_post a Value_done q" for q
    using that by (intro safely_evaluate) (simp_all add: step_post_def)
  obtain r q where r: "parse_value p = (r, q)" by fastforce
  have s: "sax_step p = (case r of Inl x \<Rightarrow> (Inl x, q) | Inr o1 \<Rightarrow> if o1 = Value_done then evaluate_state q else (Inr o1, q))"
    using False r by (simp add: sax_step_def sbind_def split: sum.split)
  show ?thesis
    using v e [of q] r s by (auto simp: safely_def split: sum.splits)
qed

lemma sax_parse_internal_safe:
  assumes "loop_inv a p" "sax_parse_internal p = Some (r, q)"
  shows "case r of Inl e \<Rightarrow> a \<and> (\<exists>s. e = Thrown s) | Inr b \<Rightarrow> step_post a (Returned b) q"
  using assms
proof (induction "effort p" arbitrary: p rule: less_induct)
  case less
  obtain r1 p1 where s: "sax_step p = (r1, p1)" by fastforce
  note st = safely_step [OF less.prems(1)]
  show ?case
  proof (cases r1)
    case (Inl e)
    with s less.prems(2) have "r = Inl e" by (subst (asm) sax_parse_internal.simps) simp
    with st s Inl show ?thesis by (simp add: safely_def)
  next
    case (Inr c)
    have c: "step_post a c p1" using st s Inr by (simp add: safely_def)
    show ?thesis
    proof (cases c)
      case Value_done
      with sax_step_counts_down(2) s Inr show ?thesis by auto
    next
      case Next_value
      then have "sax_parse_internal p1 = Some (r, q)"
        using less.prems(2) s Inr by (subst (asm) sax_parse_internal.simps) simp
      moreover have "loop_inv a p1" using c Next_value by (simp add: step_post_def)
      moreover have "effort p1 < effort p" using sax_step_counts_down(1) [of p c p1] s Inr Next_value by simp
      ultimately show ?thesis using less.hyps by blast
    next
      case (Returned b)
      with s Inr less.prems(2) have "r = Inr b" "q = p1" by (subst (asm) sax_parse_internal.simps, simp)+
      with c Returned show ?thesis by simp
    qed
  qed
qed

lemma new_parser_inv: "loop_inv a (new_parser a comments trailing s)"
  by (auto simp: new_parser_def get_token_def loop_inv_def calm_def expects_def split: prod.splits intro: scan_ok)

lemma parse_with_typed:
  "case parse_with exceptions comments trailing s of
     None \<Rightarrow> False
   | Some (Inl e) \<Rightarrow> exceptions \<and> (\<exists>m. e = Thrown m)
   | Some (Inr j) \<Rightarrow> parsed j \<or> \<not> exceptions \<and> j = J_discarded"
proof -
  let ?p = "new_parser exceptions comments trailing s"
  obtain r q where r: "sax_parse_internal ?p = Some (r, q)" using sax_parse_internal_returns [of ?p] by auto
  note safe = sax_parse_internal_safe [OF new_parser_inv r]
  have "safely exceptions parse_end q (\<lambda>_ q'. (errored q' \<longrightarrow> \<not> exceptions) \<and> (errored q' \<or> root q' = root q))"
    if "allow_exceptions q = exceptions" "errored q \<longrightarrow> \<not> exceptions"
    using that by (auto simp: safely_def parse_end_def sbind_def get_token_def unexpected_def sax_parse_error_def error_101_def
        parse_error_def split: prod.splits)
  moreover have "errored q'" if "errored q" "parse_end q = (x, q')" for x q'
    using that by (auto simp: parse_end_def sbind_def get_token_def unexpected_def sax_parse_error_def split: prod.splits sum.splits if_splits)
  ultimately show ?thesis
    using safe r by (auto simp: parse_with_def step_post_def safely_def split: sum.splits prod.splits if_splits)
qed


end
