(* ===== verification/Json_Dtoa.thy ===== *)
theory Json_Dtoa
  imports Json_Value "HOL-Library.Signed_Division"
begin

text \<open>
  include/thirdParty/nlohmann/json.hpp, the functions of \<open>dtoa_impl\<close> and \<open>to_chars\<close>: the text of a \<open>double\<close>
  by the algorithm Grisu2. The digits that have been generated are a string; the text fits the buffer of 64
  characters. A failing assertion is an abnormal end.
\<close>

unbundle bit_operations_syntax

lemma u64_less: "unat (x :: u64) < 18446744073709551616"
  using unsigned_less [of x, where 'a = nat] by simp

section \<open>Numbers with a binary exponent\<close>

text \<open>The number \<open>df * 2 ^ de\<close>.\<close>

record diyfp =
  df :: u64
  de :: int

definition diyfp_sub :: "diyfp \<Rightarrow> diyfp \<Rightarrow> diyfp cxx" where
  "diyfp_sub x y = bindE (assertE (de x = de y \<and> df x \<ge> df y)) (\<lambda>_. Inr \<lparr>df = df x - df y, de = de x\<rparr>)"

text \<open>The upper 64 bits of the product, rounded, from four products of halves.\<close>

definition diyfp_mul :: "diyfp \<Rightarrow> diyfp \<Rightarrow> diyfp" where
  "diyfp_mul x y =
     (let u_lo = df x AND 0xFFFFFFFF; u_hi = drop_bit 32 (df x);
          v_lo = df y AND 0xFFFFFFFF; v_hi = drop_bit 32 (df y);
          p0 = u_lo * v_lo; p1 = u_lo * v_hi; p2 = u_hi * v_lo; p3 = u_hi * v_hi;
          q = drop_bit 32 p0 + (p1 AND 0xFFFFFFFF) + (p2 AND 0xFFFFFFFF) + push_bit 31 1
      in \<lparr>df = p3 + drop_bit 32 p2 + drop_bit 32 p1 + drop_bit 32 q, de = de x + de y + 64\<rparr>)"

text \<open>The loop of \<open>normalize\<close>; the assertion at its start holds in every turn.\<close>

function normalize :: "diyfp \<Rightarrow> diyfp cxx" where
  "normalize x =
     (if df x = 0 then Inl Assert_Failed
      else if drop_bit 63 (df x) = 0 then normalize \<lparr>df = push_bit 1 (df x), de = de x - 1\<rparr>
      else Inr x)"
  by pat_completeness auto
termination
proof (relation "measure (\<lambda>x. 2 ^ 64 - unat (df x))")
  fix x :: diyfp
  assume "df x \<noteq> 0" and z: "drop_bit 63 (df x) = 0"
  have "unat (drop_bit 63 (df x)) = 0" using z by simp
  then have "drop_bit 63 (unat (df x)) = 0" by (simp only: unat_drop_bit_eq)
  then have "unat (df x) div 2 ^ 63 = 0" by (simp only: drop_bit_eq_div)
  then have lt: "unat (df x) < 2 ^ 63" by (simp add: div_eq_0_iff)
  then have "unat (df x * 2) = unat (df x) * 2" by (simp add: unat_mult_lem [THEN iffD1])
  then have "unat (push_bit 1 (df x)) = unat (df x) * 2" by (simp add: push_bit_eq_mult)
  moreover have "0 < unat (df x)" using \<open>df x \<noteq> 0\<close> by (simp add: unat_gt_0)
  ultimately show "(\<lparr>df = push_bit 1 (df x), de = de x - 1\<rparr>, x) \<in> measure (\<lambda>x. 2 ^ 64 - unat (df x))"
    using lt by simp
qed simp

declare normalize.simps [simp del]

definition normalize_to :: "diyfp \<Rightarrow> int \<Rightarrow> diyfp cxx" where
  "normalize_to x target_exponent =
     (let delta = de x - target_exponent
      in bindE (assertE (delta \<ge> 0)) (\<lambda>_.
         bindE (assertE (drop_bit (nat delta) (push_bit (nat delta) (df x)) = df x)) (\<lambda>_.
         Inr \<lparr>df = push_bit (nat delta) (df x), de = target_exponent\<rparr>)))"

text \<open>The number and its boundaries: w, m- and m+.\<close>

definition compute_boundaries :: "u64 \<Rightarrow> (diyfp \<times> diyfp \<times> diyfp) cxx" where
  "compute_boundaries bits =
     (let E = drop_bit 52 bits;
          F = bits AND (push_bit 52 1 - 1);
          v = (if E = 0 then \<lparr>df = F, de = - 1074\<rparr> else \<lparr>df = F + push_bit 52 1, de = uint E - 1075\<rparr>);
          lower_boundary_is_closer = (F = 0 \<and> E > 1);
          m_plus = \<lparr>df = 2 * df v + 1, de = de v - 1\<rparr>;
          m_minus = (if lower_boundary_is_closer then \<lparr>df = 4 * df v - 1, de = de v - 2\<rparr> else \<lparr>df = 2 * df v - 1, de = de v - 1\<rparr>)
      in bindE (normalize m_plus) (\<lambda>w_plus.
         bindE (normalize_to m_minus (de w_plus)) (\<lambda>w_minus.
         bindE (normalize v) (\<lambda>w. Inr (w, w_minus, w_plus)))))"

section \<open>Powers of ten\<close>

text \<open>The table of the significands, binary exponents and decimal exponents.\<close>

definition cached_powers :: "(u64 \<times> int \<times> int) list" where
  "cached_powers =
     [(0xAB70FE17C79AC6CA, - 1060, - 300), (0xFF77B1FCBEBCDC4F, - 1034, - 292),
      (0xBE5691EF416BD60C, - 1007, - 284), (0x8DD01FAD907FFC3C, - 980, - 276),
      (0xD3515C2831559A83, - 954, - 268), (0x9D71AC8FADA6C9B5, - 927, - 260),
      (0xEA9C227723EE8BCB, - 901, - 252), (0xAECC49914078536D, - 874, - 244),
      (0x823C12795DB6CE57, - 847, - 236), (0xC21094364DFB5637, - 821, - 228),
      (0x9096EA6F3848984F, - 794, - 220), (0xD77485CB25823AC7, - 768, - 212),
      (0xA086CFCD97BF97F4, - 741, - 204), (0xEF340A98172AACE5, - 715, - 196),
      (0xB23867FB2A35B28E, - 688, - 188), (0x84C8D4DFD2C63F3B, - 661, - 180),
      (0xC5DD44271AD3CDBA, - 635, - 172), (0x936B9FCEBB25C996, - 608, - 164),
      (0xDBAC6C247D62A584, - 582, - 156), (0xA3AB66580D5FDAF6, - 555, - 148),
      (0xF3E2F893DEC3F126, - 529, - 140), (0xB5B5ADA8AAFF80B8, - 502, - 132),
      (0x87625F056C7C4A8B, - 475, - 124), (0xC9BCFF6034C13053, - 449, - 116),
      (0x964E858C91BA2655, - 422, - 108), (0xDFF9772470297EBD, - 396, - 100),
      (0xA6DFBD9FB8E5B88F, - 369, - 92), (0xF8A95FCF88747D94, - 343, - 84),
      (0xB94470938FA89BCF, - 316, - 76), (0x8A08F0F8BF0F156B, - 289, - 68),
      (0xCDB02555653131B6, - 263, - 60), (0x993FE2C6D07B7FAC, - 236, - 52),
      (0xE45C10C42A2B3B06, - 210, - 44), (0xAA242499697392D3, - 183, - 36),
      (0xFD87B5F28300CA0E, - 157, - 28), (0xBCE5086492111AEB, - 130, - 20),
      (0x8CBCCC096F5088CC, - 103, - 12), (0xD1B71758E219652C, - 77, - 4),
      (0x9C40000000000000, - 50, 4), (0xE8D4A51000000000, - 24, 12),
      (0xAD78EBC5AC620000, 3, 20), (0x813F3978F8940984, 30, 28),
      (0xC097CE7BC90715B3, 56, 36), (0x8F7E32CE7BEA5C70, 83, 44),
      (0xD5D238A4ABE98068, 109, 52), (0x9F4F2726179A2245, 136, 60),
      (0xED63A231D4C4FB27, 162, 68), (0xB0DE65388CC8ADA8, 189, 76),
      (0x83C7088E1AAB65DB, 216, 84), (0xC45D1DF942711D9A, 242, 92),
      (0x924D692CA61BE758, 269, 100), (0xDA01EE641A708DEA, 295, 108),
      (0xA26DA3999AEF774A, 322, 116), (0xF209787BB47D6B85, 348, 124),
      (0xB454E4A179DD1877, 375, 132), (0x865B86925B9BC5C2, 402, 140),
      (0xC83553C5C8965D3D, 428, 148), (0x952AB45CFA97A0B3, 455, 156),
      (0xDE469FBD99A05FE3, 481, 164), (0xA59BC234DB398C25, 508, 172),
      (0xF6C69A72A3989F5C, 534, 180), (0xB7DCBF5354E9BECE, 561, 188),
      (0x88FCF317F22241E2, 588, 196), (0xCC20CE9BD35C78A5, 614, 204),
      (0x98165AF37B2153DF, 641, 212), (0xE2A0B5DC971F303A, 667, 220),
      (0xA8D9D1535CE3B396, 694, 228), (0xFB9B7CD9A4A7443C, 720, 236),
      (0xBB764C4CA7A44410, 747, 244), (0x8BAB8EEFB6409C1A, 774, 252),
      (0xD01FEF10A657842C, 800, 260), (0x9B10A4E5E9913129, 827, 268),
      (0xE7109BFBA19C0C9D, 853, 276), (0xAC2820D9623BF429, 880, 284),
      (0x80444B5E7AA7CF85, 907, 292), (0xBF21E44003ACDD2D, 933, 300),
      (0x8E679C2F5E44FF8F, 960, 308), (0xD433179D9C8CB841, 986, 316),
      (0x9E19DB92B4E31BA9, 1013, 324)]"

definition get_cached_power_for_binary_exponent :: "int \<Rightarrow> (u64 \<times> int \<times> int) cxx" where
  "get_cached_power_for_binary_exponent e =
     bindE (assertE (- 1500 \<le> e \<and> e \<le> 1500)) (\<lambda>_.
       let f = - 60 - e - 1;
           k = (f * 78913) sdiv 2 ^ 18 + of_bool (f > 0);
           index = (300 + k + 7) sdiv 8
       in bindE (assertE (0 \<le> index \<and> index < 79)) (\<lambda>_.
          case cached_powers ! nat index of
            (cf, ce, ck) \<Rightarrow> bindE (assertE (- 60 \<le> ce + e + 64 \<and> ce + e + 64 \<le> - 32)) (\<lambda>_. Inr (cf, ce, ck))))"

definition find_largest_pow10 :: "u32 \<Rightarrow> nat \<times> u32" where
  "find_largest_pow10 n =
     (if n \<ge> 1000000000 then (10, 1000000000)
      else if n \<ge> 100000000 then (9, 100000000)
      else if n \<ge> 10000000 then (8, 10000000)
      else if n \<ge> 1000000 then (7, 1000000)
      else if n \<ge> 100000 then (6, 100000)
      else if n \<ge> 10000 then (5, 10000)
      else if n \<ge> 1000 then (4, 1000)
      else if n \<ge> 100 then (3, 100)
      else if n \<ge> 10 then (2, 10)
      else (1, 1))"

section \<open>Digits\<close>

text \<open>
  The last digit is counted down as long as that brings the number closer to the exact one. The first line is
  the assertions at the start, which every turn keeps.
\<close>

function grisu2_round :: "string \<Rightarrow> u64 \<Rightarrow> u64 \<Rightarrow> u64 \<Rightarrow> u64 \<Rightarrow> string cxx" where
  "grisu2_round buf dist delta rest ten_k =
     (if buf = [] \<or> \<not> dist \<le> delta \<or> \<not> rest \<le> delta \<or> ten_k = 0 then Inl Assert_Failed
      else if rest < dist \<and> delta - rest \<ge> ten_k \<and> (rest + ten_k < dist \<or> dist - rest > rest + ten_k - dist) then
        (if last buf = CHR ''0'' then Inl Assert_Failed
         else grisu2_round (butlast buf @ [char_of (of_char (last buf) - 1 :: int)]) dist delta (rest + ten_k) ten_k)
      else Inr buf)"
  by pat_completeness auto
termination
proof (relation "measure (\<lambda>(_, dist, _, rest, _). unat dist - unat rest)")
  fix buf :: string and dist delta rest ten_k :: u64
  assume a: "\<not> (buf = [] \<or> \<not> dist \<le> delta \<or> \<not> rest \<le> delta \<or> ten_k = 0)"
    and c: "rest < dist \<and> delta - rest \<ge> ten_k \<and> (rest + ten_k < dist \<or> dist - rest > rest + ten_k - dist)"
  have "unat ten_k \<le> unat (delta - rest)" using c by (simp add: word_le_nat_alt)
  also have "\<dots> = unat delta - unat rest" using a by (simp add: unat_sub)
  finally have "unat ten_k \<le> unat delta - unat rest" .
  moreover have "unat rest \<le> unat delta" using a by (simp add: word_le_nat_alt)
  ultimately have "unat rest + unat ten_k < 18446744073709551616" using u64_less [of delta] by linarith
  then have "unat (rest + ten_k) = unat rest + unat ten_k" by (simp add: unat_add_lem [THEN iffD1])
  moreover have "0 < unat ten_k" using a by (simp add: unat_gt_0)
  moreover have "unat rest < unat dist" using c by (simp add: word_less_nat_alt)
  ultimately show "((butlast buf @ [char_of (of_char (last buf) - 1 :: int)], dist, delta, rest + ten_k, ten_k), buf, dist, delta, rest, ten_k)
      \<in> measure (\<lambda>(_, dist, _, rest, _). unat dist - unat rest)"
    by simp
qed simp

declare grisu2_round.simps [simp del]

text \<open>
  The digits of the integral part \<open>p1\<close>: enough digits (the text and the exponent that is added), or what the
  fractional part goes on with. \<open>s\<close> is \<open>-one.e\<close>.
\<close>

primrec integral_digits :: "nat \<Rightarrow> string \<Rightarrow> nat \<Rightarrow> u64 \<Rightarrow> u64 \<Rightarrow> u64 \<Rightarrow> u32 \<Rightarrow> u32 \<Rightarrow> (string \<times> int + string) cxx" where
  "integral_digits 0 buffer s dist delta p2 p1 pow10 = Inr (Inr buffer)"
| "integral_digits (Suc n) buffer s dist delta p2 p1 pow10 =
     (let d = p1 div pow10; r = p1 mod pow10
      in bindE (assertE (d \<le> 9)) (\<lambda>_.
         let buffer' = buffer @ [digit_char (unat d)];
             rest = push_bit s (ucast r) + p2
         in if rest \<le> delta then
              bindE (grisu2_round buffer' dist delta rest (push_bit s (ucast pow10))) (\<lambda>b. Inr (Inl (b, int n)))
            else integral_digits n buffer' s dist delta p2 r (pow10 div 10)))"

text \<open>The digits of the fractional part \<open>p2\<close>: the text and the exponent that is subtracted.\<close>

definition trailing_zeros_left :: "u64 \<Rightarrow> nat" where
  "trailing_zeros_left x = card {j. j < 64 \<and> \<not> 2 ^ Suc j dvd unat x}"

lemma ten_times_dvd:
  assumes "2 ^ j dvd unat p2" "j < 64"
  shows "2 ^ Suc j dvd unat (p2 * 10 AND (push_bit s 1 - 1) :: u64)"
proof -
  have m: "push_bit s 1 - 1 = (mask s :: u64)" by (simp add: mask_eq_exp_minus_1 push_bit_of_1)
  have r: "unat (p2 * 10 AND (push_bit s 1 - 1)) = unat (p2 * 10) mod 2 ^ s"
    unfolding m take_bit_eq_mask [symmetric] unsigned_take_bit_eq take_bit_eq_mod [where 'a = nat] ..
  obtain c where c: "unat p2 = 2 ^ j * c" using assms(1) by blast
  have t: "2 ^ Suc j dvd unat p2 * 10" unfolding c by (intro dvdI [of _ _ "c * 5"]) simp
  have "(2 :: nat) ^ Suc j dvd 2 ^ 64" using assms(2) by (intro le_imp_power_dvd) simp
  then have d: "2 ^ Suc j dvd unat (p2 * 10)" using t by (simp add: unat_word_ariths dvd_mod)
  show ?thesis
  proof (cases "Suc j \<le> s")
    case True
    then have "(2 :: nat) ^ Suc j dvd 2 ^ s" by (rule le_imp_power_dvd)
    with d show ?thesis unfolding r by (rule dvd_mod)
  next
    case False
    then have "(2 :: nat) ^ s dvd 2 ^ Suc j" by (intro le_imp_power_dvd) simp
    with d have "2 ^ s dvd unat (p2 * 10)" by (rule dvd_trans [rotated])
    then show ?thesis unfolding r by simp
  qed
qed

lemma trailing_zeros_left_less:
  fixes p2 :: u64 and s :: nat
  defines "r \<equiv> p2 * 10 AND (push_bit s 1 - 1)"
  assumes "r \<noteq> 0"
  shows "trailing_zeros_left r < trailing_zeros_left p2"
proof -
  let ?A = "\<lambda>x. {j. j < 64 \<and> \<not> 2 ^ Suc j dvd unat (x :: u64)}"
  have sub: "?A r \<subseteq> ?A p2"
    using ten_times_dvd [of _ p2 s] unfolding r_def by (auto dest: power_le_dvd [of 2 "Suc _" _ _, OF _ le_SucI [OF order_refl]])
  have "p2 \<noteq> 0" using assms(2) by (auto simp: r_def)
  then have "\<not> 2 ^ Suc 63 dvd unat p2"
    using u64_less [of p2] by (auto dest!: dvd_imp_le simp: unat_gt_0)
  then have ex: "\<exists>j. j \<in> ?A p2" by (intro exI [of _ 63]) simp
  define j where "j = (LEAST j. j \<in> ?A p2)"
  have j: "j \<in> ?A p2" unfolding j_def by (rule LeastI_ex [OF ex])
  have "2 ^ j dvd unat p2"
  proof (cases j)
    case (Suc i)
    then have "i \<notin> ?A p2" unfolding j_def using not_less_Least [of i "\<lambda>j. j \<in> ?A p2"] by simp
    with j Suc show ?thesis by auto
  qed simp
  then have "j \<notin> ?A r" using ten_times_dvd [of j p2 s] j by (simp add: r_def)
  with sub j have "?A r \<subset> ?A p2" by blast
  then show ?thesis unfolding trailing_zeros_left_def by (intro psubset_card_mono) simp
qed

function fractional_digits :: "string \<Rightarrow> nat \<Rightarrow> u64 \<Rightarrow> u64 \<Rightarrow> u64 \<Rightarrow> nat \<Rightarrow> (string \<times> nat) cxx" where
  "fractional_digits buffer s dist delta p2 m =
     (if \<not> p2 \<le> 0xFFFFFFFFFFFFFFFF div 10 then Inl Assert_Failed
      else
        let p2' = p2 * 10; d = drop_bit s p2'; r = p2' AND (push_bit s 1 - 1)
        in if \<not> d \<le> 9 then Inl Assert_Failed
           else let buffer' = buffer @ [digit_char (unat d)]; delta' = delta * 10; dist' = dist * 10
                in if r \<le> delta' then bindE (grisu2_round buffer' dist' delta' r (push_bit s 1)) (\<lambda>b. Inr (b, m + 1))
                   else fractional_digits buffer' s dist' delta' r (m + 1))"
  by pat_completeness auto
termination
proof (relation "measure (\<lambda>(_, _, _, _, p2, _). trailing_zeros_left p2)")
  fix buffer :: string and s m :: nat and dist delta p2 p2' d r delta' :: u64 and buffer' :: string and dist' :: u64
  assume "p2' = p2 * 10" "r = p2' AND (push_bit s 1 - 1)" "\<not> r \<le> delta'"
  moreover from this have "r \<noteq> 0" by auto
  ultimately have "trailing_zeros_left r < trailing_zeros_left p2" using trailing_zeros_left_less by simp
  then show "((buffer', s, dist', delta', r, m + 1), buffer, s, dist, delta, p2, m) \<in>
      measure (\<lambda>(_, _, _, _, p2, _). trailing_zeros_left p2)" by simp
qed simp

declare fractional_digits.simps [simp del]

definition grisu2_digit_gen :: "int \<Rightarrow> diyfp \<Rightarrow> diyfp \<Rightarrow> diyfp \<Rightarrow> (string \<times> int) cxx" where
  "grisu2_digit_gen decimal_exponent M_minus w M_plus =
     bindE (assertE (- 60 \<le> de M_plus \<and> de M_plus \<le> - 32)) (\<lambda>_.
     bindE (diyfp_sub M_plus M_minus) (\<lambda>delta.
     bindE (diyfp_sub M_plus w) (\<lambda>dist.
       let s = nat (- de M_plus);
           p1 = ucast (drop_bit s (df M_plus)) :: u32;
           p2 = df M_plus AND (push_bit s 1 - 1)
       in bindE (assertE (p1 > 0)) (\<lambda>_.
          case find_largest_pow10 p1 of
            (k, pow10) \<Rightarrow>
              bindE (integral_digits k [] s (df dist) (df delta) p2 p1 pow10) (\<lambda>x.
              case x of
                Inl (buffer, n) \<Rightarrow> Inr (buffer, decimal_exponent + n)
              | Inr buffer \<Rightarrow>
                  bindE (assertE (p2 > df delta)) (\<lambda>_.
                  bindE (fractional_digits buffer s (df dist) (df delta) p2 0) (\<lambda>(buffer', m).
                  Inr (buffer', decimal_exponent - int m))))))))"

definition grisu2 :: "u64 \<Rightarrow> (string \<times> int) cxx" where
  "grisu2 v =
     bindE (compute_boundaries v) (\<lambda>(w, w_minus, w_plus).
     bindE (assertE (de w_plus = de w_minus \<and> de w_plus = de w)) (\<lambda>_.
     bindE (get_cached_power_for_binary_exponent (de w_plus)) (\<lambda>(cf, ce, ck).
       let c = \<lparr>df = cf, de = ce\<rparr>;
           x = diyfp_mul w c; x_minus = diyfp_mul w_minus c; x_plus = diyfp_mul w_plus c
       in grisu2_digit_gen (- ck) \<lparr>df = df x_minus + 1, de = de x_minus\<rparr> x \<lparr>df = df x_plus - 1, de = de x_plus\<rparr>)))"

section \<open>Text\<close>

definition append_exponent :: "int \<Rightarrow> string cxx" where
  "append_exponent e =
     bindE (assertE (- 1000 < e \<and> e < 1000)) (\<lambda>_.
       let k = nat (abs e)
       in Inr ((if e < 0 then CHR ''-'' else CHR ''+'') #
            (if k < 10 then [CHR ''0'', digit_char k]
             else if k < 100 then [digit_char (k div 10), digit_char (k mod 10)]
             else [digit_char (k div 100), digit_char (k mod 100 div 10), digit_char (k mod 100 mod 10)])))"

definition format_buffer :: "string \<Rightarrow> int \<Rightarrow> int \<Rightarrow> int \<Rightarrow> string cxx" where
  "format_buffer buf decimal_exponent min_exp max_exp =
     (let k = int (length buf); n = k + decimal_exponent
      in if k \<le> n \<and> n \<le> max_exp then Inr (buf @ replicate (nat (n - k)) (CHR ''0'') @ ''.0'')
         else if 0 < n \<and> n \<le> max_exp then Inr (take (nat n) buf @ ''.'' @ drop (nat n) buf)
         else if min_exp < n \<and> n \<le> 0 then Inr (''0.'' @ replicate (nat (- n)) (CHR ''0'') @ buf)
         else bindE (append_exponent (n - 1)) (\<lambda>x.
           Inr ((if k = 1 then buf else take 1 buf @ ''.'' @ drop 1 buf) @ ''e'' @ x)))"

definition to_chars :: "u64 \<Rightarrow> string cxx" where
  "to_chars value =
     bindE (assertE (isfinite value)) (\<lambda>_.
       let sign = (if double_sign value then ''-'' else []); v = value AND NOT (push_bit 63 1)
       in if v = 0 then Inr (sign @ ''0.0'')
          else bindE (grisu2 v) (\<lambda>(buf, decimal_exponent).
               bindE (assertE (length buf \<le> 17)) (\<lambda>_.
               bindE (format_buffer buf decimal_exponent (- 4) 15) (\<lambda>t. Inr (sign @ t)))))"

section \<open>The product is the rounded product\<close>

lemma halves_product:
  fixes a ul uh vl vh :: nat
  assumes "0 < a"
  shows "uh * vh + uh * vl div a + ul * vh div a + (ul * vl div a + ul * vh mod a + uh * vl mod a + h) div a =
    ((uh * a + ul) * (vh * a + vl) + h * a) div (a * a)"
proof -
  let ?p0 = "ul * vl" and ?p1 = "ul * vh" and ?p2 = "uh * vl" and ?p3 = "uh * vh"
  have "(uh * a + ul) * (vh * a + vl) + h * a = ?p0 + a * (a * ?p3 + (?p1 + ?p2 + h))"
    by (simp add: algebra_simps)
  then have "((uh * a + ul) * (vh * a + vl) + h * a) div (a * a) = (a * ?p3 + (?p1 + ?p2 + h) + ?p0 div a) div a"
    using assms by (simp add: div_mult2_eq)
  also have "a * ?p3 + (?p1 + ?p2 + h) + ?p0 div a = (?p0 div a + ?p1 mod a + ?p2 mod a + h) + a * (?p3 + ?p2 div a + ?p1 div a)"
    using div_mult_mod_eq [of ?p1 a] div_mult_mod_eq [of ?p2 a] by (simp add: algebra_simps)
  also have "\<dots> div a = ?p3 + ?p2 div a + ?p1 div a + (?p0 div a + ?p1 mod a + ?p2 mod a + h) div a"
    using assms by simp
  finally show ?thesis ..
qed

lemma u64_halves:
  fixes x :: u64
  shows "unat (drop_bit 32 x) = unat x div 2 ^ 32" "unat (x AND 0xFFFFFFFF) = unat x mod 2 ^ 32"
proof -
  show "unat (drop_bit 32 x) = unat x div 2 ^ 32" unfolding unat_drop_bit_eq drop_bit_eq_div [where 'a = nat] ..
  have "x AND 0xFFFFFFFF = take_bit 32 x" by (simp add: take_bit_eq_mask mask_eq_exp_minus_1)
  then show "unat (x AND 0xFFFFFFFF) = unat x mod 2 ^ 32"
    by (simp only: unsigned_take_bit_eq take_bit_eq_mod [where 'a = nat])
qed

lemma unat_times: "unat (x :: u64) * unat y < 2 ^ 64 \<Longrightarrow> unat (x * y) = unat x * unat y"
  by (simp add: unat_mult_lem [THEN iffD1])

lemma unat_plus: "unat (x :: u64) + unat y < 2 ^ 64 \<Longrightarrow> unat (x + y) = unat x + unat y"
  by (simp add: unat_add_lem [THEN iffD1])

text \<open>C40: the product of two numbers with 64-bit significands, computed by \<open>diyfp::mul\<close> from four products of
  32-bit halves, is their exact product divided by \<open>2 ^ 64\<close> and rounded to the nearest integer, ties up: no
  intermediate sum overflows.\<close>

theorem diyfp_mul_is_rounded_product:
  "unat (df (diyfp_mul x y)) = (unat (df x) * unat (df y) + 2 ^ 63) div 2 ^ 64"
proof -
  let ?a = "2 ^ 32 :: nat"
  define ul uh vl vh where "ul = unat (df x) mod ?a" and "uh = unat (df x) div ?a"
    and "vl = unat (df y) mod ?a" and "vh = unat (df y) div ?a"
  define u_lo u_hi v_lo v_hi where "u_lo = df x AND 0xFFFFFFFF" and "u_hi = drop_bit 32 (df x)"
    and "v_lo = df y AND 0xFFFFFFFF" and "v_hi = drop_bit 32 (df y)"
  have n: "unat u_lo = ul" "unat u_hi = uh" "unat v_lo = vl" "unat v_hi = vh"
    by (simp_all only: u_lo_def u_hi_def v_lo_def v_hi_def ul_def uh_def vl_def vh_def u64_halves)
  have lt: "ul < ?a" "vl < ?a" "uh < ?a" "vh < ?a"
    using u64_less [of "df x"] u64_less [of "df y"] by (simp_all add: ul_def vl_def uh_def vh_def div_less_iff_less_mult)
  have prod: "x * y \<le> (2 ^ 32 - 1) * (2 ^ 32 - 1)" if "x < ?a" "y < ?a" for x y :: nat
    using that by (intro mult_le_mono) simp_all
  have p: "unat (u_lo * v_lo) = ul * vl" "unat (u_lo * v_hi) = ul * vh" "unat (u_hi * v_lo) = uh * vl" "unat (u_hi * v_hi) = uh * vh"
    using prod [OF lt(1,2)] prod [OF lt(1,4)] prod [OF lt(3,2)] prod [OF lt(3,4)] by (subst unat_times; simp add: n)+
  have "ul * vl div ?a \<le> ul * vl" by (rule div_le_dividend)
  then have s0: "ul * vl div ?a < ?a" using prod [OF lt(1,2)] by (simp add: div_less_iff_less_mult)
  define q where "q = drop_bit 32 (u_lo * v_lo) + (u_lo * v_hi AND 0xFFFFFFFF) + (u_hi * v_lo AND 0xFFFFFFFF) + push_bit 31 1"
  have one: "unat (push_bit 31 1 :: u64) = 2 ^ 31" by simp
  have q: "unat q = ul * vl div ?a + ul * vh mod ?a + uh * vl mod ?a + 2 ^ 31"
  proof -
    have m: "x mod ?a < ?a" for x :: nat by simp
    have "ul * vl div ?a + ul * vh mod ?a + uh * vl mod ?a + 2 ^ 31 < 2 ^ 64"
      using s0 m [of "ul * vh"] m [of "uh * vl"] by simp
    then show ?thesis unfolding q_def by (subst unat_plus, simp only: u64_halves p one unat_plus)+ (simp only: u64_halves p one)
  qed
  let ?h = "uh * vh + uh * vl div ?a + ul * vh div ?a + unat q div ?a"
  have h: "?h = (unat (df x) * unat (df y) + 2 ^ 63) div 2 ^ 64"
  proof -
    have "uh * ?a + ul = unat (df x)" "vh * ?a + vl = unat (df y)" by (simp_all only: uh_def ul_def vh_def vl_def div_mult_mod_eq)
    then show ?thesis using halves_product [of ?a uh vh vl ul "2 ^ 31"] unfolding q by simp
  qed
  have "unat (df x) * unat (df y) \<le> (2 ^ 64 - 1) * (2 ^ 64 - 1)"
    using u64_less [of "df x"] u64_less [of "df y"] by (intro mult_le_mono) simp_all
  then have lt64: "?h < 2 ^ 64" unfolding h by (simp add: div_less_iff_less_mult)
  have "df (diyfp_mul x y) = u_hi * v_hi + drop_bit 32 (u_hi * v_lo) + drop_bit 32 (u_lo * v_hi) + drop_bit 32 q"
    by (simp add: diyfp_mul_def Let_def q_def u_lo_def u_hi_def v_lo_def v_hi_def)
  also have "unat \<dots> = ?h"
    using lt64 by (subst unat_plus, simp add: u64_halves p unat_plus)+ (simp add: u64_halves p)
  finally show ?thesis unfolding h .
qed

end
