(* ===== verification/Json_Serializer.thy ===== *)
theory Json_Serializer
  imports Json_Lexer Json_Dtoa
begin

text \<open>
  include/thirdParty/nlohmann/json.hpp: the class \<open>serializer\<close> and \<open>basic_json::dump\<close>. Text is collected in a
  buffer of 512 bytes and written to the output when fewer than 13 bytes are free; a write behind the buffer
  is undefined.
\<close>

section \<open>State\<close>

record serializer =
  written :: string
  indent_string :: string
  string_buffer :: string
  number_buffer :: string

datatype error_handler = Strict | Replace | Ignore

definition new_serializer :: "char \<Rightarrow> serializer" where
  "new_serializer ichar =
     \<lparr>written = [], indent_string = replicate 512 ichar, string_buffer = replicate 512 (CHR 0x00),
      number_buffer = replicate 64 (CHR 0x00)\<rparr>"

definition write_characters :: "string \<Rightarrow> (serializer, unit) sm" where
  "write_characters cs = smodify (\<lambda>s. s\<lparr>written := written s @ cs\<rparr>)"

section \<open>Integers\<close>

function count_digits_from :: "nat \<Rightarrow> nat \<Rightarrow> nat" where
  "count_digits_from n_digits x =
     (if x < 10 then n_digits
      else if x < 100 then n_digits + 1
      else if x < 1000 then n_digits + 2
      else if x < 10000 then n_digits + 3
      else count_digits_from (n_digits + 4) (x div 10000))"
  by pat_completeness auto
termination by (relation "measure snd") auto

declare count_digits_from.simps [simp del]

definition count_digits :: "nat \<Rightarrow> nat" where
  "count_digits x = count_digits_from 1 x"

text \<open>The two digits of a number below 100, \<open>digits_to_99\<close>.\<close>

definition digits_to_99 :: "nat \<Rightarrow> char \<times> char" where
  "digits_to_99 n = (digit_char (n div 10), digit_char (n mod 10))"

text \<open>The buffer is filled from its end \<open>p\<close> to the front.\<close>

function fill_digits :: "nat \<Rightarrow> nat \<Rightarrow> string \<Rightarrow> string" where
  "fill_digits p abs_value buf =
     (if abs_value \<ge> 100 then
        (case digits_to_99 (abs_value mod 100) of
           (d0, d1) \<Rightarrow> fill_digits (p - 2) (abs_value div 100) (buf[p - 1 := d1, p - 2 := d0]))
      else if abs_value \<ge> 10 then (case digits_to_99 abs_value of (d0, d1) \<Rightarrow> buf[p - 1 := d1, p - 2 := d0])
      else buf[p - 1 := digit_char abs_value])"
  by pat_completeness auto
termination by (relation "measure (\<lambda>(_, x, _). x)") auto

declare fill_digits.simps [simp del]

text \<open>\<open>remove_sign\<close> of a negative number.\<close>

definition remove_sign :: "u64 \<Rightarrow> u64" where
  "remove_sign x = - (x + 1) + 1"

definition dump_abs :: "bool \<Rightarrow> u64 \<Rightarrow> (serializer, unit) sm" where
  "dump_abs negative abs_value s =
     (let buf = (if negative then (number_buffer s)[0 := CHR ''-''] else number_buffer s);
          n_chars = (if negative then 1 else 0) + count_digits (unat abs_value);
          s1 = s\<lparr>number_buffer := fill_digits n_chars (unat abs_value) buf\<rparr>
      in if n_chars < 63 then write_characters (take n_chars (number_buffer s1)) s1 else (Inl Assert_Failed, s))"

definition dump_unsigned :: "u64 \<Rightarrow> (serializer, unit) sm" where
  "dump_unsigned x = (if x = 0 then write_characters ''0'' else dump_abs False x)"

definition dump_integer :: "u64 \<Rightarrow> (serializer, unit) sm" where
  "dump_integer x =
     (if x = 0 then write_characters ''0'' else if sint x < 0 then dump_abs True (remove_sign x) else dump_abs False x)"

section \<open>Strings\<close>

text \<open>\<open>utf8d\<close>: the class of every byte, then the next state for each state and class.\<close>

definition utf8d_classes :: "int list" where
  "utf8d_classes =
     [0, 0, 0, 0, 0, 0, 0, 0, 0, 0, 0, 0, 0, 0, 0, 0, 0, 0, 0, 0, 0, 0, 0, 0, 0, 0, 0, 0, 0, 0, 0, 0,
      0, 0, 0, 0, 0, 0, 0, 0, 0, 0, 0, 0, 0, 0, 0, 0, 0, 0, 0, 0, 0, 0, 0, 0, 0, 0, 0, 0, 0, 0, 0, 0,
      0, 0, 0, 0, 0, 0, 0, 0, 0, 0, 0, 0, 0, 0, 0, 0, 0, 0, 0, 0, 0, 0, 0, 0, 0, 0, 0, 0, 0, 0, 0, 0,
      0, 0, 0, 0, 0, 0, 0, 0, 0, 0, 0, 0, 0, 0, 0, 0, 0, 0, 0, 0, 0, 0, 0, 0, 0, 0, 0, 0, 0, 0, 0, 0,
      1, 1, 1, 1, 1, 1, 1, 1, 1, 1, 1, 1, 1, 1, 1, 1, 9, 9, 9, 9, 9, 9, 9, 9, 9, 9, 9, 9, 9, 9, 9, 9,
      7, 7, 7, 7, 7, 7, 7, 7, 7, 7, 7, 7, 7, 7, 7, 7, 7, 7, 7, 7, 7, 7, 7, 7, 7, 7, 7, 7, 7, 7, 7, 7,
      8, 8, 2, 2, 2, 2, 2, 2, 2, 2, 2, 2, 2, 2, 2, 2, 2, 2, 2, 2, 2, 2, 2, 2, 2, 2, 2, 2, 2, 2, 2, 2,
      10, 3, 3, 3, 3, 3, 3, 3, 3, 3, 3, 3, 3, 4, 3, 3, 11, 6, 6, 6, 5, 8, 8, 8, 8, 8, 8, 8, 8, 8, 8, 8]"

definition utf8d_states :: "int list" where
  "utf8d_states =
     [0, 1, 2, 3, 5, 8, 7, 1, 1, 1, 4, 6, 1, 1, 1, 1,
      1, 1, 1, 1, 1, 1, 1, 1, 1, 1, 1, 1, 1, 1, 1, 1,
      1, 0, 1, 1, 1, 1, 1, 0, 1, 0, 1, 1, 1, 1, 1, 1,
      1, 2, 1, 1, 1, 1, 1, 2, 1, 2, 1, 1, 1, 1, 1, 1,
      1, 1, 1, 1, 1, 1, 1, 2, 1, 1, 1, 1, 1, 1, 1, 1,
      1, 2, 1, 1, 1, 1, 1, 1, 1, 2, 1, 1, 1, 1, 1, 1,
      1, 1, 1, 1, 1, 1, 1, 3, 1, 3, 1, 1, 1, 1, 1, 1,
      1, 3, 1, 1, 1, 1, 1, 3, 1, 3, 1, 1, 1, 1, 1, 1,
      1, 3, 1, 1, 1, 1, 1, 1, 1, 1, 1, 1, 1, 1, 1, 1]"

text \<open>State 0 accepts, state 1 rejects.\<close>

definition utf8_decode :: "int \<Rightarrow> u32 \<Rightarrow> int \<Rightarrow> int \<times> u32" where
  "utf8_decode state codep byte =
     (let type = utf8d_classes ! nat byte;
          codep' = (if state \<noteq> 0 then (word_of_int byte AND 0x3F) OR push_bit 6 codep
                    else drop_bit (nat type) 0xFF AND word_of_int byte)
      in (utf8d_states ! nat (state * 16 + type), codep'))"

text \<open>The local variables of \<open>dump_escaped\<close>; the buffer and the output are members.\<close>

record escaper =
  codepoint :: u32
  utf8_state :: int
  bytes :: nat
  bytes_after_last_accept :: nat
  undumped_chars :: nat
  ser :: serializer

definition put :: "char \<Rightarrow> (escaper, unit) sm" where
  "put c e =
     (if bytes e < length (string_buffer (ser e))
      then (Inr (), e\<lparr>ser := (ser e)\<lparr>string_buffer := (string_buffer (ser e))[bytes e := c]\<rparr>, bytes := bytes e + 1\<rparr>)
      else (Inl Undefined, e))"

fun puts :: "string \<Rightarrow> (escaper, unit) sm" where
  "puts [] = sret ()"
| "puts (c # cs) = sthen (put c) (puts cs)"

text \<open>\<open>snprintf\<close> writes a null byte behind the text, which is not counted.\<close>

definition print :: "string \<Rightarrow> (escaper, unit) sm" where
  "print cs = sthen (puts cs) (sthen (put (CHR 0x00)) (smodify (\<lambda>e. e\<lparr>bytes := bytes e - 1\<rparr>)))"

definition hex_lower :: "nat \<Rightarrow> char" where
  "hex_lower d = char_of (if d < 10 then 48 + d else 87 + d)"

definition u_escape :: "u16 \<Rightarrow> string" where
  "u_escape w =
     [CHR 0x5C, CHR ''u'', hex_lower (unat w div 4096), hex_lower (unat w div 256 mod 16), hex_lower (unat w div 16 mod 16),
      hex_lower (unat w mod 16)]"

text \<open>A code point that \<open>utf8_decode\<close> has completed with the byte \<open>c\<close>.\<close>

definition put_codepoint :: "bool \<Rightarrow> char \<Rightarrow> (escaper, unit) sm" where
  "put_codepoint ensure_ascii c e =
     (let cp = codepoint e
      in if cp = 0x08 then puts [CHR 0x5C, CHR ''b''] e
         else if cp = 0x09 then puts [CHR 0x5C, CHR ''t''] e
         else if cp = 0x0A then puts [CHR 0x5C, CHR ''n''] e
         else if cp = 0x0C then puts [CHR 0x5C, CHR ''f''] e
         else if cp = 0x0D then puts [CHR 0x5C, CHR ''r''] e
         else if cp = 0x22 then puts [CHR 0x5C, CHR 0x22] e
         else if cp = 0x5C then puts [CHR 0x5C, CHR 0x5C] e
         else if cp \<le> 0x1F \<or> ensure_ascii \<and> cp \<ge> 0x7F then
           (if cp \<le> 0xFFFF then print (u_escape (ucast cp)) e
            else print (u_escape (ucast (0xD7C0 + drop_bit 10 cp)) @ u_escape (ucast (0xDC00 + (cp AND 0x3FF)))) e)
         else put c e)"

text \<open>Write the buffer when fewer than 13 bytes are free.\<close>

definition flush_full :: "(escaper, unit) sm" where
  "flush_full e =
     (if length (string_buffer (ser e)) - bytes e < 13
      then (Inr (), e\<lparr>ser := (ser e)\<lparr>written := written (ser e) @ take (bytes e) (string_buffer (ser e))\<rparr>, bytes := 0\<rparr>)
      else (Inr (), e))"

definition remember_accept :: "(escaper, unit) sm" where
  "remember_accept = smodify (\<lambda>e. e\<lparr>bytes_after_last_accept := bytes e, undumped_chars := 0\<rparr>)"

definition accept_codepoint :: "bool \<Rightarrow> char \<Rightarrow> (escaper, unit) sm" where
  "accept_codepoint ensure_ascii c = sthen (put_codepoint ensure_ascii c) (sthen flush_full remember_accept)"

definition hex_bytes :: "nat \<Rightarrow> string" where
  "hex_bytes n = [hex_upper (n div 16), hex_upper (n mod 16)]"

text \<open>An invalid byte: an exception, or go on behind the last accept_codepoint position, with a replacement character.\<close>

definition replacement :: "bool \<Rightarrow> string" where
  "replacement ensure_ascii = (if ensure_ascii then [CHR 0x5C] @ ''ufffd'' else [CHR 0xEF, CHR 0xBF, CHR 0xBD])"

definition rejected :: "error_handler \<Rightarrow> bool \<Rightarrow> nat \<Rightarrow> char \<Rightarrow> (escaper, unit) sm" where
  "rejected h ensure_ascii i c =
     (if h = Strict then
        slift (Inl (type_error 316 (''invalid UTF-8 byte at index '' @ to_string i @ '': 0x'' @ hex_bytes (of_char c))))
      else sthen (smodify (\<lambda>e. e\<lparr>bytes := bytes_after_last_accept e\<rparr>))
        (sthen (if h = Replace
                then sthen (puts (replacement ensure_ascii)) (sthen flush_full (smodify (\<lambda>e. e\<lparr>bytes_after_last_accept := bytes e\<rparr>)))
                else sret ())
          (smodify (\<lambda>e. e\<lparr>undumped_chars := 0, utf8_state := 0\<rparr>))))"

definition incomplete :: "bool \<Rightarrow> char \<Rightarrow> (escaper, unit) sm" where
  "incomplete ensure_ascii c =
     sthen (if \<not> ensure_ascii then put c else sret ()) (smodify (\<lambda>e. e\<lparr>undumped_chars := undumped_chars e + 1\<rparr>))"

text \<open>
  The loop over the characters; \<open>i\<close> is the index. After an invalid byte behind an unfinished sequence, \<open>--i\<close>
  lets the loop read this byte again.
\<close>

definition decode_byte :: "char \<Rightarrow> escaper \<Rightarrow> escaper" where
  "decode_byte c e =
     (case utf8_decode (utf8_state e) (codepoint e) (of_char c) of (st, cp) \<Rightarrow> e\<lparr>utf8_state := st, codepoint := cp\<rparr>)"

lemma decode_byte_undumped: "undumped_chars (decode_byte c e) = undumped_chars e"
  by (simp add: decode_byte_def split: prod.splits)

lemma rejected_undumped: "rejected h a i c e = (Inr u, e') \<Longrightarrow> undumped_chars e' = 0"
  by (auto simp: rejected_def sbind_def split: if_splits prod.splits sum.splits)

function escape_loop :: "error_handler \<Rightarrow> bool \<Rightarrow> nat \<Rightarrow> string \<Rightarrow> (escaper, unit) sm" where
  "escape_loop h ensure_ascii i [] e = (Inr (), e)"
| "escape_loop h ensure_ascii i (c # cs) e =
     (let e1 = decode_byte c e
      in if utf8_state e1 = 0 then
           (case accept_codepoint ensure_ascii c e1 of
              (Inl x, e2) \<Rightarrow> (Inl x, e2) | (Inr u, e2) \<Rightarrow> escape_loop h ensure_ascii (i + 1) cs e2)
         else if utf8_state e1 = 1 then
           (case rejected h ensure_ascii i c e1 of
              (Inl x, e2) \<Rightarrow> (Inl x, e2)
            | (Inr u, e2) \<Rightarrow> if undumped_chars e1 > 0 then escape_loop h ensure_ascii i (c # cs) e2
                            else escape_loop h ensure_ascii (i + 1) cs e2)
         else
           (case incomplete ensure_ascii c e1 of
              (Inl x, e2) \<Rightarrow> (Inl x, e2) | (Inr u, e2) \<Rightarrow> escape_loop h ensure_ascii (i + 1) cs e2))"
  by (pat_completeness, simp_all only: prod.inject list.inject list.distinct HOL.simp_thms)
termination
  apply (relation "measures [\<lambda>(_, _, _, cs, _). length cs, \<lambda>(_, _, _, _, e). undumped_chars e]")
  apply (simp_all only: wf_measures in_measures prod.case list.size One_nat_def)
  subgoal by simp
  subgoal for h a i c cs e x xa y b
    using rejected_undumped [of h a i c "decode_byte c e" b y] by (simp add: decode_byte_undumped)
  subgoal by simp
  subgoal by simp
  done

declare escape_loop.simps [simp del]

definition finish_escape :: "error_handler \<Rightarrow> bool \<Rightarrow> string \<Rightarrow> (escaper, unit) sm" where
  "finish_escape h ensure_ascii str e =
     (if utf8_state e = 0 then
        (Inr (), if bytes e > 0 then e\<lparr>ser := (ser e)\<lparr>written := written (ser e) @ take (bytes e) (string_buffer (ser e))\<rparr>\<rparr> else e)
      else if h = Strict then
        (Inl (type_error 316 (''incomplete UTF-8 string; last byte: 0x'' @ hex_bytes (of_char (last str)))), e)
      else
        (Inr (), e\<lparr>ser := (ser e)\<lparr>written := written (ser e) @ take (bytes_after_last_accept e) (string_buffer (ser e)) @
           (if h = Replace then replacement ensure_ascii else [])\<rparr>\<rparr>))"

definition dump_escaped :: "error_handler \<Rightarrow> bool \<Rightarrow> string \<Rightarrow> (serializer, unit) sm" where
  "dump_escaped h ensure_ascii str s =
     (case sthen (escape_loop h ensure_ascii 0 str) (finish_escape h ensure_ascii str)
         \<lparr>codepoint = 0, utf8_state = 0, bytes = 0, bytes_after_last_accept = 0, undumped_chars = 0, ser = s\<rparr> of
        (r, e) \<Rightarrow> (r, ser e))"

section \<open>Values\<close>

text \<open>
  Pretty printing indents by the first characters of \<open>indent_string\<close>, which is doubled once when it is too
  short; reading behind the null byte that ends it is undefined. \<open>current_indent\<close> is an \<open>unsigned int\<close>.
\<close>

definition grow_indent :: "nat \<Rightarrow> (serializer, unit) sm" where
  "grow_indent new_indent =
     smodify (\<lambda>s. if length (indent_string s) < new_indent
                  then s\<lparr>indent_string := indent_string s @ replicate (length (indent_string s)) (CHR '' '')\<rparr> else s)"

definition write_indent :: "nat \<Rightarrow> (serializer, unit) sm" where
  "write_indent n s =
     (if n \<le> length (indent_string s) + 1 then write_characters (take n (indent_string s @ [CHR 0x00])) s
      else (Inl Undefined, s))"

text \<open>The parameters of a call: the error handler, \<open>pretty_print\<close>, \<open>ensure_ascii\<close> and \<open>indent_step\<close>.\<close>

record dump_options =
  handler :: error_handler
  pretty_print :: bool
  ensure_ascii :: bool
  indent_step :: nat

definition new_indent_of :: "dump_options \<Rightarrow> nat \<Rightarrow> nat" where
  "new_indent_of d current_indent = (if pretty_print d then (current_indent + indent_step d) mod 2 ^ 32 else current_indent)"

definition dump_float :: "u64 \<Rightarrow> (serializer, unit) sm" where
  "dump_float x = (if \<not> isfinite x then write_characters ''null'' else sbind (slift (to_chars x)) write_characters)"

definition open_bracket :: "dump_options \<Rightarrow> char \<Rightarrow> nat \<Rightarrow> (serializer, unit) sm" where
  "open_bracket d b new_indent =
     (if pretty_print d then sthen (write_characters [b, CHR 0x0A]) (grow_indent new_indent) else write_characters [b])"

definition close_bracket :: "dump_options \<Rightarrow> char \<Rightarrow> nat \<Rightarrow> (serializer, unit) sm" where
  "close_bracket d b current_indent =
     (if pretty_print d then sthen (write_characters [CHR 0x0A]) (sthen (write_indent current_indent) (write_characters [b]))
      else write_characters [b])"

definition indent_line :: "dump_options \<Rightarrow> nat \<Rightarrow> (serializer, unit) sm" where
  "indent_line d n = (if pretty_print d then write_indent n else sret ())"

definition comma :: "dump_options \<Rightarrow> (serializer, unit) sm" where
  "comma d = write_characters (if pretty_print d then [CHR '','', CHR 0x0A] else [CHR '',''])"

definition dump_string :: "dump_options \<Rightarrow> string \<Rightarrow> (serializer, unit) sm" where
  "dump_string d s =
     sthen (write_characters [CHR 0x22]) (sthen (dump_escaped (handler d) (ensure_ascii d) s) (write_characters [CHR 0x22]))"

definition dump_key :: "dump_options \<Rightarrow> string \<Rightarrow> (serializer, unit) sm" where
  "dump_key d k =
     sthen (write_characters [CHR 0x22]) (sthen (dump_escaped (handler d) (ensure_ascii d) k)
       (write_characters (if pretty_print d then [CHR 0x22, CHR '':'', CHR '' ''] else [CHR 0x22, CHR '':''])))"

text \<open>A binary value: its bytes and its subtype.\<close>

fun dump_bytes :: "dump_options \<Rightarrow> bytes \<Rightarrow> (serializer, unit) sm" where
  "dump_bytes d [] = sret ()"
| "dump_bytes d [b] = dump_unsigned (ucast b)"
| "dump_bytes d (b # bs) =
     sthen (dump_unsigned (ucast b)) (sthen (write_characters (if pretty_print d then '', '' else '','')) (dump_bytes d bs))"

definition dump_subtype :: "u64 option \<Rightarrow> (serializer, unit) sm" where
  "dump_subtype t = (case t of None \<Rightarrow> write_characters ''null'' | Some n \<Rightarrow> dump_unsigned n)"

definition quoted :: "string \<Rightarrow> string" where
  "quoted s = [CHR 0x22] @ s @ [CHR 0x22]"

definition dump_binary :: "dump_options \<Rightarrow> nat \<Rightarrow> bytes \<Rightarrow> u64 option \<Rightarrow> (serializer, unit) sm" where
  "dump_binary d current_indent bs t =
     (let new_indent = new_indent_of d current_indent
      in if pretty_print d then
           sthen (open_bracket d (CHR ''{'') new_indent) (sthen (write_indent new_indent)
             (sthen (write_characters (quoted ''bytes'' @ '': [''))
             (sthen (dump_bytes d bs) (sthen (write_characters ([CHR '']'', CHR '','', CHR 0x0A])) (sthen (write_indent new_indent)
             (sthen (write_characters (quoted ''subtype'' @ '': '')) (sthen (dump_subtype t) (close_bracket d (CHR ''}'') current_indent))))))))
         else
           sthen (write_characters (''{'' @ quoted ''bytes'' @ '':['')) (sthen (dump_bytes d bs)
             (sthen (write_characters (''],'' @ quoted ''subtype'' @ '':'')) (sthen (dump_subtype t) (write_characters ''}'')))))"

fun dump :: "dump_options \<Rightarrow> nat \<Rightarrow> json \<Rightarrow> (serializer, unit) sm"
  and dump_members :: "dump_options \<Rightarrow> nat \<Rightarrow> (string \<times> json) list \<Rightarrow> (serializer, unit) sm"
  and dump_elements :: "dump_options \<Rightarrow> nat \<Rightarrow> json list \<Rightarrow> (serializer, unit) sm" where
  "dump d current_indent (J_obj es) =
     (if es = [] then write_characters ''{}''
      else sthen (open_bracket d (CHR ''{'') (new_indent_of d current_indent))
        (sthen (dump_members d (new_indent_of d current_indent) es) (close_bracket d (CHR ''}'') current_indent)))"
| "dump d current_indent (J_arr js) =
     (if js = [] then write_characters ''[]''
      else sthen (open_bracket d (CHR ''['') (new_indent_of d current_indent))
        (sthen (dump_elements d (new_indent_of d current_indent) js) (close_bracket d (CHR '']'') current_indent)))"
| "dump d current_indent (J_str s) = dump_string d s"
| "dump d current_indent (J_binary bs t) = dump_binary d current_indent bs t"
| "dump d current_indent (J_bool b) = write_characters (if b then ''true'' else ''false'')"
| "dump d current_indent (J_int x) = dump_integer x"
| "dump d current_indent (J_unsigned x) = dump_unsigned x"
| "dump d current_indent (J_float x) = dump_float x"
| "dump d current_indent J_discarded = write_characters ''<discarded>''"
| "dump d current_indent J_null = write_characters ''null''"
| "dump_members d n [] = sret ()"
| "dump_members d n (e # es) =
     sthen (indent_line d n) (sthen (dump_key d (fst e)) (sthen (dump d n (snd e))
       (if es = [] then sret () else sthen (comma d) (dump_members d n es))))"
| "dump_elements d n [] = sret ()"
| "dump_elements d n (j # js) =
     sthen (indent_line d n) (sthen (dump d n j) (if js = [] then sret () else sthen (comma d) (dump_elements d n js)))"

text \<open>\<open>basic_json::dump\<close>: a negative indent stands for the compact form.\<close>

definition dump_with :: "int \<Rightarrow> char \<Rightarrow> bool \<Rightarrow> error_handler \<Rightarrow> json \<Rightarrow> string cxx" where
  "dump_with indent indent_char ascii h j =
     (case dump \<lparr>handler = h, pretty_print = (indent \<ge> 0), ensure_ascii = ascii, indent_step = (if indent \<ge> 0 then nat indent else 0)\<rparr>
         0 j (new_serializer indent_char) of
        (r, s) \<Rightarrow> bindE r (\<lambda>_. Inr (written s)))"

definition dump_text :: "json \<Rightarrow> string cxx" where
  "dump_text = dump_with (- 1) (CHR '' '') False Strict"

end
