(* ===== verification/Json_Text.thy ===== *)
theory Json_Text
  imports Json_Serializer Json_Utf8
begin

text \<open>
  What the serializer writes: the decimal text of integers, the escaped text of strings exactly when they are
  well-formed UTF-8, without ever writing behind its buffers, and from these the compact text of a value.
\<close>

unbundle bit_operations_syntax

section \<open>Integers\<close>

lemma to_string_step: "10 \<le> n \<Longrightarrow> to_string n = to_string (n div 10) @ [digit_char (n mod 10)]"
  by (subst to_string.simps) simp

lemma length_to_string_step: "10 \<le> n \<Longrightarrow> length (to_string n) = length (to_string (n div 10)) + 1"
  by (simp add: to_string_step)

lemma count_digits_from_length: "1 \<le> n \<Longrightarrow> count_digits_from n x = n - 1 + length (to_string x)"
proof (induction n x rule: count_digits_from.induct)
  case (1 n x)
  have l: "10 \<le> x \<Longrightarrow> length (to_string x) = length (to_string (x div 10)) + 1"
    "100 \<le> x \<Longrightarrow> length (to_string x) = length (to_string (x div 100)) + 2"
    "1000 \<le> x \<Longrightarrow> length (to_string x) = length (to_string (x div 1000)) + 3"
    "10000 \<le> x \<Longrightarrow> length (to_string x) = length (to_string (x div 10000)) + 4"
    using length_to_string_step [of x] length_to_string_step [of "x div 10"] length_to_string_step [of "x div 100"]
      length_to_string_step [of "x div 1000"] by (simp_all add: div_mult2_eq [symmetric])
  have s: "x < 10 \<Longrightarrow> length (to_string x) = 1" for x by (subst to_string.simps) simp
  consider "x < 10" | "10 \<le> x" "x < 100" | "100 \<le> x" "x < 1000" | "1000 \<le> x" "x < 10000" | "10000 \<le> x" by linarith
  then show ?case
    by cases (use 1 l s [of x] s [of "x div 10"] s [of "x div 100"] s [of "x div 1000"] in
        \<open>subst count_digits_from.simps, simp add: div_less_iff_less_mult\<close>)+
qed

lemma count_digits_length: "count_digits x = length (to_string x)"
  by (simp add: count_digits_def count_digits_from_length)

lemma to_string_step_100: "100 \<le> n \<Longrightarrow> to_string n = to_string (n div 100) @ [digit_char (n mod 100 div 10), digit_char (n mod 100 mod 10)]"
proof -
  assume "100 \<le> n"
  then have "to_string n = to_string (n div 10 div 10) @ [digit_char (n div 10 mod 10), digit_char (n mod 10)]"
    by (simp add: to_string_step [of n] to_string_step [of "n div 10"])
  moreover have "n div 10 div 10 = n div 100" by (simp add: div_mult2_eq [symmetric])
  moreover have "n mod 100 = 10 * (n div 10 mod 10) + n mod 10" using mod_mult2_eq [of n 10 10] by simp
  then have "n div 10 mod 10 = n mod 100 div 10" "n mod 10 = n mod 100 mod 10" by simp_all
  ultimately show ?thesis by simp
qed

lemma fill_digits_text:
  "length (to_string x) \<le> p \<Longrightarrow> p \<le> length buf \<Longrightarrow>
   take p (fill_digits p x buf) = take (p - length (to_string x)) buf @ to_string x \<and>
   drop p (fill_digits p x buf) = drop p buf \<and> length (fill_digits p x buf) = length buf"
proof (induction p x buf rule: fill_digits.induct)
  case (1 p x buf)
  consider "x < 10" | "10 \<le> x" "x < 100" | "100 \<le> x" by linarith
  then show ?case
  proof cases
    case 1
    then have "to_string x = [digit_char x]" by (subst to_string.simps) simp
    with 1 "1.prems" show ?thesis
      by (subst (1 2 3) fill_digits.simps) (auto simp: take_update_swap nth_append list_eq_iff_nth_eq nth_list_update)
  next
    case 2
    then have "to_string x = [digit_char (x div 10), digit_char (x mod 10)]"
      by (subst to_string.simps, subst to_string.simps) (simp add: div_less_iff_less_mult)
    with 2 "1.prems" show ?thesis
      by (subst (1 2 3) fill_digits.simps)
        (auto simp: digits_to_99_def nth_append list_eq_iff_nth_eq nth_list_update nth_Cons split: nat.split)
  next
    case 3
    let ?d0 = "digit_char (x mod 100 div 10)" and ?d1 = "digit_char (x mod 100 mod 10)"
    let ?b = "buf[p - 1 := ?d1, p - 2 := ?d0]"
    have t: "to_string x = to_string (x div 100) @ [?d0, ?d1]" using 3 by (rule to_string_step_100)
    have f: "fill_digits p x buf = fill_digits (p - 2) (x div 100) ?b"
      using 3 by (subst fill_digits.simps) (simp add: digits_to_99_def)
    have p: "2 \<le> p" "length (to_string (x div 100)) \<le> p - 2" "p - 2 \<le> length ?b" using "1.prems" t by simp_all
    from "1.IH" [of ?d0 ?d1, OF _ _ p(2,3)] 3 have ih: "take (p - 2) (fill_digits p x buf) = take (p - 2 - length (to_string (x div 100))) ?b @ to_string (x div 100)"
        "drop (p - 2) (fill_digits p x buf) = drop (p - 2) ?b" "length (fill_digits p x buf) = length buf"
      by (simp_all add: f digits_to_99_def)
    have d: "drop (p - 2) ?b = [?d0, ?d1] @ drop p buf"
      using p "1.prems" by (auto simp: list_eq_iff_nth_eq nth_list_update nth_Cons split: nat.split)
    have "take p (fill_digits p x buf) = take (p - 2) (fill_digits p x buf) @ take 2 (drop (p - 2) (fill_digits p x buf))"
      using p(1) by (metis le_add_diff_inverse2 take_add)
    also have "\<dots> = take (p - length (to_string x)) buf @ to_string x"
      unfolding ih d using p t by simp
    finally have "take p (fill_digits p x buf) = take (p - length (to_string x)) buf @ to_string x" .
    moreover have "drop p (fill_digits p x buf) = drop 2 (drop (p - 2) (fill_digits p x buf))"
      using p(1) by (metis drop_drop le_add_diff_inverse)
    ultimately show ?thesis using ih(3) unfolding ih(2) d by simp
  qed
qed

lemma to_string_length: "n < 10 ^ k \<Longrightarrow> 1 \<le> k \<Longrightarrow> length (to_string n) \<le> k"
proof (induction k arbitrary: n)
  case (Suc k)
  show ?case
  proof (cases "n < 10")
    case True
    then show ?thesis by (subst to_string.simps) simp
  next
    case False
    then have "k \<noteq> 0" using Suc.prems(1) by (cases k) simp_all
    moreover have "n div 10 < 10 ^ k" using Suc.prems(1) by (simp add: div_less_iff_less_mult)
    ultimately show ?thesis using Suc.IH [of "n div 10"] False by (simp add: to_string_step)
  qed
qed simp

text \<open>
  The serializer's buffers have their sizes, and \<open>m\<close> writes the text \<open>t\<close> and leaves the indentation alone.
\<close>

definition buffers_ok :: "serializer \<Rightarrow> bool" where
  "buffers_ok s \<longleftrightarrow> length (number_buffer s) = 64 \<and> length (string_buffer s) = 512"

definition writes :: "(serializer, unit) sm \<Rightarrow> string \<Rightarrow> bool" where
  "writes m t \<longleftrightarrow> (\<forall>s. buffers_ok s \<longrightarrow>
     (\<exists>s'. m s = (Inr (), s') \<and> buffers_ok s' \<and> written s' = written s @ t \<and> indent_string s' = indent_string s))"

lemma writesI:
  "(\<And>s. buffers_ok s \<Longrightarrow> \<exists>s'. m s = (Inr (), s') \<and> buffers_ok s' \<and> written s' = written s @ t \<and> indent_string s' = indent_string s) \<Longrightarrow>
   writes m t"
  by (simp add: writes_def)

lemma writes_then: "writes m t \<Longrightarrow> writes n u \<Longrightarrow> writes (sthen m n) (t @ u)"
  by (fastforce simp: writes_def sbind_def)

lemma writes_characters [simp]: "writes (write_characters cs) cs"
  by (simp add: writes_def write_characters_def buffers_ok_def)

lemma writes_nothing [simp]: "writes (sret ()) []"
  by (simp add: writes_def)

definition int_text :: "int \<Rightarrow> string" where
  "int_text i = (if i < 0 then CHR ''-'' # to_string (nat (- i)) else to_string (nat i))"

lemma u64_digits: "length (to_string (unat (x :: u64))) \<le> 20"
  using u64_less [of x] by (intro to_string_length) simp_all

lemma writes_abs: "writes (dump_abs neg x) ((if neg then ''-'' else []) @ to_string (unat x))"
proof (rule writesI)
  fix s
  assume s: "buffers_ok s"
  let ?buf = "if neg then (number_buffer s)[0 := CHR ''-''] else number_buffer s"
  let ?n = "(if neg then 1 else 0) + length (to_string (unat x))"
  let ?f = "fill_digits ?n (unat x) ?buf"
  have n: "?n \<le> 21" using u64_digits [of x] by simp
  have "?n \<le> length ?buf" using n s by (simp add: buffers_ok_def)
  then have f: "take ?n ?f = take (?n - length (to_string (unat x))) ?buf @ to_string (unat x)" "length ?f = length ?buf"
    using fill_digits_text [of "unat x" ?n ?buf] by simp_all
  moreover have "take (?n - length (to_string (unat x))) ?buf = (if neg then ''-'' else [])"
    using s by (cases "number_buffer s") (simp_all add: buffers_ok_def)
  ultimately have "dump_abs neg x s = (Inr (), s\<lparr>number_buffer := ?f, written := written s @ (if neg then ''-'' else []) @ to_string (unat x)\<rparr>)"
    using n by (simp add: dump_abs_def Let_def count_digits_length write_characters_def)
  then show "\<exists>s'. dump_abs neg x s = (Inr (), s') \<and> buffers_ok s' \<and>
      written s' = written s @ (if neg then ''-'' else []) @ to_string (unat x) \<and> indent_string s' = indent_string s"
    using f(2) s by (simp add: buffers_ok_def)
qed

lemma writes_unsigned: "writes (dump_unsigned x) (to_string (unat x))"
proof (cases "x = 0")
  case True
  have "to_string 0 = ''0''" by (subst to_string.simps) (simp add: digit_char_def char_of_eq_iff)
  then show ?thesis using True writes_characters [of "''0''"] by (simp add: dump_unsigned_def)
next
  case False
  then show ?thesis using writes_abs [of False x] by (simp add: dump_unsigned_def)
qed

lemma remove_sign_abs: "sint (x :: u64) < 0 \<Longrightarrow> unat (remove_sign x) = nat (- sint x)"
proof -
  assume n: "sint x < 0"
  have "remove_sign x = - x" by (simp add: remove_sign_def)
  moreover have "uint (- x) = - sint x"
  proof -
    have "- (2 ^ 63) \<le> sint x" using sint_greater_eq [of x] by simp
    moreover have "- x = word_of_int (- sint x)" by simp
    ultimately show ?thesis using n by (simp add: uint_word_of_int del: of_int_minus)
  qed
  ultimately show ?thesis by (simp add: unat_eq_nat_uint)
qed

lemma sint_nonneg: "0 \<le> sint (x :: u64) \<Longrightarrow> unat x = nat (sint x)"
proof -
  assume "0 \<le> sint x"
  moreover have "sint x < 2 ^ 63" using sint_less [of x] by simp
  ultimately have "uint (word_of_int (sint x) :: u64) = sint x" by (simp add: uint_word_of_int del: of_int_sint)
  then show ?thesis by (simp add: unat_eq_nat_uint)
qed

lemma writes_integer: "writes (dump_integer x) (int_text (sint x))"
proof -
  consider "x = 0" | "x \<noteq> 0" "sint x < 0" | "x \<noteq> 0" "0 \<le> sint x" by linarith
  then show ?thesis
  proof cases
    case 1
    then show ?thesis using writes_unsigned [of 0] by (simp add: dump_integer_def dump_unsigned_def int_text_def)
  next
    case 2
    then show ?thesis using writes_abs [of True "remove_sign x"] by (simp add: dump_integer_def int_text_def remove_sign_abs)
  next
    case 3
    then have "unat x = nat (sint x)" by (simp add: sint_nonneg)
    then show ?thesis using 3 writes_abs [of False x] by (simp add: dump_integer_def int_text_def)
  qed
qed

section \<open>The UTF-8 automaton\<close>

definition utf8_class :: "int \<Rightarrow> int" where
  "utf8_class b =
     (if b < 0x80 then 0 else if b < 0x90 then 1 else if b < 0xA0 then 9 else if b < 0xC0 then 7 else if b < 0xC2 then 8
      else if b < 0xE0 then 2 else if b = 0xE0 then 10 else if b = 0xED then 4 else if b < 0xF0 then 3 else if b = 0xF0 then 11
      else if b < 0xF4 then 6 else if b = 0xF4 then 5 else 8)"

lemma utf8d_classes_map: "utf8d_classes = map utf8_class [0..255]"
  by code_simp

lemma utf8d_class: "0 \<le> b \<Longrightarrow> b < 256 \<Longrightarrow> utf8d_classes ! nat b = utf8_class b"
  by (simp add: utf8d_classes_map)

definition utf8_next :: "int \<Rightarrow> int \<Rightarrow> int" where
  "utf8_next st t =
     (if st = 0 then
        (if t = 0 then 0 else if t = 2 then 2 else if t = 3 then 3 else if t = 4 then 5 else if t = 5 then 8
         else if t = 6 then 7 else if t = 10 then 4 else if t = 11 then 6 else 1)
      else if (if st = 4 then t = 7 else if st = 5 then t = 1 \<or> t = 9 else if st = 6 then t = 7 \<or> t = 9
               else if st = 8 then t = 1 else t = 1 \<or> t = 7 \<or> t = 9)
           then (if st = 2 then 0 else if st \<le> 5 then 2 else 3)
      else 1)"

lemma utf8d_states_next:
  "list_all (\<lambda>st. list_all (\<lambda>t. utf8d_states ! nat (st * 16 + t) = utf8_next st t) [0..11]) [0, 2, 3, 4, 5, 6, 7, 8]"
  by code_simp

lemma utf8_decode_state:
  assumes "st \<in> {0, 2, 3, 4, 5, 6, 7, 8}" "0 \<le> b" "b < 256"
  shows "fst (utf8_decode st cp b) = utf8_next st (utf8_class b)"
proof -
  have "0 \<le> utf8_class b" "utf8_class b \<le> 11" by (simp_all add: utf8_class_def)
  then have "utf8d_states ! nat (st * 16 + utf8_class b) = utf8_next st (utf8_class b)"
    using utf8d_states_next assms(1) by (simp add: list_all_iff) force
  then show ?thesis using assms(2,3) by (simp add: utf8_decode_def Let_def utf8d_class)
qed

text \<open>The states of the automaton as the ranges of the bytes that must follow, with the bounds of the code point so far.\<close>

abbreviation cont :: "int \<times> int" where "cont \<equiv> (0x80, 0xBF)"

definition utf8_run :: "int \<Rightarrow> (int \<times> int) list \<Rightarrow> int \<Rightarrow> bool" where
  "utf8_run st rs v \<longleftrightarrow>
     st = 2 \<and> rs = [cont] \<and> 2 \<le> v \<and> v < 2 ^ 15 \<or> st = 3 \<and> rs = [cont, cont] \<and> 1 \<le> v \<and> v < 2 ^ 9 \<or>
     st = 4 \<and> rs = [(0xA0, 0xBF), cont] \<and> 0 \<le> v \<and> v < 2 ^ 9 \<or> st = 5 \<and> rs = [(0x80, 0x9F), cont] \<and> 1 \<le> v \<and> v < 2 ^ 9 \<or>
     st = 6 \<and> rs = [(0x90, 0xBF), cont, cont] \<and> 0 \<le> v \<and> v < 8 \<or> st = 7 \<and> rs = [cont, cont, cont] \<and> 1 \<le> v \<and> v < 8 \<or>
     st = 8 \<and> rs = [(0x80, 0x8F), cont, cont] \<and> 1 \<le> v \<and> v < 8"

lemma lead_codepoint:
  "0xC2 \<le> b \<Longrightarrow> b < 0xF5 \<Longrightarrow>
   snd (utf8_decode 0 cp b) = word_of_int (if b < 0xE0 then b - 0xC0 else if b < 0xF0 then b - 0xE0 else b - 0xF0)"
proof -
  assume b: "0xC2 \<le> b" "b < 0xF5"
  have "list_all (\<lambda>b. drop_bit (nat (utf8_class b)) 0xFF AND b = (if b < 0xE0 then b - 0xC0 else if b < 0xF0 then b - 0xE0 else b - 0xF0))
      [0xC2..0xF4]" by code_simp
  then have "\<forall>b \<in> {0xC2..0xF4}. drop_bit (nat (utf8_class b)) 0xFF AND b =
      (if b < 0xE0 then b - 0xC0 else if b < 0xF0 then b - 0xE0 else b - 0xF0)"
    by (simp only: list_all_iff set_upto)
  then have "drop_bit (nat (utf8_class b)) 0xFF AND b = (if b < 0xE0 then b - 0xC0 else if b < 0xF0 then b - 0xE0 else b - 0xF0)"
    using b by (auto dest!: bspec [of _ _ b])
  moreover have "drop_bit k (0xFF :: u32) = word_of_int (drop_bit k 0xFF)" for k
  proof -
    have "uint (drop_bit k (0xFF :: u32)) = uint (word_of_int (drop_bit k 0xFF) :: u32)"
    proof -
      have "0 \<le> drop_bit k (0xFF :: int)" "drop_bit k (0xFF :: int) \<le> 0xFF"
        by (simp_all add: drop_bit_eq_div pos_imp_zdiv_nonneg_iff zdiv_mono2 [of 255 1 "2 ^ k", simplified])
      then show ?thesis by (simp add: unsigned_drop_bit_eq uint_word_of_int)
    qed
    then show ?thesis by (simp only: word_uint_eq_iff)
  qed
  ultimately show ?thesis using b by (simp add: utf8_decode_def Let_def utf8d_class of_int_and_eq [symmetric] del: of_int_diff)
qed

lemma cont_codepoint:
  assumes "st \<noteq> 0" "0x80 \<le> b" "b < 0xC0" "0 \<le> v"
  shows "snd (utf8_decode st (word_of_int v) b) = word_of_int (v * 64 + (b - 0x80))"
proof -
  have "b AND 0x3F = b - 0x80" using assms(2,3) by (simp add: and_63) presburger
  then have "(b AND 0x3F) OR push_bit 6 v = v * 64 + (b - 0x80)"
    using or_disjoint [of "b - 0x80" 6 v] assms(2,3) by (simp add: push_bit_eq_mult or.commute)
  then have "word_of_int ((b AND 0x3F) OR push_bit 6 v) = (word_of_int (v * 64 + (b - 0x80)) :: u32)" by simp
  moreover have "word_of_int ((b AND 0x3F) OR push_bit 6 v) = ((word_of_int b AND 0x3F) OR push_bit 6 (word_of_int v) :: u32)"
    by (simp add: of_int_and_eq of_int_or_eq push_bit_eq_mult)
  ultimately show ?thesis using assms(1) by (simp add: utf8_decode_def Let_def)
qed

lemma utf8_lead_run:
  assumes "0 \<le> b" "b < 256"
  shows "utf8_lead b = None \<Longrightarrow> fst (utf8_decode 0 cp b) = 1"
    "utf8_lead b = Some [] \<Longrightarrow> utf8_decode 0 cp b = (0, word_of_int b)"
    "utf8_lead b = Some rs \<Longrightarrow> rs \<noteq> [] \<Longrightarrow>
       \<exists>st v. utf8_decode 0 cp b = (st, word_of_int v) \<and> utf8_run st rs v \<and> length rs \<le> 3"
proof -
  have st: "fst (utf8_decode 0 cp b) = utf8_next 0 (utf8_class b)" using utf8_decode_state [of 0 b cp] assms by simp
  show "utf8_lead b = None \<Longrightarrow> fst (utf8_decode 0 cp b) = 1"
    unfolding st using assms by (auto simp: utf8_lead_def utf8_ranges_def utf8_class_def utf8_next_def split: if_splits)
  show "utf8_decode 0 cp b = (0, word_of_int b)" if "utf8_lead b = Some []"
  proof -
    have b: "b < 0x80" using that by (auto simp: utf8_lead_def utf8_ranges_def split: if_splits)
    have "0xFF AND b = b mod 256" using take_bit_eq_mask [of 8 b] by (simp add: take_bit_eq_mod mask_eq_exp_minus_1 and.commute)
    then have "word_of_int (0xFF AND b) = (word_of_int b :: u32)" using b assms by simp
    then have "(0xFF :: u32) AND word_of_int b = word_of_int b" by (simp add: of_int_and_eq)
    then have "snd (utf8_decode 0 cp b) = word_of_int b"
      using assms b by (simp add: utf8_decode_def Let_def utf8d_class utf8_class_def)
    moreover have "fst (utf8_decode 0 cp b) = 0" unfolding st using b by (simp add: utf8_class_def utf8_next_def)
    ultimately show ?thesis by (simp add: prod_eq_iff)
  qed
  show "\<exists>st v. utf8_decode 0 cp b = (st, word_of_int v) \<and> utf8_run st rs v \<and> length rs \<le> 3"
    if "utf8_lead b = Some rs" "rs \<noteq> []"
  proof -
    let ?v = "if b < 0xE0 then b - 0xC0 else if b < 0xF0 then b - 0xE0 else b - 0xF0"
    have b: "0xC2 \<le> b" "b < 0xF5" using that by (auto simp: utf8_lead_def utf8_ranges_def split: if_splits)
    have "utf8_run (utf8_next 0 (utf8_class b)) rs ?v \<and> length rs \<le> 3"
      using that b by (auto simp: utf8_lead_def utf8_ranges_def utf8_run_def utf8_class_def utf8_next_def split: if_splits)
    moreover have "utf8_decode 0 cp b = (utf8_next 0 (utf8_class b), word_of_int ?v)"
      using lead_codepoint [OF b, of cp] st by (simp only: prod_eq_iff fst_conv snd_conv)
    ultimately show ?thesis by blast
  qed
qed

lemma utf8_run_step:
  assumes "utf8_run st ((lo, hi) # rs) v" "0 \<le> b" "b < 256"
  shows "lo \<le> b \<Longrightarrow> b \<le> hi \<Longrightarrow> \<exists>st'. utf8_decode st (word_of_int v) b = (st', word_of_int (v * 64 + (b - 0x80))) \<and>
      (if rs = [] then st' = 0 \<and> 0x80 \<le> v * 64 + (b - 0x80) \<and> v * 64 + (b - 0x80) < 2 ^ 31 else utf8_run st' rs (v * 64 + (b - 0x80)))"
    "\<not> (lo \<le> b \<and> b \<le> hi) \<Longrightarrow> fst (utf8_decode st (word_of_int v) b) = 1"
proof -
  have s: "st \<in> {2, 3, 4, 5, 6, 7, 8}" "0 \<le> v" "0x80 \<le> lo" "hi < 0xC0" using assms(1) by (auto simp: utf8_run_def)
  have st: "fst (utf8_decode st (word_of_int v) b) = utf8_next st (utf8_class b)"
    using utf8_decode_state [of st b] s assms by auto
  show "fst (utf8_decode st (word_of_int v) b) = 1" if "\<not> (lo \<le> b \<and> b \<le> hi)"
    unfolding st using assms that unfolding utf8_run_def
    by (elim disjE) (auto simp: utf8_class_def utf8_next_def)
  let ?v = "v * 64 + (b - 0x80)"
  assume b: "lo \<le> b" "b \<le> hi"
  have "snd (utf8_decode st (word_of_int v) b) = word_of_int ?v"
    using cont_codepoint [of st b v] s b by auto
  then have d: "utf8_decode st (word_of_int v) b = (utf8_next st (utf8_class b), word_of_int ?v)"
    using st by (simp only: prod_eq_iff fst_conv snd_conv)
  have "if rs = [] then utf8_next st (utf8_class b) = 0 \<and> 0x80 \<le> ?v \<and> ?v < 2 ^ 31 else utf8_run (utf8_next st (utf8_class b)) rs ?v"
    using assms b unfolding utf8_run_def
    by (elim disjE) (auto simp: utf8_class_def utf8_next_def)
  with d show "\<exists>st'. utf8_decode st (word_of_int v) b = (st', word_of_int ?v) \<and>
      (if rs = [] then st' = 0 \<and> 0x80 \<le> ?v \<and> ?v < 2 ^ 31 else utf8_run st' rs ?v)" by blast
qed

section \<open>Strings\<close>

text \<open>The text of one character.\<close>

definition escape_char :: "char \<Rightarrow> string" where
  "escape_char c =
     (let n = of_char c :: nat
      in if n = 0x08 then [CHR 0x5C, CHR ''b''] else if n = 0x09 then [CHR 0x5C, CHR ''t'']
         else if n = 0x0A then [CHR 0x5C, CHR ''n''] else if n = 0x0C then [CHR 0x5C, CHR ''f'']
         else if n = 0x0D then [CHR 0x5C, CHR ''r''] else if n = 0x22 then [CHR 0x5C, CHR 0x22]
         else if n = 0x5C then [CHR 0x5C, CHR 0x5C] else if n \<le> 0x1F then u_escape (word_of_nat n) else [c])"

definition escaped :: "string \<Rightarrow> string" where
  "escaped s = concat (map escape_char s)"

text \<open>What has been written and what stands in the buffer; a step that appends \<open>cs\<close> to it.\<close>

definition etext :: "escaper \<Rightarrow> string" where
  "etext e = written (ser e) @ take (bytes e) (string_buffer (ser e))"

definition appends :: "string \<Rightarrow> escaper \<Rightarrow> escaper \<Rightarrow> bool" where
  "appends cs e e' \<longleftrightarrow> etext e' = etext e @ cs \<and> bytes e' = bytes e + length cs \<and> utf8_state e' = utf8_state e \<and>
     codepoint e' = codepoint e \<and> buffers_ok (ser e') \<and> indent_string (ser e') = indent_string (ser e)"

lemma put_appends:
  assumes "buffers_ok (ser e)" "bytes e < 512"
  shows "\<exists>e'. put c e = (Inr (), e') \<and> appends [c] e e'"
  using assms by (auto simp: put_def appends_def etext_def buffers_ok_def take_Suc_conv_app_nth)

lemma appends_trans: "appends cs e e' \<Longrightarrow> appends ds e' e'' \<Longrightarrow> appends (cs @ ds) e e''"
  by (simp add: appends_def)

lemma puts_appends:
  "buffers_ok (ser e) \<Longrightarrow> bytes e + length cs \<le> 512 \<Longrightarrow> \<exists>e'. puts cs e = (Inr (), e') \<and> appends cs e e'"
proof (induction cs arbitrary: e)
  case Nil
  then show ?case by (simp add: appends_def etext_def)
next
  case (Cons c cs)
  then obtain e1 where 1: "put c e = (Inr (), e1)" "appends [c] e e1" using put_appends [of e c] by auto
  with Cons.prems obtain e2 where "puts cs e1 = (Inr (), e2)" "appends cs e1 e2"
    using Cons.IH [of e1] by (auto simp: appends_def)
  with 1 appends_trans [OF 1(2)] show ?case by auto
qed

lemma print_appends:
  assumes "buffers_ok (ser e)" "bytes e + length cs < 512"
  shows "\<exists>e'. print cs e = (Inr (), e') \<and> appends cs e e'"
proof -
  obtain e1 where 1: "puts cs e = (Inr (), e1)" "appends cs e e1" using puts_appends [OF assms(1), of cs] assms(2) by auto
  then obtain e2 where 2: "put (CHR 0x00) e1 = (Inr (), e2)" "appends [CHR 0x00] e1 e2"
    using put_appends [of e1] assms(2) by (auto simp: appends_def)
  let ?e = "e2\<lparr>bytes := bytes e2 - 1\<rparr>"
  have "etext ?e = etext e1"
  proof -
    have "etext e2 = etext e1 @ [CHR 0x00]" "bytes e2 = bytes e1 + 1" "length (string_buffer (ser e2)) = 512" "bytes e1 < 512"
      using 1(2) 2(2) assms(2) by (simp_all add: appends_def buffers_ok_def)
    then show ?thesis
      by (simp add: etext_def take_Suc_conv_app_nth)
  qed
  then have "appends cs e ?e" using 1(2) 2(2) by (simp add: appends_def)
  with 1(1) 2(1) show ?thesis by (simp add: print_def)
qed

lemma length_u_escape [simp]: "length (u_escape w) = 6" by (simp add: u_escape_def)

lemma codepoint_compare:
  fixes v :: int
  assumes "0 \<le> v" "v < 2 ^ 31"
  shows "(word_of_int v :: u32) = 0x08 \<longleftrightarrow> v = 0x08" "(word_of_int v :: u32) = 0x09 \<longleftrightarrow> v = 0x09"
    "(word_of_int v :: u32) = 0x0A \<longleftrightarrow> v = 0x0A" "(word_of_int v :: u32) = 0x0C \<longleftrightarrow> v = 0x0C"
    "(word_of_int v :: u32) = 0x0D \<longleftrightarrow> v = 0x0D" "(word_of_int v :: u32) = 0x22 \<longleftrightarrow> v = 0x22"
    "(word_of_int v :: u32) = 0x5C \<longleftrightarrow> v = 0x5C" "(word_of_int v :: u32) \<le> 0x1F \<longleftrightarrow> v \<le> 0x1F"
    "(word_of_int v :: u32) \<le> 0xFFFF \<longleftrightarrow> v \<le> 0xFFFF"
  using assms by (simp_all add: word_uint_eq_iff word_le_def uint_word_of_int)

lemma put_codepoint_ascii:
  assumes "buffers_ok (ser e)" "bytes e \<le> 499" "codepoint e = word_of_int (of_char c)" "(of_char c :: int) < 0x80"
  shows "\<exists>e'. put_codepoint False c e = (Inr (), e') \<and> appends (escape_char c) e e'"
proof -
  let ?v = "of_char c :: int"
  have v: "0 \<le> ?v" "?v < 2 ^ 31" using assms(4) by simp_all
  have iv: "?v = int (of_char c)" by (simp only: of_nat_of_char)
  have ch: "?v = 8 \<longleftrightarrow> (of_char c :: nat) = 8" "?v = 9 \<longleftrightarrow> (of_char c :: nat) = 9" "?v = 10 \<longleftrightarrow> (of_char c :: nat) = 10"
    "?v = 12 \<longleftrightarrow> (of_char c :: nat) = 12" "?v = 13 \<longleftrightarrow> (of_char c :: nat) = 13" "?v = 0x22 \<longleftrightarrow> (of_char c :: nat) = 0x22"
    "?v = 0x5C \<longleftrightarrow> (of_char c :: nat) = 0x5C" "?v \<le> 0x1F \<longleftrightarrow> (of_char c :: nat) \<le> 0x1F"
    unfolding iv by linarith+
  have u: "u_escape (ucast (word_of_int ?v :: u32)) = u_escape (word_of_nat (of_char c))" if "?v \<le> 0x1F"
  proof -
    have "ucast (word_of_int (int n) :: u32) = (word_of_nat n :: u16)" if "n < 256" for n
      using that by (simp add: word_unat_eq_iff unsigned_ucast_eq unsigned_of_nat take_bit_nat_eq_self)
    then show ?thesis unfolding iv by simp
  qed
  note cmp = codepoint_compare [OF v]
  have le: "?v \<le> 0x1F \<Longrightarrow> ?v \<le> 0xFFFF" by simp
  have p: "\<exists>e'. puts cs e = (Inr (), e') \<and> appends cs e e'" if "length cs \<le> 12" for cs
    using puts_appends [OF assms(1), of cs] assms(2) that by simp
  show ?thesis
    using p print_appends [OF assms(1), of "u_escape (word_of_nat (of_char c))"]
      put_appends [OF assms(1), of c] assms(2) u le
    unfolding put_codepoint_def escape_char_def Let_def assms(3) cmp ch [symmetric]
    by (simp del: puts.simps)
qed

lemma put_codepoint_multibyte:
  assumes "buffers_ok (ser e)" "bytes e < 512" "codepoint e = word_of_int v" "0x80 \<le> v" "v < 2 ^ 31"
  shows "\<exists>e'. put_codepoint False c e = (Inr (), e') \<and> appends [c] e e'"
proof -
  have v: "0 \<le> v" using assms(4) by simp
  have "put_codepoint False c e = put c e"
    using assms(4) unfolding put_codepoint_def Let_def assms(3) codepoint_compare [OF v assms(5)] by simp
  with put_appends [OF assms(1,2)] show ?thesis by simp
qed

text \<open>The state of the loop: \<open>rs\<close> are the ranges of the bytes to come.\<close>

definition loop_state :: "(int \<times> int) list \<Rightarrow> escaper \<Rightarrow> bool" where
  "loop_state rs e \<longleftrightarrow> buffers_ok (ser e) \<and>
     (rs = [] \<and> utf8_state e = 0 \<and> bytes e \<le> 499 \<or>
      (\<exists>v. utf8_run (utf8_state e) rs v \<and> codepoint e = word_of_int v \<and> bytes e + length rs \<le> 503))"

lemma accepted_appends:
  assumes "put_codepoint False c e = (Inr (), e1)" "appends cs e e1" "bytes e1 \<le> 512" "utf8_state e = 0"
  shows "\<exists>e'. accept_codepoint False c e = (Inr (), e') \<and> loop_state [] e' \<and> etext e' = etext e @ cs \<and>
    indent_string (ser e') = indent_string (ser e)"
proof -
  let ?f = "e1\<lparr>ser := (ser e1)\<lparr>written := written (ser e1) @ take (bytes e1) (string_buffer (ser e1))\<rparr>, bytes := 0\<rparr>"
  let ?e2 = "if 512 - bytes e1 < 13 then ?f else e1"
  let ?e' = "?e2\<lparr>bytes_after_last_accept := bytes ?e2, undumped_chars := 0\<rparr>"
  have b: "buffers_ok (ser e1)" "utf8_state e1 = 0" "etext e1 = etext e @ cs" "indent_string (ser e1) = indent_string (ser e)"
    using assms(2,4) by (simp_all add: appends_def)
  have "accept_codepoint False c e = (Inr (), ?e')"
    using assms(1) b(1) by (simp add: accept_codepoint_def sbind_def flush_full_def remember_accept_def buffers_ok_def)
  moreover have "loop_state [] ?e'" using b by (auto simp: loop_state_def buffers_ok_def)
  moreover have "etext ?e' = etext e @ cs" using b(3) by (simp add: etext_def)
  ultimately show ?thesis using b(4) by auto
qed

lemma incomplete_appends:
  assumes "buffers_ok (ser e)" "bytes e < 512"
  shows "\<exists>e'. incomplete False c e = (Inr (), e') \<and> appends [c] e e'"
proof -
  obtain e1 where "put c e = (Inr (), e1)" "appends [c] e e1" using put_appends [OF assms] by blast
  then show ?thesis by (auto simp: incomplete_def appends_def etext_def)
qed

text \<open>One byte: an accepted one is escaped, an expected one goes to the buffer, any other one is an error.\<close>

lemma escape_byte:
  assumes "loop_state rs e"
  shows "(\<exists>m e'. escape_loop Strict False i (c # cs) e = (Inl (type_error 316 m), e')) \<and> \<not> utf8_from rs (c # cs) \<or>
    (\<exists>rs' e'. escape_loop Strict False i (c # cs) e = escape_loop Strict False (i + 1) cs e' \<and> loop_state rs' e' \<and>
       utf8_from rs (c # cs) = utf8_from rs' cs \<and> etext e' = etext e @ escape_char c \<and> indent_string (ser e') = indent_string (ser e))"
proof -
  let ?b = "of_char c :: int"
  let ?e = "decode_byte c e"
  have d: "?e = e\<lparr>utf8_state := fst (utf8_decode (utf8_state e) (codepoint e) ?b), codepoint := snd (utf8_decode (utf8_state e) (codepoint e) ?b)\<rparr>"
    by (simp add: decode_byte_def split: prod.split)
  then have same: "buffers_ok (ser ?e) = buffers_ok (ser e)" "bytes ?e = bytes e" "etext ?e = etext e"
    "indent_string (ser ?e) = indent_string (ser e)"
    by (simp_all add: etext_def)
  have ok: "buffers_ok (ser e)" using assms by (auto simp: loop_state_def)
  have big: "escape_char c = [c]" if "0x80 \<le> ?b"
  proof -
    have "?b = int (of_char c)" by (simp only: of_nat_of_char)
    with that have "0x80 \<le> (of_char c :: nat)" by linarith
    then show ?thesis by (simp add: escape_char_def Let_def)
  qed
  have bad: "\<exists>m e'. escape_loop Strict False i (c # cs) e = (Inl (type_error 316 m), e')" if "utf8_state ?e = 1"
    using that by (subst escape_loop.simps, simp add: Let_def rejected_def, blast)
  have go: "\<exists>e'. escape_loop Strict False i (c # cs) e = escape_loop Strict False (i + 1) cs e' \<and> loop_state rs' e' \<and>
        etext e' = etext e @ [c] \<and> indent_string (ser e') = indent_string (ser e)"
    if "utf8_run (utf8_state ?e) rs' v" "codepoint ?e = word_of_int v" "bytes e + length rs' \<le> 502" for rs' v
  proof -
    note t = that
    have st: "utf8_state ?e \<noteq> 0" "utf8_state ?e \<noteq> 1" using that(1) by (auto simp: utf8_run_def)
    obtain e' where e': "incomplete False c ?e = (Inr (), e')" "appends [c] ?e e'"
      using incomplete_appends [of ?e c] ok same t(3) by auto
    then have "escape_loop Strict False i (c # cs) e = escape_loop Strict False (i + 1) cs e'"
      using st by (subst escape_loop.simps) (simp add: Let_def)
    moreover have "loop_state rs' e'" using e'(2) that same by (auto simp: loop_state_def appends_def)
    ultimately show ?thesis using e'(2) same by (intro exI [of _ e']) (simp add: appends_def)
  qed
  have acc: "\<exists>e'. escape_loop Strict False i (c # cs) e = escape_loop Strict False (i + 1) cs e' \<and> loop_state [] e' \<and>
        etext e' = etext e @ x \<and> indent_string (ser e') = indent_string (ser e)"
    if "put_codepoint False c ?e = (Inr (), e1)" "appends x ?e e1" "bytes e1 \<le> 512" "utf8_state ?e = 0" for x e1
    using accepted_appends [OF that] same that(4) by (subst escape_loop.simps) (auto simp: Let_def)
  from assms consider "rs = []" "utf8_state e = 0" "bytes e \<le> 499"
    | lo hi rs' v where "rs = (lo, hi) # rs'" "utf8_run (utf8_state e) rs v" "codepoint e = word_of_int v" "bytes e + length rs \<le> 503"
    by (auto simp: loop_state_def utf8_run_def)
  then show ?thesis
  proof cases
    case 1
    consider "utf8_lead ?b = None" | "utf8_lead ?b = Some []" | rs' where "utf8_lead ?b = Some rs'" "rs' \<noteq> []"
      by (cases "utf8_lead ?b") auto
    then show ?thesis
    proof cases
      case none: 1
      then have "utf8_state ?e = 1" using utf8_lead_run(1) [of ?b "codepoint e"] 1(2) by (simp add: d)
      with bad none 1(1) show ?thesis by auto
    next
      case ascii: 2
      have b: "?b < 0x80" using ascii by (auto simp: utf8_lead_def utf8_ranges_def split: if_splits)
      have e: "utf8_state ?e = 0" "codepoint ?e = word_of_int ?b"
        using utf8_lead_run(2) [OF _ _ ascii, of "codepoint e"] 1(2) by (simp_all add: d)
      obtain e1 where p: "put_codepoint False c ?e = (Inr (), e1)" "appends (escape_char c) ?e e1"
        using put_codepoint_ascii [OF _ _ e(2) b] ok same 1(3) by auto
      moreover have "length (escape_char c) \<le> 6" by (simp add: escape_char_def Let_def)
      then have "bytes e1 \<le> 512" using p(2) same 1(3) by (simp add: appends_def)
      ultimately obtain e' where "escape_loop Strict False i (c # cs) e = escape_loop Strict False (i + 1) cs e'" "loop_state [] e'"
          "etext e' = etext e @ escape_char c" "indent_string (ser e') = indent_string (ser e)"
        using acc e(1) by blast
      with ascii 1(1) show ?thesis by (intro disjI2 exI [of _ "[]"] exI [of _ e']) simp
    next
      case (3 rs')
      then obtain st v where r: "utf8_decode 0 (codepoint e) ?b = (st, word_of_int v)" "utf8_run st rs' v" "length rs' \<le> 3"
        using utf8_lead_run(3) [OF _ _ 3] by fastforce
      then obtain e' where "escape_loop Strict False i (c # cs) e = escape_loop Strict False (i + 1) cs e'" "loop_state rs' e'"
          "etext e' = etext e @ [c]" "indent_string (ser e') = indent_string (ser e)"
        using go [of rs' v] 1(2,3) by (auto simp: d)
      moreover have "0x80 \<le> ?b" using 3 by (auto simp: utf8_lead_def split: if_splits)
      ultimately show ?thesis using 3 1(1) big by (intro disjI2 exI [of _ rs'] exI [of _ e']) simp
    qed
  next
    case (2 lo hi rs' v)
    note step = utf8_run_step [OF 2(2) [unfolded 2(1)], of ?b, simplified]
    show ?thesis
    proof (cases "lo \<le> ?b \<and> ?b \<le> hi")
      case False
      then have "utf8_state ?e = 1" using step(2) 2(3) by (simp add: d)
      with bad False 2(1) show ?thesis by auto
    next
      case True
      let ?v = "v * 64 + (?b - 0x80)"
      have r: "lo \<ge> 0x80" using 2(1,2) by (auto simp: utf8_run_def)
      obtain st' where st': "utf8_decode (utf8_state e) (word_of_int v) ?b = (st', word_of_int ?v)"
          "if rs' = [] then st' = 0 \<and> 0x80 \<le> ?v \<and> ?v < 2 ^ 31 else utf8_run st' rs' ?v"
        using utf8_run_step(1) [OF 2(2) [unfolded 2(1)], of ?b] True by auto
      have "\<exists>e'. escape_loop Strict False i (c # cs) e = escape_loop Strict False (i + 1) cs e' \<and> loop_state rs' e' \<and>
          etext e' = etext e @ [c] \<and> indent_string (ser e') = indent_string (ser e)"
      proof (cases "rs' = []")
        case last: True
        then have e: "utf8_state ?e = 0" "codepoint ?e = word_of_int ?v" "0x80 \<le> ?v" "?v < 2 ^ 31"
          using st' 2(3) by (simp_all only: d) simp_all
        obtain e1 where p: "put_codepoint False c ?e = (Inr (), e1)" "appends [c] ?e e1"
          using put_codepoint_multibyte [OF _ _ e(2-4)] ok same 2(1,4) by auto
        moreover have "bytes e1 \<le> 512" using p(2) same 2(1,4) by (simp add: appends_def)
        ultimately show ?thesis using acc e(1) last by blast
      next
        case False
        then show ?thesis using go [of rs' ?v] st' 2(1,3,4) by (simp add: d)
      qed
      moreover have "escape_char c = [c]" using big True r by simp
      ultimately show ?thesis using True 2(1) by auto
    qed
  qed
qed

lemma type_error_with: "\<exists>m. type_error n x = type_error n m" by blast

lemma escape_loop_strict:
  "loop_state rs e \<Longrightarrow>
   if utf8_from rs str
   then \<exists>e'. escape_loop Strict False i str e = (Inr (), e') \<and> loop_state [] e' \<and> etext e' = etext e @ escaped str \<and>
     indent_string (ser e') = indent_string (ser e)
   else (\<exists>m e'. escape_loop Strict False i str e = (Inl (type_error 316 m), e')) \<or>
     (\<exists>e'. escape_loop Strict False i str e = (Inr (), e') \<and> utf8_state e' \<noteq> 0)"
proof (induction str arbitrary: rs e i)
  case Nil
  show ?case
  proof (cases rs)
    case (Cons r rs')
    then have "utf8_state e \<noteq> 0" using Nil by (auto simp: loop_state_def utf8_run_def)
    with Cons show ?thesis by (simp add: escape_loop.simps)
  qed (use Nil in \<open>auto simp: escaped_def escape_loop.simps\<close>)
next
  case (Cons c cs)
  from escape_byte [OF Cons.prems, of i c cs] show ?case
  proof (elim disjE exE conjE)
    fix rs' e'
    assume s: "escape_loop Strict False i (c # cs) e = escape_loop Strict False (i + 1) cs e'" "loop_state rs' e'"
      "utf8_from rs (c # cs) = utf8_from rs' cs" "etext e' = etext e @ escape_char c" "indent_string (ser e') = indent_string (ser e)"
    from Cons.IH [OF s(2), of "i + 1"] show ?thesis unfolding s(1,3) by (auto simp: s(4,5) escaped_def split: if_splits)
  next
    fix m e'
    assume "escape_loop Strict False i (c # cs) e = (Inl (type_error 316 m), e')" "\<not> utf8_from rs (c # cs)"
    then show ?thesis by auto
  qed
qed

lemma writes_escaped:
  assumes "utf8_ok str"
  shows "writes (dump_escaped Strict False str) (escaped str)"
proof (rule writesI)
  fix s
  assume s: "buffers_ok s"
  let ?e = "\<lparr>codepoint = 0, utf8_state = 0, bytes = 0, bytes_after_last_accept = 0, undumped_chars = 0, ser = s\<rparr>"
  have "loop_state [] ?e" using s by (simp add: loop_state_def)
  from escape_loop_strict [OF this, of str 0] assms obtain e' where
    e': "escape_loop Strict False 0 str ?e = (Inr (), e')" "loop_state [] e'" "etext e' = written s @ escaped str"
      "indent_string (ser e') = indent_string s"
    by (auto simp: etext_def)
  have "utf8_state e' = 0" "buffers_ok (ser e')" using e'(2) by (auto simp: loop_state_def utf8_run_def)
  then show "\<exists>s'. dump_escaped Strict False str s = (Inr (), s') \<and> buffers_ok s' \<and> written s' = written s @ escaped str \<and>
      indent_string s' = indent_string s"
    using e' by (auto simp: dump_escaped_def finish_escape_def etext_def buffers_ok_def)
qed


end
