(* ===== verification/Json_Reading.thy ===== *)
theory Json_Reading
  imports Json_Types Json_Text
begin

text \<open>
  The compact text of a value without floating-point numbers, given by a recursive function: the serializer
  writes it, and the scanner finds in it the tokens that it was made of.
\<close>

section \<open>The text of a value\<close>

fun join :: "string list \<Rightarrow> string" where
  "join [] = []"
| "join [t] = t"
| "join (t # ts) = t @ CHR '','' # join ts"

fun text_of :: "json \<Rightarrow> string" where
  "text_of J_null = ''null''"
| "text_of (J_obj es) = CHR ''{'' # join (map (\<lambda>e. quoted (escaped (fst e)) @ CHR '':'' # text_of (snd e)) es) @ ''}''"
| "text_of (J_arr js) = CHR ''['' # join (map text_of js) @ '']''"
| "text_of (J_str s) = quoted (escaped s)"
| "text_of (J_bool b) = (if b then ''true'' else ''false'')"
| "text_of (J_int x) = int_text (sint x)"
| "text_of (J_unsigned x) = to_string (unat x)"
| "text_of _ = []"

text \<open>The values in question: what the parser returns, without floating-point numbers and without a negative zero.\<close>

fun exact :: "json \<Rightarrow> bool" where
  "exact (J_obj es) = (keys_ok es \<and> (\<forall>e \<in> set es. utf8_ok (fst e) \<and> exact (snd e)))"
| "exact (J_arr js) = (\<forall>j \<in> set js. exact j)"
| "exact (J_str s) = utf8_ok s"
| "exact (J_int x) = (sint x < 0)"
| "exact (J_float x) = False"
| "exact (J_binary bs t) = False"
| "exact J_discarded = False"
| "exact J_null = True"
| "exact (J_bool b) = True"
| "exact (J_unsigned x) = True"

text \<open>The values that have a text: no floating-point numbers, binary or discarded values.\<close>

fun plain :: "json \<Rightarrow> bool" where
  "plain (J_obj es) = (\<forall>e \<in> set es. utf8_ok (fst e) \<and> plain (snd e))"
| "plain (J_arr js) = (\<forall>j \<in> set js. plain j)"
| "plain (J_str s) = utf8_ok s"
| "plain (J_int x) = True"
| "plain (J_float x) = False"
| "plain (J_binary bs t) = False"
| "plain J_discarded = False"
| "plain J_null = True"
| "plain (J_bool b) = True"
| "plain (J_unsigned x) = True"

lemma exact_plain: "exact j \<Longrightarrow> plain j"
  by (induction j rule: exact.induct) auto

definition compact :: "dump_options \<Rightarrow> bool" where
  "compact d \<longleftrightarrow> handler d = Strict \<and> \<not> pretty_print d \<and> \<not> ensure_ascii d"

lemma writes_eq: "writes m t \<Longrightarrow> t = u \<Longrightarrow> writes m u" by simp

lemma compact_plain: "compact d \<Longrightarrow> pretty_print d = False" by (simp add: compact_def)

lemma writes_string: "compact d \<Longrightarrow> utf8_ok s \<Longrightarrow> writes (dump_string d s) (quoted (escaped s))"
  by (simp only: dump_string_def quoted_def compact_def) (intro writes_then writes_characters writes_escaped)

lemma writes_key: "compact d \<Longrightarrow> utf8_ok k \<Longrightarrow> writes (dump_key d k) (quoted (escaped k) @ '':'')"
proof -
  assume a: "compact d" "utf8_ok k"
  then have "writes (dump_key d k) ([CHR 0x22] @ escaped k @ [CHR 0x22, CHR '':''])"
    by (simp only: dump_key_def compact_def if_False) (intro writes_then writes_characters writes_escaped)
  then show ?thesis by (simp add: quoted_def)
qed

lemma join_Cons: "join (t # ts) = t @ (if ts = [] then [] else CHR '','' # join ts)"
  by (cases ts) simp_all

lemma dump_writes_text:
  "compact d \<Longrightarrow> plain j \<Longrightarrow> writes (dump d n j) (text_of j)"
  "compact d \<Longrightarrow> \<forall>e \<in> set es. utf8_ok (fst e) \<and> plain (snd e) \<Longrightarrow>
     writes (dump_members d n es) (join (map (\<lambda>e. quoted (escaped (fst e)) @ CHR '':'' # text_of (snd e)) es))"
  "compact d \<Longrightarrow> \<forall>j \<in> set js. plain j \<Longrightarrow> writes (dump_elements d n js) (join (map text_of js))"
proof (induction d n j and d n es and d n js rule: dump_dump_members_dump_elements.induct)
  case (1 d n es)
  then have "writes (dump_members d (new_indent_of d n) es) (join (map (\<lambda>e. quoted (escaped (fst e)) @ CHR '':'' # text_of (snd e)) es))"
    if "es \<noteq> []"
    using that by simp
  then show ?case
    using 1(2) writes_then [OF writes_characters [of "''{''"] writes_then [OF _ writes_characters [of "''}''"]]]
    by (auto simp: open_bracket_def close_bracket_def compact_def)
next
  case (2 d n js)
  then have "writes (dump_elements d (new_indent_of d n) js) (join (map text_of js))" if "js \<noteq> []"
    using that by simp
  then show ?case
    using 2(2) writes_then [OF writes_characters [of "''[''"] writes_then [OF _ writes_characters [of "'']''"]]]
    by (auto simp: open_bracket_def close_bracket_def compact_def)
next
  case (12 d n e es)
  let ?k = "quoted (escaped (fst e)) @ '':''" and ?r = "join (map (\<lambda>e. quoted (escaped (fst e)) @ CHR '':'' # text_of (snd e)) es)"
  have k: "writes (dump_key d (fst e)) ?k" and v: "writes (dump d n (snd e)) (text_of (snd e))"
    using 12 by (auto intro: writes_key)
  have r: "writes (if es = [] then sret () else sthen (comma d) (dump_members d n es)) (if es = [] then [] else '','' @ ?r)"
    using 12 writes_then [OF writes_characters [of "'',''"], of "dump_members d n es" ?r] by (auto simp: comma_def compact_def)
  have "writes (dump_members d n (e # es)) ([] @ ?k @ text_of (snd e) @ (if es = [] then [] else '','' @ ?r))"
    using writes_then [OF writes_nothing writes_then [OF k writes_then [OF v r]]] compact_plain [OF 12(3)]
    by (simp only: dump_members.simps indent_line_def if_False)
  then show ?case by (rule writes_eq) (simp add: join_Cons)
next
  case (14 d n j js)
  have v: "writes (dump d n j) (text_of j)" using 14 by simp
  have r: "writes (if js = [] then sret () else sthen (comma d) (dump_elements d n js)) (if js = [] then [] else '','' @ join (map text_of js))"
    using 14 writes_then [OF writes_characters [of "'',''"], of "dump_elements d n js" "join (map text_of js)"] by (auto simp: comma_def compact_def)
  have "writes (dump_elements d n (j # js)) ([] @ text_of j @ (if js = [] then [] else '','' @ join (map text_of js)))"
    using writes_then [OF writes_nothing writes_then [OF v r]] compact_plain [OF 14(3)]
    by (simp only: dump_elements.simps indent_line_def if_False)
  then show ?case by (rule writes_eq) (simp add: join_Cons)
qed (simp_all add: writes_string writes_integer writes_unsigned)

lemma dump_text_plain: "plain j \<Longrightarrow> dump_text j = Inr (text_of j)"
proof -
  assume e: "plain j"
  let ?d = "\<lparr>handler = Strict, pretty_print = False, ensure_ascii = False, indent_step = 0\<rparr>" and ?s = "new_serializer (CHR '' '')"
  have "writes (dump ?d 0 j) (text_of j)" using e by (intro dump_writes_text(1)) (simp_all add: compact_def)
  moreover have "buffers_ok ?s" "written ?s = []" by (simp_all add: buffers_ok_def new_serializer_def)
  ultimately obtain s' where "dump ?d 0 j ?s = (Inr (), s')" "written s' = text_of j" unfolding writes_def by fastforce
  then show ?thesis by (simp add: dump_text_def dump_with_def)
qed

lemma dump_text_eq: "exact j \<Longrightarrow> dump_text j = Inr (text_of j)"
  by (simp add: exact_plain dump_text_plain)

section \<open>The scanner on such a text\<close>

text \<open>\<open>s\<close> is what the scanner will read.\<close>

definition reads :: "lexer \<Rightarrow> string \<Rightarrow> bool" where
  "reads l s \<longleftrightarrow> unread l = s \<and>
     (next_unget l \<longrightarrow> (if current l = eof then s = [] else 0 \<le> current l \<and> current l < 256))"

lemma reads_same [simp]:
  "reads (add c l) s = reads l s" "reads (add_codepoint cp l) s = reads l s"
  "reads (l\<lparr>value_unsigned := x\<rparr>) s = reads l s" "reads (l\<lparr>value_integer := x\<rparr>) s = reads l s"
  by (simp_all add: reads_def add_codepoint_def unread_def add_def)

lemma reads_reset: "next_unget l = False \<Longrightarrow> reads (reset l) s = reads l s"
  by (simp add: reads_def unread_def reset_def)

lemma of_char_not_eof [simp]: "(of_char c :: int) \<noteq> eof" "eof \<noteq> (of_char c :: int)"
  using of_char_range(1) [of c] by linarith+

lemma reads_get:
  assumes "reads l (c # cs)"
  shows "reads (get l) cs" "current (get l) = of_char c"
  using assms by (auto simp: reads_def unread_def get_def get_character_def Let_def split: list.splits if_splits)

lemma reads_get_end:
  assumes "reads l []"
  shows "reads (get l) []" "current (get l) = eof"
  using assms by (auto simp: reads_def unread_def get_def get_character_def Let_def split: list.splits if_splits)

lemma reads_unget: "reads l s \<Longrightarrow> reads (unget (get l)) s"
proof -
  have u: "input (unget m) = input m" "current (unget m) = current m" "next_unget (unget m)" for m
    by (auto simp: unget_def Let_def)
  assume r: "reads l s"
  show ?thesis
  proof (cases s)
    case Nil
    with reads_get_end [of l] r show ?thesis by (simp add: reads_def unread_def u)
  next
    case (Cons c cs)
    with reads_get [of l c cs] r show ?thesis by (simp add: reads_def unread_def u)
  qed
qed

text \<open>\<open>scan l\<close> is a token behind which \<open>s\<close> is left.\<close>

definition token :: "lexer \<Rightarrow> token_type \<Rightarrow> string \<Rightarrow> (lexer \<Rightarrow> bool) \<Rightarrow> bool" where
  "token l t s P \<longleftrightarrow> (case scan l of (t', l') \<Rightarrow> t' = t \<and> reads l' s \<and> P l')"

lemma skip_bom_plain:
  assumes "reads l s" "s \<noteq> [] \<Longrightarrow> hd s \<noteq> CHR 0xEF"
  shows "\<exists>l'. skip_bom l = (True, l') \<and> reads l' s"
proof -
  have "current (get l) \<noteq> 0xEF"
  proof (cases s)
    case Nil
    with reads_get_end [of l] assms(1) show ?thesis by simp
  next
    case (Cons c cs)
    then have "of_char c \<noteq> (0xEF :: int)" using assms(2) of_char_eq_iff [of c "CHR 0xEF"] by fastforce
    with Cons reads_get(2) [of l c cs] assms(1) show ?thesis by simp
  qed
  with reads_unget [OF assms(1)] show ?thesis by (simp add: skip_bom_def Let_def)
qed

lemma scan_plain:
  assumes "reads l s" "s \<noteq> [] \<Longrightarrow> hd s \<notin> {CHR 0xEF, CHR ''/'', CHR '' '', CHR 0x09, CHR 0x0A, CHR 0x0D}"
  shows "\<exists>l'. scan l = scan_token (get l') \<and> reads l' s"
proof -
  obtain l' where l': "(if chars_read_total l = 0 then skip_bom l else (True, l)) = (True, l')" "reads l' s"
    using skip_bom_plain [OF assms(1)] assms by (cases "chars_read_total l = 0") auto
  have c: "current (get l') \<notin> {0x2F, 0x20, 9, 10, 13}"
  proof (cases s)
    case Nil
    with reads_get_end [of l'] l'(2) show ?thesis by simp
  next
    case (Cons c cs)
    have "of_char c \<noteq> (of_char d :: int)" if "c \<noteq> d" for d using that by (simp add: of_char_eq_iff)
    from this [of "CHR ''/''"] this [of "CHR '' ''"] this [of "CHR 0x09"] this [of "CHR 0x0A"] this [of "CHR 0x0D"]
    show ?thesis using Cons assms(2) reads_get(2) [of l' c cs] l'(2) by simp
  qed
  then have "skip_whitespace l' = get l'" by (subst skip_whitespace.simps) (simp add: is_ws_def Let_def)
  moreover have "skip_comments (get l') = (True, get l')" using c by (subst skip_comments.simps) simp
  ultimately show ?thesis using l' by (intro exI [of _ l']) (simp add: scan_def)
qed

lemma token_punctuation:
  "reads l (CHR ''['' # s) \<Longrightarrow> token l Begin_array s (\<lambda>_. True)"
  "reads l (CHR '']'' # s) \<Longrightarrow> token l End_array s (\<lambda>_. True)"
  "reads l (CHR ''{'' # s) \<Longrightarrow> token l Begin_object s (\<lambda>_. True)"
  "reads l (CHR ''}'' # s) \<Longrightarrow> token l End_object s (\<lambda>_. True)"
  "reads l (CHR '':'' # s) \<Longrightarrow> token l Name_separator s (\<lambda>_. True)"
  "reads l (CHR '','' # s) \<Longrightarrow> token l Value_separator s (\<lambda>_. True)"
  by (frule scan_plain, simp, fastforce simp: token_def scan_token_def dest: reads_get)+

lemma token_end: "reads l [] \<Longrightarrow> token l End_of_input [] (\<lambda>_. True)"
  by (frule scan_plain, simp, fastforce simp: token_def scan_token_def is_digit_code_def dest: reads_get_end)

lemma scan_literal_text:
  "reads l (cs @ s) \<Longrightarrow> \<exists>l'. scan_literal_loop cs t l = (t, l') \<and> reads l' s"
proof (induction cs arbitrary: l)
  case (Cons c cs)
  from Cons.IH [of "get l"] Cons.prems reads_get [of l c "cs @ s"] show ?case by (simp add: Let_def)
qed auto

lemma token_literals:
  "reads l (''true'' @ s) \<Longrightarrow> token l Literal_true s (\<lambda>_. True)"
  "reads l (''false'' @ s) \<Longrightarrow> token l Literal_false s (\<lambda>_. True)"
  "reads l (''null'' @ s) \<Longrightarrow> token l Literal_null s (\<lambda>_. True)"
proof -
  have "token l t s (\<lambda>_. True)"
    if "reads l (c # cs @ s)" "c \<notin> {CHR 0xEF, CHR ''/'', CHR '' '', CHR 0x09, CHR 0x0A, CHR 0x0D}"
      "\<And>l'. current l' = of_char c \<Longrightarrow> scan_token l' = scan_literal (c # cs) t l'" for c cs t
  proof -
    note a = that
    obtain l' where l': "scan l = scan_token (get l')" "reads l' (c # cs @ s)"
      using scan_plain [OF a(1)] a(2) by auto
    obtain l2 where "scan_literal_loop cs t (get l') = (t, l2)" "reads l2 s"
      using scan_literal_text [OF reads_get(1) [OF l'(2)]] by blast
    with l' a(3) [OF reads_get(2) [OF l'(2)]] show ?thesis by (simp add: token_def scan_literal_def)
  qed
  from this [of "CHR ''t''" "''rue''" Literal_true] this [of "CHR ''f''" "''alse''" Literal_false] this [of "CHR ''n''" "''ull''" Literal_null]
  show "reads l (''true'' @ s) \<Longrightarrow> token l Literal_true s (\<lambda>_. True)"
    "reads l (''false'' @ s) \<Longrightarrow> token l Literal_false s (\<lambda>_. True)"
    "reads l (''null'' @ s) \<Longrightarrow> token l Literal_null s (\<lambda>_. True)"
    by (simp_all add: scan_token_def)
qed

text \<open>Numbers: the digits are collected up to a character that ends them.\<close>

definition ends_number :: "string \<Rightarrow> bool" where
  "ends_number s \<longleftrightarrow> s = [] \<or> hd s \<in> {CHR '','', CHR '']'', CHR ''}''}"

lemma number_ends:
  assumes "reads l s" "ends_number s" "st = N_zero \<or> st = N_any1"
  shows "number_switch st (current (get l)) = Done"
proof (cases s)
  case Nil
  with assms reads_get_end(2) [of l] show ?thesis
    by (auto simp: number_switch_def scan_number_zero_def scan_number_any1_def is_digit_code_def)
next
  case (Cons c cs)
  then have "c \<in> {CHR '','', CHR '']'', CHR ''}''}" using assms(2) by (simp add: ends_number_def)
  moreover have "current (get l) = of_char c" using reads_get(2) assms(1) Cons by blast
  ultimately show ?thesis using assms(3)
    by (auto simp: number_switch_def scan_number_zero_def scan_number_any1_def is_digit_code_def)
qed

lemma is_digit_code: "is_digit c \<longleftrightarrow> is_digit_code (of_char c)"
proof -
  have "(of_char c :: int) = int (of_char c)" by (simp only: of_nat_of_char)
  then show ?thesis unfolding is_digit_def is_digit_code_def by linarith
qed

lemma scan_number_digits:
  assumes "reads l (ds @ s)" "list_all is_digit ds" "ends_number s" "st = N_any1 \<or> st = N_zero \<and> ds = []"
    "ty = Value_unsigned \<or> ty = Value_integer"
  shows "\<exists>l'. scan_number_from st ty l = scan_number_done ty (get l') \<and> reads l' s \<and> token_buffer l' = token_buffer l @ ds"
  using assms
proof (induction ds arbitrary: l st)
  case Nil
  then have "number_switch st (current (get l)) = Done" using number_ends [of l s st] by auto
  then have "scan_number_from st ty l = scan_number_done ty (get l)"
    using Nil(4,5) by (subst scan_number_from.simps) (auto simp: Let_def number_type_at_def)
  with Nil show ?case by auto
next
  case (Cons c ds)
  then have st: "st = N_any1" by simp
  have g: "reads (get l) (ds @ s)" "current (get l) = of_char c" using reads_get [of l c "ds @ s"] Cons.prems(1) by simp_all
  have "number_switch st (current (get l)) = Next N_any1"
    using Cons.prems(2) g(2) by (simp add: st number_switch_def scan_number_any1_def is_digit_code)
  then have "scan_number_from st ty l = scan_number_from N_any1 ty (add (of_char c) (get l))"
    using Cons.prems(5) g(2) by (subst scan_number_from.simps) (auto simp: Let_def number_type_at_def st)
  moreover obtain l' where "scan_number_from N_any1 ty (add (of_char c) (get l)) = scan_number_done ty (get l')" "reads l' s"
      "token_buffer l' = (token_buffer l @ [c]) @ ds"
    using Cons.IH [of "add (of_char c) (get l)" N_any1] Cons.prems g by auto
  ultimately show ?case by auto
qed

lemma digit_char_code: "d < 10 \<Longrightarrow> (of_char (digit_char d) :: int) = 48 + int d"
proof -
  assume "d < 10"
  moreover have "(of_char (digit_char d) :: int) = int (of_char (digit_char d))" by (simp only: of_nat_of_char)
  ultimately show ?thesis by (simp only: of_char_digit_char of_nat_add of_nat_numeral)
qed

lemma to_string_first: "0 < n \<Longrightarrow> \<exists>c cs. to_string n = c # cs \<and> 49 \<le> (of_char c :: int) \<and> of_char c \<le> (57 :: int)"
proof (induction n rule: to_string.induct)
  case (1 n)
  show ?case
  proof (cases "n < 10")
    case True
    with 1(2) digit_char_code [OF True] show ?thesis by (subst to_string.simps) simp
  next
    case False
    then have "0 < n div 10" by (simp add: div_greater_zero_iff)
    with 1(1) [OF False] False show ?thesis by (subst to_string.simps) auto
  qed
qed

text \<open>The digits of a number behind the first one, with the state that the first one leads to.\<close>

abbreviation first_state :: "char \<Rightarrow> number_state" where
  "first_state c \<equiv> (if (of_char c :: int) = 48 then N_zero else N_any1)"

lemma scan_number_text:
  assumes "ends_number s" "ty = Value_unsigned \<or> ty = Value_integer"
  obtains c cs where "to_string n = c # cs" "(of_char c :: int) = 48 \<or> 49 \<le> (of_char c :: int) \<and> of_char c \<le> (57 :: int)"
    and "\<And>m. reads m (cs @ s) \<Longrightarrow> \<exists>l'. scan_number_from (first_state c) ty m = scan_number_done ty (get l') \<and>
        reads l' s \<and> token_buffer l' = token_buffer m @ cs"
proof -
  obtain c cs where t: "to_string n = c # cs"
      "(of_char c :: int) = 48 \<and> cs = [] \<or> 49 \<le> (of_char c :: int) \<and> of_char c \<le> (57 :: int)"
  proof (cases "n = 0")
    case True
    then have "to_string n = [digit_char 0]" by (simp add: to_string.simps [of 0])
    with digit_char_code [of 0] that show ?thesis by simp
  qed (use to_string_first [of n] that in auto)
  have "list_all is_digit cs" using to_string_digits [of n] t(1) by simp
  then have "\<exists>l'. scan_number_from (first_state c) ty m = scan_number_done ty (get l') \<and>
      reads l' s \<and> token_buffer l' = token_buffer m @ cs" if "reads m (cs @ s)" for m
    using scan_number_digits [OF that _ assms(1) _ assms(2), of "first_state c"] t(2) by auto
  with t show thesis by (intro that [of c cs]) auto
qed

lemma read_number_int_text: "read_number (int_text i) = Some i"
proof (cases "i < 0")
  case True
  let ?n = "nat (- i)"
  have "takeWhile is_digit (to_string ?n) = to_string ?n"
    using to_string_digits [of ?n] by (simp add: takeWhile_eq_all_conv list_all_iff)
  then have "read_number (int_text i) = Some (- digits_value (to_string ?n))"
    using True by (simp only: int_text_def read_number_minus if_True to_string_nonempty if_False)
  with True show ?thesis by (simp add: digits_value_to_string)
qed (simp add: int_text_def read_number_to_string)

lemma reads_done: "reads l s \<Longrightarrow> reads ((unget (get l))\<lparr>value_unsigned := x\<rparr>) s"
  "reads l s \<Longrightarrow> reads ((unget (get l))\<lparr>value_integer := x\<rparr>) s"
  by (simp_all add: reads_unget)

lemma reads_reset_get [simp]: "reads (reset (get l)) s = reads (get l) s"
  by (simp add: reads_reset)

lemma buffer_reset [simp]: "token_buffer (reset l) = []" "token_buffer (add c l) = token_buffer l @ [char_of c]"
  by (simp_all add: reset_def add_def)

lemma token_unsigned:
  assumes "reads l (to_string (unat x) @ s)" "ends_number s"
  shows "token l Value_unsigned s (\<lambda>l'. value_unsigned l' = x)"
proof -
  obtain c cs where c: "to_string (unat x) = c # cs" "(of_char c :: int) = 48 \<or> 49 \<le> (of_char c :: int) \<and> of_char c \<le> (57 :: int)"
    and run: "\<And>m. reads m (cs @ s) \<Longrightarrow> \<exists>l'. scan_number_from (first_state c) Value_unsigned m = scan_number_done Value_unsigned (get l') \<and>
        reads l' s \<and> token_buffer l' = token_buffer m @ cs"
    by (rule scan_number_text [OF assms(2), of Value_unsigned]) auto
  obtain l1 where l1: "scan l = scan_token (get l1)" "reads l1 (c # cs @ s)"
    using scan_plain [OF assms(1)] c by fastforce
  note g = reads_get [OF l1(2)]
  obtain l2 where l2: "scan_number_from (first_state c) Value_unsigned (add (of_char c) (reset (get l1))) = scan_number_done Value_unsigned (get l2)"
      "reads l2 s" "token_buffer l2 = to_string (unat x)"
    using run [of "add (of_char c) (reset (get l1))"] g(1) c(1) by auto
  have "scan l = scan_number_done Value_unsigned (get l2)"
    using c(2) l2(1) l1(1) g(2) by (auto simp: scan_token_def is_digit_code_def scan_number_def Let_def)
  moreover have "strtoull (to_string (unat x)) = (x, False)"
    using uint_lt2p [of x] by (simp add: strtoull_def read_number_to_string clamped_def)
  ultimately show ?thesis using l2(2,3) by (simp add: token_def scan_number_done_def Let_def reads_unget)
qed

lemma char_of_minus: "char_of (0x2D :: int) = CHR ''-''" by code_simp

lemma token_integer:
  assumes "reads l (int_text (sint x) @ s)" "sint x < 0" "ends_number s"
  shows "token l Value_integer s (\<lambda>l'. value_integer l' = x)"
proof -
  let ?n = "nat (- sint x)"
  obtain c cs where c: "to_string ?n = c # cs" "(of_char c :: int) = 48 \<or> 49 \<le> (of_char c :: int) \<and> of_char c \<le> (57 :: int)"
    and run: "\<And>m. reads m (cs @ s) \<Longrightarrow> \<exists>l'. scan_number_from (first_state c) Value_integer m = scan_number_done Value_integer (get l') \<and>
        reads l' s \<and> token_buffer l' = token_buffer m @ cs"
    by (rule scan_number_text [OF assms(3), of Value_integer]) auto
  have it: "int_text (sint x) = CHR ''-'' # c # cs" using assms(2) c(1) by (simp add: int_text_def)
  obtain l1 where l1: "scan l = scan_token (get l1)" "reads l1 (CHR ''-'' # c # cs @ s)"
    using scan_plain [OF assms(1)] it by fastforce
  note g = reads_get [OF l1(2)]
  let ?m = "add 0x2D (reset (get l1))"
  have g2: "reads (get ?m) (cs @ s)" "current (get ?m) = of_char c"
    using g(1) reads_get [of ?m c "cs @ s"] by simp_all
  obtain l2 where l2: "scan_number_from (first_state c) Value_integer (add (of_char c) (get ?m)) = scan_number_done Value_integer (get l2)"
      "reads l2 s" "token_buffer l2 = int_text (sint x)"
    using run [of "add (of_char c) (get ?m)"] g2(1) by (auto simp: it char_of_minus)
  have "scan l = scan_number (get l1)" using l1(1) g(2) by (simp add: scan_token_def)
  also have "\<dots> = scan_number_from N_minus Value_unsigned ?m" using g(2) by (simp add: scan_number_def Let_def)
  also have "\<dots> = scan_number_done Value_integer (get l2)"
    using c(2) l2(1) g2(2) by (subst scan_number_from.simps) (auto simp: number_switch_def scan_number_minus_def number_type_at_def Let_def)
  finally have "scan l = scan_number_done Value_integer (get l2)" .
  moreover have "- (2 ^ 63) \<le> sint x" using sint_ge [of x] by simp
  then have "strtoll (int_text (sint x)) = (x, False)"
    using assms(2) by (simp add: strtoll_def read_number_int_text clamped_def)
  ultimately show ?thesis using l2(2,3) by (simp add: token_def scan_number_done_def Let_def reads_unget)
qed

text \<open>Strings: one character is read from its escaped text, or one sequence of bytes from itself.\<close>

lemma escape_char_big: "0x80 \<le> (of_char c :: int) \<Longrightarrow> escape_char c = [c]"
proof -
  assume "0x80 \<le> (of_char c :: int)"
  then have "0x80 \<le> int (of_char c)" by (simp only: of_nat_of_char)
  then show ?thesis by (simp add: escape_char_def Let_def)
qed

lemma next_bytes_text:
  assumes "reads l (escaped s @ t)" "utf8_from rs s" "\<forall>r \<in> set rs. 0x80 \<le> fst r"
  shows "\<exists>s' l'. next_bytes rs l = (Value_string, l') \<and> reads l' (escaped s' @ t) \<and> utf8_ok s' \<and> length s' \<le> length s \<and>
    token_buffer l' @ s' = token_buffer l @ s"
  using assms
proof (induction rs arbitrary: l s)
  case Nil
  then show ?case by auto
next
  case (Cons r rs)
  obtain lo hi where r: "r = (lo, hi)" by fastforce
  from Cons.prems(2) obtain c s' where s: "s = c # s'" "lo \<le> of_char c" "of_char c \<le> hi" "utf8_from rs s'"
    unfolding r by (cases s) auto
  have "escape_char c = [c]" using s(2) Cons.prems(3) r by (intro escape_char_big) auto
  then have g: "reads (get l) (escaped s' @ t)" "current (get l) = of_char c"
    using reads_get [of l c "escaped s' @ t"] Cons.prems(1) s(1) by (simp_all add: escaped_def)
  obtain s'' l' where "next_bytes rs (add (of_char c) (get l)) = (Value_string, l')" "reads l' (escaped s'' @ t)" "utf8_ok s''"
      "length s'' \<le> length s'" "token_buffer l' @ s'' = token_buffer l @ [c] @ s'"
    using Cons.IH [of "add (of_char c) (get l)" s'] g(1) s(4) Cons.prems(3) by auto
  then show ?case using g(2) s(1-3) by (auto simp: r Let_def)
qed

text \<open>The shapes of an escaped character.\<close>

definition escape_shape :: "char \<Rightarrow> string \<Rightarrow> bool" where
  "escape_shape c e \<longleftrightarrow>
     (case e of
        [b] \<Rightarrow> b = c \<and> 0x20 \<le> (of_char c :: int) \<and> c \<noteq> CHR 0x22 \<and> c \<noteq> CHR 0x5C
      | [b, d] \<Rightarrow> b = CHR 0x5C \<and> simple_escape (of_char d) = Some (of_char c)
      | [b, u, h3, h2, h1, h0] \<Rightarrow> b = CHR 0x5C \<and> u = CHR ''u'' \<and> hex_digit (of_char h3) = Some 0 \<and> hex_digit (of_char h2) = Some 0 \<and>
          (case (hex_digit (of_char h1), hex_digit (of_char h0)) of
             (Some x, Some y) \<Rightarrow> x * 16 + y = of_char c \<and> (of_char c :: int) < 0x20 | _ \<Rightarrow> False)
      | _ \<Rightarrow> False)"

lemma escape_char_shape: "escape_shape c (escape_char c)"
proof -
  let ?n = "of_char c :: nat"
  have n: "(of_char c :: int) = int ?n" by (simp only: of_nat_of_char)
  have "list_all (\<lambda>c. escape_shape c (escape_char c)) (map char_of ([0..31] @ [0x22, 0x5C] :: int list))" by code_simp
  then have low: "\<And>i :: int. i \<in> {0..31} \<union> {0x22, 0x5C} \<Longrightarrow> escape_shape (char_of i) (escape_char (char_of i))"
    unfolding list_all_iff set_map set_append set_upto list.set by blast
  show ?thesis
  proof (cases "(of_char c :: int) \<in> {0..31} \<union> {0x22, 0x5C}")
    case True
    from low [OF this] show ?thesis by simp
  next
    case False
    then have "0x20 \<le> ?n" "?n \<noteq> 0x22" "?n \<noteq> 0x5C" unfolding n by auto
    then have "escape_char c = [c]" by (simp add: escape_char_def Let_def)
    moreover have "c \<noteq> CHR 0x22" "c \<noteq> CHR 0x5C" using \<open>?n \<noteq> 0x22\<close> \<open>?n \<noteq> 0x5C\<close> by auto
    ultimately show ?thesis using \<open>0x20 \<le> ?n\<close> unfolding escape_shape_def n by simp
  qed
qed

lemma get_codepoint_text:
  assumes "reads l (h3 # h2 # h1 # h0 # t)" "hex_digit (of_char h3) = Some 0" "hex_digit (of_char h2) = Some 0"
    "hex_digit (of_char h1) = Some x" "hex_digit (of_char h0) = Some y"
  shows "\<exists>l'. get_codepoint l = (x * 16 + y, l') \<and> reads l' t \<and> token_buffer l' = token_buffer l"
proof -
  note g = reads_get [OF assms(1)]
  note g2 = reads_get [OF g(1)]
  note g3 = reads_get [OF g2(1)]
  note g4 = reads_get [OF g3(1)]
  show ?thesis
    using assms(2-5) g(2) g2(2) g3(2) g4 by (simp add: get_codepoint_def Let_def push_bit_eq_mult)
qed

text \<open>A character of the text that is not the first byte of a longer sequence.\<close>

lemma scan_ascii_text:
  assumes "escape_shape c e" "reads l (e @ t)" "utf8_lead (of_char c) = Some []"
  shows "\<exists>l1 l'. get l = l1 \<and> current l1 \<noteq> eof \<and> current l1 \<noteq> 0x22 \<and>
    (if current l1 = 0x5C then scan_escape l1 else scan_other l1) = (Value_string, l') \<and> reads l' t \<and>
    token_buffer l' = token_buffer l @ [c]"
proof -
  from assms(1) consider "e = [c]" "0x20 \<le> (of_char c :: int)" "c \<noteq> CHR 0x22" "c \<noteq> CHR 0x5C"
    | d where "e = [CHR 0x5C, d]" "simple_escape (of_char d) = Some (of_char c)"
    | h3 h2 h1 h0 x y where "e = [CHR 0x5C, CHR ''u'', h3, h2, h1, h0]" "hex_digit (of_char h3) = Some 0"
      "hex_digit (of_char h2) = Some 0" "hex_digit (of_char h1) = Some x" "hex_digit (of_char h0) = Some y"
      "x * 16 + y = of_char c" "(of_char c :: int) < 0x20"
    by (auto simp: escape_shape_def split: list.splits option.splits)
  then show ?thesis
  proof cases
    case 1
    with assms(2) have g: "reads (get l) t" "current (get l) = of_char c" using reads_get [of l c t] by simp_all
    have "of_char c \<noteq> (0x22 :: int)" "of_char c \<noteq> (0x5C :: int)"
      using 1(3,4) of_char_eq_iff [of c "CHR 0x22"] of_char_eq_iff [of c "CHR 0x5C"] by auto
    moreover have "utf8_ranges (of_char c) = Some []" using assms(3) 1(2) by (auto simp: utf8_lead_def utf8_ranges_def split: if_splits)
    ultimately show ?thesis using g 1(2) by (simp add: scan_other_def)
  next
    case 2
    with assms(2) have g: "reads (get l) (d # t)" "current (get l) = 0x5C" using reads_get [of l "CHR 0x5C" "d # t"] by simp_all
    with reads_get [OF g(1)] 2(2) show ?thesis by (simp add: scan_escape_def Let_def)
  next
    case 3
    let ?u = "CHR ''u'' # h3 # h2 # h1 # h0 # t"
    have g: "reads (get l) ?u" "current (get l) = 0x5C" using reads_get [of l "CHR 0x5C" ?u] assms(2) 3(1) by simp_all
    note g2 = reads_get [OF g(1)]
    obtain l' where l': "get_codepoint (get (get l)) = (of_char c, l')" "reads l' t" "token_buffer l' = token_buffer l"
      using get_codepoint_text [OF g2(1) 3(2-5)] 3(6) by auto
    have "scan_escape (get l) = scan_unicode (get (get l))" using g2(2) by (simp add: scan_escape_def simple_escape_def Let_def)
    also have "\<dots> = (Value_string, add (of_char c) l')" using l'(1) 3(7) by (simp add: scan_unicode_def add_codepoint_def)
    finally show ?thesis using g(2) l'(2,3) by simp
  qed
qed

lemma scan_string_text:
  assumes "reads l (escaped s @ CHR 0x22 # t)" "utf8_ok s"
  shows "\<exists>l'. scan_string_loop l = (Value_string, l') \<and> reads l' t \<and> token_buffer l' = token_buffer l @ s"
  using assms
proof (induction "length s" arbitrary: s l rule: less_induct)
  case less
  show ?case
  proof (cases s)
    case Nil
    with less(2) reads_get [of l "CHR 0x22" t] show ?thesis
      by (subst scan_string_loop.simps) (simp add: Let_def escaped_def)
  next
    case (Cons c cs)
    from less(3) obtain rs where rs: "utf8_lead (of_char c) = Some rs" "utf8_from rs cs" unfolding Cons by (auto split: option.splits)
    let ?x = "if current (get l) = 0x5C then scan_escape (get l) else scan_other (get l)"
    have "\<exists>s' l2. current (get l) \<noteq> eof \<and> current (get l) \<noteq> 0x22 \<and> ?x = (Value_string, l2) \<and>
        reads l2 (escaped s' @ CHR 0x22 # t) \<and> utf8_ok s' \<and> length s' < length s \<and> token_buffer l2 @ s' = token_buffer l @ s"
    proof (cases "rs = []")
      case True
      with scan_ascii_text [OF escape_char_shape [of c], of l "escaped cs @ CHR 0x22 # t"] less(2) rs Cons show ?thesis
        by (auto simp: escaped_def)
    next
      case False
      then have big: "0x80 \<le> (of_char c :: int)" "utf8_ranges (of_char c) = Some rs"
        using rs(1) by (auto simp: utf8_lead_def split: if_splits)
      have r80: "\<forall>r \<in> set rs. 0x80 \<le> fst r" using big(2) by (auto simp: utf8_ranges_def split: if_splits)
      have g: "reads (get l) (escaped cs @ CHR 0x22 # t)" "current (get l) = of_char c"
        using reads_get [of l c] less(2) Cons escape_char_big [OF big(1)] by (simp_all add: escaped_def)
      obtain s' l' where n: "next_bytes rs (add (of_char c) (get l)) = (Value_string, l')" "reads l' (escaped s' @ CHR 0x22 # t)"
          "utf8_ok s'" "length s' \<le> length cs" "token_buffer l' @ s' = token_buffer l @ c # cs"
        using next_bytes_text [of "add (of_char c) (get l)" cs "CHR 0x22 # t" rs] g(1) rs(2) r80 by auto
      have "scan_other (get l) = (Value_string, l')"
        using g(2) big False n(1) by (auto simp: scan_other_def next_byte_in_range_def split: list.splits)
      then show ?thesis using n g(2) big(1) Cons by (intro exI [of _ s'] exI [of _ l']) simp
    qed
    then obtain s' l2 where x: "current (get l) \<noteq> eof" "current (get l) \<noteq> 0x22" "?x = (Value_string, l2)"
        "reads l2 (escaped s' @ CHR 0x22 # t)" "utf8_ok s'" "length s' < length s" "token_buffer l2 @ s' = token_buffer l @ s"
      by blast
    have "scan_string_loop l = scan_string_loop l2"
      using x(1-3) by (subst scan_string_loop.simps) (simp only: Let_def if_False split simp_thms if_True)
    with less(1) [OF x(6,4,5)] x(7) show ?thesis by (metis append_assoc)
  qed
qed

lemma token_string_text:
  assumes "reads l (quoted (escaped s) @ t)" "utf8_ok s"
  shows "token l Value_string t (\<lambda>l'. token_buffer l' = s)"
proof -
  obtain l1 where l1: "scan l = scan_token (get l1)" "reads l1 (CHR 0x22 # escaped s @ CHR 0x22 # t)"
    using scan_plain [OF assms(1)] by (auto simp: quoted_def)
  note g = reads_get [OF l1(2)]
  obtain l' where "scan_string_loop (reset (get l1)) = (Value_string, l')" "reads l' t" "token_buffer l' = s"
    using scan_string_text [of "reset (get l1)" s t] g(1) assms(2) by auto
  with l1(1) g(2) show ?thesis by (simp add: token_def scan_token_def scan_string_def)
qed

end
