(* ===== verification/Json_Roundtrip.thy ===== *)
theory Json_Roundtrip
  imports Json_Reading
begin

text \<open>
  Writing and reading belong together: the text that the serializer writes for a value is parsed back to that
  value. The parser is followed through the text, one value at a time; a lens stands for the place in the
  unfinished value where the next one is put.
\<close>

section \<open>The place of a value\<close>

definition lens :: "path \<Rightarrow> (json \<Rightarrow> json) \<Rightarrow> bool" where
  "lens r F \<longleftrightarrow> (\<forall>t s. json_at (r @ s) (F t) = json_at s t) \<and> (\<forall>t s f. json_update (r @ s) f (F t) = F (json_update s f t))"

lemma lensD:
  assumes "lens r F"
  shows "json_at r (F t) = Some t" "json_update r f (F t) = F (f t)" "json_update (r @ s) f (F t) = F (json_update s f t)"
proof -
  show "json_at r (F t) = Some t" using assms [unfolded lens_def, THEN conjunct1, rule_format, of "[]" t] by simp
  show "json_update r f (F t) = F (f t)" using assms [unfolded lens_def, THEN conjunct2, rule_format, of "[]" f t] by simp
  show "json_update (r @ s) f (F t) = F (json_update s f t)" using assms by (simp add: lens_def)
qed

lemma map_of_last: "\<forall>e \<in> set es. fst e < (k :: 'k :: linorder) \<Longrightarrow> map_of (es @ [(k, v)]) k = Some v"
  by (induction es) auto

lemma lens_element: "lens r F \<Longrightarrow> lens (r @ [Elem (length ds)]) (\<lambda>v. F (J_arr (ds @ [v])))"
  by (simp add: lens_def)

lemma lens_member: "lens r F \<Longrightarrow> \<forall>e \<in> set es. fst e < k \<Longrightarrow> lens (r @ [Member k]) (\<lambda>v. F (J_obj (es @ [(k, v)])))"
  unfolding lens_def by (simp add: map_of_last map_assign_last del: map_of_append)

text \<open>The next value goes to the place \<open>r\<close>; the parser then carries on with \<open>F v\<close>.\<close>

definition slot :: "parser \<Rightarrow> path \<Rightarrow> (json \<Rightarrow> json) \<Rightarrow> bool" where
  "slot p r F \<longleftrightarrow> lens r F \<and> (\<forall>v. handle_value v p = (Inr r, p\<lparr>root := F v\<rparr>))"

lemma slot_element:
  "lens r F \<Longrightarrow> root p = F (J_arr ds) \<Longrightarrow> ref_stack p = r # rs \<Longrightarrow> slot p (r @ [Elem (length ds)]) (\<lambda>v. F (J_arr (ds @ [v])))"
  by (simp add: slot_def lens_element handle_value_def lensD)

lemma slot_member:
  "lens r F \<Longrightarrow> \<forall>e \<in> set es. fst e < k \<Longrightarrow> root p = F (J_obj (es @ [(k, J_null)])) \<Longrightarrow> ref_stack p = r # rs \<Longrightarrow>
   object_element p = Some (r @ [Member k]) \<Longrightarrow> slot p (r @ [Member k]) (\<lambda>v. F (J_obj (es @ [(k, v)])))"
  by (simp add: slot_def lens_member handle_value_def lensD map_of_last map_assign_last del: map_of_append)

section \<open>States of the loop\<close>

text \<open>Before a value, whose first token has been read, and behind one.\<close>

definition awaits :: "string \<Rightarrow> json \<Rightarrow> path list \<Rightarrow> bool list \<Rightarrow> bool \<Rightarrow> parser \<Rightarrow> bool" where
  "awaits s v rs sts e p \<longleftrightarrow> (\<exists>l. reads l s \<and> scan l = (last_token p, m_lexer p)) \<and> \<not> skip_to_state_evaluation p \<and>
     root p = v \<and> ref_stack p = rs \<and> states p = sts \<and> errored p = e"

definition stands :: "string \<Rightarrow> json \<Rightarrow> path list \<Rightarrow> bool list \<Rightarrow> bool \<Rightarrow> parser \<Rightarrow> bool" where
  "stands s v rs sts e p \<longleftrightarrow> reads (m_lexer p) s \<and> \<not> skip_to_state_evaluation p \<and>
     root p = v \<and> ref_stack p = rs \<and> states p = sts \<and> errored p = e"

text \<open>The loop from the evaluation of the state on.\<close>

definition finish :: "parser \<Rightarrow> (bool cxx \<times> parser) option" where
  "finish p =
     (case evaluate_state p of
        (Inl e, p') \<Rightarrow> Some (Inl e, p')
      | (Inr (Returned b), p') \<Rightarrow> Some (Inr b, p')
      | (Inr _, p') \<Rightarrow> sax_parse_internal p')"

lemma run_value:
  "\<not> skip_to_state_evaluation p \<Longrightarrow> parse_value p = (Inr Value_done, q) \<Longrightarrow> sax_parse_internal p = finish q"
  by (subst sax_parse_internal.simps) (simp add: sax_step_def sbind_def finish_def)

lemma run_next:
  "\<not> skip_to_state_evaluation p \<Longrightarrow> parse_value p = (Inr Next_value, q) \<Longrightarrow> sax_parse_internal p = sax_parse_internal q"
  by (subst sax_parse_internal.simps) (simp add: sax_step_def sbind_def)

lemma run_skip: "skip_to_state_evaluation p \<Longrightarrow> sax_parse_internal p = finish (p\<lparr>skip_to_state_evaluation := False\<rparr>)"
  by (subst sax_parse_internal.simps) (simp add: sax_step_def finish_def)

lemma finish_next: "evaluate_state p = (Inr Next_value, q) \<Longrightarrow> finish p = sax_parse_internal q"
  by (simp add: finish_def)

lemma sbind_value: "m p = (Inr x, q) \<Longrightarrow> sbind m f p = f x q"
  by (simp add: sbind_def)

lemma get_token_text:
  "token (m_lexer p) t s P \<Longrightarrow> \<exists>l'. get_token p = (Inr t, p\<lparr>m_lexer := l', last_token := t\<rparr>) \<and>
     scan (m_lexer p) = (t, l') \<and> reads l' s \<and> P l'"
  by (auto simp: token_def get_token_def split: prod.splits)

text \<open>The first token of a value does not end a container.\<close>

definition starts_value :: "string \<Rightarrow> bool" where
  "starts_value s \<longleftrightarrow> (\<forall>l. reads l s \<longrightarrow> fst (scan l) \<noteq> End_array)"

lemma value_token:
  assumes "exact j" "ends_number s" "reads l (text_of j @ s)"
  shows "\<exists>t u P. token l t u P \<and> t \<noteq> End_array"
proof (cases j)
  case (J_obj es)
  with assms(3) token_punctuation(3) [of l] show ?thesis by fastforce
next
  case (J_arr js)
  with assms(3) token_punctuation(1) [of l] show ?thesis by fastforce
next
  case (J_str x)
  with assms token_string_text [of l x s] show ?thesis by fastforce
next
  case (J_bool b)
  with assms token_literals(1,2) [of l s] show ?thesis by (cases b) fastforce+
next
  case (J_int x)
  with assms token_integer [of l x s] show ?thesis by fastforce
next
  case (J_unsigned x)
  with assms token_unsigned [of l x s] show ?thesis by fastforce
next
  case J_null
  with assms token_literals(3) [of l s] show ?thesis by fastforce
qed (use assms(1) in simp_all)

lemma value_starts: "exact j \<Longrightarrow> ends_number s \<Longrightarrow> starts_value (text_of j @ s)"
  unfolding starts_value_def
proof (intro allI impI)
  fix l
  assume "exact j" "ends_number s" "reads l (text_of j @ s)"
  from value_token [OF this] show "fst (scan l) \<noteq> End_array" by (cases "scan l") (auto simp: token_def)
qed

section \<open>Behind a value\<close>

lemma continue_array_comma:
  assumes "stands (CHR '','' # u) v rs (True # sts) e p" "starts_value u"
  shows "\<exists>q. finish p = sax_parse_internal q \<and> awaits u v rs (True # sts) e q"
proof -
  have "token (m_lexer p) Value_separator u (\<lambda>_. True)" using assms(1) by (simp add: stands_def token_punctuation)
  then obtain l1 where g1: "get_token p = (Inr Value_separator, p\<lparr>m_lexer := l1, last_token := Value_separator\<rparr>)" "reads l1 u"
    by (auto dest: get_token_text)
  obtain t l2 where s2: "scan l1 = (t, l2)" by fastforce
  let ?q = "p\<lparr>m_lexer := l2, last_token := t\<rparr>"
  have "t \<noteq> End_array" using assms(2) g1(2) s2 by (auto simp: starts_value_def)
  then have "evaluate_state p = (Inr Next_value, ?q)"
    using assms(1) g1(1) s2 by (simp add: evaluate_state_def stands_def continue_array_def sbind_value [where m = get_token, OF g1(1)] get_token_def [of "_\<lparr>last_token := _\<rparr>"] sbind_def)
  moreover have "awaits u v rs (True # sts) e ?q" using assms(1) g1(2) s2 by (auto simp: awaits_def stands_def)
  ultimately show ?thesis using finish_next by blast
qed

lemma continue_array_end:
  assumes "stands (CHR '']'' # u) (F (J_arr js)) (r # rs) (True # sts) e p" "lens r F"
  shows "\<exists>q. finish p = finish q \<and> stands u (F (J_arr js)) rs sts e q"
proof -
  have "token (m_lexer p) End_array u (\<lambda>_. True)" using assms(1) by (simp add: stands_def token_punctuation)
  then obtain l1 where g1: "get_token p = (Inr End_array, p\<lparr>m_lexer := l1, last_token := End_array\<rparr>)" "reads l1 u"
    by (auto dest: get_token_text)
  let ?q = "p\<lparr>m_lexer := l1, last_token := End_array, ref_stack := rs, states := sts, skip_to_state_evaluation := True\<rparr>"
  have "evaluate_state p = (Inr Next_value, ?q)"
    using assms(1) lensD(1) [OF assms(2)] by (simp add: evaluate_state_def stands_def continue_array_def g1(1) close_array_def end_array_def sbind_def)
  then have "finish p = finish (?q\<lparr>skip_to_state_evaluation := False\<rparr>)" by (simp add: finish_next run_skip)
  moreover have "stands u (F (J_arr js)) rs sts e (?q\<lparr>skip_to_state_evaluation := False\<rparr>)" using assms(1) g1(2) by (simp add: stands_def)
  ultimately show ?thesis by blast
qed

lemma continue_object_end:
  assumes "stands (CHR ''}'' # u) (F (J_obj es)) (r # rs) (False # sts) e p" "lens r F"
  shows "\<exists>q. finish p = finish q \<and> stands u (F (J_obj es)) rs sts e q"
proof -
  have "token (m_lexer p) End_object u (\<lambda>_. True)" using assms(1) by (simp add: stands_def token_punctuation)
  then obtain l1 where g1: "get_token p = (Inr End_object, p\<lparr>m_lexer := l1, last_token := End_object\<rparr>)" "reads l1 u"
    by (auto dest: get_token_text)
  let ?q = "p\<lparr>m_lexer := l1, last_token := End_object, ref_stack := rs, states := sts, skip_to_state_evaluation := True\<rparr>"
  have "evaluate_state p = (Inr Next_value, ?q)"
    using assms(1) lensD(1) [OF assms(2)] by (simp add: evaluate_state_def stands_def continue_object_def g1(1) close_object_def end_object_def sbind_def)
  then have "finish p = finish (?q\<lparr>skip_to_state_evaluation := False\<rparr>)" by (simp add: finish_next run_skip)
  moreover have "stands u (F (J_obj es)) rs sts e (?q\<lparr>skip_to_state_evaluation := False\<rparr>)" using assms(1) g1(2) by (simp add: stands_def)
  ultimately show ?thesis by blast
qed

text \<open>The key of a member: it gets a null value, which the value that follows replaces.\<close>

lemma parse_key_text:
  assumes "last_token p = Value_string" "reads (m_lexer p) (CHR '':'' # u)" "root p = F (J_obj es)" "ref_stack p = r # rs"
    "lens r F" "\<forall>e \<in> set es. fst e < token_buffer (m_lexer p)"
  shows "\<exists>l. parse_key rest p = rest (p\<lparr>root := F (J_obj (es @ [(token_buffer (m_lexer p), J_null)])),
      object_element := Some (r @ [Member (token_buffer (m_lexer p))]), m_lexer := l, last_token := Name_separator\<rparr>) \<and> reads l u"
proof -
  let ?k = "token_buffer (m_lexer p)"
  let ?p = "p\<lparr>root := F (J_obj (es @ [(?k, J_null)])), object_element := Some (r @ [Member ?k])\<rparr>"
  have "sax_key ?k p = (Inr (), ?p)" using assms(3-6) by (simp add: sax_key_def lensD map_emplace_last)
  moreover have "token (m_lexer ?p) Name_separator u (\<lambda>_. True)" using assms(2) by (simp add: token_punctuation)
  from get_token_text [OF this] obtain l where
    "get_token ?p = (Inr Name_separator, ?p\<lparr>m_lexer := l, last_token := Name_separator\<rparr>)" "reads l u" by blast
  ultimately show ?thesis using assms(1) by (intro exI [of _ l]) (simp add: parse_key_def sbind_def)
qed

lemma continue_object_comma:
  assumes "stands (CHR '','' # quoted (escaped k) @ CHR '':'' # u) (F (J_obj es)) (r # rs) (False # sts) e p" "lens r F"
    "\<forall>e \<in> set es. fst e < k" "utf8_ok k"
  shows "\<exists>q. finish p = sax_parse_internal q \<and> awaits u (F (J_obj (es @ [(k, J_null)]))) (r # rs) (False # sts) e q \<and>
    object_element q = Some (r @ [Member k])"
proof -
  have "token (m_lexer p) Value_separator (quoted (escaped k) @ CHR '':'' # u) (\<lambda>_. True)"
    using assms(1) by (simp add: stands_def token_punctuation)
  then obtain l1 where g1: "get_token p = (Inr Value_separator, p\<lparr>m_lexer := l1, last_token := Value_separator\<rparr>)"
      "reads l1 (quoted (escaped k) @ CHR '':'' # u)"
    by (auto dest: get_token_text)
  obtain l2 where s2: "scan l1 = (Value_string, l2)" "reads l2 (CHR '':'' # u)" "token_buffer l2 = k"
    using token_string_text [OF g1(2) assms(4)] by (auto simp: token_def split: prod.splits)
  let ?p2 = "p\<lparr>m_lexer := l2, last_token := Value_string\<rparr>"
  have g2: "get_token (p\<lparr>m_lexer := l1, last_token := Value_separator\<rparr>) = (Inr Value_string, ?p2)"
    using s2(1) by (simp add: get_token_def)
  have "\<exists>l. parse_key (sthen get_token (sret Next_value)) ?p2 = sthen get_token (sret Next_value) (?p2\<lparr>root := F (J_obj (es @ [(k, J_null)])),
      object_element := Some (r @ [Member k]), m_lexer := l, last_token := Name_separator\<rparr>) \<and> reads l u"
    using parse_key_text [of ?p2 u F es r rs] assms s2(2,3) by (simp add: stands_def)
  then obtain l3 where l3: "parse_key (sthen get_token (sret Next_value)) ?p2 = sthen get_token (sret Next_value) (?p2\<lparr>root := F (J_obj (es @ [(k, J_null)])),
      object_element := Some (r @ [Member k]), m_lexer := l3, last_token := Name_separator\<rparr>)" "reads l3 u"
    by blast
  obtain t l4 where s4: "scan l3 = (t, l4)" by fastforce
  let ?q = "p\<lparr>root := F (J_obj (es @ [(k, J_null)])), object_element := Some (r @ [Member k]), m_lexer := l4, last_token := t\<rparr>"
  have "evaluate_state p = (Inr Next_value, ?q)"
    using assms(1) g1(1) g2 l3(1) s4 by (simp add: evaluate_state_def stands_def continue_object_def sbind_def get_token_def [of "p\<lparr>root := _, object_element := _, m_lexer := _, last_token := _\<rparr>"])
  moreover have "awaits u (F (J_obj (es @ [(k, J_null)]))) (r # rs) (False # sts) e ?q"
    using assms(1) l3(2) s4 by (auto simp: awaits_def stands_def)
  ultimately show ?thesis using finish_next by (intro exI [of _ ?q]) simp
qed

section \<open>Values\<close>

definition value_run :: "json \<Rightarrow> bool" where
  "value_run j \<longleftrightarrow> (\<forall>s v rs sts e p r F. awaits (text_of j @ s) v rs sts e p \<longrightarrow> ends_number s \<longrightarrow> slot p r F \<longrightarrow>
     (\<exists>q. sax_parse_internal p = finish q \<and> stands s (F j) rs sts e q))"

lemma value_runD:
  "value_run j \<Longrightarrow> awaits (text_of j @ s) v rs sts e p \<Longrightarrow> ends_number s \<Longrightarrow> slot p r F \<Longrightarrow>
   \<exists>q. sax_parse_internal p = finish q \<and> stands s (F j) rs sts e q"
  unfolding value_run_def by blast

lemma awaits_token:
  assumes "awaits u v rs sts e p" "\<And>l. reads l u \<Longrightarrow> token l t s P"
  shows "last_token p = t" "reads (m_lexer p) s" "P (m_lexer p)"
proof -
  obtain l where l: "reads l u" "scan l = (last_token p, m_lexer p)" using assms(1) by (auto simp: awaits_def)
  from assms(2) [OF l(1)] l(2) show "last_token p = t" "reads (m_lexer p) s" "P (m_lexer p)" by (simp_all add: token_def)
qed

lemma scalar_run:
  assumes "awaits (text_of j @ s) v rs sts e p" "slot p r F" "\<And>l. reads l (text_of j @ s) \<Longrightarrow> token l t s P"
    and "\<And>p. last_token p = t \<Longrightarrow> P (m_lexer p) \<Longrightarrow> parse_value p = sthen (sax_value j) (sret Value_done) p"
  shows "\<exists>q. sax_parse_internal p = finish q \<and> stands s (F j) rs sts e q"
proof -
  note t = awaits_token [OF assms(1,3)]
  have "parse_value p = (Inr Value_done, p\<lparr>root := F j\<rparr>)"
    using assms(4) [OF t(1,3)] assms(2) by (simp add: sax_value_def slot_def sbind_def)
  with assms(1) run_value have "sax_parse_internal p = finish (p\<lparr>root := F j\<rparr>)" by (simp add: awaits_def)
  moreover have "stands s (F j) rs sts e (p\<lparr>root := F j\<rparr>)" using assms(1) t(2) by (simp add: awaits_def stands_def)
  ultimately show ?thesis by blast
qed

lemma ends_number_simps [simp]:
  "ends_number (CHR '','' # s)" "ends_number (CHR '']'' # s)" "ends_number (CHR ''}'' # s)" "ends_number []"
  by (simp_all add: ends_number_def)

lemma elements_run:
  assumes "\<forall>j \<in> set js. value_run j \<and> exact j" "js \<noteq> []" "lens r F"
    "awaits (join (map text_of js) @ CHR '']'' # s) (F (J_arr ds)) (r # rs) (True # sts) e p"
  shows "\<exists>q. sax_parse_internal p = finish q \<and> stands s (F (J_arr (ds @ js))) rs sts e q"
  using assms
proof (induction js arbitrary: ds p)
  case (Cons j js)
  let ?s = "if js = [] then CHR '']'' # s else CHR '','' # join (map text_of js) @ CHR '']'' # s"
  have a: "awaits (text_of j @ ?s) (F (J_arr ds)) (r # rs) (True # sts) e p"
    using Cons.prems(4) by (simp add: join_Cons split: if_splits)
  have "slot p (r @ [Elem (length ds)]) (\<lambda>v. F (J_arr (ds @ [v])))"
    using a Cons.prems(3) by (intro slot_element) (simp_all add: awaits_def)
  moreover have "ends_number ?s" by simp
  ultimately obtain q where q: "sax_parse_internal p = finish q"
      "stands ?s (F (J_arr (ds @ [j]))) (r # rs) (True # sts) e q"
    using value_runD [OF _ a] Cons.prems(1) by force
  show ?case
  proof (cases "js = []")
    case True
    with continue_array_end [OF _ Cons.prems(3)] q show ?thesis by fastforce
  next
    case False
    then obtain j' js' where js: "js = j' # js'" by (cases js) simp_all
    have "starts_value (join (map text_of js) @ CHR '']'' # s)"
      using value_starts [of j' "(if js' = [] then [] else CHR '','' # join (map text_of js')) @ CHR '']'' # s"] Cons.prems(1)
      by (simp add: js join_Cons split: if_splits)
    then obtain p' where "finish q = sax_parse_internal p'"
        "awaits (join (map text_of js) @ CHR '']'' # s) (F (J_arr (ds @ [j]))) (r # rs) (True # sts) e p'"
      using continue_array_comma q(2) False by fastforce
    with Cons.IH [of "ds @ [j]" p'] Cons.prems(1,3) False q(1) show ?thesis by simp
  qed
qed simp

lemma array_run:
  assumes "\<forall>j \<in> set js. value_run j \<and> exact j"
  shows "value_run (J_arr js)"
  unfolding value_run_def
proof (intro allI impI)
  fix s v rs sts e p r F
  assume a: "awaits (text_of (J_arr js) @ s) v rs sts e p" "ends_number s" "slot p r F"
  let ?u = "join (map text_of js) @ CHR '']'' # s"
  have t: "last_token p = Begin_array" "reads (m_lexer p) ?u"
    using awaits_token [of _ v rs sts e p Begin_array ?u "\<lambda>_. True"] a(1) token_punctuation(1) by simp_all
  let ?p = "p\<lparr>root := F (J_arr []), ref_stack := r # rs\<rparr>"
  have st: "start_array p = (Inr (), ?p)"
    using a by (simp add: start_array_def sax_start_def slot_def sbind_def awaits_def)
  have l: "lens r F" using a(3) by (simp add: slot_def)
  show "\<exists>q. sax_parse_internal p = finish q \<and> stands s (F (J_arr js)) rs sts e q"
  proof (cases "js = []")
    case True
    then have "token (m_lexer ?p) End_array s (\<lambda>_. True)" using t(2) by (simp add: token_punctuation)
    from get_token_text [OF this] obtain l1 where
      l1: "get_token ?p = (Inr End_array, ?p\<lparr>m_lexer := l1, last_token := End_array\<rparr>)" "reads l1 s" by blast
    let ?q = "p\<lparr>root := F (J_arr []), m_lexer := l1, last_token := End_array, ref_stack := rs\<rparr>"
    have "parse_value p = (Inr Value_done, ?q)"
      using t(1) st l1(1) lensD(1) [OF l] by (simp add: parse_value_def parse_array_def sbind_def end_array_def)
    with a(1) run_value have "sax_parse_internal p = finish ?q" by (simp add: awaits_def)
    moreover have "stands s (F (J_arr js)) rs sts e ?q" using a(1) l1(2) True by (simp add: awaits_def stands_def)
    ultimately show ?thesis by blast
  next
    case False
    then obtain j js' where js: "js = j # js'" by (cases js) simp_all
    obtain t1 l1 where l1: "scan (m_lexer p) = (t1, l1)" by fastforce
    have "starts_value ?u"
      using value_starts [of j "(if js' = [] then [] else CHR '','' # join (map text_of js')) @ CHR '']'' # s"] assms
      by (simp add: js join_Cons split: if_splits)
    then have "t1 \<noteq> End_array" using t(2) l1 by (auto simp: starts_value_def)
    let ?q = "p\<lparr>root := F (J_arr []), ref_stack := r # rs, m_lexer := l1, last_token := t1, states := True # sts\<rparr>"
    have "parse_value p = (Inr Next_value, ?q)"
      using t(1) st l1 \<open>t1 \<noteq> End_array\<close> a(1) by (simp add: parse_value_def parse_array_def sbind_def get_token_def awaits_def)
    with a(1) run_next have "sax_parse_internal p = sax_parse_internal ?q" by (simp add: awaits_def)
    moreover have "awaits ?u (F (J_arr [])) (r # rs) (True # sts) e ?q" using a(1) l1 t(2) by (auto simp: awaits_def)
    ultimately show ?thesis using elements_run [OF assms False l, of s "[]" rs sts e ?q] by simp
  qed
qed

abbreviation member_text :: "string \<times> json \<Rightarrow> string" where
  "member_text e \<equiv> quoted (escaped (fst e)) @ CHR '':'' # text_of (snd e)"

text \<open>The members from the value of the key \<open>k\<close> on.\<close>

lemma members_run:
  assumes "\<forall>e \<in> set ((k, j) # es). value_run (snd e) \<and> utf8_ok (fst e)" "lens r F" "keys_ok (ds @ (k, j) # es)"
    "awaits (text_of j @ (if es = [] then [] else CHR '','' # join (map member_text es)) @ CHR ''}'' # s)
       (F (J_obj (ds @ [(k, J_null)]))) (r # rs) (False # sts) e p"
    "object_element p = Some (r @ [Member k])"
  shows "\<exists>q. sax_parse_internal p = finish q \<and> stands s (F (J_obj (ds @ (k, j) # es))) rs sts e q"
  using assms
proof (induction es arbitrary: ds p k j)
  case Nil
  have less: "\<forall>e \<in> set ds. fst e < k" using Nil.prems(3) by (auto simp: keys_ok_def sorted_append order_less_le rev_image_eqI)
  have "slot p (r @ [Member k]) (\<lambda>v. F (J_obj (ds @ [(k, v)])))"
    using Nil.prems(4,5) by (intro slot_member [OF Nil.prems(2) less]) (simp_all add: awaits_def)
  moreover have "awaits (text_of j @ CHR ''}'' # s) (F (J_obj (ds @ [(k, J_null)]))) (r # rs) (False # sts) e p"
    using Nil.prems(4) by simp
  ultimately obtain q where "sax_parse_internal p = finish q" "stands (CHR ''}'' # s) (F (J_obj (ds @ [(k, j)]))) (r # rs) (False # sts) e q"
    using value_runD [of j "CHR ''}'' # s"] Nil.prems(1) by fastforce
  with continue_object_end [OF _ Nil.prems(2)] show ?case by fastforce
next
  case (Cons e' es)
  obtain k' j' where e': "e' = (k', j')" by fastforce
  have keys: "sorted (map fst (ds @ [(k, j)]) @ k' # map fst es)" "distinct (map fst (ds @ [(k, j)]) @ k' # map fst es)"
    using Cons.prems(3) by (simp_all add: keys_ok_def e')
  then have less: "\<forall>e \<in> set ds. fst e < k" "\<forall>e \<in> set (ds @ [(k, j)]). fst e < k'"
    by (auto simp: sorted_append order_less_le rev_image_eqI)
  let ?s = "text_of j' @ (if es = [] then [] else CHR '','' # join (map member_text es)) @ CHR ''}'' # s"
  let ?t = "CHR '','' # quoted (escaped k') @ CHR '':'' # ?s"
  have "slot p (r @ [Member k]) (\<lambda>v. F (J_obj (ds @ [(k, v)])))"
    using Cons.prems(4,5) by (intro slot_member [OF Cons.prems(2) less(1)]) (simp_all add: awaits_def)
  moreover have "awaits (text_of j @ ?t) (F (J_obj (ds @ [(k, J_null)]))) (r # rs) (False # sts) e p"
    using Cons.prems(4) by (simp add: join_Cons e')
  moreover have "ends_number ?t" by simp
  ultimately obtain q where q: "sax_parse_internal p = finish q" "stands ?t (F (J_obj (ds @ [(k, j)]))) (r # rs) (False # sts) e q"
    using value_runD [of j ?t] Cons.prems(1) by force
  have u: "utf8_ok k'" using Cons.prems(1) e' by simp
  obtain p' where p': "finish q = sax_parse_internal p'" "awaits ?s (F (J_obj ((ds @ [(k, j)]) @ [(k', J_null)]))) (r # rs) (False # sts) e p'"
      "object_element p' = Some (r @ [Member k'])"
    using continue_object_comma [OF q(2) Cons.prems(2) less(2) u] by blast
  have "keys_ok ((ds @ [(k, j)]) @ (k', j') # es)" using Cons.prems(3) by (simp add: e')
  from Cons.IH [OF _ Cons.prems(2) this p'(2,3)] Cons.prems(1) p'(1) q(1) show ?case by (simp add: e')
qed

lemma object_run:
  assumes "\<forall>e \<in> set es. value_run (snd e) \<and> utf8_ok (fst e)" "keys_ok es"
  shows "value_run (J_obj es)"
  unfolding value_run_def
proof (intro allI impI)
  fix s v rs sts e p r F
  assume a: "awaits (text_of (J_obj es) @ s) v rs sts e p" "ends_number s" "slot p r F"
  let ?u = "join (map member_text es) @ CHR ''}'' # s"
  have t: "last_token p = Begin_object" "reads (m_lexer p) ?u"
    using awaits_token [of _ v rs sts e p Begin_object ?u "\<lambda>_. True"] a(1) token_punctuation(3) by simp_all
  let ?p = "p\<lparr>root := F (J_obj []), ref_stack := r # rs\<rparr>"
  have st: "start_object p = (Inr (), ?p)"
    using a by (simp add: start_object_def sax_start_def slot_def sbind_def awaits_def)
  have l: "lens r F" using a(3) by (simp add: slot_def)
  show "\<exists>q. sax_parse_internal p = finish q \<and> stands s (F (J_obj es)) rs sts e q"
  proof (cases es)
    case Nil
    then have "token (m_lexer ?p) End_object s (\<lambda>_. True)" using t(2) by (simp add: token_punctuation)
    from get_token_text [OF this] obtain l1 where
      l1: "get_token ?p = (Inr End_object, ?p\<lparr>m_lexer := l1, last_token := End_object\<rparr>)" "reads l1 s" by blast
    let ?q = "p\<lparr>root := F (J_obj []), m_lexer := l1, last_token := End_object, ref_stack := rs\<rparr>"
    have "parse_value p = (Inr Value_done, ?q)"
      using t(1) st l1(1) lensD(1) [OF l] by (simp add: parse_value_def parse_object_def sbind_def end_object_def)
    with a(1) run_value have "sax_parse_internal p = finish ?q" by (simp add: awaits_def)
    moreover have "stands s (F (J_obj es)) rs sts e ?q" using a(1) l1(2) Nil by (simp add: awaits_def stands_def)
    ultimately show ?thesis by blast
  next
    case (Cons e' es')
    obtain k j where e': "e' = (k, j)" by fastforce
    let ?s = "text_of j @ (if es' = [] then [] else CHR '','' # join (map member_text es')) @ CHR ''}'' # s"
    have k: "utf8_ok k" using assms(1) Cons e' by simp
    have "reads (m_lexer p) (quoted (escaped k) @ CHR '':'' # ?s)" using t(2) by (simp add: Cons e' join_Cons)
    from token_string_text [OF this k] obtain l1 where
      l1: "scan (m_lexer p) = (Value_string, l1)" "reads l1 (CHR '':'' # ?s)" "token_buffer l1 = k"
      by (auto simp: token_def split: prod.splits)
    let ?p1 = "p\<lparr>root := F (J_obj []), ref_stack := r # rs, m_lexer := l1, last_token := Value_string\<rparr>"
    define rest where "rest = sthen (smodify (\<lambda>p. p\<lparr>states := False # states p\<rparr>)) (sthen get_token (sret Next_value))"
    have "\<exists>l. parse_key rest ?p1 = rest (?p1\<lparr>root := F (J_obj ([] @ [(token_buffer (m_lexer ?p1), J_null)])),
        object_element := Some (r @ [Member (token_buffer (m_lexer ?p1))]), m_lexer := l, last_token := Name_separator\<rparr>) \<and> reads l ?s"
      using l1 by (intro parse_key_text [OF _ _ _ _ l]) simp_all
    then obtain l2 where l2: "parse_key rest ?p1 = rest (p\<lparr>ref_stack := r # rs, root := F (J_obj [(k, J_null)]),
        object_element := Some (r @ [Member k]), m_lexer := l2, last_token := Name_separator\<rparr>)" "reads l2 ?s"
      using l1(3) by auto
    obtain t3 l3 where l3: "scan l2 = (t3, l3)" by fastforce
    let ?q = "p\<lparr>ref_stack := r # rs, root := F (J_obj [(k, J_null)]), object_element := Some (r @ [Member k]), states := False # sts,
      m_lexer := l3, last_token := t3\<rparr>"
    have "get_token ?p = (Inr Value_string, ?p1)" using l1(1) by (simp add: get_token_def)
    then have "parse_value p = parse_key rest ?p1"
      using t(1) st by (simp add: parse_value_def parse_object_def rest_def sbind_def)
    also have "\<dots> = (Inr Next_value, ?q)"
      using l3 a(1) unfolding l2(1) by (simp add: rest_def sbind_def get_token_def awaits_def)
    finally have "sax_parse_internal p = sax_parse_internal ?q" using a(1) run_next by (simp add: awaits_def)
    moreover have "awaits ?s (F (J_obj ([] @ [(k, J_null)]))) (r # rs) (False # sts) e ?q" using a(1) l3 l2(2) by (auto simp: awaits_def)
    ultimately show ?thesis
      using members_run [of k j es' r F "[]" s rs sts e ?q] assms l by (simp add: Cons e')
  qed
qed

lemma exact_run: "exact j \<Longrightarrow> value_run j"
proof (induction j rule: exact.induct)
  case (1 es)
  then show ?case by (intro object_run) auto
next
  case (2 js)
  then show ?case by (intro array_run) auto
next
  case (3 x)
  have "parse_value p = sthen (sax_value (J_str x)) (sret Value_done) p" if "last_token p = Value_string" "token_buffer (m_lexer p) = x" for p
    using that by (simp add: parse_value_def)
  with 3 show ?case unfolding value_run_def
    by (intro allI impI scalar_run [where t = Value_string and P = "\<lambda>l. token_buffer l = x"]) (simp_all add: token_string_text)
next
  case (4 x)
  have "parse_value p = sthen (sax_value (J_int x)) (sret Value_done) p" if "last_token p = Value_integer" "value_integer (m_lexer p) = x" for p
    using that by (simp add: parse_value_def)
  with 4 show ?case unfolding value_run_def
    by (intro allI impI scalar_run [where t = Value_integer and P = "\<lambda>l. value_integer l = x"]) (simp_all add: token_integer)
next
  case 8
  then show ?case unfolding value_run_def
    by (intro allI impI scalar_run [where t = Literal_null and P = "\<lambda>_. True"]) (simp_all add: token_literals parse_value_def)
next
  case (9 b)
  then show ?case unfolding value_run_def
    by (intro allI impI scalar_run [where t = "if b then Literal_true else Literal_false" and P = "\<lambda>_. True"])
      (auto simp: token_literals parse_value_def)
next
  case (10 x)
  have "parse_value p = sthen (sax_value (J_unsigned x)) (sret Value_done) p" if "last_token p = Value_unsigned" "value_unsigned (m_lexer p) = x" for p
    using that by (simp add: parse_value_def)
  then show ?case unfolding value_run_def
    by (intro allI impI scalar_run [where t = Value_unsigned and P = "\<lambda>l. value_unsigned l = x"]) (simp_all add: token_unsigned)
qed simp_all

section \<open>The round trip\<close>

lemma parse_text_of:
  assumes "exact j"
  shows "parse_with exceptions comments trailing (text_of j) = Some (Inr j)"
proof -
  let ?p = "new_parser exceptions comments trailing (text_of j)"
  have r: "reads (new_lexer (text_of j) comments) (text_of j)" by (simp add: reads_def unread_def new_lexer_def)
  then have "awaits (text_of j @ []) J_null [] [] False ?p"
    by (auto simp: awaits_def new_parser_def get_token_def split: prod.split)
  moreover from this have "slot ?p [] (\<lambda>v. v)" by (simp add: slot_def lens_def handle_value_root awaits_def)
  ultimately obtain q where q: "sax_parse_internal ?p = finish q" "stands [] j [] [] False q"
    using value_runD [OF exact_run [OF assms]] by fastforce
  then have "sax_parse_internal ?p = Some (Inr True, q)" by (simp add: finish_def evaluate_state_def stands_def)
  moreover have "token (m_lexer q) End_of_input [] (\<lambda>_. True)" using q(2) by (simp add: stands_def token_end)
  from get_token_text [OF this] obtain l where "get_token q = (Inr End_of_input, q\<lparr>m_lexer := l, last_token := End_of_input\<rparr>)" by blast
  then have "parse_end q = (Inr (), q\<lparr>m_lexer := l, last_token := End_of_input\<rparr>)" by (simp add: parse_end_def sbind_def)
  ultimately show ?thesis using q(2) by (simp add: parse_with_def stands_def)
qed

text \<open>C37: what \<open>dump\<close> writes, \<open>parse\<close> reads back, with every setting of the parser: every value without
  floating-point numbers whose strings and keys are well-formed UTF-8 and whose signed integers are negative has
  a compact text, and the parser makes the same value of it, whatever its depth and the characters that have to
  be escaped.\<close>

theorem json_text_roundtrip:
  assumes "exact j"
  shows "case dump_text j of Inl e \<Rightarrow> False | Inr t \<Rightarrow> parse_with exceptions comments trailing t = Some (Inr j)"
  using dump_text_eq [OF assms] parse_text_of [OF assms] by simp

definition sample_value :: json where
  "sample_value =
     J_obj [(''a'', J_arr [J_int (- 7), J_unsigned 120, J_bool True, J_null, J_arr [], J_obj []]),
       (''b'', J_str [CHR 0x22, CHR 0x0A, CHR 0x01, CHR 0xC3, CHR 0xA4])]"

theorem json_text_roundtrip_witness:
  "case dump_text sample_value of Inl e \<Rightarrow> False | Inr t \<Rightarrow> parse_with True False False t = Some (Inr sample_value)"
proof (rule json_text_roundtrip)
  show "exact sample_value" by code_simp
qed

end
