(* ===== verification/Base64.thy ===== *)
theory Base64
  imports Prelude
begin

text \<open>
  \<open>base64Encoding\<close>, \<open>base64Decoding\<close> and \<open>base64_reverse\<close> of src/Rpc/net_base.cc, the text
  encoding of the keys and values sent to etcd. Binary data are \<^typ>\<open>bytes\<close>, the encoded text
  a \<^typ>\<open>string\<close>. The capacity reservations and the diagnostic printed on an unknown character
  have no effect on the result and are left out.
\<close>

section \<open>Definitions\<close>

definition base64_charset_table :: string where
  "base64_charset_table =
     ''ABCDEFGHIJKLMNOPQRSTUVWXYZabcdefghijklmnopqrstuvwxyz0123456789+/''"

text \<open>\<open>char\<close> is signed on the platforms the code targets.\<close>

definition schar :: "char \<Rightarrow> int" where
  "schar c = (let n = int (of_char c) in if n < 128 then n else n - 256)"

definition base64_reverse :: "char \<Rightarrow> u8" where
  "base64_reverse input =
     (if input = CHR ''+'' then 62
      else if input = CHR ''/'' then 63
      else if schar input \<ge> schar CHR ''a'' then word_of_int (26 + schar input - schar CHR ''a'')
      else if schar input \<ge> schar CHR ''A'' then word_of_int (schar input - schar CHR ''A'')
      else word_of_int (52 + schar input - schar CHR ''0''))"

text \<open>The four table indices of a group of three bytes, as the code masks and shifts them.\<close>

definition sextet1 :: "u8 \<Rightarrow> u8" where "sextet1 a = drop_bit 2 (a AND 0xfc)"
definition sextet2 :: "u8 \<Rightarrow> u8 \<Rightarrow> u8" where
  "sextet2 a b = push_bit 4 (a AND 0x03) OR drop_bit 4 (b AND 0xf0)"
definition sextet3 :: "u8 \<Rightarrow> u8 \<Rightarrow> u8" where
  "sextet3 b c = push_bit 2 (b AND 0x0f) OR drop_bit 6 (c AND 0xc0)"
definition sextet4 :: "u8 \<Rightarrow> u8" where "sextet4 c = c AND 0x3f"

text \<open>The last index of a padded group.\<close>

definition sextet2_pad :: "u8 \<Rightarrow> u8" where "sextet2_pad a = push_bit 4 (a AND 0x03)"
definition sextet3_pad :: "u8 \<Rightarrow> u8" where "sextet3_pad b = push_bit 2 (b AND 0x0f)"

definition b64char :: "u8 \<Rightarrow> char" where
  "b64char i = base64_charset_table ! unat i"

text \<open>The body of the loop \<open>for (i = 0; i < n; ++i)\<close>: what it pushes at index \<open>i\<close>.\<close>

definition base64_step :: "bytes \<Rightarrow> nat \<Rightarrow> string" where
  "base64_step input i =
     (if i mod 3 \<noteq> 2 then []
      else [b64char (sextet1 (input ! (i - 2))),
            b64char (sextet2 (input ! (i - 2)) (input ! (i - 1))),
            b64char (sextet3 (input ! (i - 1)) (input ! i)),
            b64char (sextet4 (input ! i))])"

definition base64_tail :: "bytes \<Rightarrow> string" where
  "base64_tail input =
     (let n = length input in
      if n mod 3 = 1 then
        [b64char (sextet1 (input ! (n - 1))),
         b64char (sextet2_pad (input ! (n - 1))), CHR ''='', CHR ''='']
      else if n mod 3 = 2 then
        [b64char (sextet1 (input ! (n - 2))),
         b64char (sextet2 (input ! (n - 2)) (input ! (n - 1))),
         b64char (sextet3_pad (input ! (n - 1))), CHR ''='']
      else [])"

definition base64Encoding :: "bytes \<Rightarrow> string" where
  "base64Encoding input =
     concat (map (base64_step input) [0..<length input]) @ base64_tail input"

text \<open>
  Decoding: \<open>char_group[0 .. count)\<close> is the list \<open>char_group\<close>; the sums of shifts are computed in
  \<open>int\<close> and cut to a \<open>char\<close> by \<open>push_back\<close>, which is arithmetic on 8-bit words.
\<close>

definition join1 :: "u8 \<Rightarrow> u8 \<Rightarrow> u8" where "join1 g0 g1 = push_bit 2 g0 OR drop_bit 4 g1"
definition join2 :: "u8 \<Rightarrow> u8 \<Rightarrow> u8" where "join2 g1 g2 = push_bit 4 g1 OR drop_bit 2 g2"
definition join3 :: "u8 \<Rightarrow> u8 \<Rightarrow> u8" where "join3 g2 g3 = push_bit 6 g2 OR g3"

fun base64_decode_loop :: "string \<Rightarrow> u8 list \<Rightarrow> bytes \<Rightarrow> u8 list \<times> bytes" where
  "base64_decode_loop [] char_group decoded = (char_group, decoded)"
| "base64_decode_loop (c # cs) char_group decoded =
     (if c = CHR ''='' then (char_group, decoded)
      else case char_group @ [base64_reverse c] of
          [g0, g1, g2, g3] \<Rightarrow>
            base64_decode_loop cs [] (decoded @ [join1 g0 g1, join2 g1 g2, join3 g2 g3])
        | char_group' \<Rightarrow> base64_decode_loop cs char_group' decoded)"

fun base64_decode_tail :: "u8 list \<Rightarrow> bytes \<Rightarrow> bytes" where
  "base64_decode_tail [g0] decoded = decoded @ [push_bit 2 g0]"
| "base64_decode_tail [g0, g1] decoded = decoded @ [join1 g0 g1, push_bit 4 g1]"
| "base64_decode_tail [g0, g1, g2] decoded = decoded @ [join1 g0 g1, join2 g1 g2, push_bit 6 g2]"
| "base64_decode_tail _ decoded = decoded"

text \<open>\<open>decoded.back()\<close> of an empty string is undefined.\<close>

definition base64Decoding :: "string \<Rightarrow> bytes cxx" where
  "base64Decoding input =
     (let (char_group, decoded) = base64_decode_loop input [] [];
          decoded' = base64_decode_tail char_group decoded
      in if decoded' = [] then Inl Undefined
         else Inr (if last decoded' = 0 then butlast decoded' else decoded'))"

section \<open>The encoder, group by group\<close>

lemma base64_step_shift:
  "base64_step (a # b # c # xs) (i + 3) = base64_step xs i"
proof -
  have m: "(i + 3) mod 3 = i mod 3" by simp
  show ?thesis
  proof (cases "i mod 3 = 2")
    case True
    then have "2 \<le> i" by (metis mod_less_eq_dividend)
    then have "i + 3 - 2 = Suc (Suc (Suc (i - 2)))" "i + 3 - 1 = Suc (Suc (Suc (i - 1)))" "i + 3 = Suc (Suc (Suc i))"
      by simp_all
    with m True show ?thesis unfolding base64_step_def by (simp add: numeral_2_eq_2)
  next
    case False
    with m show ?thesis unfolding base64_step_def by simp
  qed
qed

lemma base64_step_first:
  "base64_step (a # b # c # xs) 0 = []"
  "base64_step (a # b # c # xs) 1 = []"
  "base64_step (a # b # c # xs) 2 =
     [b64char (sextet1 a), b64char (sextet2 a b), b64char (sextet3 b c), b64char (sextet4 c)]"
  by (simp_all add: base64_step_def)

lemma base64_tail_shift: "xs \<noteq> [] \<Longrightarrow> base64_tail (a # b # c # xs) = base64_tail xs"
proof -
  assume "xs \<noteq> []"
  have m: "length (a # b # c # xs) mod 3 = length xs mod 3" by simp
  have nth: "(a # b # c # xs) ! (length (a # b # c # xs) - k) = xs ! (length xs - k)"
    if "k \<le> length xs" for k
    using that by (simp add: nth_Cons')
  have "length xs mod 3 = 2 \<Longrightarrow> 2 \<le> length xs" by (metis mod_less_eq_dividend)
  moreover have "1 \<le> length xs" using \<open>xs \<noteq> []\<close> by (simp add: Suc_le_eq)
  ultimately show ?thesis
    unfolding base64_tail_def Let_def m by (auto simp only: nth split: if_splits)
qed

lemma base64Encoding_group:
  "base64Encoding (a # b # c # xs) =
     b64char (sextet1 a) # b64char (sextet2 a b) # b64char (sextet3 b c) # b64char (sextet4 c)
       # base64Encoding xs"
proof -
  have "[0..<3 + length xs] = [0..<3] @ [3..<3 + length xs]"
    by (rule upt_add_eq_append) simp
  moreover have "[0..<3] = [0, 1, 2]" by (simp add: upt_rec)
  moreover have "[3..<3 + length xs] = map (\<lambda>i. i + 3) [0..<length xs]"
    by (metis add.commute map_add_upt)
  moreover have "length (a # b # c # xs) = 3 + length xs" by simp
  ultimately have "[0..<length (a # b # c # xs)] = [0, 1, 2] @ map (\<lambda>i. i + 3) [0..<length xs]"
    by (simp only:)
  then have "concat (map (base64_step (a # b # c # xs)) [0..<length (a # b # c # xs)]) =
      concat (map (base64_step (a # b # c # xs)) [0, 1, 2]) @
      concat (map (\<lambda>i. base64_step (a # b # c # xs) (i + 3)) [0..<length xs])"
    by (simp only: map_append concat_append map_map o_def)
  also have "\<dots> = [b64char (sextet1 a), b64char (sextet2 a b), b64char (sextet3 b c), b64char (sextet4 c)] @
      concat (map (base64_step xs) [0..<length xs])"
    by (simp only: base64_step_shift list.map concat.simps base64_step_first append_Nil append_Nil2)
  finally have loop: "concat (map (base64_step (a # b # c # xs)) [0..<length (a # b # c # xs)]) = \<dots>" .
  have "base64_tail (a # b # c # xs) = base64_tail xs"
    by (cases "xs = []") (simp_all only: base64_tail_shift not_False_eq_True, simp add: base64_tail_def)
  with loop show ?thesis
    by (simp only: base64Encoding_def append.simps)
qed

lemma base64Encoding_short:
  "base64Encoding [] = []"
  "base64Encoding [a] =
     [b64char (sextet1 a), b64char (sextet2_pad a), CHR ''='', CHR ''='']"
  "base64Encoding [a, b] =
     [b64char (sextet1 a), b64char (sextet2 a b), b64char (sextet3_pad b), CHR ''='']"
  by (simp_all add: base64Encoding_def base64_step_def base64_tail_def upt_conv_Cons)

lemmas base64Encoding_simps = base64Encoding_short base64Encoding_group

section \<open>The decoder on encoded text\<close>

lemma base64_table_distinct:
  "\<forall>i \<in> {..<64::nat}. base64_reverse (base64_charset_table ! i) = word_of_nat i \<and> base64_charset_table ! i \<noteq> CHR ''=''"
  by (simp add: lessThan_nat_numeral base64_charset_table_def base64_reverse_def schar_def Let_def)

lemma b64char_reverse:
  assumes "unat i < 64"
  shows "base64_reverse (b64char i) = i" and "b64char i \<noteq> CHR ''=''"
  using base64_table_distinct assms by (auto simp: b64char_def)

lemma unat_less_64I:
  assumes "\<And>n. bit (i :: u8) n \<Longrightarrow> n < 6"
  shows "unat i < 64"
proof -
  have "take_bit 6 i = i"
    by (rule bit_word_eqI) (auto simp: bit_take_bit_iff dest: assms)
  then have "take_bit 6 (unat i) = unat i" by (metis unsigned_take_bit_eq)
  then show ?thesis using take_bit_nat_less_exp [of 6 "unat i"] by simp
qed

lemma byte_eqI:
  assumes "\<forall>i \<in> {..<8}. bit a i \<longleftrightarrow> bit b i"
  shows "a = (b :: u8)"
  using assms by (intro bit_word_eqI) auto

lemma byte_less_64I:
  assumes "\<forall>i \<in> {6, 7}. \<not> bit (a :: u8) i"
  shows "unat a < 64"
proof (rule unat_less_64I)
  fix n assume n: "bit a n"
  then have "n < 8" by (auto dest: bit_imp_le_length)
  with assms n show "n < 6" by (cases "n = 6"; cases "n = 7") auto
qed

lemmas sextet_defs = sextet2_pad_def sextet3_pad_def sextet1_def sextet2_def sextet3_def sextet4_def join1_def join2_def join3_def

lemma sextet_bounds:
  "unat (sextet1 a) < 64" "unat (sextet2 a b) < 64" "unat (sextet3 b c) < 64" "unat (sextet4 c) < 64"
  "unat (sextet2_pad a) < 64" "unat (sextet3_pad b) < 64"
  by (rule byte_less_64I, simp add: sextet_defs bit_simps)+

lemma sextet_joins:
  "join1 (sextet1 a) (sextet2 a b) = a"
  "join2 (sextet2 a b) (sextet3 b c) = b"
  "join3 (sextet3 b c) (sextet4 c) = c"
  "join1 (sextet1 a) (sextet2_pad a) = a"
  "join2 (sextet2 a b) (sextet3_pad b) = b"
  "push_bit 4 (sextet2_pad a) = (0 :: u8)"
  "push_bit 6 (sextet3_pad b) = (0 :: u8)"
  by (rule byte_eqI, simp add: sextet_defs bit_simps lessThan_nat_numeral; simp add: eval_nat_numeral)+


lemma decode_group:
  "base64_decode_loop (b64char (sextet1 a) # b64char (sextet2 a b) # b64char (sextet3 b c) #
       b64char (sextet4 c) # cs) [] decoded =
     base64_decode_loop cs [] (decoded @ [a, b, c])"
  by (simp add: b64char_reverse sextet_bounds sextet_joins)

lemma decode_short:
  "base64_decode_loop [b64char (sextet1 a), b64char (sextet2_pad a), CHR ''='', CHR ''='']
     [] decoded = ([sextet1 a, sextet2_pad a], decoded)"
  "base64_decode_loop [b64char (sextet1 a), b64char (sextet2 a b), b64char (sextet3_pad b),
     CHR ''=''] [] decoded = ([sextet1 a, sextet2 a b, sextet3_pad b], decoded)"
  by (simp_all add: b64char_reverse sextet_bounds)

lemma group3_induct:
  assumes "P []" "\<And>a. P [a]" "\<And>a b. P [a, b]" "\<And>a b c xs. P xs \<Longrightarrow> P (a # b # c # xs)"
  shows "P (xs :: 'a list)"
proof (induction xs rule: length_induct)
  case (1 xs)
  consider "xs = []" | a where "xs = [a]" | a b where "xs = [a, b]"
    | a b c ys where "xs = a # b # c # ys"
    by (metis list.exhaust)
  then show ?case using 1 assms by cases auto
qed

text \<open>What the decoder has pushed, after its tail, for the encoding of any input: the input, with
  one zero byte behind it when the last group was padded.\<close>

definition base64_pushed :: "string \<Rightarrow> bytes \<Rightarrow> bytes" where
  "base64_pushed input decoded =
     (case base64_decode_loop input [] decoded of (char_group, out) \<Rightarrow> base64_decode_tail char_group out)"

lemma pushed_encoding:
  "base64_pushed (base64Encoding xs) decoded =
     decoded @ xs @ (if length xs mod 3 = 0 then [] else [0])"
proof (induction xs arbitrary: decoded rule: group3_induct)
  case (4 a b c xs)
  have "base64_pushed (base64Encoding (a # b # c # xs)) decoded =
      base64_pushed (base64Encoding xs) (decoded @ [a, b, c])"
    by (simp only: base64Encoding_simps base64_pushed_def decode_group)
  with 4 show ?case by simp
qed (simp_all only: base64Encoding_simps base64_pushed_def decode_short,
     simp_all add: sextet_joins)

lemma decode_encode:
  "base64Decoding (base64Encoding xs) =
     (if xs = [] then Inl Undefined
      else if length xs mod 3 = 0 \<and> last xs = 0 then Inr (butlast xs)
      else Inr xs)"
proof -
  have "base64Decoding (base64Encoding xs) =
      (let d = base64_pushed (base64Encoding xs) [] in
       if d = [] then Inl Undefined else Inr (if last d = 0 then butlast d else d))"
    by (simp add: base64Decoding_def base64_pushed_def Let_def case_prod_beta)
  also have "\<dots> = (if xs = [] then Inl Undefined
      else if length xs mod 3 = 0 \<and> last xs = 0 then Inr (butlast xs) else Inr xs)"
    by (simp add: pushed_encoding)
  finally show ?thesis .
qed

text \<open>C31: decoding an encoding gives the input back, except that a zero byte at the end of an
  input whose length is a multiple of three is lost, and that the encoding of the empty input makes
  the decoder read the last character of an empty string.\<close>

theorem base64_decode_encode:
  "base64Decoding (base64Encoding xs) =
     (if xs = [] then Inl Undefined
      else if length xs mod 3 = 0 \<and> last xs = 0 then Inr (butlast xs)
      else Inr xs)"
  by (rule decode_encode)

lemma b64char_in_table: "unat i < 64 \<Longrightarrow> b64char i \<in> set base64_charset_table"
  unfolding b64char_def by (rule nth_mem) (simp add: base64_charset_table_def)

text \<open>The encoded text has four characters for every started group of three bytes, each of
  them from the 64-character table or the padding sign.\<close>

theorem base64_encoding_shape:
  "length (base64Encoding xs) = 4 * ((length xs + 2) div 3) \<and>
   set (base64Encoding xs) \<subseteq> set base64_charset_table \<union> {CHR ''=''}"
  using b64char_in_table
proof (induction xs rule: group3_induct)
  case (4 a b c xs)
  have "(length (a # b # c # xs) + 2) div 3 = (length xs + 2) div 3 + 1" by simp
  with 4 show ?case by (simp add: base64Encoding_simps sextet_bounds)
qed (simp_all add: base64Encoding_simps sextet_bounds)

end
