(* ===== verification/Etcd_Client.thy ===== *)
theory Etcd_Client
  imports Json_Roundtrip Base64 Ring_Buffer
begin

text \<open>
  The class \<open>EtcdClient\<close> of include/Rpc/etcd_client.h and src/Rpc/etcd_client.cc: requests to the JSON
  gateway of etcd through libcurl, with the response collected in a ring buffer. What the network answers is
  the field \<open>replies\<close>, one entry per request; \<open>requests\<close> records the addresses and the texts that were sent.
  Texts are written and read by the JSON library as modelled in Json_Serializer and Json_Parser.
\<close>

section \<open>Texts\<close>

text \<open>A \<open>std::string\<close> of bytes as characters, and back.\<close>

definition chars_of :: "bytes \<Rightarrow> string" where
  "chars_of bs = map (\<lambda>b. char_of (unat b)) bs"

definition bytes_of :: "string \<Rightarrow> bytes" where
  "bytes_of s = map (\<lambda>c. word_of_nat (of_char c)) s"

text \<open>\<open>json::parse\<close> of a response; the parser always ends.\<close>

definition json_of :: "bytes \<Rightarrow> json cxx" where
  "json_of response = (case parse (chars_of response) of None \<Rightarrow> Inl Undefined | Some r \<Rightarrow> r)"

text \<open>
  \<open>try { m } catch (const std::exception &) { return d; }\<close>. In these blocks every exception with a text is one
  of the JSON library.
\<close>

definition is_exception :: "cxx_error \<Rightarrow> bool" where
  "is_exception e = (case e of Out_Of_Range \<Rightarrow> True | Invalid_Argument \<Rightarrow> True | Thrown _ \<Rightarrow> True | _ \<Rightarrow> False)"

definition catch_exception :: "'a \<Rightarrow> 'a cxx \<Rightarrow> 'a cxx" where
  "catch_exception d r = (case r of Inl e \<Rightarrow> if is_exception e then Inr d else Inl e | Inr x \<Rightarrow> Inr x)"

section \<open>State\<close>

text \<open>
  A reply: the pieces handed to the write callback, whether the transfer succeeded, and the HTTP
  status.
\<close>

record reply =
  chunks :: "bytes list"
  curl_ok :: bool
  http_code :: int

record etcd =
  etcd_client_url :: string
  response_data :: buffer
  replies :: "reply list"
  requests :: "(string \<times> string) list"

definition EtcdClient :: "string \<Rightarrow> reply list \<Rightarrow> etcd" where
  "EtcdClient url rs = \<lparr>etcd_client_url = url, response_data = Buffer MAX_BUFFER_SIZE, replies = rs, requests = []\<rparr>"

section \<open>Requests\<close>

text \<open>
  \<open>WriteCallback\<close>: the length is passed to \<open>append\<close> as a \<open>uint16_t\<close>; the callback reports all bytes
  as consumed. An exception of \<open>append\<close> leaves it.
\<close>

definition WriteCallback :: "bytes \<Rightarrow> (etcd, nat) sm" where
  "WriteCallback contents e =
     (case append_chars (take (length contents mod 2 ^ 16) contents) (response_data e) of
        (Inl x, b) \<Rightarrow> (Inl x, e\<lparr>response_data := b\<rparr>)
      | (Inr _, b) \<Rightarrow> (Inr (length contents), e\<lparr>response_data := b\<rparr>))"

fun receive :: "bytes list \<Rightarrow> (etcd, unit) sm" where
  "receive [] = sret ()"
| "receive (c # cs) = sthen (WriteCallback c) (receive cs)"

text \<open>The next reply; when the network has none left the transfer fails.\<close>

definition next_reply :: "(etcd, reply) sm" where
  "next_reply e =
     (case replies e of
        [] \<Rightarrow> (Inr \<lparr>chunks = [], curl_ok = False, http_code = 0\<rparr>, e)
      | r # rs \<Rightarrow> (Inr r, e\<lparr>replies := rs\<rparr>))"

definition curlRequest :: "string \<Rightarrow> json \<Rightarrow> (etcd, bytes) sm" where
  "curlRequest path request =
     sbind (slift (dump_text request)) (\<lambda>request_json.
     sthen (smodify (\<lambda>e. e\<lparr>requests := requests e @ [(etcd_client_url e @ path, request_json)]\<rparr>)) (
     sbind next_reply (\<lambda>r.
     sthen (receive (chunks r)) (
       if \<not> curl_ok r then sret []
       else if http_code r = 200 then
         (\<lambda>e. case retrieveAllBufferAsString (response_data e) of
                Inl x \<Rightarrow> (Inl x, e)
              | Inr (s, b) \<Rightarrow> (Inr s, e\<lparr>response_data := b\<rparr>))
       else sret []))))"

section \<open>Operations\<close>

text \<open>\<open>{{"k", v}, ...}\<close>, and \<open>j["k"].get<std::string>()\<close>.\<close>

definition pairs :: "(string \<times> json) list \<Rightarrow> json" where
  "pairs kvs = init_list (map (\<lambda>(k, v). init_list [J_str k, v]) kvs)"

definition string_at :: "json \<Rightarrow> string \<Rightarrow> string cxx" where
  "string_at j k = bindE (value_at j k) get_string"

text \<open>\<open>j.contains("error") && !j["error"].get<std::string>().empty()\<close>\<close>

definition has_error :: "json \<Rightarrow> bool cxx" where
  "has_error j = (if contains j ''error'' then bindE (string_at j ''error'') (\<lambda>s. Inr (s \<noteq> [])) else Inr False)"

definition read_grant :: "bytes \<Rightarrow> string cxx" where
  "read_grant response =
     catch_exception [] (bindE (json_of response) (\<lambda>j. bindE (has_error j) (\<lambda>err.
       if err then Inr [] else if contains j ''ID'' then string_at j ''ID'' else Inr [])))"

definition leaseGrant :: "int \<Rightarrow> (etcd, string) sm" where
  "leaseGrant ttl = sbind (curlRequest ''/v3/lease/grant'' (pairs [(''TTL'', J_int (word_of_int ttl))]))
     (\<lambda>response. slift (read_grant response))"

definition etcd_put :: "bytes \<Rightarrow> bytes \<Rightarrow> string \<Rightarrow> (etcd, unit) sm" where
  "etcd_put key value lease_id =
     (let request = pairs [(''key'', J_str (base64Encoding key)), (''value'', J_str (base64Encoding value))]
      in sbind (slift (if lease_id \<noteq> ''0'' then assign_key ''lease'' (J_str lease_id) request else Inr request))
           (\<lambda>request. sthen (curlRequest ''/v3/kv/put'' request) (sret ())))"

text \<open>The loop over the pairs; \<open>ret\<close> is the state, which keeps the pairs before an exception.\<close>

definition read_kv :: "json \<Rightarrow> ((bytes \<times> bytes) list, unit) sm" where
  "read_kv i =
     sbind (slift (bindE (string_at i ''key'') base64Decoding)) (\<lambda>k.
     sbind (slift (bindE (string_at i ''value'') base64Decoding)) (\<lambda>v.
     smodify (\<lambda>ret. ret @ [(k, v)])))"

fun read_kvs :: "json list \<Rightarrow> ((bytes \<times> bytes) list, unit) sm" where
  "read_kvs [] = sret ()"
| "read_kvs (i # is) = sthen (read_kv i) (read_kvs is)"

definition parserResponseForGet :: "bytes \<Rightarrow> ((bytes \<times> bytes) list, unit) sm" where
  "parserResponseForGet response ret =
     (case sbind (slift (json_of response)) (\<lambda>j. sbind (slift (has_error j)) (\<lambda>err.
       if err then sret ()
       else if contains j ''kvs'' then sbind (slift (value_at j ''kvs'')) (\<lambda>a. read_kvs (elements a)) else sret ())) ret of
        (r, ret') \<Rightarrow> (catch_exception () r, ret'))"

definition etcd_get :: "bytes \<Rightarrow> bool \<Rightarrow> (etcd, (bytes \<times> bytes) list) sm" where
  "etcd_get key prefix =
     (let request = pairs [(''key'', J_str (base64Encoding key))]
      in sbind (slift (if prefix then assign_key ''range_end'' (J_str (base64Encoding (key @ [0xff]))) request else Inr request))
           (\<lambda>request. sbind (curlRequest ''/v3/kv/range'' request) (\<lambda>response.
              slift (case parserResponseForGet response [] of (r, ret) \<Rightarrow> bindE r (\<lambda>_. Inr ret)))))"

definition read_ttl :: "bytes \<Rightarrow> int cxx" where
  "read_ttl response =
     catch_exception (- 1) (bindE (json_of response) (\<lambda>j. bindE (has_error j) (\<lambda>err.
       if err then Inr (- 1) else if contains j ''TTL'' then bindE (value_at j ''TTL'') get_int else Inr (- 1))))"

definition leastTimeToLive :: "string \<Rightarrow> (etcd, int) sm" where
  "leastTimeToLive lease_id = sbind (curlRequest ''/v3/lease/keepalive'' (pairs [(''ID'', J_str lease_id)]))
     (\<lambda>response. slift (read_ttl response))"

definition leaseRevoke :: "string \<Rightarrow> (etcd, unit) sm" where
  "leaseRevoke lease_id = sthen (curlRequest ''/v3/lease/revoke'' (pairs [(''ID'', J_str lease_id)])) (sret ())"

section \<open>The texts of the requests\<close>

text \<open>\<open>std::map\<close> orders the members by their keys.\<close>

lemma request_values:
  "pairs [(k, v)] = J_obj [(k, v)]"
  "pairs [(''key'', v), (''value'', w)] = J_obj [(''key'', v), (''value'', w)]"
  "assign_key ''lease'' u (J_obj [(''key'', v), (''value'', w)]) = Inr (J_obj [(''key'', v), (''lease'', u), (''value'', w)])"
  "assign_key ''range_end'' u (J_obj [(''key'', v)]) = Inr (J_obj [(''key'', v), (''range_end'', u)])"
  by (simp_all add: pairs_def init_list_def is_pair_def emplace_pair_def map_emplace_def ins_entry_def assign_key_def at_key_def map_assign_def)

lemma ascii_utf8: "\<forall>c \<in> set s. (of_char c :: int) < 0x80 \<Longrightarrow> utf8_ok s"
  by (induction s) (simp_all add: utf8_lead_def)

lemma base64_utf8 [simp]: "utf8_ok (base64Encoding xs)"
proof (rule ascii_utf8)
  have "\<forall>c \<in> set (base64_charset_table @ ''=''). (of_char c :: int) < 0x80" by (simp add: base64_charset_table_def)
  then show "\<forall>c \<in> set (base64Encoding xs). (of_char c :: int) < 0x80" using base64_encoding_shape [of xs] by auto
qed

lemma exact_requests [simp]:
  "exact (J_obj [(''key'', J_str (base64Encoding k)), (''value'', J_str (base64Encoding v))])"
  "utf8_ok i \<Longrightarrow> exact (J_obj [(''key'', J_str (base64Encoding k)), (''lease'', J_str i), (''value'', J_str (base64Encoding v))])"
  "exact (J_obj [(''key'', J_str (base64Encoding k))])"
  "exact (J_obj [(''key'', J_str (base64Encoding k)), (''range_end'', J_str (base64Encoding v))])"
  "utf8_ok i \<Longrightarrow> exact (J_obj [(''ID'', J_str i)])"
  by (simp_all add: keys_ok_def utf8_lead_def)

section \<open>Reading responses\<close>

lemma chars_of_bytes_of [simp]: "chars_of (bytes_of s) = s"
  by (induction s) (simp_all add: chars_of_def bytes_of_def unsigned_of_nat take_bit_nat_eq_self nat_of_char_less_256)

lemma json_of_cases:
  obtains m where "json_of response = Inl (Thrown m)" | j where "json_of response = Inr j" "parsed j"
  using parse_with_typed [of True False False "chars_of response"]
  by (auto simp: json_of_def parse_def split: option.splits sum.splits)

lemma json_of_text: "exact j \<Longrightarrow> json_of (bytes_of (text_of j)) = Inr j"
  by (simp add: json_of_def parse_def parse_text_of)

lemma catch_exception_simps [simp]: "catch_exception d (Inr x) = Inr x" "catch_exception d (Inl (Thrown m)) = Inr d"
  by (simp_all add: catch_exception_def is_exception_def)

lemma map_of_emplace: "k \<in> fst ` set es \<Longrightarrow> map_emplace k v es = es"
  by (simp add: map_emplace_def)

lemma value_at_member: "map_of es k = Some v \<Longrightarrow> value_at (J_obj es) k = Inr v"
  by (simp add: value_at_def at_key_def map_of_emplace [OF domI [of "map_of es", unfolded dom_map_of_conv_image_fst]])

lemma contains_iff: "contains (J_obj es) k \<longleftrightarrow> map_of es k \<noteq> None"
  by (simp add: contains_def map_of_eq_None_iff)

text \<open>What is stored under a key that is there is a string, or reading it throws.\<close>

lemma string_at_contained:
  assumes "contains j k" "parsed j"
  shows "(\<exists>s. string_at j k = Inr s \<and> utf8_ok s) \<or> (\<exists>m. string_at j k = Inl (Thrown m))"
proof -
  obtain es v where j: "j = J_obj es" "map_of es k = Some v"
    using assms(1) by (auto simp: contains_def split: json.splits dest: map_of_SomeD) (metis image_eqI fst_conv weak_map_of_SomeI)
  then have "parsed v" using assms(2) map_of_SomeD [OF j(2)] by fastforce
  then show ?thesis by (cases v) (simp_all add: string_at_def j value_at_member get_string_def type_error_def)
qed

text \<open>A lease identifier is read from every response without undefined behaviour, and is well-formed UTF-8.\<close>

lemma read_grant_returns: "\<exists>i. read_grant response = Inr i \<and> utf8_ok i"
proof (cases rule: json_of_cases [of response])
  case (2 j)
  have err: "(\<exists>b. has_error j = Inr b) \<or> (\<exists>m. has_error j = Inl (Thrown m))"
    using string_at_contained [OF _ 2(2), of "''error''"] by (auto simp: has_error_def)
  then show ?thesis
    using string_at_contained [OF _ 2(2), of "''ID''"] 2(1) by (auto simp: read_grant_def)
qed (simp add: read_grant_def)

section \<open>What a request does\<close>

definition reply_body :: "reply \<Rightarrow> bytes" where
  "reply_body r = concat (chunks r)"

lemma receive_eq:
  "buffer_wf (response_data e) \<Longrightarrow> length (concat cs) \<le> writableBytes (response_data e) \<Longrightarrow>
   \<exists>b. receive cs e = (Inr (), e\<lparr>response_data := b\<rparr>) \<and> buffer_wf b \<and>
       content b = content (response_data e) @ concat cs"
proof (induction cs arbitrary: e)
  case Nil
  then show ?case by (intro exI [of _ "response_data e"]) simp
next
  case (Cons c cs)
  have len: "length c \<le> writableBytes (response_data e)" using Cons.prems(2) by simp
  then have "length c < 2 ^ 16" by (simp add: writableBytes_def MAX_BUFFER_SIZE_def)
  then have "append_chars (take (length c mod 2 ^ 16) c) (response_data e) = append c (response_data e)"
    by (simp add: append_def)
  with append_fits [OF Cons.prems(1) len] obtain b where
    a: "append_chars (take (length c mod 2 ^ 16) c) (response_data e) = (Inr (length c), b)"
    and b: "buffer_wf b" "content b = content (response_data e) @ c" by auto
  have w: "WriteCallback c e = (Inr (length c), e\<lparr>response_data := b\<rparr>)"
    using a by (simp add: WriteCallback_def)
  have "readableBytes b = readableBytes (response_data e) + length c"
    using b(2) by (metis length_append length_content)
  then have "length (concat cs) \<le> writableBytes b"
    using Cons.prems(2) by (simp add: writableBytes_def)
  with Cons.IH [of "e\<lparr>response_data := b\<rparr>"] b w show ?case by (auto simp: sbind_def)
qed

text \<open>
  A request whose response fits: a successful one returns everything in the buffer and empties it;
  any other one returns the empty string and leaves its body there.
\<close>

lemma curlRequest_eq:
  assumes "buffer_wf (response_data e)" and "replies e = r # rs" and "dump_text q = Inr t"
    and "length (reply_body r) \<le> writableBytes (response_data e)"
  shows "\<exists>b. curlRequest path q e =
      (Inr (if curl_ok r \<and> http_code r = 200 then content (response_data e) @ reply_body r else []),
       e\<lparr>requests := requests e @ [(etcd_client_url e @ path, t)], replies := rs, response_data := b\<rparr>) \<and>
     buffer_wf b \<and>
     content b = (if curl_ok r \<and> http_code r = 200 then [] else content (response_data e) @ reply_body r)"
proof -
  let ?e = "e\<lparr>requests := requests e @ [(etcd_client_url e @ path, t)], replies := rs\<rparr>"
  from receive_eq [of ?e "chunks r"] assms obtain b where
    rc: "receive (chunks r) ?e = (Inr (), ?e\<lparr>response_data := b\<rparr>)" and b: "buffer_wf b"
      "content b = content (response_data e) @ reply_body r" by (auto simp: reply_body_def)
  let ?b = "hasRead (readableBytes b) b"
  have "retrieveAllBufferAsString b = Inr (content b, ?b)" "buffer_wf ?b" "content ?b = []"
    using b(1) by (simp_all add: retrieveAllBufferAsString_def read_eq buffer_wf_hasRead content_hasRead)
  then show ?thesis
    using rc b assms(2,3)
    by (cases "curl_ok r \<and> http_code r = 200")
      (auto simp: curlRequest_def next_reply_def sbind_def)
qed

text \<open>The body of a failed request (an HTTP error) is not dropped: it stays in the response buffer
  and the next successful request returns it in front of its own body.\<close>

theorem error_body_prefixes_next_response:
  assumes "buffer_wf (response_data e)" and "content (response_data e) = []"
    and "replies e = [r1, r2]" and "http_code r1 \<noteq> 200" and "curl_ok r2" and "http_code r2 = 200"
    and "length (reply_body r1) + length (reply_body r2) \<le> 1023" and "dump_text q1 = Inr t1" and "dump_text q2 = Inr t2"
  shows "fst (sthen (curlRequest p1 q1) (curlRequest p2 q2) e) = Inr (reply_body r1 @ reply_body r2)"
proof -
  have rb: "readableBytes (response_data e) = 0" using assms(2) by (metis length_content list.size(3))
  then have w: "writableBytes (response_data e) = 1023" by (simp add: writableBytes_def MAX_BUFFER_SIZE_def)
  from curlRequest_eq [OF assms(1,3,8), of p1] w assms(2,4,7) obtain b where
    1: "curlRequest p1 q1 e = (Inr [], e\<lparr>requests := requests e @ [(etcd_client_url e @ p1, t1)],
          replies := [r2], response_data := b\<rparr>)" and b: "buffer_wf b" "content b = reply_body r1"
    by auto
  have "readableBytes b = length (reply_body r1)" using b(2) by (metis length_content)
  then have "writableBytes b = 1023 - length (reply_body r1)" by (simp add: writableBytes_def MAX_BUFFER_SIZE_def)
  moreover have "length (reply_body r2) \<le> 1023 - length (reply_body r1)" using assms(7) by simp
  ultimately show ?thesis
    using curlRequest_eq [of "e\<lparr>requests := requests e @ [(etcd_client_url e @ p1, t1)], replies := [r2],
        response_data := b\<rparr>" r2 "[]" q2 t2 p2] b assms(5-7,9)
    by (auto simp: 1 sbind_def)
qed

theorem error_body_prefixes_next_response_witness:
  "fst (sthen (curlRequest ''/a'' J_null) (curlRequest ''/b'' J_null)
     (EtcdClient ''u'' [\<lparr>chunks = [[1, 2]], curl_ok = True, http_code = 503\<rparr>,
                       \<lparr>chunks = [[3], [4]], curl_ok = True, http_code = 200\<rparr>])) = Inr [1, 2, 3, 4]"
  using error_body_prefixes_next_response [of "EtcdClient ''u'' [\<lparr>chunks = [[1, 2]], curl_ok = True, http_code = 503\<rparr>,
                       \<lparr>chunks = [[3], [4]], curl_ok = True, http_code = 200\<rparr>]"] buffer_wf_new
    dump_text_eq [of J_null]
  by (simp add: EtcdClient_def reply_body_def)

text \<open>The values that survive Base64: not empty, and no zero byte behind full groups of three.\<close>

definition storable :: "bytes \<Rightarrow> bool" where
  "storable xs \<longleftrightarrow> xs \<noteq> [] \<and> \<not> (length xs mod 3 = 0 \<and> last xs = 0)"

definition stores :: "json \<Rightarrow> bytes \<times> bytes \<Rightarrow> bool" where
  "stores j kv \<longleftrightarrow> (\<exists>es. j = J_obj es \<and> map_of es ''key'' = Some (J_str (base64Encoding (fst kv))) \<and>
     map_of es ''value'' = Some (J_str (base64Encoding (snd kv))) \<and> storable (fst kv) \<and> storable (snd kv))"

lemma read_kvs_stored: "list_all2 stores js kvs \<Longrightarrow> read_kvs js ret = (Inr (), ret @ kvs)"
proof (induction arbitrary: ret rule: list_all2_induct)
  case (Cons j js kv kvs)
  have "read_kv j ret = (Inr (), ret @ [kv])"
    using Cons(1) by (auto simp: stores_def storable_def read_kv_def string_at_def value_at_member get_string_def decode_encode sbind_def)
  with Cons.IH show ?case by (simp add: sbind_def)
qed simp

lemma parser_reads_stored:
  assumes "exact (J_obj es)" "map_of es ''error'' = None" "map_of es ''kvs'' = Some (J_arr js)" "list_all2 stores js kvs"
  shows "parserResponseForGet (bytes_of (text_of (J_obj es))) [] = (Inr (), kvs)"
  using assms(2,3) read_kvs_stored [OF assms(4), of "[]"]
  by (simp add: parserResponseForGet_def json_of_text [OF assms(1)] sbind_def has_error_def contains_iff value_at_member elements_def
      del: text_of.simps)


definition sample_answer :: "(string \<times> json) list" where
  "sample_answer = [(''count'', J_str ''1''), (''kvs'', J_arr [J_obj [(''key'', J_str ''AQ==''), (''mod_revision'', J_str ''7''), (''value'', J_str ''AgM='')]])]"


text \<open>
  A keep-alive answer without a number \<open>TTL\<close> at its top level is taken for an expired lease; the
  gateway's own answer, which nests the lease under \<open>result\<close> and writes numbers as strings, is one.
\<close>

lemma read_ttl_nested: "json_of response = Inr (J_obj [(''result'', r)]) \<Longrightarrow> read_ttl response = Inr (- 1)"
  by (simp add: read_ttl_def has_error_def contains_def)

section \<open>The asynchronous operations\<close>

text \<open>
  Each wrapper hands the bound member function to the event loop's thread pool. Those with a result
  return the future of a promise that nobody keeps: it is destroyed when the wrapper returns. Getting a
  value from a future without a state is undefined, from a broken promise it throws.
\<close>

datatype etcd_task =
    Task_leaseGrant int
  | Task_put bytes bytes string
  | Task_get bytes bool
  | Task_leastTimeToLive string
  | Task_leaseRevoke string

datatype future = No_state | Broken_promise

definition future_get :: "future \<Rightarrow> 'a cxx" where
  "future_get f = (case f of No_state \<Rightarrow> Inl Undefined | Broken_promise \<Rightarrow> Inl (Thrown ''broken_promise''))"

text \<open>The state is the list of tasks given to the pool; \<open>loop\<close> says whether the client has an event loop.\<close>

definition async_leaseGrant :: "bool \<Rightarrow> int \<Rightarrow> (etcd_task list, future) sm" where
  "async_leaseGrant loop t =
     (if \<not> loop then sret No_state
      else sthen (smodify (\<lambda>ts. ts @ [Task_leaseGrant t])) (sret Broken_promise))"

definition async_put :: "bool \<Rightarrow> bytes \<Rightarrow> bytes \<Rightarrow> string \<Rightarrow> (etcd_task list, unit) sm" where
  "async_put loop key value lease_id =
     (if \<not> loop then sret () else smodify (\<lambda>ts. ts @ [Task_put key value lease_id]))"

definition async_get :: "bool \<Rightarrow> bytes \<Rightarrow> bool \<Rightarrow> (etcd_task list, future) sm" where
  "async_get loop key prefix =
     (if \<not> loop then sret No_state
      else sthen (smodify (\<lambda>ts. ts @ [Task_get key prefix])) (sret Broken_promise))"

definition async_leastTimeToLive :: "bool \<Rightarrow> string \<Rightarrow> (etcd_task list, future) sm" where
  "async_leastTimeToLive loop lease_id =
     (if \<not> loop then sret No_state
      else sthen (smodify (\<lambda>ts. ts @ [Task_leastTimeToLive lease_id])) (sret Broken_promise))"

definition async_leaseRevoke :: "bool \<Rightarrow> string \<Rightarrow> (etcd_task list, unit) sm" where
  "async_leaseRevoke loop lease_id =
     (if \<not> loop then sret () else smodify (\<lambda>ts. ts @ [Task_leaseRevoke lease_id]))"

text \<open>A worker runs the bound function and drops its result.\<close>

definition run_etcd_task :: "etcd_task \<Rightarrow> (etcd, unit) sm" where
  "run_etcd_task t =
     (case t of
        Task_leaseGrant n \<Rightarrow> sthen (leaseGrant n) (sret ())
      | Task_put k v l \<Rightarrow> etcd_put k v l
      | Task_get k p \<Rightarrow> sthen (etcd_get k p) (sret ())
      | Task_leastTimeToLive l \<Rightarrow> sthen (leastTimeToLive l) (sret ())
      | Task_leaseRevoke l \<Rightarrow> leaseRevoke l)"

lemma snd_sbind_sret: "snd (sbind m (\<lambda>_. sret ()) c) = snd (m c)"
  by (auto simp: sbind_def split: prod.splits sum.splits)

text \<open>The three asynchronous operations with a result never deliver it: whether the client has
  an event loop or not, reading the future they return fails, although with a loop the request is
  made exactly as by the synchronous operation.\<close>

theorem async_results_are_lost:
  "(\<exists>f ts. async_leaseGrant loop t [] = (Inr f, ts) \<and> (\<exists>e. future_get f = (Inl e :: string cxx)) \<and>
      map (\<lambda>u. snd (run_etcd_task u c)) ts = (if loop then [snd (leaseGrant t c)] else [])) \<and>
   (\<exists>f ts. async_get loop key prefix [] = (Inr f, ts) \<and> (\<exists>e. future_get f = (Inl e :: (bytes \<times> bytes) list cxx)) \<and>
      map (\<lambda>u. snd (run_etcd_task u c)) ts = (if loop then [snd (etcd_get key prefix c)] else [])) \<and>
   (\<exists>f ts. async_leastTimeToLive loop i [] = (Inr f, ts) \<and> (\<exists>e. future_get f = (Inl e :: int cxx)) \<and>
      map (\<lambda>u. snd (run_etcd_task u c)) ts = (if loop then [snd (leastTimeToLive i c)] else []))"
  by (simp add: async_leaseGrant_def async_get_def async_leastTimeToLive_def future_get_def run_etcd_task_def
      snd_sbind_sret)

end
