(* ===== verification/Service_Register.thy ===== *)
theory Service_Register
  imports Etcd_Client Channel
begin

text \<open>
  The classes \<open>LeaseManager\<close> and \<open>ServiceRegister\<close> of include/Rpc/service_register.h and
  src/Rpc/service_register.cc: a provider's registration in etcd, kept alive by a heartbeat that
  alternates between an io_uring timer of the event loop and a task of the thread pool. The text of
  \<open>getLocalIP\<close> and the node information of the event loop are parameters. Operations are atomic: an
  update that overlaps with \<open>stopRegister\<close> is not modelled.
\<close>

section \<open>State\<close>

record lease_manager =
  lease_id :: string
  lease_ttl :: int

text \<open>\<open>timers\<close> and \<open>tasks\<close> count what was submitted to io_uring and to the thread pool and is not done.\<close>

record register =
  lease_mgr :: "lease_manager option"
  client :: etcd
  ttl :: int
  tv_sec :: int
  services_name :: "string list"
  node_info_rpc :: bytes
  stoping :: bool
  timers :: nat
  tasks :: nat

definition ETCD_EVENT_TIMEOUT :: int where "ETCD_EVENT_TIMEOUT = 0"
definition ETIME :: int where "ETIME = 62"

text \<open>\<open>ttl / 4\<close> truncates towards zero.\<close>

definition ServiceRegister :: "int \<Rightarrow> string \<Rightarrow> reply list \<Rightarrow> register" where
  "ServiceRegister t url rs =
     \<lparr>lease_mgr = None, client = EtcdClient url rs, ttl = t, tv_sec = sgn t * (\<bar>t\<bar> div 4), services_name = [],
      node_info_rpc = [], stoping = False, timers = 0, tasks = 0\<rparr>"

text \<open>An operation of the etcd client inside the register.\<close>

definition on_client :: "(etcd, 'a) sm \<Rightarrow> (register, 'a) sm" where
  "on_client m r = (case m (client r) of (x, e) \<Rightarrow> (x, r\<lparr>client := e\<rparr>))"

section \<open>Leases\<close>

definition new_LeaseManager :: "int \<Rightarrow> (etcd, lease_manager) sm" where
  "new_LeaseManager t = sbind (leaseGrant t) (\<lambda>i. sret \<lparr>lease_id = i, lease_ttl = t\<rparr>)"

definition lease_put :: "lease_manager \<Rightarrow> bytes \<Rightarrow> bytes \<Rightarrow> (etcd, unit) sm" where
  "lease_put lm key value = etcd_put key value (lease_id lm)"

definition healthCheck :: "lease_manager \<Rightarrow> (etcd, lease_manager) sm" where
  "healthCheck lm =
     sthen (leastTimeToLive (lease_id lm)) (
     sbind (leastTimeToLive (lease_id lm)) (\<lambda>t.
     if t < 0 then sbind (leaseGrant (lease_ttl lm)) (\<lambda>i. sret (lm\<lparr>lease_id := i\<rparr>))
     else sret lm))"

definition cancelLease :: "lease_manager \<Rightarrow> (etcd, unit) sm" where
  "cancelLease lm = leaseRevoke (lease_id lm)"

section \<open>Registration\<close>

definition registerService :: "string \<Rightarrow> (register, unit) sm" where
  "registerService key = smodify (\<lambda>r. r\<lparr>services_name := List.insert key (services_name r)\<rparr>)"

definition unregisterService :: "string \<Rightarrow> (register, unit) sm" where
  "unregisterService key = smodify (\<lambda>r. r\<lparr>services_name := removeAll key (services_name r)\<rparr>)"

definition set_io_uring_timer :: "(register, unit) sm" where
  "set_io_uring_timer = smodify (\<lambda>r. r\<lparr>timers := timers r + 1\<rparr>)"

text \<open>\<open>reset()\<close> runs the destructor of the old lease manager, which cancels its lease.\<close>

definition startRegister :: "(register, unit) sm" where
  "startRegister r0 =
     sthen (case lease_mgr r0 of None \<Rightarrow> sret () | Some lm \<Rightarrow> on_client (cancelLease lm)) (
     sthen (smodify (\<lambda>r. r\<lparr>lease_mgr := None, stoping := False\<rparr>)) (
     sbind (on_client (new_LeaseManager (ttl r0))) (\<lambda>lm.
     sthen (smodify (\<lambda>r. r\<lparr>lease_mgr := Some lm\<rparr>)) set_io_uring_timer))) r0"

definition stopRegister :: "(register, unit) sm" where
  "stopRegister r =
     (case lease_mgr r of
        None \<Rightarrow> (Inr (), r)
      | Some lm \<Rightarrow> on_client (cancelLease lm) (r\<lparr>stoping := True\<rparr>))"

definition callback_healthCheck :: "int \<Rightarrow> (register, unit) sm" where
  "callback_healthCheck res r = (if res = 0 \<and> \<not> stoping r then set_io_uring_timer r else stopRegister r)"

definition service_key :: "string \<Rightarrow> string \<Rightarrow> string" where
  "service_key localIP name = ''/services/'' @ name @ ''/'' @ localIP"

fun put_services :: "string \<Rightarrow> lease_manager \<Rightarrow> bytes \<Rightarrow> string list \<Rightarrow> (etcd, unit) sm" where
  "put_services localIP lm info [] = sret ()"
| "put_services localIP lm info (it # its) =
     sthen (lease_put lm (bytes_of (service_key localIP it)) info) (put_services localIP lm info its)"

text \<open>Dereferencing an empty \<open>_lease_manager\<close> is undefined. \<open>tasks\<close> goes down: the task is this one.\<close>

definition updateNodeInfo :: "string \<Rightarrow> bytes \<Rightarrow> (register, unit) sm" where
  "updateNodeInfo localIP node_info r0 =
     (let r = r0\<lparr>tasks := tasks r0 - 1\<rparr> in
      if stoping r then (Inr (), r)
      else case lease_mgr r of
        None \<Rightarrow> (Inl Undefined, r)
      | Some lm \<Rightarrow>
          sbind (on_client (healthCheck lm)) (\<lambda>lm'.
          sthen (smodify (\<lambda>r. r\<lparr>lease_mgr := Some lm', node_info_rpc := node_info\<rparr>)) (
          sthen (on_client (put_services localIP lm' node_info (services_name r)))
            (callback_healthCheck 0))) r)"

definition callback_timeout :: "int \<Rightarrow> (register, unit) sm" where
  "callback_timeout res r0 =
     (let r = r0\<lparr>timers := timers r0 - 1\<rparr> in
      if res = 0 \<or> res = - ETIME then (Inr (), r\<lparr>tasks := tasks r + 1\<rparr>) else stopRegister r)"

definition register_do_io_uring :: "int \<Rightarrow> int \<Rightarrow> (register, unit) sm" where
  "register_do_io_uring res ev r = (if ev = ETCD_EVENT_TIMEOUT then callback_timeout res r else (Inr (), r))"

section \<open>The heartbeat\<close>

text \<open>
  One run after \<open>startRegister\<close>: a pending timer may complete, a pending task may run, services may be
  registered and unregistered, and the provider may stop. A step that ends abnormally ends the run.
\<close>

inductive beat :: "register \<Rightarrow> register \<Rightarrow> bool" where
  Timer: "0 < timers r \<Longrightarrow> register_do_io_uring res ETCD_EVENT_TIMEOUT r = (Inr (), r') \<Longrightarrow> beat r r'"
| Task: "0 < tasks r \<Longrightarrow> updateNodeInfo ip info r = (Inr (), r') \<Longrightarrow> beat r r'"
| Register: "registerService key r = (Inr (), r') \<Longrightarrow> beat r r'"
| Unregister: "unregisterService key r = (Inr (), r') \<Longrightarrow> beat r r'"
| Stop: "stopRegister r = (Inr (), r') \<Longrightarrow> beat r r'"

inductive beats :: "register \<Rightarrow> bool" where
  Start: "startRegister (ServiceRegister t url rs) = (Inr (), r) \<Longrightarrow> beats r"
| Step: "beats r \<Longrightarrow> beat r r' \<Longrightarrow> beats r'"

definition beat_inv :: "register \<Rightarrow> bool" where
  "beat_inv r \<longleftrightarrow> lease_mgr r \<noteq> None \<and> timers r + tasks r \<le> 1 \<and> (\<not> stoping r \<longrightarrow> timers r + tasks r = 1)"

lemma on_client_fields:
  assumes "on_client m r = (x, r')"
  shows "lease_mgr r' = lease_mgr r" "timers r' = timers r" "tasks r' = tasks r" "stoping r' = stoping r"
    "services_name r' = services_name r" "ttl r' = ttl r"
  using assms by (auto simp: on_client_def split: prod.splits)

lemma stopRegister_fields:
  assumes "stopRegister r = (x, r')" "lease_mgr r \<noteq> None"
  shows "lease_mgr r' = lease_mgr r" "timers r' = timers r" "tasks r' = tasks r" "stoping r'"
  using assms on_client_fields [of _ "r\<lparr>stoping := True\<rparr>" x r'] by (auto simp: stopRegister_def split: option.splits)

lemma updateNodeInfo_inv:
  assumes "beat_inv r" "0 < tasks r" "updateNodeInfo ip info r = (Inr (), r')"
  shows "beat_inv r'"
proof (cases "stoping r")
  case True
  with assms show ?thesis by (auto simp: updateNodeInfo_def beat_inv_def Let_def)
next
  case False
  let ?r = "r\<lparr>tasks := tasks r - 1\<rparr>"
  obtain lm where lm: "lease_mgr r = Some lm" using assms(1) by (auto simp: beat_inv_def)
  obtain x r1 where 1: "on_client (healthCheck lm) ?r = (x, r1)" by fastforce
  with assms(3) False lm obtain lm' where x: "x = Inr lm'"
    by (cases x) (auto simp: updateNodeInfo_def Let_def sbind_def)
  let ?r1 = "r1\<lparr>lease_mgr := Some lm', node_info_rpc := info\<rparr>"
  obtain y r2 where 2: "on_client (put_services ip lm' info (services_name r)) ?r1 = (y, r2)" by fastforce
  with assms(3) False lm 1 x have "callback_healthCheck 0 r2 = (Inr (), r')"
    by (cases y) (auto simp: updateNodeInfo_def Let_def sbind_def)
  moreover have "timers r2 = timers r" "tasks r2 = tasks r - 1" "\<not> stoping r2" "lease_mgr r2 = Some lm'"
    using on_client_fields [OF 1] on_client_fields [OF 2] False by simp_all
  ultimately show ?thesis
    using assms(1,2) False by (auto simp: callback_healthCheck_def set_io_uring_timer_def beat_inv_def)
qed

lemma beat_inv_step: "beat r r' \<Longrightarrow> beat_inv r \<Longrightarrow> beat_inv r'"
proof (induction rule: beat.induct)
  case (Timer r res r')
  let ?r = "r\<lparr>timers := timers r - 1\<rparr>"
  have step: "callback_timeout res r = (Inr (), r')"
    using Timer(2) by (simp add: register_do_io_uring_def)
  show ?case
  proof (cases "res = 0 \<or> res = - ETIME")
    case True
    with step have "r' = ?r\<lparr>tasks := tasks r + 1\<rparr>" by (auto simp: callback_timeout_def Let_def)
    with Timer show ?thesis by (auto simp: beat_inv_def)
  next
    case False
    with step have stop: "stopRegister ?r = (Inr (), r')" by (simp add: callback_timeout_def Let_def)
    have "lease_mgr ?r \<noteq> None" using Timer(3) by (simp add: beat_inv_def)
    note f = stopRegister_fields [OF stop this]
    from f(4) show ?thesis using Timer(3) unfolding beat_inv_def f(1-3) by simp
  qed
next
  case (Task r ip info r')
  from updateNodeInfo_inv [OF Task(3) Task(1,2)] show ?case .
next
  case (Stop r r')
  then have "lease_mgr r \<noteq> None" by (simp add: beat_inv_def)
  from stopRegister_fields [OF Stop(1) this] Stop(2) show ?case by (simp add: beat_inv_def)
qed (auto simp: registerService_def unregisterService_def beat_inv_def)

lemma beats_inv: "beats r \<Longrightarrow> beat_inv r"
proof (induction rule: beats.induct)
  case (Start t url rs r)
  let ?r = "(ServiceRegister t url rs)\<lparr>lease_mgr := None, stoping := False\<rparr>"
  obtain x r1 where 1: "on_client (new_LeaseManager t) ?r = (x, r1)" by fastforce
  have "lease_mgr (ServiceRegister t url rs) = None" "ttl (ServiceRegister t url rs) = t"
    by (simp_all add: ServiceRegister_def)
  with 1 Start obtain lm where "r = r1\<lparr>lease_mgr := Some lm, timers := timers r1 + 1\<rparr>"
    by (cases x) (auto simp: startRegister_def sbind_def set_io_uring_timer_def)
  with on_client_fields [OF 1] show ?case by (simp add: beat_inv_def ServiceRegister_def)
qed (rule beat_inv_step)

section \<open>Properties\<close>


definition ok_reply :: "bytes \<Rightarrow> reply" where
  "ok_reply s = \<lparr>chunks = [s], curl_ok = True, http_code = 200\<rparr>"

definition grant_text :: bytes where
  "grant_text = bytes_of (CHR ''{'' # quoted ''ID'' @ '':'' @ quoted ''77'' @ ''}'')"

lemma plain_grant: "plain (J_obj [(''TTL'', J_int x)])"
  by (simp add: utf8_lead_def)

lemma demo_start:
  "\<exists>r. startRegister (ServiceRegister 20 ''u'' [ok_reply grant_text]) = (Inr (), r) \<and>
     timers r = 1 \<and> lease_mgr r = Some \<lparr>lease_id = ''77'', lease_ttl = 20\<rparr>"
proof -
  let ?e = "EtcdClient ''u'' [ok_reply grant_text]"
  have "length grant_text = 11" by code_simp
  then have c: "buffer_wf (response_data ?e)" "replies ?e = [ok_reply grant_text]"
    "length (reply_body (ok_reply grant_text)) \<le> writableBytes (response_data ?e)"
    using buffer_wf_new by (simp_all add: EtcdClient_def ok_reply_def reply_body_def writableBytes_def
        readableBytes_def Buffer_def MAX_BUFFER_SIZE_def)
  have "content (response_data ?e) = []" using buffer_wf_new by (simp add: EtcdClient_def)
  with curlRequest_eq [OF c(1,2) dump_text_plain [OF plain_grant] c(3)] obtain e' where
    "curlRequest ''/v3/lease/grant'' (J_obj [(''TTL'', J_int 20)]) ?e = (Inr grant_text, e')"
    by (auto simp: ok_reply_def reply_body_def)
  moreover have "read_grant grant_text = Inr ''77''" by code_simp
  ultimately show ?thesis
    by (simp add: startRegister_def ServiceRegister_def sbind_def on_client_def new_LeaseManager_def leaseGrant_def
        request_values set_io_uring_timer_def)
qed


text \<open>Without an answer the register starts with an empty lease identifier.\<close>

lemma start_without_network:
  "\<exists>r. startRegister (ServiceRegister t url []) = (Inr (), r) \<and> timers r = 1 \<and> tasks r = 0 \<and>
     lease_mgr r = Some \<lparr>lease_id = [], lease_ttl = t\<rparr> \<and> \<not> stoping r"
proof -
  have "read_grant [] = Inr []" by code_simp
  moreover have "dump_text (J_obj [(''TTL'', J_int x)]) = Inr (text_of (J_obj [(''TTL'', J_int x)]))" for x
    by (rule dump_text_plain [OF plain_grant])
  ultimately show ?thesis
    by (simp add: startRegister_def ServiceRegister_def on_client_def new_LeaseManager_def leaseGrant_def
        curlRequest_def next_reply_def EtcdClient_def sbind_def set_io_uring_timer_def request_values del: text_of.simps)
qed

text \<open>The requests of an update, when every response fits the buffer.\<close>

definition all_fit :: "etcd \<Rightarrow> bool" where
  "all_fit e \<longleftrightarrow> buffer_wf (response_data e) \<and> content (response_data e) = [] \<and>
     (\<forall>r \<in> set (replies e). curl_ok r \<and> http_code r = 200 \<and> length (reply_body r) \<le> 1023)"

lemma curlRequest_fit:
  assumes "all_fit e" "dump_text q = Inr t"
  shows "\<exists>s e'. curlRequest path q e = (Inr s, e') \<and> all_fit e' \<and>
    requests e' = requests e @ [(etcd_client_url e @ path, t)] \<and> etcd_client_url e' = etcd_client_url e \<and>
    replies e' = tl (replies e) \<and> s = (case replies e of [] \<Rightarrow> [] | r # rs \<Rightarrow> reply_body r)"
proof (cases "replies e")
  case Nil
  with assms show ?thesis
    by (auto simp: curlRequest_def sbind_def next_reply_def all_fit_def)
next
  case (Cons r rs)
  have "readableBytes (response_data e) = 0" using assms by (metis all_fit_def length_content list.size(3))
  then have "writableBytes (response_data e) = 1023" by (simp add: writableBytes_def MAX_BUFFER_SIZE_def)
  then show ?thesis
    using assms Cons curlRequest_eq [of e r rs q t path] by (auto simp: all_fit_def)
qed

definition put_value :: "string \<Rightarrow> bytes \<Rightarrow> string \<Rightarrow> json" where
  "put_value lid value key =
     J_obj ((''key'', J_str (base64Encoding (bytes_of key))) # (if lid \<noteq> ''0'' then [(''lease'', J_str lid)] else []) @
       [(''value'', J_str (base64Encoding value))])"

definition put_request :: "string \<Rightarrow> bytes \<Rightarrow> string \<Rightarrow> string \<times> string" where
  "put_request lid value key = (''/v3/kv/put'', text_of (put_value lid value key))"

lemma lease_put_eq: "lease_put lm (bytes_of key) info = sthen (curlRequest ''/v3/kv/put'' (put_value (lease_id lm) info key)) (sret ())"
  by (cases "lease_id lm = ''0''") (auto simp: fun_eq_iff lease_put_def etcd_put_def put_value_def request_values sbind_def Let_def)

lemma dump_put_value: "utf8_ok lid \<Longrightarrow> dump_text (put_value lid value key) = Inr (text_of (put_value lid value key))"
  unfolding put_value_def by (rule dump_text_eq) (simp add: exact_requests del: exact.simps)

lemma put_services_requests:
  "all_fit e \<Longrightarrow> utf8_ok (lease_id lm) \<Longrightarrow> \<exists>e'. put_services ip lm info svcs e = (Inr (), e') \<and>
     requests e' = requests e @ map (\<lambda>n. (\<lambda>(p, q). (etcd_client_url e @ p, q))
       (put_request (lease_id lm) info (service_key ip n))) svcs"
proof (induction svcs arbitrary: e)
  case (Cons n svcs)
  from curlRequest_fit [OF Cons.prems(1) dump_put_value [OF Cons.prems(2)], of "''/v3/kv/put''" info "service_key ip n"]
  obtain s e1 where
    1: "curlRequest ''/v3/kv/put'' (put_value (lease_id lm) info (service_key ip n)) e = (Inr s, e1)" "all_fit e1"
       "requests e1 = requests e @ [(etcd_client_url e @ ''/v3/kv/put'', text_of (put_value (lease_id lm) info (service_key ip n)))]"
       "etcd_client_url e1 = etcd_client_url e"
    by auto
  have "lease_put lm (bytes_of (service_key ip n)) info e = (Inr (), e1)"
    using 1(1) by (simp add: lease_put_eq sbind_def)
  moreover from Cons.IH [OF 1(2) Cons.prems(2)] obtain e' where "put_services ip lm info svcs e1 = (Inr (), e')"
     "requests e' = requests e1 @ map (\<lambda>n. (\<lambda>(p, q). (etcd_client_url e1 @ p, q))
       (put_request (lease_id lm) info (service_key ip n))) svcs" by blast
  ultimately show ?case using 1 by (auto simp: sbind_def split_def put_request_def)
qed simp

text \<open>One heartbeat of a running register sends the keep-alive of its lease twice, asks for a new
  lease when the second answer reads as expired, and then publishes the node information once under
  the key of every registered service, bound to the lease it has by then. Every request is the text of its
  JSON value; the answers must not make \<open>get<int>\<close> undefined.\<close>

theorem update_publishes_every_service:
  assumes "all_fit (client r)" and "\<not> stoping r" and "lease_mgr r = Some lm" and "utf8_ok (lease_id lm)"
    and "read_ttl (case replies (client r) of [] \<Rightarrow> [] | x # xs \<Rightarrow> reply_body x) = Inr t1"
    and "read_ttl (case drop 1 (replies (client r)) of [] \<Rightarrow> [] | x # xs \<Rightarrow> reply_body x) = Inr t2"
  shows "\<exists>r' lm'. updateNodeInfo ip info r = (Inr (), r') \<and> lease_mgr r' = Some lm' \<and>
     timers r' = timers r + 1 \<and>
     (let keepalive = (''/v3/lease/keepalive'', text_of (J_obj [(''ID'', J_str (lease_id lm))]));
          regrant = (if t2 < 0
                     then [(''/v3/lease/grant'', text_of (J_obj [(''TTL'', J_int (word_of_int (lease_ttl lm)))]))] else [])
      in requests (client r') = requests (client r) @
           map (\<lambda>(p, q). (etcd_client_url (client r) @ p, q))
             (keepalive # keepalive # regrant @
              map (\<lambda>n. put_request (lease_id lm') info (service_key ip n)) (services_name r)))"
proof -
  let ?e = "client r" and ?u = "etcd_client_url (client r)"
  let ?q = "J_obj [(''ID'', J_str (lease_id lm))]"
  have dq: "dump_text ?q = Inr (text_of ?q)" using assms(4) by (intro dump_text_eq exact_requests)
  define first second where "first = (case replies ?e of [] \<Rightarrow> [] | x # xs \<Rightarrow> reply_body x)"
    and "second = (case drop 1 (replies ?e) of [] \<Rightarrow> [] | x # xs \<Rightarrow> reply_body x)"
  from curlRequest_fit [OF assms(1) dq, of "''/v3/lease/keepalive''"] obtain e1 where
    1: "curlRequest ''/v3/lease/keepalive'' ?q ?e = (Inr first, e1)" "all_fit e1"
      "requests e1 = requests ?e @ [(?u @ ''/v3/lease/keepalive'', text_of ?q)]" "etcd_client_url e1 = ?u"
      "replies e1 = tl (replies ?e)" by (auto simp: first_def simp del: text_of.simps)
  from curlRequest_fit [OF 1(2) dq, of "''/v3/lease/keepalive''"] 1 obtain e2 where
    2: "curlRequest ''/v3/lease/keepalive'' ?q e1 = (Inr second, e2)" "all_fit e2"
      "requests e2 = requests ?e @ [(?u @ ''/v3/lease/keepalive'', text_of ?q), (?u @ ''/v3/lease/keepalive'', text_of ?q)]"
      "etcd_client_url e2 = ?u" by (auto simp: second_def drop_Suc simp del: text_of.simps)
  have ttl: "read_ttl first = Inr t1" "read_ttl second = Inr t2" using assms(5,6) by (simp_all add: first_def second_def)
  let ?g = "J_obj [(''TTL'', J_int (word_of_int (lease_ttl lm)))]"
  from curlRequest_fit [OF 2(2) dump_text_plain [OF plain_grant [of "word_of_int (lease_ttl lm)"]], of "''/v3/lease/grant''"] 2 obtain s3 e3 where
    3: "curlRequest ''/v3/lease/grant'' ?g e2 = (Inr s3, e3)" "all_fit e3"
      "requests e3 = requests e2 @ [(?u @ ''/v3/lease/grant'', text_of ?g)]" "etcd_client_url e3 = ?u"
    by (auto simp del: text_of.simps)
  obtain i3 where i3: "read_grant s3 = Inr i3" "utf8_ok i3" using read_grant_returns by blast
  define regrant where "regrant = (if t2 < 0 then [(''/v3/lease/grant'', text_of ?g)] else [])"
  obtain lm' e4 where
    4: "healthCheck lm ?e = (Inr lm', e4)" "all_fit e4" "etcd_client_url e4 = ?u"
      "requests e4 = requests e2 @ map (\<lambda>(p, q). (?u @ p, q)) regrant" "utf8_ok (lease_id lm')"
  proof (cases "t2 < 0")
    case True
    with 1 2 3 i3 ttl show ?thesis
      by (intro that [of "lm\<lparr>lease_id := i3\<rparr>" e3])
        (simp_all add: healthCheck_def leastTimeToLive_def leaseGrant_def request_values sbind_def regrant_def del: text_of.simps)
  next
    case False
    with 1 2 ttl assms(4) show ?thesis
      by (intro that [of lm e2]) (simp_all add: healthCheck_def leastTimeToLive_def request_values sbind_def regrant_def del: text_of.simps)
  qed
  from put_services_requests [OF 4(2,5), of ip info "services_name r"] 4(3) obtain e5 where
    5: "put_services ip lm' info (services_name r) e4 = (Inr (), e5)"
      "requests e5 = requests e4 @ map (\<lambda>n. (\<lambda>(p, q). (?u @ p, q)) (put_request (lease_id lm') info (service_key ip n)))
         (services_name r)" by auto
  show ?thesis
    unfolding Let_def regrant_def [symmetric]
    using assms(2,3) 2(3) 4 5
    by (simp add: updateNodeInfo_def Let_def sbind_def on_client_def callback_healthCheck_def set_io_uring_timer_def
        comp_def del: text_of.simps)
qed

definition ttl_text :: bytes where
  "ttl_text = bytes_of (CHR ''{'' # quoted ''TTL'' @ '':20}'')"

theorem update_publishes_every_service_witness:
  "\<exists>r'. updateNodeInfo ''10.0.0.1'' [9]
     ((ServiceRegister 20 ''u'' [ok_reply ttl_text, ok_reply ttl_text])
        \<lparr>lease_mgr := Some \<lparr>lease_id = ''77'', lease_ttl = 20\<rparr>, services_name := [''A'', ''B'']\<rparr>) = (Inr (), r') \<and>
     length (requests (client r')) = 4"
proof -
  let ?r = "(ServiceRegister 20 ''u'' [ok_reply ttl_text, ok_reply ttl_text])
        \<lparr>lease_mgr := Some \<lparr>lease_id = ''77'', lease_ttl = 20\<rparr>, services_name := [''A'', ''B'']\<rparr>"
  have "length ttl_text = 10" by code_simp
  then have fit: "all_fit (client ?r)"
    using buffer_wf_new by (simp add: all_fit_def ServiceRegister_def EtcdClient_def ok_reply_def reply_body_def)
  have ttl: "read_ttl ttl_text = Inr 20" by code_simp
  have "requests (client ?r) = []" "replies (client ?r) = [ok_reply ttl_text, ok_reply ttl_text]"
    by (simp_all add: ServiceRegister_def EtcdClient_def)
  moreover have "reply_body (ok_reply ttl_text) = ttl_text" by (simp add: ok_reply_def reply_body_def)
  moreover have "utf8_ok ''77''" by (simp add: utf8_lead_def)
  ultimately show ?thesis
    using update_publishes_every_service [OF fit, of "\<lparr>lease_id = ''77'', lease_ttl = 20\<rparr>" 20 20 "''10.0.0.1''" "[9]"] ttl
    by (auto simp: Let_def ServiceRegister_def simp del: text_of.simps)
qed

end
