(* ===== verification/Thread_Pool.thy ===== *)
theory Thread_Pool
  imports Fifo
begin

text \<open>
  include/hipe and src/hipe: the task wrapper \<open>HipeTask\<close> and the class \<open>DynamicThreadPool\<close>. The pool is a
  step relation over its queue, its flags and the position of every worker in its loop. A worker holds
  \<open>shared_lock\<close> from the moment it takes a task until the task has run, because the lock guard lives to
  the end of the loop body. \<open>accepted\<close>, \<open>started\<close> and \<open>finished\<close> record what happened.
\<close>

section \<open>Tasks\<close>

text \<open>A wrapper owns its callable or, after a move, nothing; calling it then is undefined.\<close>

type_synonym 'f hipe_task = "'f option"

definition HipeTask :: "'f \<Rightarrow> 'f hipe_task" where
  "HipeTask foo = Some foo"

definition move_task :: "'f hipe_task \<Rightarrow> 'f hipe_task \<times> 'f hipe_task" where
  "move_task other = (other, None)"

text \<open>Move assignment deletes the callable of the target first. The result is the deleted callable, the target
  and the source.\<close>

definition assign_task :: "'f hipe_task \<Rightarrow> 'f hipe_task \<Rightarrow> 'f hipe_task \<times> 'f hipe_task \<times> 'f hipe_task" where
  "assign_task this other = (this, other, None)"

definition call_task :: "'f hipe_task \<Rightarrow> 'f cxx" where
  "call_task t = of_optionE Undefined t"

section \<open>The pool\<close>

datatype 't worker = Top | Waiting_cv | is_Running: Running 't | Exited

record 't thread_pool =
  tasks :: "'t hipe_task list"
  max_task_num :: nat
  waiting :: bool
  stop :: bool
  workers :: "nat \<Rightarrow> 't worker"
  lock :: "nat option"
  accepted :: "'t list"
  started :: "'t list"
  finished :: "'t list"

text \<open>The constructor starts the workers \<open>0\<close> to \<open>th_num - 1\<close>; the others do not exist.\<close>

definition DynamicThreadPool :: "nat \<Rightarrow> 't thread_pool" where
  "DynamicThreadPool th_num =
     \<lparr>tasks = [], max_task_num = 1000, waiting = False, stop = False,
      workers = (\<lambda>i. if i < th_num then Top else Exited), lock = None, accepted = [], started = [], finished = []\<rparr>"

text \<open>\<open>getInstance\<close>: the first call fixes the number of threads.\<close>

definition getInstance :: "nat \<Rightarrow> 't thread_pool option \<Rightarrow> 't thread_pool option" where
  "getInstance th_num instance = (case instance of None \<Rightarrow> Some (DynamicThreadPool th_num) | Some p \<Rightarrow> Some p)"

text \<open>\<open>execute\<close> and \<open>submit\<close>, which differ in what they return; the pool must not be locked.\<close>

definition execute :: "'t \<Rightarrow> 't thread_pool \<Rightarrow> 't thread_pool" where
  "execute task p =
     (if waiting p then p
      else if max_task_num p \<le> length (tasks p) then p
      else p\<lparr>tasks := tasks p @ [HipeTask task], accepted := accepted p @ [task]\<rparr>)"

definition submit :: "'t \<Rightarrow> 't thread_pool \<Rightarrow> bool \<times> 't thread_pool" where
  "submit task p =
     (if waiting p then (False, p)
      else if max_task_num p \<le> length (tasks p) then (False, p)
      else (True, execute task p))"

definition setMaxTaskNum :: "nat \<Rightarrow> 't thread_pool \<Rightarrow> 't thread_pool" where
  "setMaxTaskNum num p = p\<lparr>max_task_num := num\<rparr>"

text \<open>
  A worker that holds the lock and looks at the predicate of \<open>wait_cv\<close>: it sleeps and gives the lock
  back, leaves the loop, or takes the front task and calls it, still with the lock.
\<close>

definition take_turn :: "nat \<Rightarrow> 't thread_pool \<Rightarrow> 't thread_pool" where
  "take_turn w p =
     (if tasks p = [] \<and> \<not> stop p then p\<lparr>workers := (workers p)(w := Waiting_cv)\<rparr>
      else if stop p then p\<lparr>workers := (workers p)(w := Exited)\<rparr>
      else case call_task (fst (move_task (hd (tasks p)))) of
             Inl e \<Rightarrow> p
           | Inr t \<Rightarrow> p\<lparr>tasks := tl (tasks p), workers := (workers p)(w := Running t), lock := Some w,
                        started := started p @ [t]\<rparr>)"

inductive tp_step :: "'t thread_pool \<Rightarrow> 't thread_pool \<Rightarrow> bool" where
  Execute: "lock p = None \<Longrightarrow> tp_step p (execute t p)"
| Leave: "workers p w = Top \<Longrightarrow> stop p \<Longrightarrow> tp_step p (p\<lparr>workers := (workers p)(w := Exited)\<rparr>)"
| Enter: "workers p w = Top \<Longrightarrow> \<not> stop p \<Longrightarrow> lock p = None \<Longrightarrow> tp_step p (take_turn w p)"
| Wake: "workers p w = Waiting_cv \<Longrightarrow> lock p = None \<Longrightarrow> tp_step p (take_turn w p)"
| Finish: "workers p w = Running t \<Longrightarrow>
    tp_step p (p\<lparr>workers := (workers p)(w := Top), lock := None, finished := finished p @ [t]\<rparr>)"
| Wait_begin: "tp_step p (p\<lparr>waiting := True\<rparr>)"
| Wait_end: "waiting p \<Longrightarrow> lock p = None \<Longrightarrow> tasks p = [] \<Longrightarrow> tp_step p (p\<lparr>waiting := False\<rparr>)"
| Close_begin: "tp_step p (p\<lparr>stop := True\<rparr>)"
| Close_end: "stop p \<Longrightarrow> \<forall>w. workers p w = Exited \<Longrightarrow> tp_step p (p\<lparr>stop := False\<rparr>)"

inductive tp_reachable :: "nat \<Rightarrow> 't thread_pool \<Rightarrow> bool" for n where
  Start: "tp_reachable n (DynamicThreadPool n)"
| Step: "tp_reachable n p \<Longrightarrow> tp_step p p' \<Longrightarrow> tp_reachable n p'"

section \<open>Invariant\<close>

definition running_now :: "'t thread_pool \<Rightarrow> 't list" where
  "running_now p = (case lock p of None \<Rightarrow> [] | Some w \<Rightarrow> (case workers p w of Running t \<Rightarrow> [t] | _ \<Rightarrow> []))"

text \<open>The lock is held by the worker that runs a task, and by nobody else.\<close>

definition lock_ok :: "'t thread_pool \<Rightarrow> bool" where
  "lock_ok p \<longleftrightarrow> (\<forall>w. is_Running (workers p w) \<longleftrightarrow> lock p = Some w)"

definition work_ok :: "'t thread_pool \<Rightarrow> bool" where
  "work_ok p \<longleftrightarrow> None \<notin> set (tasks p) \<and> started p @ map the (tasks p) = accepted p \<and>
     length (tasks p) \<le> max_task_num p"

definition tp_inv :: "'t thread_pool \<Rightarrow> bool" where
  "tp_inv p \<longleftrightarrow> lock_ok p \<and> work_ok p \<and> started p = finished p @ running_now p"

lemma running_now_simps:
  "lock p = None \<Longrightarrow> running_now p = []"
  "lock p = Some w \<Longrightarrow> workers p w = Running t \<Longrightarrow> running_now p = [t]"
  by (simp_all add: running_now_def)

lemma tp_inv_start: "tp_inv (DynamicThreadPool n)"
  by (simp add: tp_inv_def lock_ok_def work_ok_def DynamicThreadPool_def running_now_def)

lemma lock_ok_cong: "lock q = lock p \<Longrightarrow> workers q = workers p \<Longrightarrow> lock_ok q = lock_ok p"
  by (simp add: lock_ok_def)

lemma running_now_cong: "lock q = lock p \<Longrightarrow> workers q = workers p \<Longrightarrow> running_now q = running_now p"
  by (simp only: running_now_def)

lemma work_ok_cong:
  "tasks q = tasks p \<Longrightarrow> started q = started p \<Longrightarrow> accepted q = accepted p \<Longrightarrow> max_task_num q = max_task_num p \<Longrightarrow>
     work_ok q = work_ok p"
  by (simp add: work_ok_def)

lemma execute_fields [simp]:
  "lock (execute t p) = lock p" "workers (execute t p) = workers p" "started (execute t p) = started p"
  "finished (execute t p) = finished p" "stop (execute t p) = stop p" "waiting (execute t p) = waiting p"
  by (simp_all add: execute_def)

lemma tp_inv_execute: "tp_inv p \<Longrightarrow> tp_inv (execute t p)"
proof -
  assume inv: "tp_inv p"
  then have w: "work_ok p" by (simp add: tp_inv_def)
  then have "accepted p = started p @ map the (tasks p)" by (simp add: work_ok_def)
  with w have "work_ok (execute t p)" by (simp add: work_ok_def execute_def HipeTask_def)
  with inv show ?thesis
    using lock_ok_cong [of "execute t p" p] running_now_cong [of "execute t p" p] by (simp add: tp_inv_def)
qed

text \<open>Changes that leave the work alone.\<close>

lemma tp_inv_flags: "tp_inv p \<Longrightarrow> tp_inv (p\<lparr>waiting := b\<rparr>)" "tp_inv p \<Longrightarrow> tp_inv (p\<lparr>stop := b\<rparr>)"
  using lock_ok_cong [of "p\<lparr>waiting := b\<rparr>" p] running_now_cong [of "p\<lparr>waiting := b\<rparr>" p]
    lock_ok_cong [of "p\<lparr>stop := b\<rparr>" p] running_now_cong [of "p\<lparr>stop := b\<rparr>" p]
    work_ok_cong [of "p\<lparr>waiting := b\<rparr>" p] work_ok_cong [of "p\<lparr>stop := b\<rparr>" p]
  by (simp_all add: tp_inv_def)

lemma tp_inv_idle:
  assumes "tp_inv p" "\<not> is_Running (workers p w)" "\<not> is_Running x"
  shows "tp_inv (p\<lparr>workers := (workers p)(w := x)\<rparr>)" (is "tp_inv ?q")
proof -
  have l: "lock p \<noteq> Some w" using assms(1,2) by (auto simp: tp_inv_def lock_ok_def)
  then have "running_now ?q = running_now p"
    by (auto simp: running_now_def split: option.split)
  moreover have "lock_ok ?q" using assms l by (simp add: tp_inv_def lock_ok_def)
  moreover have "work_ok ?q = work_ok p" by (rule work_ok_cong) simp_all
  ultimately show ?thesis using assms(1) by (simp add: tp_inv_def)
qed

lemma tp_inv_take_turn:
  assumes inv: "tp_inv p" and l: "lock p = None" and w: "workers p w = Top \<or> workers p w = Waiting_cv"
  shows "tp_inv (take_turn w p)"
proof -
  have nr: "\<not> is_Running (workers p w)" using w by auto
  have lk: "lock_ok p" and wk: "work_ok p" and st: "started p = finished p"
    using inv l by (simp_all add: tp_inv_def running_now_simps)
  show ?thesis
  proof (cases "stop p \<or> tasks p = []")
    case True
    then show ?thesis
      using tp_inv_idle [OF inv nr] by (auto simp: take_turn_def)
  next
    case False
    then obtain x ts where xts: "tasks p = x # ts" by (cases "tasks p") auto
    with wk obtain t where "x = Some t" by (cases x) (auto simp: work_ok_def)
    with xts have ts: "tasks p = Some t # ts" by simp
    then have eq: "take_turn w p = p\<lparr>tasks := ts, workers := (workers p)(w := Running t), lock := Some w, started := started p @ [t]\<rparr>"
      using False by (simp add: take_turn_def move_task_def call_task_def)
    have "lock_ok (take_turn w p)" using lk l by (simp add: eq lock_ok_def)
    moreover have "work_ok (take_turn w p)" using wk ts by (simp add: eq work_ok_def)
    moreover have "running_now (take_turn w p) = [t]" by (simp add: eq running_now_def)
    ultimately show ?thesis using st by (simp add: tp_inv_def eq)
  qed
qed

lemma running_holds_lock: "tp_inv p \<Longrightarrow> workers p w = Running t \<Longrightarrow> lock p = Some w"
  by (metis lock_ok_def tp_inv_def worker.disc(3))

lemma tp_inv_step: "tp_step p p' \<Longrightarrow> tp_inv p \<Longrightarrow> tp_inv p'"
proof (induction rule: tp_step.induct)
  case (Finish p w t)
  let ?q = "p\<lparr>workers := (workers p)(w := Top), lock := None, finished := finished p @ [t]\<rparr>"
  have l: "lock p = Some w" by (rule running_holds_lock [OF Finish(2,1)])
  then have "lock_ok ?q" using Finish(2) by (auto simp: tp_inv_def lock_ok_def)
  moreover have "running_now p = [t]" "running_now ?q = []" using l Finish(1) by (simp_all add: running_now_simps)
  moreover have "work_ok ?q = work_ok p" by (rule work_ok_cong) simp_all
  ultimately show ?case using Finish(2) by (simp add: tp_inv_def)
next
  case (Leave p w)
  then show ?case by (intro tp_inv_idle) simp_all
qed (simp_all add: tp_inv_execute tp_inv_flags tp_inv_take_turn)

lemma tp_reachable_inv: "tp_reachable n p \<Longrightarrow> tp_inv p"
  by (induction rule: tp_reachable.induct) (auto intro: tp_inv_start tp_inv_step)

section \<open>Properties\<close>


lemma demo_tp: "tp_reachable 2 (take_turn 1 (execute (8 :: nat) (execute 7 (DynamicThreadPool 2))))"
proof -
  let ?p = "execute (7 :: nat) (DynamicThreadPool 2)"
  have "tp_reachable 2 (execute 8 ?p)"
    by (rule Step [OF Step [OF Start Execute] Execute]) (simp_all add: DynamicThreadPool_def execute_def)
  then show ?thesis by (rule Step [OF _ Enter]) (simp_all add: DynamicThreadPool_def execute_def)
qed

lemma demo_tp_eq:
  "take_turn 1 (execute (8 :: nat) (execute 7 (DynamicThreadPool 2))) =
     (DynamicThreadPool 2)\<lparr>tasks := [Some 8], accepted := [7, 8], started := [7], lock := Some 1,
        workers := (workers (DynamicThreadPool 2))(1 := Running 7)\<rparr>"
  by (simp add: take_turn_def execute_def DynamicThreadPool_def HipeTask_def move_task_def call_task_def)


text \<open>As long as a task runs, nothing can be added to the queue and no other task can start: every
  step but its end leaves both as they are. A task that submits another one to its own pool can
  therefore not go on.\<close>

theorem running_task_blocks_pool:
  assumes "tp_reachable n p" and "workers p w = Running t" and "tp_step p p'"
  shows "accepted p' = accepted p \<and> started p' = started p \<and>
         (workers p' w = Running t \<or> finished p' = finished p @ [t])"
proof -
  have inv: "tp_inv p" by (rule tp_reachable_inv [OF assms(1)])
  then have l: "lock p = Some w" using assms(2) by (rule running_holds_lock)
  from assms(3) show ?thesis
  proof cases
    case (Leave v)
    with assms(2) show ?thesis by auto
  next
    case (Finish v u)
    then have "v = w" using running_holds_lock [OF inv] l by fastforce
    with Finish assms(2) show ?thesis by simp
  qed (use l assms(2) in auto)
qed

theorem running_task_blocks_pool_witness:
  "\<exists>(p :: nat thread_pool) p'. tp_reachable 2 p \<and> tp_step p p' \<and> running_now p = [7] \<and> accepted p' = [7, 8] \<and> started p' = [7]"
proof -
  let ?p = "take_turn 1 (execute (8 :: nat) (execute 7 (DynamicThreadPool 2)))"
  have s: "tp_step ?p (?p\<lparr>waiting := True\<rparr>)" by (rule Wait_begin)
  have r: "workers ?p 1 = Running 7" by (simp only: demo_tp_eq) simp
  from running_task_blocks_pool [OF demo_tp r s] demo_tp s show ?thesis
    by (intro exI [of _ ?p] exI [of _ "?p\<lparr>waiting := True\<rparr>"] conjI) (simp_all only: demo_tp_eq, simp_all add: running_now_def)
qed

inductive tp_steps :: "'t thread_pool \<Rightarrow> 't thread_pool \<Rightarrow> bool" where
  Refl: "tp_steps p p"
| Next: "tp_steps p q \<Longrightarrow> tp_step q r \<Longrightarrow> tp_steps p r"

text \<open>After \<open>close\<close> the pool still accepts tasks, but no worker is left: in every state after it no
  task is ever started, so what is accepted waits for ever.\<close>

theorem closed_pool_starts_nothing:
  assumes "tp_steps p q" and "\<forall>w. workers p w = Exited"
  shows "started q = started p \<and> (\<forall>w. workers q w = Exited)"
  using assms
proof (induction rule: tp_steps.induct)
  case (Next p q r)
  then have "started q = started p" "\<forall>w. workers q w = Exited" by auto
  with Next(2) show ?case
    by (cases rule: tp_step.cases) (auto simp: execute_def)
qed simp

theorem closed_pool_starts_nothing_witness:
  "\<exists>q. tp_steps (DynamicThreadPool 0) q \<and> accepted q = [5 :: nat] \<and> started q = []"
proof -
  have s: "tp_steps (DynamicThreadPool 0) (execute (5 :: nat) (DynamicThreadPool 0))"
    by (rule Next [OF Refl Execute]) (simp add: DynamicThreadPool_def)
  have "\<forall>w. workers (DynamicThreadPool 0 :: nat thread_pool) w = Exited" by (simp add: DynamicThreadPool_def)
  from closed_pool_starts_nothing [OF s this] s show ?thesis
    by (intro exI [of _ "execute 5 (DynamicThreadPool 0)"]) (simp add: execute_def DynamicThreadPool_def)
qed

end
