(* ===== verification/Event_Loop.thy ===== *)
theory Event_Loop
  imports Provider Service_Register Thread_Pool "HOL-Library.Multiset"
begin

text \<open>
  The event loop \<open>RpcProvider::loop\<close> (src/Rpc/rpcprovider.cc) with everything it drives: the connections
  and their manager, the service register and the thread pool. Objects have addresses; a submission to
  io_uring carries the address of its object and the kind of event in its user data, and a completion is
  dispatched through it. What an object asks for while it handles a completion (the list \<open>out\<close> of a
  connection, the counters of the register) is carried out when its handler returns; a handler does not
  look at the state it changes that way. A prepared entry keeps the user data the code stores before
  calling the preparing function of liburing. A worker's task runs as one step.
\<close>

section \<open>State\<close>

datatype operation = Conn_op nat action | Timer_op

record submission =
  user_data :: u64
  operation :: operation

datatype task = Handle_request request_info | Update_node

text \<open>
  The parameters: the address of the \<open>n\<close>-th allocated connection and of the service register, the
  generated protobuf codecs and the text of \<open>getLocalIP\<close>.
\<close>

record env =
  conn_addr :: "nat \<Rightarrow> ptr"
  register_addr :: ptr
  parse_header :: "bytes \<Rightarrow> rpc_header"
  serialize_node :: "rpc_node_info \<Rightarrow> bytes"
  local_ip :: string

text \<open>
  \<open>submitted\<close> holds the entries of the submission queue that \<open>io_uring_submit\<close> has not passed on, \<open>inflight\<close>
  those the kernel has.
\<close>

record 'm server =
  server_prov :: "'m provider"
  reg :: register
  conns :: "tcp list"
  pond :: "task thread_pool"
  submitted :: "submission list"
  inflight :: "submission list"
  sq_entries :: nat

definition new_conn :: "env \<Rightarrow> nat \<Rightarrow> tcp" where
  "new_conn E n = TcpConnection (conn_addr E n) True"

definition new_server :: "env \<Rightarrow> 'm provider \<Rightarrow> register \<Rightarrow> nat \<Rightarrow> nat \<Rightarrow> 'm server" where
  "new_server E p g entries threads =
     \<lparr>server_prov = p, reg = g, conns = map (new_conn E) [0..<next_connection (conn_manager p)],
      pond = DynamicThreadPool threads, submitted = [], inflight = [], sq_entries = entries\<rparr>"

section \<open>What objects ask of the loop\<close>

text \<open>\<open>getOneSqe\<close>, the user data and the preparation of the entry.\<close>

definition prepare :: "ptr \<Rightarrow> u8 \<Rightarrow> operation \<Rightarrow> ('m server, unit) sm" where
  "prepare p ev op =
     sbind (slift (getIOUringUserdata p ev)) (\<lambda>u.
     smodify (\<lambda>s. s\<lparr>submitted := submitted s @ [\<lparr>user_data = u, operation = op\<rparr>]\<rparr>))"

definition asyncHandle :: "task \<Rightarrow> ('m server, unit) sm" where
  "asyncHandle t = smodify (\<lambda>s. s\<lparr>pond := execute t (pond s)\<rparr>)"

definition asyncHandleRequest :: "request_info \<Rightarrow> ('m server, unit) sm" where
  "asyncHandleRequest r = asyncHandle (Handle_request r)"

definition on_manager :: "(manager \<Rightarrow> manager) \<Rightarrow> ('m server, unit) sm" where
  "on_manager f = smodify (\<lambda>s. s\<lparr>server_prov := (server_prov s)\<lparr>conn_manager := f (conn_manager (server_prov s))\<rparr>\<rparr>)"

definition perform :: "env \<Rightarrow> nat \<Rightarrow> action \<Rightarrow> ('m server, unit) sm" where
  "perform E n a =
     (case a of
        Sqe_Accept \<Rightarrow> prepare (conn_addr E n) USER_EVENT_ACCEPT (Conn_op n a)
      | Sqe_Read iov \<Rightarrow> prepare (conn_addr E n) USER_EVENT_READ (Conn_op n a)
      | Sqe_Writev ev iov \<Rightarrow> prepare (conn_addr E n) ev (Conn_op n a)
      | Sqe_Close fd \<Rightarrow> prepare (conn_addr E n) USER_EVENT_CLOSE (Conn_op n a)
      | Dispatch r \<Rightarrow> asyncHandleRequest r
      | Accept_Done \<Rightarrow> on_manager acceptDone
      | Send_Back \<Rightarrow> on_manager (sendBack n))"

fun perform_all :: "env \<Rightarrow> nat \<Rightarrow> action list \<Rightarrow> ('m server, unit) sm" where
  "perform_all E n [] = sret ()"
| "perform_all E n (a # as) = sthen (perform E n a) (perform_all E n as)"

text \<open>A member function of connection \<open>n\<close> has returned \<open>r\<close> (or thrown) and left the object as \<open>c\<close>.\<close>

definition finish_conn :: "env \<Rightarrow> nat \<Rightarrow> 'a cxx \<times> tcp \<Rightarrow> ('m server, 'a) sm" where
  "finish_conn E n rc s =
     sthen (perform_all E n (out (snd rc))) (slift (fst rc)) (s\<lparr>conns := (conns s)[n := snd rc]\<rparr>)"

definition on_conn :: "env \<Rightarrow> nat \<Rightarrow> (tcp, 'a) sm \<Rightarrow> ('m server, 'a) sm" where
  "on_conn E n m s = finish_conn E n (m ((conns s ! n)\<lparr>out := []\<rparr>)) s"

fun times :: "nat \<Rightarrow> ('s, unit) sm \<Rightarrow> ('s, unit) sm" where
  "times 0 m = sret ()"
| "times (Suc k) m = sthen m (times k m)"

text \<open>A member function of the register; new timers and new tasks are those its counters gained.\<close>

definition on_register :: "env \<Rightarrow> (register, 'a) sm \<Rightarrow> ('m server, 'a) sm" where
  "on_register E m s =
     (case m (reg s) of (r, g) \<Rightarrow>
        sthen (times (timers g - timers (reg s))
                 (prepare (register_addr E) (word_of_int ETCD_EVENT_TIMEOUT) Timer_op)) (
        sthen (times (register.tasks g - register.tasks (reg s)) (asyncHandle Update_node))
          (slift r)) (s\<lparr>reg := g\<rparr>))"

section \<open>Completions\<close>

record cqe =
  of_submission :: submission
  res :: int
  received_data :: bytes

text \<open>The object at an address.\<close>

definition conn_at :: "env \<Rightarrow> ptr \<Rightarrow> 'm server \<Rightarrow> nat option" where
  "conn_at E p s = List.find (\<lambda>n. conn_addr E n = p) [0..<length (conns s)]"

text \<open>The virtual call of \<open>do_io_uring\<close>; \<open>None\<close> is a handler that does not return.\<close>

definition virtual_do_io_uring ::
  "env \<Rightarrow> ptr \<Rightarrow> int \<Rightarrow> int \<Rightarrow> 'm server \<Rightarrow> (unit cxx \<times> 'm server) option" where
  "virtual_do_io_uring E p last_res ev s =
     (if p = register_addr E then Some (on_register E (register_do_io_uring last_res ev) s)
      else case conn_at E p s of
             None \<Rightarrow> Some (Inl Undefined, s)
           | Some n \<Rightarrow> map_option (\<lambda>rc. finish_conn E n rc s)
                         (do_io_uring (parse_header E) last_res ev ((conns s ! n)\<lparr>out := []\<rparr>)))"

text \<open>Which member function a completion calls, and with what.\<close>

definition callee :: "u64 \<Rightarrow> int \<Rightarrow> (ptr \<times> int \<times> int) cxx" where
  "callee ud r = executeIOUringCallback (\<lambda>p last_res ev. Inr (p, last_res, ev)) ud r"

text \<open>The kernel has stored the bytes of a read through the segments it was submitted with.\<close>

definition kernel_store :: "cqe \<Rightarrow> 'm server \<Rightarrow> 'm server" where
  "kernel_store q s =
     (case operation (of_submission q) of
        Conn_op n (Sqe_Read iov) \<Rightarrow>
          (let c = conns s ! n; rb = read_buffer c
           in s\<lparr>conns := (conns s)[n := c\<lparr>read_buffer := rb\<lparr>buf := scatter iov (received_data q) (buf rb)\<rparr>\<rparr>]\<rparr>)
      | _ \<Rightarrow> s)"

definition handle_cqe :: "env \<Rightarrow> cqe \<Rightarrow> 'm server \<Rightarrow> (unit cxx \<times> 'm server) option" where
  "handle_cqe E q s =
     (let s1 = kernel_store q (s\<lparr>inflight := remove1 (of_submission q) (inflight s)\<rparr>)
      in case callee (user_data (of_submission q)) (res q) of
           Inl e \<Rightarrow> Some (Inl e, s1)
         | Inr (p, last_res, ev) \<Rightarrow> virtual_do_io_uring E p last_res ev s1)"

fun handle_cqes :: "env \<Rightarrow> cqe list \<Rightarrow> 'm server \<Rightarrow> (unit cxx \<times> 'm server) option" where
  "handle_cqes E [] s = Some (Inr (), s)"
| "handle_cqes E (q # qs) s =
     (case handle_cqe E q s of
        Some (Inr u, s') \<Rightarrow> handle_cqes E qs s'
      | r \<Rightarrow> r)"

section \<open>The loop\<close>

fun accept_all :: "env \<Rightarrow> nat list \<Rightarrow> ('m server, unit) sm" where
  "accept_all E [] = sret ()"
| "accept_all E (n # ns) = sthen (on_conn E n Connection.accept) (accept_all E ns)"

definition fill_accepts :: "env \<Rightarrow> ('m server, unit) sm" where
  "fill_accepts E s =
     (let m = acceptForCount (int (sq_entries s div 4)) ((conn_manager (server_prov s))\<lparr>accepts := []\<rparr>)
      in accept_all E (accepts m)
           (s\<lparr>server_prov := (server_prov s)\<lparr>conn_manager := m\<rparr>,
              conns := conns s @ map (new_conn E) [length (conns s)..<next_connection m]\<rparr>))"

definition io_uring_submit :: "'m server \<Rightarrow> 'm server" where
  "io_uring_submit s = s\<lparr>inflight := inflight s @ submitted s, submitted := []\<rparr>"

text \<open>One turn of the loop up to the completions, and with the completions \<open>qs\<close> it finds.\<close>

definition begin_turn :: "env \<Rightarrow> ('m server, unit) sm" where
  "begin_turn E = sthen (fill_accepts E) (smodify io_uring_submit)"

definition loop_turn :: "env \<Rightarrow> cqe list \<Rightarrow> 'm server \<Rightarrow> (unit cxx \<times> 'm server) option" where
  "loop_turn E qs s =
     (case begin_turn E s of
        (Inl e, s1) \<Rightarrow> Some (Inl e, s1)
      | (Inr u, s1) \<Rightarrow> handle_cqes E qs s1)"

fun register_all :: "env \<Rightarrow> string list \<Rightarrow> ('m server, unit) sm" where
  "register_all E [] = sret ()"
| "register_all E (k # ks) = sthen (on_register E (registerService k)) (register_all E ks)"

definition set_status :: "provider_status \<Rightarrow> ('m server, unit) sm" where
  "set_status st = smodify (\<lambda>s. s\<lparr>server_prov := (server_prov s)\<lparr>prov_status := st\<rparr>\<rparr>)"

text \<open>\<open>names\<close> are the keys of the service table in the order of its iteration.\<close>

definition loop_begin :: "env \<Rightarrow> string list \<Rightarrow> ('m server, unit) sm" where
  "loop_begin E names =
     sthen (register_all E names) (
     sthen (on_register E startRegister) (set_status PROVIDER_LOOPING))"

text \<open>
  The loop against what happens outside: before each test of the status a SIGINT may come in, and each
  turn finds some completions. \<open>None\<close>: the loop has not returned when the list ends.
\<close>

fun while_looping :: "env \<Rightarrow> (bool \<times> cqe list) list \<Rightarrow> 'm server \<Rightarrow> (unit cxx \<times> 'm server) option" where
  "while_looping E [] s = None"
| "while_looping E ((sigint, qs) # rest) s =
     (let s1 = (if sigint then s\<lparr>server_prov := sigint_handler 2 (server_prov s)\<rparr> else s)
      in if prov_status (server_prov s1) = PROVIDER_LOOPING then
           (case loop_turn E qs s1 of
              Some (Inr u, s2) \<Rightarrow> while_looping E rest s2
            | r \<Rightarrow> r)
         else Some (on_register E stopRegister s1))"

definition provider_loop ::
  "env \<Rightarrow> string list \<Rightarrow> (bool \<times> cqe list) list \<Rightarrow> 'm server \<Rightarrow> (unit cxx \<times> 'm server) option" where
  "provider_loop E names outside s =
     (case loop_begin E names s of
        (Inl e, s1) \<Rightarrow> Some (Inl e, s1)
      | (Inr u, s1) \<Rightarrow> while_looping E outside s1)"

section \<open>Workers\<close>

text \<open>
  The lambda of \<open>asyncHandleRequest\<close> and the bound \<open>updateNodeInfo\<close>. \<open>getNodeInfo\<close> is called only when
  the register is not stopping.
\<close>

definition run_task :: "env \<Rightarrow> task \<Rightarrow> ('m server, unit) sm" where
  "run_task E t s =
     (case t of
        Handle_request r \<Rightarrow>
          (case conn_at E (conn r) s of
             None \<Rightarrow> (fst (handle_request (server_prov s) r None), s)
           | Some n \<Rightarrow> on_conn E n (\<lambda>c. case handle_request (server_prov s) r (Some c) of
                                       (x, Some c') \<Rightarrow> (x, c') | (x, None) \<Rightarrow> (x, c)) s)
      | Update_node \<Rightarrow>
          (case getNodeInfo (serialize_node E) (server_prov s) of (info, p) \<Rightarrow>
             on_register E (updateNodeInfo (local_ip E) info)
               (if stoping (reg s) then s else s\<lparr>server_prov := p\<rparr>)))"

text \<open>A worker that has the lock takes its turn, and runs the task it took.\<close>

definition work :: "env \<Rightarrow> nat \<Rightarrow> ('m server, unit) sm" where
  "work E w s =
     (let s1 = s\<lparr>pond := take_turn w (pond s)\<rparr> in
      case workers (pond s1) w of
        Running t \<Rightarrow>
          sthen (run_task E t)
            (smodify (\<lambda>s2. s2\<lparr>pond := (pond s2)\<lparr>workers := (workers (pond s2))(w := Top), lock := None,
                                            finished := finished (pond s2) @ [t]\<rparr>\<rparr>)) s1
      | _ \<Rightarrow> (Inr (), s1))"

section \<open>Runs\<close>

text \<open>What the allocator gives: user-space addresses below \<open>2 ^ 48\<close>, different for different objects.\<close>

definition is_address :: "ptr \<Rightarrow> bool" where
  "is_address p \<longleftrightarrow> p \<noteq> 0 \<and> p AND 0xFFFF000000000000 = 0"

definition addresses_ok :: "env \<Rightarrow> nat \<Rightarrow> bool" where
  "addresses_ok E k \<longleftrightarrow> is_address (register_addr E) \<and>
     (\<forall>n < k. is_address (conn_addr E n) \<and> conn_addr E n \<noteq> register_addr E) \<and> inj_on (conn_addr E) {..<k}"

text \<open>
  A run of the server from its construction: turns of the loop, each completing entries that the kernel
  has, tasks of the workers, and SIGINT. A step that ends abnormally ends the run.
\<close>

inductive server_step :: "env \<Rightarrow> 'm server \<Rightarrow> 'm server \<Rightarrow> bool" for E where
  Turn: "prov_status (server_prov s) = PROVIDER_LOOPING \<Longrightarrow> begin_turn E s = (Inr (), s1) \<Longrightarrow>
    addresses_ok E (length (conns s1)) \<Longrightarrow> mset (map of_submission qs) \<subseteq># mset (inflight s1) \<Longrightarrow>
    handle_cqes E qs s1 = Some (Inr (), s') \<Longrightarrow> server_step E s s'"
| Work: "workers (pond s) w = Top \<or> workers (pond s) w = Waiting_cv \<Longrightarrow> lock (pond s) = None \<Longrightarrow>
    work E w s = (Inr (), s') \<Longrightarrow> server_step E s s'"
| Sigint: "server_step E s (s\<lparr>server_prov := sigint_handler 2 (server_prov s)\<rparr>)"

inductive server_reachable :: "env \<Rightarrow> 'm server \<Rightarrow> bool" for E where
  Start: "RpcProvider inet_addr localIP (int entries) cfg = Inr p \<Longrightarrow>
    loop_begin E names (new_server E (fold Notify services p) (ServiceRegister t url rs) entries threads) = (Inr (), s) \<Longrightarrow>
    addresses_ok E (length (conns s)) \<Longrightarrow> server_reachable E s"
| Step: "server_reachable E s \<Longrightarrow> server_step E s s' \<Longrightarrow> server_reachable E s'"

section \<open>Invariant\<close>

text \<open>The owner of an entry and the kind of event it completes with.\<close>

fun owner :: "env \<Rightarrow> operation \<Rightarrow> ptr" where
  "owner E (Conn_op n a) = conn_addr E n"
| "owner E Timer_op = register_addr E"

fun event_kind :: "operation \<Rightarrow> u8" where
  "event_kind (Conn_op n Sqe_Accept) = USER_EVENT_ACCEPT"
| "event_kind (Conn_op n (Sqe_Read iov)) = USER_EVENT_READ"
| "event_kind (Conn_op n (Sqe_Writev ev iov)) = ev"
| "event_kind (Conn_op n a) = USER_EVENT_CLOSE"
| "event_kind Timer_op = word_of_int ETCD_EVENT_TIMEOUT"

definition submission_ok :: "env \<Rightarrow> nat \<Rightarrow> submission \<Rightarrow> bool" where
  "submission_ok E k e \<longleftrightarrow> getIOUringUserdata (owner E (operation e)) (event_kind (operation e)) = Inr (user_data e) \<and>
     (case operation e of Conn_op n a \<Rightarrow> n < k | Timer_op \<Rightarrow> True)"

definition task_ok :: "env \<Rightarrow> nat \<Rightarrow> task \<Rightarrow> bool" where
  "task_ok E k t \<longleftrightarrow> (case t of Handle_request r \<Rightarrow> \<exists>n < k. conn r = conn_addr E n | Update_node \<Rightarrow> True)"

text \<open>What a member function of a connection at address \<open>p\<close> leaves.\<close>

definition conn_ok :: "ptr \<Rightarrow> tcp \<Rightarrow> bool" where
  "conn_ok p c \<longleftrightarrow> self c = p \<and> (\<forall>r \<in> set (dispatched (out c)). conn r = p)"

text \<open>The server with \<open>k\<close> allocated connections.\<close>

definition server_inv :: "env \<Rightarrow> nat \<Rightarrow> 'm server \<Rightarrow> bool" where
  "server_inv E k s \<longleftrightarrow>
     length (conns s) = k \<and> next_connection (conn_manager (server_prov s)) = k \<and>
     set (idle_pool (conn_manager (server_prov s))) \<subseteq> {..<k} \<and>
     (\<forall>n < k. self (conns s ! n) = conn_addr E n) \<and>
     (\<forall>e \<in> set (submitted s) \<union> set (inflight s). submission_ok E k e) \<and>
     (\<forall>t \<in> set (thread_pool.tasks (pond s)). \<forall>x. t = Some x \<longrightarrow> task_ok E k x)"

subsection \<open>Operations that preserve a predicate\<close>

text \<open>\<open>m\<close> keeps \<open>I\<close> whether it returns or throws.\<close>

definition preserves :: "('s \<Rightarrow> bool) \<Rightarrow> ('s, 'a) sm \<Rightarrow> bool" where
  "preserves I m \<longleftrightarrow> (\<forall>s. I s \<longrightarrow> I (snd (m s)))"

named_theorems preserves_intros

lemma preservesI: "(\<And>s. I s \<Longrightarrow> I (snd (m s))) \<Longrightarrow> preserves I m"
  by (simp add: preserves_def)

lemma preservesD: "preserves I m \<Longrightarrow> I s \<Longrightarrow> I (snd (m s))"
  by (simp add: preserves_def)

lemma preserves_basic [preserves_intros]:
  "preserves I (sret x)" "preserves I (slift r)" "(\<And>s. I s \<Longrightarrow> I (g s)) \<Longrightarrow> preserves I (smodify g)"
  by (simp_all add: preserves_def)

lemma preserves_sbind [preserves_intros]:
  "preserves I m \<Longrightarrow> (\<And>x. preserves I (f x)) \<Longrightarrow> preserves I (sbind m f)"
  by (auto simp: preserves_def sbind_def split: prod.splits sum.splits)

lemma preserves_sthen [preserves_intros]: "preserves I m \<Longrightarrow> preserves I n \<Longrightarrow> preserves I (sthen m n)"
  unfolding sthen_def by (rule preserves_sbind)

lemma preserves_times [preserves_intros]: "preserves I m \<Longrightarrow> preserves I (times j m)"
proof (induction j)
  case 0
  show ?case unfolding times.simps by (rule preserves_basic)
next
  case (Suc j)
  then show ?case unfolding times.simps by (intro preserves_sthen)
qed

subsection \<open>Connections keep their address\<close>

lemma conn_ok_frame [simp]:
  "conn_ok p (c\<lparr>read_buffer := rb\<rparr>) = conn_ok p c" "conn_ok p (c\<lparr>write_buffer := wb\<rparr>) = conn_ok p c"
  "conn_ok p (c\<lparr>to_send_bytes := i\<rparr>) = conn_ok p c" "conn_ok p (c\<lparr>clientfd := fd\<rparr>) = conn_ok p c"
  "conn_ok p (c\<lparr>connect_status := st\<rparr>) = conn_ok p c" "conn_ok p (c\<lparr>ri := i'\<rparr>) = conn_ok p c"
  "conn_ok p (c\<lparr>target_bytes := n\<rparr>) = conn_ok p c" "conn_ok p (c\<lparr>header_process := n\<rparr>) = conn_ok p c"
  by (simp_all add: conn_ok_def)

lemma conn_ok_out_nil [simp]: "conn_ok p (c\<lparr>out := []\<rparr>) \<longleftrightarrow> self c = p"
  by (simp add: conn_ok_def)

lemma conn_ok_emit:
  "conn_ok p c \<Longrightarrow> \<forall>r. a = Dispatch r \<longrightarrow> conn r = p \<Longrightarrow> conn_ok p (c\<lparr>out := out c @ [a]\<rparr>)"
  by (cases a) (auto simp: conn_ok_def)

text \<open>\<open>m\<close> leaves a connection at \<open>p\<close> as one, whether it throws or not.\<close>

abbreviation keeps_conn :: "ptr \<Rightarrow> (tcp, 'a) sm \<Rightarrow> bool" where
  "keeps_conn p \<equiv> preserves (conn_ok p)"

lemma keeps_conn_emit [preserves_intros]: "\<forall>r. a \<noteq> Dispatch r \<Longrightarrow> keeps_conn p (emit a)"
  by (rule preservesI) (simp add: emit_def conn_ok_emit)

lemma keeps_conn_read [preserves_intros]: "keeps_conn p tcp_read"
proof (rule preservesI)
  fix c assume c: "conn_ok p c"
  have "keeps_conn p (sbind (slift (writevBegin (read_buffer c))) (\<lambda>iov. emit (Sqe_Read iov)))"
    by (intro preserves_intros) simp
  from preservesD [OF this c] have "conn_ok p (snd (sbind (slift (writevBegin (read_buffer c))) (\<lambda>iov. emit (Sqe_Read iov)) c))" .
  then show "conn_ok p (snd (tcp_read c))"
    using c by (simp add: tcp_read_def)
qed

lemma keeps_conn_disconnect [preserves_intros]: "keeps_conn p disconnect_async"
  by (rule preservesI) (simp add: disconnect_async_def emit_def sbind_def conn_ok_emit)

lemma keeps_conn_accept: "keeps_conn p Connection.accept"
  by (rule preservesI) (simp add: Connection.accept_def emit_def sbind_def conn_ok_emit)

lemma keeps_conn_writev [preserves_intros]: "keeps_conn p (submit_writev ev)"
proof (rule preservesI)
  fix c assume c: "conn_ok p c"
  have "keeps_conn p (sbind (slift (readvBegin (write_buffer c))) (\<lambda>iov. emit (Sqe_Writev ev iov)))"
    by (intro preserves_intros) simp
  from preservesD [OF this c] have "conn_ok p (snd (sbind (slift (readvBegin (write_buffer c))) (\<lambda>iov. emit (Sqe_Writev ev iov)) c))" .
  then show "conn_ok p (snd (submit_writev ev c))"
    by (simp add: submit_writev_def)
qed

lemma keeps_conn_append [preserves_intros]: "keeps_conn p (write_append str)"
  by (rule preservesI) (simp add: write_append_def split: prod.splits)

lemma keeps_conn_send: "keeps_conn p (tcp_send str)"
  unfolding tcp_send_def by (intro preserves_intros) simp

lemma keeps_conn_accepted: "keeps_conn p (callback_accepted r)"
  unfolding callback_accepted_def setFd_def by (auto intro!: preserves_intros)

lemma keeps_conn_written: "keeps_conn p (callback_written r)"
proof (cases "r < 0")
  case True
  then show ?thesis by (auto simp: callback_written_def intro!: preserves_intros)
next
  case False
  have "keeps_conn p (\<lambda>c. if to_send_bytes c > 0 then submit_writev USER_EVENT_WRITE c else (Inr (), c))"
    using preservesD [OF keeps_conn_writev] by (auto intro: preservesI)
  with False show ?thesis
    by (auto simp: callback_written_def intro!: preserves_intros)
qed

lemma keeps_conn_closed: "keeps_conn p (callback_closed r)" "keeps_conn p (callback_written_then_close r)"
  unfolding callback_closed_def clearBuffer_def callback_written_then_close_def
  by (auto intro!: preserves_intros)

lemma keeps_conn_handle_part: "keeps_conn p (handle_part P str)"
proof (rule preservesI)
  fix c assume "conn_ok p c"
  then show "conn_ok p (snd (handle_part P str c))"
    by (auto simp: handle_part_def handle_header_cases handle_rpc_header_eq handle_body_eq Let_def conn_ok_def
        split: prod.splits sum.splits option.splits)
qed

lemma keeps_conn_parse_step: "keeps_conn p (parse_step P)"
  using preservesD [OF keeps_conn_handle_part]
  by (auto simp: parse_step_def intro!: preservesI split: sum.splits)

lemma parse_loop_conn_ok:
  "parse_loop P n c = Some y \<Longrightarrow> conn_ok p c \<longrightarrow> conn_ok p (snd y)"
proof (induction P n c y rule: parse_loop.raw_induct [rotated, consumes 1])
  case (1 loop P n c y)
  show ?case
  proof
    assume ok: "conn_ok p c"
    obtain r c' where st: "parse_step P c = (r, c')" by fastforce
    with preservesD [OF keeps_conn_parse_step ok, of P] have "conn_ok p c'" by simp
    with 1(1) 1(2) [unfolded st] ok show "conn_ok p (snd y)" by (cases r) (auto split: if_splits)
  qed
qed

lemma callback_read_conn_ok:
  assumes "callback_read P r c = Some y" and "conn_ok p c"
  shows "conn_ok p (snd y)"
proof -
  consider "r < 0" | "r = 0" | "0 < r" by linarith
  then show ?thesis
  proof cases
    case 2
    have "keeps_conn p (sthen disconnect_async (sret ()))" by (intro preserves_intros)
    with assms 2 preservesD show ?thesis by (auto simp: callback_read_def)
  next
    case 3
    let ?c = "c\<lparr>read_buffer := hasWritten (nat r mod 2 ^ 16) (read_buffer c)\<rparr>"
    obtain x c2 where l: "parse_loop P (readableBytes (read_buffer ?c)) ?c = Some (x, c2)"
      and y: "y = (case x of Inl e \<Rightarrow> (Inl e, c2) | Inr u \<Rightarrow> tcp_read c2)"
      using assms(1) 3 by (auto simp: callback_read_def Let_def split: option.splits sum.splits)
    have "conn_ok p c2" using parse_loop_conn_ok [OF l, of p] assms(2) by simp
    with y show ?thesis
      using preservesD [OF keeps_conn_read] by (cases x) auto
  qed (use assms in \<open>auto simp: callback_read_def\<close>)
qed

lemma do_io_uring_conn_ok:
  assumes "do_io_uring P r ev c = Some y" and "conn_ok p c"
  shows "conn_ok p (snd y)"
  using assms callback_read_conn_ok [of P r c y p]
    preservesD [OF keeps_conn_accepted assms(2)] preservesD [OF keeps_conn_written assms(2)]
    preservesD [OF keeps_conn_closed(1) assms(2)] preservesD [OF keeps_conn_closed(2) assms(2)]
  by (auto simp: do_io_uring_def split: if_splits)

subsection \<open>The server keeps its invariant\<close>

abbreviation keeps :: "env \<Rightarrow> nat \<Rightarrow> ('m server, 'a) sm \<Rightarrow> bool" where
  "keeps E k \<equiv> preserves (server_inv E k)"

lemma submission_ok_mono: "submission_ok E k e \<Longrightarrow> k \<le> k' \<Longrightarrow> submission_ok E k' e"
  by (auto simp: submission_ok_def split: operation.splits)

lemma task_ok_mono: "task_ok E k t \<Longrightarrow> k \<le> k' \<Longrightarrow> task_ok E k' t"
  by (auto simp: task_ok_def intro: less_le_trans split: task.splits)

lemma keeps_prepare [preserves_intros]:
  assumes "p = owner E op" "ev = event_kind op" "\<forall>n a. op = Conn_op n a \<longrightarrow> n < k"
  shows "keeps E k (prepare p ev op)"
proof (rule preservesI)
  fix s :: "'a server" assume s: "server_inv E k s"
  show "server_inv E k (snd (prepare p ev op s))"
  proof (cases "getIOUringUserdata p ev")
    case (Inr u)
    then have "submission_ok E k \<lparr>user_data = u, operation = op\<rparr>"
      using assms by (auto simp: submission_ok_def split: operation.split)
    with Inr s show ?thesis by (auto simp: prepare_def sbind_def server_inv_def)
  qed (use s in \<open>simp add: prepare_def sbind_def\<close>)
qed

lemma keeps_asyncHandle [preserves_intros]: "task_ok E k t \<Longrightarrow> keeps E k (asyncHandle t)"
  by (rule preservesI) (auto simp: asyncHandle_def server_inv_def execute_def HipeTask_def)

lemma keeps_on_manager [preserves_intros]:
  assumes "\<And>m. next_connection (f m) = next_connection m"
    and "\<And>m. set (idle_pool m) \<subseteq> {..<k} \<Longrightarrow> set (idle_pool (f m)) \<subseteq> {..<k}"
  shows "keeps E k (on_manager f)"
  by (rule preservesI) (simp add: on_manager_def server_inv_def assms)

lemma keeps_on_register [preserves_intros]: "keeps E k (on_register E m)"
proof (rule preservesI)
  fix s :: "'a server" assume s: "server_inv E k s"
  obtain r g where m: "m (reg s) = (r, g)" by fastforce
  have "keeps E k (sthen (times (timers g - timers (reg s))
                 (prepare (register_addr E) (word_of_int ETCD_EVENT_TIMEOUT) Timer_op)) (
        sthen (times (register.tasks g - register.tasks (reg s)) (asyncHandle Update_node)) (slift r)))"
    by (intro preserves_intros) (simp_all add: task_ok_def)
  moreover have "server_inv E k (s\<lparr>reg := g\<rparr>)" using s by (simp add: server_inv_def)
  ultimately show "server_inv E k (snd (on_register E m s))"
    unfolding on_register_def m prod.case by (rule preservesD)
qed

text \<open>An action of connection \<open>n\<close>, which is one of the server's.\<close>

lemma keeps_perform:
  assumes "n < k" and "\<forall>r. a = Dispatch r \<longrightarrow> conn r = conn_addr E n"
  shows "keeps E k (perform E n a)"
proof (cases a)
  case (Dispatch r)
  with assms have "task_ok E k (Handle_request r)" by (auto simp: task_ok_def)
  with Dispatch show ?thesis by (simp add: perform_def asyncHandleRequest_def keeps_asyncHandle)
next
  case Send_Back
  have "keeps E k (on_manager (sendBack n))"
    using assms(1) by (intro preserves_intros) (auto simp: sendBack_def Conn_Manager.enqueue_def)
  with Send_Back show ?thesis by (simp add: perform_def)
next
  case Accept_Done
  have "keeps E k (on_manager acceptDone)" by (intro preserves_intros) (auto simp: acceptDone_def)
  with Accept_Done show ?thesis by (simp add: perform_def)
qed (use assms(1) in \<open>auto simp: perform_def intro!: keeps_prepare\<close>)

lemma dispatched_Cons: "dispatched (a # as) = (case a of Dispatch r \<Rightarrow> [r] | _ \<Rightarrow> []) @ dispatched as"
  by (cases a) simp_all

lemma keeps_perform_all:
  "n < k \<Longrightarrow> \<forall>r \<in> set (dispatched as). conn r = conn_addr E n \<Longrightarrow> keeps E k (perform_all E n as)"
proof (induction as)
  case Nil
  show ?case unfolding perform_all.simps by (rule preserves_basic)
next
  case (Cons a as)
  have d: "\<forall>r. a = Dispatch r \<longrightarrow> conn r = conn_addr E n" "\<forall>r \<in> set (dispatched as). conn r = conn_addr E n"
    using Cons.prems(2) unfolding dispatched_Cons by (cases a, auto)
  show ?case
    unfolding perform_all.simps
    by (rule preserves_sthen [OF keeps_perform [OF Cons.prems(1) d(1)] Cons.IH [OF Cons.prems(1) d(2)]])
qed

lemma finish_conn_inv:
  assumes "server_inv E k s" and "n < k" and "conn_ok (conn_addr E n) (snd rc)"
  shows "server_inv E k (snd (finish_conn E n rc s))"
proof -
  have "server_inv E k (s\<lparr>conns := (conns s)[n := snd rc]\<rparr>)"
    using assms by (auto simp: server_inv_def conn_ok_def nth_list_update)
  moreover have "keeps E k (sthen (perform_all E n (out (snd rc))) (slift (fst rc)))"
    using assms(2,3) by (intro preserves_intros keeps_perform_all) (auto simp: conn_ok_def)
  ultimately show ?thesis unfolding finish_conn_def by (metis preservesD)
qed

lemma server_conn_ok: "server_inv E k s \<Longrightarrow> n < k \<Longrightarrow> conn_ok (conn_addr E n) ((conns s ! n)\<lparr>out := []\<rparr>)"
  by (simp add: server_inv_def)

lemma on_conn_inv:
  assumes "server_inv E k s" and "n < k" and "keeps_conn (conn_addr E n) m"
  shows "server_inv E k (snd (on_conn E n m s))"
  unfolding on_conn_def
  by (rule finish_conn_inv [OF assms(1,2)], rule preservesD [OF assms(3)], rule server_conn_ok [OF assms(1,2)])

subsection \<open>Completions and turns\<close>

lemma conn_at_Some: "conn_at E p s = Some n \<Longrightarrow> n < length (conns s) \<and> conn_addr E n = p"
  by (auto simp: conn_at_def find_Some_iff)

lemma conn_at_addr:
  assumes "addresses_ok E (length (conns s))" and "n < length (conns s)"
  shows "conn_at E (conn_addr E n) s = Some n"
proof -
  have "conn_at E (conn_addr E n) s \<noteq> None"
    using assms(2) by (auto simp: conn_at_def find_None_iff)
  then obtain m where "conn_at E (conn_addr E n) s = Some m" by blast
  moreover from conn_at_Some [OF this] assms have "m = n"
    by (auto simp: addresses_ok_def dest: inj_onD)
  ultimately show ?thesis by simp
qed

lemma self_update: "self c = self (xs ! i) \<Longrightarrow> self (xs[i := c] ! n) = self (xs ! n)"
  by (cases "i < length xs") (auto simp: nth_list_update list_update_beyond)

lemma server_inv_store: "server_inv E k s \<Longrightarrow> server_inv E k (kernel_store q s)"
  by (cases "operation (of_submission q)")
    (auto simp: kernel_store_def server_inv_def Let_def self_update split: action.split)

lemma virtual_inv:
  assumes "virtual_do_io_uring E p r ev s = Some y" and "server_inv E k s"
  shows "server_inv E k (snd y)"
proof (cases "p = register_addr E")
  case True
  with assms show ?thesis
    using preservesD [OF keeps_on_register] by (auto simp: virtual_do_io_uring_def)
next
  case False
  show ?thesis
  proof (cases "conn_at E p s")
    case None
    with False assms show ?thesis by (auto simp: virtual_do_io_uring_def)
  next
    case (Some n)
    with assms(2) have n: "n < k" using conn_at_Some [OF Some] by (simp add: server_inv_def)
    from Some False assms(1) obtain rc where
      rc: "do_io_uring (parse_header E) r ev ((conns s ! n)\<lparr>out := []\<rparr>) = Some rc" and y: "y = finish_conn E n rc s"
      by (auto simp: virtual_do_io_uring_def)
    from do_io_uring_conn_ok [OF rc server_conn_ok [OF assms(2) n]] show ?thesis
      unfolding y by (rule finish_conn_inv [OF assms(2) n])
  qed
qed

lemma handle_cqe_inv:
  assumes "handle_cqe E q s = Some y" and "server_inv E k s"
  shows "server_inv E k (snd y)"
proof -
  let ?s = "kernel_store q (s\<lparr>inflight := remove1 (of_submission q) (inflight s)\<rparr>)"
  have "server_inv E k (s\<lparr>inflight := remove1 (of_submission q) (inflight s)\<rparr>)"
    using assms(2) notin_set_remove1 by (fastforce simp: server_inv_def)
  then have s: "server_inv E k ?s" by (rule server_inv_store)
  show ?thesis
  proof (cases "callee (user_data (of_submission q)) (res q)")
    case (Inl e)
    with assms(1) s show ?thesis by (auto simp: handle_cqe_def)
  next
    case (Inr t)
    then obtain p r ev where "virtual_do_io_uring E p r ev ?s = Some y"
      using assms(1) by (cases t) (auto simp: handle_cqe_def)
    then show ?thesis by (rule virtual_inv [OF _ s])
  qed
qed

lemma handle_cqes_inv: "handle_cqes E qs s = Some y \<Longrightarrow> server_inv E k s \<Longrightarrow> server_inv E k (snd y)"
proof (induction qs arbitrary: s)
  case (Cons q qs)
  from Cons.prems(1) obtain r s1 where q: "handle_cqe E q s = Some (r, s1)"
    by (auto split: option.splits)
  from handle_cqe_inv [OF q Cons.prems(2)] Cons.IH [of s1] Cons.prems(1) q show ?case
    by (cases r) auto
qed auto

lemma accept_all_inv:
  "server_inv E k s \<Longrightarrow> set ns \<subseteq> {..<k} \<Longrightarrow> server_inv E k (snd (accept_all E ns s))"
proof (induction ns arbitrary: s)
  case (Cons n ns)
  obtain r s1 where a: "on_conn E n Connection.accept s = (r, s1)" by fastforce
  have "server_inv E k s1"
    using on_conn_inv [OF Cons.prems(1) _ keeps_conn_accept, of n] Cons.prems(2) a by simp
  with Cons a show ?case by (cases r) auto
qed simp

lemma server_inv_more:
  assumes "server_inv E k s" and "k \<le> k'" and "next_connection m = k'" and "set (idle_pool m) \<subseteq> {..<k'}"
  shows "server_inv E k' (s\<lparr>server_prov := (server_prov s)\<lparr>conn_manager := m\<rparr>,
           conns := conns s @ map (new_conn E) [length (conns s)..<k']\<rparr>)"
proof -
  have l: "length (conns s) = k" using assms(1) by (simp add: server_inv_def)
  have "self ((conns s @ map (new_conn E) [k..<k']) ! n) = conn_addr E n" if "n < k'" for n
    using assms(1,2) that l by (auto simp: server_inv_def nth_append new_conn_def)
  with assms l show ?thesis
    using submission_ok_mono [OF _ assms(2)] task_ok_mono [OF _ assms(2)] by (auto simp: server_inv_def)
qed

lemma begin_turn_inv:
  assumes "server_inv E k s" and "begin_turn E s = (r, s')"
  shows "\<exists>k'. server_inv E k' s'"
proof -
  let ?m0 = "(conn_manager (server_prov s))\<lparr>accepts := []\<rparr>" and ?c = "int (sq_entries s div 4)"
  define m where "m = acceptForCount ?c ?m0"
  let ?k = "next_connection m" and ?q = "idle_pool ?m0 @ [k..<k + to_allocate ?c ?m0]"
  have k: "next_connection ?m0 = k" "length (conns s) = k" "set (idle_pool ?m0) \<subseteq> {..<k}"
    using assms(1) by (auto simp: server_inv_def)
  have m: "?k = k + to_allocate ?c ?m0" "idle_pool m = drop (nat (missing ?c ?m0)) ?q"
    "accepts m = take (nat (missing ?c ?m0)) ?q"
    using k(1) by (simp_all add: m_def acceptForCount_eq Let_def)
  have "set ?q \<subseteq> {..<?k}" using k(3) m(1) by auto
  then have i: "set (idle_pool m) \<subseteq> {..<?k}" and a: "set (accepts m) \<subseteq> {..<?k}"
    unfolding m(2,3) using set_drop_subset set_take_subset by fast+
  have "server_inv E ?k (snd (fill_accepts E s))"
    unfolding fill_accepts_def Let_def m_def [symmetric]
    by (rule accept_all_inv [OF server_inv_more [OF assms(1)] a]) (use m(1) i in auto)
  then have "server_inv E ?k s'"
    using assms(2) by (cases "fill_accepts E s")
      (auto simp: begin_turn_def sbind_def io_uring_submit_def server_inv_def split: sum.splits)
  then show ?thesis by blast
qed

lemma keeps_handle_request:
  "keeps_conn p (\<lambda>c. case handle_request pv r (Some c) of (x, Some c') \<Rightarrow> (x, c') | (x, None) \<Rightarrow> (x, c))"
  (is "keeps_conn p ?m")
proof (rule preservesI)
  fix c assume "conn_ok p c"
  with preservesD [OF keeps_conn_send] show "conn_ok p (snd (?m c))"
    by (auto simp: handle_request_def split: option.splits prod.splits sum.splits) (metis snd_conv)+
qed

lemma run_task_inv:
  assumes "server_inv E k s" and "addresses_ok E k"
  shows "server_inv E k (snd (run_task E t s))"
proof (cases t)
  case (Handle_request r)
  show ?thesis
  proof (cases "conn_at E (conn r) s")
    case None
    with Handle_request assms show ?thesis by (simp add: run_task_def)
  next
    case (Some n)
    let ?m = "\<lambda>c. case handle_request (server_prov s) r (Some c) of (x, Some c') \<Rightarrow> (x, c') | (x, None) \<Rightarrow> (x, c)"
    have "keeps_conn (conn_addr E n) ?m" by (rule keeps_handle_request)
    moreover have "n < k" using conn_at_Some [OF Some] assms(1) by (simp add: server_inv_def)
    ultimately have "server_inv E k (snd (on_conn E n ?m s))" by (intro on_conn_inv [OF assms(1)])
    with Some Handle_request show ?thesis by (simp add: run_task_def)
  qed
next
  case Update_node
  obtain info p where g: "getNodeInfo (serialize_node E) (server_prov s) = (info, p)" by fastforce
  then have "conn_manager p = conn_manager (server_prov s)" by (auto simp: getNodeInfo_def Let_def)
  then have "server_inv E k (if stoping (reg s) then s else s\<lparr>server_prov := p\<rparr>)"
    using assms(1) by (simp add: server_inv_def)
  with g Update_node show ?thesis
    using preservesD [OF keeps_on_register] by (auto simp: run_task_def)
qed

lemma work_inv:
  assumes "server_inv E k s" and "addresses_ok E k"
  shows "server_inv E k (snd (work E w s))"
proof -
  let ?s1 = "s\<lparr>pond := take_turn w (pond s)\<rparr>"
  have "set (thread_pool.tasks (take_turn w (pond s))) \<subseteq> set (thread_pool.tasks (pond s))"
    by (auto simp: take_turn_def split: sum.split dest: list.set_sel(2) [rotated])
  with assms(1) have s1: "server_inv E k ?s1" unfolding server_inv_def by auto
  show ?thesis
  proof (cases "workers (pond ?s1) w")
    case (Running t)
    have "server_inv E k (snd (run_task E t ?s1))" by (rule run_task_inv [OF s1 assms(2)])
    with Running show ?thesis
      by (cases "run_task E t ?s1") (auto simp: work_def Let_def sbind_def server_inv_def split: sum.split)
  qed (use s1 in \<open>simp_all add: work_def Let_def\<close>)
qed

lemma new_server_inv:
  assumes "set (idle_pool (conn_manager p)) \<subseteq> {..<next_connection (conn_manager p)}"
  shows "server_inv E (next_connection (conn_manager p)) (new_server E p g entries threads)"
  using assms by (simp add: server_inv_def new_server_def new_conn_def DynamicThreadPool_def)

lemma register_all_inv: "keeps E k (register_all E names)"
proof (induction names)
  case Nil
  show ?case unfolding register_all.simps by (rule preserves_basic)
next
  case (Cons a names)
  show ?case unfolding register_all.simps by (rule preserves_sthen [OF keeps_on_register Cons.IH])
qed

lemma loop_begin_inv: "keeps E k (loop_begin E names)"
  unfolding loop_begin_def
  by (intro preserves_sthen register_all_inv keeps_on_register)
    (rule preservesI, simp add: set_status_def server_inv_def)

lemma provider_manager:
  assumes "RpcProvider inet_addr localIP (int entries) cfg = Inr p"
  shows "set (idle_pool (conn_manager (fold Notify services p))) \<subseteq>
         {..<next_connection (conn_manager (fold Notify services p))}"
proof -
  have "conn_manager (fold Notify services q) = conn_manager q" for q :: "'a provider"
    by (induction services arbitrary: q) (simp_all add: Notify_def)
  moreover obtain mc where "conn_manager p = ConnectionManager (int entries) mc"
    using assms by (auto simp: RpcProvider_def bindE_eq_Inr_iff)
  ultimately show ?thesis by (auto simp: ConnectionManager_def expandConnections_eq Let_def)
qed

lemma server_reachable_inv:
  "server_reachable E s \<Longrightarrow> server_inv E (length (conns s)) s \<and> addresses_ok E (length (conns s))"
proof (induction rule: server_reachable.induct)
  case (Start inet_addr localIP entries cfg p names services t url rs threads s)
  from preservesD [OF loop_begin_inv new_server_inv [OF provider_manager [OF Start(1), of services]]] Start(2)
  obtain k where "server_inv E k s" by (metis snd_conv)
  with Start(3) show ?case by (auto simp: server_inv_def)
next
  case (Step s s')
  from Step(2) show ?case
  proof cases
    case (Turn s1 qs)
    from begin_turn_inv [OF _ Turn(2)] Step(3) obtain k where "server_inv E k s1" by blast
    from handle_cqes_inv [OF Turn(5) this] this have "server_inv E k s'" "length (conns s1) = k" "length (conns s') = k"
      by (auto simp: server_inv_def)
    with Turn(3) show ?thesis by simp
  next
    case (Work w)
    from work_inv [of E _ s w] Step(3) Work(3) have "server_inv E (length (conns s)) s'" by fastforce
    moreover from this have "length (conns s') = length (conns s)" by (simp add: server_inv_def)
    ultimately show ?thesis using Step(3) by simp
  next
    case Sigint
    with Step(3) show ?thesis by (simp add: server_inv_def sigint_handler_def)
  qed
qed

section \<open>Properties\<close>

lemma callee_of:
  assumes "is_address (owner E op)" and "getIOUringUserdata (owner E op) ev = Inr u"
  shows "callee u r = Inr (owner E op, r, uint ev)"
proof -
  have "owner E op \<noteq> 0" and h: "owner E op AND 0xFFFF000000000000 = 0"
    using assms(1) by (simp_all add: is_address_def)
  then show ?thesis
    using assms(2) pack_low [OF h] pack_high [OF h]
    by (auto simp: getIOUringUserdata_def callee_def executeIOUringCallback_def Let_def)
qed

lemma submission_owner:
  assumes "submission_ok E k e" and "addresses_ok E k"
  shows "is_address (owner E (operation e))"
  using assms by (cases "operation e") (auto simp: submission_ok_def addresses_ok_def)

text \<open>C4: in every run of the server, whatever the kernel completes and the workers do in between: the
  completion of any entry that was prepared or is in flight is dispatched to the object that submitted it,
  with the kind of event it stands for, and this object is alive: the service register for a timer, else
  one of the allocated connections, found at its own address. Every request that waits for a worker
  points back to such a connection as well.\<close>

theorem completions_reach_their_object:
  assumes "server_reachable E s"
  shows "(\<forall>e \<in> set (submitted s) \<union> set (inflight s).
            callee (user_data e) r = Inr (owner E (operation e), r, uint (event_kind (operation e))) \<and>
            (case operation e of
               Timer_op \<Rightarrow> owner E (operation e) = register_addr E
             | Conn_op n a \<Rightarrow> n < length (conns s) \<and> conn_at E (owner E (operation e)) s = Some n \<and>
                             owner E (operation e) \<noteq> register_addr E)) \<and>
         (\<forall>q. Some (Handle_request q) \<in> set (thread_pool.tasks (pond s)) \<longrightarrow>
            (\<exists>n < length (conns s). conn_at E (conn q) s = Some n \<and> self (conns s ! n) = conn q))"
proof -
  from server_reachable_inv [OF assms] have inv: "server_inv E (length (conns s)) s"
    and ad: "addresses_ok E (length (conns s))" by auto
  note at = conn_at_addr [OF ad]
  have "callee (user_data e) r = Inr (owner E (operation e), r, uint (event_kind (operation e))) \<and>
            (case operation e of
               Timer_op \<Rightarrow> owner E (operation e) = register_addr E
             | Conn_op n a \<Rightarrow> n < length (conns s) \<and> conn_at E (owner E (operation e)) s = Some n \<and>
                             owner E (operation e) \<noteq> register_addr E)"
    if "e \<in> set (submitted s) \<union> set (inflight s)" for e
  proof -
    have ok: "submission_ok E (length (conns s)) e" using inv that by (simp add: server_inv_def)
    with callee_of [OF submission_owner [OF ok ad]] at ad show ?thesis
      by (auto simp: submission_ok_def addresses_ok_def split: operation.splits)
  qed
  moreover have "\<exists>n < length (conns s). conn_at E (conn q) s = Some n \<and> self (conns s ! n) = conn q"
    if "Some (Handle_request q) \<in> set (thread_pool.tasks (pond s))" for q
  proof -
    have "task_ok E (length (conns s)) (Handle_request q)" using inv that by (simp add: server_inv_def)
    with at inv show ?thesis by (auto simp: task_ok_def server_inv_def)
  qed
  ultimately show ?thesis by blast
qed

text \<open>A server with four connections and no answer from etcd, right after the loop has started.\<close>

definition demo_env :: env where
  "demo_env = \<lparr>conn_addr = (\<lambda>n. word_of_nat (0x10000 + 512 * n)), register_addr = 0x1000,
     parse_header = demo_parse, serialize_node = (\<lambda>_. []),
     local_ip = ''127.0.0.1''\<rparr>"

lemma demo_addresses: "addresses_ok demo_env 4"
proof -
  have l: "{..<4} = {0, 1, 2, 3 :: nat}" by auto
  then have "\<forall>n < 4. is_address (conn_addr demo_env n) \<and> conn_addr demo_env n \<noteq> register_addr demo_env"
    by (auto simp: demo_env_def is_address_def simp flip: lessThan_iff)
  moreover have "inj_on (conn_addr demo_env) {..<4}" by (auto simp: demo_env_def l inj_on_def)
  ultimately show ?thesis by (simp add: addresses_ok_def demo_env_def is_address_def)
qed

definition demo_timer :: submission where
  "demo_timer = \<lparr>user_data = 0x1000, operation = Timer_op\<rparr>"

lemma demo_started:
  "\<exists>s :: unit server. server_reachable demo_env s \<and> submitted s = [demo_timer] \<and> inflight s = [] \<and>
     length (conns s) = 4 \<and> prov_status (server_prov s) = PROVIDER_LOOPING \<and> stoping (reg s) = False \<and>
     lease_mgr (reg s) = Some \<lparr>lease_id = [], lease_ttl = 20\<rparr> \<and> conns s = map (new_conn demo_env) [0..<4] \<and>
     conn_manager (server_prov s) = ConnectionManager 4 100 \<and> pond s = DynamicThreadPool 2 \<and> sq_entries s = 4 \<and>
     (\<exists>p. serviceTable (server_prov s) = serviceTable (Notify demo_service p))"
proof -
  obtain p :: "unit provider" where p: "RpcProvider (\<lambda>_. 0x0100007F) ''127.0.0.1'' (int 4) demo_cfg = Inr p"
    and m: "conn_manager p = ConnectionManager 4 100"
    by (simp add: RpcProvider_def demo_cfg_settings)
  let ?g = "ServiceRegister 20 ''u'' []"
  let ?s0 = "new_server demo_env (fold Notify [demo_service] p) ?g 4 2"
  obtain g where g: "startRegister ?g = (Inr (), g)" "timers g = 1" "register.tasks g = 0"
      "lease_mgr g = Some \<lparr>lease_id = [], lease_ttl = 20\<rparr>" "stoping g = False"
    using start_without_network [of 20 "''u''"] by blast
  have g0: "timers ?g = 0" "register.tasks ?g = 0" by (simp_all add: ServiceRegister_def)
  have u: "getIOUringUserdata (register_addr demo_env) (word_of_int ETCD_EVENT_TIMEOUT) = Inr 0x1000"
    by (simp add: getIOUringUserdata_def demo_env_def ETCD_EVENT_TIMEOUT_def)
  have b: "loop_begin demo_env [] ?s0 = (Inr (), ?s0\<lparr>reg := g, submitted := [demo_timer],
      server_prov := (server_prov ?s0)\<lparr>prov_status := PROVIDER_LOOPING\<rparr>\<rparr>)" (is "_ = (_, ?s)")
    using g g0 u by (simp add: loop_begin_def on_register_def sbind_def prepare_def set_status_def new_server_def
        demo_timer_def)
  have m1: "conn_manager (Notify demo_service p) = ConnectionManager 4 100" using m by (simp add: Notify_def)
  have n4: "next_connection (ConnectionManager 4 100) = 4"
    by (simp add: ConnectionManager_def expandConnections_eq Let_def free_slots_def)
  have c: "length (conns ?s) = 4"
    using m1 n4 by (simp add: new_server_def)
  then have "addresses_ok demo_env (length (conns ?s))" using demo_addresses by simp
  from Start [OF p b this] c g show ?thesis
    by (intro exI [of _ ?s]) (simp add: new_server_def m1 n4, rule exI [of _ p], simp)
qed

theorem completions_reach_their_object_witness:
  "\<exists>s :: unit server. server_reachable demo_env s \<and> demo_timer \<in> set (submitted s) \<and>
     callee 0x1000 (-62) = Inr (0x1000, -62, 0)"
proof -
  obtain s :: "unit server" where s: "server_reachable demo_env s" "submitted s = [demo_timer]"
    using demo_started by blast
  from completions_reach_their_object [OF s(1), of "-62"] s show ?thesis
    by (auto simp: demo_timer_def demo_env_def ETCD_EVENT_TIMEOUT_def intro!: exI [of _ s])
qed

end
