(* ===== verification/Server_Runs.thy ===== *)
theory Server_Runs
  imports Event_Loop
begin

text \<open>
  What runs of the event loop do: the effect of single completions on the whole server, the end of the
  loop, and two ways in which connections leave the manager's books.
\<close>

section \<open>The completion of an entry of a connection\<close>

text \<open>The entry that connection \<open>n\<close> prepares for an action.\<close>

definition conn_entry :: "env \<Rightarrow> nat \<Rightarrow> action \<Rightarrow> submission" where
  "conn_entry E n a =
     \<lparr>user_data = conn_addr E n OR push_bit 48 (ucast (event_kind (Conn_op n a))), operation = Conn_op n a\<rparr>"

lemma conn_entry_ok:
  assumes "is_address (conn_addr E n)" and "n < k"
  shows "submission_ok E k (conn_entry E n a)"
  using assms by (simp add: submission_ok_def conn_entry_def getIOUringUserdata_def is_address_def)

lemma prepare_conn:
  assumes "is_address (conn_addr E n)" and "ev = event_kind (Conn_op n a)"
  shows "prepare (conn_addr E n) ev (Conn_op n a) s = (Inr (), s\<lparr>submitted := submitted s @ [conn_entry E n a]\<rparr>)"
  using assms by (simp add: prepare_def getIOUringUserdata_def is_address_def conn_entry_def)

lemma perform_submits:
  assumes "is_address (conn_addr E n)"
  shows "perform E n Sqe_Accept s = (Inr (), s\<lparr>submitted := submitted s @ [conn_entry E n Sqe_Accept]\<rparr>)"
    "perform E n (Sqe_Read iov) s = (Inr (), s\<lparr>submitted := submitted s @ [conn_entry E n (Sqe_Read iov)]\<rparr>)"
    "perform E n (Sqe_Writev ev iov) s = (Inr (), s\<lparr>submitted := submitted s @ [conn_entry E n (Sqe_Writev ev iov)]\<rparr>)"
    "perform E n (Sqe_Close fd) s = (Inr (), s\<lparr>submitted := submitted s @ [conn_entry E n (Sqe_Close fd)]\<rparr>)"
  using assms by (simp_all add: perform_def prepare_conn)

lemma handle_cqe_conn:
  assumes "addresses_ok E (length (conns s))" and "n < length (conns s)" and "of_submission q = conn_entry E n a"
    and "\<forall>iov. a = Sqe_Read iov \<longrightarrow> received_data q = []"
  shows "handle_cqe E q s =
     (let s1 = s\<lparr>inflight := remove1 (of_submission q) (inflight s)\<rparr>
      in map_option (\<lambda>rc. finish_conn E n rc s1)
           (do_io_uring (parse_header E) (res q) (uint (event_kind (Conn_op n a))) ((conns s ! n)\<lparr>out := []\<rparr>)))"
proof -
  let ?s1 = "s\<lparr>inflight := remove1 (of_submission q) (inflight s)\<rparr>"
  have ad: "is_address (conn_addr E n)" "conn_addr E n \<noteq> register_addr E"
    using assms(1,2) by (simp_all add: addresses_ok_def)
  have store: "kernel_store q ?s1 = ?s1"
  proof (cases "\<exists>iov. a = Sqe_Read iov")
    case True
    then obtain iov where a: "a = Sqe_Read iov" by blast
    then have "received_data q = []" using assms(4) by blast
    moreover have "scatter iov [] m = m" for m :: bytes by (simp add: scatter_def overwrite_def split: prod.split)
    ultimately show ?thesis using a assms(3) by (simp add: kernel_store_def conn_entry_def Let_def)
  next
    case False
    with assms(3) show ?thesis by (cases a) (auto simp: kernel_store_def conn_entry_def)
  qed
  have ok: "submission_ok E (length (conns s)) (of_submission q)"
    unfolding assms(3) by (rule conn_entry_ok [OF ad(1) assms(2)])
  then have "callee (user_data (of_submission q)) (res q) =
      Inr (conn_addr E n, res q, uint (event_kind (Conn_op n a)))"
    using callee_of [of E "operation (of_submission q)"] ad(1) assms(3)
    by (simp add: submission_ok_def conn_entry_def)
  moreover have "conn_at E (conn_addr E n) ?s1 = Some n"
    using conn_at_addr [of E ?s1 n] assms(1,2) by simp
  ultimately show ?thesis
    using ad(2) by (simp add: handle_cqe_def store virtual_do_io_uring_def Let_def)
qed

section \<open>A dying connection\<close>

text \<open>What the server is after connection \<open>n\<close> has asked for its socket to be closed.\<close>

definition closing :: "env \<Rightarrow> nat \<Rightarrow> 'm server \<Rightarrow> 'm server" where
  "closing E n s =
     (let a = Sqe_Close (clientfd (conns s ! n))
      in s\<lparr>conns := (conns s)[n := (conns s ! n)\<lparr>out := [a]\<rparr>], submitted := submitted s @ [conn_entry E n a]\<rparr>)"

lemma finish_close:
  assumes "is_address (conn_addr E n)"
  shows "finish_conn E n (Inr (), (conns s ! n)\<lparr>out := [Sqe_Close (clientfd (conns s ! n))]\<rparr>) s = (Inr (), closing E n s)"
  using assms by (simp add: finish_conn_def sbind_def perform_submits closing_def Let_def)

lemma disconnect_async_eq:
  "event_loop c \<Longrightarrow> sthen disconnect_async (sret ()) (c\<lparr>out := []\<rparr>) = (Inr (), c\<lparr>out := [Sqe_Close (clientfd c)]\<rparr>)"
  by (simp add: disconnect_async_def emit_def sbind_def)

text \<open>The peer has closed its side: a read of nothing; and a failed write.\<close>

lemma handle_end_of_stream:
  assumes "addresses_ok E (length (conns s))" "n < length (conns s)" "event_loop (conns s ! n)"
    and "of_submission q = conn_entry E n (Sqe_Read iov)" "received_data q = []" "res q = 0"
  shows "handle_cqe E q s = Some (Inr (), closing E n (s\<lparr>inflight := remove1 (of_submission q) (inflight s)\<rparr>))"
proof -
  have "is_address (conn_addr E n)" using assms(1,2) by (simp add: addresses_ok_def)
  moreover have "do_io_uring (parse_header E) 0 (uint USER_EVENT_READ) ((conns s ! n)\<lparr>out := []\<rparr>) =
      Some (Inr (), (conns s ! n)\<lparr>out := [Sqe_Close (clientfd (conns s ! n))]\<rparr>)"
    using disconnect_async_eq [OF assms(3)] by (simp add: do_io_uring_def callback_read_def user_event_defs)
  ultimately show ?thesis
    using handle_cqe_conn [OF assms(1,2,4)] assms(5,6) finish_close [of E n "s\<lparr>inflight := remove1 (of_submission q) (inflight s)\<rparr>"]
    by (simp add: Let_def)
qed

lemma handle_failed_write:
  assumes "addresses_ok E (length (conns s))" "n < length (conns s)" "event_loop (conns s ! n)"
    and "of_submission q = conn_entry E n (Sqe_Writev USER_EVENT_WRITE iov)" "res q < 0"
  shows "handle_cqe E q s = Some (Inr (), closing E n (s\<lparr>inflight := remove1 (of_submission q) (inflight s)\<rparr>))"
proof -
  have "is_address (conn_addr E n)" using assms(1,2) by (simp add: addresses_ok_def)
  moreover have "do_io_uring (parse_header E) (res q) (uint USER_EVENT_WRITE) ((conns s ! n)\<lparr>out := []\<rparr>) =
      Some (Inr (), (conns s ! n)\<lparr>out := [Sqe_Close (clientfd (conns s ! n))]\<rparr>)"
    using disconnect_async_eq [OF assms(3)] assms(5)
    by (simp add: do_io_uring_def callback_written_def user_event_defs)
  ultimately show ?thesis
    using handle_cqe_conn [OF assms(1,2,4)] finish_close [of E n "s\<lparr>inflight := remove1 (of_submission q) (inflight s)\<rparr>"]
    by (simp add: Let_def)
qed

lemma handle_close:
  assumes "addresses_ok E (length (conns s))" "n < length (conns s)" "of_submission q = conn_entry E n (Sqe_Close fd)"
  shows "\<exists>s'. handle_cqe E q s = Some (Inr (), s') \<and> length (conns s') = length (conns s) \<and>
     submitted s' = submitted s \<and> inflight s' = remove1 (of_submission q) (inflight s) \<and>
     conn_manager (server_prov s') = sendBack n (conn_manager (server_prov s))"
proof -
  have "do_io_uring (parse_header E) (res q) (uint USER_EVENT_CLOSE) ((conns s ! n)\<lparr>out := []\<rparr>) =
      Some (callback_closed (res q) ((conns s ! n)\<lparr>out := []\<rparr>))"
    by (simp add: do_io_uring_def user_event_defs)
  moreover obtain c where "callback_closed (res q) ((conns s ! n)\<lparr>out := []\<rparr>) = (Inr (), c)" "out c = [Send_Back]"
    by (simp add: callback_closed_def clearBuffer_def emit_def sbind_def)
  ultimately show ?thesis
    using handle_cqe_conn [OF assms(1,2,3)]
    by (simp add: Let_def finish_conn_def sbind_def perform_def on_manager_def)
qed

lemma closing_fields [simp]:
  "length (conns (closing E n s)) = length (conns s)" "inflight (closing E n s) = inflight s"
  "server_prov (closing E n s) = server_prov s"
  by (simp_all add: closing_def Let_def)

lemma closing_entry:
  "submitted (closing E n s) = submitted s @ [conn_entry E n (Sqe_Close (clientfd (conns s ! n)))]"
  by (simp add: closing_def Let_def)

lemma closing_conn:
  "n < length (conns s) \<Longrightarrow> conns (closing E n s) ! n = (conns s ! n)\<lparr>out := [Sqe_Close (clientfd (conns s ! n))]\<rparr>"
  by (simp add: closing_def Let_def)

text \<open>A connection whose peer goes away while a response is being written is returned twice. The read ends
  with 0 and the write fails, each handler asks for the socket to be closed, each close completes, and each
  completion puts the connection into the idle queue and takes one off the number of active connections. The
  next two clients then share one connection object.\<close>

theorem dying_connection_is_returned_twice:
  assumes "addresses_ok E (length (conns s))" and "n < length (conns s)" and "event_loop (conns s ! n)"
    and "of_submission q1 = conn_entry E n (Sqe_Read iov)" "received_data q1 = []" "res q1 = 0"
    and "of_submission q2 = conn_entry E n (Sqe_Writev USER_EVENT_WRITE iov')" "res q2 < 0"
    and "c = conn_entry E n (Sqe_Close (clientfd (conns s ! n)))" "of_submission q3 = c" "of_submission q4 = c"
  shows "\<exists>s1 s2. handle_cqes E [q1, q2] s = Some (Inr (), s1) \<and> submitted s1 = submitted s @ [c, c] \<and>
     handle_cqes E [q3, q4] (io_uring_submit s1) = Some (Inr (), s2) \<and>
     idle_pool (conn_manager (server_prov s2)) = idle_pool (conn_manager (server_prov s)) @ [n, n] \<and>
     outer_count (conn_manager (server_prov s2)) = outer_count (conn_manager (server_prov s)) - 2"
proof -
  let ?s0 = "s\<lparr>inflight := remove1 (of_submission q1) (inflight s)\<rparr>"
  let ?t = "closing E n ?s0"
  let ?tr = "?t\<lparr>inflight := remove1 (of_submission q2) (inflight ?t)\<rparr>"
  let ?s1 = "closing E n ?tr"
  have t: "handle_cqe E q1 s = Some (Inr (), ?t)" by (rule handle_end_of_stream [OF assms(1-6)])
  have c: "conns ?t ! n = (conns s ! n)\<lparr>out := [Sqe_Close (clientfd (conns s ! n))]\<rparr>"
    using assms(2) closing_conn [of n ?s0] by simp
  have "handle_cqe E q2 ?t = Some (Inr (), ?s1)"
    using assms(1-3) c by (intro handle_failed_write [OF _ _ _ assms(7,8)]) simp_all
  with t have 1: "handle_cqes E [q1, q2] s = Some (Inr (), ?s1)" by simp
  have sub: "submitted ?s1 = submitted s @ [c, c]"
    using c by (simp add: closing_entry assms(9))
  let ?u = "io_uring_submit ?s1"
  have u: "length (conns ?u) = length (conns s)" "server_prov ?u = server_prov s"
    by (simp_all add: io_uring_submit_def)
  obtain v where v: "handle_cqe E q3 ?u = Some (Inr (), v)" "length (conns v) = length (conns s)"
      "conn_manager (server_prov v) = sendBack n (conn_manager (server_prov s))"
    using handle_close [of E ?u n q3] assms(1,2,9,10) u by auto
  then obtain w where w: "handle_cqe E q4 v = Some (Inr (), w)"
      "conn_manager (server_prov w) = sendBack n (conn_manager (server_prov v))"
    using handle_close [of E v n q4] assms(1,2,9,11) by auto
  have "handle_cqes E [q3, q4] ?u = Some (Inr (), w)" using v w by simp
  with 1 sub w(2) v(3) show ?thesis by (auto simp: sendBack_def Conn_Manager.enqueue_def)
qed

section \<open>A call through the server\<close>

text \<open>The end of a handler that asked for an accept, a read or a write.\<close>

lemma on_conn_accept:
  assumes "is_address (conn_addr E n)"
  shows "on_conn E n Connection.accept s =
     (Inr True, s\<lparr>conns := (conns s)[n := (conns s ! n)\<lparr>out := [Sqe_Accept]\<rparr>],
                submitted := submitted s @ [conn_entry E n Sqe_Accept]\<rparr>)"
  using assms by (simp add: on_conn_def finish_conn_def Connection.accept_def emit_def sbind_def perform_submits)

text \<open>A turn accepts on the connections the manager hands out, and changes nothing else of what exists.\<close>

definition same_conn :: "tcp \<Rightarrow> tcp \<Rightarrow> bool" where
  "same_conn c c' \<longleftrightarrow> c'\<lparr>out := []\<rparr> = c\<lparr>out := []\<rparr>"

lemma same_conn_refl [simp]: "same_conn c c"
  by (simp add: same_conn_def)

lemma accept_all_effect:
  "\<forall>n \<in> set ns. is_address (conn_addr E n) \<Longrightarrow>
   \<exists>cs. accept_all E ns s = (Inr (), s\<lparr>conns := cs, submitted := submitted s @ map (\<lambda>n. conn_entry E n Sqe_Accept) ns\<rparr>) \<and>
     length cs = length (conns s) \<and> (\<forall>i < length cs. same_conn (conns s ! i) (cs ! i))"
proof (induction ns arbitrary: s)
  case Nil
  show ?case by (intro exI [of _ "conns s"]) simp
next
  case (Cons n ns)
  let ?cs = "(conns s)[n := (conns s ! n)\<lparr>out := [Sqe_Accept]\<rparr>]"
  let ?s = "s\<lparr>conns := ?cs, submitted := submitted s @ [conn_entry E n Sqe_Accept]\<rparr>"
  from Cons.IH [of ?s] Cons.prems obtain cs where
    cs: "accept_all E ns ?s = (Inr (), ?s\<lparr>conns := cs, submitted := submitted ?s @ map (\<lambda>n. conn_entry E n Sqe_Accept) ns\<rparr>)"
      "length cs = length ?cs" "\<forall>i < length cs. same_conn (?cs ! i) (cs ! i)" by auto
  have "same_conn (conns s ! i) (?cs ! i)" if "i < length cs" for i
    using that cs(2) by (cases "i = n") (simp_all add: same_conn_def)
  with cs on_conn_accept [of E n s] Cons.prems show ?case
    by (intro exI [of _ cs]) (auto simp: same_conn_def)
qed

lemma begin_turn_effect:
  assumes "m = acceptForCount (int (sq_entries s div 4)) ((conn_manager (server_prov s))\<lparr>accepts := []\<rparr>)"
    and "\<forall>n \<in> set (accepts m). is_address (conn_addr E n)" and "next_connection m = length (conns s)"
  shows "\<exists>cs. begin_turn E s = (Inr (), s\<lparr>server_prov := (server_prov s)\<lparr>conn_manager := m\<rparr>, conns := cs,
       inflight := inflight s @ submitted s @ map (\<lambda>n. conn_entry E n Sqe_Accept) (accepts m), submitted := []\<rparr>) \<and>
     length cs = length (conns s) \<and> (\<forall>i < length cs. same_conn (conns s ! i) (cs ! i))"
proof -
  let ?s = "s\<lparr>server_prov := (server_prov s)\<lparr>conn_manager := m\<rparr>\<rparr>"
  have "fill_accepts E s = accept_all E (accepts m) ?s"
    using assms(3) by (simp add: fill_accepts_def Let_def assms(1) [symmetric])
  with accept_all_effect [OF assms(2), of ?s] show ?thesis
    by (auto simp: begin_turn_def sbind_def io_uring_submit_def)
qed

text \<open>An accept completes with a socket.\<close>

definition accepted_conn :: "int \<Rightarrow> tcp \<Rightarrow> tcp" where
  "accepted_conn fd c = c\<lparr>out := [Accept_Done, Sqe_Read (writev_segments (read_buffer c))], clientfd := fd,
     connect_status := CONNECTION_STATUS_READABLE OR CONNECTION_STATUS_WRITABLE\<rparr>"

lemma handle_accepted:
  assumes "addresses_ok E (length (conns s))" "n < length (conns s)" "iov_valid (read_buffer (conns s ! n))"
    and "of_submission q = conn_entry E n Sqe_Accept" "0 \<le> res q"
  shows "handle_cqe E q s = Some (Inr (), s\<lparr>inflight := remove1 (of_submission q) (inflight s),
     conns := (conns s)[n := accepted_conn (res q) (conns s ! n)],
     server_prov := (server_prov s)\<lparr>conn_manager := acceptDone (conn_manager (server_prov s))\<rparr>,
     submitted := submitted s @ [conn_entry E n (Sqe_Read (writev_segments (read_buffer (conns s ! n))))]\<rparr>)"
proof -
  have "is_address (conn_addr E n)" using assms(1,2) by (simp add: addresses_ok_def)
  moreover have "do_io_uring (parse_header E) (res q) (uint USER_EVENT_ACCEPT) ((conns s ! n)\<lparr>out := []\<rparr>) =
      Some (Inr (), accepted_conn (res q) (conns s ! n))"
    using assms(3,5)
    by (simp add: do_io_uring_def user_event_defs callback_accepted_def setFd_def emit_def tcp_read_eq sbind_def accepted_conn_def)
  ultimately show ?thesis
    using handle_cqe_conn [OF assms(1,2,4)]
    by (simp add: Let_def finish_conn_def accepted_conn_def sbind_def perform_submits perform_def [of _ _ Accept_Done] on_manager_def)
qed

text \<open>A read completes with bytes: the kernel's stores and the callback together are \<open>deliver\<close>.\<close>

lemma handle_received:
  assumes "addresses_ok E (length (conns s))" "n < length (conns s)"
    and "of_submission q = conn_entry E n (Sqe_Read (writev_segments (read_buffer (conns s ! n))))"
    and "res q = int (length (received_data q))"
  shows "handle_cqe E q s = map_option
     (\<lambda>rc. finish_conn E n rc (s\<lparr>inflight := remove1 (of_submission q) (inflight s)\<rparr>))
     (deliver (parse_header E) (received_data q) ((conns s ! n)\<lparr>out := []\<rparr>))"
proof -
  let ?s1 = "s\<lparr>inflight := remove1 (of_submission q) (inflight s)\<rparr>"
  let ?c = "conns s ! n" and ?d = "received_data q"
  let ?c1 = "?c\<lparr>read_buffer := (read_buffer ?c)\<lparr>buf := scatter (writev_segments (read_buffer ?c)) ?d (buf (read_buffer ?c))\<rparr>\<rparr>"
  let ?s2 = "?s1\<lparr>conns := (conns s)[n := ?c1]\<rparr>"
  have ad: "is_address (conn_addr E n)" "conn_addr E n \<noteq> register_addr E"
    using assms(1,2) by (simp_all add: addresses_ok_def)
  have store: "kernel_store q ?s1 = ?s2"
    by (simp add: kernel_store_def assms(3) conn_entry_def Let_def)
  have "submission_ok E (length (conns s)) (of_submission q)"
    unfolding assms(3) by (rule conn_entry_ok [OF ad(1) assms(2)])
  then have "callee (user_data (of_submission q)) (res q) = Inr (conn_addr E n, res q, uint USER_EVENT_READ)"
    using callee_of [of E "operation (of_submission q)"] ad(1) assms(3)
    by (simp add: submission_ok_def conn_entry_def)
  moreover have "conn_at E (conn_addr E n) ?s2 = Some n"
    using conn_at_addr [of E ?s2 n] assms(1,2) by simp
  moreover have "do_io_uring (parse_header E) (res q) (uint USER_EVENT_READ) (?c1\<lparr>out := []\<rparr>) =
      deliver (parse_header E) ?d (?c\<lparr>out := []\<rparr>)"
    by (cases ?c) (simp add: do_io_uring_def user_event_defs deliver_def assms(4))
  moreover have "finish_conn E n rc ?s2 = finish_conn E n rc ?s1" for rc :: "unit cxx \<times> tcp"
    by (simp add: finish_conn_def)
  ultimately show ?thesis
    using ad(2) assms(2) by (simp add: handle_cqe_def store virtual_do_io_uring_def Let_def)
qed

text \<open>One message: the request goes to the pool and the next read to the kernel.\<close>

lemma handle_request_received:
  assumes "addresses_ok E (length (conns s))" "n < length (conns s)"
    and "c = conns s ! n" "self c = conn_addr E n" "awaiting_header c"
    and "buffer_wf (read_buffer c)" "iov_valid (read_buffer c)" "content (read_buffer c) = []"
    and "sendable S (parse_header E) m" "received_data q = generateStringFromProtocal S m"
    and "length (received_data q) \<le> writableBytes (read_buffer c)"
    and "of_submission q = conn_entry E n (Sqe_Read (writev_segments (read_buffer c)))"
    and "res q = int (length (received_data q))"
  shows "\<exists>rb. handle_cqe E q s = Some (Inr (), s\<lparr>inflight := remove1 (of_submission q) (inflight s),
       conns := (conns s)[n := c\<lparr>ri := moved_from (m\<lparr>conn := conn_addr E n\<rparr>), read_buffer := rb,
          out := [Dispatch (m\<lparr>conn := conn_addr E n\<rparr>), Sqe_Read (writev_segments rb)]\<rparr>],
       pond := execute (Handle_request (m\<lparr>conn := conn_addr E n\<rparr>)) (pond s),
       submitted := submitted s @ [conn_entry E n (Sqe_Read (writev_segments rb))]\<rparr>) \<and>
     buffer_wf rb \<and> iov_valid rb \<and> content rb = []"
proof -
  let ?c = "c\<lparr>out := []\<rparr>" and ?r = "m\<lparr>conn := conn_addr E n\<rparr>"
  have ad: "is_address (conn_addr E n)" using assms(1,2) by (simp add: addresses_ok_def)
  have aw: "awaiting_header ?c" using assms(5) by (simp add: awaiting_header_def)
  have "decode (parse_header E) ?c (received_data q) =
      decode (parse_header E) (?c\<lparr>ri := moved_from ?r, out := [Dispatch ?r]\<rparr>) []"
    using decode_message [OF aw assms(9), of "[]"] assms(4,10) by simp
  also have "\<dots> = (Inr (), ?c\<lparr>ri := moved_from ?r, out := [Dispatch ?r]\<rparr>, [])"
    using assms(5) by (intro decode_wait) (simp add: awaiting_header_def)
  finally have d: "decode (parse_header E) ?c (content (read_buffer ?c) @ received_data q) =
      (Inr (), ?c\<lparr>ri := moved_from ?r, out := [Dispatch ?r]\<rparr>, [])" using assms(8) by simp
  have "received_data q \<noteq> []"
    unfolding assms(10) generate_eq by (simp add: fixed_part_def)
  with deliver_decode [of ?c "received_data q" "parse_header E"] assms(6,7,11) d obtain rb where
    "deliver (parse_header E) (received_data q) ?c =
       Some (Inr (), c\<lparr>out := [Dispatch ?r, Sqe_Read (writev_segments rb)], ri := moved_from ?r, read_buffer := rb\<rparr>)"
    and rb: "buffer_wf rb" "iov_valid rb" "content rb = []"
    by (cases c) auto
  then have "deliver (parse_header E) (received_data q) ((conns s ! n)\<lparr>out := []\<rparr>) =
       Some (Inr (), c\<lparr>ri := moved_from ?r, read_buffer := rb, out := [Dispatch ?r, Sqe_Read (writev_segments rb)]\<rparr>)"
    using assms(3) by (cases c) simp
  moreover have "of_submission q = conn_entry E n (Sqe_Read (writev_segments (read_buffer (conns s ! n))))"
    using assms(3,12) by simp
  ultimately show ?thesis
    using handle_received [OF assms(1,2) _ assms(13)] ad rb
    by (intro exI [of _ rb])
      (simp add: finish_conn_def sbind_def perform_submits perform_def [of _ _ "Dispatch _"] asyncHandleRequest_def
        asyncHandle_def)
qed

text \<open>A worker runs the request and the response goes to the kernel.\<close>

lemma work_answers:
  assumes "addresses_ok E (length (conns s))" "n < length (conns s)" "c = conns s ! n"
    and "thread_pool.tasks (pond s) = [Some (Handle_request r)]" "\<not> stop (pond s)" "conn r = conn_addr E n"
    and "onMessage (server_prov s) r = Some resp" "length resp = 15"
    and "write_buffer c = Buffer MAX_BUFFER_SIZE"
  shows "\<exists>wb p. work E w s = (Inr (), s\<lparr>pond := p,
       conns := (conns s)[n := c\<lparr>out := [Sqe_Writev USER_EVENT_WRITE (readv_segments wb)], write_buffer := wb,
          to_send_bytes := to_send_bytes c + 15\<rparr>],
       submitted := submitted s @ [conn_entry E n (Sqe_Writev USER_EVENT_WRITE (readv_segments wb))]\<rparr>) \<and>
     gather (readv_segments wb) (buf wb) = resp \<and> thread_pool.tasks p = []"
proof -
  let ?p = "take_turn w (pond s)"
  let ?s = "s\<lparr>pond := ?p\<rparr>" and ?c = "c\<lparr>out := []\<rparr>"
  have ad: "is_address (conn_addr E n)" using assms(1,2) by (simp add: addresses_ok_def)
  have p: "workers ?p w = Running (Handle_request r)" "thread_pool.tasks ?p = []"
    using assms(4,5) by (simp_all add: take_turn_def move_task_def call_task_def)
  have "iov_valid (write_buffer ?c)" "length resp \<le> writableBytes (write_buffer ?c)" "readIndex (write_buffer ?c) = 0"
    using assms(8,9) by (simp_all add: Buffer_def writableBytes_def readableBytes_def MAX_BUFFER_SIZE_def)
  with tcp_send_cases [of ?c resp] assms(9) obtain wb where
    wb: "content wb = resp" "buffer_wf wb" "readIndex wb = 0" and send: "tcp_send resp ?c =
      (let c' = ?c\<lparr>write_buffer := wb, to_send_bytes := to_send_bytes c + int (length resp)\<rparr>
       in if readableBytes wb = 15 \<and> (readIndex wb \<le> writeIndex wb \<or> writeIndex wb = 0)
          then (Inr True, c'\<lparr>out := out ?c @ [Sqe_Writev USER_EVENT_WRITE (readv_segments wb)]\<rparr>)
          else (Inl Assert_Failed, c'))"
    by (auto simp: Let_def)
  have "readableBytes wb = 15" using wb(1) assms(8) by (metis length_content)
  with send wb(3) assms(8) have send: "tcp_send resp ?c = (Inr True, c\<lparr>out := [Sqe_Writev USER_EVENT_WRITE (readv_segments wb)],
      write_buffer := wb, to_send_bytes := to_send_bytes c + 15\<rparr>)"
    by (cases c) (simp add: Let_def)
  have at: "conn_at E (conn r) ?s = Some n" using conn_at_addr [of E ?s n] assms(1,2,6) by simp
  have gather: "gather (readv_segments wb) (buf wb) = resp" using gather_content [OF wb(2)] wb(1) by simp
  have "run_task E (Handle_request r) ?s = (Inr (), ?s\<lparr>conns := (conns s)[n := c\<lparr>out := [Sqe_Writev USER_EVENT_WRITE (readv_segments wb)],
      write_buffer := wb, to_send_bytes := to_send_bytes c + 15\<rparr>],
      submitted := submitted s @ [conn_entry E n (Sqe_Writev USER_EVENT_WRITE (readv_segments wb))]\<rparr>)"
    using at ad assms(3,7) send
    by (simp add: run_task_def on_conn_def handle_request_def finish_conn_def sbind_def perform_submits)
  with p gather show ?thesis
    by (intro exI [of _ wb] exI [of _ "?p\<lparr>workers := (workers ?p)(w := Top), lock := None,
         finished := finished ?p @ [Handle_request r]\<rparr>"]) (cases s, simp add: work_def Let_def sbind_def)
qed

lemma same_conn_fields:
  assumes "same_conn (new_conn E n) c"
  shows "self c = conn_addr E n" "awaiting_header c" "read_buffer c = Buffer MAX_BUFFER_SIZE"
    "write_buffer c = Buffer MAX_BUFFER_SIZE" "event_loop c" "to_send_bytes c = 0"
proof -
  have c: "c = (new_conn E n)\<lparr>out := out c\<rparr>"
    using assms unfolding same_conn_def by (cases c) (cases "new_conn E n", simp)
  show "self c = conn_addr E n" "awaiting_header c" "read_buffer c = Buffer MAX_BUFFER_SIZE"
    "write_buffer c = Buffer MAX_BUFFER_SIZE" "event_loop c" "to_send_bytes c = 0"
    by (subst c, simp add: new_conn_def TcpConnection_def awaiting_header_def PROTOCAL_HEADER_LEN_def)+
qed


text \<open>The completions of one client's call on the first connection of the demonstration server.\<close>

definition cqe_of :: "action \<Rightarrow> int \<Rightarrow> bytes \<Rightarrow> cqe" where
  "cqe_of a r d = \<lparr>of_submission = conn_entry demo_env 0 a, res = r, received_data = d\<rparr>"


section \<open>The double return in a run\<close>

lemma turn_reachable:
  assumes "server_reachable E s" and "prov_status (server_prov s) = PROVIDER_LOOPING" and "begin_turn E s = (Inr (), s1)"
    and "addresses_ok E (length (conns s1))" and "mset (map of_submission qs) \<subseteq># mset (inflight s1)"
    and "handle_cqes E qs s1 = Some (Inr (), s')"
  shows "server_reachable E s'"
  using assms by (intro server_reachable.Step [OF assms(1)] Turn)

text \<open>
  The demonstration server after one accept (\<open>conns ! 0\<close> has asked for its first read), after the request,
  and after the response was submitted.
\<close>

definition demo_manager :: "int \<Rightarrow> int \<Rightarrow> nat list \<Rightarrow> nat list \<Rightarrow> manager" where
  "demo_manager outer accepting idle acc =
     \<lparr>upper_limit_count = 100, outer_count = outer, accepting_count = accepting, allocated_count = 4, total_count = 0,
      idle_pool = idle, next_connection = 4, accepts = acc\<rparr>"

lemma demo_manager_steps:
  "ConnectionManager 4 100 = demo_manager 0 0 [0, 1, 2, 3] []"
  "acceptForCount 1 (demo_manager 0 0 [0, 1, 2, 3] []) = demo_manager 0 1 [1, 2, 3] [0]"
  "acceptForCount 1 (demo_manager 1 0 [1, 2, 3] []) = demo_manager 1 1 [2, 3] [1]"
  "acceptForCount 1 (demo_manager 1 1 [2, 3] []) = demo_manager 1 1 [2, 3] []"
  by code_simp+

lemma demo_accept_done:
  "(acceptDone (demo_manager i a idle acc)) = demo_manager (i + 1) (a - 1) idle acc"
  "(demo_manager i a idle acc)\<lparr>accepts := []\<rparr> = demo_manager i a idle []"
  "accepts (demo_manager i a idle acc) = acc" "next_connection (demo_manager i a idle acc) = 4"
  by (simp_all add: demo_manager_def acceptDone_def)

lemma same_conn_same:
  assumes "same_conn c c'"
  shows "self c' = self c" "awaiting_header c' = awaiting_header c" "read_buffer c' = read_buffer c"
    "write_buffer c' = write_buffer c" "event_loop c' = event_loop c" "clientfd c' = clientfd c"
  using assms unfolding same_conn_def awaiting_header_def by (cases c; cases c'; simp)+

text \<open>A turn of the demonstration server, whose manager becomes \<open>m\<close>, up to the completions.\<close>

lemma demo_turn:
  assumes "sq_entries s = 4" "length (conns s) = 4"
    and "acceptForCount 1 ((conn_manager (server_prov s))\<lparr>accepts := []\<rparr>) = m"
    and "next_connection m = 4" "set (accepts m) \<subseteq> {0, 1, 2, 3}"
  shows "\<exists>cs. begin_turn demo_env s = (Inr (), s\<lparr>server_prov := (server_prov s)\<lparr>conn_manager := m\<rparr>, conns := cs,
       inflight := inflight s @ submitted s @ map (\<lambda>n. conn_entry demo_env n Sqe_Accept) (accepts m), submitted := []\<rparr>) \<and>
     length cs = 4 \<and> same_conn (conns s ! 0) (cs ! 0)"
proof -
  have "\<forall>n \<in> set (accepts m). is_address (conn_addr demo_env n)"
    using assms(5) demo_addresses by (auto simp: addresses_ok_def)
  with begin_turn_effect [of m s demo_env] assms(1-4) show ?thesis by auto
qed

text \<open>The state after the first accept: the connection waits for its first read.\<close>

lemma demo_accepted:
  "\<exists>(s :: unit server) (p :: unit provider) c. server_reachable demo_env s \<and> prov_status (server_prov s) = PROVIDER_LOOPING \<and>
     sq_entries s = 4 \<and> length (conns s) = 4 \<and> conns s ! 0 = accepted_conn 5 c \<and> same_conn (new_conn demo_env 0) c \<and>
     submitted s = [conn_entry demo_env 0 (Sqe_Read (writev_segments (Buffer MAX_BUFFER_SIZE)))] \<and> inflight s = [demo_timer] \<and>
     conn_manager (server_prov s) = demo_manager 1 0 [1, 2, 3] [0] \<and> pond s = DynamicThreadPool 2 \<and>
     serviceTable (server_prov s) = serviceTable (Notify demo_service p) \<and> \<not> stoping (reg s)"
proof -
  obtain s0 :: "unit server" and p :: "unit provider" where r0: "server_reachable demo_env s0"
    "submitted s0 = [demo_timer]" "inflight s0 = []" "prov_status (server_prov s0) = PROVIDER_LOOPING"
    "conns s0 = map (new_conn demo_env) [0..<4]" "conn_manager (server_prov s0) = demo_manager 0 0 [0, 1, 2, 3] []"
    "pond s0 = DynamicThreadPool 2" "sq_entries s0 = 4"
    "serviceTable (server_prov s0) = serviceTable (Notify demo_service p)" "\<not> stoping (reg s0)"
    using demo_started unfolding demo_manager_steps(1) by blast
  note ad = demo_addresses
  have c0: "conns s0 ! 0 = new_conn demo_env 0" "length (conns s0) = 4" by (simp_all add: r0(5))
  obtain cs where t1: "begin_turn demo_env s0 = (Inr (), s0\<lparr>server_prov := (server_prov s0)\<lparr>conn_manager := demo_manager 0 1 [1, 2, 3] [0]\<rparr>,
      conns := cs, inflight := [demo_timer, conn_entry demo_env 0 Sqe_Accept], submitted := []\<rparr>)" (is "_ = (_, ?t1)")
    and cs: "length cs = 4" "same_conn (new_conn demo_env 0) (cs ! 0)"
    using demo_turn [of s0 "demo_manager 0 1 [1, 2, 3] [0]"] r0(2,3,6,8) c0
    by (auto simp: demo_accept_done demo_manager_steps simp del: One_nat_def)
  note f = same_conn_fields [OF cs(2)]
  let ?iov = "writev_segments (Buffer MAX_BUFFER_SIZE)"
  obtain s1 where h1: "handle_cqe demo_env (cqe_of Sqe_Accept 5 []) ?t1 = Some (Inr (), s1)"
    and s1: "conns s1 = cs[0 := accepted_conn 5 (cs ! 0)]" "inflight s1 = [demo_timer]" "submitted s1 = [conn_entry demo_env 0 (Sqe_Read ?iov)]"
      "conn_manager (server_prov s1) = demo_manager 1 0 [1, 2, 3] [0]" "pond s1 = pond s0" "sq_entries s1 = 4"
      "prov_status (server_prov s1) = PROVIDER_LOOPING" "serviceTable (server_prov s1) = serviceTable (server_prov s0)"
      "reg s1 = reg s0"
    using handle_accepted [of demo_env ?t1 0 "cqe_of Sqe_Accept 5 []"] ad cs(1) f(3) r0(4,8)
    by (simp add: cqe_of_def demo_accept_done)
  have r1: "server_reachable demo_env s1"
    by (rule turn_reachable [OF r0(1,4) t1, of "[cqe_of Sqe_Accept 5 []]"])
      (use ad cs(1) h1 in \<open>simp_all add: cqe_of_def\<close>)
  with s1 cs r0(7,9,10) show ?thesis by (intro exI [of _ s1] exI [of _ p] exI [of _ "cs ! 0"]) simp
qed

text \<open>Up to the state in which the first connection waits for a read and for the write of its response.\<close>

lemma demo_served:
  "\<exists>(s :: unit server) rb wb. server_reachable demo_env s \<and> prov_status (server_prov s) = PROVIDER_LOOPING \<and>
     sq_entries s = 4 \<and> length (conns s) = 4 \<and> event_loop (conns s ! 0) \<and>
     conn_manager (server_prov s) = demo_manager 1 1 [2, 3] [1] \<and>
     submitted s = [conn_entry demo_env 0 (Sqe_Read (writev_segments rb)),
                    conn_entry demo_env 0 (Sqe_Writev USER_EVENT_WRITE (readv_segments wb))]"
proof -
  obtain s1 :: "unit server" and p :: "unit provider" and c0 where r1: "server_reachable demo_env s1"
    and s1: "prov_status (server_prov s1) = PROVIDER_LOOPING" "sq_entries s1 = 4" "length (conns s1) = 4"
      "conns s1 ! 0 = accepted_conn 5 c0" "same_conn (new_conn demo_env 0) c0"
      "submitted s1 = [conn_entry demo_env 0 (Sqe_Read (writev_segments (Buffer MAX_BUFFER_SIZE)))]"
      "conn_manager (server_prov s1) = demo_manager 1 0 [1, 2, 3] [0]" "pond s1 = DynamicThreadPool 2"
      "serviceTable (server_prov s1) = serviceTable (Notify demo_service p)"
    using demo_accepted by blast
  note ad = demo_addresses and f = same_conn_fields [OF s1(5)]
  let ?iov = "writev_segments (Buffer MAX_BUFFER_SIZE)"
  obtain ds fs where t2: "begin_turn demo_env s1 = (Inr (), s1\<lparr>server_prov := (server_prov s1)\<lparr>conn_manager := demo_manager 1 1 [2, 3] [1]\<rparr>,
      conns := ds, inflight := fs, submitted := []\<rparr>)" (is "_ = (_, ?t2)")
    and ds: "length ds = 4" "same_conn (accepted_conn 5 c0) (ds ! 0)"
    and fl: "conn_entry demo_env 0 (Sqe_Read ?iov) \<in> set fs"
    using demo_turn [of s1 "demo_manager 1 1 [2, 3] [1]"] s1
    by (auto simp: demo_accept_done demo_manager_steps simp del: One_nat_def)
  let ?c = "ds ! 0" and ?q = "cqe_of (Sqe_Read ?iov) 32 demo_message"
  let ?r = "demo_request\<lparr>conn := conn_addr demo_env 0\<rparr>"
  have c: "self ?c = conn_addr demo_env 0" "awaiting_header ?c" "read_buffer ?c = Buffer MAX_BUFFER_SIZE"
    "write_buffer ?c = Buffer MAX_BUFFER_SIZE" "event_loop ?c"
    unfolding same_conn_same [OF ds(2)] using f by (simp_all add: accepted_conn_def awaiting_header_def)
  have pm: "parse_header demo_env = demo_parse" by (simp add: demo_env_def)
  have sz: "sendable demo_serialize (parse_header demo_env) demo_request" "received_data ?q = generateStringFromProtocal demo_serialize demo_request"
    "length (received_data ?q) \<le> writableBytes (read_buffer ?c)" "res ?q = int (length (received_data ?q))"
    "of_submission ?q = conn_entry demo_env 0 (Sqe_Read (writev_segments (read_buffer ?c)))"
    unfolding pm by (simp_all add: demo_sendable cqe_of_def demo_message_def [symmetric] length_demo_message c(3))
  have bf: "buffer_wf (read_buffer ?c)" "iov_valid (read_buffer ?c)" "content (read_buffer ?c) = []"
    unfolding c(3) by simp_all
  obtain rb s2 where h2: "handle_cqe demo_env ?q ?t2 = Some (Inr (), s2)"
    and s2: "pond s2 = execute (Handle_request ?r) (DynamicThreadPool 2)" "serviceTable (server_prov s2) = serviceTable (server_prov s1)"
      "submitted s2 = [conn_entry demo_env 0 (Sqe_Read (writev_segments rb))]" "length (conns s2) = 4"
      "conn_manager (server_prov s2) = demo_manager 1 1 [2, 3] [1]" "sq_entries s2 = 4"
      "prov_status (server_prov s2) = PROVIDER_LOOPING"
      "write_buffer (conns s2 ! 0) = Buffer MAX_BUFFER_SIZE" "event_loop (conns s2 ! 0)"
    using handle_request_received [of demo_env ?t2 0 ?c demo_serialize demo_request ?q, OF _ _ _ c(1,2) bf sz(1-3,5,4)] ad ds(1) s1 c(4,5)
    by auto
  have r2: "server_reachable demo_env s2"
    by (rule turn_reachable [OF r1 s1(1) t2, of "[?q]"]) (use ad ds(1) h2 fl in \<open>simp_all add: cqe_of_def\<close>)
  have p: "thread_pool.tasks (pond s2) = [Some (Handle_request ?r)]" "\<not> stop (pond s2)" "workers (pond s2) 0 = Top" "lock (pond s2) = None"
    by (simp_all add: s2(1) DynamicThreadPool_def execute_def HipeTask_def)
  have om: "onMessage (server_prov s2) ?r = Some (replicate 15 1)"
    using s1(9) by (simp add: onMessage_def s2(2) Notify_def add_method_def demo_request_def demo_service_def)
  have "addresses_ok demo_env (length (conns s2))" "0 < length (conns s2)" using ad s2(4) by simp_all
  from work_answers [OF this refl p(1,2) _ om _ s2(8), of 0] obtain wb s3 where
    w: "work demo_env 0 s2 = (Inr (), s3)" and s3: "server_prov s3 = server_prov s2" "sq_entries s3 = 4" "length (conns s3) = 4"
      "event_loop (conns s3 ! 0)"
      "submitted s3 = submitted s2 @ [conn_entry demo_env 0 (Sqe_Writev USER_EVENT_WRITE (readv_segments wb))]"
    using s2 by auto
  have "server_reachable demo_env s3" by (rule server_reachable.Step [OF r2 Work [OF _ p(4) w]]) (simp add: p(3))
  with s3 s2 show ?thesis by (intro exI [of _ s3] exI [of _ rb] exI [of _ wb]) simp
qed

text \<open>C6: a reachable state in which one connection stands twice among the idle ones and the number of active
  connections is negative: a client is accepted, its request is answered, it closes its side before the
  response is written, and the two completions return the connection twice. The manager's accounting
  (active, accepting and idle connections are different) holds only as long as this does not happen.\<close>

theorem double_return_is_reached:
  "\<exists>s :: unit server. server_reachable demo_env s \<and> idle_pool (conn_manager (server_prov s)) = [2, 3, 0, 0] \<and>
     outer_count (conn_manager (server_prov s)) = -1"
proof -
  obtain s :: "unit server" and rb wb where r: "server_reachable demo_env s"
    "prov_status (server_prov s) = PROVIDER_LOOPING" "sq_entries s = 4" "length (conns s) = 4" "event_loop (conns s ! 0)"
    "conn_manager (server_prov s) = demo_manager 1 1 [2, 3] [1]"
    "submitted s = [conn_entry demo_env 0 (Sqe_Read (writev_segments rb)),
                    conn_entry demo_env 0 (Sqe_Writev USER_EVENT_WRITE (readv_segments wb))]"
    using demo_served by blast
  note ad = demo_addresses
  let ?q1 = "cqe_of (Sqe_Read (writev_segments rb)) 0 []"
  let ?q2 = "cqe_of (Sqe_Writev USER_EVENT_WRITE (readv_segments wb)) (-32) []"
  obtain cs where t: "begin_turn demo_env s = (Inr (), s\<lparr>server_prov := (server_prov s)\<lparr>conn_manager := demo_manager 1 1 [2, 3] []\<rparr>,
      conns := cs, inflight := inflight s @ submitted s, submitted := []\<rparr>)" (is "_ = (_, ?t)")
    and cs: "length cs = 4" "event_loop (cs ! 0)"
    using demo_turn [of s "demo_manager 1 1 [2, 3] []"] r(3-6) same_conn_same(5)
    by (fastforce simp: demo_accept_done demo_manager_steps simp del: One_nat_def)
  have sub: "of_submission (cqe_of a x d) = conn_entry demo_env 0 a" "res (cqe_of a x d) = x" "received_data (cqe_of a x d) = d"
    for a x d by (simp_all add: cqe_of_def)
  let ?u = "closing demo_env 0 (?t\<lparr>inflight := remove1 (of_submission ?q1) (inflight ?t)\<rparr>)"
  let ?v = "closing demo_env 0 (?u\<lparr>inflight := remove1 (of_submission ?q2) (inflight ?u)\<rparr>)"
  let ?c = "conn_entry demo_env 0 (Sqe_Close (clientfd (cs ! 0)))"
  have u: "handle_cqe demo_env ?q1 ?t = Some (Inr (), ?u)"
    using ad cs by (intro handle_end_of_stream [where iov = "writev_segments rb"]) (simp_all add: sub)
  have cu: "conns ?u ! 0 = (cs ! 0)\<lparr>out := [Sqe_Close (clientfd (cs ! 0))]\<rparr>"
    using cs(1) by (subst closing_conn) simp_all
  have v: "handle_cqe demo_env ?q2 ?u = Some (Inr (), ?v)"
    using ad cs cu by (intro handle_failed_write [where iov = "readv_segments wb"]) (simp_all add: sub)
  have sv: "submitted ?v = [?c, ?c]" using cu by (simp add: closing_entry)
  have fv: "server_prov ?v = server_prov ?t" "length (conns ?v) = 4" "sq_entries ?v = 4"
    using cs(1) r(3) by (simp_all add: closing_def Let_def)
  have rv: "server_reachable demo_env ?v"
    by (rule turn_reachable [OF r(1,2) t, of "[?q1, ?q2]"]) (use ad cs(1) u v in \<open>simp_all add: sub r(7)\<close>)
  obtain ds where t2: "begin_turn demo_env ?v = (Inr (), ?v\<lparr>server_prov := (server_prov ?v)\<lparr>conn_manager := demo_manager 1 1 [2, 3] []\<rparr>,
      conns := ds, inflight := inflight ?v @ [?c, ?c], submitted := []\<rparr>)" (is "_ = (_, ?w)") and ds: "length ds = 4"
    using demo_turn [of ?v "demo_manager 1 1 [2, 3] []"] fv sv
    by (fastforce simp: demo_accept_done demo_manager_steps simp del: One_nat_def)
  let ?q = "cqe_of (Sqe_Close (clientfd (cs ! 0))) 0 []"
  obtain x where x: "handle_cqe demo_env ?q ?w = Some (Inr (), x)" "length (conns x) = 4"
    "conn_manager (server_prov x) = sendBack 0 (demo_manager 1 1 [2, 3] [])"
    using handle_close [of demo_env ?w 0 ?q "clientfd (cs ! 0)"] ad ds by (auto simp: sub)
  obtain y where y: "handle_cqe demo_env ?q x = Some (Inr (), y)"
    "conn_manager (server_prov y) = sendBack 0 (conn_manager (server_prov x))"
    using handle_close [of demo_env x 0 ?q "clientfd (cs ! 0)"] ad x(2) by (auto simp: sub)
  have "server_reachable demo_env y"
    by (rule turn_reachable [OF rv _ t2, of "[?q, ?q]"]) (use ad ds x y r(2) fv(1) in \<open>simp_all add: sub\<close>)
  moreover have "idle_pool (conn_manager (server_prov y)) = [2, 3, 0, 0]" "outer_count (conn_manager (server_prov y)) = -1"
    by (simp_all add: y(2) x(3) sendBack_def Conn_Manager.enqueue_def demo_manager_def)
  ultimately show ?thesis by blast
qed

end
