(* ===== verification/Server_Frame.thy ===== *)
theory Server_Frame
  imports Server_Runs
begin

text \<open>
  What a run of the server leaves alone. The locale \<open>server_part\<close> is the contract between the operations of
  the event loop and a predicate \<open>I\<close> on the server that only depends on some of its connections: those
  that are not \<open>allowed\<close> must neither be handed out nor called. It is interpreted for the status of the
  provider and for a connection that nothing refers to any more.
\<close>

section \<open>Handlers do not complete other entries\<close>

lemma inflight_perform: "preserves (\<lambda>s. inflight s = es) (perform E n a)"
proof -
  have "preserves (\<lambda>s. inflight s = es) (prepare p ev op)" for p ev op
    by (rule preservesI) (simp add: prepare_def sbind_def split: sum.split)
  then show ?thesis
    by (cases a) (auto simp: perform_def asyncHandleRequest_def asyncHandle_def on_manager_def intro!: preserves_basic)
qed

lemma inflight_perform_all: "preserves (\<lambda>s. inflight s = es) (perform_all E n as)"
proof (induction as)
  case Nil
  show ?case unfolding perform_all.simps by (rule preserves_basic)
next
  case (Cons a as)
  show ?case unfolding perform_all.simps by (rule preserves_sthen [OF inflight_perform Cons.IH])
qed

lemma inflight_finish: "inflight (snd (finish_conn E n rc s)) = inflight s"
proof -
  have "preserves (\<lambda>t. inflight t = inflight s) (sthen (perform_all E n (out (snd rc))) (slift (fst rc)))"
    by (intro preserves_intros inflight_perform_all)
  from preservesD [OF this, of "s\<lparr>conns := (conns s)[n := snd rc]\<rparr>"] show ?thesis by (simp add: finish_conn_def)
qed

lemma inflight_on_register: "inflight (snd (on_register E m s)) = inflight s"
proof -
  obtain r g where m: "m (reg s) = (r, g)" by fastforce
  have p: "preserves (\<lambda>t. inflight t = inflight s) (prepare p ev op)" for p ev op
    by (rule preservesI) (simp add: prepare_def sbind_def split: sum.split)
  have "preserves (\<lambda>t. inflight t = inflight s) (sthen (times (timers g - timers (reg s))
                 (prepare (register_addr E) (word_of_int ETCD_EVENT_TIMEOUT) Timer_op)) (
        sthen (times (register.tasks g - register.tasks (reg s)) (asyncHandle Update_node)) (slift r)))"
    unfolding asyncHandle_def by (intro preserves_intros p) simp
  from preservesD [OF this, of "s\<lparr>reg := g\<rparr>"] show ?thesis by (simp add: on_register_def m)
qed

lemma inflight_handle_cqe:
  assumes "handle_cqe E q s = Some y"
  shows "inflight (snd y) = remove1 (of_submission q) (inflight s)"
proof -
  let ?s1 = "kernel_store q (s\<lparr>inflight := remove1 (of_submission q) (inflight s)\<rparr>)"
  have s1: "inflight ?s1 = remove1 (of_submission q) (inflight s)"
    by (cases "operation (of_submission q)") (auto simp: kernel_store_def Let_def split: action.split)
  have "inflight (snd y) = inflight ?s1"
    using assms
    by (auto simp: handle_cqe_def Let_def virtual_do_io_uring_def inflight_on_register inflight_finish
        split: sum.splits prod.splits if_splits option.splits)
  with s1 show ?thesis by simp
qed

section \<open>The contract\<close>

locale server_part =
  fixes E :: env and I :: "'m server \<Rightarrow> bool" and allowed :: "nat \<Rightarrow> bool" and heart :: bool
  assumes entries: "I s \<Longrightarrow> e \<in> set (inflight s) \<union> set (submitted s) \<Longrightarrow> operation e = Conn_op m a \<Longrightarrow> allowed m"
    and timer_entries: "I s \<Longrightarrow> e \<in> set (inflight s) \<union> set (submitted s) \<Longrightarrow> operation e = Timer_op \<Longrightarrow> heart"
    and waiting_update: "I s \<Longrightarrow> Some Update_node \<in> set (thread_pool.tasks (pond s)) \<Longrightarrow> heart"
    and waiting_requests: "I s \<Longrightarrow> Some (Handle_request r) \<in> set (thread_pool.tasks (pond s)) \<Longrightarrow>
      m < length (conns s) \<Longrightarrow> conn r = conn_addr E m \<Longrightarrow> allowed m"
    and idle: "I s \<Longrightarrow> m \<in> set (idle_pool (conn_manager (server_prov s))) \<Longrightarrow> allowed m"
    and fresh: "I s \<Longrightarrow> length (conns s) \<le> m \<Longrightarrow> allowed m"
    and manager: "I s \<Longrightarrow> \<forall>m \<in> set (idle_pool mgr'). allowed m \<Longrightarrow>
      I (s\<lparr>server_prov := (server_prov s)\<lparr>conn_manager := mgr'\<rparr>\<rparr>)"
    and info: "I s \<Longrightarrow> I (s\<lparr>server_prov := (server_prov s)\<lparr>node_info := i\<rparr>\<rparr>)"
    and update: "I s \<Longrightarrow> allowed m \<Longrightarrow> I (s\<lparr>conns := (conns s)[m := c]\<rparr>)"
    and grow: "I s \<Longrightarrow> I (s\<lparr>conns := conns s @ cs\<rparr>)"
    and submit: "I s \<Longrightarrow> (\<And>m a. operation e = Conn_op m a \<Longrightarrow> allowed m) \<Longrightarrow>
      (operation e = Timer_op \<Longrightarrow> heart) \<Longrightarrow> I (s\<lparr>submitted := submitted s @ [e]\<rparr>)"
    and task: "I s \<Longrightarrow> (\<And>r. t = Handle_request r \<Longrightarrow> \<exists>m < length (conns s). allowed m \<and> conn r = conn_addr E m) \<Longrightarrow>
      (t = Update_node \<Longrightarrow> heart) \<Longrightarrow> addresses_ok E (length (conns s)) \<Longrightarrow> I (s\<lparr>pond := execute t (pond s)\<rparr>)"
    and turn_taken: "I s \<Longrightarrow> set (thread_pool.tasks p) \<subseteq> set (thread_pool.tasks (pond s)) \<Longrightarrow> I (s\<lparr>pond := p\<rparr>)"
    and register: "I s \<Longrightarrow> heart \<Longrightarrow> I (s\<lparr>reg := g\<rparr>)"
    and queues: "I s \<Longrightarrow> set xs \<union> set ys \<subseteq> set (inflight s) \<union> set (submitted s) \<Longrightarrow>
      I (s\<lparr>inflight := xs, submitted := ys\<rparr>)"
begin

text \<open>The predicate together with the invariant of servers with \<open>k\<close> connections.\<close>

definition J :: "nat \<Rightarrow> 'm server \<Rightarrow> bool" where
  "J k s \<longleftrightarrow> I s \<and> server_inv E k s \<and> addresses_ok E k"

lemma J_both: "preserves (J k) m" if "keeps E k m" and "\<And>s. J k s \<Longrightarrow> I (snd (m s))"
  using that by (auto simp: J_def preserves_def)

lemma JD: "J k s \<Longrightarrow> I s" "J k s \<Longrightarrow> server_inv E k s" "J k s \<Longrightarrow> addresses_ok E k" "J k s \<Longrightarrow> length (conns s) = k"
  by (auto simp: J_def server_inv_def)

lemma prepare_J:
  assumes "p = owner E op" "ev = event_kind op" "\<forall>n a. op = Conn_op n a \<longrightarrow> n < k \<and> allowed n"
    and "op = Timer_op \<Longrightarrow> heart"
  shows "preserves (J k) (prepare p ev op)"
proof (rule J_both)
  show "keeps E k (prepare p ev op)" using assms by (intro keeps_prepare) auto
next
  fix s assume "J k s"
  with assms(3,4) show "I (snd (prepare p ev op s))"
    by (cases "getIOUringUserdata p ev") (auto simp: prepare_def sbind_def intro!: submit dest: JD)
qed

lemma asyncHandle_J:
  assumes "\<forall>r. t = Handle_request r \<longrightarrow> (\<exists>m < k. allowed m \<and> conn r = conn_addr E m)"
    and "t = Update_node \<Longrightarrow> heart"
  shows "preserves (J k) (asyncHandle t)"
proof (rule J_both)
  show "keeps E k (asyncHandle t)"
    using assms by (intro keeps_asyncHandle) (auto simp: task_ok_def split: task.split)
next
  fix s assume j: "J k s"
  show "I (snd (asyncHandle t s))"
    using assms JD(3,4) [OF j] by (auto simp: asyncHandle_def intro!: task JD(1) [OF j])
qed

lemma perform_J:
  assumes "n < k" "allowed n" "\<forall>r. a = Dispatch r \<longrightarrow> conn r = conn_addr E n"
  shows "preserves (J k) (perform E n a)"
proof -
  have m: "preserves (J k) (on_manager f)"
    if "keeps E k (on_manager f :: ('m server, unit) sm)" "\<And>mg. set (idle_pool (f mg)) \<subseteq> insert n (set (idle_pool mg))" for f
  proof (rule J_both [OF that(1)])
    fix s assume "J k s"
    with that(2) [of "conn_manager (server_prov s)"] assms(2) show "I (snd (on_manager f s))"
      by (auto simp: on_manager_def intro!: manager dest: JD idle)
  qed
  have ks: "keeps E k (on_manager (sendBack n) :: ('m server, unit) sm)"
    and ka: "keeps E k (on_manager acceptDone :: ('m server, unit) sm)"
    using keeps_perform [OF assms(1), of Send_Back] keeps_perform [OF assms(1), of Accept_Done]
    by (simp_all add: perform_def)
  have "preserves (J k) (on_manager (sendBack n))" "preserves (J k) (on_manager acceptDone)"
    by (rule m [OF ks], simp add: sendBack_def Conn_Manager.enqueue_def)
      (rule m [OF ka], auto simp: acceptDone_def)
  then show ?thesis
    using assms by (cases a) (auto simp: perform_def asyncHandleRequest_def intro!: prepare_J asyncHandle_J)
qed

lemma perform_all_J:
  "n < k \<Longrightarrow> allowed n \<Longrightarrow> \<forall>r \<in> set (dispatched as). conn r = conn_addr E n \<Longrightarrow> preserves (J k) (perform_all E n as)"
proof (induction as)
  case Nil
  show ?case unfolding perform_all.simps by (rule preserves_basic)
next
  case (Cons a as)
  have d: "\<forall>r. a = Dispatch r \<longrightarrow> conn r = conn_addr E n" "\<forall>r \<in> set (dispatched as). conn r = conn_addr E n"
    using Cons.prems(3) unfolding dispatched_Cons by (cases a, auto)
  show ?case
    unfolding perform_all.simps
    by (rule preserves_sthen [OF perform_J [OF Cons.prems(1,2) d(1)] Cons.IH [OF Cons.prems(1,2) d(2)]])
qed

lemma finish_conn_J:
  assumes "J k s" "n < k" "allowed n" "conn_ok (conn_addr E n) (snd rc)"
  shows "J k (snd (finish_conn E n rc s))"
proof -
  have "server_inv E k (s\<lparr>conns := (conns s)[n := snd rc]\<rparr>)"
    using JD(2) [OF assms(1)] assms(2,4) by (auto simp: server_inv_def conn_ok_def nth_list_update)
  then have "J k (s\<lparr>conns := (conns s)[n := snd rc]\<rparr>)"
    using assms(1,3) update by (simp add: J_def)
  moreover have "preserves (J k) (sthen (perform_all E n (out (snd rc))) (slift (fst rc)))"
    using assms(2-4) by (intro preserves_intros perform_all_J) (auto simp: conn_ok_def)
  ultimately show ?thesis unfolding finish_conn_def by (rule preservesD [rotated])
qed

lemma on_register_J: assumes heart shows "preserves (J k) (on_register E m)"
proof (rule preservesI)
  fix s assume s: "J k s"
  obtain r g where m: "m (reg s) = (r, g)" by fastforce
  have "J k (s\<lparr>reg := g\<rparr>)" using s register [OF JD(1) [OF s] assms] by (simp add: J_def server_inv_def)
  moreover have "preserves (J k) (sthen (times (timers g - timers (reg s))
                 (prepare (register_addr E) (word_of_int ETCD_EVENT_TIMEOUT) Timer_op)) (
        sthen (times (register.tasks g - register.tasks (reg s)) (asyncHandle Update_node)) (slift r)))"
    using assms by (intro preserves_intros prepare_J asyncHandle_J) simp_all
  ultimately show "J k (snd (on_register E m s))"
    unfolding on_register_def m prod.case by (rule preservesD [rotated])
qed

lemma virtual_J:
  assumes "virtual_do_io_uring E p r ev s = Some y" and "J k s" and "\<And>n. conn_at E p s = Some n \<Longrightarrow> allowed n"
    and "p = register_addr E \<Longrightarrow> heart"
  shows "J k (snd y)"
proof (cases "p = register_addr E")
  case True
  with assms(1) have "y = on_register E (register_do_io_uring r ev) s" by (simp add: virtual_do_io_uring_def)
  with preservesD [OF on_register_J [OF assms(4) [OF True]] assms(2)] show ?thesis by simp
next
  case False
  show ?thesis
  proof (cases "conn_at E p s")
    case None
    with False assms(1,2) show ?thesis by (auto simp: virtual_do_io_uring_def)
  next
    case (Some n)
    then have n: "n < k" using conn_at_Some [OF Some] JD(4) [OF assms(2)] by simp
    from Some False assms(1) obtain rc where
      rc: "do_io_uring (parse_header E) r ev ((conns s ! n)\<lparr>out := []\<rparr>) = Some rc" and y: "y = finish_conn E n rc s"
      by (auto simp: virtual_do_io_uring_def)
    from do_io_uring_conn_ok [OF rc server_conn_ok [OF JD(2) [OF assms(2)] n]] show ?thesis
      unfolding y by (rule finish_conn_J [OF assms(2) n assms(3) [OF Some]])
  qed
qed

lemma store_J:
  assumes "J k s" "\<And>n a. operation (of_submission q) = Conn_op n a \<Longrightarrow> allowed n"
  shows "J k (kernel_store q s)"
proof -
  have "I (kernel_store q s)"
    using assms update JD(1)
    by (cases "operation (of_submission q)") (auto simp: kernel_store_def Let_def split: action.split)
  with server_inv_store [OF JD(2) [OF assms(1)]] JD(3) [OF assms(1)] show ?thesis by (simp add: J_def)
qed

lemma handle_cqe_J:
  assumes "handle_cqe E q s = Some y" and j: "J k s" and q: "of_submission q \<in> set (inflight s)"
  shows "J k (snd y)"
proof -
  let ?i = "remove1 (of_submission q) (inflight s)"
  let ?s = "kernel_store q (s\<lparr>inflight := ?i\<rparr>)"
  have al: "allowed n" if "operation (of_submission q) = Conn_op n a" for n a
    using entries [OF JD(1) [OF j] _ that] q by blast
  have sub: "set ?i \<subseteq> set (inflight s)" by (rule set_remove1_subset)
  then have "I (s\<lparr>inflight := ?i, submitted := submitted s\<rparr>)" by (intro queues JD(1) [OF j]) auto
  then have "J k (s\<lparr>inflight := ?i\<rparr>)" using j sub by (auto simp: J_def server_inv_def)
  then have s: "J k ?s" using al by (rule store_J) 
  have len: "length (conns ?s) = k" by (rule JD(4) [OF s])
  have ok: "submission_ok E k (of_submission q)" using JD(2) [OF j] q by (simp add: server_inv_def)
  have c: "callee (user_data (of_submission q)) (res q) =
      Inr (owner E (operation (of_submission q)), res q, uint (event_kind (operation (of_submission q))))"
    using callee_of [OF submission_owner [OF ok JD(3) [OF j]]] ok by (simp add: submission_ok_def)
  then have "virtual_do_io_uring E (owner E (operation (of_submission q))) (res q)
      (uint (event_kind (operation (of_submission q)))) ?s = Some y"
    using assms(1) by (simp add: handle_cqe_def)
  then show ?thesis
  proof (rule virtual_J [OF _ s])
    assume "owner E (operation (of_submission q)) = register_addr E"
    with ok JD(3) [OF j] have "operation (of_submission q) = Timer_op"
      by (cases "operation (of_submission q)") (auto simp: submission_ok_def addresses_ok_def)
    with timer_entries [OF JD(1) [OF j]] q show heart by blast
  next
    fix n assume n: "conn_at E (owner E (operation (of_submission q))) ?s = Some n"
    show "allowed n"
    proof (cases "operation (of_submission q)")
      case (Conn_op m a)
      then have "m < k" using ok by (simp add: submission_ok_def)
      with conn_at_addr [of E ?s m] JD(3) [OF j] len n Conn_op have "n = m" by simp
      with al [OF Conn_op] show ?thesis by simp
    next
      case Timer_op
      with conn_at_Some [OF n] len JD(3) [OF j] show ?thesis by (auto simp: addresses_ok_def)
    qed
  qed
qed

lemma accept_all_J:
  "J k s \<Longrightarrow> \<forall>n \<in> set ns. n < k \<and> allowed n \<Longrightarrow> J k (snd (accept_all E ns s))"
proof (induction ns arbitrary: s)
  case (Cons n ns)
  have n: "n < k" "allowed n" using Cons.prems(2) by simp_all
  obtain r s1 where a: "on_conn E n Connection.accept s = (r, s1)" by fastforce
  have "conn_ok (conn_addr E n) (snd (Connection.accept ((conns s ! n)\<lparr>out := []\<rparr>)))"
    by (rule preservesD [OF keeps_conn_accept server_conn_ok [OF JD(2) [OF Cons.prems(1)] n(1)]])
  from finish_conn_J [OF Cons.prems(1) n this] a have "J k s1" by (simp add: on_conn_def)
  with Cons a show ?case by (cases r) auto
qed simp

lemma begin_turn_J:
  assumes j: "J k s" and t: "begin_turn E s = (r, s')" and a: "addresses_ok E (length (conns s'))"
  shows "J (length (conns s')) s'"
proof -
  let ?m0 = "(conn_manager (server_prov s))\<lparr>accepts := []\<rparr>" and ?c = "int (sq_entries s div 4)"
  define m where "m = acceptForCount ?c ?m0"
  let ?k = "next_connection m" and ?q = "idle_pool ?m0 @ [k..<k + to_allocate ?c ?m0]"
  let ?p = "s\<lparr>server_prov := (server_prov s)\<lparr>conn_manager := m\<rparr>\<rparr>"
  let ?s = "s\<lparr>server_prov := (server_prov s)\<lparr>conn_manager := m\<rparr>,
              conns := conns s @ map (new_conn E) [length (conns s)..<?k]\<rparr>"
  have i: "I s" and inv: "server_inv E k s" by (rule JD(1,2) [OF j])+
  have k: "next_connection ?m0 = k" "length (conns s) = k" "set (idle_pool ?m0) \<subseteq> {..<k}"
    using inv by (auto simp: server_inv_def)
  have m: "?k = k + to_allocate ?c ?m0" "idle_pool m = drop (nat (missing ?c ?m0)) ?q"
    "accepts m = take (nat (missing ?c ?m0)) ?q"
    using k(1) by (simp_all add: m_def acceptForCount_eq Let_def)
  have "\<forall>n \<in> set ?q. n < ?k \<and> allowed n" using k(2,3) m(1) idle [OF i] fresh [OF i] by auto
  then have qi: "\<forall>n \<in> set (idle_pool m). n < ?k \<and> allowed n" and qa: "\<forall>n \<in> set (accepts m). n < ?k \<and> allowed n"
    unfolding m(2,3) by (metis in_set_dropD, metis in_set_takeD)
  have "server_inv E ?k ?s" using m(1) qi by (intro server_inv_more [OF inv]) auto
  moreover have "I ?s" using qi grow [OF manager [OF i]] by simp
  moreover obtain k' where k': "server_inv E k' s'" using begin_turn_inv [OF inv t] by blast
  moreover have fa: "fill_accepts E s = accept_all E (accepts m) ?s" by (simp add: fill_accepts_def Let_def m_def)
  moreover have "k' = ?k"
  proof -
    obtain r1 s1 where f: "fill_accepts E s = (r1, s1)" by fastforce
    have "set (accepts m) \<subseteq> {..<?k}" using qa by blast
    from accept_all_inv [OF \<open>server_inv E ?k ?s\<close> this] fa f have "server_inv E ?k s1" by (metis snd_conv)
    moreover have "length (conns s') = length (conns s1)"
      using t f by (cases r1) (auto simp: begin_turn_def sbind_def io_uring_submit_def)
    ultimately show ?thesis using k' by (simp add: server_inv_def)
  qed
  moreover have "length (conns s') = k'" using k' by (simp add: server_inv_def)
  ultimately have js: "J ?k ?s" and a': "addresses_ok E ?k" and l: "length (conns s') = ?k"
    using a by (simp_all add: J_def)
  obtain r1 s1 where f: "fill_accepts E s = (r1, s1)" by fastforce
  from accept_all_J [OF js qa] f fa have j1: "J ?k s1" by simp
  then have "J ?k (io_uring_submit s1)"
    using queues [OF JD(1) [OF j1], of "inflight s1 @ submitted s1" "[]"]
    by (auto simp: J_def io_uring_submit_def server_inv_def)
  with j1 t f l show ?thesis by (cases r1) (auto simp: begin_turn_def sbind_def)
qed

lemma handle_cqes_J:
  "handle_cqes E qs s = Some y \<Longrightarrow> J k s \<Longrightarrow> mset (map of_submission qs) \<subseteq># mset (inflight s) \<Longrightarrow> J k (snd y)"
proof (induction qs arbitrary: s)
  case (Cons q qs)
  from Cons.prems(1) obtain r s1 where q: "handle_cqe E q s = Some (r, s1)"
    by (auto split: option.splits)
  have mem: "of_submission q \<in> set (inflight s)"
    using Cons.prems(3) by (metis list.set_intros(1) list.simps(9) mset_subset_eqD set_mset_mset)
  have j: "J k s1" using handle_cqe_J [OF q Cons.prems(2) mem] by simp
  have "inflight s1 = remove1 (of_submission q) (inflight s)" using inflight_handle_cqe [OF q] by simp
  then have "mset (map of_submission qs) \<subseteq># mset (inflight s1)"
    using Cons.prems(3) by (simp add: insert_subset_eq_iff)
  with j Cons q show ?case by (cases r) auto
qed auto

lemma taken_task:
  assumes "workers (take_turn w p) w = Running t" and "\<not> is_Running (workers p w)"
  shows "Some t \<in> set (thread_pool.tasks p)"
  using assms
  by (cases "thread_pool.tasks p")
    (auto simp: take_turn_def move_task_def call_task_def of_optionE_def split: if_splits sum.splits option.splits)

lemma run_task_J:
  assumes j: "J k s" and al: "\<And>r n. t = Handle_request r \<Longrightarrow> conn_at E (conn r) s = Some n \<Longrightarrow> allowed n"
    and up: "t = Update_node \<Longrightarrow> heart"
  shows "J k (snd (run_task E t s))"
proof (cases t)
  case (Handle_request r)
  show ?thesis
  proof (cases "conn_at E (conn r) s")
    case None
    with Handle_request j show ?thesis by (simp add: run_task_def)
  next
    case (Some n)
    let ?m = "\<lambda>c. case handle_request (server_prov s) r (Some c) of (x, Some c') \<Rightarrow> (x, c') | (x, None) \<Rightarrow> (x, c)"
    have n: "n < k" using conn_at_Some [OF Some] JD(4) [OF j] by simp
    have "conn_ok (conn_addr E n) (snd (?m ((conns s ! n)\<lparr>out := []\<rparr>)))"
      using preservesD [OF keeps_handle_request server_conn_ok [OF JD(2) [OF j] n]] .
    from finish_conn_J [OF j n al [OF Handle_request Some] this] Some Handle_request show ?thesis
      by (simp add: run_task_def on_conn_def)
  qed
next
  case Update_node
  obtain i p where g: "getNodeInfo (serialize_node E) (server_prov s) = (i, p)" by fastforce
  then obtain ni where p: "p = (server_prov s)\<lparr>node_info := ni\<rparr>" by (auto simp: getNodeInfo_def Let_def)
  have "J k (s\<lparr>server_prov := p\<rparr>)" using info j by (simp add: J_def server_inv_def p)
  then have "J k (if stoping (reg s) then s else s\<lparr>server_prov := p\<rparr>)" using j by simp
  from preservesD [OF on_register_J [OF up [OF Update_node]] this, of "updateNodeInfo (local_ip E) i"] g Update_node
  show ?thesis by (simp add: run_task_def del: if_split)
qed

lemma work_J:
  assumes j: "J k s" and nr: "\<not> is_Running (workers (pond s) w)"
  shows "J k (snd (work E w s))"
proof -
  let ?p = "take_turn w (pond s)"
  let ?s1 = "s\<lparr>pond := ?p\<rparr>"
  have sub: "set (thread_pool.tasks ?p) \<subseteq> set (thread_pool.tasks (pond s))"
    by (auto simp: take_turn_def split: sum.split dest: list.set_sel(2) [rotated])
  have "server_inv E k ?s1" using JD(2) [OF j] sub unfolding server_inv_def by auto
  with turn_taken [OF JD(1) [OF j] sub] j have s1: "J k ?s1" by (simp add: J_def)
  show ?thesis
  proof (cases "workers ?p w")
    case (Running t)
    have "allowed n" if t: "t = Handle_request r" "conn_at E (conn r) ?s1 = Some n" for r n
    proof (rule waiting_requests [OF JD(1) [OF j]])
      show "Some (Handle_request r) \<in> set (thread_pool.tasks (pond s))"
        using taken_task [OF Running nr] t(1) by simp
    qed (use conn_at_Some [OF t(2)] in auto)
    moreover have "heart" if "t = Update_node"
      using waiting_update [OF JD(1) [OF j]] taken_task [OF Running nr] that by simp
    ultimately have "J k (snd (run_task E t ?s1))" by (rule run_task_J [OF s1])
    moreover have "J k (s2\<lparr>pond := (pond s2)\<lparr>workers := x, lock := None, finished := y\<rparr>\<rparr>)" if "J k s2" for s2 x y
      using that turn_taken [OF JD(1) [OF that]] by (simp add: J_def server_inv_def)
    ultimately show ?thesis
      using Running by (cases "run_task E t ?s1") (auto simp: work_def Let_def sbind_def split: sum.split)
  qed (use s1 in \<open>simp_all add: work_def Let_def\<close>)
qed

text \<open>Every step of the server but SIGINT keeps \<open>I\<close>.\<close>

lemma step_keeps:
  assumes "server_step E s s'" and "server_reachable E s" and "I s"
  shows "I s' \<or> s' = s\<lparr>server_prov := sigint_handler 2 (server_prov s)\<rparr>"
  using assms(1)
proof cases
  case (Turn s1 qs)
  have "J (length (conns s)) s" using server_reachable_inv [OF assms(2)] assms(3) by (simp add: J_def)
  from begin_turn_J [OF this Turn(2,3)] have "J (length (conns s1)) s1" .
  from handle_cqes_J [OF Turn(5) this Turn(4)] show ?thesis by (simp add: J_def)
next
  case (Work w)
  have "J (length (conns s)) s" using server_reachable_inv [OF assms(2)] assms(3) by (simp add: J_def)
  moreover have "\<not> is_Running (workers (pond s) w)" using Work(1) by auto
  ultimately show ?thesis using work_J [of "length (conns s)" s w] Work(3) by (simp add: J_def)
qed simp

end

section \<open>A connection that nothing refers to\<close>

definition entry_of :: "nat \<Rightarrow> submission \<Rightarrow> bool" where
  "entry_of n e \<longleftrightarrow> (case operation e of Conn_op m a \<Rightarrow> m = n | Timer_op \<Rightarrow> False)"

text \<open>Connection \<open>n\<close>, in the state \<open>c\<close>, is not idle, has no operation under way and no request waiting.\<close>

definition stranded :: "env \<Rightarrow> nat \<Rightarrow> tcp \<Rightarrow> 'm server \<Rightarrow> bool" where
  "stranded E n c s \<longleftrightarrow> n < length (conns s) \<and> conns s ! n = c \<and>
     n \<notin> set (idle_pool (conn_manager (server_prov s))) \<and>
     (\<forall>e \<in> set (inflight s) \<union> set (submitted s). \<not> entry_of n e) \<and>
     (\<forall>r. Some (Handle_request r) \<in> set (thread_pool.tasks (pond s)) \<longrightarrow> conn r \<noteq> conn_addr E n)"

lemma address_inj: "addresses_ok E k \<Longrightarrow> m < k \<Longrightarrow> n < k \<Longrightarrow> conn_addr E m = conn_addr E n \<Longrightarrow> m = n"
  unfolding addresses_ok_def by (auto dest: inj_onD)

lemma tasks_execute: "set (thread_pool.tasks (execute t p)) \<subseteq> insert (Some t) (set (thread_pool.tasks p))"
  by (auto simp: execute_def HipeTask_def)

interpretation lost: server_part E "stranded E n c" "\<lambda>m. m \<noteq> n" True for E n c
proof unfold_locales
  fix s :: "'a server" and t
  assume s: "stranded E n c s" and a: "addresses_ok E (length (conns s))"
    and t: "\<And>r. t = Handle_request r \<Longrightarrow> \<exists>m<length (conns s). m \<noteq> n \<and> conn r = conn_addr E m"
  have "conn r \<noteq> conn_addr E n" if "t = Handle_request r" for r
    using t [OF that] address_inj [OF a] s by (auto simp: stranded_def)
  with s tasks_execute [of t "pond s"] show "stranded E n c (s\<lparr>pond := execute t (pond s)\<rparr>)"
    by (fastforce simp: stranded_def)
qed (auto simp: stranded_def entry_of_def nth_append split: operation.splits)

interpretation status: server_part E "\<lambda>s. prov_status (server_prov s) = st" "\<lambda>_. True" True for E st
  by unfold_locales auto

lemma stranded_for_ever:
  assumes "(server_step E)\<^sup>*\<^sup>* s s'" and "server_reachable E s" and "stranded E n c s"
  shows "stranded E n c s' \<and> server_reachable E s'"
  using assms(1)
proof (induction rule: rtranclp_induct)
  case (step y z)
  have "stranded E n c (y\<lparr>server_prov := sigint_handler 2 (server_prov y)\<rparr>)"
    using step.IH by (simp add: stranded_def sigint_handler_def)
  with lost.step_keeps [OF step(2)] step server_reachable.Step show ?case by blast
qed (use assms in simp)

text \<open>C7: a connection whose accept or read fails is lost. When the kernel reports the failure and nothing else
  of the connection is under way, its handler neither tries again nor closes the socket, and in every run from
  there on no completion, no worker and no accept reaches the connection again, nor is it returned to the idle
  ones: the manager's counts are as if it were still in use, so it takes one place of the limit for ever.\<close>

theorem failed_operation_strands_connection:
  assumes "server_reachable E s0" "prov_status (server_prov s0) = PROVIDER_LOOPING" "begin_turn E s0 = (Inr (), s1)"
    and "addresses_ok E (length (conns s1))" "n < length (conns s1)"
    and "filter (entry_of n) (inflight s1 @ submitted s1) = [of_submission q]" "of_submission q \<in> set (inflight s1)"
    and "of_submission q = conn_entry E n a" "a = Sqe_Accept \<or> a = Sqe_Read iov" "received_data q = []" "res q < 0"
    and "n \<notin> set (idle_pool (conn_manager (server_prov s1)))"
    and "Some ` Handle_request ` {r. conn r = conn_addr E n} \<inter> set (thread_pool.tasks (pond s1)) = {}"
  shows "\<exists>s2 c. handle_cqes E [q] s1 = Some (Inr (), s2) \<and> server_reachable E s2 \<and>
     conn_manager (server_prov s2) = conn_manager (server_prov s1) \<and>
     (\<forall>s'. (server_step E)\<^sup>*\<^sup>* s2 s' \<longrightarrow> stranded E n c s')"
proof -
  let ?c = "(conns s1 ! n)\<lparr>out := []\<rparr>" and ?e = "of_submission q"
  let ?s2 = "s1\<lparr>inflight := remove1 ?e (inflight s1), conns := (conns s1)[n := ?c]\<rparr>"
  have "do_io_uring (parse_header E) (res q) (uint (event_kind (Conn_op n a))) ?c = Some (Inr (), ?c)"
    using assms(9,11) by (auto simp: do_io_uring_def callback_read_def callback_accepted_def user_event_defs)
  with handle_cqe_conn [OF assms(4,5,8)] assms(10) have h: "handle_cqe E q s1 = Some (Inr (), ?s2)"
    by (simp add: Let_def finish_conn_def sbind_def)
  then have hs: "handle_cqes E [q] s1 = Some (Inr (), ?s2)" by simp
  have r: "server_reachable E ?s2"
    by (rule turn_reachable [OF assms(1-4) _ hs]) (use assms(7) in simp)
  have f: "filter (entry_of n) (remove1 ?e (inflight s1)) @ filter (entry_of n) (submitted s1) = []"
  proof -
    have "?e \<in> set (filter (entry_of n) (inflight s1))" using assms(7,8) by (simp add: entry_of_def conn_entry_def)
    with assms(6) have "filter (entry_of n) (inflight s1) = [?e]" "filter (entry_of n) (submitted s1) = []"
      by (cases "filter (entry_of n) (inflight s1)"; auto)+
    then show ?thesis by (simp add: filter_remove1)
  qed
  then have "\<forall>e \<in> set (inflight ?s2) \<union> set (submitted ?s2). \<not> entry_of n e" by (auto simp: filter_empty_conv)
  with assms(5,12,13) have "stranded E n ?c ?s2" by (auto simp: stranded_def)
  then have "\<forall>s'. (server_step E)\<^sup>*\<^sup>* ?s2 s' \<longrightarrow> stranded E n ?c s'" using stranded_for_ever r by blast
  with hs r show ?thesis by (intro exI [of _ ?s2] exI [of _ ?c]) simp
qed

theorem failed_operation_strands_connection_witness:
  "\<exists>(s :: unit server) c. server_reachable demo_env s \<and> outer_count (conn_manager (server_prov s)) = 1 \<and>
     (\<forall>s'. (server_step demo_env)\<^sup>*\<^sup>* s s' \<longrightarrow> stranded demo_env 0 c s')"
proof -
  obtain s0 :: "unit server" and p :: "unit provider" and c0 where r: "server_reachable demo_env s0"
    and s0: "prov_status (server_prov s0) = PROVIDER_LOOPING" "sq_entries s0 = 4" "length (conns s0) = 4"
      "submitted s0 = [conn_entry demo_env 0 (Sqe_Read (writev_segments (Buffer MAX_BUFFER_SIZE)))]" "inflight s0 = [demo_timer]"
      "conn_manager (server_prov s0) = demo_manager 1 0 [1, 2, 3] [0]" "pond s0 = DynamicThreadPool 2"
    using demo_accepted by blast
  let ?a = "Sqe_Read (writev_segments (Buffer MAX_BUFFER_SIZE))"
  obtain ds where t: "begin_turn demo_env s0 = (Inr (), s0\<lparr>server_prov := (server_prov s0)\<lparr>conn_manager := demo_manager 1 1 [2, 3] [1]\<rparr>,
      conns := ds, inflight := [demo_timer, conn_entry demo_env 0 ?a, conn_entry demo_env 1 Sqe_Accept], submitted := []\<rparr>)"
      (is "_ = (_, ?t)") and ds: "length ds = 4"
    using demo_turn [of s0 "demo_manager 1 1 [2, 3] [1]"] s0
    by (auto simp: demo_accept_done demo_manager_steps simp del: One_nat_def)
  have m: "conn_manager (server_prov ?t) = demo_manager 1 1 [2, 3] [1]" by simp
  have "\<exists>s2 c. handle_cqes demo_env [cqe_of ?a (-104) []] ?t = Some (Inr (), s2) \<and> server_reachable demo_env s2 \<and>
     conn_manager (server_prov s2) = conn_manager (server_prov ?t) \<and>
     (\<forall>s'. (server_step demo_env)\<^sup>*\<^sup>* s2 s' \<longrightarrow> stranded demo_env 0 c s')"
    by (rule failed_operation_strands_connection [OF r s0(1) t, where a = ?a and iov = "writev_segments (Buffer MAX_BUFFER_SIZE)"])
      (use demo_addresses ds s0(7) in \<open>simp_all add: cqe_of_def entry_of_def conn_entry_def demo_timer_def demo_manager_def DynamicThreadPool_def\<close>)
  then obtain s2 :: "unit server" and c where "server_reachable demo_env s2" "conn_manager (server_prov s2) = demo_manager 1 1 [2, 3] [1]"
      "\<forall>s'. (server_step demo_env)\<^sup>*\<^sup>* s2 s' \<longrightarrow> stranded demo_env 0 c s'"
    unfolding m by blast
  then show ?thesis by (intro exI [of _ s2] exI [of _ c]) (simp add: demo_manager_def)
qed

end
