(* ===== verification/Server_Ends.thy ===== *)
theory Server_Ends
  imports Server_Frame
begin

text \<open>
  How the server's service ends: the loop at SIGINT, and the heartbeat of the register when the thread pool
  refuses its task.
\<close>

section \<open>The end of the loop\<close>

text \<open>Turns of the loop, one batch of completions each.\<close>

inductive turns :: "env \<Rightarrow> cqe list list \<Rightarrow> 'm server \<Rightarrow> 'm server \<Rightarrow> bool" for E where
  No_turn: "turns E [] s s"
| A_turn: "begin_turn E s = (Inr (), s1) \<Longrightarrow> addresses_ok E (length (conns s1)) \<Longrightarrow>
    mset (map of_submission qs) \<subseteq># mset (inflight s1) \<Longrightarrow> handle_cqes E qs s1 = Some (Inr (), s2) \<Longrightarrow>
    turns E qss s2 s' \<Longrightarrow> turns E (qs # qss) s s'"

lemma while_looping_turns:
  assumes "turns E qss s s'" and "server_reachable E s" and "prov_status (server_prov s) = PROVIDER_LOOPING"
  shows "while_looping E (map (Pair False) qss @ rest) s = while_looping E rest s' \<and>
     server_reachable E s' \<and> prov_status (server_prov s') = PROVIDER_LOOPING"
  using assms
proof induction
  case (A_turn s s1 qs s2 qss s')
  note reach = A_turn.prems(1) and looping = A_turn.prems(2)
  have st: "server_step E s s2" by (rule server_step.Turn [OF looping A_turn.hyps(1-4)])
  have "status.J E PROVIDER_LOOPING (length (conns s)) s"
    using server_reachable_inv [OF reach] looping by (simp add: status.J_def)
  from status.handle_cqes_J [OF A_turn.hyps(4) status.begin_turn_J [OF this A_turn.hyps(1,2)] A_turn.hyps(3)]
  have "prov_status (server_prov s2) = PROVIDER_LOOPING" by (simp add: status.J_def)
  from A_turn.IH [OF server_reachable.Step [OF reach st] this] A_turn.hyps(1,4) looping
  show ?case by (simp add: loop_turn_def)
qed simp



section \<open>The heartbeat and a full pool\<close>

text \<open>Nothing is under way for the register, whose state is \<open>g\<close>.\<close>

definition silent :: "register \<Rightarrow> 'm server \<Rightarrow> bool" where
  "silent g s \<longleftrightarrow> reg s = g \<and> (\<forall>e \<in> set (inflight s) \<union> set (submitted s). operation e \<noteq> Timer_op) \<and>
     Some Update_node \<notin> set (thread_pool.tasks (pond s))"

interpretation silence: server_part E "silent g" "\<lambda>_. True" False for E g
proof unfold_locales
  fix s :: "'a server" and t
  assume "silent g s" and "t = Update_node \<Longrightarrow> False"
  with tasks_execute [of t "pond s"] show "silent g (s\<lparr>pond := execute t (pond s)\<rparr>)"
    by (auto simp: silent_def)
qed (auto simp: silent_def)

lemma silent_for_ever:
  assumes "(server_step E)\<^sup>*\<^sup>* s s'" and "server_reachable E s" and "silent g s"
  shows "silent g s' \<and> server_reachable E s'"
  using assms(1)
proof (induction rule: rtranclp_induct)
  case (step y z)
  have "silent g (y\<lparr>server_prov := sigint_handler 2 (server_prov y)\<rparr>)"
    using step.IH by (simp add: silent_def)
  with silence.step_keeps [OF step(2)] step server_reachable.Step show ?case by blast
qed (use assms in simp)

text \<open>C8: a full thread pool ends the heartbeat. When the timer of the register completes while the pool has as
  many tasks waiting as it may, the task that should renew the lease and set the next timer is dropped, and
  in every run from there on the register does nothing any more: no timer, no task, no request to etcd, so
  that the lease expires and the services vanish from etcd while the server goes on serving.\<close>

theorem full_pool_ends_heartbeat:
  assumes "server_reachable E s0" "prov_status (server_prov s0) = PROVIDER_LOOPING" "begin_turn E s0 = (Inr (), s1)"
    and "addresses_ok E (length (conns s1))"
    and "filter (\<lambda>e. operation e = Timer_op) (inflight s1 @ submitted s1) = [of_submission q]"
    and "of_submission q \<in> set (inflight s1)" "res q = 0 \<or> res q = - ETIME"
    and "max_task_num (pond s1) \<le> length (thread_pool.tasks (pond s1))"
    and "Some Update_node \<notin> set (thread_pool.tasks (pond s1))"
  shows "\<exists>s2. handle_cqes E [q] s1 = Some (Inr (), s2) \<and> server_reachable E s2 \<and>
     stoping (reg s2) = stoping (reg s1) \<and> (\<forall>s'. (server_step E)\<^sup>*\<^sup>* s2 s' \<longrightarrow> silent (reg s2) s')"
proof -
  let ?e = "of_submission q"
  let ?g = "(reg s1)\<lparr>timers := timers (reg s1) - 1, register.tasks := register.tasks (reg s1) + 1\<rparr>"
  let ?s1 = "s1\<lparr>inflight := remove1 ?e (inflight s1)\<rparr>"
  let ?s2 = "s1\<lparr>reg := ?g, inflight := remove1 ?e (inflight s1)\<rparr>"
  have op: "operation ?e = Timer_op"
    using arg_cong [OF assms(5), of set] by auto
  obtain k where inv: "server_inv E k s1"
    using begin_turn_inv [OF conjunct1 [OF server_reachable_inv [OF assms(1)]] assms(3)] by blast
  then have ok: "submission_ok E (length (conns s1)) ?e" using assms(6) by (auto simp: server_inv_def)
  then have "callee (user_data ?e) (res q) = Inr (register_addr E, res q, uint (event_kind Timer_op))"
    using callee_of [OF submission_owner [OF ok assms(4)]] op by (simp add: submission_ok_def)
  moreover have "kernel_store q ?s1 = ?s1" by (simp add: kernel_store_def op)
  moreover have "execute Update_node (pond s1) = pond s1" using assms(8) by (simp add: execute_def)
  ultimately have h: "handle_cqe E q s1 = Some (Inr (), ?s2)"
    using assms(7)
    by (auto simp: handle_cqe_def virtual_do_io_uring_def on_register_def register_do_io_uring_def
        callback_timeout_def Let_def sbind_def slift_def asyncHandle_def smodify_def ETCD_EVENT_TIMEOUT_def)
  then have hs: "handle_cqes E [q] s1 = Some (Inr (), ?s2)" by simp
  have r: "server_reachable E ?s2"
    by (rule turn_reachable [OF assms(1-4) _ hs]) (use assms(6) in simp)
  let ?t = "\<lambda>e. operation e = Timer_op"
  have "?e \<in> set (filter ?t (inflight s1))" using assms(6) op by simp
  with assms(5) have "filter ?t (inflight s1) = [?e]" "filter ?t (submitted s1) = []"
    by (cases "filter ?t (inflight s1)"; auto)+
  then have "filter ?t (remove1 ?e (inflight s1)) @ filter ?t (submitted s1) = []" by (simp add: filter_remove1)
  with assms(9) have "silent ?g ?s2" by (auto simp: silent_def filter_empty_conv)
  then have "\<forall>s'. (server_step E)\<^sup>*\<^sup>* ?s2 s' \<longrightarrow> silent ?g s'" using silent_for_ever r by blast
  with hs r show ?thesis by (intro exI [of _ ?s2]) simp
qed

text \<open>
  The demonstration server after \<open>k\<close> requests of one client that no worker has taken, in the middle of a
  turn: the connection waits for its next read, and the timer of the register is under way.
\<close>

definition flooded :: "nat \<Rightarrow> unit server \<Rightarrow> bool" where
  "flooded k s \<longleftrightarrow> prov_status (server_prov s) = PROVIDER_LOOPING \<and> sq_entries s = 4 \<and> length (conns s) = 4 \<and>
     conn_manager (server_prov s) = demo_manager 1 1 [2, 3] [] \<and>
     self (conns s ! 0) = conn_addr demo_env 0 \<and> awaiting_header (conns s ! 0) \<and>
     buffer_wf (read_buffer (conns s ! 0)) \<and> iov_valid (read_buffer (conns s ! 0)) \<and> content (read_buffer (conns s ! 0)) = [] \<and>
     conn_entry demo_env 0 (Sqe_Read (writev_segments (read_buffer (conns s ! 0)))) \<in> set (submitted s) \<union> set (inflight s) \<and>
     filter (\<lambda>e. operation e = Timer_op) (inflight s @ submitted s) = [demo_timer] \<and> demo_timer \<in> set (inflight s) \<and>
     length (thread_pool.tasks (pond s)) = k \<and> Some Update_node \<notin> set (thread_pool.tasks (pond s)) \<and>
     max_task_num (pond s) = 1000 \<and> \<not> waiting (pond s) \<and> \<not> stoping (reg s)"

lemma flooded_turn:
  assumes "flooded k s"
  shows "\<exists>cs. begin_turn demo_env s = (Inr (), s\<lparr>server_prov := (server_prov s)\<lparr>conn_manager := demo_manager 1 1 [2, 3] []\<rparr>,
       conns := cs, inflight := inflight s @ submitted s, submitted := []\<rparr>) \<and> length cs = 4 \<and> same_conn (conns s ! 0) (cs ! 0)"
  using demo_turn [of s "demo_manager 1 1 [2, 3] []"] assms
  by (simp add: flooded_def demo_accept_done demo_manager_steps del: One_nat_def)

lemma room_for_message: "buffer_wf b \<Longrightarrow> content b = [] \<Longrightarrow> length demo_message \<le> writableBytes b"
  by (simp add: writableBytes_def length_demo_message MAX_BUFFER_SIZE_def flip: length_content)

lemma flooded_more:
  assumes "server_reachable demo_env s" and "flooded k s" and "k < 1000"
  shows "\<exists>s'. server_reachable demo_env s' \<and> flooded (Suc k) s'"
proof -
  note f = assms(2) [unfolded flooded_def]
  obtain cs where t: "begin_turn demo_env s = (Inr (), s\<lparr>server_prov := (server_prov s)\<lparr>conn_manager := demo_manager 1 1 [2, 3] []\<rparr>,
       conns := cs, inflight := inflight s @ submitted s, submitted := []\<rparr>)" (is "_ = (_, ?t)")
    and cs: "length cs = 4" "same_conn (conns s ! 0) (cs ! 0)"
    using flooded_turn [OF assms(2)] by blast
  let ?c = "cs ! 0" and ?q = "cqe_of (Sqe_Read (writev_segments (read_buffer (cs ! 0)))) 32 demo_message"
  have c: "self ?c = conn_addr demo_env 0" "awaiting_header ?c" "buffer_wf (read_buffer ?c)" "iov_valid (read_buffer ?c)"
      "content (read_buffer ?c) = []" "read_buffer ?c = read_buffer (conns s ! 0)"
    unfolding same_conn_same [OF cs(2)] using f by simp_all
  have q: "received_data ?q = generateStringFromProtocal demo_serialize demo_request"
    "length (received_data ?q) \<le> writableBytes (read_buffer ?c)" "res ?q = int (length (received_data ?q))"
    "of_submission ?q = conn_entry demo_env 0 (Sqe_Read (writev_segments (read_buffer ?c)))"
    using room_for_message [OF c(3,5)]
    by (simp_all add: cqe_of_def length_demo_message) (simp add: demo_message_def)
  have sz: "sendable demo_serialize (parse_header demo_env) demo_request" using demo_sendable by (simp add: demo_env_def)
  let ?r = "demo_request\<lparr>conn := conn_addr demo_env 0\<rparr>"
  obtain rb where h: "handle_cqe demo_env ?q ?t = Some (Inr (), ?t\<lparr>inflight := remove1 (of_submission ?q) (inflight ?t),
       conns := (conns ?t)[0 := ?c\<lparr>ri := moved_from ?r, read_buffer := rb, out := [Dispatch ?r, Sqe_Read (writev_segments rb)]\<rparr>],
       pond := execute (Handle_request ?r) (pond ?t),
       submitted := submitted ?t @ [conn_entry demo_env 0 (Sqe_Read (writev_segments rb))]\<rparr>)" (is "_ = Some (_, ?u)")
    and rb: "buffer_wf rb" "iov_valid rb" "content rb = []"
    using handle_request_received [of demo_env ?t 0 ?c demo_serialize demo_request ?q, OF _ _ _ c(1-5) sz q(1,2,4,3)]
      demo_addresses cs(1) by auto
  have e: "of_submission ?q \<in> set (inflight ?t)" using f q(4) c(6) by auto
  have "server_reachable demo_env ?u"
    by (rule turn_reachable [OF assms(1) _ t, of "[?q]"]) (use f demo_addresses cs(1) h e in simp_all)
  moreover have "flooded (Suc k) ?u"
  proof -
    let ?i = "inflight s @ submitted s" and ?f = "filter (\<lambda>e. operation e = Timer_op)"
    have n: "operation (of_submission ?q) \<noteq> Timer_op" "demo_timer \<noteq> of_submission ?q"
      by (simp_all add: q(4) conn_entry_def demo_timer_def)
    then have "?f (remove1 (of_submission ?q) ?i) = ?f ?i" by (simp add: filter_remove1 remove1_idem)
    moreover have "demo_timer \<in> set (remove1 (of_submission ?q) ?i)" using f n(2) in_set_remove1 by fastforce
    moreover have "awaiting_header (?c\<lparr>ri := x, read_buffer := y, out := z\<rparr>)" for x y z
      using c(2) by (simp add: awaiting_header_def)
    ultimately show ?thesis
      using f assms(3) cs(1) rb c(1) unfolding flooded_def
      by (simp add: execute_def HipeTask_def conn_entry_def)
  qed
  ultimately show ?thesis by blast
qed

lemma flooded_reached:
  "k \<le> 1000 \<Longrightarrow> \<exists>s. server_reachable demo_env s \<and> flooded k s"
proof (induction k)
  case 0
  obtain s0 :: "unit server" and p :: "unit provider" and c0 where r: "server_reachable demo_env s0"
    and s0: "prov_status (server_prov s0) = PROVIDER_LOOPING" "sq_entries s0 = 4" "length (conns s0) = 4"
      "conns s0 ! 0 = accepted_conn 5 c0" "same_conn (new_conn demo_env 0) c0"
      "submitted s0 = [conn_entry demo_env 0 (Sqe_Read (writev_segments (Buffer MAX_BUFFER_SIZE)))]" "inflight s0 = [demo_timer]"
      "conn_manager (server_prov s0) = demo_manager 1 0 [1, 2, 3] [0]" "pond s0 = DynamicThreadPool 2" "\<not> stoping (reg s0)"
    using demo_accepted by blast
  let ?a = "Sqe_Read (writev_segments (Buffer MAX_BUFFER_SIZE))"
  obtain ds where t: "begin_turn demo_env s0 = (Inr (), s0\<lparr>server_prov := (server_prov s0)\<lparr>conn_manager := demo_manager 1 1 [2, 3] [1]\<rparr>,
      conns := ds, inflight := [demo_timer, conn_entry demo_env 0 ?a, conn_entry demo_env 1 Sqe_Accept], submitted := []\<rparr>)"
      (is "_ = (_, ?t)") and ds: "length ds = 4" "same_conn (accepted_conn 5 c0) (ds ! 0)"
    using demo_turn [of s0 "demo_manager 1 1 [2, 3] [1]"] s0
    by (auto simp: demo_accept_done demo_manager_steps simp del: One_nat_def)
  have r1: "server_reachable demo_env ?t"
    by (rule turn_reachable [OF r s0(1) t, of "[]"]) (use demo_addresses ds(1) in simp_all)
  obtain es where t1: "begin_turn demo_env ?t = (Inr (), s0\<lparr>server_prov := (server_prov s0)\<lparr>conn_manager := demo_manager 1 1 [2, 3] []\<rparr>,
      conns := es, inflight := [demo_timer, conn_entry demo_env 0 ?a, conn_entry demo_env 1 Sqe_Accept], submitted := []\<rparr>)" (is "_ = (_, ?u)") and es: "length es = 4" "same_conn (ds ! 0) (es ! 0)"
    using demo_turn [of ?t "demo_manager 1 1 [2, 3] []"] s0 ds(1)
    by (auto simp: demo_accept_done demo_manager_steps simp del: One_nat_def)
  have "server_reachable demo_env ?u"
    by (rule turn_reachable [OF r1 _ t1, of "[]"]) (use demo_addresses es(1) s0(1) in simp_all)
  moreover have c: "self (es ! 0) = conn_addr demo_env 0" "awaiting_header (es ! 0)" "read_buffer (es ! 0) = Buffer MAX_BUFFER_SIZE"
    unfolding same_conn_same [OF es(2)] same_conn_same [OF ds(2)]
    using same_conn_fields [OF s0(5)] by (simp_all add: accepted_conn_def awaiting_header_def)
  then have "flooded 0 ?u"
    using s0(1,2,9,10) es(1)
    by (simp add: flooded_def conn_entry_def demo_timer_def DynamicThreadPool_def)
  ultimately show ?case by blast
next
  case (Suc k)
  then obtain s where "server_reachable demo_env s" "flooded k s" by auto
  from flooded_more [OF this] Suc.prems show ?case by simp
qed

theorem full_pool_ends_heartbeat_witness:
  "\<exists>s :: unit server. server_reachable demo_env s \<and> \<not> stoping (reg s) \<and> (\<forall>s'. (server_step demo_env)\<^sup>*\<^sup>* s s' \<longrightarrow> silent (reg s) s')"
proof -
  obtain s where r: "server_reachable demo_env s" and "flooded 1000 s" using flooded_reached by blast
  note f = this(2) [unfolded flooded_def] and turn = flooded_turn [OF this(2)]
  let ?q = "\<lparr>of_submission = demo_timer, res = - ETIME, received_data = []\<rparr>"
  obtain cs where t: "begin_turn demo_env s = (Inr (), s\<lparr>server_prov := (server_prov s)\<lparr>conn_manager := demo_manager 1 1 [2, 3] []\<rparr>,
       conns := cs, inflight := inflight s @ submitted s, submitted := []\<rparr>)" (is "_ = (_, ?t)") and cs: "length cs = 4"
    using turn by blast
  have "\<exists>s2. handle_cqes demo_env [?q] ?t = Some (Inr (), s2) \<and> server_reachable demo_env s2 \<and>
     stoping (reg s2) = stoping (reg ?t) \<and> (\<forall>s'. (server_step demo_env)\<^sup>*\<^sup>* s2 s' \<longrightarrow> silent (reg s2) s')"
    by (rule full_pool_ends_heartbeat [OF r _ t]) (use f cs demo_addresses in simp_all)
  then obtain s2 where s2: "handle_cqes demo_env [?q] ?t = Some (Inr (), s2)" "server_reachable demo_env s2"
      "\<not> stoping (reg s2)" "\<forall>s'. (server_step demo_env)\<^sup>*\<^sup>* s2 s' \<longrightarrow> silent (reg s2) s'"
    using f by auto
  then show ?thesis by blast
qed

end
