(* ===== verification/Seeker_Thread.thy ===== *)
theory Seeker_Thread
  imports Prelude
begin

text \<open>
  The life of the class \<open>ServiceSeeker\<close> of src/Rpc/service_seeker.cc as seen by its threads: the
  constructor, \<open>thread_working\<close> and the destructor, one atomic action per step. What the seeker stores
  under its mutex is the theory Service_Seeker. \<open>etcd::Watcher\<close> is a library: \<open>Cancel\<close> makes \<open>Cancelled\<close>
  true, and \<open>Wait\<close> may return at any time. The two atomic flags have no initialiser, so their first
  values are arguments. That the thread also starts before the mutex is constructed is not modelled.
\<close>

section \<open>State\<close>

text \<open>
  Where \<open>thread_working\<close> stands. \<open>Wait_test\<close>, \<open>Going_to_sleep\<close> and \<open>Break_test\<close> hold the mutex;
  \<open>_watch_cv.wait\<close> tests its predicate, gives the mutex back and sleeps in one action, and takes it again
  when it is woken.
\<close>

datatype working_pc =
  Loop_test | Lock_mtx | Wait_test | Going_to_sleep | Sleeping | Woken | Break_test | Watcher_wait | Left | Crashed

datatype destructor_pc = Alive | Store_flag | Notify_all | Cancel_watcher | Join_thread | Destroyed

datatype mtx_owner = Working_thread | Some_caller

record watch_thread =
  watching :: bool
  destorying :: bool
  watch_mtx :: "mtx_owner option"
  has_watcher :: bool
  cancelled :: bool
  working :: working_pc
  destructor :: destructor_pc

section \<open>Steps\<close>

text \<open>The initialiser list starts the thread; the body of the constructor sets the watcher.\<close>

definition start_seeker :: "bool \<Rightarrow> bool \<Rightarrow> watch_thread" where
  "start_seeker w d = \<lparr>watching = w, destorying = d, watch_mtx = None, has_watcher = False, cancelled = False,
     working = Loop_test, destructor = Alive\<rparr>"

definition set_watcher :: "watch_thread \<Rightarrow> watch_thread" where
  "set_watcher s = s\<lparr>has_watcher := True\<rparr>"

inductive thread_working :: "watch_thread \<Rightarrow> watch_thread \<Rightarrow> bool" where
  Test: "working s = Loop_test \<Longrightarrow> thread_working s (s\<lparr>working := if destorying s then Left else Lock_mtx\<rparr>)"
| Lock: "working s = Lock_mtx \<Longrightarrow> watch_mtx s = None \<Longrightarrow>
    thread_working s (s\<lparr>working := Wait_test, watch_mtx := Some Working_thread\<rparr>)"
| Predicate: "working s = Wait_test \<Longrightarrow>
    thread_working s (s\<lparr>working := if watching s \<or> destorying s then Break_test else Going_to_sleep\<rparr>)"
| Sleep: "working s = Going_to_sleep \<Longrightarrow> thread_working s (s\<lparr>working := Sleeping, watch_mtx := None\<rparr>)"
| Relock: "working s = Woken \<Longrightarrow> watch_mtx s = None \<Longrightarrow>
    thread_working s (s\<lparr>working := Wait_test, watch_mtx := Some Working_thread\<rparr>)"
| Break: "working s = Break_test \<Longrightarrow>
    thread_working s (s\<lparr>working := if destorying s then Left else Watcher_wait, watch_mtx := None\<rparr>)"
| Wait: "working s = Watcher_wait \<Longrightarrow>
    thread_working s (s\<lparr>working := if has_watcher s then Loop_test else Crashed\<rparr>)"

text \<open>\<open>notify_all\<close> wakes the thread only when it sleeps.\<close>

inductive destruct :: "watch_thread \<Rightarrow> watch_thread \<Rightarrow> bool" where
  Begin: "destructor s = Alive \<Longrightarrow> has_watcher s \<Longrightarrow> destruct s (s\<lparr>destructor := Store_flag\<rparr>)"
| Store: "destructor s = Store_flag \<Longrightarrow> destruct s (s\<lparr>destorying := True, destructor := Notify_all\<rparr>)"
| Notify: "destructor s = Notify_all \<Longrightarrow>
    destruct s (s\<lparr>working := if working s = Sleeping then Woken else working s, destructor := Cancel_watcher\<rparr>)"
| Cancel: "destructor s = Cancel_watcher \<Longrightarrow> \<not> cancelled s \<Longrightarrow> destruct s (s\<lparr>cancelled := True\<rparr>)"
| Is_cancelled: "destructor s = Cancel_watcher \<Longrightarrow> cancelled s \<Longrightarrow> destruct s (s\<lparr>destructor := Join_thread\<rparr>)"
| Join: "destructor s = Join_thread \<Longrightarrow> working s = Left \<Longrightarrow> destruct s (s\<lparr>destructor := Destroyed\<rparr>)"

text \<open>The operations and the watcher's callback take the mutex; a sleeping thread may wake for no reason.\<close>

inductive others :: "watch_thread \<Rightarrow> watch_thread \<Rightarrow> bool" where
  Constructed: "others s (set_watcher s)"
| Take: "watch_mtx s = None \<Longrightarrow> others s (s\<lparr>watch_mtx := Some Some_caller\<rparr>)"
| Release: "watch_mtx s = Some Some_caller \<Longrightarrow> others s (s\<lparr>watch_mtx := None\<rparr>)"

inductive spurious :: "watch_thread \<Rightarrow> watch_thread \<Rightarrow> bool" where
  Wake: "working s = Sleeping \<Longrightarrow> spurious s (s\<lparr>working := Woken\<rparr>)"

definition seeker_moves :: "watch_thread \<Rightarrow> watch_thread \<Rightarrow> bool" where
  "seeker_moves s s' \<longleftrightarrow> thread_working s s' \<or> destruct s s' \<or> others s s'"

inductive seeker_runs :: "bool \<Rightarrow> bool \<Rightarrow> watch_thread \<Rightarrow> bool" for w d where
  Start: "seeker_runs w d (start_seeker w d)"
| Move: "seeker_runs w d s \<Longrightarrow> seeker_moves s s' \<or> spurious s s' \<Longrightarrow> seeker_runs w d s'"

inductive_cases thread_workingE: "thread_working s s'"
inductive_cases destructE: "destruct s s'"
inductive_cases othersE: "others s s'"
inductive_cases spuriousE: "spurious s s'"

section \<open>Invariant\<close>

definition holds_mutex :: "working_pc \<Rightarrow> bool" where
  "holds_mutex p \<longleftrightarrow> p = Wait_test \<or> p = Going_to_sleep \<or> p = Break_test"

definition seeker_inv :: "bool \<Rightarrow> bool \<Rightarrow> watch_thread \<Rightarrow> bool" where
  "seeker_inv w d s \<longleftrightarrow> watching s = w \<and>
     (watch_mtx s = Some Working_thread \<longleftrightarrow> holds_mutex (working s)) \<and>
     (destorying s \<longleftrightarrow> d \<or> destructor s \<notin> {Alive, Store_flag}) \<and>
     (destructor s \<noteq> Alive \<longrightarrow> has_watcher s) \<and>
     (working s = Watcher_wait \<or> working s = Crashed \<longrightarrow> w) \<and>
     (working s = Left \<longrightarrow> destorying s) \<and> (working s = Break_test \<longrightarrow> w \<or> destorying s) \<and>
     (destructor s = Join_thread \<or> destructor s = Destroyed \<longrightarrow> cancelled s) \<and>
     (destructor s = Destroyed \<longrightarrow> working s = Left)"

lemmas seeker_inv_simps = seeker_inv_def holds_mutex_def set_watcher_def

lemma seeker_inv_working: "thread_working s s' \<Longrightarrow> seeker_inv w d s \<Longrightarrow> seeker_inv w d s'"
  by (erule thread_working.cases; simp add: seeker_inv_simps; (elim conjE; (simp; fail | (clarify; blast)))?)

lemma seeker_inv_destruct: "destruct s s' \<Longrightarrow> seeker_inv w d s \<Longrightarrow> seeker_inv w d s'"
  by (elim destructE; simp add: seeker_inv_simps; force)

lemma seeker_inv_others: "others s s' \<or> spurious s s' \<Longrightarrow> seeker_inv w d s \<Longrightarrow> seeker_inv w d s'"
  by (elim disjE othersE spuriousE; simp add: seeker_inv_simps; force)

lemma seeker_inv_step: "seeker_moves s s' \<or> spurious s s' \<Longrightarrow> seeker_inv w d s \<Longrightarrow> seeker_inv w d s'"
  unfolding seeker_moves_def using seeker_inv_working seeker_inv_destruct seeker_inv_others by blast

lemma seeker_runs_inv: "seeker_runs w d s \<Longrightarrow> seeker_inv w d s"
proof (induction rule: seeker_runs.induct)
  case Start
  show ?case by (simp add: seeker_inv_def start_seeker_def holds_mutex_def)
next
  case (Move s s')
  then show ?case by (blast intro: seeker_inv_step)
qed

text \<open>The threads of a seeker. The mutex is held by the working thread exactly while it tests the flags,
  the destructor ends only after the thread has left its function, and a seeker whose flag \<open>_watching\<close>
  starts out false, which nothing ever sets, never waits for its watcher.\<close>

theorem seeker_thread_safety:
  assumes "seeker_runs w d s"
  shows "(watch_mtx s = Some Working_thread \<longleftrightarrow> holds_mutex (working s)) \<and>
     (destructor s = Destroyed \<longrightarrow> working s = Left \<and> cancelled s) \<and>
     (\<not> w \<longrightarrow> working s \<noteq> Watcher_wait \<and> working s \<noteq> Crashed)"
  using seeker_runs_inv [OF assms] by (auto simp: seeker_inv_def)

section \<open>The end of a seeker\<close>

text \<open>Steps still to go for the thread and for the destructor once the flag is set.\<close>

definition working_rank :: "working_pc \<Rightarrow> nat" where
  "working_rank p = (case p of Left \<Rightarrow> 0 | Crashed \<Rightarrow> 0 | Loop_test \<Rightarrow> 1 | Watcher_wait \<Rightarrow> 2 | Break_test \<Rightarrow> 3 | Wait_test \<Rightarrow> 4
     | Lock_mtx \<Rightarrow> 5 | Woken \<Rightarrow> 5 | Sleeping \<Rightarrow> 6 | Going_to_sleep \<Rightarrow> 7)"

definition destructor_rank :: "watch_thread \<Rightarrow> nat" where
  "destructor_rank s = (case destructor s of Destroyed \<Rightarrow> 0 | Join_thread \<Rightarrow> 1
     | Cancel_watcher \<Rightarrow> (if cancelled s then 2 else 3) | Notify_all \<Rightarrow> 4 | Store_flag \<Rightarrow> 5 | Alive \<Rightarrow> 6)"

text \<open>The thread will see the flag: it was woken, or has not tested the predicate yet.\<close>

definition will_leave :: "watch_thread \<Rightarrow> bool" where
  "will_leave s \<longleftrightarrow> destorying s \<and> working s \<notin> {Going_to_sleep, Sleeping, Crashed}"

lemma rank_working:
  "thread_working s s' \<Longrightarrow> will_leave s \<Longrightarrow> seeker_inv w d s \<Longrightarrow> destructor s \<noteq> Alive \<Longrightarrow>
   will_leave s' \<and> working_rank (working s') < working_rank (working s) \<and> destructor_rank s' = destructor_rank s"
  by (erule thread_working.cases;
      simp add: will_leave_def working_rank_def destructor_rank_def seeker_inv_def cong: destructor_pc.case_cong)

lemma rank_destruct:
  "destruct s s' \<Longrightarrow> will_leave s \<Longrightarrow> destructor s \<noteq> Alive \<Longrightarrow>
   will_leave s' \<and> working s' = working s \<and> destructor_rank s' < destructor_rank s"
  by (erule destruct.cases; simp add: will_leave_def destructor_rank_def)

lemma rank_others:
  "others s s' \<Longrightarrow> will_leave s \<Longrightarrow>
   will_leave s' \<and> working s' = working s \<and> destructor_rank s' = destructor_rank s"
  by (erule others.cases; simp add: will_leave_def destructor_rank_def set_watcher_def cong: destructor_pc.case_cong)

lemma next_step_exists:
  assumes "seeker_inv w d s" "will_leave s" "destructor s \<notin> {Alive, Destroyed}" "watch_mtx s \<noteq> Some Some_caller"
  shows "\<exists>t. thread_working s t \<or> destruct s t"
proof (cases "working s = Left")
  case True
  with assms(3) show ?thesis by (cases "destructor s"; cases "cancelled s") (auto intro: destruct.intros)
next
  case False
  have "watch_mtx s = None \<or> watch_mtx s = Some Working_thread"
    using assms(4) mtx_owner.exhaust by (cases "watch_mtx s") auto
  then have "watch_mtx s = None \<or> holds_mutex (working s)" using assms(1) by (auto simp: seeker_inv_def)
  with False assms(2) show ?thesis
    by (cases "working s") (auto simp: will_leave_def holds_mutex_def intro: thread_working.intros)
qed

text \<open>C24: a seeker is destroyed when its thread will see the flag. From then on every step of the thread and of
  the destructor brings the end nearer, whatever the callers do in between, and as long as the destructor
  has not returned and no caller holds the mutex there is such a step.\<close>

theorem seeker_destructor_returns:
  assumes "seeker_runs w d s" and "will_leave s" and "destructor s \<noteq> Alive"
  shows "(thread_working s s' \<or> destruct s s' \<longrightarrow>
            will_leave s' \<and> working_rank (working s') + destructor_rank s' < working_rank (working s) + destructor_rank s) \<and>
     (others s s' \<longrightarrow>
            will_leave s' \<and> working_rank (working s') + destructor_rank s' = working_rank (working s) + destructor_rank s) \<and>
     (destructor s = Destroyed \<or> watch_mtx s = Some Some_caller \<or> (\<exists>t. thread_working s t \<or> destruct s t))"
proof -
  note inv = seeker_runs_inv [OF assms(1)]
  show ?thesis
    using rank_working [OF _ assms(2) inv assms(3), of s'] rank_destruct [OF _ assms(2,3), of s']
      rank_others [OF _ assms(2), of s'] next_step_exists [OF inv assms(2)] assms(3)
    by fastforce
qed

text \<open>What happens when the notification comes between the test of the predicate and the sleep.\<close>

lemma run_working: "seeker_runs w d s \<Longrightarrow> thread_working s s' \<Longrightarrow> seeker_runs w d s'"
  and run_destruct: "seeker_runs w d s \<Longrightarrow> destruct s s' \<Longrightarrow> seeker_runs w d s'"
  and run_others: "seeker_runs w d s \<Longrightarrow> others s s' \<Longrightarrow> seeker_runs w d s'"
  by (auto intro: Move simp: seeker_moves_def)

lemma missed_notification:
  "seeker_runs False False
     \<lparr>watching = False, destorying = True, watch_mtx = None, has_watcher = True, cancelled = True,
      working = Sleeping, destructor = Join_thread\<rparr>"
proof -
  let ?s = "\<lambda>d m c p q. \<lparr>watching = False, destorying = d, watch_mtx = m, has_watcher = True, cancelled = c,
      working = p, destructor = q\<rparr>"
  have "seeker_runs False False (?s False None False Loop_test Alive)"
    using run_others [OF seeker_runs.Start Constructed] by (simp add: set_watcher_def start_seeker_def)
  from run_working [OF this Test] have "seeker_runs False False (?s False None False Lock_mtx Alive)" by simp
  from run_working [OF this Lock] have "seeker_runs False False (?s False (Some Working_thread) False Wait_test Alive)" by simp
  from run_working [OF this Predicate]
  have "seeker_runs False False (?s False (Some Working_thread) False Going_to_sleep Alive)" by simp
  from run_destruct [OF this Begin]
  have "seeker_runs False False (?s False (Some Working_thread) False Going_to_sleep Store_flag)" by simp
  from run_destruct [OF this Store]
  have "seeker_runs False False (?s True (Some Working_thread) False Going_to_sleep Notify_all)" by simp
  from run_destruct [OF this Notify]
  have "seeker_runs False False (?s True (Some Working_thread) False Going_to_sleep Cancel_watcher)" by simp
  from run_working [OF this Sleep] have "seeker_runs False False (?s True None False Sleeping Cancel_watcher)" by simp
  from run_destruct [OF this Cancel] have "seeker_runs False False (?s True None True Sleeping Cancel_watcher)" by simp
  from run_destruct [OF this Is_cancelled] show ?thesis by simp
qed

lemma asleep_for_ever:
  assumes "seeker_moves\<^sup>*\<^sup>* s s'" and "working s = Sleeping" and "destructor s = Join_thread"
  shows "working s' = Sleeping \<and> destructor s' = Join_thread"
  using assms(1)
proof (induction rule: rtranclp_induct)
  case (step y z)
  have "\<not> thread_working y z" "\<not> destruct y z" using step.IH by (auto elim: thread_workingE destructE)
  with step(2) have "others y z" by (simp add: seeker_moves_def)
  with step.IH show ?case by (auto simp: set_watcher_def elim: othersE)
qed (use assms in simp)

text \<open>C25: the destructor of a seeker can hang. It sets the flag and notifies without the mutex: when the working
  thread has tested its predicate and does not sleep yet, the notification is lost, and from there on the
  thread sleeps and the destructor waits for it in every run without a spurious wakeup.\<close>

theorem seeker_destructor_can_hang:
  "\<exists>s. seeker_runs False False s \<and> destorying s \<and>
     {s'. seeker_moves\<^sup>*\<^sup>* s s'} \<subseteq> {s'. working s' = Sleeping \<and> destructor s' = Join_thread}"
proof (intro exI conjI subsetI CollectI)
  let ?s = "\<lparr>watching = False, destorying = True, watch_mtx = None, has_watcher = True, cancelled = True,
      working = Sleeping, destructor = Join_thread\<rparr>"
  show "seeker_runs False False ?s" by (rule missed_notification)
  show "working s' = Sleeping" "destructor s' = Join_thread" if "s' \<in> {s'. seeker_moves\<^sup>*\<^sup>* ?s s'}" for s'
    using asleep_for_ever [of ?s s'] that by simp_all
qed simp

text \<open>
  When the uninitialised flag happens to be true, the thread can call the watcher before the constructor
  has set it.
\<close>

theorem seeker_waits_without_watcher: "\<exists>s. seeker_runs True False s \<and> working s = Crashed"
proof -
  let ?s = "\<lambda>m p. \<lparr>watching = True, destorying = False, watch_mtx = m, has_watcher = False, cancelled = False,
      working = p, destructor = Alive\<rparr>"
  have "seeker_runs True False (?s None Loop_test)" using seeker_runs.Start [of True False] by (simp add: start_seeker_def)
  from run_working [OF this Test] have "seeker_runs True False (?s None Lock_mtx)" by simp
  from run_working [OF this Lock] have "seeker_runs True False (?s (Some Working_thread) Wait_test)" by simp
  from run_working [OF this Predicate] have "seeker_runs True False (?s (Some Working_thread) Break_test)" by simp
  from run_working [OF this Break] have "seeker_runs True False (?s None Watcher_wait)" by simp
  from run_working [OF this Wait] have "seeker_runs True False (?s None Crashed)" by simp
  then show ?thesis by (intro exI [of _ "?s None Crashed"]) simp
qed

theorem seeker_thread_safety_witness:
  "\<exists>s. seeker_runs False False s \<and> watch_mtx s = Some Working_thread \<and> holds_mutex (working s)"
proof -
  let ?s = "\<lambda>m p. \<lparr>watching = False, destorying = False, watch_mtx = m, has_watcher = False, cancelled = False,
      working = p, destructor = Alive\<rparr>"
  have "seeker_runs False False (?s None Loop_test)" using seeker_runs.Start [of False False] by (simp add: start_seeker_def)
  from run_working [OF this Test] have "seeker_runs False False (?s None Lock_mtx)" by simp
  from run_working [OF this Lock] have "seeker_runs False False (?s (Some Working_thread) Wait_test)" by simp
  from seeker_thread_safety [OF this] this show ?thesis by auto
qed

theorem seeker_destructor_returns_witness:
  "\<exists>s. seeker_runs False False s \<and> will_leave s \<and> destructor s \<noteq> Destroyed \<and> (\<exists>t. thread_working s t \<or> destruct s t)"
proof -
  let ?s = "\<lambda>d q. \<lparr>watching = False, destorying = d, watch_mtx = None, has_watcher = True, cancelled = False,
      working = Loop_test, destructor = q\<rparr>"
  have "seeker_runs False False (?s False Alive)"
    using run_others [OF seeker_runs.Start Constructed] by (simp add: set_watcher_def start_seeker_def)
  from run_destruct [OF this Begin] have "seeker_runs False False (?s False Store_flag)" by simp
  from run_destruct [OF this Store] have r: "seeker_runs False False (?s True Notify_all)" by simp
  moreover have l: "will_leave (?s True Notify_all)" by (simp add: will_leave_def)
  ultimately show ?thesis using seeker_destructor_returns [OF r l] by (intro exI [of _ "?s True Notify_all"]) simp
qed

end
