(* ===== verification/Pb_Message.thy ===== *)
theory Pb_Message
  imports Byte_Order
begin

text \<open>
  What the message classes that protoc generated into the repository share: the library calls they make, the
  loop of \<open>_InternalParse\<close>, and the contract of a message class. The protobuf library is not in the
  repository: its calls are a record of functions, and its documented wire format (a reader takes back what
  the writer wrote, and the sizes) is the locale \<open>wire_format\<close>. The locale \<open>pb_message\<close> is what the
  generated members of one class have to satisfy; round trips, copies and merging follow from it.
\<close>

section \<open>The library\<close>

text \<open>
  Writers give the bytes they append for a field number and a value, the message writer also takes the cached
  size. Readers give the value they store and the rest of the input, or \<open>None\<close> for a null pointer.
\<close>

record pb_library =
  WriteBytes :: "nat \<Rightarrow> bytes \<Rightarrow> bytes"
  WriteUInt32 :: "nat \<Rightarrow> u32 \<Rightarrow> bytes"
  WriteInt32 :: "nat \<Rightarrow> u32 \<Rightarrow> bytes"
  WriteBool :: "nat \<Rightarrow> bool \<Rightarrow> bytes"
  WriteFloat :: "nat \<Rightarrow> u32 \<Rightarrow> bytes"
  WriteMessage :: "nat \<Rightarrow> nat \<Rightarrow> bytes \<Rightarrow> bytes"
  BytesSize :: "bytes \<Rightarrow> nat"
  UInt32SizePlusOne :: "u32 \<Rightarrow> nat"
  Int32SizePlusOne :: "u32 \<Rightarrow> nat"
  MessageSize :: "nat \<Rightarrow> nat"
  ReadTag :: "bytes \<Rightarrow> (u32 \<times> bytes) option"
  ReadString :: "bytes \<Rightarrow> bytes \<times> bytes option"
  ReadVarint32 :: "bytes \<Rightarrow> u32 \<times> bytes option"
  ReadVarint64 :: "bytes \<Rightarrow> u64 \<times> bytes option"
  ReadDelimited :: "bytes \<Rightarrow> (bytes \<times> bytes) option"
  UnknownField :: "u32 \<Rightarrow> bytes \<Rightarrow> (bytes \<times> bytes) option"

text \<open>A message: its fields, and the unknown fields of \<open>_internal_metadata_\<close> as the bytes they came from.\<close>

record 'm pb_msg =
  contents :: 'm
  unknown :: bytes

text \<open>\<open>MaybeComputeUnknownFieldsSize\<close> adds the size of the unknown fields.\<close>

definition with_unknown :: "nat \<Rightarrow> 'm pb_msg \<Rightarrow> nat" where
  "with_unknown total_size m = total_size + length (unknown m)"

text \<open>\<open>if(\<close>the field is not the default\<open>)\<close> store it, as parser and \<open>MergeImpl\<close> do.\<close>

definition set_when :: "bool \<Rightarrow> ('m \<Rightarrow> 'm) \<Rightarrow> 'm pb_msg \<Rightarrow> 'm pb_msg" where
  "set_when b f m = (if b then m\<lparr>contents := f (contents m)\<rparr> else m)"

lemma set_when_simps [simp]:
  "unknown (set_when b f m) = unknown m" "set_when True f m = m\<lparr>contents := f (contents m)\<rparr>" "set_when False f m = m"
  by (simp_all add: set_when_def)

section \<open>The loop of the parsers\<close>

text \<open>
  \<open>tag >> 3\<close> selects the field, whose code reads it (\<open>Field_Read\<close>), fails (\<open>goto failure\<close>), or goes to
  \<open>handle_unusual\<close>. There the tag 0 and the end of a group stop the parser, which \<open>ParseFromString\<close> takes
  for a failure; other fields are kept as unknown. A null pointer from \<open>ReadTag\<close> comes with the tag 0.
  \<open>Endless\<close>: the parser of a nested message does not return.
\<close>

datatype 'm field_end = Field_Read 'm bytes | Failure 'm | Unusual | Endless

partial_function (option) parse_fields ::
  "pb_library \<Rightarrow> (u32 \<Rightarrow> bytes \<Rightarrow> 'm \<Rightarrow> 'm field_end) \<Rightarrow> 'm pb_msg \<Rightarrow> bytes \<Rightarrow> (bool \<times> 'm pb_msg) option" where
  "parse_fields lib field m p =
     (if p = [] then Some (True, m)
      else case ReadTag lib p of
        None \<Rightarrow> Some (False, m)
      | Some (tag, p1) \<Rightarrow>
          (case field tag p1 (contents m) of
             Field_Read f p2 \<Rightarrow> parse_fields lib field (m\<lparr>contents := f\<rparr>) p2
           | Failure f \<Rightarrow> Some (False, m\<lparr>contents := f\<rparr>)
           | Endless \<Rightarrow> None
           | Unusual \<Rightarrow>
               if tag = 0 \<or> tag AND 7 = 4 then Some (False, m)
               else (case UnknownField lib tag p1 of
                       None \<Rightarrow> Some (False, m)
                     | Some (u, p2) \<Rightarrow> parse_fields lib field (m\<lparr>unknown := unknown m @ u\<rparr>) p2)))"

text \<open>The code of one field in each of the generated shapes: check the tag's byte, read, store.\<close>

definition bytes_field :: "pb_library \<Rightarrow> u8 \<Rightarrow> (bytes \<Rightarrow> 'm \<Rightarrow> 'm) \<Rightarrow> u32 \<Rightarrow> bytes \<Rightarrow> 'm \<Rightarrow> 'm field_end" where
  "bytes_field lib t set_field tag p m =
     (if (ucast tag :: u8) = t then
        (case ReadString lib p of (s, None) \<Rightarrow> Failure (set_field s m) | (s, Some p') \<Rightarrow> Field_Read (set_field s m) p')
      else Unusual)"

definition varint32_field :: "pb_library \<Rightarrow> u8 \<Rightarrow> (u32 \<Rightarrow> 'm \<Rightarrow> 'm) \<Rightarrow> u32 \<Rightarrow> bytes \<Rightarrow> 'm \<Rightarrow> 'm field_end" where
  "varint32_field lib t set_field tag p m =
     (if (ucast tag :: u8) = t then
        (case ReadVarint32 lib p of (v, None) \<Rightarrow> Failure (set_field v m) | (v, Some p') \<Rightarrow> Field_Read (set_field v m) p')
      else Unusual)"

definition bool_field :: "pb_library \<Rightarrow> u8 \<Rightarrow> (bool \<Rightarrow> 'm \<Rightarrow> 'm) \<Rightarrow> u32 \<Rightarrow> bytes \<Rightarrow> 'm \<Rightarrow> 'm field_end" where
  "bool_field lib t set_field tag p m =
     (if (ucast tag :: u8) = t then
        (case ReadVarint64 lib p of
           (v, None) \<Rightarrow> Failure (set_field (v \<noteq> 0) m) | (v, Some p') \<Rightarrow> Field_Read (set_field (v \<noteq> 0) m) p')
      else Unusual)"

text \<open>\<open>UnalignedLoad<float>\<close> has no check; with fewer than four bytes left the loop then ends with a failure.\<close>

definition float_field :: "u8 \<Rightarrow> (u32 \<Rightarrow> 'm \<Rightarrow> 'm) \<Rightarrow> u32 \<Rightarrow> bytes \<Rightarrow> 'm \<Rightarrow> 'm field_end" where
  "float_field t set_field tag p m =
     (if (ucast tag :: u8) = t then
        (if length p < 4 then Failure (set_field (load_le p) m) else Field_Read (set_field (load_le (take 4 p)) m) (drop 4 p))
      else Unusual)"

text \<open>The size of a message that holds the field.\<close>

definition bytes_out :: "pb_library \<Rightarrow> nat \<Rightarrow> bytes \<Rightarrow> bytes" where
  "bytes_out lib n s = (if s \<noteq> [] then WriteBytes lib n s else [])"

definition uint32_out :: "pb_library \<Rightarrow> nat \<Rightarrow> u32 \<Rightarrow> bytes" where
  "uint32_out lib n v = (if v \<noteq> 0 then WriteUInt32 lib n v else [])"

definition int32_out :: "pb_library \<Rightarrow> nat \<Rightarrow> u32 \<Rightarrow> bytes" where
  "int32_out lib n v = (if v \<noteq> 0 then WriteInt32 lib n v else [])"

definition float_out :: "pb_library \<Rightarrow> nat \<Rightarrow> u32 \<Rightarrow> bytes" where
  "float_out lib n v = (if v \<noteq> 0 then WriteFloat lib n v else [])"

definition bytes_size :: "pb_library \<Rightarrow> bytes \<Rightarrow> nat" where
  "bytes_size lib s = (if s \<noteq> [] then 1 + BytesSize lib s else 0)"

definition uint32_size :: "pb_library \<Rightarrow> u32 \<Rightarrow> nat" where
  "uint32_size lib v = (if v \<noteq> 0 then UInt32SizePlusOne lib v else 0)"

definition int32_size :: "pb_library \<Rightarrow> u32 \<Rightarrow> nat" where
  "int32_size lib v = (if v \<noteq> 0 then Int32SizePlusOne lib v else 0)"

definition float_size :: "u32 \<Rightarrow> nat" where
  "float_size v = (if v \<noteq> 0 then 1 + 4 else 0)"

section \<open>The documented wire format\<close>

text \<open>
  Field numbers are below 16, so a tag is one byte. Length-delimited data are shorter than \<open>2 ^ 31\<close>. A value
  below 128 is one byte, a 32-bit value at most five.
\<close>

locale wire_format =
  fixes lib :: pb_library
  assumes tag_progress: "ReadTag lib p = Some (t, p1) \<Longrightarrow> length p1 < length p"
    and reader_progress: "ReadString lib p = (s, Some p1) \<Longrightarrow> length p1 \<le> length p"
      "ReadVarint32 lib p = (v, Some p1) \<Longrightarrow> length p1 \<le> length p"
      "ReadVarint64 lib p = (w, Some p1) \<Longrightarrow> length p1 \<le> length p"
      "ReadDelimited lib p = Some (b, p1) \<Longrightarrow> length p1 \<le> length p"
      "UnknownField lib t p = Some (b, p1) \<Longrightarrow> length p1 \<le> length p"
    and bytes_back: "0 < n \<Longrightarrow> n < 16 \<Longrightarrow> length s < 2 ^ 31 \<Longrightarrow>
      \<exists>p. ReadTag lib (WriteBytes lib n s @ r) = Some (word_of_nat (8 * n + 2), p) \<and> ReadString lib p = (s, Some r)"
    and uint32_back: "0 < n \<Longrightarrow> n < 16 \<Longrightarrow>
      \<exists>p. ReadTag lib (WriteUInt32 lib n v @ r) = Some (word_of_nat (8 * n), p) \<and> ReadVarint32 lib p = (v, Some r)"
    and int32_back: "0 < n \<Longrightarrow> n < 16 \<Longrightarrow>
      \<exists>p. ReadTag lib (WriteInt32 lib n v @ r) = Some (word_of_nat (8 * n), p) \<and> ReadVarint32 lib p = (v, Some r)"
    and bool_back: "0 < n \<Longrightarrow> n < 16 \<Longrightarrow>
      \<exists>p. ReadTag lib (WriteBool lib n z @ r) = Some (word_of_nat (8 * n), p) \<and> ReadVarint64 lib p = (of_bool z, Some r)"
    and float_back: "0 < n \<Longrightarrow> n < 16 \<Longrightarrow>
      ReadTag lib (WriteFloat lib n v @ r) = Some (word_of_nat (8 * n + 5), store_le 4 v @ r)"
    and message_back: "0 < n \<Longrightarrow> n < 16 \<Longrightarrow> length s < 2 ^ 31 \<Longrightarrow>
      \<exists>p. ReadTag lib (WriteMessage lib n (length s) s @ r) = Some (word_of_nat (8 * n + 2), p) \<and>
          ReadDelimited lib p = Some (s, r)"
    and sizes: "0 < n \<Longrightarrow> n < 16 \<Longrightarrow> length (WriteBytes lib n s) = 1 + BytesSize lib s"
      "0 < n \<Longrightarrow> n < 16 \<Longrightarrow> length (WriteUInt32 lib n v) = UInt32SizePlusOne lib v"
      "0 < n \<Longrightarrow> n < 16 \<Longrightarrow> length (WriteInt32 lib n v) = Int32SizePlusOne lib v"
      "0 < n \<Longrightarrow> n < 16 \<Longrightarrow> length (WriteBool lib n z) = 2"
      "0 < n \<Longrightarrow> n < 16 \<Longrightarrow> length (WriteFloat lib n v) = 5"
      "0 < n \<Longrightarrow> n < 16 \<Longrightarrow> length (WriteMessage lib n (length s) s) = 1 + MessageSize lib (length s)"
    and small_sizes: "length s < 128 \<Longrightarrow> BytesSize lib s = 1 + length s" "v < 128 \<Longrightarrow> Int32SizePlusOne lib v = 2"
      "k < 128 \<Longrightarrow> MessageSize lib k = 1 + k" "UInt32SizePlusOne lib v \<le> 6"
begin

lemma nonempty: "ReadTag lib p = Some (t, p1) \<Longrightarrow> p \<noteq> []"
  using tag_progress by force

text \<open>Every field the loop reads leaves fewer bytes, so it ends.\<close>

lemma parse_fields_ends:
  assumes "\<And>t p m f p1. field t p m = Field_Read f p1 \<Longrightarrow> length p1 \<le> length p"
    and "\<And>t p m. field t p m \<noteq> Endless"
  shows "\<exists>r. parse_fields lib field m p = Some r"
proof (induction p arbitrary: m rule: measure_induct_rule [of length])
  case (less p)
  show ?case
  proof (cases "p = [] \<or> ReadTag lib p = None")
    case True
    then show ?thesis by (subst parse_fields.simps) auto
  next
    case False
    then obtain t p1 where t: "ReadTag lib p = Some (t, p1)" by auto
    note tp = tag_progress [OF t]
    have n: "\<exists>r. parse_fields lib field m' p2 = Some r" if "length p2 \<le> length p1" for m' p2
      using less [of p2 m'] that tp by simp
    show ?thesis
    proof (cases "field t p1 (contents m)")
      case (Field_Read f p2)
      with n [OF assms(1) [OF Field_Read]] False t show ?thesis by (subst parse_fields.simps) simp
    next
      case Unusual
      with False t n [OF reader_progress(5)] show ?thesis
        by (subst parse_fields.simps) (auto split: option.splits)
    qed (use False t assms(2) in \<open>subst parse_fields.simps, auto\<close>)
  qed
qed

lemma parse_field:
  assumes "ReadTag lib q = Some (t, p)" and "field t p (contents m) = Field_Read f r"
  shows "parse_fields lib field m q = parse_fields lib field (m\<lparr>contents := f\<rparr>) r"
  using assms nonempty [OF assms(1)] by (subst parse_fields.simps) simp

lemma parse_bytes:
  assumes "0 < n" "n < 16" "length s < 2 ^ 31" "t = word_of_nat (8 * n + 2)" "ucast t = k"
    and "\<And>p c. field t p c = bytes_field lib k st t p c"
  shows "parse_fields lib field m (bytes_out lib n s @ r) =
         parse_fields lib field (set_when (s \<noteq> []) (st s) m) r"
proof (cases "s = []")
  case False
  obtain p where p: "ReadTag lib (WriteBytes lib n s @ r) = Some (t, p)" "ReadString lib p = (s, Some r)"
    using bytes_back [OF assms(1-3)] unfolding assms(4) by blast
  from p(2) assms(5) have "bytes_field lib k st t p (contents m) = Field_Read (st s (contents m)) r"
    by (simp add: bytes_field_def)
  with parse_field [OF p(1), of field] False show ?thesis by (simp add: bytes_out_def assms(6))
qed (simp add: bytes_out_def)

lemma parse_varint32:
  assumes "0 < n" "n < 16" "t = word_of_nat (8 * n)" "ucast t = k"
    and "\<And>p c. field t p c = varint32_field lib k st t p c"
    and "\<exists>p. ReadTag lib (w @ r) = Some (word_of_nat (8 * n), p) \<and> ReadVarint32 lib p = (v, Some r)"
  shows "parse_fields lib field m (w @ r) = parse_fields lib field (m\<lparr>contents := st v (contents m)\<rparr>) r"
proof -
  obtain p where p: "ReadTag lib (w @ r) = Some (t, p)" "ReadVarint32 lib p = (v, Some r)"
    using assms(6) unfolding assms(3) by blast
  from p(2) assms(4) have "varint32_field lib k st t p (contents m) = Field_Read (st v (contents m)) r"
    by (simp add: varint32_field_def)
  with parse_field [OF p(1), of field] show ?thesis by (simp add: assms(5))
qed

lemma parse_uint32:
  assumes "0 < n" "n < 16" "t = word_of_nat (8 * n)" "ucast t = k"
    and "\<And>p c. field t p c = varint32_field lib k st t p c"
  shows "parse_fields lib field m (uint32_out lib n v @ r) =
         parse_fields lib field (set_when (v \<noteq> 0) (st v) m) r"
  using parse_varint32 [where field = field and t = t and k = k and st = st, OF assms uint32_back [OF assms(1,2)]] by (simp add: uint32_out_def)

lemma parse_int32:
  assumes "0 < n" "n < 16" "t = word_of_nat (8 * n)" "ucast t = k"
    and "\<And>p c. field t p c = varint32_field lib k st t p c"
  shows "parse_fields lib field m (int32_out lib n v @ r) =
         parse_fields lib field (set_when (v \<noteq> 0) (st v) m) r"
  using parse_varint32 [where field = field and t = t and k = k and st = st, OF assms int32_back [OF assms(1,2)]] by (simp add: int32_out_def)

lemma parse_bool:
  assumes "0 < n" "n < 16" "t = word_of_nat (8 * n)" "ucast t = k"
    and "\<And>p c. field t p c = bool_field lib k st t p c"
  shows "parse_fields lib field m (WriteBool lib n b @ r) = parse_fields lib field (m\<lparr>contents := st b (contents m)\<rparr>) r"
proof -
  obtain p where p: "ReadTag lib (WriteBool lib n b @ r) = Some (t, p)" "ReadVarint64 lib p = (of_bool b, Some r)"
    using bool_back [OF assms(1,2)] unfolding assms(3) by blast
  from p(2) assms(4) have "bool_field lib k st t p (contents m) = Field_Read (st b (contents m)) r"
    by (simp add: bool_field_def)
  with parse_field [OF p(1), of field] show ?thesis by (simp add: assms(5))
qed

lemma parse_float:
  assumes "0 < n" "n < 16" "t = word_of_nat (8 * n + 5)" "ucast t = k"
    and "\<And>p c. field t p c = float_field k st t p c"
  shows "parse_fields lib field m (float_out lib n v @ r) =
         parse_fields lib field (set_when (v \<noteq> 0) (st v) m) r"
proof -
  have "float_field k st t (store_le 4 v @ r) (contents m) = Field_Read (st v (contents m)) r"
    using assms(4) by (simp add: float_field_def load_le_store_le)
  moreover have "ReadTag lib (WriteFloat lib n v @ r) = Some (t, store_le 4 v @ r)"
    unfolding assms(3) by (rule float_back [OF assms(1,2)])
  ultimately show ?thesis using parse_field [where field = field] by (simp add: float_out_def assms(5))
qed

lemma parse_message:
  assumes "0 < n" "n < 16" "length s < 2 ^ 31" "t = word_of_nat (8 * n + 2)"
    and "\<And>p c r. ReadDelimited lib p = Some (s, r) \<Longrightarrow> field t p c = Field_Read (st c) r"
  shows "parse_fields lib field m (WriteMessage lib n (length s) s @ r) = parse_fields lib field (m\<lparr>contents := st (contents m)\<rparr>) r"
proof -
  obtain p where p: "ReadTag lib (WriteMessage lib n (length s) s @ r) = Some (t, p)" "ReadDelimited lib p = Some (s, r)"
    using message_back [OF assms(1-3)] unfolding assms(4) by blast
  show ?thesis by (rule parse_field [OF p(1)]) (rule assms(5) [OF p(2)])
qed

lemma out_sizes:
  assumes "0 < n" "n < 16"
  shows "length (bytes_out lib n s) = bytes_size lib s" "length (uint32_out lib n v) = uint32_size lib v"
    "length (int32_out lib n v) = int32_size lib v" "length (float_out lib n v) = float_size v"
  using assms
  by (simp_all add: bytes_out_def bytes_size_def uint32_out_def uint32_size_def int32_out_def int32_size_def
      float_out_def float_size_def sizes)

end

section \<open>The contract of a message class\<close>

text \<open>
  \<open>parse m\<close> reads into an existing message; \<open>new_msg\<close> is what the constructor and \<open>Clear\<close> give. A message
  \<open>fits\<close> when its strings are short and it has no unknown fields.
\<close>

locale pb_message =
  fixes new_msg :: "'m pb_msg" and ser :: "'m pb_msg \<Rightarrow> bytes" and parse :: "'m pb_msg \<Rightarrow> bytes \<Rightarrow> (bool \<times> 'm pb_msg) option"
    and merge :: "'m pb_msg \<Rightarrow> 'm pb_msg \<Rightarrow> 'm pb_msg" and byte_size :: "'m pb_msg \<Rightarrow> nat" and fits :: "'m pb_msg \<Rightarrow> bool"
  assumes parse_ser: "fits a \<Longrightarrow> parse m (ser a @ r) = parse (merge m a) r"
    and parse_nil: "parse m [] = Some (True, m)"
    and merge_new: "fits a \<Longrightarrow> merge new_msg a = a"
    and size: "fits a \<Longrightarrow> byte_size a = length (ser a)"
begin

lemma roundtrip: "fits a \<Longrightarrow> parse new_msg (ser a) = Some (True, a)"
  using parse_ser [of a new_msg "[]"] parse_nil by (simp add: merge_new)

text \<open>Messages behind each other are parsed as their merger.\<close>

lemma parse_merges: "\<forall>a \<in> set as. fits a \<Longrightarrow> parse m (concat (map ser as)) = Some (True, foldl merge m as)"
  by (induction as arbitrary: m) (simp_all add: parse_nil parse_ser)

lemma copies: "fits a \<Longrightarrow> merge new_msg a = a \<and> parse m (ser a) = Some (True, merge m a)"
  using parse_merges [of "[a]" m] by (simp add: merge_new)

lemma sizes_add: "\<forall>a \<in> set as. fits a \<Longrightarrow> length (concat (map ser as)) = sum_list (map byte_size as)"
  by (induction as) (simp_all add: size)

end

section \<open>An instance of the wire format\<close>

text \<open>The documented format as functions, for concrete runs.\<close>

fun varint :: "nat \<Rightarrow> bytes" where
  "varint n = (if n < 128 then [word_of_nat n] else word_of_nat (n mod 128 + 128) # varint (n div 128))"

fun read_varint :: "bytes \<Rightarrow> (nat \<times> bytes) option" where
  "read_varint [] = None"
| "read_varint (b # p) =
     (if unat b < 128 then Some (unat b, p)
      else case read_varint p of None \<Rightarrow> None | Some (v, r) \<Rightarrow> Some (unat b - 128 + 128 * v, r))"

declare varint.simps [simp del]

definition take_bytes :: "nat \<Rightarrow> bytes \<Rightarrow> (bytes \<times> bytes) option" where
  "take_bytes k p = (if k \<le> length p then Some (take k p, drop k p) else None)"

definition read_delimited :: "bytes \<Rightarrow> (bytes \<times> bytes) option" where
  "read_delimited p = (case read_varint p of None \<Rightarrow> None | Some (k, r) \<Rightarrow> take_bytes k r)"

definition wire_lib :: pb_library where
  "wire_lib = \<lparr>
     WriteBytes = (\<lambda>n s. varint (8 * n + 2) @ varint (length s) @ s),
     WriteUInt32 = (\<lambda>n v. varint (8 * n) @ varint (unat v)),
     WriteInt32 = (\<lambda>n v. varint (8 * n) @ varint (unat (scast v :: u64))),
     WriteBool = (\<lambda>n b. varint (8 * n) @ [of_bool b]),
     WriteFloat = (\<lambda>n v. varint (8 * n + 5) @ store_le 4 v),
     WriteMessage = (\<lambda>n k s. varint (8 * n + 2) @ varint k @ s),
     BytesSize = (\<lambda>s. length (varint (length s)) + length s),
     UInt32SizePlusOne = (\<lambda>v. 1 + length (varint (unat v))),
     Int32SizePlusOne = (\<lambda>v. 1 + length (varint (unat (scast v :: u64)))),
     MessageSize = (\<lambda>k. length (varint k) + k),
     ReadTag = (\<lambda>p. case read_varint p of None \<Rightarrow> None | Some (t, r) \<Rightarrow> Some (word_of_nat t, r)),
     ReadString = (\<lambda>p. case read_delimited p of None \<Rightarrow> ([], None) | Some (s, r) \<Rightarrow> (s, Some r)),
     ReadVarint32 = (\<lambda>p. case read_varint p of None \<Rightarrow> (0, None) | Some (v, r) \<Rightarrow> (word_of_nat v, Some r)),
     ReadVarint64 = (\<lambda>p. case read_varint p of None \<Rightarrow> (0, None) | Some (v, r) \<Rightarrow> (word_of_nat v, Some r)),
     ReadDelimited = read_delimited,
     UnknownField = (\<lambda>t p. if t AND 7 = 0 then (case read_varint p of None \<Rightarrow> None | Some (v, r) \<Rightarrow> Some (varint v, r))
                           else if t AND 7 = 2 then read_delimited p
                           else if t AND 7 = 1 then take_bytes 8 p
                           else if t AND 7 = 5 then take_bytes 4 p else None)\<rparr>"

lemma read_varint_back: "read_varint (varint n @ r) = Some (n, r)"
proof (induction n rule: varint.induct)
  case (1 n)
  show ?case
  proof (cases "n < 128")
    case True
    then show ?thesis by (subst varint.simps) (simp add: unat_of_nat)
  next
    case False
    have b: "n mod 128 < 128" by simp
    then have "unat (word_of_nat (n mod 128 + 128) :: u8) = n mod 128 + 128" by (simp add: unat_of_nat del: of_nat_add)
    with 1 [OF False] False show ?thesis by (subst varint.simps) (simp del: of_nat_add)
  qed
qed

lemma read_varint_progress: "read_varint p = Some (v, r) \<Longrightarrow> length r < length p"
  by (induction p arbitrary: v) (auto split: if_splits option.splits)

lemma small_varint: "n < 128 \<Longrightarrow> length (varint n) = 1"
  by (subst varint.simps) simp

lemma varint_length: "n < 128 ^ Suc k \<Longrightarrow> length (varint n) \<le> Suc k"
proof (induction k arbitrary: n)
  case 0
  then show ?case by (simp add: small_varint)
next
  case (Suc k)
  then have "n div 128 < 128 ^ Suc k" by (simp add: div_less_iff_less_mult mult.commute)
  from Suc.IH [OF this] show ?case by (subst varint.simps) simp
qed

lemma varint32_length: "length (varint (unat (v :: u32))) \<le> 5"
proof -
  have "unat v < 2 ^ LENGTH(32)" by (rule unsigned_less)
  then show ?thesis using varint_length [of "unat v" 4] by simp
qed

lemma read_delimited_back: "read_delimited (varint (length s) @ s @ r) = Some (s, r)"
  by (simp add: read_delimited_def read_varint_back take_bytes_def)

lemma read_delimited_progress: "read_delimited p = Some (s, r) \<Longrightarrow> length r \<le> length p"
  using read_varint_progress by (fastforce simp: read_delimited_def take_bytes_def split: option.splits if_splits)

lemma int32_low: "(ucast (scast v :: u64) :: u32) = v"
  by (rule bit_word_eqI) (simp add: bit_simps)

lemma small_int32:
  assumes "(v :: u32) < 128"
  shows "unat (scast v :: u64) < 128"
proof -
  have v: "0 \<le> uint v" "uint v < 128" using assms by (simp_all add: word_less_def)
  then have "- 2147483648 \<le> uint v" by linarith
  with v have "sint v = uint v" unfolding sint_uint by (intro signed_take_bit_int_eq_self) simp_all
  then have s: "(scast v :: u64) = word_of_int (uint v)" unfolding scast_eq by (rule arg_cong)
  have "take_bit 64 (uint v) = uint v" using v by (intro take_bit_int_eq_self) simp_all
  moreover have "uint (word_of_int (uint v) :: u64) = take_bit 64 (uint v)" unfolding uint_word_of_int_eq by simp
  ultimately have "uint (scast v :: u64) = uint v" unfolding s by (rule trans [rotated])
  with v(2) show ?thesis unfolding unat_eq_nat_uint by linarith
qed

interpretation wire: wire_format wire_lib
proof unfold_locales
  fix p t p1 assume "ReadTag wire_lib p = Some (t, p1)"
  then show "length p1 < length p" using read_varint_progress by (auto simp: wire_lib_def split: option.splits)
next
  fix p s p1 assume "ReadString wire_lib p = (s, Some p1)"
  then show "length p1 \<le> length p" using read_delimited_progress by (auto simp: wire_lib_def split: option.splits)
next
  fix p v p1 assume "ReadVarint32 wire_lib p = (v, Some p1)"
  then show "length p1 \<le> length p" using read_varint_progress by (fastforce simp: wire_lib_def split: option.splits)
next
  fix p w p1 assume "ReadVarint64 wire_lib p = (w, Some p1)"
  then show "length p1 \<le> length p" using read_varint_progress by (fastforce simp: wire_lib_def split: option.splits)
next
  fix p b p1 assume "ReadDelimited wire_lib p = Some (b, p1)"
  then show "length p1 \<le> length p" using read_delimited_progress by (auto simp: wire_lib_def)
next
  fix t p b p1 assume "UnknownField wire_lib t p = Some (b, p1)"
  then show "length p1 \<le> length p" using read_delimited_progress read_varint_progress
    by (fastforce simp: wire_lib_def take_bytes_def split: option.splits if_splits)
qed (auto simp: wire_lib_def read_varint_back read_delimited_back small_varint small_int32 int32_low unsigned_of_nat varint32_length
    simp del: of_nat_add of_nat_mult)

end
