(* ===== verification/Pb_Codec.thy ===== *)
theory Pb_Codec
  imports Pb_Message Protocol Net_Base
begin

text \<open>
  The members that protoc generated for the messages of the framework, \<open>RpcHeader\<close>
  (src/Rpc/generic_rpc.pb.cc) and \<open>RpcNodeInfo\<close> (src/Rpc/rpc_node_info.pb.cc): constructors, \<open>Clear\<close>, the
  parser's switch, the serializer, the size, merging, copying and swapping. Arenas, descriptors and the
  reflection tables are not modelled. \<open>float\<close> fields are their 32 bits.
\<close>

section \<open>RpcHeader\<close>

definition RpcHeader_SharedCtor :: "rpc_header pb_msg" where
  "RpcHeader_SharedCtor = \<lparr>contents = \<lparr>h_service_name = [], h_method_name = [], h_args_size = 0\<rparr>, unknown = []\<rparr>"

definition RpcHeader_copy :: "rpc_header pb_msg \<Rightarrow> rpc_header pb_msg" where
  "RpcHeader_copy from =
     \<lparr>contents = \<lparr>h_service_name = (if h_service_name (contents from) \<noteq> [] then h_service_name (contents from) else []),
        h_method_name = (if h_method_name (contents from) \<noteq> [] then h_method_name (contents from) else []),
        h_args_size = h_args_size (contents from)\<rparr>,
      unknown = unknown from\<rparr>"

definition RpcHeader_Clear :: "rpc_header pb_msg \<Rightarrow> rpc_header pb_msg" where
  "RpcHeader_Clear m = m\<lparr>contents := (contents m)\<lparr>h_service_name := [], h_method_name := [], h_args_size := 0\<rparr>, unknown := []\<rparr>"

definition RpcHeader_field :: "pb_library \<Rightarrow> u32 \<Rightarrow> bytes \<Rightarrow> rpc_header \<Rightarrow> rpc_header field_end" where
  "RpcHeader_field lib tag =
     (if drop_bit 3 tag = 1 then bytes_field lib 10 (\<lambda>s m. m\<lparr>h_service_name := s\<rparr>) tag
      else if drop_bit 3 tag = 2 then bytes_field lib 18 (\<lambda>s m. m\<lparr>h_method_name := s\<rparr>) tag
      else if drop_bit 3 tag = 3 then varint32_field lib 24 (\<lambda>v m. m\<lparr>h_args_size := v\<rparr>) tag
      else (\<lambda>p m. Unusual))"

definition RpcHeader_InternalParse :: "pb_library \<Rightarrow> rpc_header pb_msg \<Rightarrow> bytes \<Rightarrow> (bool \<times> rpc_header pb_msg) option" where
  "RpcHeader_InternalParse lib = parse_fields lib (RpcHeader_field lib)"

definition RpcHeader_InternalSerialize :: "pb_library \<Rightarrow> rpc_header pb_msg \<Rightarrow> bytes" where
  "RpcHeader_InternalSerialize lib m =
     bytes_out lib 1 (h_service_name (contents m)) @ bytes_out lib 2 (h_method_name (contents m)) @
     uint32_out lib 3 (h_args_size (contents m)) @ unknown m"

definition RpcHeader_ByteSizeLong :: "pb_library \<Rightarrow> rpc_header pb_msg \<Rightarrow> nat" where
  "RpcHeader_ByteSizeLong lib m =
     with_unknown (bytes_size lib (h_service_name (contents m)) + bytes_size lib (h_method_name (contents m)) +
       uint32_size lib (h_args_size (contents m))) m"

definition RpcHeader_MergeImpl :: "rpc_header pb_msg \<Rightarrow> rpc_header pb_msg \<Rightarrow> rpc_header pb_msg" where
  "RpcHeader_MergeImpl m from =
     (let f = contents from;
          m1 = set_when (h_service_name f \<noteq> []) (\<lambda>c. c\<lparr>h_service_name := h_service_name f\<rparr>) m;
          m2 = set_when (h_method_name f \<noteq> []) (\<lambda>c. c\<lparr>h_method_name := h_method_name f\<rparr>) m1;
          m3 = set_when (h_args_size f \<noteq> 0) (\<lambda>c. c\<lparr>h_args_size := h_args_size f\<rparr>) m2
      in m3\<lparr>unknown := unknown m3 @ unknown from\<rparr>)"

definition RpcHeader_CopyFrom :: "rpc_header pb_msg \<Rightarrow> rpc_header pb_msg \<Rightarrow> rpc_header pb_msg" where
  "RpcHeader_CopyFrom m from = RpcHeader_MergeImpl (RpcHeader_Clear m) from"

definition RpcHeader_InternalSwap :: "rpc_header pb_msg \<times> rpc_header pb_msg \<Rightarrow> rpc_header pb_msg \<times> rpc_header pb_msg" where
  "RpcHeader_InternalSwap ab =
     (let a = contents (fst ab); b = contents (snd ab);
          a1 = a\<lparr>h_service_name := h_service_name b\<rparr>; b1 = b\<lparr>h_service_name := h_service_name a\<rparr>;
          a2 = a1\<lparr>h_method_name := h_method_name b1\<rparr>; b2 = b1\<lparr>h_method_name := h_method_name a1\<rparr>;
          a3 = a2\<lparr>h_args_size := h_args_size b2\<rparr>; b3 = b2\<lparr>h_args_size := h_args_size a2\<rparr>
      in ((fst ab)\<lparr>contents := a3, unknown := unknown (snd ab)\<rparr>, (snd ab)\<lparr>contents := b3, unknown := unknown (fst ab)\<rparr>))"

definition RpcHeader_fits :: "rpc_header pb_msg \<Rightarrow> bool" where
  "RpcHeader_fits m \<longleftrightarrow> length (h_service_name (contents m)) < 2 ^ 31 \<and> length (h_method_name (contents m)) < 2 ^ 31 \<and> unknown m = []"

lemmas RpcHeader_defs = RpcHeader_SharedCtor_def RpcHeader_MergeImpl_def RpcHeader_fits_def RpcHeader_Clear_def

lemma RpcHeader_fields:
  "RpcHeader_field lib 10 p c = bytes_field lib 10 (\<lambda>s m. m\<lparr>h_service_name := s\<rparr>) 10 p c"
  "RpcHeader_field lib 18 p c = bytes_field lib 18 (\<lambda>s m. m\<lparr>h_method_name := s\<rparr>) 18 p c"
  "RpcHeader_field lib 24 p c = varint32_field lib 24 (\<lambda>v m. m\<lparr>h_args_size := v\<rparr>) 24 p c"
  by (simp_all add: RpcHeader_field_def)

context wire_format
begin

lemma RpcHeader_parse_ser:
  assumes "RpcHeader_fits a"
  shows "RpcHeader_InternalParse lib m (RpcHeader_InternalSerialize lib a @ r) =
         RpcHeader_InternalParse lib (RpcHeader_MergeImpl m a) r"
proof -
  note a = assms [unfolded RpcHeader_fits_def]
  note f1 = parse_bytes [of 1 _ 10 10 "RpcHeader_field lib", OF _ _ _ _ _ RpcHeader_fields(1)]
  note f2 = parse_bytes [of 2 _ 18 18 "RpcHeader_field lib", OF _ _ _ _ _ RpcHeader_fields(2)]
  note f3 = parse_uint32 [of 3 24 24 "RpcHeader_field lib", OF _ _ _ _ RpcHeader_fields(3)]
  show ?thesis
    using a by (simp add: RpcHeader_InternalParse_def RpcHeader_InternalSerialize_def f1 f2 f3 RpcHeader_MergeImpl_def
        Let_def del: One_nat_def)
qed

end

sublocale wire_format \<subseteq> header: pb_message RpcHeader_SharedCtor "RpcHeader_InternalSerialize lib" "RpcHeader_InternalParse lib"
  RpcHeader_MergeImpl "RpcHeader_ByteSizeLong lib" RpcHeader_fits
proof unfold_locales
  show "RpcHeader_InternalParse lib m [] = Some (True, m)" for m
    unfolding RpcHeader_InternalParse_def by (subst parse_fields.simps) simp
  show "RpcHeader_MergeImpl RpcHeader_SharedCtor a = a" if "RpcHeader_fits a" for a
    using that by (cases a; cases "contents a") (simp add: RpcHeader_defs Let_def set_when_def)
  show "RpcHeader_ByteSizeLong lib a = length (RpcHeader_InternalSerialize lib a)" if "RpcHeader_fits a" for a
    using that by (simp add: RpcHeader_ByteSizeLong_def RpcHeader_InternalSerialize_def with_unknown_def out_sizes)
qed (rule RpcHeader_parse_ser)

section \<open>RpcNodeInfo\<close>

record node_message = rpc_node_info +
  cpu_util :: u32
  mem_util :: u32

definition RpcNodeInfo_SharedCtor :: "node_message pb_msg" where
  "RpcNodeInfo_SharedCtor = \<lparr>contents = \<lparr>node_addr = 0, node_port = 0, node_active_conn = 0, node_max_conn = 0,
     cpu_util = 0, mem_util = 0\<rparr>, unknown = []\<rparr>"

text \<open>One \<open>memcpy\<close> over all fields; \<open>Clear\<close> is one \<open>memset\<close>.\<close>

definition RpcNodeInfo_copy :: "node_message pb_msg \<Rightarrow> node_message pb_msg" where
  "RpcNodeInfo_copy from = \<lparr>contents = contents from, unknown = unknown from\<rparr>"

definition RpcNodeInfo_Clear :: "node_message pb_msg \<Rightarrow> node_message pb_msg" where
  "RpcNodeInfo_Clear m = m\<lparr>contents := \<lparr>node_addr = 0, node_port = 0, node_active_conn = 0, node_max_conn = 0,
     cpu_util = 0, mem_util = 0\<rparr>, unknown := []\<rparr>"

definition RpcNodeInfo_field :: "pb_library \<Rightarrow> u32 \<Rightarrow> bytes \<Rightarrow> node_message \<Rightarrow> node_message field_end" where
  "RpcNodeInfo_field lib tag =
     (if drop_bit 3 tag = 1 then varint32_field lib 8 (\<lambda>v m. m\<lparr>node_addr := v\<rparr>) tag
      else if drop_bit 3 tag = 2 then varint32_field lib 16 (\<lambda>v m. m\<lparr>node_port := v\<rparr>) tag
      else if drop_bit 3 tag = 3 then varint32_field lib 24 (\<lambda>v m. m\<lparr>node_active_conn := v\<rparr>) tag
      else if drop_bit 3 tag = 4 then varint32_field lib 32 (\<lambda>v m. m\<lparr>node_max_conn := v\<rparr>) tag
      else if drop_bit 3 tag = 5 then float_field 45 (\<lambda>v m. m\<lparr>cpu_util := v\<rparr>) tag
      else if drop_bit 3 tag = 6 then float_field 53 (\<lambda>v m. m\<lparr>mem_util := v\<rparr>) tag
      else (\<lambda>p m. Unusual))"

definition RpcNodeInfo_InternalParse :: "pb_library \<Rightarrow> node_message pb_msg \<Rightarrow> bytes \<Rightarrow> (bool \<times> node_message pb_msg) option" where
  "RpcNodeInfo_InternalParse lib = parse_fields lib (RpcNodeInfo_field lib)"

definition RpcNodeInfo_InternalSerialize :: "pb_library \<Rightarrow> node_message pb_msg \<Rightarrow> bytes" where
  "RpcNodeInfo_InternalSerialize lib m =
     uint32_out lib 1 (node_addr (contents m)) @ uint32_out lib 2 (node_port (contents m)) @
     uint32_out lib 3 (node_active_conn (contents m)) @ uint32_out lib 4 (node_max_conn (contents m)) @
     float_out lib 5 (cpu_util (contents m)) @ float_out lib 6 (mem_util (contents m)) @ unknown m"

definition RpcNodeInfo_ByteSizeLong :: "pb_library \<Rightarrow> node_message pb_msg \<Rightarrow> nat" where
  "RpcNodeInfo_ByteSizeLong lib m =
     with_unknown (uint32_size lib (node_addr (contents m)) + uint32_size lib (node_port (contents m)) +
       uint32_size lib (node_active_conn (contents m)) + uint32_size lib (node_max_conn (contents m)) +
       float_size (cpu_util (contents m)) + float_size (mem_util (contents m))) m"

definition RpcNodeInfo_MergeImpl :: "node_message pb_msg \<Rightarrow> node_message pb_msg \<Rightarrow> node_message pb_msg" where
  "RpcNodeInfo_MergeImpl m from =
     (let f = contents from;
          m1 = set_when (node_addr f \<noteq> 0) (\<lambda>c. c\<lparr>node_addr := node_addr f\<rparr>) m;
          m2 = set_when (node_port f \<noteq> 0) (\<lambda>c. c\<lparr>node_port := node_port f\<rparr>) m1;
          m3 = set_when (node_active_conn f \<noteq> 0) (\<lambda>c. c\<lparr>node_active_conn := node_active_conn f\<rparr>) m2;
          m4 = set_when (node_max_conn f \<noteq> 0) (\<lambda>c. c\<lparr>node_max_conn := node_max_conn f\<rparr>) m3;
          m5 = set_when (cpu_util f \<noteq> 0) (\<lambda>c. c\<lparr>cpu_util := cpu_util f\<rparr>) m4;
          m6 = set_when (mem_util f \<noteq> 0) (\<lambda>c. c\<lparr>mem_util := mem_util f\<rparr>) m5
      in m6\<lparr>unknown := unknown m6 @ unknown from\<rparr>)"

definition RpcNodeInfo_CopyFrom :: "node_message pb_msg \<Rightarrow> node_message pb_msg \<Rightarrow> node_message pb_msg" where
  "RpcNodeInfo_CopyFrom m from = RpcNodeInfo_MergeImpl (RpcNodeInfo_Clear m) from"

definition RpcNodeInfo_InternalSwap :: "node_message pb_msg \<times> node_message pb_msg \<Rightarrow> node_message pb_msg \<times> node_message pb_msg" where
  "RpcNodeInfo_InternalSwap ab =
     ((fst ab)\<lparr>unknown := unknown (snd ab), contents := contents (snd ab)\<rparr>,
      (snd ab)\<lparr>unknown := unknown (fst ab), contents := contents (fst ab)\<rparr>)"

definition RpcNodeInfo_fits :: "node_message pb_msg \<Rightarrow> bool" where
  "RpcNodeInfo_fits m \<longleftrightarrow> unknown m = []"

lemma RpcNodeInfo_fields:
  "RpcNodeInfo_field lib 8 p c = varint32_field lib 8 (\<lambda>v m. m\<lparr>node_addr := v\<rparr>) 8 p c"
  "RpcNodeInfo_field lib 16 p c = varint32_field lib 16 (\<lambda>v m. m\<lparr>node_port := v\<rparr>) 16 p c"
  "RpcNodeInfo_field lib 24 p c = varint32_field lib 24 (\<lambda>v m. m\<lparr>node_active_conn := v\<rparr>) 24 p c"
  "RpcNodeInfo_field lib 32 p c = varint32_field lib 32 (\<lambda>v m. m\<lparr>node_max_conn := v\<rparr>) 32 p c"
  "RpcNodeInfo_field lib 45 p c = float_field 45 (\<lambda>v m. m\<lparr>cpu_util := v\<rparr>) 45 p c"
  "RpcNodeInfo_field lib 53 p c = float_field 53 (\<lambda>v m. m\<lparr>mem_util := v\<rparr>) 53 p c"
  by (simp_all add: RpcNodeInfo_field_def)

context wire_format
begin

lemma RpcNodeInfo_parse_ser:
  assumes "RpcNodeInfo_fits a"
  shows "RpcNodeInfo_InternalParse lib m (RpcNodeInfo_InternalSerialize lib a @ r) =
         RpcNodeInfo_InternalParse lib (RpcNodeInfo_MergeImpl m a) r"
proof -
  have u: "unknown a = []" using assms by (simp add: RpcNodeInfo_fits_def)
  let ?f = "RpcNodeInfo_field lib"
  note f = parse_uint32 [of 1 8 8 ?f, OF _ _ _ _ RpcNodeInfo_fields(1)] parse_uint32 [of 2 16 16 ?f, OF _ _ _ _ RpcNodeInfo_fields(2)]
    parse_uint32 [of 3 24 24 ?f, OF _ _ _ _ RpcNodeInfo_fields(3)] parse_uint32 [of 4 32 32 ?f, OF _ _ _ _ RpcNodeInfo_fields(4)]
    parse_float [of 5 45 45 ?f, OF _ _ _ _ RpcNodeInfo_fields(5)] parse_float [of 6 53 53 ?f, OF _ _ _ _ RpcNodeInfo_fields(6)]
  show ?thesis
    by (simp add: RpcNodeInfo_InternalParse_def RpcNodeInfo_InternalSerialize_def u f RpcNodeInfo_MergeImpl_def Let_def
        del: One_nat_def)
qed

end

sublocale wire_format \<subseteq> node: pb_message RpcNodeInfo_SharedCtor "RpcNodeInfo_InternalSerialize lib" "RpcNodeInfo_InternalParse lib"
  RpcNodeInfo_MergeImpl "RpcNodeInfo_ByteSizeLong lib" RpcNodeInfo_fits
proof unfold_locales
  show "RpcNodeInfo_InternalParse lib m [] = Some (True, m)" for m
    unfolding RpcNodeInfo_InternalParse_def by (subst parse_fields.simps) simp
  show "RpcNodeInfo_MergeImpl RpcNodeInfo_SharedCtor a = a" if "RpcNodeInfo_fits a" for a
    using that by (cases a; cases "contents a")
      (simp add: RpcNodeInfo_MergeImpl_def RpcNodeInfo_SharedCtor_def RpcNodeInfo_fits_def Let_def set_when_def)
  show "RpcNodeInfo_ByteSizeLong lib a = length (RpcNodeInfo_InternalSerialize lib a)" if "RpcNodeInfo_fits a" for a
    using that by (simp add: RpcNodeInfo_ByteSizeLong_def RpcNodeInfo_InternalSerialize_def with_unknown_def out_sizes)
qed (rule RpcNodeInfo_parse_ser)

section \<open>Strings\<close>

text \<open>
  \<open>SerializeAsString\<close> and \<open>ParseFromString\<close> of the library on a fresh message. The framework ignores whether
  parsing succeeded and uses what it left in the message.
\<close>

definition RpcHeader_SerializeAsString :: "pb_library \<Rightarrow> rpc_header \<Rightarrow> bytes" where
  "RpcHeader_SerializeAsString lib h = RpcHeader_InternalSerialize lib \<lparr>contents = h, unknown = []\<rparr>"

definition RpcHeader_ParseFromString :: "pb_library \<Rightarrow> bytes \<Rightarrow> rpc_header" where
  "RpcHeader_ParseFromString lib s =
     (case RpcHeader_InternalParse lib RpcHeader_SharedCtor s of
        Some (ok, m) \<Rightarrow> contents m | None \<Rightarrow> contents RpcHeader_SharedCtor)"

definition RpcNodeInfo_SerializeAsString :: "pb_library \<Rightarrow> rpc_node_info \<Rightarrow> bytes" where
  "RpcNodeInfo_SerializeAsString lib i =
     RpcNodeInfo_InternalSerialize lib \<lparr>contents = rpc_node_info.extend i \<lparr>cpu_util = 0, mem_util = 0\<rparr>, unknown = []\<rparr>"

definition RpcNodeInfo_ParseFromString :: "pb_library \<Rightarrow> bytes \<Rightarrow> rpc_node_info" where
  "RpcNodeInfo_ParseFromString lib s =
     (case RpcNodeInfo_InternalParse lib RpcNodeInfo_SharedCtor s of
        Some (ok, m) \<Rightarrow> rpc_node_info.truncate (contents m) | None \<Rightarrow> rpc_node_info.truncate (contents RpcNodeInfo_SharedCtor))"

lemma field_progress:
  "wire_format lib \<Longrightarrow> RpcHeader_field lib t p m = Field_Read f r \<Longrightarrow> length r \<le> length p"
  "wire_format lib \<Longrightarrow> RpcNodeInfo_field lib t p n = Field_Read g r \<Longrightarrow> length r \<le> length p"
  by (auto simp: RpcHeader_field_def RpcNodeInfo_field_def bytes_field_def varint32_field_def float_field_def
      dest: wire_format.reader_progress split: if_splits prod.splits option.splits)

lemma field_returns: "RpcHeader_field lib t p m \<noteq> Endless" "RpcNodeInfo_field lib t p n \<noteq> Endless"
  by (auto simp: RpcHeader_field_def RpcNodeInfo_field_def bytes_field_def varint32_field_def float_field_def
      split: if_splits prod.splits option.splits)

context wire_format
begin

lemma RpcHeader_codec:
  "length (h_service_name h) < 2 ^ 31 \<Longrightarrow> length (h_method_name h) < 2 ^ 31 \<Longrightarrow>
   RpcHeader_ParseFromString lib (RpcHeader_SerializeAsString lib h) = h"
  using header.roundtrip [of "\<lparr>contents = h, unknown = []\<rparr>"]
  by (simp add: RpcHeader_ParseFromString_def RpcHeader_SerializeAsString_def RpcHeader_fits_def)

lemma RpcNodeInfo_codec: "RpcNodeInfo_ParseFromString lib (RpcNodeInfo_SerializeAsString lib i) = i"
  using node.roundtrip [of "\<lparr>contents = rpc_node_info.extend i \<lparr>cpu_util = 0, mem_util = 0\<rparr>, unknown = []\<rparr>"]
  by (cases i) (simp add: RpcNodeInfo_ParseFromString_def RpcNodeInfo_SerializeAsString_def RpcNodeInfo_fits_def
      rpc_node_info.extend_def rpc_node_info.truncate_def)

lemma header_size:
  "length (h_service_name h) < 2 ^ 31 \<Longrightarrow> length (h_method_name h) < 2 ^ 31 \<Longrightarrow>
   length (RpcHeader_SerializeAsString lib h) = RpcHeader_ByteSizeLong lib \<lparr>contents = h, unknown = []\<rparr>"
  using header.size [of "\<lparr>contents = h, unknown = []\<rparr>"] by (simp add: RpcHeader_SerializeAsString_def RpcHeader_fits_def)

end

text \<open>The facts of the two sublocales as facts of the format.\<close>

context wire_format
begin

lemmas header_parse_merges = header.parse_merges
lemmas header_sizes_add = header.sizes_add
lemmas header_roundtrip = header.roundtrip
lemmas node_roundtrip = node.roundtrip
lemmas node_size = node.size

end

lemma header_copies: "RpcHeader_fits a \<Longrightarrow> RpcHeader_CopyFrom m a = a \<and> RpcHeader_copy a = a"
  by (cases m; cases "contents m"; cases a; cases "contents a")
    (simp add: RpcHeader_CopyFrom_def RpcHeader_copy_def RpcHeader_defs Let_def set_when_def)

section \<open>Properties\<close>

text \<open>C28: the generated codec of the protobuf header. What \<open>_InternalSerialize\<close> writes for any messages, one
  behind the other, \<open>_InternalParse\<close> reads into a message as their merger in this order, fields with default
  values, which are not written, included; one message is read back as itself into a fresh message and by
  \<open>CopyFrom\<close>, and \<open>ByteSizeLong\<close> is the number of bytes written.\<close>

theorem header_codec_merges:
  assumes "wire_format lib" and "\<forall>a \<in> set as. RpcHeader_fits a"
  shows "RpcHeader_InternalParse lib m (concat (map (RpcHeader_InternalSerialize lib) as)) =
           Some (True, foldl RpcHeader_MergeImpl m as) \<and>
         length (concat (map (RpcHeader_InternalSerialize lib) as)) = sum_list (map (RpcHeader_ByteSizeLong lib) as) \<and>
         (\<forall>a \<in> set as. RpcHeader_InternalParse lib RpcHeader_SharedCtor (RpcHeader_InternalSerialize lib a) = Some (True, a) \<and>
            RpcHeader_CopyFrom m a = a \<and> RpcHeader_copy a = a)"
  using wire_format.header_parse_merges [OF assms] wire_format.header_sizes_add [OF assms]
    wire_format.header_roundtrip [OF assms(1)] header_copies assms(2) by blast

theorem header_codec_merges_witness:
  "RpcHeader_InternalParse wire_lib RpcHeader_SharedCtor [0x0a, 2, 85, 83, 0x12, 1, 76, 0x18, 0xac, 2] =
     Some (True, \<lparr>contents = \<lparr>h_service_name = [85, 83], h_method_name = [76], h_args_size = 300\<rparr>, unknown = []\<rparr>)"
proof -
  let ?a = "\<lparr>contents = \<lparr>h_service_name = [85, 83], h_method_name = [76], h_args_size = 300\<rparr>, unknown = []\<rparr>"
  have "\<forall>a \<in> set [?a]. RpcHeader_fits a" by (simp add: RpcHeader_fits_def)
  from conjunct2 [OF conjunct2 [OF header_codec_merges [OF wire.wire_format_axioms this]]]
  have "RpcHeader_InternalParse wire_lib RpcHeader_SharedCtor (RpcHeader_InternalSerialize wire_lib ?a) = Some (True, ?a)"
    by simp
  moreover have "RpcHeader_InternalSerialize wire_lib ?a = [0x0a, 2, 85, 83, 0x12, 1, 76, 0x18, 0xac, 2]"
    by code_simp
  ultimately show ?thesis by simp
qed

text \<open>The generated parsers end on every input, well-formed or not: each turn of the loop of
  \<open>_InternalParse\<close> takes at least one byte.\<close>

theorem message_parsers_end:
  assumes "wire_format lib"
  shows "(\<exists>r. RpcHeader_InternalParse lib m s = Some r) \<and> (\<exists>r. RpcNodeInfo_InternalParse lib n s = Some r)"
  unfolding RpcHeader_InternalParse_def RpcNodeInfo_InternalParse_def
  by (intro conjI wire_format.parse_fields_ends [OF assms] field_returns field_progress [OF assms]) assumption+

text \<open>C29: the generated codec of the node information, which the register publishes and the seeker reads: what
  is parsed is what was serialized, for all six fields, zeros included, and the size is right.\<close>

theorem node_codec_roundtrip:
  assumes "wire_format lib" and "unknown a = []"
  shows "RpcNodeInfo_InternalParse lib RpcNodeInfo_SharedCtor (RpcNodeInfo_InternalSerialize lib a) = Some (True, a) \<and>
         length (RpcNodeInfo_InternalSerialize lib a) = RpcNodeInfo_ByteSizeLong lib a"
  using wire_format.node_roundtrip [OF assms(1), of a] wire_format.node_size [OF assms(1), of a] assms(2)
  by (simp add: RpcNodeInfo_fits_def)

theorem message_parsers_end_witness:
  "RpcHeader_InternalParse wire_lib RpcHeader_SharedCtor [0x0a, 5, 85] =
     Some (False, \<lparr>contents = \<lparr>h_service_name = [], h_method_name = [], h_args_size = 0\<rparr>, unknown = []\<rparr>) \<and>
   (\<exists>r. RpcNodeInfo_InternalParse wire_lib RpcNodeInfo_SharedCtor [0xff] = Some r)"
proof -
  have "RpcHeader_InternalParse wire_lib RpcHeader_SharedCtor [0x0a, 5, 85] =
     Some (False, \<lparr>contents = \<lparr>h_service_name = [], h_method_name = [], h_args_size = 0\<rparr>, unknown = []\<rparr>)"
    unfolding RpcHeader_InternalParse_def
    by (subst parse_fields.simps)
      (simp add: wire_lib_def RpcHeader_field_def bytes_field_def read_delimited_def take_bytes_def RpcHeader_SharedCtor_def)
  with message_parsers_end [OF wire.wire_format_axioms, of RpcHeader_SharedCtor "[0xff]" RpcNodeInfo_SharedCtor]
  show ?thesis by blast
qed

theorem node_codec_roundtrip_witness:
  "\<exists>s. RpcNodeInfo_InternalParse wire_lib RpcNodeInfo_SharedCtor s =
     Some (True, \<lparr>contents = \<lparr>node_addr = 0x807f, node_port = 0, node_active_conn = 0, node_max_conn = 100,
       cpu_util = 0x3f800000, mem_util = 0\<rparr>, unknown = []\<rparr>)"
proof -
  let ?a = "\<lparr>contents = \<lparr>node_addr = 0x807f, node_port = 0, node_active_conn = 0, node_max_conn = 100,
       cpu_util = 0x3f800000, mem_util = 0\<rparr>, unknown = []\<rparr>"
  have u: "unknown ?a = []" by simp
  show ?thesis using node_codec_roundtrip [OF wire.wire_format_axioms u] by blast
qed

end
