(* ===== verification/Login_Example.thy ===== *)
theory Login_Example
  imports Pb_Codec Provider Service_Register
begin

text \<open>
  The example of the repository: the generated messages of example/user.pb.cc, the service of
  example/login_service.cc and the calls of example/callee and example/caller. The members of the message
  classes have the shapes of the theory Pb_Codec; \<open>LoginResponse\<close> holds a nested message.
\<close>

section \<open>ResultCode\<close>

record result_code =
  errmsg :: bytes
  errcode :: u32

definition ResultCode_SharedCtor :: "result_code pb_msg" where
  "ResultCode_SharedCtor = \<lparr>contents = \<lparr>errmsg = [], errcode = 0\<rparr>, unknown = []\<rparr>"

definition ResultCode_copy :: "result_code pb_msg \<Rightarrow> result_code pb_msg" where
  "ResultCode_copy from =
     \<lparr>contents = \<lparr>errmsg = (if errmsg (contents from) \<noteq> [] then errmsg (contents from) else []),
        errcode = errcode (contents from)\<rparr>, unknown = unknown from\<rparr>"

definition ResultCode_Clear :: "result_code pb_msg \<Rightarrow> result_code pb_msg" where
  "ResultCode_Clear m = m\<lparr>contents := (contents m)\<lparr>errmsg := [], errcode := 0\<rparr>, unknown := []\<rparr>"

definition ResultCode_field :: "pb_library \<Rightarrow> u32 \<Rightarrow> bytes \<Rightarrow> result_code \<Rightarrow> result_code field_end" where
  "ResultCode_field lib tag =
     (if drop_bit 3 tag = 1 then varint32_field lib 8 (\<lambda>v m. m\<lparr>errcode := v\<rparr>) tag
      else if drop_bit 3 tag = 2 then bytes_field lib 18 (\<lambda>s m. m\<lparr>errmsg := s\<rparr>) tag
      else (\<lambda>p m. Unusual))"

definition ResultCode_InternalParse :: "pb_library \<Rightarrow> result_code pb_msg \<Rightarrow> bytes \<Rightarrow> (bool \<times> result_code pb_msg) option" where
  "ResultCode_InternalParse lib = parse_fields lib (ResultCode_field lib)"

definition ResultCode_InternalSerialize :: "pb_library \<Rightarrow> result_code pb_msg \<Rightarrow> bytes" where
  "ResultCode_InternalSerialize lib m = int32_out lib 1 (errcode (contents m)) @ bytes_out lib 2 (errmsg (contents m)) @ unknown m"

definition ResultCode_ByteSizeLong :: "pb_library \<Rightarrow> result_code pb_msg \<Rightarrow> nat" where
  "ResultCode_ByteSizeLong lib m = with_unknown (bytes_size lib (errmsg (contents m)) + int32_size lib (errcode (contents m))) m"

definition ResultCode_MergeImpl :: "result_code pb_msg \<Rightarrow> result_code pb_msg \<Rightarrow> result_code pb_msg" where
  "ResultCode_MergeImpl m from =
     (let f = contents from;
          m1 = set_when (errmsg f \<noteq> []) (\<lambda>c. c\<lparr>errmsg := errmsg f\<rparr>) m;
          m2 = set_when (errcode f \<noteq> 0) (\<lambda>c. c\<lparr>errcode := errcode f\<rparr>) m1
      in m2\<lparr>unknown := unknown m2 @ unknown from\<rparr>)"

definition ResultCode_CopyFrom :: "result_code pb_msg \<Rightarrow> result_code pb_msg \<Rightarrow> result_code pb_msg" where
  "ResultCode_CopyFrom m from = ResultCode_MergeImpl (ResultCode_Clear m) from"

definition ResultCode_fits :: "result_code pb_msg \<Rightarrow> bool" where
  "ResultCode_fits m \<longleftrightarrow> length (errmsg (contents m)) < 2 ^ 31 \<and> unknown m = []"

lemma ResultCode_fields:
  "ResultCode_field lib 8 p c = varint32_field lib 8 (\<lambda>v m. m\<lparr>errcode := v\<rparr>) 8 p c"
  "ResultCode_field lib 18 p c = bytes_field lib 18 (\<lambda>s m. m\<lparr>errmsg := s\<rparr>) 18 p c"
  by (simp_all add: ResultCode_field_def)

text \<open>The serializer writes the fields in the order of their numbers, \<open>MergeImpl\<close> in the order of the class.\<close>

lemma set_when_swap:
  "set_when x (\<lambda>c. c\<lparr>errcode := v\<rparr>) (set_when y (\<lambda>c. c\<lparr>errmsg := s\<rparr>) m) =
   set_when y (\<lambda>c. c\<lparr>errmsg := s\<rparr>) (set_when x (\<lambda>c. c\<lparr>errcode := v\<rparr>) m)"
  by (cases m; cases "contents m") (simp add: set_when_def)

context wire_format
begin

lemma ResultCode_parse_ser:
  assumes "ResultCode_fits a"
  shows "ResultCode_InternalParse lib m (ResultCode_InternalSerialize lib a @ r) =
         ResultCode_InternalParse lib (ResultCode_MergeImpl m a) r"
proof -
  note a = assms [unfolded ResultCode_fits_def]
  note f1 = parse_int32 [of 1 8 8 "ResultCode_field lib", OF _ _ _ _ ResultCode_fields(1)]
  note f2 = parse_bytes [of 2 _ 18 18 "ResultCode_field lib", OF _ _ _ _ _ ResultCode_fields(2)]
  show ?thesis
    using a by (simp add: ResultCode_InternalParse_def ResultCode_InternalSerialize_def f1 f2 ResultCode_MergeImpl_def
        Let_def set_when_swap del: One_nat_def)
qed

end

sublocale wire_format \<subseteq> result: pb_message ResultCode_SharedCtor "ResultCode_InternalSerialize lib" "ResultCode_InternalParse lib"
  ResultCode_MergeImpl "ResultCode_ByteSizeLong lib" ResultCode_fits
proof unfold_locales
  show "ResultCode_InternalParse lib m [] = Some (True, m)" for m
    unfolding ResultCode_InternalParse_def by (subst parse_fields.simps) simp
  show "ResultCode_MergeImpl ResultCode_SharedCtor a = a" if "ResultCode_fits a" for a
    using that by (cases a; cases "contents a")
      (simp add: ResultCode_MergeImpl_def ResultCode_SharedCtor_def ResultCode_fits_def Let_def set_when_def)
  show "ResultCode_ByteSizeLong lib a = length (ResultCode_InternalSerialize lib a)" if "ResultCode_fits a" for a
    using that by (simp add: ResultCode_ByteSizeLong_def ResultCode_InternalSerialize_def with_unknown_def out_sizes)
qed (rule ResultCode_parse_ser)

section \<open>LoginRequest\<close>

record login_request =
  name :: bytes
  pwd :: bytes

definition LoginRequest_SharedCtor :: "login_request pb_msg" where
  "LoginRequest_SharedCtor = \<lparr>contents = \<lparr>name = [], pwd = []\<rparr>, unknown = []\<rparr>"

definition LoginRequest_copy :: "login_request pb_msg \<Rightarrow> login_request pb_msg" where
  "LoginRequest_copy from =
     \<lparr>contents = \<lparr>name = (if name (contents from) \<noteq> [] then name (contents from) else []),
        pwd = (if pwd (contents from) \<noteq> [] then pwd (contents from) else [])\<rparr>, unknown = unknown from\<rparr>"

definition LoginRequest_Clear :: "login_request pb_msg \<Rightarrow> login_request pb_msg" where
  "LoginRequest_Clear m = m\<lparr>contents := (contents m)\<lparr>name := [], pwd := []\<rparr>, unknown := []\<rparr>"

definition LoginRequest_field :: "pb_library \<Rightarrow> u32 \<Rightarrow> bytes \<Rightarrow> login_request \<Rightarrow> login_request field_end" where
  "LoginRequest_field lib tag =
     (if drop_bit 3 tag = 1 then bytes_field lib 10 (\<lambda>s m. m\<lparr>name := s\<rparr>) tag
      else if drop_bit 3 tag = 2 then bytes_field lib 18 (\<lambda>s m. m\<lparr>pwd := s\<rparr>) tag
      else (\<lambda>p m. Unusual))"

definition LoginRequest_InternalParse :: "pb_library \<Rightarrow> login_request pb_msg \<Rightarrow> bytes \<Rightarrow> (bool \<times> login_request pb_msg) option" where
  "LoginRequest_InternalParse lib = parse_fields lib (LoginRequest_field lib)"

definition LoginRequest_InternalSerialize :: "pb_library \<Rightarrow> login_request pb_msg \<Rightarrow> bytes" where
  "LoginRequest_InternalSerialize lib m = bytes_out lib 1 (name (contents m)) @ bytes_out lib 2 (pwd (contents m)) @ unknown m"

definition LoginRequest_ByteSizeLong :: "pb_library \<Rightarrow> login_request pb_msg \<Rightarrow> nat" where
  "LoginRequest_ByteSizeLong lib m = with_unknown (bytes_size lib (name (contents m)) + bytes_size lib (pwd (contents m))) m"

definition LoginRequest_MergeImpl :: "login_request pb_msg \<Rightarrow> login_request pb_msg \<Rightarrow> login_request pb_msg" where
  "LoginRequest_MergeImpl m from =
     (let f = contents from;
          m1 = set_when (name f \<noteq> []) (\<lambda>c. c\<lparr>name := name f\<rparr>) m;
          m2 = set_when (pwd f \<noteq> []) (\<lambda>c. c\<lparr>pwd := pwd f\<rparr>) m1
      in m2\<lparr>unknown := unknown m2 @ unknown from\<rparr>)"

definition LoginRequest_CopyFrom :: "login_request pb_msg \<Rightarrow> login_request pb_msg \<Rightarrow> login_request pb_msg" where
  "LoginRequest_CopyFrom m from = LoginRequest_MergeImpl (LoginRequest_Clear m) from"

definition LoginRequest_fits :: "login_request pb_msg \<Rightarrow> bool" where
  "LoginRequest_fits m \<longleftrightarrow> length (name (contents m)) < 2 ^ 31 \<and> length (pwd (contents m)) < 2 ^ 31 \<and> unknown m = []"

lemma LoginRequest_fields:
  "LoginRequest_field lib 10 p c = bytes_field lib 10 (\<lambda>s m. m\<lparr>name := s\<rparr>) 10 p c"
  "LoginRequest_field lib 18 p c = bytes_field lib 18 (\<lambda>s m. m\<lparr>pwd := s\<rparr>) 18 p c"
  by (simp_all add: LoginRequest_field_def)

context wire_format
begin

lemma LoginRequest_parse_ser:
  assumes "LoginRequest_fits a"
  shows "LoginRequest_InternalParse lib m (LoginRequest_InternalSerialize lib a @ r) =
         LoginRequest_InternalParse lib (LoginRequest_MergeImpl m a) r"
proof -
  note a = assms [unfolded LoginRequest_fits_def]
  note f1 = parse_bytes [of 1 _ 10 10 "LoginRequest_field lib", OF _ _ _ _ _ LoginRequest_fields(1)]
  note f2 = parse_bytes [of 2 _ 18 18 "LoginRequest_field lib", OF _ _ _ _ _ LoginRequest_fields(2)]
  show ?thesis
    using a by (simp add: LoginRequest_InternalParse_def LoginRequest_InternalSerialize_def f1 f2 LoginRequest_MergeImpl_def
        Let_def del: One_nat_def)
qed

end

sublocale wire_format \<subseteq> request: pb_message LoginRequest_SharedCtor "LoginRequest_InternalSerialize lib" "LoginRequest_InternalParse lib"
  LoginRequest_MergeImpl "LoginRequest_ByteSizeLong lib" LoginRequest_fits
proof unfold_locales
  show "LoginRequest_InternalParse lib m [] = Some (True, m)" for m
    unfolding LoginRequest_InternalParse_def by (subst parse_fields.simps) simp
  show "LoginRequest_MergeImpl LoginRequest_SharedCtor a = a" if "LoginRequest_fits a" for a
    using that by (cases a; cases "contents a")
      (simp add: LoginRequest_MergeImpl_def LoginRequest_SharedCtor_def LoginRequest_fits_def Let_def set_when_def)
  show "LoginRequest_ByteSizeLong lib a = length (LoginRequest_InternalSerialize lib a)" if "LoginRequest_fits a" for a
    using that by (simp add: LoginRequest_ByteSizeLong_def LoginRequest_InternalSerialize_def with_unknown_def out_sizes)
qed (rule LoginRequest_parse_ser)

section \<open>LoginResponse\<close>

record login_response =
  result :: "result_code pb_msg option"
  success :: bool

definition LoginResponse_SharedCtor :: "login_response pb_msg" where
  "LoginResponse_SharedCtor = \<lparr>contents = \<lparr>result = None, success = False\<rparr>, unknown = []\<rparr>"

definition LoginResponse_copy :: "login_response pb_msg \<Rightarrow> login_response pb_msg" where
  "LoginResponse_copy from =
     \<lparr>contents = \<lparr>result = (case result (contents from) of None \<Rightarrow> None | Some rc \<Rightarrow> Some (ResultCode_copy rc)),
        success = success (contents from)\<rparr>, unknown = unknown from\<rparr>"

definition LoginResponse_Clear :: "login_response pb_msg \<Rightarrow> login_response pb_msg" where
  "LoginResponse_Clear m = m\<lparr>contents := (contents m)\<lparr>result := None, success := False\<rparr>, unknown := []\<rparr>"

text \<open>\<open>mutable_result\<close> makes the nested message when there is none. \<open>ParseMessage\<close> parses into it.\<close>

definition mutable_result :: "login_response \<Rightarrow> result_code pb_msg" where
  "mutable_result m = (case result m of None \<Rightarrow> ResultCode_SharedCtor | Some rc \<Rightarrow> rc)"

definition result_field :: "pb_library \<Rightarrow> u32 \<Rightarrow> bytes \<Rightarrow> login_response \<Rightarrow> login_response field_end" where
  "result_field lib tag p m =
     (if (ucast tag :: u8) = 10 then
        (case ReadDelimited lib p of
           None \<Rightarrow> Failure (m\<lparr>result := Some (mutable_result m)\<rparr>)
         | Some (s, p') \<Rightarrow>
             (case ResultCode_InternalParse lib (mutable_result m) s of
                None \<Rightarrow> Endless
              | Some (True, rc) \<Rightarrow> Field_Read (m\<lparr>result := Some rc\<rparr>) p'
              | Some (False, rc) \<Rightarrow> Failure (m\<lparr>result := Some rc\<rparr>)))
      else Unusual)"

definition LoginResponse_field :: "pb_library \<Rightarrow> u32 \<Rightarrow> bytes \<Rightarrow> login_response \<Rightarrow> login_response field_end" where
  "LoginResponse_field lib tag =
     (if drop_bit 3 tag = 1 then result_field lib tag
      else if drop_bit 3 tag = 2 then bool_field lib 16 (\<lambda>b m. m\<lparr>success := b\<rparr>) tag
      else (\<lambda>p m. Unusual))"

definition LoginResponse_InternalParse :: "pb_library \<Rightarrow> login_response pb_msg \<Rightarrow> bytes \<Rightarrow> (bool \<times> login_response pb_msg) option" where
  "LoginResponse_InternalParse lib = parse_fields lib (LoginResponse_field lib)"

text \<open>\<open>GetCachedSize\<close> is the size that \<open>ByteSizeLong\<close> has computed before.\<close>

definition LoginResponse_InternalSerialize :: "pb_library \<Rightarrow> login_response pb_msg \<Rightarrow> bytes" where
  "LoginResponse_InternalSerialize lib m =
     (case result (contents m) of
        None \<Rightarrow> []
      | Some rc \<Rightarrow> WriteMessage lib 1 (ResultCode_ByteSizeLong lib rc) (ResultCode_InternalSerialize lib rc)) @
     (if success (contents m) then WriteBool lib 2 (success (contents m)) else []) @ unknown m"

definition LoginResponse_ByteSizeLong :: "pb_library \<Rightarrow> login_response pb_msg \<Rightarrow> nat" where
  "LoginResponse_ByteSizeLong lib m =
     with_unknown ((case result (contents m) of None \<Rightarrow> 0 | Some rc \<Rightarrow> 1 + MessageSize lib (ResultCode_ByteSizeLong lib rc)) +
       (if success (contents m) then 1 + 1 else 0)) m"

definition LoginResponse_MergeImpl :: "login_response pb_msg \<Rightarrow> login_response pb_msg \<Rightarrow> login_response pb_msg" where
  "LoginResponse_MergeImpl m from =
     (let f = contents from;
          m1 = (case result f of None \<Rightarrow> m
                | Some rc \<Rightarrow> m\<lparr>contents := (contents m)\<lparr>result := Some (ResultCode_MergeImpl (mutable_result (contents m)) rc)\<rparr>\<rparr>);
          m2 = set_when (success f) (\<lambda>c. c\<lparr>success := success f\<rparr>) m1
      in m2\<lparr>unknown := unknown m2 @ unknown from\<rparr>)"

definition LoginResponse_CopyFrom :: "login_response pb_msg \<Rightarrow> login_response pb_msg \<Rightarrow> login_response pb_msg" where
  "LoginResponse_CopyFrom m from = LoginResponse_MergeImpl (LoginResponse_Clear m) from"

definition LoginResponse_fits :: "pb_library \<Rightarrow> login_response pb_msg \<Rightarrow> bool" where
  "LoginResponse_fits lib m \<longleftrightarrow> unknown m = [] \<and>
     (case result (contents m) of None \<Rightarrow> True
      | Some rc \<Rightarrow> ResultCode_fits rc \<and> length (ResultCode_InternalSerialize lib rc) < 2 ^ 31)"

context wire_format
begin

lemma result_read_back:
  assumes "ResultCode_fits rc" and "ReadDelimited lib p = Some (ResultCode_InternalSerialize lib rc, r)"
  shows "LoginResponse_field lib 10 p c = Field_Read (c\<lparr>result := Some (ResultCode_MergeImpl (mutable_result c) rc)\<rparr>) r"
proof -
  have "ResultCode_InternalParse lib m (ResultCode_InternalSerialize lib rc) = Some (True, ResultCode_MergeImpl m rc)" for m
    using result.copies [OF assms(1)] by blast
  with assms(2) show ?thesis by (simp add: LoginResponse_field_def result_field_def)
qed

lemma LoginResponse_parse_ser:
  assumes "LoginResponse_fits lib a"
  shows "LoginResponse_InternalParse lib m (LoginResponse_InternalSerialize lib a @ r) =
         LoginResponse_InternalParse lib (LoginResponse_MergeImpl m a) r"
proof -
  let ?f = "LoginResponse_field lib"
  have "LoginResponse_field lib 16 p c = bool_field lib 16 (\<lambda>b m. m\<lparr>success := b\<rparr>) 16 p c" for p c
    by (simp add: LoginResponse_field_def)
  note f2 = parse_bool [of 2 16 16 ?f, OF _ _ _ _ this]
  have f1: "parse_fields lib ?f n (WriteMessage lib 1 (ResultCode_ByteSizeLong lib rc) (ResultCode_InternalSerialize lib rc) @ s) =
      parse_fields lib ?f (n\<lparr>contents := (contents n)\<lparr>result := Some (ResultCode_MergeImpl (mutable_result (contents n)) rc)\<rparr>\<rparr>) s"
    if "ResultCode_fits rc" "length (ResultCode_InternalSerialize lib rc) < 2 ^ 31" for rc n s
    unfolding result.size [OF that(1)]
    by (rule parse_message [where t = 10]) (use that result_read_back [OF that(1)] in simp_all)
  show ?thesis
    using assms f1 f2
    by (auto simp: LoginResponse_InternalParse_def LoginResponse_InternalSerialize_def LoginResponse_MergeImpl_def
        LoginResponse_fits_def Let_def set_when_def split: option.split simp del: One_nat_def)
qed

end

sublocale wire_format \<subseteq> response: pb_message LoginResponse_SharedCtor "LoginResponse_InternalSerialize lib"
  "LoginResponse_InternalParse lib" LoginResponse_MergeImpl "LoginResponse_ByteSizeLong lib" "LoginResponse_fits lib"
proof unfold_locales
  show "LoginResponse_InternalParse lib m [] = Some (True, m)" for m
    unfolding LoginResponse_InternalParse_def by (subst parse_fields.simps) simp
  show "LoginResponse_MergeImpl LoginResponse_SharedCtor a = a" if "LoginResponse_fits lib a" for a
    using that result.merge_new by (cases a; cases "contents a")
      (auto simp: LoginResponse_MergeImpl_def LoginResponse_SharedCtor_def LoginResponse_fits_def mutable_result_def Let_def
        set_when_def split: option.splits)
  show "LoginResponse_ByteSizeLong lib a = length (LoginResponse_InternalSerialize lib a)" if "LoginResponse_fits lib a" for a
    using that result.size sizes(4) [of 2] sizes(6) [of 1]
    by (auto simp: LoginResponse_ByteSizeLong_def LoginResponse_InternalSerialize_def with_unknown_def LoginResponse_fits_def
        split: option.splits)
qed (rule LoginResponse_parse_ser)

section \<open>The service\<close>

text \<open>\<open>LoginService::Login(std::string, std::string)\<close> accepts everybody; the rpc method wraps its answer.\<close>

definition Login :: "bytes \<Rightarrow> bytes \<Rightarrow> bool" where
  "Login nm psw = True"

definition login_answer :: "bool \<Rightarrow> login_response pb_msg \<Rightarrow> login_response pb_msg" where
  "login_answer res_code response =
     (let rc = mutable_result (contents response);
          rc1 = rc\<lparr>contents := (contents rc)\<lparr>errcode := (if res_code then 1 else 0)\<rparr>\<rparr>;
          rc2 = rc1\<lparr>contents := (contents rc1)\<lparr>errmsg := bytes_of (if res_code then ''success'' else ''fail'')\<rparr>\<rparr>
      in response\<lparr>contents := (contents response)\<lparr>result := Some rc2, success := res_code\<rparr>\<rparr>)"

definition LoginService_Login :: "login_request pb_msg \<Rightarrow> login_response pb_msg \<Rightarrow> login_response pb_msg" where
  "LoginService_Login request response =
     (let nm = name (contents request); password = pwd (contents request)
      in login_answer (Login nm password) response)"

text \<open>\<open>UserServiceRpc::CallMethod\<close> by the index of the method; another index is a fatal error, which aborts.\<close>

definition UserServiceRpc_CallMethod ::
  "nat \<Rightarrow> login_request pb_msg \<Rightarrow> login_response pb_msg \<Rightarrow> login_response pb_msg cxx" where
  "UserServiceRpc_CallMethod method_index request response =
     (if method_index = 0 then Inr (LoginService_Login request response) else Inl Assert_Failed)"

definition LoginRequest_ParseFromString :: "pb_library \<Rightarrow> bytes \<Rightarrow> login_request pb_msg" where
  "LoginRequest_ParseFromString lib s =
     (case LoginRequest_InternalParse lib LoginRequest_SharedCtor s of Some (ok, m) \<Rightarrow> m | None \<Rightarrow> LoginRequest_SharedCtor)"

text \<open>
  The service as \<open>Notify\<close> gets it: the descriptor's names and indices, and for a call the request parsed from
  the arguments, whatever they are, and the answer serialized.
\<close>

definition login_service :: "pb_library \<Rightarrow> nat service" where
  "login_service lib =
     \<lparr>svc_name = bytes_of ''UserServiceRpc'', svc_methods = [(bytes_of ''Login'', 0)],
      svc_call = (\<lambda>i args.
        case UserServiceRpc_CallMethod i (LoginRequest_ParseFromString lib args) LoginResponse_SharedCtor of
          Inr response \<Rightarrow> LoginResponse_InternalSerialize lib response | Inl e \<Rightarrow> [])\<rparr>"

text \<open>The answers and their sizes.\<close>

lemma login_answer_new:
  "login_answer b LoginResponse_SharedCtor =
     \<lparr>contents = \<lparr>result = Some \<lparr>contents = \<lparr>errmsg = bytes_of (if b then ''success'' else ''fail''), errcode = if b then 1 else 0\<rparr>,
        unknown = []\<rparr>, success = b\<rparr>, unknown = []\<rparr>"
  by (simp add: login_answer_def LoginResponse_SharedCtor_def mutable_result_def ResultCode_SharedCtor_def Let_def)

context wire_format
begin

lemma login_answer_size:
  "LoginResponse_fits lib (login_answer b LoginResponse_SharedCtor)"
  "length (LoginResponse_InternalSerialize lib (login_answer b LoginResponse_SharedCtor)) = (if b then 15 else 8)"
proof -
  let ?rc = "\<lparr>contents = \<lparr>errmsg = bytes_of (if b then ''success'' else ''fail''), errcode = if b then 1 else 0\<rparr>, unknown = []\<rparr>"
  have f: "ResultCode_fits ?rc" by (simp add: ResultCode_fits_def bytes_of_def)
  have s: "ResultCode_ByteSizeLong lib ?rc = (if b then 11 else 6)"
    by (simp add: ResultCode_ByteSizeLong_def with_unknown_def bytes_size_def int32_size_def small_sizes bytes_of_def)
  have l: "length (ResultCode_InternalSerialize lib ?rc) = (if b then 11 else 6)" using result.size [OF f] s by simp
  show fits: "LoginResponse_fits lib (login_answer b LoginResponse_SharedCtor)"
    using f l by (simp add: login_answer_new LoginResponse_fits_def split: if_splits)
  show "length (LoginResponse_InternalSerialize lib (login_answer b LoginResponse_SharedCtor)) = (if b then 15 else 8)"
    unfolding response.size [OF fits, symmetric]
    using s by (simp add: login_answer_new LoginResponse_ByteSizeLong_def with_unknown_def small_sizes split: if_splits)
qed

lemmas response_roundtrip = response.roundtrip
lemmas login_request_roundtrip = request.roundtrip

text \<open>The protobuf header of a login call is short.\<close>

lemma login_header:
  assumes "length args < 2 ^ 16"
  shows "sendable (RpcHeader_SerializeAsString lib) (RpcHeader_ParseFromString lib)
     (call_request (bytes_of ''UserServiceRpc'') (bytes_of ''Login'') args)"
proof -
  let ?h = "header_of (call_request (bytes_of ''UserServiceRpc'') (bytes_of ''Login'') args)"
  have h: "length (h_service_name ?h) = 14" "length (h_method_name ?h) = 5"
    by (simp_all add: call_request_def bytes_of_def)
  then have "bytes_size lib (h_service_name ?h) = 16" "bytes_size lib (h_method_name ?h) = 7"
    by (auto simp: bytes_size_def small_sizes)
  moreover have "uint32_size lib (h_args_size ?h) \<le> 6" by (simp add: uint32_size_def small_sizes)
  ultimately have "RpcHeader_ByteSizeLong lib \<lparr>contents = ?h, unknown = []\<rparr> < 2 ^ 16"
    by (simp add: RpcHeader_ByteSizeLong_def with_unknown_def)
  with header_size [of ?h] RpcHeader_codec [of ?h] h assms show ?thesis
    by (simp add: sendable_def call_request_def)
qed

end

section \<open>Properties\<close>



section \<open>The configuration files\<close>

text \<open>The texts of client.config and gcrpc.config, line by line; neither ends with a newline.\<close>

definition config_text :: "string list \<Rightarrow> string" where
  "config_text ls = concat (map (\<lambda>l. l @ [CHR 0x0A]) (butlast ls)) @ last ls"

definition client_config :: string where
  "client_config = config_text [
     ''# network addr'', ''client_ip = 127.0.0.1'', ''port = 1214'', '''',
     ''# about protocal version'', ''protocal_name = gcrpc  # only gcrpc or http is supported right now'',
     ''protocal_version = 1.0.0'', '''',
     ''# LoadBalancer has 3 types: random, robin, score'', ''load_balancer = score'']"

definition gcrpc_config :: string where
  "gcrpc_config = config_text [
     ''# io_uring params'', ''sq_entries = 1024'',
     ''cq_entries = 2048  # cq_entries is set at least 2 * sq_entries in io_uring by default'',
     ''origin_channel_size = 64'', '''',
     ''# network addr'', ''client_ip = 127.0.0.1'', ''port = 1214'', ''max_conn = 8196'', '''',
     ''# about message queue'', ''feedback_bulk_size = 1024'', ''worker_thread = 4;'', '''',
     ''# about cache length'', ''max_buffer_size = 1024;'', '''',
     ''# about protocal version'', ''protocal_name = gcrpc  # only gcrpc or http is supported right now'',
     ''protocal_version = 1.0.0'', '''',
     ''# etcd_client'', ''etcd_addr = http://127.0.0.1:2379'', ''ttl = 20   # 20s for lease'']"

lemma client_config_loads:
  "(\<lambda>(r, m). (r, map (load_int m) [''port'', ''max_buffer_size''], Load m ''client_ip'')) (LoadConfigFile client_config Map.empty) =
     (Inr (), [Inr 1214, Inl Invalid_Argument], ''127.0.0.1'')"
  by code_simp

lemma gcrpc_config_loads:
  "(\<lambda>(r, m). (r, read_settings m)) (LoadConfigFile gcrpc_config Map.empty) =
     (Inr (), Inr \<lparr>s_ttl = 20, s_sq_entries = 1024, s_port = 1214, s_worker_thread = 4, s_max_conn = 8196\<rparr>)"
  by code_simp

text \<open>The example with the configuration files of the repository. The provider finds its settings, semicolons
  and comments included, and the caller connects to its port; but client.config has no max_buffer_size, so
  the first call throws after the request was sent, and no response is ever read.\<close>

theorem example_configuration:
  "\<exists>cfg scfg. LoadConfigFile client_config Map.empty = (Inr (), cfg) \<and> LoadConfigFile gcrpc_config Map.empty = (Inr (), scfg) \<and>
     read_settings scfg = Inr \<lparr>s_ttl = 20, s_sq_entries = 1024, s_port = 1214, s_worker_thread = 4, s_max_conn = 8196\<rparr> \<and>
     RpcCaller inet cfg (replicate n (-1) @ [0]) = Some (Inr ((inet ''127.0.0.1'', htons 1214), Suc n)) \<and>
     CallMethod cfg sent recvd = (if sent \<le> 0 then Inr None else Inl Invalid_Argument)"
proof -
  obtain r cfg where c: "LoadConfigFile client_config Map.empty = (r, cfg)" by fastforce
  obtain r' scfg where s: "LoadConfigFile gcrpc_config Map.empty = (r', scfg)" by fastforce
  have f: "r = Inr ()" "load_int cfg ''port'' = Inr 1214" "load_int cfg ''max_buffer_size'' = Inl Invalid_Argument"
    "Load cfg ''client_ip'' = ''127.0.0.1''"
    using client_config_loads unfolding c by simp_all
  have g: "r' = Inr ()" "read_settings scfg = Inr \<lparr>s_ttl = 20, s_sq_entries = 1024, s_port = 1214, s_worker_thread = 4, s_max_conn = 8196\<rparr>"
    using gcrpc_config_loads unfolding s by simp_all
  have "connect_loop (replicate n (-1) @ [0]) m = Some (Suc (m + n))" for m
    by (induction n arbitrary: m) simp_all
  with f have "RpcCaller inet cfg (replicate n (-1) @ [0]) = Some (Inr ((inet ''127.0.0.1'', htons 1214), Suc n))"
    by (simp add: RpcCaller_def)
  with c s f g show ?thesis by (simp add: CallMethod_def)
qed

end
