(* ===== verification/Application.thy ===== *)
theory Application
  imports Config
begin

text \<open>
  The application singleton (include/Rpc/gcrpcapplication.h, src/Rpc/gcrpcapplication.cc): the command line
  and the configuration it names. What \<open>getopt(argc, argv, "i:")\<close> returns until it returns -1 is the
  argument \<open>opts\<close>, each character with \<open>optarg\<close>; the file system is a partial function from paths to
  contents. \<open>None\<close> is \<open>exit(EXIT_FAILURE)\<close>. Output on the console is not modelled.
\<close>

section \<open>Operations\<close>

text \<open>\<open>GcRpcConfig::LoadConfigFile\<close> with the opening of the file.\<close>

definition open_and_load ::
  "(string \<rightharpoonup> string) \<Rightarrow> string \<Rightarrow> (string \<rightharpoonup> string) \<Rightarrow> (unit cxx \<times> (string \<rightharpoonup> string)) option" where
  "open_and_load files config_file m =
     (case files config_file of
        None \<Rightarrow> None
      | Some file_text \<Rightarrow> Some (LoadConfigFile file_text m))"

text \<open>The loop over the options: every character but \<open>i\<close> ends the program.\<close>

fun option_loop :: "(char \<times> string) list \<Rightarrow> string \<Rightarrow> string option" where
  "option_loop [] config_file = Some config_file"
| "option_loop ((c, optarg) # opts) config_file =
     (if c = CHR ''i'' then option_loop opts optarg else None)"

definition Init ::
  "(string \<rightharpoonup> string) \<Rightarrow> int \<Rightarrow> (char \<times> string) list \<Rightarrow> (string \<rightharpoonup> string) \<Rightarrow>
     (unit cxx \<times> (string \<rightharpoonup> string)) option" where
  "Init files argc opts m =
     (if argc < 2 then None
      else case option_loop opts [] of
             None \<Rightarrow> None
           | Some config_file \<Rightarrow> open_and_load files config_file m)"

section \<open>Properties\<close>

lemma option_loop_eq:
  "option_loop opts f = (if \<forall>o' \<in> set opts. fst o' = CHR ''i'' then Some (last (f # map snd opts)) else None)"
  by (induction opts f rule: option_loop.induct) auto

text \<open>The program starts exactly when it has an argument, every option is \<open>-i\<close>, and the file of the
  last one can be opened (without any option the empty path); then the settings are what this file
  says, read on top of what was there. In every other case the process exits.\<close>

theorem init_loads_last_file:
  "Init files argc opts m =
     (if argc < 2 \<or> (\<exists>o' \<in> set opts. fst o' \<noteq> CHR ''i'') then None
      else map_option (\<lambda>file_text. LoadConfigFile file_text m) (files (last ([] # map snd opts))))"
  by (auto simp: Init_def option_loop_eq open_and_load_def split: option.splits)

end
