(* ===== verification/Rb_Tree.thy ===== *)
theory Rb_Tree
  imports Prelude "HOL-Library.Tree"
begin

text \<open>
  include/data_structure/rbtree.h: a red-black tree of nodes linked by \<open>parent\<close>, \<open>left\<close> and \<open>right\<close>
  pointers, with one sentinel node \<open>_nil\<close>. The heap is kept field by field (each field a function of the
  node's address; the sentinel has address 0). A shape, a \<open>tree\<close> of addresses, says what the pointers
  represent; a position in it is a subtree with the list of frames above it, which is how the loops of
  the code move.
\<close>

section \<open>Nodes\<close>

datatype color = Black | Red

record ('k, 'v) rbtree =
  root :: nat
  parent :: "nat \<Rightarrow> nat"
  left :: "nat \<Rightarrow> nat"
  right :: "nat \<Rightarrow> nat"
  key :: "nat \<Rightarrow> 'k"
  val :: "nat \<Rightarrow> 'v"
  color :: "nat \<Rightarrow> color"
  next_node :: nat
  deleted :: "nat list"

abbreviation nil :: nat where "nil \<equiv> 0"

definition set_parent :: "nat \<Rightarrow> nat \<Rightarrow> ('k, 'v) rbtree \<Rightarrow> ('k, 'v) rbtree" where
  "set_parent x p t = t\<lparr>parent := (parent t)(x := p)\<rparr>"
definition set_left :: "nat \<Rightarrow> nat \<Rightarrow> ('k, 'v) rbtree \<Rightarrow> ('k, 'v) rbtree" where
  "set_left x p t = t\<lparr>left := (left t)(x := p)\<rparr>"
definition set_right :: "nat \<Rightarrow> nat \<Rightarrow> ('k, 'v) rbtree \<Rightarrow> ('k, 'v) rbtree" where
  "set_right x p t = t\<lparr>right := (right t)(x := p)\<rparr>"
definition set_color :: "nat \<Rightarrow> color \<Rightarrow> ('k, 'v) rbtree \<Rightarrow> ('k, 'v) rbtree" where
  "set_color x c t = t\<lparr>color := (color t)(x := c)\<rparr>"
definition set_root :: "nat \<Rightarrow> ('k, 'v) rbtree \<Rightarrow> ('k, 'v) rbtree" where
  "set_root x t = t\<lparr>root := x\<rparr>"

lemmas setters = set_parent_def set_left_def set_right_def set_color_def set_root_def

text \<open>A new tree: the sentinel is value-initialised (its key and value are the types' defaults \<open>dk\<close> and \<open>dv\<close>).\<close>

definition new_rbtree :: "'k \<Rightarrow> 'v \<Rightarrow> ('k, 'v) rbtree" where
  "new_rbtree dk dv =
     \<lparr>root = nil, parent = (\<lambda>_. nil), left = (\<lambda>_. nil), right = (\<lambda>_. nil), key = (\<lambda>_. dk), val = (\<lambda>_. dv),
      color = (\<lambda>_. Black), next_node = 1, deleted = []\<rparr>"

text \<open>\<open>new Node({l, r, p, key, value, color})\<close> with the three links set to \<open>p\<close>, \<open>l\<close> and \<open>r\<close>.\<close>

definition new_node :: "nat \<Rightarrow> nat \<Rightarrow> nat \<Rightarrow> 'k \<Rightarrow> 'v \<Rightarrow> color \<Rightarrow> ('k, 'v) rbtree \<Rightarrow> nat \<times> ('k, 'v) rbtree" where
  "new_node p l r k v c t =
     (let z = next_node t
      in (z, t\<lparr>parent := (parent t)(z := p), left := (left t)(z := l), right := (right t)(z := r),
               key := (key t)(z := k), val := (val t)(z := v), color := (color t)(z := c), next_node := Suc z\<rparr>))"

section \<open>Rotations\<close>

text \<open>The link that led to \<open>x\<close> leads to \<open>y\<close>: the root, or one of the two links of the parent of \<open>x\<close>.\<close>

definition replace_child :: "nat \<Rightarrow> nat \<Rightarrow> ('k, 'v) rbtree \<Rightarrow> ('k, 'v) rbtree" where
  "replace_child x y t =
     (if parent t x = nil then set_root y t
      else if x = left t (parent t x) then set_left (parent t x) y t
      else set_right (parent t x) y t)"

definition left_rotate :: "nat \<Rightarrow> ('k, 'v) rbtree \<Rightarrow> ('k, 'v) rbtree" where
  "left_rotate x t =
     (let y = right t x in
      if y = nil then t
      else let t1 = set_right x (left t y) t;
               t2 = (if left t1 y \<noteq> nil then set_parent (left t1 y) x t1 else t1);
               t3 = set_parent y (parent t2 x) t2;
               t4 = replace_child x y t3;
               t5 = set_left y x t4
           in set_parent x y t5)"

definition right_rotate :: "nat \<Rightarrow> ('k, 'v) rbtree \<Rightarrow> ('k, 'v) rbtree" where
  "right_rotate y t =
     (let x = left t y in
      if x = nil then t
      else let t1 = set_left y (right t x) t;
               t2 = (if right t1 x \<noteq> nil then set_parent (right t1 x) y t1 else t1);
               t3 = set_parent x (parent t2 y) t2;
               t4 = replace_child y x t3;
               t5 = set_right x y t4
           in set_parent y x t5)"

section \<open>Searching\<close>

partial_function (option) find_from_node :: "('k::linorder, 'v) rbtree \<Rightarrow> 'k \<Rightarrow> nat \<Rightarrow> nat option" where
  "find_from_node t k z =
     (if z \<noteq> nil then
        (if key t z = k then Some z
         else if key t z < k then find_from_node t k (right t z)
         else find_from_node t k (left t z))
      else Some z)"

definition find_node :: "'k::linorder \<Rightarrow> ('k, 'v) rbtree \<Rightarrow> nat option" where
  "find_node k t = find_from_node t k (root t)"

definition find :: "'k::linorder \<Rightarrow> ('k, 'v) rbtree \<Rightarrow> 'v cxx option" where
  "find k t =
     (case find_node k t of
        None \<Rightarrow> None
      | Some ret \<Rightarrow> Some (if ret \<noteq> nil then Inr (val t ret) else Inl (Thrown ''The key is not existed!'')))"

section \<open>Insertion\<close>

text \<open>The place of a new key: the last node on the way down.\<close>

partial_function (option) descend :: "('k::linorder, 'v) rbtree \<Rightarrow> 'k \<Rightarrow> nat \<Rightarrow> nat \<Rightarrow> nat option" where
  "descend t k target target_p =
     (if target \<noteq> nil then
        descend t k (if k \<le> key t target then left t target else right t target) target
      else Some target_p)"

text \<open>
  One round of the loop of \<open>rbtree_insert_fixup\<close>, for a red \<open>y\<close>; the result holds the new \<open>z\<close> and \<open>y\<close>.
  The last statement of the round blackens \<open>z\<close> when it has become the root.
\<close>

definition fixup_round :: "nat \<Rightarrow> nat \<Rightarrow> ('k, 'v) rbtree \<Rightarrow> nat \<times> nat \<times> ('k, 'v) rbtree" where
  "fixup_round z y t =
     (let g = parent t y;
          uncle = (if y = left t g then right t g else left t g)
      in if color t uncle = Red then
           let t1 = set_color (parent t y) Red (set_color uncle Black (set_color y Black t));
               z1 = parent t1 y
           in (z1, parent t1 z1, t1)
         else if z = left t y \<and> y = left t (parent t y) then
           let t1 = set_color (parent t y) Red (set_color y Black t)
           in (z, y, right_rotate (parent t1 y) t1)
         else if z = right t y \<and> y = right t (parent t y) then
           let t1 = set_color (parent t y) Red (set_color y Black t)
           in (z, y, left_rotate (parent t1 y) t1)
         else if z = right t y \<and> y = left t (parent t y) then
           let t1 = left_rotate y (set_color (parent t y) Red (set_color z Black t));
               t2 = right_rotate (parent t1 z) t1
           in (left t2 z, z, t2)
         else
           let t1 = right_rotate y (set_color (parent t y) Red (set_color z Black t));
               t2 = left_rotate (parent t1 z) t1
           in (left t2 z, z, t2))"

definition blacken_root :: "nat \<Rightarrow> nat \<Rightarrow> ('k, 'v) rbtree \<Rightarrow> ('k, 'v) rbtree" where
  "blacken_root z y t = (if y = nil then set_root z (set_color z Black t) else t)"

partial_function (option) fixup_loop :: "nat \<Rightarrow> nat \<Rightarrow> ('k, 'v) rbtree \<Rightarrow> ('k, 'v) rbtree option" where
  "fixup_loop z y t =
     (if color t y = Red then
        (case fixup_round z y t of (z1, y1, t1) \<Rightarrow> fixup_loop z1 y1 (blacken_root z1 y1 t1))
      else Some t)"

definition rbtree_insert_fixup :: "nat \<Rightarrow> ('k, 'v) rbtree \<Rightarrow> ('k, 'v) rbtree option" where
  "rbtree_insert_fixup z t = fixup_loop z (parent t z) t"

definition attach :: "nat \<Rightarrow> nat \<Rightarrow> ('k::linorder, 'v) rbtree \<Rightarrow> ('k, 'v) rbtree" where
  "attach z target_p t =
     (let t1 = set_parent z target_p t
      in if key t1 z \<le> key t1 target_p then set_left target_p z t1 else set_right target_p z t1)"

definition insert_node :: "nat \<Rightarrow> ('k::linorder, 'v) rbtree \<Rightarrow> ('k, 'v) rbtree option" where
  "insert_node z t =
     (if root t = nil then Some (set_root z (set_color z Black (set_parent z nil t)))
      else case descend t (key t z) (root t) nil of
             None \<Rightarrow> None
           | Some target_p \<Rightarrow> rbtree_insert_fixup z (attach z target_p t))"

definition insert_kv :: "'k::linorder \<Rightarrow> 'v \<Rightarrow> ('k, 'v) rbtree \<Rightarrow> ('k, 'v) rbtree option" where
  "insert_kv k v t = (case new_node nil nil nil k v Red t of (z, t1) \<Rightarrow> insert_node z t1)"

section \<open>Shapes and positions\<close>

fun is_tree :: "('k, 'v) rbtree \<Rightarrow> nat \<Rightarrow> nat \<Rightarrow> nat tree \<Rightarrow> bool" where
  "is_tree t q p \<langle>\<rangle> \<longleftrightarrow> p = nil"
| "is_tree t q p \<langle>l, x, r\<rangle> \<longleftrightarrow> p = x \<and> x \<noteq> nil \<and> parent t x = q \<and>
     is_tree t x (left t x) l \<and> is_tree t x (right t x) r"

text \<open>One frame: the focus is the left or the right child of a node whose other subtree is given.\<close>

datatype frame = In_Left (owner: nat) (sibling: "nat tree") | In_Right (owner: nat) (sibling: "nat tree")

fun is_path :: "('k, 'v) rbtree \<Rightarrow> nat \<Rightarrow> nat \<Rightarrow> frame list \<Rightarrow> bool" where
  "is_path t q p [] \<longleftrightarrow> q = nil \<and> root t = p"
| "is_path t q p (In_Left x s # fs) \<longleftrightarrow> q = x \<and> x \<noteq> nil \<and> left t x = p \<and>
     is_tree t x (right t x) s \<and> is_path t (parent t x) x fs"
| "is_path t q p (In_Right x s # fs) \<longleftrightarrow> q = x \<and> x \<noteq> nil \<and> right t x = p \<and>
     is_tree t x (left t x) s \<and> is_path t (parent t x) x fs"

fun plug :: "nat tree \<Rightarrow> frame list \<Rightarrow> nat tree" where
  "plug T [] = T"
| "plug T (In_Left x s # fs) = plug \<langle>T, x, s\<rangle> fs"
| "plug T (In_Right x s # fs) = plug \<langle>s, x, T\<rangle> fs"

text \<open>What stands before and behind the focus in order.\<close>

fun before :: "frame list \<Rightarrow> nat list" where
  "before [] = []"
| "before (In_Left x s # fs) = before fs"
| "before (In_Right x s # fs) = before fs @ inorder s @ [x]"

fun behind :: "frame list \<Rightarrow> nat list" where
  "behind [] = []"
| "behind (In_Left x s # fs) = x # inorder s @ behind fs"
| "behind (In_Right x s # fs) = behind fs"

definition nodes_of :: "nat tree \<Rightarrow> frame list \<Rightarrow> nat list" where
  "nodes_of T fs = before fs @ inorder T @ behind fs"

lemma inorder_plug: "inorder (plug T fs) = nodes_of T fs"
  by (induction T fs rule: plug.induct) (simp_all add: nodes_of_def)

text \<open>A position of the tree: the focus is at \<open>p\<close>, its parent is \<open>q\<close>.\<close>

definition at :: "('k, 'v) rbtree \<Rightarrow> nat \<Rightarrow> nat \<Rightarrow> nat tree \<Rightarrow> frame list \<Rightarrow> bool" where
  "at t q p T fs \<longleftrightarrow> is_tree t q p T \<and> is_path t q p fs \<and> distinct (nodes_of T fs)"

lemma is_tree_nonnil: "is_tree t q p T \<Longrightarrow> nil \<notin> set_tree T"
  by (induction T arbitrary: q p) auto

lemma is_tree_root: "is_tree t q p T \<Longrightarrow> T = \<langle>\<rangle> \<and> p = nil \<or> p \<noteq> nil \<and> p \<in> set_tree T"
  by (cases T) auto

lemma is_path_nonnil: "is_path t q p fs \<Longrightarrow> nil \<notin> set (before fs) \<and> nil \<notin> set (behind fs)"
  by (induction fs arbitrary: q p rule: before.induct) (auto dest: is_tree_nonnil)

text \<open>Frame rules: only the links of the nodes themselves matter.\<close>

lemma is_tree_cong:
  "(\<And>x. x \<in> set_tree T \<Longrightarrow> parent t' x = parent t x \<and> left t' x = left t x \<and> right t' x = right t x) \<Longrightarrow>
   is_tree t' q p T = is_tree t q p T"
  by (induction T arbitrary: q p) auto

lemma is_path_cong:
  "(\<And>x. x \<in> set (before fs) \<union> set (behind fs) \<Longrightarrow>
      parent t' x = parent t x \<and> left t' x = left t x \<and> right t' x = right t x) \<Longrightarrow>
   root t' = root t \<Longrightarrow> is_path t' q p fs = is_path t q p fs"
proof (induction t q p fs rule: is_path.induct)
  case (2 t q p x s fs)
  have "is_tree t' x (right t x) s = is_tree t x (right t x) s" by (rule is_tree_cong) (use 2(2) in auto)
  moreover have "is_path t' (parent t x) x fs = is_path t (parent t x) x fs" by (rule 2(1)) (use 2(2,3) in auto)
  ultimately show ?case using 2(2) [of x] by auto
next
  case (3 t q p x s fs)
  have "is_tree t' x (left t x) s = is_tree t x (left t x) s" by (rule is_tree_cong) (use 3(2) in auto)
  moreover have "is_path t' (parent t x) x fs = is_path t (parent t x) x fs" by (rule 3(1)) (use 3(2,3) in auto)
  ultimately show ?case using 3(2) [of x] by auto
qed simp

text \<open>Reading after a setter, and setters of nodes that are elsewhere.\<close>

lemma read_setters [simp]:
  "parent (set_parent x p t) = (parent t)(x := p)" "left (set_parent x p t) = left t"
  "right (set_parent x p t) = right t" "color (set_parent x p t) = color t" "root (set_parent x p t) = root t"
  "parent (set_left x p t) = parent t" "left (set_left x p t) = (left t)(x := p)"
  "right (set_left x p t) = right t" "color (set_left x p t) = color t" "root (set_left x p t) = root t"
  "parent (set_right x p t) = parent t" "left (set_right x p t) = left t"
  "right (set_right x p t) = (right t)(x := p)" "color (set_right x p t) = color t" "root (set_right x p t) = root t"
  "parent (set_color x c t) = parent t" "left (set_color x c t) = left t" "right (set_color x c t) = right t"
  "color (set_color x c t) = (color t)(x := c)" "root (set_color x c t) = root t"
  "parent (set_root p t) = parent t" "left (set_root p t) = left t" "right (set_root p t) = right t"
  "color (set_root p t) = color t" "root (set_root p t) = p"
  by (simp_all add: setters)

lemma data_setters [simp]:
  "key (set_parent x p t) = key t" "val (set_parent x p t) = val t" "next_node (set_parent x p t) = next_node t"
  "key (set_left x p t) = key t" "val (set_left x p t) = val t" "next_node (set_left x p t) = next_node t"
  "key (set_right x p t) = key t" "val (set_right x p t) = val t" "next_node (set_right x p t) = next_node t"
  "key (set_color x c t) = key t" "val (set_color x c t) = val t" "next_node (set_color x c t) = next_node t"
  "key (set_root p t) = key t" "val (set_root p t) = val t" "next_node (set_root p t) = next_node t"
  by (simp_all add: setters)

lemma is_tree_setters [simp]:
  "x \<notin> set_tree T \<Longrightarrow> is_tree (set_parent x v t) q p T = is_tree t q p T"
  "x \<notin> set_tree T \<Longrightarrow> is_tree (set_left x v t) q p T = is_tree t q p T"
  "x \<notin> set_tree T \<Longrightarrow> is_tree (set_right x v t) q p T = is_tree t q p T"
  "is_tree (set_color x c t) q p T = is_tree t q p T"
  "is_tree (set_root v t) q p T = is_tree t q p T"
  by (rule is_tree_cong; auto)+

lemma is_path_setters [simp]:
  "x \<notin> set (before fs) \<Longrightarrow> x \<notin> set (behind fs) \<Longrightarrow> is_path (set_parent x v t) q p fs = is_path t q p fs"
  "x \<notin> set (before fs) \<Longrightarrow> x \<notin> set (behind fs) \<Longrightarrow> is_path (set_left x v t) q p fs = is_path t q p fs"
  "x \<notin> set (before fs) \<Longrightarrow> x \<notin> set (behind fs) \<Longrightarrow> is_path (set_right x v t) q p fs = is_path t q p fs"
  "is_path (set_color x c t) q p fs = is_path t q p fs"
  by (rule is_path_cong; auto)+

text \<open>The parent of a focus is irrelevant inside it except at its root.\<close>

lemma is_tree_reparent:
  assumes "is_tree t q p T" "p \<noteq> nil" "distinct (inorder T)"
  shows "is_tree (set_parent p q' t) q' p T"
  using assms by (cases T) auto

text \<open>Changing the link above the focus.\<close>

lemma is_path_owner: "is_path t q p fs \<Longrightarrow> q = nil \<and> fs = [] \<or> q \<noteq> nil \<and> (q \<in> set (before fs) \<or> q \<in> set (behind fs))"
  by (cases fs; cases "hd fs") auto

lemma is_path_relink:
  assumes "is_path t q p fs" "distinct (before fs @ behind fs)" "p \<noteq> nil"
    and "p \<notin> set (before fs)" "p \<notin> set (behind fs)" "q = parent t p"
  shows "is_path (replace_child p p' t) q p' fs"
proof (cases fs)
  case Nil
  with assms show ?thesis by (simp add: replace_child_def)
next
  case (Cons f gs)
  show ?thesis
  proof (cases f)
    case (In_Left x s)
    with Cons assms show ?thesis by (auto simp: replace_child_def)
  next
    case (In_Right x s)
    have "left t x \<noteq> p"
      using is_tree_root [of t x "left t x" s] Cons In_Right assms by auto
    with Cons In_Right assms show ?thesis by (auto simp: replace_child_def)
  qed
qed

section \<open>Rotations keep the order\<close>

lemma replace_child_fields [simp]:
  "color (replace_child x y t) = color t" "key (replace_child x y t) = key t" "val (replace_child x y t) = val t"
  "next_node (replace_child x y t) = next_node t" "parent (replace_child x y t) = parent t"
  by (simp_all add: replace_child_def)

lemma rotate_fields [simp]:
  "color (left_rotate x t) = color t" "key (left_rotate x t) = key t" "val (left_rotate x t) = val t"
  "next_node (left_rotate x t) = next_node t"
  "color (right_rotate x t) = color t" "key (right_rotate x t) = key t" "val (right_rotate x t) = val t"
  "next_node (right_rotate x t) = next_node t"
  by (simp_all add: left_rotate_def right_rotate_def Let_def)

lemma deleted_setters [simp]:
  "deleted (set_parent x p t) = deleted t" "deleted (set_left x p t) = deleted t" "deleted (set_right x p t) = deleted t"
  "deleted (set_color x c t) = deleted t" "deleted (set_root p t) = deleted t"
  "deleted (left_rotate x t) = deleted t" "deleted (right_rotate x t) = deleted t"
  by (simp_all add: setters left_rotate_def right_rotate_def replace_child_def Let_def)

lemma replace_child_outside:
  assumes "is_path t q p fs" "set_tree T \<inter> (set (before fs) \<union> set (behind fs)) = {}" "q = parent t p"
  shows "is_tree (replace_child p p' t) r u T = is_tree t r u T"
proof (cases fs)
  case Nil
  with assms show ?thesis by (simp add: replace_child_def)
next
  case (Cons f gs)
  then show ?thesis
    by (cases f) (use assms in \<open>auto simp: replace_child_def\<close>)
qed

lemma left_rotate_at:
  assumes "at t q x \<langle>a, x, \<langle>b, y, c\<rangle>\<rangle> fs"
  shows "at (left_rotate x t) q y \<langle>\<langle>a, x, b\<rangle>, y, c\<rangle> fs"
proof -
  let ?T = "\<langle>a, x, \<langle>b, y, c\<rangle>\<rangle>"
  define t1 where "t1 = set_right x (left t y) t"
  define t2 where "t2 = (if left t1 y \<noteq> nil then set_parent (left t1 y) x t1 else t1)"
  define t3 where "t3 = set_parent y (parent t2 x) t2"
  have tr: "is_tree t q x ?T" "is_path t q x fs" "distinct (nodes_of ?T fs)"
    using assms by (simp_all add: at_def)
  then have y: "right t x = y" "y \<noteq> nil" "x \<noteq> nil" "parent t x = q" "x \<noteq> y" by (auto simp: nodes_of_def)
  have d: "distinct (before fs)" "distinct (behind fs)" "x \<notin> set (before fs)" "x \<notin> set (behind fs)"
      "y \<notin> set (before fs)" "y \<notin> set (behind fs)" "x \<notin> set_tree a" "x \<notin> set_tree b" "x \<notin> set_tree c"
      "y \<notin> set_tree a" "y \<notin> set_tree b" "y \<notin> set_tree c"
      "set_tree a \<inter> set_tree b = {}" "set_tree a \<inter> set_tree c = {}" "set_tree b \<inter> set_tree c = {}"
      "set_tree b \<inter> set (before fs) = {}" "set_tree b \<inter> set (behind fs) = {}" "distinct (inorder b)"
      "set_tree a \<inter> set (before fs) = {}" "set_tree a \<inter> set (behind fs) = {}"
      "set_tree c \<inter> set (before fs) = {}" "set_tree c \<inter> set (behind fs) = {}" "set (before fs) \<inter> set (behind fs) = {}"
    using tr(3) by (auto simp: nodes_of_def)
  have b: "is_tree t y (left t y) b" "is_tree t y (right t y) c" "is_tree t x (left t x) a"
    using tr(1) y by auto
  have bt: "b = \<langle>\<rangle> \<and> left t y = nil \<or> left t y \<noteq> nil \<and> left t y \<in> set_tree b"
    by (rule is_tree_root [OF b(1)])
  have b2: "is_tree t2 x (left t y) b"
    using is_tree_reparent [of "set_right x (left t y) t" y "left t y" b x] b(1) d bt by (auto simp: t2_def t1_def)
  have out: "is_tree t2 r u T = is_tree t r u T" if "x \<notin> set_tree T" "set_tree T \<inter> set_tree b = {}" for r u T
  proof -
    have "left t y \<noteq> nil \<Longrightarrow> left t y \<notin> set_tree T" using that(2) bt by auto
    then show ?thesis by (simp add: t2_def t1_def that(1))
  qed
  have path: "is_path t3 q x fs"
  proof -
    have "left t y \<noteq> nil \<Longrightarrow> left t y \<notin> set (before fs) \<and> left t y \<notin> set (behind fs)" using d bt by auto
    then show ?thesis using tr(2) d by (simp add: t3_def t2_def t1_def)
  qed
  have f3: "parent t3 x = q" "parent t3 y = q" "left t3 = left t" "right t3 = (right t)(x := left t y)" "root t3 = root t"
    using y d bt by (auto simp: t3_def t2_def t1_def)
  define t4 where "t4 = replace_child x y t3"
  have path4: "is_path t4 q y fs"
    unfolding t4_def by (rule is_path_relink [OF path]) (use d f3 y in simp_all)
  have out4: "is_tree t4 r u T = is_tree t3 r u T"
    if "set_tree T \<inter> (set (before fs) \<union> set (behind fs)) = {}" for r u T
    unfolding t4_def by (rule replace_child_outside [OF path that]) (simp add: f3)
  have f4: "left t4 x = left t x" "right t4 x = left t y" "right t4 y = right t y"
    using path d f3 y by (auto simp: t4_def replace_child_def dest: is_path_owner)
  have eq: "left_rotate x t = set_parent x y (set_left y x t4)"
    using y by (simp add: left_rotate_def Let_def t1_def t2_def t3_def t4_def)
  have A: "is_tree t4 x (left t x) a"
    using out4 [of a] out [of a] b(3) d by (simp add: t3_def Int_Un_distrib)
  have B: "is_tree t4 x (left t y) b"
    using out4 [of b] b2 d by (simp add: t3_def Int_Un_distrib)
  have C: "is_tree t4 y (right t y) c"
    using out4 [of c] out [of c] b(2) d by (simp add: t3_def Int_Un_distrib Int_commute)
  have "is_tree (left_rotate x t) q y \<langle>\<langle>a, x, b\<rangle>, y, c\<rangle>"
    unfolding eq using A B C y f4 d f3 by (auto simp: t4_def)
  moreover have "is_path (left_rotate x t) q y fs" unfolding eq using path4 d by simp
  moreover have "nodes_of \<langle>\<langle>a, x, b\<rangle>, y, c\<rangle> fs = nodes_of ?T fs" by (simp add: nodes_of_def)
  ultimately show ?thesis using tr(3) by (simp add: at_def)
qed

lemma right_rotate_at:
  assumes "at t q x \<langle>\<langle>c, y, b\<rangle>, x, a\<rangle> fs"
  shows "at (right_rotate x t) q y \<langle>c, y, \<langle>b, x, a\<rangle>\<rangle> fs"
proof -
  let ?T = "\<langle>\<langle>c, y, b\<rangle>, x, a\<rangle>"
  define t1 where "t1 = set_left x (right t y) t"
  define t2 where "t2 = (if right t1 y \<noteq> nil then set_parent (right t1 y) x t1 else t1)"
  define t3 where "t3 = set_parent y (parent t2 x) t2"
  have tr: "is_tree t q x ?T" "is_path t q x fs" "distinct (nodes_of ?T fs)"
    using assms by (simp_all add: at_def)
  then have y: "left t x = y" "y \<noteq> nil" "x \<noteq> nil" "parent t x = q" "x \<noteq> y" by (auto simp: nodes_of_def)
  have d: "distinct (before fs)" "distinct (behind fs)" "x \<notin> set (before fs)" "x \<notin> set (behind fs)"
      "y \<notin> set (before fs)" "y \<notin> set (behind fs)" "x \<notin> set_tree a" "x \<notin> set_tree b" "x \<notin> set_tree c"
      "y \<notin> set_tree a" "y \<notin> set_tree b" "y \<notin> set_tree c"
      "set_tree a \<inter> set_tree b = {}" "set_tree a \<inter> set_tree c = {}" "set_tree b \<inter> set_tree c = {}"
      "set_tree b \<inter> set (before fs) = {}" "set_tree b \<inter> set (behind fs) = {}" "distinct (inorder b)"
      "set_tree a \<inter> set (before fs) = {}" "set_tree a \<inter> set (behind fs) = {}"
      "set_tree c \<inter> set (before fs) = {}" "set_tree c \<inter> set (behind fs) = {}" "set (before fs) \<inter> set (behind fs) = {}"
    using tr(3) by (auto simp: nodes_of_def)
  have b: "is_tree t y (right t y) b" "is_tree t y (left t y) c" "is_tree t x (right t x) a"
    using tr(1) y by auto
  have bt: "b = \<langle>\<rangle> \<and> right t y = nil \<or> right t y \<noteq> nil \<and> right t y \<in> set_tree b"
    by (rule is_tree_root [OF b(1)])
  have b2: "is_tree t2 x (right t y) b"
    using is_tree_reparent [of "set_left x (right t y) t" y "right t y" b x] b(1) d bt by (auto simp: t2_def t1_def)
  have out: "is_tree t2 r u T = is_tree t r u T" if "x \<notin> set_tree T" "set_tree T \<inter> set_tree b = {}" for r u T
  proof -
    have "right t y \<noteq> nil \<Longrightarrow> right t y \<notin> set_tree T" using that(2) bt by auto
    then show ?thesis by (simp add: t2_def t1_def that(1))
  qed
  have path: "is_path t3 q x fs"
  proof -
    have "right t y \<noteq> nil \<Longrightarrow> right t y \<notin> set (before fs) \<and> right t y \<notin> set (behind fs)" using d bt by auto
    then show ?thesis using tr(2) d by (simp add: t3_def t2_def t1_def)
  qed
  have f3: "parent t3 x = q" "parent t3 y = q" "right t3 = right t" "left t3 = (left t)(x := right t y)" "root t3 = root t"
    using y d bt by (auto simp: t3_def t2_def t1_def)
  define t4 where "t4 = replace_child x y t3"
  have path4: "is_path t4 q y fs"
    unfolding t4_def by (rule is_path_relink [OF path]) (use d f3 y in simp_all)
  have out4: "is_tree t4 r u T = is_tree t3 r u T"
    if "set_tree T \<inter> (set (before fs) \<union> set (behind fs)) = {}" for r u T
    unfolding t4_def by (rule replace_child_outside [OF path that]) (simp add: f3)
  have f4: "right t4 x = right t x" "left t4 x = right t y" "left t4 y = left t y"
    using path d f3 y by (auto simp: t4_def replace_child_def dest: is_path_owner)
  have eq: "right_rotate x t = set_parent x y (set_right y x t4)"
    using y by (simp add: right_rotate_def Let_def t1_def t2_def t3_def t4_def)
  have A: "is_tree t4 x (right t x) a"
    using out4 [of a] out [of a] b(3) d by (simp add: t3_def Int_Un_distrib)
  have B: "is_tree t4 x (right t y) b"
    using out4 [of b] b2 d by (simp add: t3_def Int_Un_distrib)
  have C: "is_tree t4 y (left t y) c"
    using out4 [of c] out [of c] b(2) d by (simp add: t3_def Int_Un_distrib Int_commute)
  have "is_tree (right_rotate x t) q y \<langle>c, y, \<langle>b, x, a\<rangle>\<rangle>"
    unfolding eq using A B C y f4 d f3 by (auto simp: t4_def)
  moreover have "is_path (right_rotate x t) q y fs" unfolding eq using path4 d by simp
  moreover have "nodes_of \<langle>c, y, \<langle>b, x, a\<rangle>\<rangle> fs = nodes_of ?T fs" by (simp add: nodes_of_def)
  ultimately show ?thesis using tr(3) by (simp add: at_def)
qed

section \<open>Colour invariants\<close>

fun rcol :: "(nat \<Rightarrow> color) \<Rightarrow> nat tree \<Rightarrow> color" where
  "rcol c \<langle>\<rangle> = Black"
| "rcol c \<langle>l, x, r\<rangle> = c x"

fun invc :: "(nat \<Rightarrow> color) \<Rightarrow> nat tree \<Rightarrow> bool" where
  "invc c \<langle>\<rangle> \<longleftrightarrow> True"
| "invc c \<langle>l, x, r\<rangle> \<longleftrightarrow> (c x = Red \<longrightarrow> rcol c l = Black \<and> rcol c r = Black) \<and> invc c l \<and> invc c r"

fun bheight :: "(nat \<Rightarrow> color) \<Rightarrow> nat tree \<Rightarrow> nat" where
  "bheight c \<langle>\<rangle> = 0"
| "bheight c \<langle>l, x, r\<rangle> = (if c x = Black then Suc (bheight c l) else bheight c l)"

fun invh :: "(nat \<Rightarrow> color) \<Rightarrow> nat tree \<Rightarrow> bool" where
  "invh c \<langle>\<rangle> \<longleftrightarrow> True"
| "invh c \<langle>l, x, r\<rangle> \<longleftrightarrow> bheight c l = bheight c r \<and> invh c l \<and> invh c r"

text \<open>The frames around a subtree of black height \<open>n\<close>; the focus itself may be red below a red node.\<close>

fun path_ok :: "(nat \<Rightarrow> color) \<Rightarrow> nat \<Rightarrow> frame list \<Rightarrow> bool" where
  "path_ok c n [] \<longleftrightarrow> True"
| "path_ok c n (f # fs) \<longleftrightarrow> invc c (sibling f) \<and> invh c (sibling f) \<and> bheight c (sibling f) = n \<and>
     (c (owner f) = Red \<longrightarrow> rcol c (sibling f) = Black \<and> fs \<noteq> [] \<and> c (owner (hd fs)) = Black) \<and>
     path_ok c (if c (owner f) = Black then Suc n else n) fs"

lemma color_cong:
  assumes "\<And>x. x \<in> set_tree T \<Longrightarrow> c' x = c x"
  shows "rcol c' T = rcol c T" "invc c' T = invc c T" "bheight c' T = bheight c T" "invh c' T = invh c T"
proof -
  show r: "rcol c' T = rcol c T" using assms by (cases T) auto
  have b: "(\<And>x. x \<in> set_tree T \<Longrightarrow> c' x = c x) \<Longrightarrow> bheight c' T = bheight c T" for T
    by (induction T) auto
  show "bheight c' T = bheight c T" by (rule b [OF assms])
  show "invc c' T = invc c T" using assms
  proof (induction T)
    case (Node l x r)
    have "rcol c' l = rcol c l" "rcol c' r = rcol c r" using Node.prems by (cases l; cases r; auto)+
    with Node show ?case by simp
  qed simp
  show "invh c' T = invh c T" using assms
  proof (induction T)
    case (Node l x r)
    have "bheight c' l = bheight c l" "bheight c' r = bheight c r" by (rule b, use Node.prems in auto)+
    with Node show ?case by simp
  qed simp
qed

lemma owner_in: "owner f \<in> set (before (f # fs)) \<or> owner f \<in> set (behind (f # fs))"
  by (cases f) simp_all

lemma sibling_in: "set_tree (sibling f) \<subseteq> set (before (f # fs)) \<union> set (behind (f # fs))"
  by (cases f) auto

lemma frames_in: "set (before fs) \<union> set (behind fs) \<subseteq> set (before (f # fs)) \<union> set (behind (f # fs))"
  by (cases f) auto

lemma path_ok_cong:
  "(\<And>x. x \<in> set (before fs) \<union> set (behind fs) \<Longrightarrow> c' x = c x) \<Longrightarrow> path_ok c' n fs = path_ok c n fs"
proof (induction fs arbitrary: n)
  case (Cons f fs)
  have s: "\<And>x. x \<in> set_tree (sibling f) \<Longrightarrow> c' x = c x" using Cons.prems sibling_in [of f fs] by blast
  have o: "c' (owner f) = c (owner f)" using Cons.prems owner_in [of f fs] by blast
  have o2: "fs \<noteq> [] \<Longrightarrow> c' (owner (hd fs)) = c (owner (hd fs))"
    using Cons.prems frames_in [of fs f] owner_in [of "hd fs" "tl fs"] by (cases fs) auto
  have "path_ok c' m fs = path_ok c m fs" for m
    by (rule Cons.IH) (use Cons.prems frames_in [of fs f] in blast)
  with color_cong [OF s] o o2 show ?case by auto
qed simp

lemma path_ok_plug:
  assumes "path_ok c (bheight c T) fs" "invc c T" "invh c T"
    and "rcol c T = Red \<Longrightarrow> fs \<noteq> [] \<and> c (owner (hd fs)) = Black"
  shows "invc c (plug T fs) \<and> invh c (plug T fs) \<and> rcol c (plug T fs) = Black"
  using assms
proof (induction T fs rule: plug.induct)
  case (1 T)
  then show ?case by (cases "rcol c T") auto
next
  case (2 T x s fs)
  have "invc c (plug \<langle>T, x, s\<rangle> fs) \<and> invh c (plug \<langle>T, x, s\<rangle> fs) \<and> rcol c (plug \<langle>T, x, s\<rangle> fs) = Black"
    by (rule "2.IH") (use "2.prems" in \<open>auto split: if_splits; cases "rcol c T"; auto\<close>)+
  then show ?case by simp
next
  case (3 T x s fs)
  have "invc c (plug \<langle>s, x, T\<rangle> fs) \<and> invh c (plug \<langle>s, x, T\<rangle> fs) \<and> rcol c (plug \<langle>s, x, T\<rangle> fs) = Black"
    by (rule "3.IH") (use "3.prems" in \<open>auto split: if_splits; cases "rcol c T"; auto\<close>)+
  then show ?case by simp
qed

section \<open>Moving the focus\<close>

fun up :: "nat tree \<Rightarrow> frame \<Rightarrow> nat tree" where
  "up T (In_Left x s) = \<langle>T, x, s\<rangle>"
| "up T (In_Right x s) = \<langle>s, x, T\<rangle>"

lemma plug_up: "plug T (f # fs) = plug (up T f) fs"
  by (cases f) simp_all

lemma at_up: "at t q p T (f # fs) \<Longrightarrow> at t (parent t q) q (up T f) fs \<and> q = owner f"
  by (cases f) (auto simp: at_def nodes_of_def)

lemma at_plug: "at t q p T fs \<Longrightarrow> is_tree t nil (root t) (plug T fs)"
proof (induction fs arbitrary: q p T)
  case Nil
  then show ?case by (auto simp: at_def)
next
  case (Cons f fs)
  from at_up [OF Cons.prems] Cons.IH show ?case unfolding plug_up by blast
qed

text \<open>A red-black tree with the nodes \<open>xs\<close> in order.\<close>

definition rb_inv :: "('k, 'v) rbtree \<Rightarrow> nat tree \<Rightarrow> bool" where
  "rb_inv t T \<longleftrightarrow> is_tree t nil (root t) T \<and> distinct (inorder T) \<and> invc (color t) T \<and> invh (color t) T \<and>
     rcol (color t) T = Black \<and> color t nil = Black"

lemma at_rb_inv:
  assumes "at t q p T fs" "path_ok (color t) (bheight (color t) T) fs" "invc (color t) T" "invh (color t) T"
    and "rcol (color t) T = Red \<Longrightarrow> fs \<noteq> [] \<and> color t (owner (hd fs)) = Black" "color t nil = Black"
  shows "rb_inv t (plug T fs) \<and> inorder (plug T fs) = nodes_of T fs"
  using at_plug [OF assms(1)] path_ok_plug [OF assms(2-5)] assms(1,6)
  by (simp add: rb_inv_def inorder_plug at_def)

lemma up_simps:
  "set_tree (up T f) = {owner f} \<union> set_tree T \<union> set_tree (sibling f)" "rcol c (up T f) = c (owner f)"
  "invc c (up T f) \<longleftrightarrow> (c (owner f) = Red \<longrightarrow> rcol c T = Black \<and> rcol c (sibling f) = Black) \<and> invc c T \<and> invc c (sibling f)"
  "invh c (up T f) \<longleftrightarrow> bheight c T = bheight c (sibling f) \<and> invh c T \<and> invh c (sibling f)"
  "bheight c T = bheight c (sibling f) \<Longrightarrow>
     bheight c (up T f) = (if c (owner f) = Black then Suc (bheight c T) else bheight c T)"
  by (cases f; auto)+

lemma nodes_up: "nodes_of T (f # fs) = nodes_of (up T f) fs"
  by (cases f) (simp_all add: nodes_of_def)

lemma at_disjoint:
  assumes "at t q p T (f # fs)"
  shows "owner f \<notin> set_tree T" "owner f \<notin> set_tree (sibling f)" "set_tree T \<inter> set_tree (sibling f) = {}"
    "owner f \<notin> set (before fs) \<union> set (behind fs)" "set_tree T \<inter> (set (before fs) \<union> set (behind fs)) = {}"
    "set_tree (sibling f) \<inter> (set (before fs) \<union> set (behind fs)) = {}" "distinct (inorder (sibling f))"
    "distinct (inorder T)"
  using assms by (cases f; auto simp: at_def nodes_of_def)+

fun ptr :: "nat tree \<Rightarrow> nat" where
  "ptr \<langle>\<rangle> = nil"
| "ptr \<langle>l, x, r\<rangle> = x"

lemma is_tree_ptr: "is_tree t q p T \<Longrightarrow> ptr T = p"
  by (cases T) auto

lemma at_side:
  assumes "at t q p T (f # fs)" "p \<noteq> nil"
  shows "p = left t q \<longleftrightarrow> (\<exists>x s. f = In_Left x s)" "p = right t q \<longleftrightarrow> (\<exists>x s. f = In_Right x s)"
    "ptr (sibling f) = (if p = left t q then right t q else left t q)"
proof -
  have p: "p \<in> set_tree T" using assms is_tree_root [of t q p T] by (auto simp: at_def)
  have s: "\<not> is_tree t q p (sibling f)"
    using is_tree_root [of t q p "sibling f"] assms(2) p at_disjoint(3) [OF assms(1)] by auto
  have pa: "is_path t q p (f # fs)" using assms(1) by (simp add: at_def)
  have "(p = left t q \<longleftrightarrow> (\<exists>x s. f = In_Left x s)) \<and> (p = right t q \<longleftrightarrow> (\<exists>x s. f = In_Right x s)) \<and>
      ptr (sibling f) = (if p = left t q then right t q else left t q)"
  proof (cases f)
    case (In_Left x u)
    with pa have l: "left t q = p" and u: "is_tree t q (right t q) u" by auto
    then have "right t q \<noteq> p" using s In_Left by auto
    with l is_tree_ptr [OF u] In_Left show ?thesis by simp
  next
    case (In_Right x u)
    with pa have r: "right t q = p" and u: "is_tree t q (left t q) u" by auto
    then have "left t q \<noteq> p" using s In_Right by auto
    with r is_tree_ptr [OF u] In_Right show ?thesis by simp
  qed
  then show "p = left t q \<longleftrightarrow> (\<exists>x s. f = In_Left x s)" "p = right t q \<longleftrightarrow> (\<exists>x s. f = In_Right x s)"
      "ptr (sibling f) = (if p = left t q then right t q else left t q)"
    by blast+
qed

lemma rcol_ptr: "c nil = Black \<Longrightarrow> rcol c T = c (ptr T)"
  by (cases T) simp_all

lemma at_set_color [simp]: "at (set_color x c t) q p T fs = at t q p T fs"
  by (simp add: at_def)

lemma blacken_subtree:
  assumes "rcol c T = Red" "invc c T" "distinct (inorder T)" "c' (ptr T) = Black"
    and "\<And>x. x \<in> set_tree T \<Longrightarrow> x \<noteq> ptr T \<Longrightarrow> c' x = c x"
  shows "invc c' T \<and> invh c' T = invh c T \<and> bheight c' T = Suc (bheight c T) \<and> rcol c' T = Black"
proof (cases T)
  case (Node l x r)
  have l: "y \<in> set_tree l \<Longrightarrow> c' y = c y" and r: "y \<in> set_tree r \<Longrightarrow> c' y = c y" for y
    using assms(3,5) Node by auto
  show ?thesis using assms Node color_cong [OF l] color_cong [OF r] by auto
qed (use assms in simp)

section \<open>The loop of the insertion\<close>

text \<open>The focus is red, unless it is the root, with black children; everything else is in order.\<close>

definition fix_inv :: "('k, 'v) rbtree \<Rightarrow> nat \<Rightarrow> nat tree \<Rightarrow> frame list \<Rightarrow> bool" where
  "fix_inv t z T fs \<longleftrightarrow> at t (parent t z) z T fs \<and>
     (\<exists>l r. T = \<langle>l, z, r\<rangle> \<and> rcol (color t) l = Black \<and> rcol (color t) r = Black \<and> invc (color t) l \<and> invc (color t) r) \<and>
     invh (color t) T \<and> path_ok (color t) (bheight (color t) T) fs \<and>
     color t z = (if fs = [] then Black else Red) \<and> color t nil = Black"

lemma fix_inv_frames:
  assumes "fix_inv t z T fs" "color t (parent t z) = Red"
  obtains f1 f2 gs where "fs = f1 # f2 # gs" "owner f1 = parent t z" "owner f2 = parent t (parent t z)"
    "at t (parent t z) z T (f1 # f2 # gs)" "at t (parent t (parent t z)) (parent t z) (up T f1) (f2 # gs)"
    "at t (parent t (owner f2)) (owner f2) (up (up T f1) f2) gs" "color t (owner f2) = Black"
    "z \<noteq> nil" "parent t z \<noteq> nil"
proof -
  have a: "at t (parent t z) z T fs" and z: "z \<noteq> nil" and "color t nil = Black"
    using assms by (auto simp: fix_inv_def at_def)
  then have n: "parent t z \<noteq> nil" using assms(2) by (metis color.distinct(1))
  with a obtain f1 fs1 where fs: "fs = f1 # fs1" by (cases fs) (auto simp: at_def)
  from at_up [OF a [unfolded fs]] have u1: "at t (parent t (parent t z)) (parent t z) (up T f1) fs1" "owner f1 = parent t z"
    by auto
  from assms fs u1(2) obtain f2 gs where fs1: "fs1 = f2 # gs" and b: "color t (owner f2) = Black"
    by (cases fs1) (auto simp: fix_inv_def)
  from at_up [OF u1(1) [unfolded fs1]] u1 that fs fs1 a b z n show ?thesis by auto
qed

lemma red_uncle_round:
  assumes inv: "fix_inv t z T fs" and y: "color t (parent t z) = Red"
    and u: "color t (if parent t z = left t (parent t (parent t z)) then right t (parent t (parent t z))
                     else left t (parent t (parent t z))) = Red"
  shows "\<exists>t1 T1 f1 f2 gs. fs = f1 # f2 # gs \<and>
           fixup_round z (parent t z) t = (owner f2, parent t1 (owner f2), t1) \<and>
           fix_inv (blacken_root (owner f2) (parent t1 (owner f2)) t1) (owner f2) T1 gs \<and>
           nodes_of T1 gs = nodes_of T fs \<and> key t1 = key t \<and> val t1 = val t \<and> next_node t1 = next_node t"
proof -
  let ?y = "parent t z" and ?c = "color t"
  from fix_inv_frames [OF inv y] obtain f1 f2 gs where
    fs: "fs = f1 # f2 # gs" and o: "owner f1 = ?y" "owner f2 = parent t ?y"
    and a1: "at t ?y z T (f1 # f2 # gs)" and a2: "at t (parent t ?y) ?y (up T f1) (f2 # gs)"
    and a3: "at t (parent t (owner f2)) (owner f2) (up (up T f1) f2) gs" and b: "?c (owner f2) = Black"
    and nz: "z \<noteq> nil" "?y \<noteq> nil"
    by metis
  let ?g = "owner f2" and ?u = "ptr (sibling f2)"
  have up: "?u = (if ?y = left t ?g then right t ?g else left t ?g)"
    using at_side(3) [OF a2 nz(2)] o by simp
  have ru: "?c ?u = Red" unfolding up o(2) by (rule u)
  have n: "?c nil = Black" "?c z = Red" using inv fs by (auto simp: fix_inv_def)
  have ud: "?u \<in> set_tree (sibling f2)" "rcol ?c (sibling f2) = Red"
    using ru n(1) rcol_ptr [of ?c "sibling f2"] by (cases "sibling f2"; simp)+
  note d1 = at_disjoint [OF a1] and d2 = at_disjoint [OF a2]
  from inv fs have T: "invc ?c T" "invh ?c T" "rcol ?c T = Red"
    and p: "path_ok ?c (bheight ?c T) (f1 # f2 # gs)"
    by (auto simp: fix_inv_def)
  define c1 where "c1 = ?c(?y := Black, ?u := Black, ?g := Red)"
  define t1 where "t1 = set_color ?g Red (set_color ?u Black (set_color ?y Black t))"
  have c1: "color t1 = c1" by (simp add: t1_def c1_def)
  have round: "fixup_round z ?y t = (?g, parent t1 ?g, t1)"
    using u o up by (simp add: fixup_round_def Let_def t1_def)
  \<comment> \<open>the colours below the grandparent\<close>
  have sT: "x \<in> set_tree T \<Longrightarrow> c1 x = ?c x" for x using d1 d2 ud o by (auto simp: up_simps c1_def)
  have s1: "x \<in> set_tree (sibling f1) \<Longrightarrow> c1 x = ?c x" for x using d1 d2 ud o by (auto simp: up_simps c1_def)
  have s3: "x \<in> set (before gs) \<union> set (behind gs) \<Longrightarrow> c1 x = ?c x" for x
    using d2 ud o(1) by (auto simp: up_simps c1_def)
  have ug: "?u \<noteq> ?g" "?y \<noteq> ?g" using d2 ud o(1) by (auto simp: up_simps)
  have s2: "invc c1 (sibling f2) \<and> invh c1 (sibling f2) = invh ?c (sibling f2) \<and>
      bheight c1 (sibling f2) = Suc (bheight ?c (sibling f2)) \<and> rcol c1 (sibling f2) = Black"
  proof (rule blacken_subtree [OF ud(2) _ d2(7)])
    show "invc ?c (sibling f2)" using p by simp
    show "c1 ?u = Black" using ug by (simp add: c1_def)
    show "x \<in> set_tree (sibling f2) \<Longrightarrow> x \<noteq> ?u \<Longrightarrow> c1 x = ?c x" for x using d2 o(1) by (auto simp: up_simps c1_def)
  qed
  have y1: "c1 ?y = Black" "c1 ?g = Red" using ug by (simp_all add: c1_def)
  have bT: "bheight c1 (up T f1) = Suc (bheight ?c T)" "invc c1 (up T f1)" "invh c1 (up T f1)"
      "rcol c1 (up T f1) = Black"
    using p T y1 o(1) color_cong [of T c1 ?c, OF sT] color_cong [of "sibling f1" c1 ?c, OF s1] by (simp_all add: up_simps)
  have G: "invh c1 (up (up T f1) f2)" "bheight c1 (up (up T f1) f2) = Suc (bheight ?c T)"
    using p bT s2 y1 y o by (simp_all add: up_simps)
  have pg: "path_ok c1 (Suc (bheight ?c T)) gs"
    using p b y o path_ok_cong [of gs c1 ?c, OF s3] by (auto split: if_splits)
  obtain l r where lr: "up (up T f1) f2 = \<langle>l, ?g, r\<rangle>" "{l, r} = {up T f1, sibling f2}"
    by (cases f2) auto
  have ch: "rcol c1 l = Black \<and> rcol c1 r = Black \<and> invc c1 l \<and> invc c1 r"
    using lr(2) bT s2 by (auto simp: doubleton_eq_iff)
  have "?g \<noteq> nil" using o(2) a3 by (cases f2) (auto simp: at_def)
  then have n1: "c1 nil = Black" using n(1) by (simp add: c1_def)
  have at1: "at t1 (parent t1 ?g) ?g (up (up T f1) f2) gs" using a3 by (simp add: t1_def)
  have "fix_inv (blacken_root ?g (parent t1 ?g) t1) ?g (up (up T f1) f2) gs"
  proof (cases gs)
    case Nil
    with at1 have pn: "parent t1 ?g = nil" and rt: "root t1 = ?g" by (simp_all add: at_def)
    have "set_root ?g t = t" if "root t = ?g" for t :: "('a, 'b) rbtree" using that by (simp add: set_root_def)
    then have bl: "blacken_root ?g (parent t1 ?g) t1 = set_color ?g Black t1"
      using pn rt by (simp add: blacken_root_def)
    have gl: "?g \<notin> set_tree l" "?g \<notin> set_tree r" using at1 lr(1) by (auto simp: at_def nodes_of_def)
    define c2 where "c2 = c1(?g := Black)"
    have "x \<in> set_tree l \<Longrightarrow> c2 x = c1 x" and "x \<in> set_tree r \<Longrightarrow> c2 x = c1 x" for x
      using gl by (auto simp: c2_def)
    note cc = color_cong [of l c2 c1, OF this(1)] color_cong [of r c2 c1, OF this(2)]
    have c2: "color (set_color ?g Black t1) = c2" "c2 ?g = Black" "c2 nil = Black" by (simp_all add: c1 c2_def n1)
    show ?thesis
      unfolding bl fix_inv_def c2(1) using at1 Nil lr(1) ch G(1) cc by (simp add: c2(2,3))
  next
    case (Cons f gs')
    then have "parent t1 ?g \<noteq> nil" using at1 is_path_owner [of t1 "parent t1 ?g" ?g gs] by (simp add: at_def)
    then have "blacken_root ?g (parent t1 ?g) t1 = t1" by (simp add: blacken_root_def)
    then show ?thesis
      using at1 Cons lr(1) ch G pg n1 y1 by (simp add: fix_inv_def c1)
  qed
  then show ?thesis
    using round fs nodes_up [of T f1 "f2 # gs"] nodes_up [of "up T f1" f2 gs]
    by (intro exI [of _ t1] exI [of _ "up (up T f1) f2"] exI [of _ f1] exI [of _ f2] exI [of _ gs])
      (simp add: t1_def)
qed

lemma black_top:
  assumes "at t q m \<langle>A, m, B\<rangle> gs" "color t m = Black" "invc (color t) A" "invc (color t) B" "invh (color t) A"
    "invh (color t) B" "bheight (color t) A = n" "bheight (color t) B = n" "path_ok (color t) (Suc n) gs"
    "color t nil = Black"
  shows "rb_inv t (plug \<langle>A, m, B\<rangle> gs) \<and> inorder (plug \<langle>A, m, B\<rangle> gs) = nodes_of \<langle>A, m, B\<rangle> gs"
  by (rule at_rb_inv [OF assms(1)]) (use assms in simp_all)

text \<open>The two subtrees that hang below the new top, in the four cases.\<close>

lemma black_uncle_colors:
  assumes inv: "fix_inv t z T (f1 # f2 # gs)" and T: "T = \<langle>l, z, r\<rangle>" and y: "color t (owner f1) = Red"
    and g: "color t (owner f2) = Black" and u: "rcol (color t) (sibling f2) = Black"
    and ap: "at t (parent t z) z T (f1 # f2 # gs)"
    and c': "c' = (color t)(owner f1 := Black, owner f2 := Red) \<or> c' = (color t)(z := Black, owner f2 := Red)"
  defines "n \<equiv> bheight (color t) T"
  shows "rcol c' l = Black" "invc c' l" "invh c' l" "bheight c' l = n"
    "rcol c' r = Black" "invc c' r" "invh c' r" "bheight c' r = n"
    "rcol c' (sibling f1) = Black" "invc c' (sibling f1)" "invh c' (sibling f1)" "bheight c' (sibling f1) = n"
    "rcol c' (sibling f2) = Black" "invc c' (sibling f2)" "invh c' (sibling f2)" "bheight c' (sibling f2) = n"
    "path_ok c' (Suc n) gs" "c' (owner f2) = Red" "c' nil = Black"
    "c' (owner f1) = Black \<and> c' z = Red \<or> c' (owner f1) = Red \<and> c' z = Black"
proof -
  have ag: "at t (parent t (parent t z)) (parent t z) (up T f1) (f2 # gs)" "owner f1 = parent t z"
    using at_up [OF ap] by auto
  note d1 = at_disjoint [OF ap] and d2 = at_disjoint [OF ag(1)]
  have z: "z \<notin> set_tree l" "z \<notin> set_tree r" "z \<noteq> owner f1" "z \<noteq> owner f2" "owner f1 \<noteq> owner f2"
    using ap d1 d2 T by (auto simp: at_def nodes_of_def up_simps)
  have o: "owner f2 \<noteq> nil" using ag(1) by (cases f2) (auto simp: at_def)
  have same: "rcol c' S = rcol (color t) S \<and> invc c' S = invc (color t) S \<and> bheight c' S = bheight (color t) S \<and>
      invh c' S = invh (color t) S"
    if "z \<notin> set_tree S \<and> owner f1 \<notin> set_tree S \<and> owner f2 \<notin> set_tree S" for S
  proof -
    have "x \<in> set_tree S \<Longrightarrow> c' x = color t x" for x using c' that by auto
    from color_cong [of S c' "color t", OF this] show ?thesis by blast
  qed
  have sub: "set_tree l \<subseteq> set_tree T" "set_tree r \<subseteq> set_tree T" "z \<in> set_tree T" by (auto simp: T)
  have nl: "z \<notin> set_tree l \<and> owner f1 \<notin> set_tree l \<and> owner f2 \<notin> set_tree l"
    and nr: "z \<notin> set_tree r \<and> owner f1 \<notin> set_tree r \<and> owner f2 \<notin> set_tree r"
    and n1: "z \<notin> set_tree (sibling f1) \<and> owner f1 \<notin> set_tree (sibling f1) \<and> owner f2 \<notin> set_tree (sibling f1)"
    and n2: "z \<notin> set_tree (sibling f2) \<and> owner f1 \<notin> set_tree (sibling f2) \<and> owner f2 \<notin> set_tree (sibling f2)"
    using z d1 d2 sub by (auto simp: up_simps)
  note cl = same [OF nl] and cr = same [OF nr] and c1 = same [OF n1] and c2 = same [OF n2]
  have gs: "path_ok c' m gs = path_ok (color t) m gs" for m
    by (rule path_ok_cong) (use c' d1 d2 sub in \<open>auto simp: up_simps\<close>)
  have i: "rcol (color t) l = Black" "rcol (color t) r = Black" "invc (color t) l" "invc (color t) r"
      "invh (color t) l" "invh (color t) r" "bheight (color t) l = n" "bheight (color t) r = n"
      "path_ok (color t) n (f1 # f2 # gs)" "color t z = Red" "color t nil = Black"
    using inv unfolding T fix_inv_def by (auto simp: n_def T)
  show "rcol c' l = Black" "invc c' l" "invh c' l" "bheight c' l = n" using cl i by simp_all
  show "rcol c' r = Black" "invc c' r" "invh c' r" "bheight c' r = n" using cr i by simp_all
  show "rcol c' (sibling f1) = Black" "invc c' (sibling f1)" "invh c' (sibling f1)" "bheight c' (sibling f1) = n"
    using c1 i y by simp_all
  show "rcol c' (sibling f2) = Black" "invc c' (sibling f2)" "invh c' (sibling f2)" "bheight c' (sibling f2) = n"
    using c2 i y u by simp_all
  show "path_ok c' (Suc n) gs" using gs i y g by simp
  show "c' (owner f2) = Red" using c' by auto
  show "c' nil = Black" using c' i o by auto
  show "c' (owner f1) = Black \<and> c' z = Red \<or> c' (owner f1) = Red \<and> c' z = Black" using c' z i y by auto
qed

lemma black_uncle_round:
  assumes inv: "fix_inv t z T fs" and y: "color t (parent t z) = Red"
    and u: "color t (if parent t z = left t (parent t (parent t z)) then right t (parent t (parent t z))
                     else left t (parent t (parent t z))) \<noteq> Red"
  shows "\<exists>z1 y1 t1 S. fixup_round z (parent t z) t = (z1, y1, t1) \<and> y1 \<noteq> nil \<and> color t1 y1 = Black \<and>
           rb_inv t1 S \<and> inorder S = nodes_of T fs \<and> key t1 = key t \<and> val t1 = val t \<and> next_node t1 = next_node t"
proof -
  let ?y = "parent t z" and ?c = "color t"
  from fix_inv_frames [OF inv y] obtain f1 f2 gs where
    fs: "fs = f1 # f2 # gs" and o: "owner f1 = ?y" "owner f2 = parent t ?y"
    and a1: "at t ?y z T (f1 # f2 # gs)" and a2: "at t (parent t ?y) ?y (up T f1) (f2 # gs)"
    and a3: "at t (parent t (owner f2)) (owner f2) (up (up T f1) f2) gs" and b: "?c (owner f2) = Black"
    and nz: "z \<noteq> nil" "?y \<noteq> nil"
    by metis
  define g where "g = owner f2"
  have n: "?c nil = Black" using inv by (simp add: fix_inv_def)
  have g: "parent t ?y = g" using o by (simp add: g_def)
  note s1 = at_side [OF a1 nz(1)] and s2 = at_side [OF a2 nz(2), unfolded g]
  have ub: "rcol ?c (sibling f2) = Black"
    using u s2(3) rcol_ptr [of ?c "sibling f2"] n g by (cases "?c (ptr (sibling f2))") auto
  from inv obtain l r where T: "T = \<langle>l, z, r\<rangle>" by (auto simp: fix_inv_def)
  note col = black_uncle_colors [OF inv [unfolded fs] T _ b ub a1, unfolded o(1), OF y]
  have nodes: "nodes_of T fs = nodes_of (up (up T f1) f2) gs" by (simp add: fs nodes_up)
  have unc: "?c (if ?y = left t g then right t g else left t g) \<noteq> Red" using u unfolding g .
  note a3' = a3 [folded g_def]
  have z_red: "?c z = Red" using inv fs by (auto simp: fix_inv_def)
  have zc: "z \<noteq> ?y" "z \<noteq> g" "?y \<noteq> g"
    using at_disjoint(1) [OF a1] at_disjoint(1) [OF a2] o T g_def by (auto simp: up_simps)
  show ?thesis
  proof (cases f1)
    case f1: (In_Left y0 s)
    show ?thesis
    proof (cases f2)
      case f2: (In_Left g0 U)
      let ?t1 = "set_color g Red (set_color ?y Black t)"
      have r: "fixup_round z ?y t = (z, ?y, right_rotate g ?t1)"
        using unc s1 s2 f1 f2 g by (simp add: fixup_round_def Let_def)
      define c' where "c' = ?c(?y := Black, g := Red)"
      have ct: "color (right_rotate g ?t1) = c'" and cy: "c' ?y = Black" "c' z = Red"
        using zc z_red by (simp_all add: c'_def)
      note c = col [folded g_def, OF disjI1 [OF c'_def]]
      have "at ?t1 (parent t g) g \<langle>\<langle>T, ?y, s\<rangle>, g, U\<rangle> gs" using a3' o f1 f2 g_def by simp
      note rt = right_rotate_at [OF this]
      have "rb_inv (right_rotate g ?t1) (plug \<langle>T, ?y, \<langle>s, g, U\<rangle>\<rangle> gs) \<and>
          inorder (plug \<langle>T, ?y, \<langle>s, g, U\<rangle>\<rangle> gs) = nodes_of \<langle>T, ?y, \<langle>s, g, U\<rangle>\<rangle> gs"
        by (rule black_top [OF rt]) (unfold ct, use c cy z_red f1 f2 T o g_def in auto)
      moreover have "nodes_of T fs = nodes_of \<langle>T, ?y, \<langle>s, g, U\<rangle>\<rangle> gs"
        using nodes f1 f2 o g_def by (simp add: nodes_of_def)
      ultimately show ?thesis using r nz ct cy by auto
    next
      case f2: (In_Right g0 U)
      define t0 where "t0 = set_color g Red (set_color z Black t)"
      define t1 where "t1 = right_rotate ?y t0"
      define t2 where "t2 = left_rotate g t1"
      define c' where "c' = ?c(z := Black, g := Red)"
      have cy: "c' ?y = Red" "c' z = Black" using zc y by (simp_all add: c'_def)
      note c = col [folded g_def, OF disjI2 [OF c'_def]]
      have "at t0 g ?y \<langle>\<langle>l, z, r\<rangle>, ?y, s\<rangle> (f2 # gs)" using a2 o f1 g T by (simp add: t0_def)
      from right_rotate_at [OF this] have r1: "at t1 g z \<langle>l, z, \<langle>r, ?y, s\<rangle>\<rangle> (f2 # gs)" by (simp add: t1_def)
      then have pz: "parent t1 z = g" by (simp add: at_def)
      from at_up [OF r1] have "at t1 (parent t1 g) g \<langle>U, g, \<langle>l, z, \<langle>r, ?y, s\<rangle>\<rangle>\<rangle> gs" using f2 g_def by simp
      from left_rotate_at [OF this] have r2: "at t2 (parent t1 g) z \<langle>\<langle>U, g, l\<rangle>, z, \<langle>r, ?y, s\<rangle>\<rangle> gs" by (simp add: t2_def)
      have r: "fixup_round z ?y t = (left t2 z, z, t2)"
        using unc s1 s2 f1 f2 g pz by (simp add: fixup_round_def Let_def t0_def t1_def t2_def)
      have ct: "color t2 = c'" by (simp add: t2_def t1_def t0_def c'_def)
      have "rb_inv t2 (plug \<langle>\<langle>U, g, l\<rangle>, z, \<langle>r, ?y, s\<rangle>\<rangle> gs) \<and>
          inorder (plug \<langle>\<langle>U, g, l\<rangle>, z, \<langle>r, ?y, s\<rangle>\<rangle> gs) = nodes_of \<langle>\<langle>U, g, l\<rangle>, z, \<langle>r, ?y, s\<rangle>\<rangle> gs"
        by (rule black_top [OF r2]) (unfold ct, use c cy f1 f2 T o g_def in auto)
      moreover have "nodes_of T fs = nodes_of \<langle>\<langle>U, g, l\<rangle>, z, \<langle>r, ?y, s\<rangle>\<rangle> gs"
        using nodes f1 f2 o g_def T by (simp add: nodes_of_def)
      ultimately show ?thesis using r nz ct cy by (auto simp: t2_def t1_def t0_def)
    qed
  next
    case f1: (In_Right y0 s)
    show ?thesis
    proof (cases f2)
      case f2: (In_Right g0 U)
      let ?t1 = "set_color g Red (set_color ?y Black t)"
      have r: "fixup_round z ?y t = (z, ?y, left_rotate g ?t1)"
        using unc s1 s2 f1 f2 g by (simp add: fixup_round_def Let_def)
      define c' where "c' = ?c(?y := Black, g := Red)"
      have ct: "color (left_rotate g ?t1) = c'" and cy: "c' ?y = Black" "c' z = Red"
        using zc z_red by (simp_all add: c'_def)
      note c = col [folded g_def, OF disjI1 [OF c'_def]]
      have "at ?t1 (parent t g) g \<langle>U, g, \<langle>s, ?y, T\<rangle>\<rangle> gs" using a3' o f1 f2 g_def by simp
      note rt = left_rotate_at [OF this]
      have "rb_inv (left_rotate g ?t1) (plug \<langle>\<langle>U, g, s\<rangle>, ?y, T\<rangle> gs) \<and>
          inorder (plug \<langle>\<langle>U, g, s\<rangle>, ?y, T\<rangle> gs) = nodes_of \<langle>\<langle>U, g, s\<rangle>, ?y, T\<rangle> gs"
        by (rule black_top [OF rt]) (unfold ct, use c cy z_red f1 f2 T o g_def in auto)
      moreover have "nodes_of T fs = nodes_of \<langle>\<langle>U, g, s\<rangle>, ?y, T\<rangle> gs"
        using nodes f1 f2 o g_def by (simp add: nodes_of_def)
      ultimately show ?thesis using r nz ct cy by auto
    next
      case f2: (In_Left g0 U)
      define t0 where "t0 = set_color g Red (set_color z Black t)"
      define t1 where "t1 = left_rotate ?y t0"
      define t2 where "t2 = right_rotate g t1"
      define c' where "c' = ?c(z := Black, g := Red)"
      have cy: "c' ?y = Red" "c' z = Black" using zc y by (simp_all add: c'_def)
      note c = col [folded g_def, OF disjI2 [OF c'_def]]
      have "at t0 g ?y \<langle>s, ?y, \<langle>l, z, r\<rangle>\<rangle> (f2 # gs)" using a2 o f1 g T by (simp add: t0_def)
      from left_rotate_at [OF this] have r1: "at t1 g z \<langle>\<langle>s, ?y, l\<rangle>, z, r\<rangle> (f2 # gs)" by (simp add: t1_def)
      then have pz: "parent t1 z = g" by (simp add: at_def)
      from at_up [OF r1] have "at t1 (parent t1 g) g \<langle>\<langle>\<langle>s, ?y, l\<rangle>, z, r\<rangle>, g, U\<rangle> gs" using f2 g_def by simp
      from right_rotate_at [OF this] have r2: "at t2 (parent t1 g) z \<langle>\<langle>s, ?y, l\<rangle>, z, \<langle>r, g, U\<rangle>\<rangle> gs" by (simp add: t2_def)
      have r: "fixup_round z ?y t = (left t2 z, z, t2)"
        using unc s1 s2 f1 f2 g pz by (simp add: fixup_round_def Let_def t0_def t1_def t2_def)
      have ct: "color t2 = c'" by (simp add: t2_def t1_def t0_def c'_def)
      have "rb_inv t2 (plug \<langle>\<langle>s, ?y, l\<rangle>, z, \<langle>r, g, U\<rangle>\<rangle> gs) \<and>
          inorder (plug \<langle>\<langle>s, ?y, l\<rangle>, z, \<langle>r, g, U\<rangle>\<rangle> gs) = nodes_of \<langle>\<langle>s, ?y, l\<rangle>, z, \<langle>r, g, U\<rangle>\<rangle> gs"
        by (rule black_top [OF r2]) (unfold ct, use c cy f1 f2 T o g_def in auto)
      moreover have "nodes_of T fs = nodes_of \<langle>\<langle>s, ?y, l\<rangle>, z, \<langle>r, g, U\<rangle>\<rangle> gs"
        using nodes f1 f2 o g_def T by (simp add: nodes_of_def)
      ultimately show ?thesis using r nz ct cy by (auto simp: t2_def t1_def t0_def)
    qed
  qed
qed

lemma fix_inv_done:
  assumes "fix_inv t z T fs" "color t (parent t z) \<noteq> Red"
  shows "rb_inv t (plug T fs) \<and> inorder (plug T fs) = nodes_of T fs"
proof (rule at_rb_inv)
  show "at t (parent t z) z T fs" using assms(1) by (simp add: fix_inv_def)
  show "path_ok (color t) (bheight (color t) T) fs" "invc (color t) T" "invh (color t) T" "color t nil = Black"
    using assms(1) by (auto simp: fix_inv_def)
  show "fs \<noteq> [] \<and> color t (owner (hd fs)) = Black" if "rcol (color t) T = Red"
  proof -
    from that assms(1) obtain f gs where fs: "fs = f # gs" by (cases fs) (auto simp: fix_inv_def)
    with assms(1) have "owner f = parent t z" using at_up [of t "parent t z" z T f gs] by (simp add: fix_inv_def)
    with fs assms(2) show ?thesis by (cases "color t (owner f)") auto
  qed
qed

lemma fixup_loop_ok:
  "fix_inv t z T fs \<Longrightarrow> \<exists>t1 S. fixup_loop z (parent t z) t = Some t1 \<and> rb_inv t1 S \<and> inorder S = nodes_of T fs \<and>
     key t1 = key t \<and> val t1 = val t \<and> next_node t1 = next_node t"
proof (induction "length fs" arbitrary: t z T fs rule: less_induct)
  case less
  let ?y = "parent t z"
  show ?case
  proof (cases "color t ?y = Red")
    case False
    then show ?thesis using fix_inv_done [OF less.prems False] by (auto simp: fixup_loop.simps [of z ?y t])
  next
    case y: True
    show ?thesis
    proof (cases "color t (if ?y = left t (parent t ?y) then right t (parent t ?y) else left t (parent t ?y)) = Red")
      case True
      from red_uncle_round [OF less.prems y True] obtain t1 T1 f1 f2 gs where
        fs: "fs = f1 # f2 # gs" and r: "fixup_round z ?y t = (owner f2, parent t1 (owner f2), t1)"
        and inv: "fix_inv (blacken_root (owner f2) (parent t1 (owner f2)) t1) (owner f2) T1 gs"
        and eq: "nodes_of T1 gs = nodes_of T fs" "key t1 = key t" "val t1 = val t" "next_node t1 = next_node t"
        by auto
      let ?t2 = "blacken_root (owner f2) (parent t1 (owner f2)) t1"
      have f: "parent ?t2 (owner f2) = parent t1 (owner f2)" "key ?t2 = key t" "val ?t2 = val t" "next_node ?t2 = next_node t"
        using eq by (simp_all add: blacken_root_def)
      from less.hyps [OF _ inv] fs show ?thesis
        using f eq(1) y r by (auto simp: fixup_loop.simps [of z ?y t])
    next
      case False
      from black_uncle_round [OF less.prems y False] obtain z1 y1 t1 S where
        r: "fixup_round z ?y t = (z1, y1, t1)" "y1 \<noteq> nil" "color t1 y1 = Black" "rb_inv t1 S" "inorder S = nodes_of T fs"
          "key t1 = key t" "val t1 = val t" "next_node t1 = next_node t" by auto
      then have "fixup_loop z ?y t = Some t1"
        using y by (simp add: fixup_loop.simps [of z ?y t] fixup_loop.simps [of z1 y1 t1] blacken_root_def)
      with r show ?thesis by auto
    qed
  qed
qed

section \<open>Descending\<close>

definition pos_ok :: "(nat \<Rightarrow> color) \<Rightarrow> nat tree \<Rightarrow> frame list \<Rightarrow> bool" where
  "pos_ok c T fs \<longleftrightarrow> path_ok c (bheight c T) fs \<and> invc c T \<and> invh c T \<and>
     (rcol c T = Red \<longrightarrow> fs \<noteq> [] \<and> c (owner (hd fs)) = Black)"

lemma pos_ok_down:
  "pos_ok c \<langle>l, x, r\<rangle> fs \<Longrightarrow> pos_ok c l (In_Left x r # fs)"
  "pos_ok c \<langle>l, x, r\<rangle> fs \<Longrightarrow> pos_ok c r (In_Right x l # fs)"
  by (auto simp: pos_ok_def split: if_splits) (cases "c x"; auto)+

lemma at_down:
  assumes "at t q p \<langle>l, x, r\<rangle> fs"
  shows "at t p (left t p) l (In_Left x r # fs)" "at t p (right t p) r (In_Right x l # fs)"
  using assms by (auto simp: at_def nodes_of_def)

text \<open>The keys in front of the position are smaller than \<open>k\<close>, those behind it are not.\<close>

definition key_split :: "('k::linorder, 'v) rbtree \<Rightarrow> 'k \<Rightarrow> frame list \<Rightarrow> bool" where
  "key_split t k fs \<longleftrightarrow> (\<forall>x \<in> set (before fs). key t x < k) \<and> (\<forall>x \<in> set (behind fs). k \<le> key t x) \<and>
     (fs \<noteq> [] \<longrightarrow> (k \<le> key t (owner (hd fs)) \<longleftrightarrow> (\<exists>x s. hd fs = In_Left x s)))"

lemma descend_ok:
  assumes "at t q p T fs" "pos_ok (color t) T fs" "key_split t k fs" "sorted (map (key t) (nodes_of T fs))"
  shows "\<exists>q' fs'. descend t k p q = Some q' \<and> at t q' nil \<langle>\<rangle> fs' \<and> pos_ok (color t) \<langle>\<rangle> fs' \<and> key_split t k fs' \<and>
           nodes_of \<langle>\<rangle> fs' = nodes_of T fs \<and> (T \<noteq> \<langle>\<rangle> \<or> fs \<noteq> [] \<longrightarrow> fs' \<noteq> [])"
  using assms
proof (induction T arbitrary: q p fs)
  case Leaf
  then have p: "p = nil" by (simp add: at_def)
  with Leaf show ?case by (auto simp: descend.simps [of t k nil q] intro!: exI [of _ fs])
next
  case (Node l x r)
  then have p: "p = x" "p \<noteq> nil" by (auto simp: at_def)
  have srt: "\<forall>y \<in> set_tree l. key t y \<le> key t x" "\<forall>y \<in> set_tree r. key t x \<le> key t y"
    using Node.prems(4) by (auto simp: nodes_of_def sorted_append)
  show ?case
  proof (cases "k \<le> key t p")
    case True
    have "key_split t k (In_Left x r # fs)"
      using Node.prems(3) srt(2) True p by (auto simp: key_split_def)
    moreover have "sorted (map (key t) (nodes_of l (In_Left x r # fs)))"
      using Node.prems(4) by (simp add: nodes_of_def)
    ultimately show ?thesis
      using Node.IH(1) [OF at_down(1) [OF Node.prems(1)] pos_ok_down(1) [OF Node.prems(2)]] True p
      by (simp add: descend.simps [of t k x q] nodes_of_def)
  next
    case False
    have "key_split t k (In_Right x l # fs)"
      using Node.prems(3) srt(1) False p by (auto simp: key_split_def)
    moreover have "sorted (map (key t) (nodes_of r (In_Right x l # fs)))"
      using Node.prems(4) by (simp add: nodes_of_def)
    ultimately show ?thesis
      using Node.IH(2) [OF at_down(2) [OF Node.prems(1)] pos_ok_down(2) [OF Node.prems(2)]] False p
      by (simp add: descend.simps [of t k x q] nodes_of_def)
  qed
qed

section \<open>Contents\<close>

definition rb_wf :: "('k, 'v) rbtree \<Rightarrow> nat tree \<Rightarrow> bool" where
  "rb_wf t T \<longleftrightarrow> rb_inv t T \<and> (\<forall>x \<in> set_tree T. x < next_node t) \<and> 0 < next_node t"

definition entries :: "('k, 'v) rbtree \<Rightarrow> nat tree \<Rightarrow> ('k \<times> 'v) list" where
  "entries t T = map (\<lambda>x. (key t x, val t x)) (inorder T)"

text \<open>The tree holds the entries \<open>es\<close>, in key order.\<close>

definition rb_rep :: "('k::linorder, 'v) rbtree \<Rightarrow> ('k \<times> 'v) list \<Rightarrow> bool" where
  "rb_rep t es \<longleftrightarrow> (\<exists>T. rb_wf t T \<and> entries t T = es) \<and> sorted (map fst es)"

lemma at_cong:
  assumes "at t q p T fs" "root t' = root t"
    and "\<And>x. x \<in> set (nodes_of T fs) \<Longrightarrow> parent t' x = parent t x \<and> left t' x = left t x \<and> right t' x = right t x"
  shows "at t' q p T fs"
proof -
  have "is_tree t' q p T = is_tree t q p T" by (rule is_tree_cong) (use assms(3) in \<open>simp add: nodes_of_def\<close>)
  moreover have "is_path t' q p fs = is_path t q p fs"
    by (rule is_path_cong) (use assms(2,3) in \<open>auto simp: nodes_of_def\<close>)
  ultimately show ?thesis using assms(1) by (simp add: at_def)
qed

lemma at_root: "rb_inv t T \<Longrightarrow> at t nil (root t) T []"
  by (simp add: rb_inv_def at_def nodes_of_def)

text \<open>Linking a fresh red leaf at an empty position.\<close>

lemma attach_ok:
  assumes pos: "at t q nil \<langle>\<rangle> fs" "pos_ok (color t) \<langle>\<rangle> fs" "key_split t (key t z) fs" "fs \<noteq> []"
    and z: "z \<noteq> nil" "z \<notin> set (nodes_of \<langle>\<rangle> fs)" "left t z = nil" "right t z = nil" "color t z = Red"
    and n: "color t nil = Black"
  shows "fix_inv (attach z q t) z \<langle>\<langle>\<rangle>, z, \<langle>\<rangle>\<rangle> fs" "parent (attach z q t) z = q"
    "key (attach z q t) = key t" "val (attach z q t) = val t" "next_node (attach z q t) = next_node t"
proof -
  obtain f gs where fs: "fs = f # gs" using pos(4) by (cases fs) auto
  from pos(1) fs have p: "is_path t q nil (f # gs)" and d: "distinct (nodes_of \<langle>\<rangle> fs)" by (simp_all add: at_def)
  have o: "owner f = q" "q \<noteq> nil" using p by (cases f; auto)+
  have side: "key t z \<le> key t q \<longleftrightarrow> (\<exists>x s. f = In_Left x s)" using pos(3) fs o by (simp add: key_split_def)
  have zq: "z \<noteq> q" using z(2) o fs owner_in [of f gs] by (auto simp: nodes_of_def)
  show "parent (attach z q t) z = q" "key (attach z q t) = key t" "val (attach z q t) = val t"
    "next_node (attach z q t) = next_node t"
    by (simp_all add: attach_def Let_def)
  have "is_path (attach z q t) q z fs"
  proof (cases f)
    case (In_Left x s)
    with p fs d z zq o side show ?thesis
      by (auto simp: attach_def Let_def nodes_of_def)
  next
    case (In_Right x s)
    with p fs d z zq o side show ?thesis
      by (auto simp: attach_def Let_def nodes_of_def)
  qed
  moreover have "is_tree (attach z q t) q z \<langle>\<langle>\<rangle>, z, \<langle>\<rangle>\<rangle>"
    using z zq by (simp add: attach_def Let_def)
  moreover have "distinct (nodes_of \<langle>\<langle>\<rangle>, z, \<langle>\<rangle>\<rangle> fs)" using d z(2) by (auto simp: nodes_of_def)
  moreover have "color (attach z q t) = color t" by (simp add: attach_def Let_def)
  ultimately show "fix_inv (attach z q t) z \<langle>\<langle>\<rangle>, z, \<langle>\<rangle>\<rangle> fs"
    using pos(2,4) z n by (simp add: fix_inv_def at_def pos_ok_def attach_def Let_def)
qed

lemma new_node_at:
  assumes "rb_wf t T" "new_node nil nil nil k v Red t = (z, t1)"
  shows "z \<noteq> nil" "z \<notin> set_tree T" "at t1 nil (root t1) T []" "pos_ok (color t1) T []" "color t1 nil = Black"
    "left t1 z = nil" "right t1 z = nil" "color t1 z = Red" "key t1 z = k" "val t1 z = v" "entries t1 T = entries t T"
    "root t1 = root t" "next_node t1 = Suc z" "\<forall>x \<in> set_tree T. x < z"
proof -
  show z: "z \<noteq> nil" "z \<notin> set_tree T" "left t1 z = nil" "right t1 z = nil" "color t1 z = Red" "key t1 z = k"
      "val t1 z = v" "root t1 = root t" "next_node t1 = Suc z" "\<forall>x \<in> set_tree T. x < z"
    using assms by (auto simp: rb_wf_def new_node_def Let_def)
  have same: "\<And>x. x \<in> set_tree T \<Longrightarrow> parent t1 x = parent t x \<and> left t1 x = left t x \<and> right t1 x = right t x"
    and c: "\<And>x. x \<in> set_tree T \<Longrightarrow> color t1 x = color t x"
    and kv: "\<And>x. x \<in> set_tree T \<Longrightarrow> key t1 x = key t x \<and> val t1 x = val t x"
    using assms by (auto simp: rb_wf_def new_node_def Let_def)
  have inv: "rb_inv t T" using assms(1) by (simp add: rb_wf_def)
  show "at t1 nil (root t1) T []"
    using at_cong [OF at_root [OF inv] z(8)] same z(8) by (simp add: nodes_of_def)
  show "pos_ok (color t1) T []"
    using inv color_cong [of T "color t1" "color t", OF c] by (simp add: pos_ok_def rb_inv_def)
  show "color t1 nil = Black" using inv z(1) assms(2) by (auto simp: rb_inv_def new_node_def Let_def)
  show "entries t1 T = entries t T" using kv by (simp add: entries_def)
qed

lemma insert_kv_ok:
  assumes "rb_rep t es"
  shows "\<exists>t1. insert_kv k v t = Some t1 \<and> rb_rep t1 (ins_entry k v es)"
proof -
  from assms obtain T where wf: "rb_wf t T" and es: "entries t T = es" and srt: "sorted (map fst es)"
    by (auto simp: rb_rep_def)
  obtain z t1 where nn: "new_node nil nil nil k v Red t = (z, t1)" by fastforce
  note n = new_node_at [OF wf nn]
  show ?thesis
  proof (cases "root t1 = nil")
    case True
    then have T: "T = \<langle>\<rangle>" using n(3) is_tree_root [of t1 nil "root t1" T] is_tree_nonnil by (auto simp: at_def)
    let ?t2 = "set_root z (set_color z Black (set_parent z nil t1))"
    have "insert_kv k v t = Some ?t2" using True nn by (simp add: insert_kv_def insert_node_def)
    moreover have "rb_wf ?t2 \<langle>\<langle>\<rangle>, z, \<langle>\<rangle>\<rangle>" using n by (simp add: rb_wf_def rb_inv_def)
    moreover have "entries ?t2 \<langle>\<langle>\<rangle>, z, \<langle>\<rangle>\<rangle> = ins_entry k v es"
      using es T n by (simp add: entries_def ins_entry_def)
    ultimately show ?thesis using sorted_ins_entry [OF srt] by (auto simp: rb_rep_def)
  next
    case False
    have "key_split t1 k []" by (simp add: key_split_def)
    moreover have "map (key t1) (nodes_of T []) = map fst es"
      unfolding es [symmetric] n(11) [symmetric] by (simp add: nodes_of_def entries_def)
    ultimately obtain q fs where
      q: "descend t1 k (root t1) nil = Some q" "at t1 q nil \<langle>\<rangle> fs" "pos_ok (color t1) \<langle>\<rangle> fs" "key_split t1 k fs"
        "nodes_of \<langle>\<rangle> fs = inorder T" "T \<noteq> \<langle>\<rangle> \<longrightarrow> fs \<noteq> []"
      using descend_ok [OF n(3,4), of k] srt by (auto simp: nodes_of_def)
    have "T \<noteq> \<langle>\<rangle>" using False n(3) by (auto simp: at_def)
    then have fs: "fs \<noteq> []" using q(6) by simp
    have zn: "z \<notin> set (nodes_of \<langle>\<rangle> fs)" using q(5) n(2) by simp
    note a = attach_ok [OF q(2,3) _ fs n(1) zn n(6,7,8,5), unfolded n(9), OF q(4)]
    from fixup_loop_ok [OF a(1)] obtain t2 S where
      r: "rbtree_insert_fixup z (attach z q t1) = Some t2" "rb_inv t2 S" "inorder S = nodes_of \<langle>\<langle>\<rangle>, z, \<langle>\<rangle>\<rangle> fs"
        "key t2 = key t1" "val t2 = val t1" "next_node t2 = Suc z"
      using a(2-5) n(13) by (auto simp: rbtree_insert_fixup_def)
    have "insert_kv k v t = Some t2"
      using nn False q(1) r(1) n(9) by (simp add: insert_kv_def insert_node_def)
    moreover have "rb_wf t2 S"
    proof -
      have "set_tree S = Set.insert z (set_tree T)"
        using r(3) q(5) by (metis (no_types, opaque_lifting) Un_insert_left Un_insert_right append_Cons append_Nil
            inorder.simps inorder_plug list.simps(15) nodes_of_def set_append set_inorder sup_bot_left)
      then show ?thesis using r(2,6) n(14) by (auto simp: rb_wf_def less_Suc_eq)
    qed
    moreover have "entries t2 S = ins_entry k v es"
    proof -
      let ?e = "\<lambda>x. (key t1 x, val t1 x)"
      have es2: "es = map ?e (before fs) @ map ?e (behind fs)"
        using es n(11) q(5) by (simp add: entries_def nodes_of_def flip: map_append)
      have "entries t2 S = map ?e (before fs) @ (k, v) # map ?e (behind fs)"
        using r(3-5) n(9,10) by (simp add: entries_def nodes_of_def)
      also have "\<dots> = ins_entry k v es"
        unfolding es2 by (rule ins_entry_split [symmetric]) (use q(4) in \<open>auto simp: key_split_def\<close>)
      finally show ?thesis .
    qed
    ultimately show ?thesis using sorted_ins_entry [OF srt] by (auto simp: rb_rep_def)
  qed
qed

lemma rb_rep_empty: "rb_rep (new_rbtree dk dv) []"
  unfolding rb_rep_def by (intro conjI exI [of _ "\<langle>\<rangle>"]) (simp_all add: new_rbtree_def rb_wf_def rb_inv_def entries_def)

lemma find_from_node_ok:
  assumes "is_tree t q p T" "sorted (map (key t) (inorder T))"
  shows "\<exists>z. find_from_node t k p = Some z \<and>
           (if k \<in> key t ` set_tree T then z \<in> set_tree T \<and> key t z = k else z = nil)"
  using assms
proof (induction T arbitrary: q p)
  case Leaf
  then show ?case by (simp add: find_from_node.simps [of t k nil])
next
  case (Node l x r)
  then have p: "p = x" "x \<noteq> nil" and l: "is_tree t x (left t x) l" and r: "is_tree t x (right t x) r" by auto
  have s: "sorted (map (key t) (inorder l))" "sorted (map (key t) (inorder r))"
    "\<forall>y \<in> set_tree l. key t y \<le> key t x" "\<forall>y \<in> set_tree r. key t x \<le> key t y"
    using Node.prems(2) by (auto simp: sorted_append)
  show ?case
  proof (cases "key t x" k rule: linorder_cases)
    case equal
    then show ?thesis using p by (simp add: find_from_node.simps [of t k x])
  next
    case less
    then have "k \<notin> key t ` set_tree l" using s(3) by force
    with less have "k \<in> key t ` set_tree \<langle>l, x, r\<rangle> \<longleftrightarrow> k \<in> key t ` set_tree r" by auto
    moreover have "find_from_node t k p = find_from_node t k (right t x)"
      using less p by (auto simp: find_from_node.simps [of t k x])
    ultimately show ?thesis using Node.IH(2) [OF r s(2)] by (auto split: if_splits)
  next
    case greater
    then have "k \<notin> key t ` set_tree r" using s(4) by force
    with greater have "k \<in> key t ` set_tree \<langle>l, x, r\<rangle> \<longleftrightarrow> k \<in> key t ` set_tree l" by auto
    moreover have "find_from_node t k p = find_from_node t k (left t x)"
      using greater less_not_sym [OF greater] p by (auto simp: find_from_node.simps [of t k x])
    ultimately show ?thesis using Node.IH(1) [OF l s(1)] by (auto split: if_splits)
  qed
qed

section \<open>Insertion and lookup\<close>

text \<open>C12: inserting into a red-black tree ends, and gives a red-black tree again (links consistent, root and
  sentinel black, no red node with a red child, equal black heights) whose entries in order are the old
  ones with the new one in front of the first key that is not smaller.\<close>

theorem rb_insert_refines_sorted_list:
  assumes "rb_rep t es"
  shows "\<exists>t1. insert_kv k v t = Some t1 \<and> rb_rep t1 (ins_entry k v es)"
  by (rule insert_kv_ok [OF assms])

theorem rb_insert_refines_sorted_list_witness:
  "\<exists>t1 t2. insert_kv (5 :: nat) ''a'' (new_rbtree 0 []) = Some t1 \<and> insert_kv 3 ''b'' t1 = Some t2 \<and>
     rb_rep t2 [(3, ''b''), (5, ''a'')]"
  using rb_insert_refines_sorted_list [OF rb_rep_empty, of "5 :: nat" "''a''" 0 "[]"]
    rb_insert_refines_sorted_list [where k = 3 and v = "''b''"]
  by (fastforce simp: ins_entry_def)

fun insert_all :: "('k::linorder \<times> 'v) list \<Rightarrow> ('k, 'v) rbtree \<Rightarrow> ('k, 'v) rbtree option" where
  "insert_all [] t = Some t"
| "insert_all ((k, v) # kvs) t = (case insert_kv k v t of None \<Rightarrow> None | Some t1 \<Rightarrow> insert_all kvs t1)"

fun ins_all :: "('k::linorder \<times> 'v) list \<Rightarrow> ('k \<times> 'v) list \<Rightarrow> ('k \<times> 'v) list" where
  "ins_all [] es = es"
| "ins_all ((k, v) # kvs) es = ins_all kvs (ins_entry k v es)"

lemma insert_all_ok: "rb_rep t es \<Longrightarrow> \<exists>t1. insert_all kvs t = Some t1 \<and> rb_rep t1 (ins_all kvs es)"
proof (induction kvs arbitrary: t es)
  case (Cons kv kvs)
  obtain k v where kv: "kv = (k, v)" by fastforce
  from insert_kv_ok [OF Cons.prems, of k v] Cons.IH show ?case by (auto simp: kv)
qed simp

lemma set_ins_all: "set (ins_all kvs es) = set kvs \<union> set es"
proof (induction kvs es rule: ins_all.induct)
  case (2 k v kvs es)
  have "set (takeWhile (\<lambda>e. fst e < k) es) \<union> set (dropWhile (\<lambda>e. fst e < k) es) = set es"
    by (metis set_append takeWhile_dropWhile_id)
  then have "set (ins_entry k v es) = Set.insert (k, v) (set es)" by (auto simp: ins_entry_def)
  with 2 show ?case by simp
qed simp

lemma find_in_search_tree:
  assumes tr: "is_tree t nil (root t) T" and es: "entries t T = es" "sorted (map fst es)"
  shows "\<exists>r. find k t = Some r \<and>
           (if k \<in> fst ` set es then \<exists>v. r = Inr v \<and> (k, v) \<in> set es
            else r = Inl (Thrown ''The key is not existed!''))"
proof -
  have "map (key t) (inorder T) = map fst es" unfolding es(1) [symmetric] by (simp add: entries_def)
  with es(2) have "sorted (map (key t) (inorder T))" by simp
  from find_from_node_ok [OF tr this] obtain z where z: "find_node k t = Some z"
    "if k \<in> key t ` set_tree T then z \<in> set_tree T \<and> key t z = k else z = nil"
    by (auto simp: find_node_def)
  have "nil \<notin> set_tree T" using is_tree_nonnil [OF tr] .
  moreover have set_es: "set es = (\<lambda>x. (key t x, val t x)) ` set_tree T"
    by (simp add: entries_def flip: es(1))
  moreover have fst: "fst ` set es = key t ` set_tree T" by (simp add: set_es image_image)
  ultimately show ?thesis
    using z unfolding fst set_es find_def z(1) by (cases "z = nil") (auto intro: image_eqI [of _ _ z] split: if_splits)
qed

lemma find_ok:
  assumes "rb_rep t es"
  shows "\<exists>r. find k t = Some r \<and>
           (if k \<in> fst ` set es then \<exists>v. r = Inr v \<and> (k, v) \<in> set es
            else r = Inl (Thrown ''The key is not existed!''))"
proof -
  from assms obtain T where "is_tree t nil (root t) T" "entries t T = es" "sorted (map fst es)"
    by (auto simp: rb_rep_def rb_wf_def rb_inv_def)
  then show ?thesis by (rule find_in_search_tree)
qed

text \<open>Whatever pairs are inserted into an empty tree, looking a key up returns a value that was inserted
  under it, and throws exactly when there is none.\<close>

theorem rb_find_after_inserts:
  "\<exists>t r. insert_all kvs (new_rbtree dk dv) = Some t \<and> find k t = Some r \<and>
     (if k \<in> fst ` set kvs then \<exists>v. r = Inr v \<and> (k, v) \<in> set kvs else r = Inl (Thrown ''The key is not existed!''))"
proof -
  from insert_all_ok [OF rb_rep_empty, of kvs dk dv] obtain t where
    t: "insert_all kvs (new_rbtree dk dv) = Some t" "rb_rep t (ins_all kvs [])" by auto
  have "set (ins_all kvs []) = set kvs" using set_ins_all [of kvs "[]"] by simp
  with t(1) find_ok [OF t(2), of k] show ?thesis by metis
qed

section \<open>Balance\<close>

lemma bheight_size: "invh c T \<Longrightarrow> 2 ^ bheight c T \<le> size1 T"
proof (induction T)
  case (Node l x r)
  then have "2 ^ bheight c l \<le> size1 l" "2 ^ bheight c l \<le> size1 r" by auto
  then have "2 * 2 ^ bheight c l \<le> size1 l + size1 r" by linarith
  then show ?case by (auto simp: size1_size)
qed simp

lemma height_bheight: "invc c T \<Longrightarrow> invh c T \<Longrightarrow> height T \<le> 2 * bheight c T + (if rcol c T = Red then 1 else 0)"
proof (induction T)
  case (Node l x r)
  have "height l \<le> 2 * bheight c l + (if rcol c l = Red then 1 else 0)"
    "height r \<le> 2 * bheight c r + (if rcol c r = Red then 1 else 0)"
    using Node by auto
  moreover have "bheight c r = bheight c l" using Node.prems(2) by simp
  ultimately show ?case using Node.prems(1) by (cases "c x") (auto split: if_splits)
qed simp

text \<open>C14: the tree that inserting \<open>n\<close> pairs gives has at most the height \<open>2 * log2 (n + 1)\<close>, so no
  search or insertion visits more nodes than that.\<close>

theorem rb_height_is_logarithmic:
  "\<exists>t T. insert_all kvs (new_rbtree dk dv) = Some t \<and> is_tree t nil (root t) T \<and> size T = length kvs \<and>
     2 ^ ((height T + 1) div 2) \<le> length kvs + 1"
proof -
  from insert_all_ok [OF rb_rep_empty, of kvs dk dv] obtain t where
    t: "insert_all kvs (new_rbtree dk dv) = Some t" "rb_rep t (ins_all kvs [])" by auto
  then obtain T where wf: "rb_wf t T" "entries t T = ins_all kvs []" by (auto simp: rb_rep_def)
  then have inv: "is_tree t nil (root t) T" "invc (color t) T" "invh (color t) T" "rcol (color t) T = Black"
    by (simp_all add: rb_wf_def rb_inv_def)
  have len: "length (ins_all kvs es) = length kvs + length es" for es :: "('a \<times> 'b) list"
  proof (induction kvs es rule: ins_all.induct)
    case (2 k v kvs es)
    have "length (takeWhile (\<lambda>e. fst e < k) es) + length (dropWhile (\<lambda>e. fst e < k) es) = length es"
      by (metis length_append takeWhile_dropWhile_id)
    then have "length (ins_entry k v es) = Suc (length es)" by (simp add: ins_entry_def)
    with 2 show ?case by simp
  qed simp
  have sz: "size T = length kvs"
    using arg_cong [OF wf(2), of length] len [of "[]"] by (simp add: entries_def)
  have "(height T + 1) div 2 \<le> bheight (color t) T" using height_bheight [OF inv(2,3)] inv(4) by simp
  then have "(2 :: nat) ^ ((height T + 1) div 2) \<le> 2 ^ bheight (color t) T" by (rule power_increasing) simp
  also have "\<dots> \<le> length kvs + 1" using bheight_size [OF inv(3)] sz by (simp add: size1_size)
  finally show ?thesis using t(1) inv(1) sz by blast
qed

end
