(* ===== verification/Rb_Delete.thy ===== *)
theory Rb_Delete
  imports Rb_Tree
begin

text \<open>
  include/data_structure/rbtree.h, the rest of the class: neighbours in key order, removal with its
  fix-up, the copy and move constructors, the destructor and the self-test. Removal from a red-black tree
  keeps the search order; the last section runs the code to the places where it goes wrong afterwards.
\<close>

section \<open>Neighbours in order\<close>

partial_function (option) maximum :: "('k, 'v) rbtree \<Rightarrow> nat \<Rightarrow> nat option" where
  "maximum t ret = (if right t ret \<noteq> nil then maximum t (right t ret) else Some ret)"

partial_function (option) minimum :: "('k, 'v) rbtree \<Rightarrow> nat \<Rightarrow> nat option" where
  "minimum t ret = (if left t ret \<noteq> nil then minimum t (left t ret) else Some ret)"

partial_function (option) climb_left :: "('k, 'v) rbtree \<Rightarrow> nat \<Rightarrow> nat \<Rightarrow> nat option" where
  "climb_left t ret father =
     (if father \<noteq> nil \<and> ret = left t father then climb_left t father (parent t father) else Some father)"

partial_function (option) climb_right :: "('k, 'v) rbtree \<Rightarrow> nat \<Rightarrow> nat \<Rightarrow> nat option" where
  "climb_right t ret father =
     (if father \<noteq> nil \<and> ret = right t father then climb_right t father (parent t father) else Some father)"

definition find_predecessor :: "('k, 'v) rbtree \<Rightarrow> nat \<Rightarrow> nat option" where
  "find_predecessor t replaced =
     (if left t replaced \<noteq> nil then maximum t (left t replaced) else climb_left t replaced (parent t replaced))"

definition find_successor :: "('k, 'v) rbtree \<Rightarrow> nat \<Rightarrow> nat option" where
  "find_successor t replaced =
     (if right t replaced \<noteq> nil then minimum t (right t replaced) else climb_right t replaced (parent t replaced))"

section \<open>Removal\<close>

definition swap_node :: "nat \<Rightarrow> nat \<Rightarrow> ('k, 'v) rbtree \<Rightarrow> ('k, 'v) rbtree" where
  "swap_node a b t =
     t\<lparr>key := (key t)(a := key t b, b := key t a), val := (val t)(a := val t b, b := val t a)\<rparr>"

text \<open>The loop of \<open>rbtree_delete_fixup\<close>; the branches that \<open>break\<close> return.\<close>

partial_function (option) rbtree_delete_fixup :: "nat \<Rightarrow> ('k, 'v) rbtree \<Rightarrow> ('k, 'v) rbtree option" where
  "rbtree_delete_fixup z t =
     (if z \<noteq> root t \<and> color t z = Black then
        if z = left t (parent t z) then
          let y = right t (parent t z) in
          if color t y = Red then
            let t1 = set_color y Black (set_color (left t y) Red t)
            in Some (left_rotate (parent t1 y) t1)
          else if right t y \<noteq> nil then
            let t1 = set_color (parent t y) Black (set_color (right t y) Black (set_color y (color t (parent t y)) t))
            in Some (left_rotate (parent t1 y) t1)
          else if left t y \<noteq> nil then
            let t1 = set_color (parent t y) Black (set_color (left t y) (color t (parent t y)) t);
                t2 = right_rotate y t1
            in Some (left_rotate (parent t2 (parent t2 y)) t2)
          else rbtree_delete_fixup (parent t y) (set_color (parent t y) Black (set_color y Red t))
        else
          let y = left t (parent t z) in
          if color t y = Red then
            let t1 = set_color y Black (set_color (right t y) Red t)
            in Some (right_rotate (parent t1 y) t1)
          else if left t y \<noteq> nil then
            let t1 = set_color (parent t y) Black (set_color (left t y) Black (set_color y (color t (parent t y)) t))
            in Some (right_rotate (parent t1 y) t1)
          else if right t y \<noteq> nil then
            let t1 = set_color (parent t y) Black (set_color (right t y) (color t (parent t y)) t);
                t2 = left_rotate y t1
            in Some (right_rotate (parent t2 (parent t2 y)) t2)
          else rbtree_delete_fixup (parent t y) (set_color (parent t y) Black (set_color y Red t))
      else Some t)"

text \<open>A node without children leaves the tree and is freed.\<close>

definition unlink :: "nat \<Rightarrow> ('k, 'v) rbtree \<Rightarrow> ('k, 'v) rbtree" where
  "unlink z t =
     (let t1 = (if z = root t then set_root nil t
                else if z = left t (parent t z) then set_left (parent t z) nil t
                else set_right (parent t z) nil t)
      in t1\<lparr>deleted := z # deleted t1\<rparr>)"

text \<open>The asserts compare the values (not the keys) of the node, its successor and its right child.\<close>

partial_function (option) delete_node ::
  "nat \<Rightarrow> ('k, 'v::linorder) rbtree \<Rightarrow> ('k, 'v) rbtree cxx option" where
  "delete_node z t =
     (if right t z \<noteq> nil \<and> left t z \<noteq> nil then
        case find_successor t z of
          None \<Rightarrow> None
        | Some suc \<Rightarrow>
            if \<not> val t z < val t suc then Some (Inl Assert_Failed)
            else if \<not> val t suc \<le> val t (right t z) then Some (Inl Assert_Failed)
            else delete_node suc (swap_node z suc t)
      else if left t z \<noteq> nil \<or> right t z \<noteq> nil then
        let child = (if left t z \<noteq> nil then left t z else right t z)
        in delete_node child (swap_node z child t)
      else
        case (if color t z = Black then rbtree_delete_fixup z t else Some t) of
          None \<Rightarrow> None
        | Some t1 \<Rightarrow> Some (Inr (unlink z t1)))"

definition remove :: "'k::linorder \<Rightarrow> ('k, 'v::linorder) rbtree \<Rightarrow> ('k, 'v) rbtree cxx option" where
  "remove k t =
     (case find_node k t of
        None \<Rightarrow> None
      | Some target \<Rightarrow> if target = nil then Some (Inr t) else delete_node target t)"

declare descend.simps [code] fixup_loop.simps [code] find_from_node.simps [code] maximum.simps [code]
  minimum.simps [code] climb_left.simps [code] climb_right.simps [code] rbtree_delete_fixup.simps [code]
  delete_node.simps [code]

section \<open>Neighbours are neighbours\<close>

lemma minimum_ok:
  assumes "at t q p T fs" "T \<noteq> \<langle>\<rangle>"
  shows "minimum t p = Some (hd (inorder T)) \<and> hd (inorder T) \<noteq> nil"
  using assms
proof (induction T arbitrary: q p fs)
  case (Node l x r)
  note d = at_down [OF Node.prems(1)]
  have p: "p = x" "x \<noteq> nil" using Node.prems(1) by (auto simp: at_def)
  show ?case
  proof (cases l)
    case Leaf
    then have "left t x = nil" using d(1) p by (simp add: at_def)
    then show ?thesis using Leaf p by (simp add: minimum.simps [of t x])
  next
    case (Node l1 y l2)
    then have "left t x \<noteq> nil" "l \<noteq> \<langle>\<rangle>" using d(1) p by (auto simp: at_def)
    then show ?thesis using Node.IH(1) [OF d(1)] p by (simp add: minimum.simps [of t x])
  qed
qed simp

lemma maximum_ok:
  assumes "at t q p T fs" "T \<noteq> \<langle>\<rangle>"
  shows "maximum t p = Some (last (inorder T)) \<and> last (inorder T) \<noteq> nil"
  using assms
proof (induction T arbitrary: q p fs)
  case (Node l x r)
  note d = at_down [OF Node.prems(1)]
  have p: "p = x" "x \<noteq> nil" using Node.prems(1) by (auto simp: at_def)
  show ?case
  proof (cases r)
    case Leaf
    then have "right t x = nil" using d(2) p by (simp add: at_def)
    then show ?thesis using Leaf p by (simp add: maximum.simps [of t x])
  next
    case (Node l1 y l2)
    then have "right t x \<noteq> nil" "r \<noteq> \<langle>\<rangle>" using d(2) p by (auto simp: at_def)
    then show ?thesis using Node.IH(2) [OF d(2)] p by (simp add: maximum.simps [of t x])
  qed
qed simp

definition hd_or_nil :: "nat list \<Rightarrow> nat" where
  "hd_or_nil xs = (case xs of [] \<Rightarrow> nil | x # _ \<Rightarrow> x)"

lemma climb_right_ok: "at t q p T fs \<Longrightarrow> p \<noteq> nil \<Longrightarrow> climb_right t p q = Some (hd_or_nil (behind fs))"
proof (induction fs arbitrary: q p T)
  case Nil
  then show ?case by (simp add: at_def climb_right.simps [of t p nil] hd_or_nil_def)
next
  case (Cons f fs)
  note u = at_up [OF Cons.prems(1)]
  have q: "q \<noteq> nil" using Cons.prems(1) by (cases f) (auto simp: at_def)
  show ?case
  proof (cases f)
    case (In_Left x s)
    then have "p \<noteq> right t q" "q = x" using at_side(2) [OF Cons.prems] u by auto
    then show ?thesis using In_Left q by (simp add: climb_right.simps [of t p x] hd_or_nil_def)
  next
    case (In_Right x s)
    then have "p = right t q" using at_side(2) [OF Cons.prems] by blast
    then have "climb_right t p q = climb_right t q (parent t q)" using q by (subst climb_right.simps) simp
    with Cons.IH [of "parent t q" q "up T f"] u q In_Right show ?thesis by auto
  qed
qed

lemma climb_left_ok:
  "at t q p T fs \<Longrightarrow> p \<noteq> nil \<Longrightarrow> climb_left t p q = Some (hd_or_nil (rev (before fs)))"
proof (induction fs arbitrary: q p T)
  case Nil
  then show ?case by (simp add: at_def climb_left.simps [of t p nil] hd_or_nil_def)
next
  case (Cons f fs)
  note u = at_up [OF Cons.prems(1)]
  have q: "q \<noteq> nil" using Cons.prems(1) by (cases f) (auto simp: at_def)
  show ?case
  proof (cases f)
    case (In_Right x s)
    then have "p \<noteq> left t q" "q = x" using at_side(1) [OF Cons.prems] u by auto
    then show ?thesis using In_Right q by (simp add: climb_left.simps [of t p x] hd_or_nil_def)
  next
    case (In_Left x s)
    then have "p = left t q" using at_side(1) [OF Cons.prems] by blast
    then have "climb_left t p q = climb_left t q (parent t q)" using q by (subst climb_left.simps) simp
    with Cons.IH [of "parent t q" q "up T f"] u q In_Left show ?thesis by auto
  qed
qed

lemma find_successor_at:
  assumes "at t q z \<langle>l, z, r\<rangle> fs"
  shows "find_successor t z = Some (hd_or_nil (inorder r @ behind fs))"
proof -
  have z: "z \<noteq> nil" "parent t z = q" using assms by (auto simp: at_def)
  note d = at_down(2) [OF assms]
  show ?thesis
  proof (cases r)
    case Leaf
    with d climb_right_ok [OF assms z(1)] z show ?thesis by (simp add: find_successor_def at_def)
  next
    case (Node r1 y r2)
    then have "right t z \<noteq> nil" "inorder r \<noteq> []" using d by (auto simp: at_def)
    with minimum_ok [OF d] Node show ?thesis
      by (cases "inorder r1") (simp_all add: find_successor_def hd_or_nil_def)
  qed
qed

lemma find_predecessor_at:
  assumes "at t q z \<langle>l, z, r\<rangle> fs"
  shows "find_predecessor t z = Some (hd_or_nil (rev (before fs @ inorder l)))"
proof -
  have z: "z \<noteq> nil" "parent t z = q" using assms by (auto simp: at_def)
  note d = at_down(1) [OF assms]
  show ?thesis
  proof (cases l)
    case Leaf
    with d climb_left_ok [OF assms z(1)] z show ?thesis by (simp add: find_predecessor_def at_def)
  next
    case (Node l1 y l2)
    then have "left t z \<noteq> nil" "inorder l \<noteq> []" using d by (auto simp: at_def)
    moreover have "l \<noteq> \<langle>\<rangle>" using Node by simp
    ultimately show ?thesis using maximum_ok [OF d]
      by (cases "inorder l" rule: rev_cases) (simp_all add: find_predecessor_def hd_or_nil_def)
  qed
qed

text \<open>Every node of a tree is the focus of some position.\<close>

lemma focus_exists:
  assumes "at t q p T fs" "x \<in> set_tree T"
  shows "\<exists>l r gs. at t (parent t x) x \<langle>l, x, r\<rangle> gs \<and> nodes_of \<langle>l, x, r\<rangle> gs = nodes_of T fs \<and>
           (pos_ok c T fs \<longrightarrow> pos_ok c \<langle>l, x, r\<rangle> gs)"
  using assms
proof (induction T arbitrary: q p fs)
  case (Node l y r)
  note d = at_down [OF Node.prems(1)]
  have p: "p = y" "parent t y = q" using Node.prems(1) by (auto simp: at_def)
  consider "x = y" | "x \<in> set_tree l" | "x \<in> set_tree r" using Node.prems(2) by auto
  then show ?case
  proof cases
    case 1
    with Node.prems(1) p show ?thesis by blast
  next
    case 2
    have "nodes_of l (In_Left y r # fs) = nodes_of \<langle>l, y, r\<rangle> fs" by (simp add: nodes_of_def)
    with Node.IH(1) [OF d(1) 2] p pos_ok_down(1) [of c l y r fs] show ?thesis by metis
  next
    case 3
    have "nodes_of r (In_Right y l # fs) = nodes_of \<langle>l, y, r\<rangle> fs" by (simp add: nodes_of_def)
    with Node.IH(2) [OF d(2) 3] p pos_ok_down(2) [of c l y r fs] show ?thesis by metis
  qed
qed simp

section \<open>The fix-up keeps the search order\<close>

lemma subtrees_plug: "A \<in> subtrees T \<Longrightarrow> A \<in> subtrees (plug T fs)"
  by (induction T fs rule: plug.induct) auto

text \<open>What the fix-up leaves of a tree with the focus \<open>T\<close> below the frames \<open>fs\<close>.\<close>

definition keeps :: "nat tree \<Rightarrow> frame list \<Rightarrow> ('k, 'v) rbtree \<Rightarrow> ('k, 'v) rbtree \<Rightarrow> bool" where
  "keeps T fs t t1 \<longleftrightarrow>
     (\<exists>S. is_tree t1 nil (root t1) S \<and> inorder S = nodes_of T fs \<and> subtrees T \<subseteq> subtrees S) \<and>
     color t1 nil = Black \<and> key t1 = key t \<and> val t1 = val t \<and> next_node t1 = next_node t \<and> deleted t1 = deleted t"

lemma keeps_at:
  assumes "at t1 q p T1 fs1" "nodes_of T1 fs1 = nodes_of T fs" "subtrees T \<subseteq> subtrees T1"
    and "color t1 nil = Black" "key t1 = key t" "val t1 = val t" "next_node t1 = next_node t" "deleted t1 = deleted t"
  shows "keeps T fs t t1"
proof -
  have "subtrees T \<subseteq> subtrees (plug T1 fs1)" using assms(3) subtrees_plug by blast
  then show ?thesis using at_plug [OF assms(1)] assms(2,4-) by (auto simp: keeps_def inorder_plug)
qed

text \<open>On the way up every sibling is there, and a red one has two children.\<close>

definition frames_full :: "(nat \<Rightarrow> color) \<Rightarrow> frame list \<Rightarrow> bool" where
  "frames_full c fs \<longleftrightarrow> (\<forall>f \<in> set fs. \<exists>l y r. sibling f = \<langle>l, y, r\<rangle> \<and> (c y = Red \<longrightarrow> l \<noteq> \<langle>\<rangle> \<and> r \<noteq> \<langle>\<rangle>))"

lemma frames_full_cong:
  "(\<And>x. x \<in> set (before fs) \<union> set (behind fs) \<Longrightarrow> c' x = c x) \<Longrightarrow> frames_full c fs \<Longrightarrow> frames_full c' fs"
proof (induction fs)
  case (Cons f fs)
  have "frames_full c' fs"
  proof (rule Cons.IH)
    show "c' x = c x" if "x \<in> set (before fs) \<union> set (behind fs)" for x
      using that Cons.prems(1) frames_in [of fs f] by blast
  qed (use Cons.prems(2) in \<open>simp add: frames_full_def\<close>)
  moreover obtain l y r where "sibling f = \<langle>l, y, r\<rangle>" "c y = Red \<longrightarrow> l \<noteq> \<langle>\<rangle> \<and> r \<noteq> \<langle>\<rangle>"
    using Cons.prems(2) by (auto simp: frames_full_def)
  moreover from this have "c' y = c y" using Cons.prems(1) [of y] sibling_in [of f fs] by auto
  ultimately show ?case by (auto simp: frames_full_def)
qed (simp add: frames_full_def)

lemma root_in_path: "is_path t q p fs \<Longrightarrow> fs \<noteq> [] \<Longrightarrow> root t \<in> set (before fs) \<union> set (behind fs)"
proof (induction t q p fs rule: is_path.induct)
  case (2 t q p x s fs)
  then show ?case by (cases fs) auto
next
  case (3 t q p x s fs)
  then show ?case by (cases fs) auto
qed simp

lemma at_not_root: "at t q p T (f # fs) \<Longrightarrow> T \<noteq> \<langle>\<rangle> \<Longrightarrow> p \<noteq> root t"
  using root_in_path [of t q p "f # fs"] is_tree_root [of t q p T] by (auto simp: at_def nodes_of_def)

lemma delete_rotate_left:
  assumes "at t q x \<langle>T, x, \<langle>b, y, c\<rangle>\<rangle> fs" "color t nil = Black"
  shows "keeps T (In_Left x \<langle>b, y, c\<rangle> # fs) t (left_rotate x t)"
  by (rule keeps_at [OF left_rotate_at [OF assms(1)]]) (use assms(2) in \<open>auto simp: nodes_of_def\<close>)

lemma delete_rotate_right:
  assumes "at t q x \<langle>\<langle>b, y, c\<rangle>, x, T\<rangle> fs" "color t nil = Black"
  shows "keeps T (In_Right x \<langle>b, y, c\<rangle> # fs) t (right_rotate x t)"
  by (rule keeps_at [OF right_rotate_at [OF assms(1)]]) (use assms(2) in \<open>auto simp: nodes_of_def\<close>)

lemma keeps_trans_data:
  "keeps T fs t' t1 \<Longrightarrow> nodes_of T fs = nodes_of T fs' \<Longrightarrow> key t' = key t \<Longrightarrow> val t' = val t \<Longrightarrow>
   next_node t' = next_node t \<Longrightarrow> deleted t' = deleted t \<Longrightarrow> keeps T fs' t t1"
  by (auto simp: keeps_def)

text \<open>The double rotation: first the sibling, with its only child on the near side, then the parent.\<close>

lemma delete_double_left:
  assumes "at t q x \<langle>T, x, \<langle>\<langle>b1, w, b2\<rangle>, y, c\<rangle>\<rangle> fs" "color t nil = Black"
  defines "t1 \<equiv> right_rotate y t"
  shows "keeps T (In_Left x \<langle>\<langle>b1, w, b2\<rangle>, y, c\<rangle> # fs) t (left_rotate (parent t1 (parent t1 y)) t1)"
proof -
  have x: "x \<noteq> nil" "right t x = y" using assms(1) by (auto simp: at_def)
  have "at t x y \<langle>\<langle>b1, w, b2\<rangle>, y, c\<rangle> (In_Right x T # fs)" using at_down(2) [OF assms(1)] x by simp
  from right_rotate_at [OF this] have a: "at t1 x w \<langle>b1, w, \<langle>b2, y, c\<rangle>\<rangle> (In_Right x T # fs)" by (simp add: t1_def)
  then have "parent t1 y = w" "parent t1 w = x" by (auto simp: at_def)
  moreover have "keeps T (In_Left x \<langle>b1, w, \<langle>b2, y, c\<rangle>\<rangle> # fs) t1 (left_rotate x t1)"
    by (rule delete_rotate_left) (use at_up [OF a] assms(2) in \<open>simp_all add: t1_def\<close>)
  ultimately show ?thesis
    by (simp only:) (erule keeps_trans_data, simp_all add: nodes_of_def t1_def)
qed

lemma delete_double_right:
  assumes "at t q x \<langle>\<langle>c, y, \<langle>b1, w, b2\<rangle>\<rangle>, x, T\<rangle> fs" "color t nil = Black"
  defines "t1 \<equiv> left_rotate y t"
  shows "keeps T (In_Right x \<langle>c, y, \<langle>b1, w, b2\<rangle>\<rangle> # fs) t (right_rotate (parent t1 (parent t1 y)) t1)"
proof -
  have x: "x \<noteq> nil" "left t x = y" using assms(1) by (auto simp: at_def)
  have "at t x y \<langle>c, y, \<langle>b1, w, b2\<rangle>\<rangle> (In_Left x T # fs)" using at_down(1) [OF assms(1)] x by simp
  from left_rotate_at [OF this] have a: "at t1 x w \<langle>\<langle>c, y, b1\<rangle>, w, b2\<rangle> (In_Left x T # fs)" by (simp add: t1_def)
  then have "parent t1 y = w" "parent t1 w = x" by (auto simp: at_def)
  moreover have "keeps T (In_Right x \<langle>\<langle>c, y, b1\<rangle>, w, b2\<rangle> # fs) t1 (right_rotate x t1)"
    by (rule delete_rotate_right) (use at_up [OF a] assms(2) in \<open>simp_all add: t1_def\<close>)
  ultimately show ?thesis
    by (simp only:) (erule keeps_trans_data, simp_all add: nodes_of_def t1_def)
qed

lemma delete_step_left:
  assumes at: "at t q p T (In_Left q \<langle>b, y, c\<rangle> # fs)" (is "at t q p T (?f # fs)") and T: "T \<noteq> \<langle>\<rangle>"
    and col: "color t p = Black" "color t nil = Black" "color t y = Red \<longrightarrow> b \<noteq> \<langle>\<rangle> \<and> c \<noteq> \<langle>\<rangle>"
  shows "(\<exists>t1. rbtree_delete_fixup p t = Some t1 \<and> keeps T (?f # fs) t t1) \<or>
    rbtree_delete_fixup p t = rbtree_delete_fixup q (set_color q Black (set_color y Red t))"
proof -
  have p: "p \<noteq> nil" "p \<noteq> root t" "parent t p = q"
    using at_not_root [OF at T] at T is_tree_root [of t q p T] by (cases T; auto simp: at_def)+
  have a: "at t (parent t q) q \<langle>T, q, \<langle>b, y, c\<rangle>\<rangle> fs" using at_up [OF at] by simp
  have y: "is_tree t q y \<langle>b, y, c\<rangle>" "y \<noteq> nil" "parent t y = q" using at by (auto simp: at_def)
  then have bc: "b = \<langle>\<rangle> \<longleftrightarrow> left t y = nil" "c = \<langle>\<rangle> \<longleftrightarrow> right t y = nil" by (cases b; cases c; auto)+
  have lr: "left t q = p" "right t q = y" using at by (auto simp: at_def)
  define t1 where "t1 = set_color y Black (set_color (left t y) Red t)"
  define t2 where "t2 = set_color q Black (set_color (right t y) Black (set_color y (color t q) t))"
  define t3 where "t3 = set_color q Black (set_color (left t y) (color t q) t)"
  have unf: "rbtree_delete_fixup p t =
      (if color t y = Red then Some (left_rotate q t1)
       else if right t y \<noteq> nil then Some (left_rotate q t2)
       else if left t y \<noteq> nil then
         Some (left_rotate (parent (right_rotate y t3) (parent (right_rotate y t3) y)) (right_rotate y t3))
       else rbtree_delete_fixup q (set_color q Black (set_color y Red t)))"
    by (subst rbtree_delete_fixup.simps) (use p col(1) lr y in \<open>simp add: Let_def t1_def t2_def t3_def\<close>)
  consider "color t y = Red" | "color t y \<noteq> Red" "c \<noteq> \<langle>\<rangle>" | b1 w b2 where "color t y \<noteq> Red" "c = \<langle>\<rangle>" "b = \<langle>b1, w, b2\<rangle>"
    | "color t y \<noteq> Red" "c = \<langle>\<rangle>" "b = \<langle>\<rangle>"
    by (cases b) auto
  then show ?thesis
  proof cases
    case 1
    then have "left t y \<noteq> nil" using col(3) bc by simp
    then have "keeps T (In_Left q \<langle>b, y, c\<rangle> # fs) t1 (left_rotate q t1)"
      by (intro delete_rotate_left [of t1 "parent t q"]) (use a col(2) y in \<open>simp_all add: t1_def\<close>)
    then have "keeps T (?f # fs) t (left_rotate q t1)" by (rule keeps_trans_data) (simp_all add: t1_def)
    with 1 unf show ?thesis by simp
  next
    case 2
    have "keeps T (In_Left q \<langle>b, y, c\<rangle> # fs) t2 (left_rotate q t2)"
      by (intro delete_rotate_left [of t2 "parent t q"]) (use a col(2) y in \<open>simp_all add: t2_def\<close>)
    then have "keeps T (?f # fs) t (left_rotate q t2)" by (rule keeps_trans_data) (simp_all add: t2_def)
    with 2 unf bc show ?thesis by simp
  next
    case 3
    have "keeps T (In_Left q \<langle>b, y, c\<rangle> # fs) t3
        (left_rotate (parent (right_rotate y t3) (parent (right_rotate y t3) y)) (right_rotate y t3))"
      unfolding 3
      by (intro delete_double_left [of t3 "parent t q"]) (use a 3 bc col(2) in \<open>simp_all add: t3_def\<close>)
    then have "keeps T (?f # fs) t
        (left_rotate (parent (right_rotate y t3) (parent (right_rotate y t3) y)) (right_rotate y t3))"
      by (rule keeps_trans_data) (simp_all add: t3_def)
    with 3 unf bc show ?thesis by simp
  next
    case 4
    with unf bc rec show ?thesis by simp
  qed
qed

lemma delete_step_right:
  assumes at: "at t q p T (In_Right q \<langle>b, y, c\<rangle> # fs)" (is "at t q p T (?f # fs)") and T: "T \<noteq> \<langle>\<rangle>"
    and col: "color t p = Black" "color t nil = Black" "color t y = Red \<longrightarrow> b \<noteq> \<langle>\<rangle> \<and> c \<noteq> \<langle>\<rangle>"
  shows "(\<exists>t1. rbtree_delete_fixup p t = Some t1 \<and> keeps T (?f # fs) t t1) \<or>
    rbtree_delete_fixup p t = rbtree_delete_fixup q (set_color q Black (set_color y Red t))"
proof -
  have p: "p \<noteq> nil" "p \<noteq> root t" "parent t p = q"
    using at_not_root [OF at T] at T is_tree_root [of t q p T] by (cases T; auto simp: at_def)+
  have a: "at t (parent t q) q \<langle>\<langle>b, y, c\<rangle>, q, T\<rangle> fs" using at_up [OF at] by simp
  have y: "is_tree t q y \<langle>b, y, c\<rangle>" "y \<noteq> nil" "parent t y = q" using at by (auto simp: at_def)
  then have bc: "b = \<langle>\<rangle> \<longleftrightarrow> left t y = nil" "c = \<langle>\<rangle> \<longleftrightarrow> right t y = nil" by (cases b; cases c; auto)+
  have lr: "left t q = y" "right t q = p" using at by (auto simp: at_def)
  have py: "p \<noteq> y" using at_side(1) [OF at p(1)] lr by auto
  define t1 where "t1 = set_color y Black (set_color (right t y) Red t)"
  define t2 where "t2 = set_color q Black (set_color (left t y) Black (set_color y (color t q) t))"
  define t3 where "t3 = set_color q Black (set_color (right t y) (color t q) t)"
  have unf: "rbtree_delete_fixup p t =
      (if color t y = Red then Some (right_rotate q t1)
       else if left t y \<noteq> nil then Some (right_rotate q t2)
       else if right t y \<noteq> nil then
         Some (right_rotate (parent (left_rotate y t3) (parent (left_rotate y t3) y)) (left_rotate y t3))
       else rbtree_delete_fixup q (set_color q Black (set_color y Red t)))"
    by (subst rbtree_delete_fixup.simps) (use p col(1) lr y py in \<open>simp add: Let_def t1_def t2_def t3_def\<close>)
  consider "color t y = Red" | "color t y \<noteq> Red" "b \<noteq> \<langle>\<rangle>" | b1 w b2 where "color t y \<noteq> Red" "b = \<langle>\<rangle>" "c = \<langle>b1, w, b2\<rangle>"
    | "color t y \<noteq> Red" "c = \<langle>\<rangle>" "b = \<langle>\<rangle>"
    by (cases c) auto
  then show ?thesis
  proof cases
    case 1
    then have "right t y \<noteq> nil" using col(3) bc by simp
    then have "keeps T (In_Right q \<langle>b, y, c\<rangle> # fs) t1 (right_rotate q t1)"
      by (intro delete_rotate_right [of t1 "parent t q"]) (use a col(2) y in \<open>simp_all add: t1_def\<close>)
    then have "keeps T (?f # fs) t (right_rotate q t1)" by (rule keeps_trans_data) (simp_all add: t1_def)
    with 1 unf show ?thesis by simp
  next
    case 2
    have "keeps T (In_Right q \<langle>b, y, c\<rangle> # fs) t2 (right_rotate q t2)"
      by (intro delete_rotate_right [of t2 "parent t q"]) (use a col(2) y in \<open>simp_all add: t2_def\<close>)
    then have "keeps T (?f # fs) t (right_rotate q t2)" by (rule keeps_trans_data) (simp_all add: t2_def)
    with 2 unf bc show ?thesis by simp
  next
    case 3
    have "keeps T (In_Right q \<langle>b, y, c\<rangle> # fs) t3
        (right_rotate (parent (left_rotate y t3) (parent (left_rotate y t3) y)) (left_rotate y t3))"
      unfolding 3
      by (intro delete_double_right [of t3 "parent t q"]) (use a 3 bc col(2) in \<open>simp_all add: t3_def\<close>)
    then have "keeps T (?f # fs) t
        (right_rotate (parent (left_rotate y t3) (parent (left_rotate y t3) y)) (left_rotate y t3))"
      by (rule keeps_trans_data) (simp_all add: t3_def)
    with 3 unf bc show ?thesis by simp
  next
    case 4
    with unf bc rec show ?thesis by simp
  qed
qed

lemma delete_fixup_ok:
  assumes "at t q p T fs" "T \<noteq> \<langle>\<rangle>" "color t nil = Black" "frames_full (color t) fs"
  shows "\<exists>t1. rbtree_delete_fixup p t = Some t1 \<and> keeps T fs t t1"
  using assms
proof (induction fs arbitrary: t q p T)
  case Nil
  then have "rbtree_delete_fixup p t = Some t" by (subst rbtree_delete_fixup.simps) (simp add: at_def)
  with keeps_at [OF Nil.prems(1) refl order_refl Nil.prems(3) refl refl refl refl] show ?case by blast
next
  case (Cons f fs)
  note at = Cons.prems(1)
  note u = at_up [OF at]
  show ?case
  proof (cases "color t p = Black")
    case False
    with keeps_at [OF at refl order_refl Cons.prems(3) refl refl refl refl] show ?thesis
      by (simp add: rbtree_delete_fixup.simps [of p t])
  next
    case black: True
    let ?t = "\<lambda>y. set_color q Black (set_color y Red t)"
    from Cons.prems(4) obtain b y c where s: "sibling f = \<langle>b, y, c\<rangle>" "color t y = Red \<longrightarrow> b \<noteq> \<langle>\<rangle> \<and> c \<noteq> \<langle>\<rangle>"
      by (auto simp: frames_full_def)
    have out: "y \<notin> set (before fs) \<union> set (behind fs)" "owner f \<notin> set (before fs) \<union> set (behind fs)"
      using at_disjoint(4,6) [OF at] s(1) by auto
    have "frames_full (color (?t y)) fs"
      by (rule frames_full_cong [of fs _ "color t"]) (use Cons.prems(4) out u in \<open>auto simp: frames_full_def\<close>)
    moreover have "at (?t y) (parent t q) q (up T f) fs" using conjunct1 [OF u] by simp
    moreover have "y \<noteq> nil" using at s(1) by (cases f; auto simp: at_def)
    then have "color (?t y) nil = Black" using Cons.prems(3) by simp
    moreover have "up T f \<noteq> \<langle>\<rangle>" by (cases f) simp_all
    ultimately obtain t1 where t1: "rbtree_delete_fixup q (?t y) = Some t1" "keeps (up T f) fs (?t y) t1"
      using Cons.IH [of "?t y" "parent t q" q "up T f"] by blast
    have "subtrees T \<subseteq> subtrees (up T f)" by (cases f) auto
    with t1 have "keeps T (f # fs) t t1" by (fastforce simp: keeps_def nodes_up)
    moreover have "(\<exists>t1. rbtree_delete_fixup p t = Some t1 \<and> keeps T (f # fs) t t1) \<or>
        rbtree_delete_fixup p t = rbtree_delete_fixup q (?t y)"
    proof (cases f)
      case (In_Left x r)
      with s(1) u have "f = In_Left q \<langle>b, y, c\<rangle>" by simp
      with delete_step_left [of t q p T b y c fs] at Cons.prems(2,3) black s(2) show ?thesis by blast
    next
      case (In_Right x r)
      with s(1) u have "f = In_Right q \<langle>b, y, c\<rangle>" by simp
      with delete_step_right [of t q p T b y c fs] at Cons.prems(2,3) black s(2) show ?thesis by blast
    qed
    ultimately show ?thesis using t1(1) by auto
  qed
qed

section \<open>Removal takes one entry out\<close>

lemma unlink_at:
  assumes "at t q z \<langle>\<langle>\<rangle>, z, \<langle>\<rangle>\<rangle> fs"
  shows "at (unlink z t) q nil \<langle>\<rangle> fs"
proof -
  have z: "z \<noteq> nil" "parent t z = q" "is_path t q z fs" using assms by (auto simp: at_def)
  have d: "distinct (before fs @ behind fs)" using assms by (auto simp: at_def nodes_of_def)
  show ?thesis
  proof (cases fs)
    case Nil
    with z d show ?thesis by (simp add: at_def nodes_of_def unlink_def set_root_def)
  next
    case (Cons f gs)
    have n: "z \<noteq> root t" using at_not_root [OF assms [unfolded Cons]] by simp
    note side = at_side [OF assms [unfolded Cons] z(1)]
    have "is_path (unlink z t) q nil fs"
    proof (cases f)
      case (In_Left x s)
      let ?t = "set_left x nil t"
      have "unlink z t = ?t\<lparr>deleted := z # deleted ?t\<rparr>" "x = q" using In_Left Cons n z side by (auto simp: unlink_def)
      moreover have "is_path (?t\<lparr>deleted := ds\<rparr>) q nil fs = is_path ?t q nil fs" for ds
        by (rule is_path_cong) simp_all
      moreover have "is_path ?t q nil fs" using z(3) d Cons In_Left by auto
      ultimately show ?thesis by simp
    next
      case (In_Right x s)
      let ?t = "set_right x nil t"
      have "unlink z t = ?t\<lparr>deleted := z # deleted ?t\<rparr>" "x = q" using In_Right Cons n z side by (auto simp: unlink_def)
      moreover have "is_path (?t\<lparr>deleted := ds\<rparr>) q nil fs = is_path ?t q nil fs" for ds
        by (rule is_path_cong) simp_all
      moreover have "is_path ?t q nil fs" using z(3) d Cons In_Right by auto
      ultimately show ?thesis by simp
    qed
    with d show ?thesis by (simp add: at_def nodes_of_def)
  qed
qed

lemma unlink_fields [simp]:
  "key (unlink z t) = key t" "val (unlink z t) = val t" "color (unlink z t) = color t"
  "next_node (unlink z t) = next_node t" "deleted (unlink z t) = z # deleted t"
  by (simp_all add: unlink_def setters Let_def)

lemma subtree_at:
  assumes "at t q p T fs" "\<langle>l, x, r\<rangle> \<in> subtrees T"
  shows "\<exists>gs. at t (parent t x) x \<langle>l, x, r\<rangle> gs \<and> nodes_of \<langle>l, x, r\<rangle> gs = nodes_of T fs"
  using assms
proof (induction T arbitrary: q p fs)
  case (Node l' y r')
  note d = at_down [OF Node.prems(1)]
  have p: "p = y" "parent t y = q" using Node.prems(1) by (auto simp: at_def)
  consider "\<langle>l, x, r\<rangle> = \<langle>l', y, r'\<rangle>" | "\<langle>l, x, r\<rangle> \<in> subtrees l'" | "\<langle>l, x, r\<rangle> \<in> subtrees r'" using Node.prems(2) by auto
  then show ?case
  proof cases
    case 1
    with Node.prems(1) p show ?thesis by blast
  next
    case 2
    have "nodes_of l' (In_Left y r' # fs) = nodes_of \<langle>l', y, r'\<rangle> fs" by (simp add: nodes_of_def)
    with Node.IH(1) [OF d(1) 2] show ?thesis by metis
  next
    case 3
    have "nodes_of r' (In_Right y l' # fs) = nodes_of \<langle>l', y, r'\<rangle> fs" by (simp add: nodes_of_def)
    with Node.IH(2) [OF d(2) 3] show ?thesis by metis
  qed
qed simp

text \<open>One node \<open>d\<close> of \<open>xs\<close> is freed; the others form a tree with the entries \<open>es\<close>.\<close>

definition one_freed :: "('k, 'v) rbtree \<Rightarrow> nat set \<Rightarrow> ('k \<times> 'v) list \<Rightarrow> ('k, 'v) rbtree \<Rightarrow> bool" where
  "one_freed t xs es t1 \<longleftrightarrow>
     (\<exists>S d. is_tree t1 nil (root t1) S \<and> distinct (inorder S) \<and> entries t1 S = es \<and>
        xs = Set.insert d (set_tree S) \<and> d \<notin> set_tree S \<and> deleted t1 = d # deleted t) \<and>
     next_node t1 = next_node t \<and> color t1 nil = Black"

abbreviation entry :: "('k, 'v) rbtree \<Rightarrow> nat \<Rightarrow> 'k \<times> 'v" where
  "entry t x \<equiv> (key t x, val t x)"

lemma frames_full_path_ok: "path_ok c n fs \<Longrightarrow> 0 < n \<Longrightarrow> frames_full c fs"
proof (induction fs arbitrary: n)
  case (Cons f fs)
  have "path_ok c (if c (owner f) = Black then Suc n else n) fs" using Cons.prems(1) by simp
  with Cons.IH Cons.prems(2) have "frames_full c fs" by (auto split: if_splits)
  moreover have "\<exists>l y r. sibling f = \<langle>l, y, r\<rangle> \<and> (c y = Red \<longrightarrow> l \<noteq> \<langle>\<rangle> \<and> r \<noteq> \<langle>\<rangle>)"
    using Cons.prems by (cases "sibling f") auto
  ultimately show ?case by (simp add: frames_full_def)
qed (simp add: frames_full_def)

lemma delete_leaf_ok:
  assumes at: "at t q z \<langle>\<langle>\<rangle>, z, \<langle>\<rangle>\<rangle> fs" and nil: "color t nil = Black"
    and path: "path_ok (color t) (bheight (color t) \<langle>\<langle>\<rangle>, z, \<langle>\<rangle>\<rangle>) fs"
  shows "\<exists>t1. delete_node z t = Some (Inr t1) \<and>
           one_freed t (set (nodes_of \<langle>\<langle>\<rangle>, z, \<langle>\<rangle>\<rangle> fs)) (map (entry t) (before fs @ behind fs)) t1"
proof -
  have z: "z \<noteq> nil" "left t z = nil" "right t z = nil" using at by (auto simp: at_def)
  let ?T = "\<langle>\<langle>\<rangle>, z, \<langle>\<rangle>\<rangle>"
  have "\<exists>t1. (if color t z = Black then rbtree_delete_fixup z t else Some t) = Some t1 \<and> keeps ?T fs t t1"
  proof (cases "color t z = Black")
    case True
    then have "frames_full (color t) fs" using path by (intro frames_full_path_ok) auto
    from delete_fixup_ok [OF at _ nil this] True show ?thesis by simp
  next
    case False
    with keeps_at [OF at refl order_refl nil refl refl refl refl] show ?thesis by simp
  qed
  then obtain t1 S where t1: "(if color t z = Black then rbtree_delete_fixup z t else Some t) = Some t1"
      "is_tree t1 nil (root t1) S" "inorder S = nodes_of ?T fs" "subtrees ?T \<subseteq> subtrees S"
    and same: "color t1 nil = Black" "key t1 = key t" "val t1 = val t" "next_node t1 = next_node t" "deleted t1 = deleted t"
    unfolding keeps_def by blast
  have d: "distinct (nodes_of ?T fs)" using at by (simp add: at_def)
  have "at t1 nil (root t1) S []" using t1(2,3) d by (simp add: at_def nodes_of_def)
  from subtree_at [OF this, of "\<langle>\<rangle>" z "\<langle>\<rangle>"] t1(3,4) obtain gs where
    g: "at t1 (parent t1 z) z ?T gs" "nodes_of ?T gs = nodes_of ?T fs"
    by (auto simp: nodes_of_def)
  have "z \<notin> set (before gs)" "z \<notin> set (behind gs)" using g(1) by (auto simp: at_def nodes_of_def)
  with g(2) have eq: "before gs = before fs" "behind gs = behind fs"
    using d append_Cons_eq_iff [of z "before gs" "behind gs" "before fs" "behind fs"] by (auto simp: nodes_of_def)
  have a: "at (unlink z t1) (parent t1 z) nil \<langle>\<rangle> gs" by (rule unlink_at [OF g(1)])
  let ?S = "plug \<langle>\<rangle> gs"
  have io: "inorder ?S = before fs @ behind fs" using eq by (simp add: inorder_plug nodes_of_def)
  then have st: "set_tree ?S = set (before fs) \<union> set (behind fs)" by (metis set_append set_inorder)
  have "one_freed t (set (nodes_of ?T fs)) (map (entry t) (before fs @ behind fs)) (unlink z t1)"
    unfolding one_freed_def
    using at_plug [OF a] io st d same by (intro conjI exI [of _ ?S] exI [of _ z]) (auto simp: nodes_of_def entries_def)
  moreover have "delete_node z t = Some (Inr (unlink z t1))"
    using z t1(1) by (subst delete_node.simps) simp
  ultimately show ?thesis by blast
qed

lemma swap_fields [simp]:
  "parent (swap_node a b t) = parent t" "left (swap_node a b t) = left t" "right (swap_node a b t) = right t"
  "color (swap_node a b t) = color t" "root (swap_node a b t) = root t" "next_node (swap_node a b t) = next_node t"
  "deleted (swap_node a b t) = deleted t"
  by (simp_all add: swap_node_def)

lemma swap_at [simp]: "at (swap_node a b t) q p T fs = at t q p T fs"
  using at_cong [of t q p T fs "swap_node a b t"] at_cong [of "swap_node a b t" q p T fs t] by auto

lemma swap_entry:
  "entry (swap_node a b t) a = entry t b" "entry (swap_node a b t) b = entry t a"
  "x \<noteq> a \<Longrightarrow> x \<noteq> b \<Longrightarrow> entry (swap_node a b t) x = entry t x"
  by (simp_all add: swap_node_def)

lemma map_swap_entry: "a \<notin> set xs \<Longrightarrow> b \<notin> set xs \<Longrightarrow> map (entry (swap_node a b t)) xs = map (entry t) xs"
  by (induction xs) (auto simp: swap_node_def)

lemma one_freed_swap: "one_freed (swap_node a b t) xs es t1 = one_freed t xs es t1"
  by (simp add: one_freed_def)

text \<open>In a red-black tree an only child is a red leaf.\<close>

lemma only_child:
  assumes "invc c T" "invh c T" "bheight c T = 0"
  shows "T = \<langle>\<rangle> \<or> (\<exists>x. T = \<langle>\<langle>\<rangle>, x, \<langle>\<rangle>\<rangle> \<and> c x = Red)"
proof (cases T)
  case (Node l x r)
  have leaf: "rcol c A = Black \<Longrightarrow> bheight c A = 0 \<Longrightarrow> A = \<langle>\<rangle>" for A by (cases A) auto
  have "c x = Red" using assms(3) Node by (cases "c x") auto
  moreover have "l = \<langle>\<rangle>" "r = \<langle>\<rangle>" using assms Node \<open>c x = Red\<close> by (auto intro: leaf)
  ultimately show ?thesis using Node by simp
qed simp

lemma delete_small_ok:
  assumes at: "at t q z \<langle>l, z, r\<rangle> fs" and nil: "color t nil = Black" and pos: "pos_ok (color t) \<langle>l, z, r\<rangle> fs"
    and small: "l = \<langle>\<rangle> \<or> r = \<langle>\<rangle>"
  shows "\<exists>t1. delete_node z t = Some (Inr t1) \<and> one_freed t (set (nodes_of \<langle>l, z, r\<rangle> fs))
           (map (entry t) (before fs @ inorder l @ inorder r @ behind fs)) t1"
proof -
  have d: "distinct (nodes_of \<langle>l, z, r\<rangle> fs)" using at by (simp add: at_def)
  note down = at_down [OF at] and dok = pos_ok_down [OF pos]
  have "l = \<langle>\<rangle> \<or> (\<exists>x. l = \<langle>\<langle>\<rangle>, x, \<langle>\<rangle>\<rangle>)" "r = \<langle>\<rangle> \<or> (\<exists>x. r = \<langle>\<langle>\<rangle>, x, \<langle>\<rangle>\<rangle>)"
    using only_child [of "color t" l] only_child [of "color t" r] pos small by (auto simp: pos_ok_def)
  with small consider "l = \<langle>\<rangle>" "r = \<langle>\<rangle>" | x where "l = \<langle>\<langle>\<rangle>, x, \<langle>\<rangle>\<rangle>" "r = \<langle>\<rangle>" | x where "l = \<langle>\<rangle>" "r = \<langle>\<langle>\<rangle>, x, \<langle>\<rangle>\<rangle>" by blast
  then show ?thesis
  proof cases
    case 1
    with delete_leaf_ok [of t q z fs] at nil pos show ?thesis by (simp add: pos_ok_def nodes_of_def)
  next
    case 2
    let ?t = "swap_node z x t" and ?gs = "In_Left z \<langle>\<rangle> # fs"
    have ptrs: "left t z = x" "right t z = nil" "x \<noteq> nil" using at 2 by (auto simp: at_def)
    have a: "at ?t z x \<langle>\<langle>\<rangle>, x, \<langle>\<rangle>\<rangle> ?gs" using down(1) 2 ptrs by simp
    have b: "path_ok (color ?t) (bheight (color ?t) \<langle>\<langle>\<rangle>, x, \<langle>\<rangle>\<rangle>) ?gs" using dok(1) unfolding pos_ok_def 2 swap_fields by blast
    have "color ?t nil = Black" using nil by simp
    from delete_leaf_ok [OF a this b] obtain t1 where t1: "delete_node x ?t = Some (Inr t1)"
        "one_freed ?t (set (nodes_of \<langle>\<langle>\<rangle>, x, \<langle>\<rangle>\<rangle> ?gs)) (map (entry ?t) (before ?gs @ behind ?gs)) t1"
      by blast
    have "delete_node z t = delete_node x ?t" using ptrs by (subst delete_node.simps) (simp add: Let_def)
    moreover have "map (entry ?t) (before ?gs @ behind ?gs) = map (entry t) (before fs @ inorder l @ inorder r @ behind fs)"
      using d 2 swap_entry(1) [of z x t] by (simp add: map_swap_entry nodes_of_def)
    moreover have "nodes_of \<langle>\<langle>\<rangle>, x, \<langle>\<rangle>\<rangle> ?gs = nodes_of \<langle>l, z, r\<rangle> fs" using 2 by (simp add: nodes_of_def)
    ultimately show ?thesis using t1 unfolding one_freed_swap by metis
  next
    case 3
    let ?t = "swap_node z x t" and ?gs = "In_Right z \<langle>\<rangle> # fs"
    have ptrs: "left t z = nil" "right t z = x" "x \<noteq> nil" using at 3 by (auto simp: at_def)
    have a: "at ?t z x \<langle>\<langle>\<rangle>, x, \<langle>\<rangle>\<rangle> ?gs" using down(2) 3 ptrs by simp
    have b: "path_ok (color ?t) (bheight (color ?t) \<langle>\<langle>\<rangle>, x, \<langle>\<rangle>\<rangle>) ?gs" using dok(2) unfolding pos_ok_def 3 swap_fields by blast
    have "color ?t nil = Black" using nil by simp
    from delete_leaf_ok [OF a this b] obtain t1 where t1: "delete_node x ?t = Some (Inr t1)"
        "one_freed ?t (set (nodes_of \<langle>\<langle>\<rangle>, x, \<langle>\<rangle>\<rangle> ?gs)) (map (entry ?t) (before ?gs @ behind ?gs)) t1"
      by blast
    have "delete_node z t = delete_node x ?t" using ptrs by (subst delete_node.simps) (simp add: Let_def)
    moreover have "map (entry ?t) (before ?gs @ behind ?gs) = map (entry t) (before fs @ inorder l @ inorder r @ behind fs)"
      using d 3 swap_entry(1) [of z x t] by (simp add: map_swap_entry nodes_of_def)
    moreover have "nodes_of \<langle>\<langle>\<rangle>, x, \<langle>\<rangle>\<rangle> ?gs = nodes_of \<langle>l, z, r\<rangle> fs" using 3 by (simp add: nodes_of_def)
    ultimately show ?thesis using t1 unfolding one_freed_swap by metis
  qed
qed

text \<open>With two children the entry of the successor moves up and the successor's node goes.\<close>

lemma leftmost_at:
  assumes "at t q p T fs" "T \<noteq> \<langle>\<rangle>" "pos_ok c T fs"
  shows "\<exists>y r gs. at t (parent t y) y \<langle>\<langle>\<rangle>, y, r\<rangle> gs \<and> y = hd (inorder T) \<and> before gs = before fs \<and>
           inorder r @ behind gs = tl (inorder T) @ behind fs \<and> pos_ok c \<langle>\<langle>\<rangle>, y, r\<rangle> gs"
  using assms
proof (induction T arbitrary: q p fs)
  case (Node l x r)
  have p: "p = x" "parent t x = q" using Node.prems(1) by (auto simp: at_def)
  show ?case
  proof (cases "l = \<langle>\<rangle>")
    case True
    with Node.prems p show ?thesis by (intro exI [of _ x] exI [of _ r] exI [of _ fs]) simp
  next
    case False
    have "before (In_Left x r # fs) = before fs" "behind (In_Left x r # fs) = x # inorder r @ behind fs" by simp_all
    moreover have "inorder l \<noteq> []" using False by simp
    ultimately show ?thesis
      using Node.IH(1) [OF at_down(1) [OF Node.prems(1)] False pos_ok_down(1) [OF Node.prems(3)]] by simp
  qed
qed simp

lemma delete_big_ok:
  assumes at: "at t q z \<langle>l, z, r\<rangle> fs" and nil: "color t nil = Black" and pos: "pos_ok (color t) \<langle>l, z, r\<rangle> fs"
    and big: "l \<noteq> \<langle>\<rangle>" "r \<noteq> \<langle>\<rangle>" and suc: "val t z < val t (hd (inorder r))" "val t (hd (inorder r)) \<le> val t (right t z)"
  shows "\<exists>t1. delete_node z t = Some (Inr t1) \<and> one_freed t (set (nodes_of \<langle>l, z, r\<rangle> fs))
           (map (entry t) (before fs @ inorder l @ inorder r @ behind fs)) t1"
proof -
  have d: "distinct (nodes_of \<langle>l, z, r\<rangle> fs)" using at by (simp add: at_def)
  note down = at_down(2) [OF at]
  obtain y ry gs where pos_y: "at t (parent t y) y \<langle>\<langle>\<rangle>, y, ry\<rangle> gs" "y = hd (inorder r)"
      "before gs = before fs @ inorder l @ [z]" "inorder ry @ behind gs = tl (inorder r) @ behind fs"
      "pos_ok (color t) \<langle>\<langle>\<rangle>, y, ry\<rangle> gs"
    using leftmost_at [OF down big(2) pos_ok_down(2) [OF pos]] by auto
  then obtain rs where r: "inorder r = y # rs" "inorder ry @ behind gs = rs @ behind fs"
    using big(2) by (cases "inorder r") auto
  let ?t = "swap_node z y t"
  obtain t1 where t1: "delete_node y ?t = Some (Inr t1)"
      "one_freed ?t (set (nodes_of \<langle>\<langle>\<rangle>, y, ry\<rangle> gs)) (map (entry ?t) (before gs @ inorder ry @ behind gs)) t1"
    using delete_small_ok [of ?t "parent t y" y "\<langle>\<rangle>" ry gs] pos_y(1,5) nil by auto
  have ptrs: "right t z \<noteq> nil" "left t z \<noteq> nil"
    using down at_down(1) [OF at] big by (auto simp: at_def dest!: is_tree_root)
  have "find_successor t z = Some y" using find_successor_at [OF at] r by (simp add: hd_or_nil_def)
  then have "delete_node z t = delete_node y ?t" using ptrs suc pos_y(2) by (subst delete_node.simps) simp
  moreover have "map (entry ?t) (before gs @ inorder ry @ behind gs) = map (entry t) (before fs @ inorder l @ inorder r @ behind fs)"
    unfolding pos_y(3) r using d r(1) swap_entry(1) [of z y t] by (simp add: map_swap_entry nodes_of_def)
  moreover have "set (nodes_of \<langle>\<langle>\<rangle>, y, ry\<rangle> gs) = set (nodes_of \<langle>l, z, r\<rangle> fs)"
  proof -
    have "nodes_of \<langle>\<langle>\<rangle>, y, ry\<rangle> gs = before gs @ y # inorder ry @ behind gs" by (simp add: nodes_of_def)
    then show ?thesis unfolding pos_y(3) r(2) by (simp add: nodes_of_def r(1) del: set_inorder)
  qed
  ultimately show ?thesis using t1 unfolding one_freed_swap by metis
qed

section \<open>The contents after a removal\<close>

text \<open>A search tree: what a removal guarantees of a red-black tree (the colours may be wrong).\<close>

definition bst_rep :: "('k::linorder, 'v) rbtree \<Rightarrow> ('k \<times> 'v) list \<Rightarrow> bool" where
  "bst_rep t es \<longleftrightarrow> (\<exists>S. is_tree t nil (root t) S \<and> distinct (inorder S) \<and> entries t S = es) \<and>
     color t nil = Black \<and> sorted (map fst es)"

lemma bst_find:
  assumes "bst_rep t es"
  shows "\<exists>r. find k t = Some r \<and>
           (if k \<in> fst ` set es then \<exists>v. r = Inr v \<and> (k, v) \<in> set es
            else r = Inl (Thrown ''The key is not existed!''))"
proof -
  from assms obtain S where "is_tree t nil (root t) S" "entries t S = es" "sorted (map fst es)"
    by (auto simp: bst_rep_def)
  then show ?thesis by (rule find_in_search_tree)
qed

lemma remove_ok:
  assumes rep: "rb_rep t es"
  shows "\<exists>r. remove k t = Some r \<and>
     (if k \<notin> fst ` set es then r = Inr t
      else (r = Inl Assert_Failed \<and> \<not> sorted_wrt (<) (map snd es)) \<or>
           (\<exists>es1 v es2 t1. r = Inr t1 \<and> es = es1 @ (k, v) # es2 \<and> bst_rep t1 (es1 @ es2) \<and>
              (\<exists>d. deleted t1 = d # deleted t)))"
proof -
  from rep obtain T where wf: "rb_wf t T" and es: "entries t T = es" "sorted (map fst es)" by (auto simp: rb_rep_def)
  then have inv: "rb_inv t T" and tr: "is_tree t nil (root t) T" and nil: "color t nil = Black"
    and d: "distinct (inorder T)" by (simp_all add: rb_wf_def rb_inv_def)
  have keys: "fst ` set es = key t ` set_tree T" by (simp add: entries_def image_image flip: es(1))
  have "sorted (map (key t) (inorder T))" using es by (simp add: entries_def comp_def flip: es(1))
  from find_from_node_ok [OF tr this, of k] obtain z where z: "find_node k t = Some z"
      "if k \<in> key t ` set_tree T then z \<in> set_tree T \<and> key t z = k else z = nil"
    by (auto simp: find_node_def)
  show ?thesis
  proof (cases "k \<in> key t ` set_tree T")
    case False
    with z keys show ?thesis by (simp add: remove_def)
  next
    case True
    with z have zT: "z \<in> set_tree T" "key t z = k" by simp_all
    with is_tree_nonnil [OF tr] have "z \<noteq> nil" by metis
    note zT = zT this
    have ok: "pos_ok (color t) T []" using inv by (simp add: rb_inv_def pos_ok_def)
    from focus_exists [OF at_root [OF inv] zT(1), of "color t"] ok obtain l r fs where
      p: "at t (parent t z) z \<langle>l, z, r\<rangle> fs" "nodes_of \<langle>l, z, r\<rangle> fs = inorder T" "pos_ok (color t) \<langle>l, z, r\<rangle> fs"
      by (auto simp: nodes_of_def)
    let ?es1 = "map (entry t) (before fs @ inorder l)" and ?es2 = "map (entry t) (inorder r @ behind fs)"
    have es12: "es = ?es1 @ (k, val t z) # ?es2"
      using p(2) zT(2) by (simp add: entries_def nodes_of_def flip: es(1) p(2))
    have rem: "remove k t = delete_node z t" using z(1) zT(3) by (simp add: remove_def)
    have good: ?thesis if "delete_node z t = Some (Inr t1)"
      "one_freed t (set (nodes_of \<langle>l, z, r\<rangle> fs)) (map (entry t) (before fs @ inorder l @ inorder r @ behind fs)) t1" for t1
    proof -
      have "sorted (map fst (?es1 @ ?es2))" using es(2) unfolding es12 by (simp add: sorted_append)
      moreover have "\<exists>S. is_tree t1 nil (root t1) S \<and> distinct (inorder S) \<and> entries t1 S = ?es1 @ ?es2"
          "color t1 nil = Black"
        using that(2) by (auto simp: one_freed_def)
      ultimately have "bst_rep t1 (?es1 @ ?es2)" unfolding bst_rep_def by blast
      moreover have "\<exists>d. deleted t1 = d # deleted t" using that(2) by (auto simp: one_freed_def)
      ultimately have "\<exists>es1 v es2. es = es1 @ (k, v) # es2 \<and> bst_rep t1 (es1 @ es2) \<and> (\<exists>d. deleted t1 = d # deleted t)"
        using es12 by blast
      then show ?thesis using that(1) rem True keys by simp
    qed
    consider "l = \<langle>\<rangle> \<or> r = \<langle>\<rangle>"
      | "l \<noteq> \<langle>\<rangle>" "r \<noteq> \<langle>\<rangle>" "val t z < val t (hd (inorder r))" "val t (hd (inorder r)) \<le> val t (right t z)"
      | "l \<noteq> \<langle>\<rangle>" "r \<noteq> \<langle>\<rangle>" "\<not> (val t z < val t (hd (inorder r)) \<and> val t (hd (inorder r)) \<le> val t (right t z))"
      by blast
    then show ?thesis
    proof cases
      case 1
      from delete_small_ok [OF p(1) nil p(3) 1] good show ?thesis by blast
    next
      case 2
      from delete_big_ok [OF p(1) nil p(3) 2] good show ?thesis by blast
    next
      case 3
      obtain y rs where r: "inorder r = y # rs" using 3(2) by (cases "inorder r") auto
      have ptrs: "right t z \<noteq> nil" "left t z \<noteq> nil" "right t z \<in> set_tree r"
        using at_down [OF p(1)] 3(1,2) by (auto simp: at_def dest!: is_tree_root)
      have "find_successor t z = Some y" using find_successor_at [OF p(1)] r by (simp add: hd_or_nil_def)
      then have "delete_node z t = Some (Inl Assert_Failed)" using ptrs 3(3) r by (subst delete_node.simps) auto
      moreover have "\<not> sorted_wrt (<) (map snd es)"
      proof
        assume "sorted_wrt (<) (map snd es)"
        then have "sorted_wrt (<) (val t z # val t y # map (val t) rs)"
          unfolding es12 r by (simp add: sorted_wrt_append comp_def)
        moreover have "right t z = y \<or> right t z \<in> set rs" using ptrs(3) r by (metis set_ConsD set_inorder)
        ultimately show False using 3(3) r by auto
      qed
      ultimately show ?thesis using rem True keys by auto
    qed
  qed
qed

text \<open>In a red-black tree the successor and the predecessor of a node are the nodes next to it in key
  order, and the sentinel at the two ends.\<close>

theorem rb_neighbours:
  assumes "rb_inv t T" "inorder T = xs @ z # ys"
  shows "find_successor t z = Some (case ys of [] \<Rightarrow> nil | y # _ \<Rightarrow> y) \<and>
    find_predecessor t z = Some (if xs = [] then nil else last xs)"
proof
  have "z \<in> set_tree T" using assms(2) by (metis in_set_conv_decomp set_inorder)
  from focus_exists [OF at_root [OF assms(1)] this, of "color t"] obtain l r fs where
    p: "at t (parent t z) z \<langle>l, z, r\<rangle> fs" "nodes_of \<langle>l, z, r\<rangle> fs = inorder T"
    by (auto simp: nodes_of_def)
  have "z \<notin> set (before fs @ inorder l)" "z \<notin> set (inorder r @ behind fs)" using p(1) by (auto simp: at_def nodes_of_def)
  with p(2) assms(2) have eq: "xs = before fs @ inorder l" "ys = inorder r @ behind fs"
    using append_Cons_eq_iff [of z "before fs @ inorder l" "inorder r @ behind fs" xs ys] by (auto simp: nodes_of_def)
  show "find_successor t z = Some (case ys of [] \<Rightarrow> nil | y # _ \<Rightarrow> y)"
    using find_successor_at [OF p(1)] by (simp add: hd_or_nil_def eq(2))
  show "find_predecessor t z = Some (if xs = [] then nil else last xs)"
    using find_predecessor_at [OF p(1)] unfolding eq(1) [symmetric]
    by (cases xs rule: rev_cases) (simp_all add: hd_or_nil_def)
qed

theorem rb_neighbours_witness:
  "\<exists>t T. insert_all [(2 :: nat, ''b''), (1, ''a'')] (new_rbtree 0 []) = Some t \<and> inorder T = [2, 1] \<and>
     is_tree t nil (root t) T \<and> find_successor t 2 = Some 1 \<and> find_predecessor t 2 = Some nil"
proof -
  let ?t = "the (insert_all [(2 :: nat, ''b''), (1, ''a'')] (new_rbtree 0 []))"
  have t: "insert_all [(2 :: nat, ''b''), (1, ''a'')] (new_rbtree 0 []) = Some ?t"
    using insert_all_ok [OF rb_rep_empty, of "[(2 :: nat, ''b''), (1, ''a'')]" 0 "[]"] by auto
  have inv: "rb_inv ?t \<langle>\<langle>\<langle>\<rangle>, 2, \<langle>\<rangle>\<rangle>, 1, \<langle>\<rangle>\<rangle>" by code_simp
  have "find_successor ?t 2 = Some 1" "find_predecessor ?t 2 = Some nil"
    using rb_neighbours [OF inv, of "[]" 2 "[1]"] by simp_all
  with t inv show ?thesis
    by (intro exI [of _ ?t] exI [of _ "\<langle>\<langle>\<langle>\<rangle>, 2, \<langle>\<rangle>\<rangle>, 1, \<langle>\<rangle>\<rangle>"]) (simp add: rb_inv_def)
qed

text \<open>C13: removing a key that a red-black tree does not hold changes nothing. Removing one it holds ends, in one
  of two ways: one entry with that key is gone, one node is freed, and the rest is still a search tree, in
  which \<open>find\<close> finds exactly the remaining keys; or an assert fails, which can only be when the values are
  not strictly increasing along the keys.\<close>

theorem rb_remove_takes_one_entry:
  assumes "rb_rep t es"
  shows "\<exists>r. remove k t = Some r \<and>
     (if k \<notin> fst ` set es then r = Inr t
      else (r = Inl Assert_Failed \<and> \<not> sorted_wrt (<) (map snd es)) \<or>
           (\<exists>es1 v es2 t1. r = Inr t1 \<and> es = es1 @ (k, v) # es2 \<and> bst_rep t1 (es1 @ es2) \<and>
              (\<exists>d. deleted t1 = d # deleted t) \<and>
              (\<forall>k'. \<exists>r'. find k' t1 = Some r' \<and> (k' \<in> fst ` set (es1 @ es2) \<longleftrightarrow> (\<exists>v'. r' = Inr v')))))"
proof -
  have found: "\<forall>k'. \<exists>r'. find k' t1 = Some r' \<and> (k' \<in> fst ` set es' \<longleftrightarrow> (\<exists>v'. r' = Inr v'))" if "bst_rep t1 es'"
    for t1 :: "('a, 'b) rbtree" and es'
    using bst_find [OF that] by (metis sum.distinct(1))
  from remove_ok [OF assms, of k] obtain r where r: "remove k t = Some r"
    "if k \<notin> fst ` set es then r = Inr t
     else (r = Inl Assert_Failed \<and> \<not> sorted_wrt (<) (map snd es)) \<or>
          (\<exists>es1 v es2 t1. r = Inr t1 \<and> es = es1 @ (k, v) # es2 \<and> bst_rep t1 (es1 @ es2) \<and>
             (\<exists>d. deleted t1 = d # deleted t))"
    by blast
  show ?thesis
  proof (intro exI [of _ r] conjI r(1))
    show "if k \<notin> fst ` set es then r = Inr t
      else (r = Inl Assert_Failed \<and> \<not> sorted_wrt (<) (map snd es)) \<or>
           (\<exists>es1 v es2 t1. r = Inr t1 \<and> es = es1 @ (k, v) # es2 \<and> bst_rep t1 (es1 @ es2) \<and>
              (\<exists>d. deleted t1 = d # deleted t) \<and>
              (\<forall>k'. \<exists>r'. find k' t1 = Some r' \<and> (k' \<in> fst ` set (es1 @ es2) \<longleftrightarrow> (\<exists>v'. r' = Inr v'))))"
    proof (cases "k \<in> fst ` set es \<and> r \<noteq> Inl Assert_Failed")
      case True
      with r(2) obtain es1 v es2 t1 where "r = Inr t1" "es = es1 @ (k, v) # es2" "bst_rep t1 (es1 @ es2)"
          "\<exists>d. deleted t1 = d # deleted t"
        by (auto split: if_splits)
      with found [of t1 "es1 @ es2"] True show ?thesis by (simp del: set_append) blast
    next
      case False
      with r(2) show ?thesis by (auto split: if_splits)
    qed
  qed
qed

text \<open>The hypothesis holds of every tree that insertions give.\<close>

theorem rb_remove_takes_one_entry_witness:
  "\<exists>t r. insert_kv (5 :: nat) (7 :: nat) (new_rbtree 0 0) = Some t \<and> remove 5 t = Some (Inr r) \<and> bst_rep r []"
proof -
  from insert_kv_ok [OF rb_rep_empty, of "5 :: nat" "7 :: nat" 0 0] obtain t where
    t: "insert_kv (5 :: nat) (7 :: nat) (new_rbtree 0 0) = Some t" "rb_rep t [(5, 7)]"
    by (auto simp: ins_entry_def)
  from rb_remove_takes_one_entry [OF t(2), of 5] obtain r where "remove 5 t = Some (Inr r)" "bst_rep r []"
    by (auto simp: Cons_eq_append_conv)
  with t(1) show ?thesis by blast
qed

section \<open>Removals after removals\<close>

text \<open>A removal may break the colours. These runs show what the next ones then do.\<close>

fun remove_all :: "'k::linorder list \<Rightarrow> ('k, 'v::linorder) rbtree \<Rightarrow> ('k, 'v) rbtree cxx option" where
  "remove_all [] t = Some (Inr t)"
| "remove_all (k # ks) t =
     (case remove k t of
        None \<Rightarrow> None
      | Some (Inl e) \<Rightarrow> Some (Inl e)
      | Some (Inr t1) \<Rightarrow> remove_all ks t1)"

definition keys_as_values :: "nat list \<Rightarrow> (nat \<times> nat) list" where
  "keys_as_values ks = map (\<lambda>k. (k, k)) ks"

definition after_run :: "nat list \<Rightarrow> nat list \<Rightarrow> ((nat, nat) rbtree \<Rightarrow> bool) \<Rightarrow> bool" where
  "after_run ins rem P =
     (case insert_all (keys_as_values ins) (new_rbtree 0 0) of
        None \<Rightarrow> False
      | Some t \<Rightarrow> (case remove_all rem t of Some (Inr t1) \<Rightarrow> P t1 | _ \<Rightarrow> False))"

text \<open>After inserting the keys 1, 4, 2, 6, 5, 3 and removing 1 and 2, the key 3, which is still in the tree, is
  not found any more.\<close>

theorem rb_removal_can_lose_a_key:
  "after_run [1, 4, 2, 6, 5, 3] [1, 2] (\<lambda>t. find 3 t = Some (Inl (Thrown ''The key is not existed!'')))"
  by code_simp

text \<open>At the sentinel the loop of the fix-up never ends.\<close>

lemma fixup_at_sentinel:
  assumes "rbtree_delete_fixup z t = Some t1"
  shows "\<not> (z = nil \<and> root t \<noteq> nil \<and> left t nil = nil \<and> right t nil = nil \<and> parent t nil = nil \<and> color t nil = Black)"
  using assms
proof (induction z t t1 rule: rbtree_delete_fixup.raw_induct [rotated, consumes 1])
  case (1 f z t t1)
  show ?case
  proof
    assume z: "z = nil \<and> root t \<noteq> nil \<and> left t nil = nil \<and> right t nil = nil \<and> parent t nil = nil \<and> color t nil = Black"
    with 1(2) have "f nil (set_color nil Black (set_color nil Red t)) = Some t1" by simp
    from 1(1) [OF this] z show False by simp
  qed
qed

text \<open>A black node without a sibling sends it there.\<close>

definition lonely :: "nat \<Rightarrow> ('k, 'v) rbtree \<Rightarrow> bool" where
  "lonely z t \<longleftrightarrow> z \<noteq> nil \<and> left t z = nil \<and> right t z = nil \<and> color t z = Black \<and> z \<noteq> root t \<and> root t \<noteq> nil \<and>
     z = right t (parent t z) \<and> left t (parent t z) = nil \<and> color t nil = Black \<and>
     left t nil = nil \<and> right t nil = nil \<and> parent t nil = nil"

lemma lonely_never_returns: "lonely z t \<Longrightarrow> delete_node z t = None"
proof -
  assume z: "lonely z t"
  let ?t = "set_color nil Black (set_color nil Red t)"
  have "rbtree_delete_fixup nil ?t = None"
    using fixup_at_sentinel [of nil ?t] z by (cases "rbtree_delete_fixup nil ?t") (auto simp: lonely_def)
  with z have "rbtree_delete_fixup z t = None" by (subst rbtree_delete_fixup.simps) (auto simp: lonely_def)
  with z show ?thesis by (subst delete_node.simps) (simp add: lonely_def)
qed

lemma before_the_endless_removal:
  "after_run [1, 2, 3, 4, 5, 6] [2, 6, 1, 5] (\<lambda>t. case find_node 4 t of Some z \<Rightarrow> lonely z t | None \<Rightarrow> False)"
  by code_simp

text \<open>After inserting the keys 1 to 6 in order and removing 2, 6, 1 and 5, the removal of 4 does not return: the
  fix-up loops at the sentinel.\<close>

theorem rb_removal_may_not_return: "after_run [1, 2, 3, 4, 5, 6] [2, 6, 1, 5] (\<lambda>t. remove 4 t = None)"
proof -
  have mono: "after_run ins rem P \<Longrightarrow> (\<And>t. P t \<Longrightarrow> Q t) \<Longrightarrow> after_run ins rem Q" for ins rem P Q
    by (auto simp: after_run_def split: option.splits sum.splits)
  show ?thesis
  proof (rule mono [OF before_the_endless_removal])
    fix t :: "(nat, nat) rbtree"
    assume "case find_node 4 t of Some z \<Rightarrow> lonely z t | None \<Rightarrow> False"
    then obtain z where "find_node 4 t = Some z" "lonely z t" by (auto split: option.splits)
    then show "remove 4 t = None" using lonely_never_returns [of z t] by (simp add: remove_def lonely_def)
  qed
qed

end
