(* ===== verification/Rb_Copy.thy ===== *)
theory Rb_Copy
  imports Rb_Tree
begin

text \<open>
  include/data_structure/rbtree.h: the copy constructor, the destructor and the self-test. The two trees of
  a copy have heaps of their own; the code compares the pointers of each with the sentinel of the same tree
  only.
\<close>

section \<open>Copying, freeing, checking\<close>

partial_function (option) dfs_for_deepcopy ::
  "('k, 'v) rbtree \<Rightarrow> nat \<Rightarrow> nat \<Rightarrow> ('k, 'v) rbtree \<Rightarrow> (nat \<times> ('k, 'v) rbtree) option" where
  "dfs_for_deepcopy other other_rt pre t =
     (case new_node pre nil nil (key other other_rt) (val other other_rt) (color other other_rt) t of (ret, t1) \<Rightarrow>
        Option.bind
          (if left other other_rt \<noteq> nil
           then dfs_for_deepcopy other (left other other_rt) ret t1 else Some (nil, t1))
          (\<lambda>(l, t2). Option.bind
             (if right other other_rt \<noteq> nil
              then dfs_for_deepcopy other (right other other_rt) ret (set_left ret l t2)
              else Some (nil, set_left ret l t2))
             (\<lambda>(r, t3). Some (ret, set_right ret r t3))))"

definition rbtree_copy :: "('k, 'v) rbtree \<Rightarrow> 'k \<Rightarrow> 'v \<Rightarrow> ('k, 'v) rbtree option" where
  "rbtree_copy other dk dv =
     (case dfs_for_deepcopy other (root other) nil (new_rbtree dk dv) of
        None \<Rightarrow> None
      | Some (r, t) \<Rightarrow> Some (set_root r t))"

text \<open>\<open>delete\<close> is recorded in \<open>deleted\<close>, the last node first.\<close>

definition free_node :: "nat \<Rightarrow> ('k, 'v) rbtree \<Rightarrow> ('k, 'v) rbtree" where
  "free_node x t = t\<lparr>deleted := x # deleted t\<rparr>"

partial_function (option) dfs_for_delete :: "nat \<Rightarrow> ('k, 'v) rbtree \<Rightarrow> ('k, 'v) rbtree option" where
  "dfs_for_delete rt t =
     (if rt = nil then Some t
      else Option.bind (if left t rt \<noteq> nil then dfs_for_delete (left t rt) t else Some t)
             (\<lambda>t1. Option.bind (if right t1 rt \<noteq> nil then dfs_for_delete (right t1 rt) t1 else Some t1)
                (\<lambda>t2. Some (free_node rt t2))))"

definition rbtree_destroy :: "('k, 'v) rbtree \<Rightarrow> ('k, 'v) rbtree option" where
  "rbtree_destroy t = map_option (free_node nil) (dfs_for_delete (root t) t)"

text \<open>The self-test: each node against its children (the colours after the subtree has passed). The outer function's asserts on the sentinel are
  assignments; the last one writes the parent of the root.\<close>

definition test_child :: "('k::linorder, 'v) rbtree \<Rightarrow> nat \<Rightarrow> nat \<Rightarrow> bool cxx \<Rightarrow> bool cxx" where
  "test_child t rt child r =
     (case r of
        Inr True \<Rightarrow> if color t rt = color t child \<and> color t rt \<noteq> Black then Inl Assert_Failed else Inr True
      | _ \<Rightarrow> r)"

partial_function (option) dfs_for_test :: "('k::linorder, 'v) rbtree \<Rightarrow> nat \<Rightarrow> bool cxx option" where
  "dfs_for_test t rt =
     Option.bind
       (if left t rt \<noteq> nil then
          if key t rt < key t (left t rt) then Some (Inr False)
          else Option.bind (dfs_for_test t (left t rt)) (\<lambda>r. Some (test_child t rt (left t rt) r))
        else Some (Inr True))
       (\<lambda>r. if r \<noteq> Inr True then Some r
            else if right t rt \<noteq> nil then
              if key t (right t rt) < key t rt then Some (Inr False)
              else Option.bind (dfs_for_test t (right t rt)) (\<lambda>r. Some (test_child t rt (right t rt) r))
            else Some (Inr True))"

definition test_insert_correction :: "('k::linorder, 'v) rbtree \<Rightarrow> (bool cxx \<times> ('k, 'v) rbtree) option" where
  "test_insert_correction t =
     (if color t (root t) \<noteq> Black then Some (Inl Assert_Failed, t)
      else if left t nil \<noteq> nil then Some (Inl Assert_Failed, t)
      else let t1 = set_parent (root t) nil (set_parent nil nil (set_right nil nil t))
           in map_option (\<lambda>r. (r, t1)) (dfs_for_test t1 (root t1)))"

declare dfs_for_deepcopy.simps [code] dfs_for_delete.simps [code] dfs_for_test.simps [code]

section \<open>The copy has the same shape\<close>

fun same_nodes :: "('k, 'v) rbtree \<Rightarrow> ('k, 'v) rbtree \<Rightarrow> nat tree \<Rightarrow> nat tree \<Rightarrow> bool" where
  "same_nodes o' t \<langle>\<rangle> S \<longleftrightarrow> S = \<langle>\<rangle>"
| "same_nodes o' t \<langle>l, x, r\<rangle> S \<longleftrightarrow>
     (\<exists>l' y r'. S = \<langle>l', y, r'\<rangle> \<and> key t y = key o' x \<and> val t y = val o' x \<and> color t y = color o' x \<and>
        same_nodes o' t l l' \<and> same_nodes o' t r r')"

lemma same_nodes_props:
  "same_nodes o' t T S \<Longrightarrow>
     rcol (color t) S = rcol (color o') T \<and> bheight (color t) S = bheight (color o') T \<and>
     invc (color t) S = invc (color o') T \<and> invh (color t) S = invh (color o') T \<and> entries t S = entries o' T"
proof (induction T arbitrary: S)
  case (Node l x r)
  then obtain l' y r' where S: "S = \<langle>l', y, r'\<rangle>" "same_nodes o' t l l'" "same_nodes o' t r r'"
      "key t y = key o' x" "val t y = val o' x" "color t y = color o' x"
    by auto
  from Node.IH(1) [OF S(2)] Node.IH(2) [OF S(3)] S show ?case by (simp add: entries_def)
qed (simp add: entries_def)

lemma same_nodes_cong:
  "(\<And>x. x \<in> set_tree S \<Longrightarrow> key t' x = key t x \<and> val t' x = val t x \<and> color t' x = color t x) \<Longrightarrow>
   same_nodes o' t' T S = same_nodes o' t T S"
proof (induction T arbitrary: S)
  case (Node l x r)
  show ?case
  proof (cases S)
    case (Node l' y r')
    have "same_nodes o' t' l l' = same_nodes o' t l l'" by (rule Node.IH(1)) (use Node.prems Node in auto)
    moreover have "same_nodes o' t' r r' = same_nodes o' t r r'" by (rule Node.IH(2)) (use Node.prems Node in auto)
    moreover have "key t' y = key t y \<and> val t' y = val t y \<and> color t' y = color t y" using Node.prems Node by simp
    ultimately show ?thesis by (simp add: Node)
  qed simp
qed simp

text \<open>Everything below the first new address is left alone.\<close>

definition untouched :: "nat \<Rightarrow> ('k, 'v) rbtree \<Rightarrow> ('k, 'v) rbtree \<Rightarrow> bool" where
  "untouched n t t1 \<longleftrightarrow> root t1 = root t \<and> deleted t1 = deleted t \<and>
     (\<forall>x < n. parent t1 x = parent t x \<and> left t1 x = left t x \<and> right t1 x = right t x \<and>
        key t1 x = key t x \<and> val t1 x = val t x \<and> color t1 x = color t x)"

text \<open>One call leaves a copy of the subtree in fresh nodes.\<close>

definition copies :: "('k, 'v) rbtree \<Rightarrow> nat tree \<Rightarrow> nat \<Rightarrow> ('k, 'v) rbtree \<Rightarrow> nat \<Rightarrow> ('k, 'v) rbtree \<Rightarrow> bool" where
  "copies o' T pre t ret t1 \<longleftrightarrow>
     (\<exists>S. is_tree t1 pre ret S \<and> distinct (inorder S) \<and> same_nodes o' t1 T S \<and>
        set_tree S \<subseteq> {next_node t ..< next_node t1}) \<and>
     untouched (next_node t) t t1 \<and> next_node t \<le> next_node t1"

lemma deepcopy_ok:
  assumes "is_tree o' q x T" "T \<noteq> \<langle>\<rangle>" "0 < next_node t"
  shows "\<exists>ret t1. dfs_for_deepcopy o' x pre t = Some (ret, t1) \<and> copies o' T pre t ret t1"
  using assms
proof (induction T arbitrary: q x pre t)
  case (Node l y r)
  let ?n = "next_node t"
  from Node.prems have y: "x = y" "y \<noteq> nil" and lr: "is_tree o' y (left o' y) l" "is_tree o' y (right o' y) r" by auto
  then have leaf: "left o' y = nil \<longleftrightarrow> l = \<langle>\<rangle>" "right o' y = nil \<longleftrightarrow> r = \<langle>\<rangle>" by (cases l; cases r; auto)+
  obtain t1 where t1: "new_node pre nil nil (key o' y) (val o' y) (color o' y) t = (?n, t1)"
    by (simp add: new_node_def Let_def)
  then have f1: "parent t1 ?n = pre" "key t1 ?n = key o' y" "val t1 ?n = val o' y" "color t1 ?n = color o' y"
    "next_node t1 = Suc ?n" "untouched ?n t t1"
    by (auto simp: new_node_def Let_def untouched_def)
  have sub: "\<exists>p t'. (if p0 \<noteq> nil then dfs_for_deepcopy o' p0 ?n s else Some (nil, s)) = Some (p, t') \<and> copies o' A ?n s p t'"
    if "A = l \<or> A = r" "is_tree o' y p0 A" "0 < next_node s" for A p0 and s :: "('a, 'b) rbtree"
  proof (cases A)
    case Leaf
    with that(2) show ?thesis by (auto simp: copies_def untouched_def intro!: exI [of _ "\<langle>\<rangle>"])
  next
    case (Node a b c)
    with that(2) have "p0 \<noteq> nil" by auto
    with Node that Node.IH(1) [of y p0 s ?n] Node.IH(2) [of y p0 s ?n] show ?thesis by auto
  qed
  from sub [of l "left o' y" t1] lr f1 obtain lp t2 where
    t2: "(if left o' y \<noteq> nil then dfs_for_deepcopy o' (left o' y) ?n t1 else Some (nil, t1)) = Some (lp, t2)"
      "copies o' l ?n t1 lp t2"
    by auto
  then obtain L where L: "is_tree t2 ?n lp L" "distinct (inorder L)" "same_nodes o' t2 l L"
      "set_tree L \<subseteq> {Suc ?n ..< next_node t2}" "untouched (Suc ?n) t1 t2" "Suc ?n \<le> next_node t2"
    using f1(5) by (auto simp: copies_def)
  let ?t2 = "set_left ?n lp t2"
  from sub [of r "right o' y" ?t2] lr L(6) obtain rp t3 where
    t3: "(if right o' y \<noteq> nil then dfs_for_deepcopy o' (right o' y) ?n ?t2 else Some (nil, ?t2)) = Some (rp, t3)"
      "copies o' r ?n ?t2 rp t3"
    by auto
  then obtain R where R: "is_tree t3 ?n rp R" "distinct (inorder R)" "same_nodes o' t3 r R"
      "set_tree R \<subseteq> {next_node t2 ..< next_node t3}" "untouched (next_node t2) ?t2 t3" "next_node t2 \<le> next_node t3"
    by (auto simp: copies_def)
  let ?t3 = "set_right ?n rp t3"
  have "dfs_for_deepcopy o' x pre t = Some (?n, ?t3)"
    unfolding y(1) by (subst dfs_for_deepcopy.simps) (simp only: t1 t2(1) t3(1) prod.case Option.bind.simps)
  moreover have "copies o' \<langle>l, y, r\<rangle> pre t ?n ?t3"
  proof -
    have n: "?n \<notin> set_tree L" "?n \<notin> set_tree R" using L(4,6) R(4) by auto
    have keep: "parent t3 z = parent ?t2 z" "left t3 z = left ?t2 z" "right t3 z = right ?t2 z" "key t3 z = key t2 z"
      "val t3 z = val t2 z" "color t3 z = color t2 z" if "z < next_node t2" for z
      using that R(5) by (auto simp: untouched_def)
    have at_n: "parent t3 ?n = pre" "left t3 ?n = lp" "key t3 ?n = key o' y" "val t3 ?n = val o' y" "color t3 ?n = color o' y"
      using keep [of ?n] L(5,6) f1 by (auto simp: untouched_def)
    have "is_tree t3 ?n lp L = is_tree t2 ?n lp L"
      by (rule is_tree_cong) (use L(4) n keep in \<open>auto simp: less_le subset_eq\<close>)
    moreover have "same_nodes o' t3 l L = same_nodes o' t2 l L"
      by (rule same_nodes_cong) (use L(4) keep in auto)
    moreover have "same_nodes o' ?t3 A S = same_nodes o' t3 A S" for A S by (rule same_nodes_cong) simp
    moreover have "set_tree L \<inter> set_tree R = {}" using L(4) R(4) by fastforce
    ultimately have "is_tree ?t3 pre ?n \<langle>L, ?n, R\<rangle>" "same_nodes o' ?t3 \<langle>l, y, r\<rangle> \<langle>L, ?n, R\<rangle>" "distinct (inorder \<langle>L, ?n, R\<rangle>)"
      using L R n at_n Node.prems(3) by auto
    moreover have "set_tree \<langle>L, ?n, R\<rangle> \<subseteq> {?n ..< next_node ?t3}" using L(4,6) R(4,6) by auto
    moreover have "untouched ?n t ?t3"
      using f1(6) L(5,6) R(5) by (auto simp: untouched_def)
    moreover have "?n \<le> next_node ?t3" using L(6) R(6) by simp
    ultimately show ?thesis unfolding copies_def by blast
  qed
  ultimately show ?case by blast
qed simp

text \<open>The copy constructor ends and gives a red-black tree of its own with the same entries, if the source
  is not empty.\<close>

theorem rb_copy_has_the_same_entries:
  assumes "rb_rep other es" "es \<noteq> []"
  shows "\<exists>t. rbtree_copy other dk dv = Some t \<and> rb_rep t es"
proof -
  from assms(1) obtain T where wf: "rb_wf other T" and es: "entries other T = es" "sorted (map fst es)"
    by (auto simp: rb_rep_def)
  then have inv: "rb_inv other T" and T: "T \<noteq> \<langle>\<rangle>" using assms(2) by (auto simp: rb_wf_def entries_def)
  let ?t0 = "new_rbtree dk dv"
  have n0: "next_node ?t0 = 1" "color ?t0 nil = Black" by (simp_all add: new_rbtree_def)
  from inv have "is_tree other nil (root other) T" by (simp add: rb_inv_def)
  from deepcopy_ok [OF this T, of ?t0 nil] n0 obtain ret t1 where
    t1: "dfs_for_deepcopy other (root other) nil ?t0 = Some (ret, t1)" "copies other T nil ?t0 ret t1"
    by auto
  then obtain S where S: "is_tree t1 nil ret S" "distinct (inorder S)" "same_nodes other t1 T S"
      "set_tree S \<subseteq> {1 ..< next_node t1}" "untouched 1 ?t0 t1" "1 \<le> next_node t1"
    using n0 by (auto simp: copies_def)
  note p = same_nodes_props [OF S(3)]
  have "rb_wf (set_root ret t1) S"
    using S p inv n0 by (auto simp: rb_wf_def rb_inv_def untouched_def)
  moreover have "entries (set_root ret t1) S = es" using p es by (simp add: entries_def)
  ultimately have "rb_rep (set_root ret t1) es" using es(2) by (auto simp: rb_rep_def)
  with t1(1) show ?thesis by (simp add: rbtree_copy_def)
qed

theorem rb_copy_has_the_same_entries_witness:
  "\<exists>t c. insert_kv (5 :: nat) ''a'' (new_rbtree 0 []) = Some t \<and> rbtree_copy t 0 [] = Some c \<and> rb_rep c [(5, ''a'')]"
proof -
  from insert_kv_ok [OF rb_rep_empty, of "5 :: nat" "''a''" 0 "[]"] obtain t where
    "insert_kv (5 :: nat) ''a'' (new_rbtree 0 []) = Some t" "rb_rep t [(5, ''a'')]"
    by (auto simp: ins_entry_def)
  with rb_copy_has_the_same_entries [of t "[(5, ''a'')]" 0 "[]"] show ?thesis by auto
qed

text \<open>The copy of an empty tree is not empty: it holds one entry, with the default key and value of the sentinel.\<close>

theorem rb_copy_of_empty_has_an_entry:
  "\<exists>t. rbtree_copy (new_rbtree dk dv) dk' dv' = Some t \<and> rb_rep t [(dk, dv)]"
proof -
  have "dfs_for_deepcopy (new_rbtree dk dv) nil nil (new_rbtree dk' dv') =
      Some (1, set_right 1 nil (set_left 1 nil (snd (new_node nil nil nil dk dv Black (new_rbtree dk' dv')))))"
    by (subst dfs_for_deepcopy.simps) (simp add: new_rbtree_def new_node_def)
  then have "rbtree_copy (new_rbtree dk dv) dk' dv' =
      Some (set_root 1 (set_right 1 nil (set_left 1 nil (snd (new_node nil nil nil dk dv Black (new_rbtree dk' dv'))))))"
      (is "_ = Some ?t")
    by (simp add: rbtree_copy_def new_rbtree_def)
  moreover have "rb_wf ?t \<langle>\<langle>\<rangle>, 1, \<langle>\<rangle>\<rangle>" "entries ?t \<langle>\<langle>\<rangle>, 1, \<langle>\<rangle>\<rangle> = [(dk, dv)]"
    by (simp_all add: rb_wf_def rb_inv_def entries_def new_node_def new_rbtree_def setters)
  ultimately show ?thesis by (auto simp: rb_rep_def)
qed

section \<open>The destructor\<close>

lemma free_node_links [simp]:
  "left (free_node x t) = left t" "right (free_node x t) = right t" "parent (free_node x t) = parent t"
  by (simp_all add: free_node_def)

lemma is_tree_deleted: "is_tree (t\<lparr>deleted := ds\<rparr>) q p T = is_tree t q p T"
  by (rule is_tree_cong) simp

lemma dfs_for_delete_ok:
  "is_tree t q x T \<Longrightarrow> dfs_for_delete x t = Some (t\<lparr>deleted := rev (postorder T) @ deleted t\<rparr>)"
proof (induction T arbitrary: q x t)
  case Leaf
  then show ?case by (simp add: dfs_for_delete.simps [of nil t])
next
  case (Node l y r)
  from Node.prems have y: "x = y" "y \<noteq> nil" and lr: "is_tree t y (left t y) l" "is_tree t y (right t y) r" by auto
  let ?t1 = "t\<lparr>deleted := rev (postorder l) @ deleted t\<rparr>"
  let ?t2 = "t\<lparr>deleted := rev (postorder r) @ rev (postorder l) @ deleted t\<rparr>"
  have "(if left t y \<noteq> nil then dfs_for_delete (left t y) t else Some t) = Some ?t1"
    using Node.IH(1) [OF lr(1)] lr(1) by (cases l) auto
  moreover have "(if right ?t1 y \<noteq> nil then dfs_for_delete (right ?t1 y) ?t1 else Some ?t1) = Some ?t2"
  proof -
    have "is_tree ?t1 y (right ?t1 y) r" using lr(2) by (simp add: is_tree_deleted)
    from Node.IH(2) [OF this] lr(2) show ?thesis by (cases r) auto
  qed
  ultimately have "dfs_for_delete y t = Some (free_node y ?t2)"
    using y(2) by (subst dfs_for_delete.simps) (simp only: if_False Option.bind.simps)
  then show ?case by (simp add: y(1) free_node_def)
qed

lemma distinct_postorder: "distinct (inorder T) \<Longrightarrow> distinct (postorder T)"
  by (induction T) auto

text \<open>The destructor ends and frees every node of the tree once and the sentinel last.\<close>

theorem rb_destructor_frees_each_node_once:
  assumes "rb_wf t T" "deleted t = []"
  shows "\<exists>t1 ds. rbtree_destroy t = Some t1 \<and> deleted t1 = nil # ds \<and> distinct (nil # ds) \<and> set ds = set_tree T"
proof -
  have tr: "is_tree t nil (root t) T" "distinct (inorder T)" using assms(1) by (simp_all add: rb_wf_def rb_inv_def)
  have "distinct (postorder T)" using tr(2) by (rule distinct_postorder)
  moreover have "nil \<notin> set_tree T" using is_tree_nonnil [OF tr(1)] .
  ultimately show ?thesis
    using dfs_for_delete_ok [OF tr(1)] assms(2) by (simp add: rbtree_destroy_def free_node_def)
qed

theorem rb_destructor_frees_each_node_once_witness:
  "\<exists>t1 ds. rbtree_destroy (new_rbtree (0 :: nat) (0 :: nat)) = Some t1 \<and> deleted t1 = nil # ds \<and> set ds = {}"
  using rb_destructor_frees_each_node_once [of "new_rbtree (0 :: nat) (0 :: nat)" "\<langle>\<rangle>"]
  by (auto simp: rb_wf_def rb_inv_def new_rbtree_def)

section \<open>Moving\<close>

text \<open>
  A tree object whose pointers are null is \<open>None\<close>. The move constructor makes a sentinel of its own first
  and then takes both pointers of the other tree: nothing points to that sentinel any more. The result is
  the new object, what is left of the other, and the number of lost nodes.
\<close>

definition rbtree_move :: "('k, 'v) rbtree option \<Rightarrow> ('k, 'v) rbtree option \<times> ('k, 'v) rbtree option \<times> nat" where
  "rbtree_move other = (other, None, 1)"

text \<open>The destructor tests both pointers.\<close>

definition rbtree_object_destroy :: "('k, 'v) rbtree option \<Rightarrow> ('k, 'v) rbtree option option" where
  "rbtree_object_destroy obj = (case obj of None \<Rightarrow> Some None | Some t \<Rightarrow> map_option Some (rbtree_destroy t))"

text \<open>A moved tree and the empty shell are destroyed without freeing a node twice, but the sentinel that the
  constructor allocated is never freed.\<close>

theorem rb_move_leaks_its_sentinel:
  assumes "rb_wf t T" "deleted t = []" and "rbtree_move (Some t) = (this, other, lost)"
  shows "lost = 1 \<and> rbtree_object_destroy other = Some None \<and>
         (\<exists>t1. rbtree_object_destroy this = Some (Some t1) \<and> distinct (deleted t1) \<and> set (deleted t1) = insert nil (set_tree T))"
proof -
  have tr: "is_tree t nil (root t) T" "distinct (inorder T)" using assms(1) by (simp_all add: rb_wf_def rb_inv_def)
  with assms(2,3) show ?thesis
    using dfs_for_delete_ok [OF tr(1)] is_tree_nonnil [OF tr(1)] distinct_postorder [OF tr(2)]
    by (auto simp: rbtree_move_def rbtree_object_destroy_def rbtree_destroy_def free_node_def)
qed

theorem rb_move_leaks_its_sentinel_witness:
  "\<exists>this other lost. rbtree_move (Some (new_rbtree (0 :: nat) (0 :: nat))) = (this, other, lost) \<and> lost = 1"
proof -
  have "rb_wf (new_rbtree (0 :: nat) (0 :: nat)) \<langle>\<rangle>" "deleted (new_rbtree (0 :: nat) (0 :: nat)) = []"
    by (auto simp: rb_wf_def rb_inv_def new_rbtree_def)
  then show ?thesis using rb_move_leaks_its_sentinel rbtree_move_def by blast
qed

section \<open>The self-test\<close>

lemma dfs_for_test_ok:
  assumes "is_tree t q x T" "T \<noteq> \<langle>\<rangle>" "invc (color t) T" "sorted (map (key t) (inorder T))"
  shows "dfs_for_test t x = Some (Inr True)"
  using assms
proof (induction T arbitrary: q x)
  case (Node l y r)
  from Node.prems have y: "x = y" and lr: "is_tree t y (left t y) l" "is_tree t y (right t y) r" by auto
  have s: "sorted (map (key t) (inorder l))" "sorted (map (key t) (inorder r))"
    "\<forall>z \<in> set_tree l. key t z \<le> key t y" "\<forall>z \<in> set_tree r. key t y \<le> key t z"
    using Node.prems(4) by (auto simp: sorted_append)
  have child: "p = nil \<or> dfs_for_test t p = Some (Inr True) \<and> test_child t y p (Inr True) = Inr True \<and> p \<in> set_tree A"
    if A: "is_tree t y p A" "A = l \<or> A = r" for p A
  proof (cases A)
    case Leaf
    with A(1) show ?thesis by simp
  next
    case (Node a z b)
    then have "dfs_for_test t p = Some (Inr True)" using A Node.IH s(1,2) Node.prems(3) by auto
    moreover have "rcol (color t) A = color t p" using A(1) Node by simp
    then have "test_child t y p (Inr True) = Inr True"
      using Node.prems(3) A(2) by (cases "color t y") (auto simp: test_child_def)
    ultimately show ?thesis using A(1) Node by simp
  qed
  show ?case unfolding y
    by (subst dfs_for_test.simps)
       (use child [OF lr(1)] child [OF lr(2)] s(3,4) in \<open>auto simp: not_less\<close>)
qed simp

text \<open>The self-test accepts every red-black tree (with the sentinel's left link in place) and leaves the
  tree as it is.\<close>

theorem rb_self_test_accepts:
  assumes "rb_rep t es" "left t nil = nil"
  shows "\<exists>t1. test_insert_correction t = Some (Inr True, t1) \<and> rb_rep t1 es"
proof -
  from assms(1) obtain T where wf: "rb_wf t T" and es: "entries t T = es" "sorted (map fst es)"
    by (auto simp: rb_rep_def)
  then have tr: "is_tree t nil (root t) T" and d: "distinct (inorder T)" and c: "invc (color t) T"
    and root: "rcol (color t) T = Black" "color t nil = Black"
    by (auto simp: rb_wf_def rb_inv_def)
  let ?t = "set_parent (root t) nil (set_parent nil nil (set_right nil nil t))"
  have nil: "nil \<notin> set_tree T" using is_tree_nonnil [OF tr] .
  have tr1: "is_tree ?t nil (root t) T"
  proof (cases "root t = nil")
    case True
    with nil tr show ?thesis by simp
  next
    case False
    with nil tr d show ?thesis by (intro is_tree_reparent [of _ nil]) simp_all
  qed
  have "rb_wf ?t T" using wf tr1 by (simp add: rb_wf_def rb_inv_def)
  then have rep: "rb_rep ?t es" using es by (auto simp: rb_rep_def entries_def)
  have "sorted (map (key ?t) (inorder T))" using es by (simp add: entries_def comp_def flip: es(1))
  moreover have "invc (color ?t) T" using c by simp
  ultimately have "T \<noteq> \<langle>\<rangle> \<Longrightarrow> dfs_for_test ?t (root t) = Some (Inr True)" using dfs_for_test_ok [OF tr1] by blast
  moreover have "T = \<langle>\<rangle> \<Longrightarrow> dfs_for_test ?t (root t) = Some (Inr True)"
    using tr assms(2) by (subst dfs_for_test.simps) simp
  ultimately have "dfs_for_test ?t (root t) = Some (Inr True)" by blast
  moreover have "color t (root t) = Black" using root tr by (cases T) auto
  ultimately have "test_insert_correction t = Some (Inr True, ?t)"
    using assms(2) by (simp add: test_insert_correction_def Let_def)
  with rep show ?thesis by blast
qed

theorem rb_self_test_accepts_witness:
  "\<exists>t1. test_insert_correction (new_rbtree (0 :: nat) (0 :: nat)) = Some (Inr True, t1) \<and> rb_rep t1 []"
  by (rule rb_self_test_accepts [OF rb_rep_empty]) (simp add: new_rbtree_def)

end
