(* ===== verification/Lock_Free_Queue.thy ===== *)
theory Lock_Free_Queue
  imports Prelude
begin

text \<open>
  include/data_structure/lockfreequeue.h, class \<open>LockFreeQueue\<close>: a linked queue with compare-and-swap on
  its tail (producers) and on its head (the consumer). Each atomic access of a thread is one step, and a
  run is any schedule of such steps. The addresses are never used again after \<open>delete\<close>; an access to a
  freed node sets \<open>fault\<close>. \<open>order\<close>, \<open>taken\<close> and \<open>answers\<close> record what happened: the nodes in the order their
  CAS on the tail succeeded, the values read by \<open>dequeue\<close> and what the calls of \<open>dequeue\<close> returned.
\<close>

section \<open>The queue\<close>

text \<open>Where a thread is: the statement it executes next, with its local variables.\<close>

datatype lf_pc =
    Idle
  | Enq_Load nat
  | Enq_Cas nat nat
  | Enq_Link nat nat
  | Deq_Load
  | Deq_Next nat
  | Deq_Cas nat nat
  | Deq_Read nat nat
  | Deq_Mark nat nat
  | Deq_Wait nat
  | Deq_Delete nat

record 'a lf_queue =
  head :: nat
  tail :: nat
  nxt :: "nat \<Rightarrow> nat"
  data :: "nat \<Rightarrow> 'a"
  ableToDelete :: "nat \<Rightarrow> bool"
  next_node :: nat
  freed :: "nat list"
  pc :: "nat \<Rightarrow> lf_pc"
  order :: "nat list"
  taken :: "'a list"
  answers :: "bool list"
  fault :: bool

definition LockFreeQueue :: "'a \<Rightarrow> 'a lf_queue" where
  "LockFreeQueue d =
     \<lparr>head = 1, tail = 1, nxt = (\<lambda>_. 0), data = (\<lambda>_. d), ableToDelete = (\<lambda>n. n = 1), next_node = 2, freed = [],
      pc = (\<lambda>_. Idle), order = [1], taken = [], answers = [], fault = False\<rparr>"

definition goto :: "nat \<Rightarrow> lf_pc \<Rightarrow> 'a lf_queue \<Rightarrow> 'a lf_queue" where
  "goto t p q = q\<lparr>pc := (pc q)(t := p)\<rparr>"

definition touch :: "nat \<Rightarrow> 'a lf_queue \<Rightarrow> 'a lf_queue" where
  "touch n q = q\<lparr>fault := fault q \<or> n \<in> set (freed q)\<rparr>"

text \<open>\<open>Node(_data)\<close> and the entry of \<open>enqueue\<close>.\<close>

definition start_enqueue :: "nat \<Rightarrow> 'a \<Rightarrow> 'a lf_queue \<Rightarrow> 'a lf_queue" where
  "start_enqueue t item q =
     (let nd = next_node q
      in goto t (Enq_Load nd)
           (q\<lparr>data := (data q)(nd := item), nxt := (nxt q)(nd := 0), ableToDelete := (ableToDelete q)(nd := False),
              next_node := Suc nd\<rparr>))"

text \<open>The steps of \<open>enqueue\<close>; \<open>weak\<close>: the compare-and-swap fails spuriously.\<close>

fun enqueue_step :: "nat \<Rightarrow> bool \<Rightarrow> lf_pc \<Rightarrow> 'a lf_queue \<Rightarrow> 'a lf_queue" where
  "enqueue_step t weak (Enq_Load nd) q = goto t (Enq_Cas nd (tail q)) q"
| "enqueue_step t weak (Enq_Cas nd curr_tail) q =
     (if tail q = curr_tail \<and> \<not> weak then goto t (Enq_Link nd curr_tail) (q\<lparr>tail := nd, order := order q @ [nd]\<rparr>)
      else goto t (Enq_Load nd) q)"
| "enqueue_step t weak (Enq_Link nd curr_tail) q =
     goto t Idle (touch curr_tail (q\<lparr>nxt := (nxt q)(curr_tail := nd)\<rparr>))"
| "enqueue_step t weak p q = q"

text \<open>The steps of \<open>dequeue\<close>.\<close>

fun dequeue_step :: "nat \<Rightarrow> bool \<Rightarrow> lf_pc \<Rightarrow> 'a lf_queue \<Rightarrow> 'a lf_queue" where
  "dequeue_step t weak Deq_Load q = goto t (Deq_Next (head q)) q"
| "dequeue_step t weak (Deq_Next curr_head) q =
     (if nxt q curr_head \<noteq> 0 then goto t (Deq_Cas curr_head (nxt q curr_head)) (touch curr_head q)
      else goto t Idle (touch curr_head (q\<lparr>answers := answers q @ [False]\<rparr>)))"
| "dequeue_step t weak (Deq_Cas curr_head curr_next) q =
     (if head q = curr_head \<and> \<not> weak then goto t (Deq_Read curr_head curr_next) (q\<lparr>head := curr_next\<rparr>)
      else goto t Deq_Load q)"
| "dequeue_step t weak (Deq_Read curr_head curr_next) q =
     goto t (Deq_Mark curr_head curr_next) (touch curr_next (q\<lparr>taken := taken q @ [data q curr_next]\<rparr>))"
| "dequeue_step t weak (Deq_Mark curr_head curr_next) q =
     goto t (Deq_Wait curr_head)
       (touch curr_next (q\<lparr>ableToDelete := (ableToDelete q)(curr_next := True)\<rparr>))"
| "dequeue_step t weak (Deq_Wait curr_head) q =
     (if ableToDelete q curr_head then goto t (Deq_Delete curr_head) (touch curr_head q) else touch curr_head q)"
| "dequeue_step t weak (Deq_Delete curr_head) q =
     goto t Idle ((touch curr_head q)\<lparr>freed := curr_head # freed q, answers := answers q @ [True]\<rparr>)"
| "dequeue_step t weak p q = q"

datatype 'a lf_action = Call_enqueue nat 'a | Call_dequeue nat | Run nat bool

definition is_enqueue :: "lf_pc \<Rightarrow> bool" where
  "is_enqueue p = (case p of Enq_Load _ \<Rightarrow> True | Enq_Cas _ _ \<Rightarrow> True | Enq_Link _ _ \<Rightarrow> True | _ \<Rightarrow> False)"

fun lf_act :: "'a lf_action \<Rightarrow> 'a lf_queue \<Rightarrow> 'a lf_queue" where
  "lf_act (Call_enqueue t item) q = (if pc q t = Idle then start_enqueue t item q else q)"
| "lf_act (Call_dequeue t) q = (if pc q t = Idle then goto t Deq_Load q else q)"
| "lf_act (Run t weak) q =
     (if is_enqueue (pc q t) then enqueue_step t weak (pc q t) q else dequeue_step t weak (pc q t) q)"

definition lf_run :: "'a lf_action list \<Rightarrow> 'a lf_queue \<Rightarrow> 'a lf_queue" where
  "lf_run = fold lf_act"

text \<open>Only the thread \<open>c\<close> calls \<open>dequeue\<close>.\<close>

definition one_consumer :: "nat \<Rightarrow> 'a lf_action list \<Rightarrow> bool" where
  "one_consumer c as \<longleftrightarrow> list_all (\<lambda>a. case a of Call_dequeue t \<Rightarrow> t = c | _ \<Rightarrow> True) as"

section \<open>The invariant of the producers\<close>

definition link_ok :: "'a lf_queue \<Rightarrow> nat \<Rightarrow> nat \<Rightarrow> bool" where
  "link_ok q a b \<longleftrightarrow> nxt q a = b \<or> nxt q a = 0 \<and> (\<exists>t. pc q t = Enq_Link b a)"

text \<open>The node a producer has allocated.\<close>

fun owned :: "lf_pc \<Rightarrow> nat option" where
  "owned (Enq_Load nd) = Some nd"
| "owned (Enq_Cas nd _) = Some nd"
| "owned (Enq_Link nd _) = Some nd"
| "owned _ = None"

definition order_ok :: "'a lf_queue \<Rightarrow> bool" where
  "order_ok q \<longleftrightarrow> order q \<noteq> [] \<and> distinct (order q) \<and> (\<forall>n \<in> set (order q). 0 < n \<and> n < next_node q) \<and>
     tail q = last (order q) \<and> nxt q (last (order q)) = 0 \<and>
     (\<forall>i. Suc i < length (order q) \<longrightarrow> link_ok q (order q ! i) (order q ! Suc i))"

definition adjacent :: "nat list \<Rightarrow> nat \<Rightarrow> nat \<Rightarrow> bool" where
  "adjacent ns a b \<longleftrightarrow> (\<exists>i. Suc i < length ns \<and> ns ! i = a \<and> ns ! Suc i = b)"

definition producer_ok :: "'a lf_queue \<Rightarrow> lf_pc \<Rightarrow> bool" where
  "producer_ok q p \<longleftrightarrow>
     (case p of
        Enq_Link nd ct \<Rightarrow> nxt q ct = 0 \<and> adjacent (order q) ct nd
      | _ \<Rightarrow> (case owned p of None \<Rightarrow> True | Some nd \<Rightarrow> 0 < nd \<and> nd < next_node q \<and> nd \<notin> set (order q) \<and> nxt q nd = 0))"

definition prod_inv :: "'a lf_queue \<Rightarrow> bool" where
  "prod_inv q \<longleftrightarrow> order_ok q \<and> (\<forall>t. producer_ok q (pc q t)) \<and>
     (\<forall>t t' nd. owned (pc q t) = Some nd \<longrightarrow> owned (pc q t') = Some nd \<longrightarrow> t = t')"

lemma goto_fields [simp]:
  "head (goto t p q) = head q" "tail (goto t p q) = tail q" "nxt (goto t p q) = nxt q" "data (goto t p q) = data q"
  "ableToDelete (goto t p q) = ableToDelete q" "next_node (goto t p q) = next_node q" "freed (goto t p q) = freed q"
  "pc (goto t p q) = (pc q)(t := p)" "order (goto t p q) = order q" "taken (goto t p q) = taken q"
  "fault (goto t p q) = fault q"
  by (simp_all add: goto_def)

lemma touch_fields [simp]:
  "head (touch n q) = head q" "tail (touch n q) = tail q" "nxt (touch n q) = nxt q" "data (touch n q) = data q"
  "ableToDelete (touch n q) = ableToDelete q" "next_node (touch n q) = next_node q" "freed (touch n q) = freed q"
  "pc (touch n q) = pc q" "order (touch n q) = order q" "taken (touch n q) = taken q"
  "fault (touch n q) = (fault q \<or> n \<in> set (freed q))"
  by (simp_all add: touch_def)

text \<open>Steps that leave the list and the producers' positions alone.\<close>

lemma prod_inv_cong:
  assumes "prod_inv q" "order q' = order q" "tail q' = tail q" "nxt q' = nxt q" "next_node q' = next_node q"
    and "pc q' = (pc q)(t := p)" "owned p = None" "\<not> is_enqueue (pc q t)"
  shows "prod_inv q'"
proof -
  have none: "owned (pc q t) = None" using assms(8) by (cases "pc q t") (simp_all add: is_enqueue_def)
  have "(\<exists>t'. pc q' t' = Enq_Link b a) = (\<exists>t'. pc q t' = Enq_Link b a)" for a b
    using assms(6-8) none by (metis fun_upd_apply option.distinct(1) owned.simps(3))
  then have "link_ok q' = link_ok q" by (intro ext) (simp add: link_ok_def assms(4))
  moreover have "producer_ok q' = producer_ok q"
    by (intro ext) (simp add: producer_ok_def assms(2,4,5) split: lf_pc.split)
  moreover have "producer_ok q p" using assms(7) by (cases p) (simp_all add: producer_ok_def)
  ultimately show ?thesis
    using assms(1-7) none by (auto simp: prod_inv_def order_ok_def)
qed

lemma order_ok_facts:
  assumes "order_ok q"
  shows "order q \<noteq> []" "distinct (order q)" "\<And>n. n \<in> set (order q) \<Longrightarrow> 0 < n \<and> n < next_node q"
    "tail q = last (order q)" "nxt q (tail q) = 0" "tail q \<in> set (order q)"
    "\<And>i. Suc i < length (order q) \<Longrightarrow> link_ok q (order q ! i) (order q ! Suc i)"
  using assms by (auto simp: order_ok_def)

lemma link_ok_mono:
  "link_ok q a b \<Longrightarrow> nxt q' a = nxt q a \<Longrightarrow> (\<And>t. pc q t = Enq_Link b a \<Longrightarrow> pc q' t = Enq_Link b a) \<Longrightarrow> link_ok q' a b"
  by (auto simp: link_ok_def)

lemma prod_inv_start:
  assumes inv: "prod_inv q" and idle: "pc q t = Idle"
  shows "prod_inv (start_enqueue t item q)"
proof -
  let ?q = "start_enqueue t item q" and ?nd = "next_node q"
  have f: "order ?q = order q" "tail ?q = tail q" "nxt ?q = (nxt q)(?nd := 0)" "next_node ?q = Suc ?nd"
    "pc ?q = (pc q)(t := Enq_Load ?nd)"
    by (simp_all add: start_enqueue_def Let_def)
  note o = order_ok_facts [of q]
  have ord: "order_ok q" using inv by (simp add: prod_inv_def)
  have fresh: "n \<in> set (order q) \<Longrightarrow> n \<noteq> ?nd" for n using o(3) [OF ord] by fastforce
  have link: "link_ok ?q a b" if "link_ok q a b" "a \<in> set (order q)" for a b
    by (rule link_ok_mono [OF that(1)]) (use fresh [OF that(2)] idle in \<open>auto simp: f\<close>)
  have "order_ok ?q"
    using ord o(3) [OF ord] o(6) [OF ord] fresh link by (auto simp: order_ok_def f less_Suc_eq)
  moreover have "producer_ok ?q (pc ?q t')" for t'
  proof (cases "t' = t")
    case True
    have "0 < ?nd" using o(3) [OF ord o(6) [OF ord]] by simp
    then show ?thesis using fresh True by (auto simp: producer_ok_def f)
  next
    case False
    have "producer_ok q (pc q t')" using inv by (simp add: prod_inv_def)
    then have "producer_ok ?q (pc q t')"
      by (auto simp: producer_ok_def f adjacent_def split: lf_pc.splits option.splits)
    with False show ?thesis by (simp add: f)
  qed
  moreover have "owned (pc q t') \<noteq> Some ?nd" for t'
  proof -
    have "producer_ok q (pc q t')" using inv by (simp add: prod_inv_def)
    moreover have "nd < ?nd" if "adjacent (order q) ct nd" for ct nd
      using that o(3) [OF ord] by (auto simp: adjacent_def)
    ultimately show ?thesis by (cases "pc q t'") (auto simp: producer_ok_def)
  qed
  ultimately show ?thesis using inv by (auto simp: prod_inv_def f)
qed

lemma prod_inv_load:
  assumes "prod_inv q" "pc q t = Enq_Load nd \<or> pc q t = Enq_Cas nd ct'" "p = Enq_Load nd \<or> p = Enq_Cas nd ct"
  shows "prod_inv (goto t p q)"
proof -
  have pq: "owned (pc q t) = Some nd" "owned p = Some nd" using assms(2,3) by auto
  have "link_ok (goto t p q) a b" if "link_ok q a b" for a b
    by (rule link_ok_mono [OF that]) (use assms(2) in auto)
  then have "order_ok (goto t p q)" using assms(1) by (simp add: prod_inv_def order_ok_def)
  moreover have "producer_ok (goto t p q) x = producer_ok q x" for x by (simp add: producer_ok_def split: lf_pc.split)
  moreover have "producer_ok q (pc q t)" using assms(1) by (simp add: prod_inv_def)
  then have "producer_ok q p" using assms(2,3) by (auto simp: producer_ok_def)
  ultimately show ?thesis using assms(1) pq by (auto simp: prod_inv_def)
qed

lemma adjacent_append: "adjacent ns a b \<Longrightarrow> adjacent (ns @ ms) a b"
  unfolding adjacent_def by (elim exE) (rule_tac x = i in exI, simp add: nth_append)

lemma adjacent_last: "ns \<noteq> [] \<Longrightarrow> adjacent (ns @ [b]) (last ns) b"
  unfolding adjacent_def by (rule exI [of _ "length ns - 1"]) (simp add: nth_append last_conv_nth)

lemma prod_inv_cas:
  assumes inv: "prod_inv q" and at: "pc q t = Enq_Cas nd (tail q)"
  shows "prod_inv (goto t (Enq_Link nd (tail q)) (q\<lparr>tail := nd, order := order q @ [nd]\<rparr>))" (is "prod_inv ?q")
proof -
  have ord: "order_ok q" and mine: "producer_ok q (pc q t)"
    and uniq: "\<And>t1 t2 n. owned (pc q t1) = Some n \<Longrightarrow> owned (pc q t2) = Some n \<Longrightarrow> t1 = t2"
    using inv by (auto simp: prod_inv_def)
  note o = order_ok_facts [OF ord]
  have nd: "0 < nd" "nd < next_node q" "nd \<notin> set (order q)" "nxt q nd = 0" using mine at by (simp_all add: producer_ok_def)
  have f: "order ?q = order q @ [nd]" "tail ?q = nd" "nxt ?q = nxt q" "next_node ?q = next_node q"
    "pc ?q = (pc q)(t := Enq_Link nd (tail q))"
    by simp_all
  have link: "link_ok ?q a b" if "link_ok q a b" for a b
    by (rule link_ok_mono [OF that]) (use at in auto)
  have "link_ok ?q ((order q @ [nd]) ! i) ((order q @ [nd]) ! Suc i)" if "Suc i < length (order q @ [nd])" for i
  proof (cases "Suc i < length (order q)")
    case True
    with o(7) link show ?thesis by (simp add: nth_append)
  next
    case False
    with that have i: "Suc i = length (order q)" by simp
    then have "order q ! i = tail q" using o(1,4) by (metis diff_Suc_1 last_conv_nth)
    with i o(5) show ?thesis by (auto simp: nth_append link_ok_def)
  qed
  then have "order_ok ?q" using o nd by (simp add: order_ok_def)
  moreover have "producer_ok ?q (pc ?q t')" for t'
  proof (cases "t' = t")
    case True
    have "adjacent (order q @ [nd]) (tail q) nd" using adjacent_last [OF o(1)] o(4) by simp
    with True o(5) show ?thesis by (simp add: producer_ok_def)
  next
    case False
    have "producer_ok q (pc q t')" using inv by (simp add: prod_inv_def)
    moreover have "owned (pc q t') \<noteq> Some nd" using uniq [of t' nd t] at False by auto
    ultimately have "producer_ok ?q (pc q t')"
      by (auto simp: producer_ok_def adjacent_append split: lf_pc.splits option.splits)
    with False show ?thesis by simp
  qed
  moreover have "owned (pc ?q x) = owned (pc q x)" for x using at by simp
  ultimately show ?thesis using uniq by (simp add: prod_inv_def)
qed

lemma adjacent_unique:
  assumes "distinct ns"
  shows "adjacent ns a b \<Longrightarrow> adjacent ns a b' \<Longrightarrow> b = b'" "adjacent ns a b \<Longrightarrow> adjacent ns a' b \<Longrightarrow> a = a'"
  using assms by (auto simp: adjacent_def nth_eq_iff_index_eq)

lemma prod_inv_link:
  assumes inv: "prod_inv q" and at: "pc q t = Enq_Link nd ct"
  shows "prod_inv (goto t Idle (touch ct (q\<lparr>nxt := (nxt q)(ct := nd)\<rparr>)))" (is "prod_inv ?q")
proof -
  have ord: "order_ok q" and prod: "\<And>t. producer_ok q (pc q t)"
    and uniq: "\<And>t1 t2 n. owned (pc q t1) = Some n \<Longrightarrow> owned (pc q t2) = Some n \<Longrightarrow> t1 = t2"
    using inv by (auto simp: prod_inv_def)
  note o = order_ok_facts [OF ord]
  from prod [of t] at have ct: "nxt q ct = 0" "adjacent (order q) ct nd" by (simp_all add: producer_ok_def)
  have mem: "a \<in> set (order q) \<and> b \<in> set (order q)" if "adjacent (order q) a b" for a b
    using that by (auto simp: adjacent_def)
  have nd: "0 < nd" "ct \<noteq> tail q"
  proof -
    show "0 < nd" using mem [OF ct(2)] o(3) by blast
    obtain i where "Suc i < length (order q)" "order q ! i = ct" using ct(2) by (auto simp: adjacent_def)
    moreover have "tail q = order q ! (length (order q) - 1)" using o(1,4) by (simp add: last_conv_nth)
    ultimately show "ct \<noteq> tail q"
      using nth_eq_iff_index_eq [OF o(2), of i "length (order q) - 1"] by auto
  qed
  have link: "link_ok ?q a b" if "link_ok q a b" "adjacent (order q) a b" for a b
  proof (cases "a = ct")
    case True
    with adjacent_unique(1) [OF o(2) that(2)] ct(2) have "b = nd" by simp
    with True show ?thesis by (simp add: link_ok_def)
  next
    case False
    then show ?thesis by (intro link_ok_mono [OF that(1)]) (use at in auto)
  qed
  have "link_ok ?q (order q ! i) (order q ! Suc i)" if "Suc i < length (order q)" for i
    by (rule link [OF o(7) [OF that]]) (use that in \<open>auto simp: adjacent_def\<close>)
  then have "order_ok ?q" unfolding order_ok_def using o nd by auto
  moreover have "producer_ok ?q (pc ?q t')" for t'
  proof (cases "t' = t")
    case False
    have "\<not> (\<exists>nd'. pc q t' = Enq_Link nd' ct)"
    proof
      assume "\<exists>nd'. pc q t' = Enq_Link nd' ct"
      then obtain nd' where e: "pc q t' = Enq_Link nd' ct" by blast
      with prod [of t'] have "adjacent (order q) ct nd'" by (simp add: producer_ok_def)
      with adjacent_unique(1) [OF o(2) ct(2)] have "nd' = nd" by simp
      with uniq [of t' nd t] at e False show False by simp
    qed
    moreover have "ct \<noteq> n" if "n \<notin> set (order q)" for n using mem [OF ct(2)] that by blast
    ultimately have "producer_ok ?q (pc q t')"
      using prod [of t'] by (auto simp: producer_ok_def split: lf_pc.splits option.splits)
    with False show ?thesis by simp
  qed (simp add: producer_ok_def)
  ultimately show ?thesis using uniq by (auto simp: prod_inv_def)
qed

lemma prod_inv_enqueue:
  assumes "prod_inv q" "is_enqueue (pc q t)"
  shows "prod_inv (enqueue_step t weak (pc q t) q)"
proof (cases "pc q t")
  case (Enq_Load nd)
  with prod_inv_load [OF assms(1), of t nd 0 "Enq_Cas nd (tail q)" "tail q"] show ?thesis by simp
next
  case (Enq_Cas nd ct)
  with prod_inv_load [OF assms(1), of t nd ct "Enq_Load nd" 0] prod_inv_cas [OF assms(1), of t nd] show ?thesis by auto
next
  case (Enq_Link nd ct)
  with prod_inv_link [OF assms(1)] show ?thesis by simp
qed (use assms(2) in \<open>simp_all add: is_enqueue_def\<close>)

lemma stay: "owned (pc q t) = None \<Longrightarrow> \<exists>p. pc q = (pc q)(t := p) \<and> owned p = None"
  by (rule exI [of _ "pc q t"]) simp

lemma dequeue_step_frame:
  "\<not> is_enqueue (pc q t) \<Longrightarrow>
     order (dequeue_step t weak (pc q t) q) = order q \<and> tail (dequeue_step t weak (pc q t) q) = tail q \<and>
     nxt (dequeue_step t weak (pc q t) q) = nxt q \<and> next_node (dequeue_step t weak (pc q t) q) = next_node q \<and>
     data (dequeue_step t weak (pc q t) q) = data q \<and>
     (\<exists>p. pc (dequeue_step t weak (pc q t) q) = (pc q)(t := p) \<and> owned p = None)"
  by (cases "pc q t") (auto simp: is_enqueue_def intro: stay)

lemma prod_inv_act: "prod_inv q \<Longrightarrow> prod_inv (lf_act a q)"
proof (cases a)
  case (Call_enqueue t item)
  then show "prod_inv q \<Longrightarrow> ?thesis" by (simp add: prod_inv_start)
next
  case (Call_dequeue t)
  then show "prod_inv q \<Longrightarrow> ?thesis" by (auto intro!: prod_inv_cong [of q _ t Deq_Load] simp: is_enqueue_def)
next
  case (Run t weak)
  assume inv: "prod_inv q"
  show ?thesis
  proof (cases "is_enqueue (pc q t)")
    case True
    with inv Run show ?thesis by (simp add: prod_inv_enqueue)
  next
    case False
    from dequeue_step_frame [OF False, of weak] obtain p where
      "pc (dequeue_step t weak (pc q t) q) = (pc q)(t := p)" "owned p = None" by blast
    with prod_inv_cong [OF inv _ _ _ _ this False] dequeue_step_frame [OF False, of weak] Run False show ?thesis by simp
  qed
qed

section \<open>The invariant of the consumer\<close>

definition is_dequeue :: "lf_pc \<Rightarrow> bool" where
  "is_dequeue p \<longleftrightarrow> p \<noteq> Idle \<and> \<not> is_enqueue p"

text \<open>The nodes \<open>xs\<close> have been left behind; \<open>zs\<close> are freed.\<close>

definition left_behind :: "'a lf_queue \<Rightarrow> nat list \<Rightarrow> nat list \<Rightarrow> nat list \<Rightarrow> bool" where
  "left_behind q xs zs vs \<longleftrightarrow> set (freed q) = set zs \<and> taken q = map (data q) vs"

fun consumer_ok :: "'a lf_queue \<Rightarrow> nat list \<Rightarrow> lf_pc \<Rightarrow> bool" where
  "consumer_ok q xs (Deq_Next h) \<longleftrightarrow> h = head q \<and> left_behind q xs xs (tl (xs @ [head q])) \<and> ableToDelete q (head q)"
| "consumer_ok q xs (Deq_Cas h n) \<longleftrightarrow> h = head q \<and> n = nxt q h \<and> n \<noteq> 0 \<and>
     left_behind q xs xs (tl (xs @ [head q])) \<and> ableToDelete q (head q)"
| "consumer_ok q xs (Deq_Read h n) \<longleftrightarrow> n = head q \<and> (\<exists>zs. xs = zs @ [h] \<and> left_behind q xs zs (tl xs))"
| "consumer_ok q xs (Deq_Mark h n) \<longleftrightarrow> n = head q \<and> (\<exists>zs. xs = zs @ [h] \<and> left_behind q xs zs (tl (xs @ [head q])))"
| "consumer_ok q xs (Deq_Wait h) \<longleftrightarrow> (\<exists>zs. xs = zs @ [h] \<and> left_behind q xs zs (tl (xs @ [head q]))) \<and>
     ableToDelete q (head q)"
| "consumer_ok q xs (Deq_Delete h) \<longleftrightarrow> (\<exists>zs. xs = zs @ [h] \<and> left_behind q xs zs (tl (xs @ [head q]))) \<and>
     ableToDelete q (head q)"
| "consumer_ok q xs p \<longleftrightarrow> left_behind q xs xs (tl (xs @ [head q])) \<and> ableToDelete q (head q)"

definition cons_inv :: "nat \<Rightarrow> 'a lf_queue \<Rightarrow> bool" where
  "cons_inv c q \<longleftrightarrow> (\<forall>t. is_dequeue (pc q t) \<longrightarrow> t = c) \<and> \<not> fault q \<and>
     (\<exists>xs ys. order q = xs @ head q # ys \<and> (\<forall>x \<in> set xs. nxt q x \<noteq> 0 \<and> ableToDelete q x) \<and> consumer_ok q xs (pc q c))"

lemma freed_behind: "consumer_ok q xs p \<Longrightarrow> set (freed q) \<subseteq> set xs"
  by (cases p) (auto simp: left_behind_def)

text \<open>A change of a producer elsewhere.\<close>

lemma consumer_ok_cong:
  assumes "consumer_ok q xs p" "head q' = head q" "freed q' = freed q" "taken q' = taken q"
    and "\<And>x. x \<in> set xs \<union> {head q} \<Longrightarrow> data q' x = data q x \<and> ableToDelete q' x = ableToDelete q x"
    and "nxt q (head q) \<noteq> 0 \<Longrightarrow> nxt q' (head q) = nxt q (head q)"
  shows "consumer_ok q' xs p"
proof -
  have d: "map (data q') vs = map (data q) vs" if "set vs \<subseteq> set xs \<union> {head q}" for vs
    using assms(5) that by auto
  have tl: "set (tl (xs @ [head q])) \<subseteq> set xs \<union> {head q}" "set (tl xs) \<subseteq> set xs \<union> {head q}"
    by (cases xs; auto)+
  show ?thesis
    using assms(1-4,6) assms(5) [of "head q"] d [OF tl(1)] d [OF tl(2)]
    by (cases p) (auto simp: left_behind_def)
qed

lemma consumer_ok_idle:
  "is_enqueue p \<or> p = Idle \<or> p = Deq_Load \<Longrightarrow> is_enqueue p' \<or> p' = Idle \<or> p' = Deq_Load \<Longrightarrow>
   consumer_ok q xs p = consumer_ok q xs p'"
  by (cases p; cases p') (simp_all add: is_enqueue_def)

text \<open>A step of the thread \<open>t\<close> that is not inside \<open>dequeue\<close>.\<close>

lemma cons_inv_other:
  assumes inv: "cons_inv c q" and p: "\<not> is_dequeue (pc q t)" "pc q' = (pc q)(t := p)" "\<not> is_dequeue p"
    and same: "head q' = head q" "freed q' = freed q" "taken q' = taken q" "\<not> fault q'" "order q' = order q @ new"
    and keep: "\<And>x. x \<in> set (order q) \<Longrightarrow> data q' x = data q x \<and> ableToDelete q' x = ableToDelete q x \<and>
      (nxt q x \<noteq> 0 \<longrightarrow> nxt q' x = nxt q x)"
  shows "cons_inv c q'"
proof -
  from inv obtain xs ys where o: "order q = xs @ head q # ys" "\<forall>x \<in> set xs. nxt q x \<noteq> 0 \<and> ableToDelete q x"
    "consumer_ok q xs (pc q c)" and only: "\<And>t. is_dequeue (pc q t) \<Longrightarrow> t = c"
    by (auto simp: cons_inv_def)
  have "consumer_ok q' xs (pc q c)"
    by (rule consumer_ok_cong [OF o(3)]) (use same keep o(1) in auto)
  moreover have "consumer_ok q' xs (pc q' c) = consumer_ok q' xs (pc q c)"
    using p by (cases "t = c") (auto intro!: consumer_ok_idle simp: is_dequeue_def)
  moreover have "order q' = xs @ head q' # ys @ new" using o(1) same by simp
  moreover have "\<forall>x \<in> set xs. nxt q' x \<noteq> 0 \<and> ableToDelete q' x" using o(1,2) keep by auto
  moreover have "is_dequeue (pc q' t') \<Longrightarrow> t' = c" for t' using only p by (auto split: if_splits)
  ultimately show ?thesis using same(4) unfolding cons_inv_def by blast
qed

lemma cons_inv_start:
  assumes "prod_inv q" "cons_inv c q" "pc q t = Idle"
  shows "cons_inv c (start_enqueue t item q)"
proof (rule cons_inv_other [OF assms(2), where new = "[]" and t = t and p = "Enq_Load (next_node q)"])
  fix x assume "x \<in> set (order q)"
  then have "x \<noteq> next_node q" using assms(1) by (auto simp: prod_inv_def order_ok_def)
  then show "data (start_enqueue t item q) x = data q x \<and> ableToDelete (start_enqueue t item q) x = ableToDelete q x \<and>
      (nxt q x \<noteq> 0 \<longrightarrow> nxt (start_enqueue t item q) x = nxt q x)"
    by (simp add: start_enqueue_def Let_def)
qed (use assms in \<open>simp_all add: start_enqueue_def Let_def is_dequeue_def is_enqueue_def cons_inv_def\<close>)

lemma cons_inv_enqueue:
  assumes "prod_inv q" "cons_inv c q" "is_enqueue (pc q t)"
  shows "cons_inv c (enqueue_step t weak (pc q t) q)"
proof (cases "pc q t")
  case (Enq_Load nd)
  then show ?thesis
    by (intro cons_inv_other [OF assms(2), where new = "[]" and t = t and p = "Enq_Cas nd (tail q)"])
       (use assms(2) in \<open>simp_all add: is_dequeue_def is_enqueue_def cons_inv_def\<close>)
next
  case (Enq_Cas nd ct)
  show ?thesis
  proof (cases "tail q = ct \<and> \<not> weak")
    case True
    with Enq_Cas show ?thesis
      by (intro cons_inv_other [OF assms(2), where new = "[nd]" and t = t and p = "Enq_Link nd ct"])
         (use assms(2) in \<open>simp_all add: is_dequeue_def is_enqueue_def cons_inv_def\<close>)
  next
    case False
    then have "enqueue_step t weak (pc q t) q = goto t (Enq_Load nd) q" using Enq_Cas by auto
    then show ?thesis using Enq_Cas
      by (intro cons_inv_other [OF assms(2), where new = "[]" and t = t and p = "Enq_Load nd"])
         (use assms(2) in \<open>simp_all add: is_dequeue_def is_enqueue_def cons_inv_def\<close>)
  qed
next
  case (Enq_Link nd ct)
  have "producer_ok q (pc q t)" using assms(1) by (simp add: prod_inv_def)
  then have ct: "nxt q ct = 0" using Enq_Link by (simp add: producer_ok_def)
  have "ct \<notin> set (freed q)"
  proof
    assume "ct \<in> set (freed q)"
    moreover obtain xs where "\<forall>x \<in> set xs. nxt q x \<noteq> 0" "consumer_ok q xs (pc q c)"
      using assms(2) by (auto simp: cons_inv_def)
    ultimately show False using freed_behind ct by blast
  qed
  then show ?thesis using Enq_Link ct
    by (intro cons_inv_other [OF assms(2), where new = "[]" and t = t and p = Idle])
       (use assms(2) in \<open>auto simp: is_dequeue_def is_enqueue_def cons_inv_def\<close>)
qed (use assms(3) in \<open>simp_all add: is_enqueue_def\<close>)

text \<open>A node with a successor is followed by it in the order of the compare-and-swaps.\<close>

lemma next_in_order:
  assumes "prod_inv q" "order q = xs @ h # ys" "nxt q h \<noteq> 0"
  shows "\<exists>zs. ys = nxt q h # zs"
proof (cases ys)
  case Nil
  with assms show ?thesis by (auto simp: prod_inv_def order_ok_def)
next
  case (Cons y zs)
  have "link_ok q (order q ! length xs) (order q ! Suc (length xs))"
    using assms(1,2) Cons unfolding prod_inv_def order_ok_def by (metis add.right_neutral add_Suc_right length_append length_Cons
        less_add_Suc1 nat_add_left_cancel_less not_less_eq zero_less_Suc)
  moreover have "order q ! length xs = h" "order q ! Suc (length xs) = y"
    using assms(2) Cons by (simp_all add: nth_append)
  ultimately have "nxt q h = y" using assms(3) by (simp add: link_ok_def)
  with Cons show ?thesis by simp
qed

lemma cons_inv_cong:
  assumes "cons_inv c q" "is_dequeue (pc q c) \<or> p = Deq_Load" "pc q' = (pc q)(c := p)" "order q' = order q" "nxt q' = nxt q"
    "order q = xs @ head q' # ys" "\<forall>x \<in> set xs. nxt q x \<noteq> 0 \<and> ableToDelete q' x" "consumer_ok q' xs p" "\<not> fault q'"
  shows "cons_inv c q'"
  using assms by (auto simp: cons_inv_def)

lemma cons_inv_dequeue:
  assumes prod: "prod_inv q" and inv: "cons_inv c q" and at: "is_dequeue (pc q c)"
  shows "cons_inv c (dequeue_step c weak (pc q c) q)"
proof -
  from inv obtain xs ys where o: "order q = xs @ head q # ys" "\<forall>x \<in> set xs. nxt q x \<noteq> 0 \<and> ableToDelete q x"
    "consumer_ok q xs (pc q c)" and nf: "\<not> fault q"
    by (auto simp: cons_inv_def)
  have d: "distinct (order q)" using prod by (simp add: prod_inv_def order_ok_def)
  have hf: "head q \<notin> set xs" using d o(1) by simp
  then have free: "head q \<notin> set (freed q)" using freed_behind [OF o(3)] by blast
  note rule = cons_inv_cong [OF inv, of _ "dequeue_step c weak (pc q c) q"]
  show ?thesis
  proof (cases "pc q c")
    case Deq_Load
    then show ?thesis by (intro rule [of "Deq_Next (head q)" xs ys]) (use o nf at in \<open>auto simp: left_behind_def\<close>)
  next
    case (Deq_Next h)
    then show ?thesis
    proof (cases "nxt q h = 0")
      case True
      with Deq_Next show ?thesis
        by (intro rule [of Idle xs ys]) (use o nf at free in \<open>auto simp: left_behind_def\<close>)
    next
      case False
      with Deq_Next show ?thesis
        by (intro rule [of "Deq_Cas h (nxt q h)" xs ys]) (use o nf at free in \<open>auto simp: left_behind_def\<close>)
    qed
  next
    case (Deq_Cas h n)
    then have hn: "h = head q" "n = nxt q h" "n \<noteq> 0" using o(3) by auto
    with next_in_order [OF prod o(1)] obtain zs where "ys = n # zs" by blast
    then have ord: "order q = (xs @ [h]) @ n # zs" using o(1) hn(1) by simp
    show ?thesis
    proof (cases weak)
      case False
      with Deq_Cas hn show ?thesis
        by (intro rule [of "Deq_Read h n" "xs @ [h]" zs]) (use o nf at ord in \<open>auto simp: left_behind_def\<close>)
    next
      case True
      with Deq_Cas show ?thesis
        by (intro rule [of Deq_Load xs ys]) (use o nf at in \<open>auto simp: left_behind_def\<close>)
    qed
  next
    case (Deq_Read h n)
    then obtain zs where zs: "xs = zs @ [h]" "left_behind q xs zs (tl xs)" "n = head q" using o(3) by auto
    have "tl (xs @ [head q]) = tl xs @ [head q]" using zs(1) by (cases zs) simp_all
    with zs have "consumer_ok (dequeue_step c weak (pc q c) q) xs (Deq_Mark h n)"
      using Deq_Read by (auto simp: left_behind_def)
    with Deq_Read zs(3) show ?thesis
      by (intro rule [of "Deq_Mark h n" xs ys]) (use o nf at free in auto)
  next
    case (Deq_Mark h n)
    then show ?thesis
      by (intro rule [of "Deq_Wait h" xs ys]) (use o nf at free in \<open>auto simp: left_behind_def\<close>)
  next
    case (Deq_Wait h)
    then obtain zs where zs: "xs = zs @ [h]" "set (freed q) = set zs" using o(3) by (auto simp: left_behind_def)
    then have "h \<notin> set (freed q)" "ableToDelete q h" using d o(1,2) by auto
    with Deq_Wait show ?thesis
      by (intro rule [of "Deq_Delete h" xs ys]) (use o nf at in \<open>auto simp: left_behind_def\<close>)
  next
    case (Deq_Delete h)
    then obtain zs where zs: "xs = zs @ [h]" "set (freed q) = set zs" using o(3) by (auto simp: left_behind_def)
    then have "h \<notin> set (freed q)" using d o(1) by auto
    with Deq_Delete zs show ?thesis
      by (intro rule [of Idle xs ys]) (use o nf at in \<open>auto simp: left_behind_def\<close>)
  qed (use at in \<open>simp_all add: is_dequeue_def is_enqueue_def\<close>)
qed

lemma cons_inv_act:
  assumes "prod_inv q" "cons_inv c q" "one_consumer c [a]"
  shows "cons_inv c (lf_act a q)"
proof (cases a)
  case (Call_enqueue t item)
  with assms show ?thesis by (simp add: cons_inv_start)
next
  case (Call_dequeue t)
  then have [simp]: "t = c" using assms(3) by (simp add: one_consumer_def)
  show ?thesis
  proof (cases "pc q c = Idle")
    case True
    from assms(2) obtain xs ys where "order q = xs @ head q # ys" "\<forall>x \<in> set xs. nxt q x \<noteq> 0 \<and> ableToDelete q x"
      "consumer_ok q xs (pc q c)" "\<not> fault q"
      by (auto simp: cons_inv_def)
    with True Call_dequeue show ?thesis
      by (intro cons_inv_cong [OF assms(2), of Deq_Load _ xs ys]) (auto simp: left_behind_def)
  qed (use assms(2) Call_dequeue in simp)
next
  case (Run t weak)
  consider "is_enqueue (pc q t)" | "pc q t = Idle" | "is_dequeue (pc q t)" by (auto simp: is_dequeue_def)
  then show ?thesis
  proof cases
    case 1
    with assms Run show ?thesis by (simp add: cons_inv_enqueue)
  next
    case 2
    with assms Run show ?thesis by (simp add: is_enqueue_def)
  next
    case 3
    then have "t = c" using assms(2) by (simp add: cons_inv_def)
    with 3 assms Run cons_inv_dequeue [OF assms(1,2)] show ?thesis by (simp add: is_dequeue_def)
  qed
qed

section \<open>Whole runs\<close>

lemma invs_start: "prod_inv (LockFreeQueue d)" "cons_inv c (LockFreeQueue d)"
  by (simp_all add: LockFreeQueue_def prod_inv_def order_ok_def producer_ok_def cons_inv_def is_dequeue_def left_behind_def)

lemma invs_run: "prod_inv q \<Longrightarrow> cons_inv c q \<Longrightarrow> one_consumer c as \<Longrightarrow> prod_inv (lf_run as q) \<and> cons_inv c (lf_run as q)"
proof (induction as arbitrary: q)
  case (Cons a as)
  then have "one_consumer c [a]" "one_consumer c as" by (auto simp: one_consumer_def)
  moreover have "lf_run (a # as) q = lf_run as (lf_act a q)" by (simp add: lf_run_def)
  ultimately show ?case
    using Cons.IH [of "lf_act a q"] Cons.prems(1,2) prod_inv_act [of q a] cons_inv_act [of q c a] by simp
qed (simp add: lf_run_def)

text \<open>The values in the order in which their nodes became the tail.\<close>

definition enqueued :: "'a lf_queue \<Rightarrow> 'a list" where
  "enqueued q = map (data q) (tl (order q))"

lemma taken_prefix:
  assumes "order q = xs @ head q # ys" "consumer_ok q xs p"
  shows "\<exists>rest. enqueued q = taken q @ rest"
proof -
  have "taken q = map (data q) (tl xs) \<or> taken q = map (data q) (tl (xs @ [head q]))"
    using assms(2) by (cases p) (auto simp: left_behind_def)
  moreover have "\<exists>rest. tl (order q) = tl xs @ rest" "\<exists>rest. tl (order q) = tl (xs @ [head q]) @ rest"
    unfolding assms(1) by (cases xs; simp)+
  ultimately show ?thesis unfolding enqueued_def by (metis map_append)
qed

text \<open>C17: with one consumer and any number of producers, whatever the schedule, no access hits a freed node, and
  the values \<open>dequeue\<close> has read are the first of those enqueued, in the order of the enqueues' successful
  compare-and-swaps, none lost or doubled.\<close>

theorem lockfree_queue_is_safe_fifo:
  assumes "one_consumer c as"
  shows "\<not> fault (lf_run as (LockFreeQueue d)) \<and>
     (\<exists>rest. enqueued (lf_run as (LockFreeQueue d)) = taken (lf_run as (LockFreeQueue d)) @ rest)"
proof -
  have "cons_inv c (lf_run as (LockFreeQueue d))" using invs_run [OF invs_start assms] by blast
  then show ?thesis using taken_prefix by (auto simp: cons_inv_def)
qed

definition one_item :: "nat lf_action list" where
  "one_item =
     [Call_enqueue 1 7, Run 1 False, Run 1 False, Run 1 False, Call_dequeue 0] @ replicate 7 (Run 0 False)"

theorem lockfree_queue_is_safe_fifo_witness:
  "taken (lf_run one_item (LockFreeQueue 0)) = [7] \<and> \<not> fault (lf_run one_item (LockFreeQueue 0))"
proof -
  have "one_consumer 0 one_item" "taken (lf_run one_item (LockFreeQueue 0)) = [7]" by code_simp+
  with lockfree_queue_is_safe_fifo [of 0 one_item 0] show ?thesis by blast
qed

text \<open>With one consumer the loop that waits for \<open>ableToDelete\<close> never waits: whenever it is reached the flag is set.\<close>

theorem lockfree_dequeue_never_spins:
  assumes "one_consumer c as" "pc (lf_run as (LockFreeQueue d)) t = Deq_Wait h"
  shows "ableToDelete (lf_run as (LockFreeQueue d)) h"
proof -
  have inv: "cons_inv c (lf_run as (LockFreeQueue d))" using invs_run [OF invs_start assms(1)] by blast
  then have "t = c" using assms(2) by (auto simp: cons_inv_def is_dequeue_def is_enqueue_def)
  with inv assms(2) show ?thesis by (auto simp: cons_inv_def)
qed

definition to_wait :: "nat lf_action list" where
  "to_wait = [Call_enqueue 1 7, Run 1 False, Run 1 False, Run 1 False, Call_dequeue 0] @ replicate 5 (Run 0 False)"

theorem lockfree_dequeue_never_spins_witness:
  "pc (lf_run to_wait (LockFreeQueue 0)) 0 = Deq_Wait 1 \<and> ableToDelete (lf_run to_wait (LockFreeQueue 0)) 1"
proof -
  have "one_consumer 0 to_wait" "pc (lf_run to_wait (LockFreeQueue 0)) 0 = Deq_Wait 1" by code_simp+
  with lockfree_dequeue_never_spins [of 0 to_wait 0 0 1] show ?thesis by blast
qed

definition two_consumers :: "nat lf_action list" where
  "two_consumers =
     [Call_enqueue 1 7, Run 1 False, Run 1 False, Run 1 False, Call_dequeue 2, Run 2 False, Call_dequeue 3] @
     replicate 7 (Run 3 False) @ [Run 2 False]"

text \<open>The queue is for one consumer: with two, one can read the successor of a node the other has freed.\<close>

theorem lockfree_two_consumers_use_after_free:
  "fault (lf_run two_consumers (LockFreeQueue 0))"
  by code_simp

definition hidden_item :: "nat lf_action list" where
  "hidden_item =
     [Call_enqueue 1 7, Run 1 False, Run 1 False, Call_enqueue 2 8, Run 2 False, Run 2 False, Run 2 False,
      Call_dequeue 0, Run 0 False, Run 0 False]"

text \<open>\<open>dequeue\<close> may say that the queue is empty although an enqueue has returned and nothing was taken: a
  producer that has moved the tail but not yet linked its node hides every later one.\<close>

theorem lockfree_dequeue_misses_finished_enqueue:
  "pc (lf_run hidden_item (LockFreeQueue 0)) 2 = Idle \<and> enqueued (lf_run hidden_item (LockFreeQueue 0)) = [7, 8] \<and>
   answers (lf_run hidden_item (LockFreeQueue 0)) = [False] \<and> taken (lf_run hidden_item (LockFreeQueue 0)) = []"
  by code_simp

end
