(* ===== verification/Linked_Queue.thy ===== *)
theory Linked_Queue
  imports Fifo
begin

text \<open>
  include/data_structure/lockfreequeue.h, classes \<open>SimpleQueue\<close> and \<open>LockedQueue\<close>: a singly linked list with
  a head node in front and a tail pointer that is null when the queue is empty. Address 0 is the null
  pointer. \<open>LockedQueue\<close> runs the same statements under its mutex, so an operation is one step.
\<close>

section \<open>Nodes and operations\<close>

record 'a linked_queue =
  head :: nat
  tail :: nat
  nxt :: "nat \<Rightarrow> nat"
  data :: "nat \<Rightarrow> 'a"
  next_node :: nat

definition SimpleQueue :: "'a \<Rightarrow> 'a linked_queue" where
  "SimpleQueue d = \<lparr>head = 1, tail = 0, nxt = (\<lambda>_. 0), data = (\<lambda>_. d), next_node = 2\<rparr>"

definition enqueue :: "'a \<Rightarrow> 'a linked_queue \<Rightarrow> 'a linked_queue" where
  "enqueue item q =
     (let new_node = next_node q;
          q1 = q\<lparr>data := (data q)(new_node := item), nxt := (nxt q)(new_node := 0), next_node := Suc new_node\<rparr>;
          q2 = (if tail q1 \<noteq> 0 then q1\<lparr>nxt := (nxt q1)(tail q1 := new_node)\<rparr>
                else q1\<lparr>nxt := (nxt q1)(head q1 := new_node)\<rparr>)
      in q2\<lparr>tail := new_node\<rparr>)"

text \<open>\<open>LockedQueue::enqueue\<close> allocates the node first and links it under the lock.\<close>

definition locked_enqueue :: "'a \<Rightarrow> 'a linked_queue \<Rightarrow> 'a linked_queue" where
  "locked_enqueue item q =
     (let new_node = next_node q;
          q1 = q\<lparr>data := (data q)(new_node := item), nxt := (nxt q)(new_node := 0), next_node := Suc new_node\<rparr>;
          q2 = (if tail q1 \<noteq> 0 then q1\<lparr>nxt := (nxt q1)(tail q1 := new_node)\<rparr>
                else q1\<lparr>nxt := (nxt q1)(head q1 := new_node)\<rparr>)
      in q2\<lparr>tail := new_node\<rparr>)"

text \<open>\<open>SimpleQueue::dequeue\<close> follows the null pointer of an empty queue.\<close>

definition simple_dequeue :: "('a linked_queue, 'a) sm" where
  "simple_dequeue q =
     (let ret = nxt q (head q) in
      if ret = 0 then (Inl Undefined, q)
      else let q1 = q\<lparr>nxt := (nxt q)(head q := nxt q ret)\<rparr>;
               q2 = (if ret = tail q1 then q1\<lparr>tail := 0\<rparr> else q1)
           in (Inr (data q2 ret), q2))"

definition locked_dequeue :: "('a linked_queue, 'a) sm" where
  "locked_dequeue q =
     (let ret = nxt q (head q) in
      if ret = 0 then (Inl (Thrown ''empty queue''), q)
      else let q1 = q\<lparr>nxt := (nxt q)(head q := nxt q ret)\<rparr>;
               q2 = (if ret = tail q1 then q1\<lparr>tail := 0\<rparr> else q1)
           in (Inr (data q2 ret), q2))"

section \<open>The list of nodes\<close>

fun chain :: "(nat \<Rightarrow> nat) \<Rightarrow> nat \<Rightarrow> nat list \<Rightarrow> bool" where
  "chain n p [] \<longleftrightarrow> p = 0"
| "chain n p (x # xs) \<longleftrightarrow> p = x \<and> x \<noteq> 0 \<and> chain n (n x) xs"

text \<open>Following the links, at most \<open>fuel\<close> of them; the addresses grow along the list, so the next free
  address is fuel enough.\<close>

fun walk :: "(nat \<Rightarrow> nat) \<Rightarrow> nat \<Rightarrow> nat \<Rightarrow> nat list" where
  "walk n p 0 = []"
| "walk n p (Suc fuel) = (if p = 0 then [] else p # walk n (n p) fuel)"

lemma chain_walk: "chain n p xs \<Longrightarrow> length xs \<le> fuel \<Longrightarrow> walk n p fuel = xs"
proof (induction xs arbitrary: p fuel)
  case Nil
  then show ?case by (cases fuel) simp_all
next
  case (Cons x xs)
  then show ?case by (cases fuel) simp_all
qed

lemma chain_upd: "x \<notin> set xs \<Longrightarrow> chain (n(x := v)) p xs = chain n p xs"
  by (induction xs arbitrary: p) auto

lemma chain_append_one:
  "chain n p xs \<Longrightarrow> xs \<noteq> [] \<Longrightarrow> distinct xs \<Longrightarrow> z \<notin> set xs \<Longrightarrow> z \<noteq> 0 \<Longrightarrow>
   chain (n(z := 0, last xs := z)) p (xs @ [z])"
proof (induction xs arbitrary: p)
  case (Cons x xs)
  then show ?case by (cases "xs = []") (auto simp: chain_upd)
qed simp

definition queue_nodes :: "'a linked_queue \<Rightarrow> nat list" where
  "queue_nodes q = walk (nxt q) (nxt q (head q)) (next_node q)"

definition queue_items :: "'a linked_queue \<Rightarrow> 'a list" where
  "queue_items q = map (data q) (queue_nodes q)"

definition queue_ok :: "'a linked_queue \<Rightarrow> bool" where
  "queue_ok q \<longleftrightarrow> 0 < head q \<and> head q < next_node q \<and>
     chain (nxt q) (nxt q (head q)) (queue_nodes q) \<and> sorted_wrt (<) (head q # queue_nodes q) \<and>
     (\<forall>x \<in> set (queue_nodes q). x < next_node q) \<and>
     tail q = (if queue_nodes q = [] then 0 else last (queue_nodes q))"

lemma sorted_length: "sorted_wrt (<) xs \<Longrightarrow> \<forall>x \<in> set xs. x < (n :: nat) \<Longrightarrow> length xs \<le> n"
proof -
  assume "sorted_wrt (<) xs" "\<forall>x \<in> set xs. x < n"
  then have "distinct xs" "set xs \<subseteq> {..<n}" by (auto simp: strict_sorted_iff)
  then show ?thesis using card_mono [of "{..<n}" "set xs"] by (simp add: distinct_card)
qed

text \<open>A queue whose nodes are \<open>xs\<close>.\<close>

definition has_nodes :: "'a linked_queue \<Rightarrow> nat list \<Rightarrow> bool" where
  "has_nodes q xs \<longleftrightarrow> 0 < head q \<and> head q < next_node q \<and> chain (nxt q) (nxt q (head q)) xs \<and>
     sorted_wrt (<) (head q # xs) \<and> (\<forall>x \<in> set xs. x < next_node q) \<and> tail q = (if xs = [] then 0 else last xs)"

lemma queue_ok_has_nodes: "queue_ok q \<longleftrightarrow> has_nodes q (queue_nodes q)"
  by (simp add: queue_ok_def has_nodes_def)

lemma has_nodes_unique: "has_nodes q xs \<Longrightarrow> queue_nodes q = xs \<and> queue_ok q"
proof -
  assume h: "has_nodes q xs"
  then have "length xs \<le> next_node q" using sorted_length [of xs "next_node q"] by (simp add: has_nodes_def)
  then have "queue_nodes q = xs" using h chain_walk unfolding has_nodes_def queue_nodes_def by blast
  with h show ?thesis by (simp add: queue_ok_has_nodes)
qed

section \<open>The queue contract\<close>

lemma has_nodes_new: "has_nodes (SimpleQueue d) []"
  by (simp add: SimpleQueue_def has_nodes_def)

lemma has_nodes_enqueue:
  assumes "has_nodes q xs"
  shows "has_nodes (enqueue item q) (xs @ [next_node q])" "data (enqueue item q) = (data q)(next_node q := item)"
proof -
  show "data (enqueue item q) = (data q)(next_node q := item)" by (simp add: enqueue_def Let_def)
  let ?z = "next_node q"
  have z: "?z \<noteq> 0" "?z \<notin> set xs" "head q \<noteq> ?z" "head q \<notin> set xs" using assms by (auto simp: has_nodes_def)
  have s: "sorted_wrt (<) (head q # xs @ [?z])" using assms by (auto simp: has_nodes_def sorted_wrt_append)
  show "has_nodes (enqueue item q) (xs @ [?z])"
  proof (cases "xs = []")
    case True
    with assms z s show ?thesis by (auto simp: has_nodes_def enqueue_def Let_def)
  next
    case False
    have l: "head q < last xs" using assms last_in_set [OF False] by (auto simp: has_nodes_def simp del: last_in_set)
    have "tail q = last xs" "0 < head q" using False assms by (simp_all add: has_nodes_def)
    with l have t: "tail q = last xs" "tail q \<noteq> 0" "last xs \<noteq> head q" by linarith+
    have "chain ((nxt q)(?z := 0, last xs := ?z)) (nxt q (head q)) (xs @ [?z])"
      by (rule chain_append_one) (use assms z False in \<open>auto simp: has_nodes_def strict_sorted_iff\<close>)
    with assms z s t False show ?thesis by (auto simp: has_nodes_def enqueue_def Let_def)
  qed
qed

lemma has_nodes_dequeue:
  assumes "has_nodes q (x # xs)" "q' = (q\<lparr>nxt := (nxt q)(head q := nxt q x)\<rparr>)" "q'' = (if x = tail q' then q'\<lparr>tail := 0\<rparr> else q')"
  shows "has_nodes q'' xs"
proof -
  have x: "head q \<noteq> x" "head q \<notin> set xs" "x \<notin> set xs" "distinct xs" using assms(1) by (auto simp: has_nodes_def strict_sorted_iff)
  have "x = last (x # xs) \<longleftrightarrow> xs = []" using x(3) by (cases "xs = []") (use last_in_set in auto)
  with assms x show ?thesis by (auto simp: has_nodes_def chain_upd)
qed

definition deq_of :: "('a linked_queue, 'a) sm \<Rightarrow> 'a linked_queue \<Rightarrow> ('a \<times> 'a linked_queue) option" where
  "deq_of f q = (case f q of (Inr x, q') \<Rightarrow> Some (x, q') | _ \<Rightarrow> None)"

lemma dequeue_cases:
  assumes "has_nodes q ns"
  shows "ns = [] \<Longrightarrow> simple_dequeue q = (Inl Undefined, q) \<and> locked_dequeue q = (Inl (Thrown ''empty queue''), q)"
    and "ns = x # xs \<Longrightarrow> \<exists>q'. simple_dequeue q = (Inr (data q x), q') \<and> locked_dequeue q = (Inr (data q x), q') \<and>
           has_nodes q' xs \<and> data q' = data q"
proof -
  show "ns = [] \<Longrightarrow> simple_dequeue q = (Inl Undefined, q) \<and> locked_dequeue q = (Inl (Thrown ''empty queue''), q)"
    using assms by (simp add: has_nodes_def simple_dequeue_def locked_dequeue_def)
  assume ns: "ns = x # xs"
  then have x: "nxt q (head q) = x" "x \<noteq> 0" using assms by (simp_all add: has_nodes_def)
  let ?q1 = "q\<lparr>nxt := (nxt q)(head q := nxt q x)\<rparr>"
  let ?q2 = "if x = tail ?q1 then ?q1\<lparr>tail := 0\<rparr> else ?q1"
  have "has_nodes ?q2 xs" using has_nodes_dequeue [OF assms [unfolded ns] refl refl] .
  moreover have "simple_dequeue q = (Inr (data q x), ?q2)" "locked_dequeue q = (Inr (data q x), ?q2)" "data ?q2 = data q"
    using x by (simp_all add: simple_dequeue_def locked_dequeue_def Let_def)
  ultimately show "\<exists>q'. simple_dequeue q = (Inr (data q x), q') \<and> locked_dequeue q = (Inr (data q x), q') \<and>
           has_nodes q' xs \<and> data q' = data q"
    by blast
qed

lemma queue_laws:
  assumes f: "f = simple_dequeue \<or> f = locked_dequeue"
  shows "queue_ok q \<Longrightarrow> queue_ok (enqueue x q)"
    and "queue_ok q \<Longrightarrow> queue_items (enqueue x q) = queue_items q @ [x]"
    and "queue_ok q \<Longrightarrow> deq_of f q = None \<Longrightarrow> queue_items q = []"
    and "queue_ok q \<Longrightarrow> deq_of f q = Some (y, q') \<Longrightarrow> queue_items q = y # queue_items q' \<and> queue_ok q'"
proof -
  assume "queue_ok q"
  then have h: "has_nodes q (queue_nodes q)" by (simp add: queue_ok_has_nodes)
  note e = has_nodes_enqueue [OF h, of x]
  show "queue_ok (enqueue x q)" using has_nodes_unique [OF e(1)] by simp
  have "next_node q \<notin> set (queue_nodes q)" using h by (auto simp: has_nodes_def)
  then show "queue_items (enqueue x q) = queue_items q @ [x]"
    using has_nodes_unique [OF e(1)] e(2) by (simp add: queue_items_def)
  show "deq_of f q = None \<Longrightarrow> queue_items q = []"
    using f dequeue_cases(2) [OF h] by (cases "queue_nodes q") (auto simp: deq_of_def queue_items_def)
  show "queue_items q = y # queue_items q' \<and> queue_ok q'" if "deq_of f q = Some (y, q')"
  proof (cases "queue_nodes q")
    case Nil
    with that f dequeue_cases(1) [OF h] show ?thesis by (auto simp: deq_of_def)
  next
    case (Cons z zs)
    from dequeue_cases(2) [OF h Cons] that f have "y = data q z" "has_nodes q' zs" "data q' = data q"
      by (auto simp: deq_of_def)
    with has_nodes_unique [of q' zs] Cons show ?thesis by (simp add: queue_items_def)
  qed
qed

interpretation simple: queue queue_ok queue_items enqueue "deq_of simple_dequeue"
  by unfold_locales (fact queue_laws [OF disjI1 [OF refl]])+

lemma same_enqueue: "locked_enqueue = enqueue"
  by (intro ext) (simp add: locked_enqueue_def enqueue_def)

interpretation locked: queue queue_ok queue_items locked_enqueue "deq_of locked_dequeue"
  unfolding same_enqueue
  by unfold_locales (fact queue_laws [OF disjI2 [OF refl]])+

lemma new_queue: "queue_ok (SimpleQueue d)" "queue_items (SimpleQueue d) = []"
  using has_nodes_unique [OF has_nodes_new, of d] by (simp_all add: queue_items_def)

text \<open>Both linked queues are first-in-first-out over any sequence of operations on a new queue: what the successful
  dequeues return, followed by what is still linked, is what was enqueued, in order.\<close>

theorem linked_queues_are_fifo:
  "fst (run_queue enqueue (deq_of simple_dequeue) ops (SimpleQueue d)) @
     queue_items (snd (run_queue enqueue (deq_of simple_dequeue) ops (SimpleQueue d))) = queue_enqs ops \<and>
   fst (run_queue locked_enqueue (deq_of locked_dequeue) ops (SimpleQueue d)) @
     queue_items (snd (run_queue locked_enqueue (deq_of locked_dequeue) ops (SimpleQueue d))) = queue_enqs ops"
  using simple.run_conserves [OF new_queue(1), of ops d] locked.run_conserves [OF new_queue(1), of ops d] new_queue(2) [of d]
  by simp

text \<open>On an empty queue \<open>LockedQueue::dequeue\<close> throws and changes nothing, and \<open>SimpleQueue::dequeue\<close> follows a
  null pointer; on any other both give the front.\<close>

theorem linked_dequeue_outcomes:
  assumes "queue_ok q"
  shows "if queue_items q = [] then locked_dequeue q = (Inl (Thrown ''empty queue''), q) \<and> simple_dequeue q = (Inl Undefined, q)
     else fst (locked_dequeue q) = Inr (hd (queue_items q)) \<and> fst (simple_dequeue q) = Inr (hd (queue_items q))"
proof -
  have h: "has_nodes q (queue_nodes q)" using assms by (simp add: queue_ok_has_nodes)
  show ?thesis
    using dequeue_cases(1) [OF h] dequeue_cases(2) [OF h]
    by (cases "queue_nodes q") (auto simp: queue_items_def)
qed

theorem linked_dequeue_outcomes_witness:
  "fst (locked_dequeue (enqueue (5 :: nat) (SimpleQueue 0))) = Inr 5 \<and>
   locked_dequeue (SimpleQueue (0 :: nat)) = (Inl (Thrown ''empty queue''), SimpleQueue 0)"
proof -
  have "queue_ok (enqueue (5 :: nat) (SimpleQueue 0))" "queue_items (enqueue (5 :: nat) (SimpleQueue 0)) = [5]"
    by (simp_all add: simple.enq_inv simple.enq_items new_queue)
  with linked_dequeue_outcomes [of "enqueue (5 :: nat) (SimpleQueue 0)"]
    linked_dequeue_outcomes [OF new_queue(1), of "0 :: nat"] new_queue(2) [of "0 :: nat"]
  show ?thesis by simp
qed

end
