(* ===== verification/LRU_Cache.thy ===== *)
theory LRU_Cache
  imports Prelude
begin

text \<open>
  include/data_structure/lru_cache.h: \<open>ConcurrentLRUCache\<close> and \<open>LRUCache\<close>, a hash map to the nodes of a doubly
  linked list between a head and a tail node, most recently used first. The two classes run the same
  statements; \<open>get\<close> answers a missing key with \<open>nullopt\<close> or with -1. \<open>put\<close> takes its value at the key type, so
  the conversion to the value type is a parameter. The abstract cache is the list of entries in order of
  use.
\<close>

section \<open>The cache\<close>

record ('k, 'v) lru_cache =
  capacity :: int
  current_size :: int
  key :: "nat \<Rightarrow> 'k"
  val :: "nat \<Rightarrow> 'v"
  nxt :: "nat \<Rightarrow> nat"
  lst :: "nat \<Rightarrow> nat"
  hash :: "'k \<Rightarrow> nat option"
  next_node :: nat
  freed :: "nat list"

text \<open>The nodes \<open>head\<close> and \<open>tail\<close>; their keys and values are never read.\<close>

abbreviation head :: nat where "head \<equiv> 1"
abbreviation tail :: nat where "tail \<equiv> 2"

definition LRUCache :: "'k \<Rightarrow> 'v \<Rightarrow> int \<Rightarrow> ('k, 'v) lru_cache" where
  "LRUCache dk dv cap =
     \<lparr>capacity = cap, current_size = 0, key = (\<lambda>_. dk), val = (\<lambda>_. dv), nxt = (\<lambda>_. 0)(head := tail),
      lst = (\<lambda>_. 0)(tail := head), hash = (\<lambda>_. None), next_node = 3, freed = []\<rparr>"

definition set_nxt :: "nat \<Rightarrow> nat \<Rightarrow> ('k, 'v) lru_cache \<Rightarrow> ('k, 'v) lru_cache" where
  "set_nxt n m c = c\<lparr>nxt := (nxt c)(n := m)\<rparr>"
definition set_lst :: "nat \<Rightarrow> nat \<Rightarrow> ('k, 'v) lru_cache \<Rightarrow> ('k, 'v) lru_cache" where
  "set_lst n m c = c\<lparr>lst := (lst c)(n := m)\<rparr>"

text \<open>The two statements that take a node out of the list, in \<open>get\<close> and \<open>put\<close>.\<close>

definition detach :: "nat \<Rightarrow> ('k, 'v) lru_cache \<Rightarrow> ('k, 'v) lru_cache" where
  "detach n c = (let c1 = set_nxt (lst c n) (nxt c n) c in set_lst (nxt c1 n) (lst c1 n) c1)"

definition moveToFront :: "nat \<Rightarrow> ('k, 'v) lru_cache \<Rightarrow> ('k, 'v) lru_cache" where
  "moveToFront n c =
     (let c1 = set_nxt n (nxt c head) c;
          c2 = set_lst (nxt c1 head) n c1;
          c3 = set_nxt head n c2
      in set_lst n head c3)"

definition evictLast :: "('k, 'v) lru_cache \<Rightarrow> ('k, 'v) lru_cache" where
  "evictLast c =
     (let temp = lst c tail;
          c1 = set_nxt (lst c temp) tail c;
          c2 = set_lst tail (lst c1 temp) c1
      in c2\<lparr>hash := (hash c2)(key c2 temp := None), freed := temp # freed c2, current_size := current_size c2 - 1\<rparr>)"

definition concurrent_get :: "'k \<Rightarrow> ('k, 'v) lru_cache \<Rightarrow> 'v option \<times> ('k, 'v) lru_cache" where
  "concurrent_get k c =
     (case hash c k of
        None \<Rightarrow> (None, c)
      | Some n \<Rightarrow> let c1 = moveToFront n (detach n c) in (Some (val c1 n), c1))"

definition get :: "('v \<Rightarrow> int) \<Rightarrow> 'k \<Rightarrow> ('k, 'v) lru_cache \<Rightarrow> int \<times> ('k, 'v) lru_cache" where
  "get to_int k c =
     (case hash c k of
        None \<Rightarrow> (- 1, c)
      | Some n \<Rightarrow> let c1 = moveToFront n (detach n c) in (to_int (val c1 n), c1))"

definition put :: "('k \<Rightarrow> 'v) \<Rightarrow> 'k \<Rightarrow> 'k \<Rightarrow> ('k, 'v) lru_cache \<Rightarrow> ('k, 'v) lru_cache" where
  "put conv k value c =
     (let (n, c1) =
        (case hash c k of
           Some n \<Rightarrow> (n, detach n (c\<lparr>val := (val c)(n := conv value)\<rparr>))
         | None \<Rightarrow>
             let temp = next_node c
             in (temp, c\<lparr>key := (key c)(temp := k), val := (val c)(temp := conv value), next_node := Suc temp,
                        hash := (hash c)(k \<mapsto> temp), current_size := current_size c + 1\<rparr>));
          c2 = moveToFront n c1
      in if current_size c2 > capacity c2 then evictLast c2 else c2)"

section \<open>Doubly linked lists\<close>

definition dll :: "(nat \<Rightarrow> nat) \<Rightarrow> (nat \<Rightarrow> nat) \<Rightarrow> nat list \<Rightarrow> bool" where
  "dll nx lt = successively (\<lambda>a b. nx a = b \<and> lt b = a)"

lemma dll_simps [simp]:
  "dll nx lt []" "dll nx lt [a]"
  "dll nx lt (a # b # xs) \<longleftrightarrow> nx a = b \<and> lt b = a \<and> dll nx lt (b # xs)"
  by (simp_all add: dll_def)

lemma dll_append: "dll nx lt (xs @ a # ys) \<longleftrightarrow> dll nx lt (xs @ [a]) \<and> dll nx lt (a # ys)"
proof (induction xs)
  case (Cons x xs)
  then show ?case by (cases xs) auto
qed simp

lemma dll_upd:
  "x \<notin> set (butlast xs) \<Longrightarrow> dll (nx(x := v)) lt xs = dll nx lt xs"
  "x \<notin> set (List.tl xs) \<Longrightarrow> dll nx (lt(x := v)) xs = dll nx lt xs"
  by (induction xs rule: induct_list012) auto

lemma dll_detach:
  assumes "dll nx lt (us @ a # n # b # vs)" "distinct (us @ a # n # b # vs)"
  shows "dll (nx(a := b)) (lt(b := a)) (us @ a # b # vs)"
proof -
  have "dll nx lt (us @ [a])" "dll nx lt (b # vs)"
    using assms(1) unfolding dll_append [of nx lt us a "n # b # vs"] by simp_all
  moreover have "a \<notin> set (butlast (us @ [a]))" "b \<notin> set (List.tl (b # vs))" using assms(2) by simp_all
  moreover have "b \<notin> set (List.tl (us @ [a]))" using assms(2) by (cases us) simp_all
  moreover have "a \<notin> set (b # vs)" using assms(2) by simp
  then have "a \<notin> set (butlast (b # vs))" by (metis in_set_butlastD)
  ultimately have "dll (nx(a := b)) (lt(b := a)) (us @ [a])" "dll (nx(a := b)) (lt(b := a)) (b # vs)"
    by (simp_all only: dll_upd not_False_eq_True)
  then show ?thesis unfolding dll_append [of _ _ us a "b # vs"] by simp
qed

lemma dll_front:
  assumes "dll nx lt (h # f # vs)" "distinct (h # f # vs)" "n \<notin> set (h # f # vs)"
  shows "dll (nx(n := f, h := n)) (lt(f := n, n := h)) (h # n # f # vs)"
proof -
  have "dll nx lt (f # vs)" using assms(1) by simp
  moreover have "n \<notin> set (butlast (f # vs))" "h \<notin> set (butlast (f # vs))" "f \<notin> set (List.tl (f # vs))"
    "n \<notin> set (List.tl (f # vs))"
    using assms(2,3) in_set_butlastD [of n "f # vs"] in_set_butlastD [of h "f # vs"] by auto
  ultimately have "dll (nx(n := f, h := n)) (lt(f := n, n := h)) (f # vs)" by (simp only: dll_upd not_False_eq_True)
  with assms(2,3) show ?thesis by simp
qed

section \<open>The list of the cache\<close>

definition lru_list :: "('k, 'v) lru_cache \<Rightarrow> nat list \<Rightarrow> bool" where
  "lru_list c ns \<longleftrightarrow> dll (nxt c) (lst c) (head # ns @ [tail]) \<and> distinct (head # ns @ [tail])"

lemma lru_list_ends:
  assumes "lru_list c (us @ n # vs)"
  obtains as a b bs where "head # us = as @ [a]" "vs @ [tail] = b # bs" "lst c n = a" "nxt c n = b"
    "dll (nxt c) (lst c) (as @ a # n # b # bs)" "distinct (as @ a # n # b # bs)"
proof -
  obtain as a where a: "head # us = as @ [a]" by (metis append_butlast_last_id list.distinct(1))
  obtain b bs where b: "vs @ [tail] = b # bs" by (cases "vs @ [tail]") auto
  have eq: "head # (us @ n # vs) @ [tail] = as @ a # n # b # bs"
    using a b by (metis append.assoc append_Cons append_Nil)
  with assms have d: "dll (nxt c) (lst c) (as @ a # n # b # bs)" "distinct (as @ a # n # b # bs)"
    unfolding lru_list_def by metis+
  moreover have "lst c n = a" "nxt c n = b" using d(1) unfolding dll_append [of _ _ as a "n # b # bs"] by simp_all
  ultimately show ?thesis using that a b by blast
qed

lemma detach_fields [simp]:
  "key (detach n c) = key c" "val (detach n c) = val c" "hash (detach n c) = hash c" "next_node (detach n c) = next_node c"
  "capacity (detach n c) = capacity c" "current_size (detach n c) = current_size c" "freed (detach n c) = freed c"
  by (simp_all add: detach_def set_nxt_def set_lst_def Let_def)

lemma front_fields [simp]:
  "key (moveToFront n c) = key c" "val (moveToFront n c) = val c" "hash (moveToFront n c) = hash c"
  "next_node (moveToFront n c) = next_node c" "capacity (moveToFront n c) = capacity c"
  "current_size (moveToFront n c) = current_size c" "freed (moveToFront n c) = freed c"
  by (simp_all add: moveToFront_def set_nxt_def set_lst_def Let_def)

lemma lru_list_cong: "nxt c' = nxt c \<Longrightarrow> lst c' = lst c \<Longrightarrow> lru_list c' ns = lru_list c ns"
  by (simp add: lru_list_def)

lemma detach_list:
  assumes "lru_list c (us @ n # vs)"
  shows "lru_list (detach n c) (us @ vs)"
proof -
  from lru_list_ends [OF assms] obtain as a b bs where e: "head # us = as @ [a]" "vs @ [tail] = b # bs" "lst c n = a" "nxt c n = b"
    "dll (nxt c) (lst c) (as @ a # n # b # bs)" "distinct (as @ a # n # b # bs)" by blast
  have ab: "a \<noteq> n" "b \<noteq> n" using e(6) by auto
  have "nxt (detach n c) = (nxt c)(a := b)" "lst (detach n c) = (lst c)(b := a)"
    using e(3,4) ab by (simp_all add: detach_def set_nxt_def set_lst_def Let_def)
  moreover have "head # (us @ vs) @ [tail] = as @ a # b # bs" using e(1,2) by (metis append.assoc append_Cons append_Nil)
  ultimately show ?thesis using dll_detach [OF e(5,6)] e(6) by (simp add: lru_list_def)
qed

lemma front_list:
  assumes "lru_list c ns" "n \<notin> set ns" "n \<noteq> head" "n \<noteq> tail"
  shows "lru_list (moveToFront n c) (n # ns)"
proof -
  obtain f vs where f: "ns @ [tail] = f # vs" by (cases "ns @ [tail]") auto
  then have d: "dll (nxt c) (lst c) (head # f # vs)" "distinct (head # f # vs)" using assms(1) by (simp_all add: lru_list_def)
  have n: "n \<notin> set (head # f # vs)" using assms(2-4) by (metis f list.set_intros(1) rotate1.simps(2) set_ConsD set_rotate1)
  have "nxt (moveToFront n c) = (nxt c)(n := f, head := n)" "lst (moveToFront n c) = (lst c)(f := n, n := head)"
    using d(1) n by (auto simp: moveToFront_def set_nxt_def set_lst_def Let_def)
  with dll_front [OF d n] d(2) n show ?thesis by (simp add: lru_list_def f)
qed

lemma evict_list:
  assumes "lru_list c (ns @ [n])"
  shows "lru_list (evictLast c) ns" "lst c tail = n"
proof -
  have "dll (nxt c) (lst c) ((head # ns) @ n # [tail])" using assms by (simp add: lru_list_def)
  then have n: "lst c tail = n" "nxt c n = tail" unfolding dll_append [of _ _ "head # ns" n "[tail]"] by simp_all
  show "lst c tail = n" by (fact n(1))
  have "nxt (evictLast c) = nxt (detach n c)" "lst (evictLast c) = lst (detach n c)"
    using n by (simp_all add: evictLast_def detach_def set_nxt_def set_lst_def Let_def)
  then have "lru_list (evictLast c) ns = lru_list (detach n c) ns" by (rule lru_list_cong)
  with detach_list [of c ns n "[]"] assms show "lru_list (evictLast c) ns" by simp
qed

section \<open>Refinement of the list of entries\<close>

definition lru_ok :: "('k, 'v) lru_cache \<Rightarrow> nat list \<Rightarrow> bool" where
  "lru_ok c ns \<longleftrightarrow> lru_list c ns \<and> (\<forall>n \<in> set ns. n < next_node c) \<and> 2 < next_node c \<and> distinct (map (key c) ns) \<and>
     (\<forall>k n. hash c k = Some n \<longleftrightarrow> n \<in> set ns \<and> key c n = k) \<and> current_size c = int (length ns)"

definition lru_rep :: "('k, 'v) lru_cache \<Rightarrow> ('k \<times> 'v) list \<Rightarrow> bool" where
  "lru_rep c es \<longleftrightarrow> (\<exists>ns. lru_ok c ns \<and> es = map (\<lambda>n. (key c n, val c n)) ns)"

text \<open>The abstract operations.\<close>

definition without :: "'k \<Rightarrow> ('k \<times> 'v) list \<Rightarrow> ('k \<times> 'v) list" where
  "without k es = filter (\<lambda>e. fst e \<noteq> k) es"

definition spec_get :: "'k \<Rightarrow> ('k \<times> 'v) list \<Rightarrow> 'v option \<times> ('k \<times> 'v) list" where
  "spec_get k es = (case map_of es k of None \<Rightarrow> (None, es) | Some v \<Rightarrow> (Some v, (k, v) # without k es))"

definition spec_put :: "int \<Rightarrow> 'k \<Rightarrow> 'v \<Rightarrow> ('k \<times> 'v) list \<Rightarrow> ('k \<times> 'v) list" where
  "spec_put cap k v es =
     (let es1 = (k, v) # without k es in if int (length es1) > cap then butlast es1 else es1)"

lemma lru_rep_new: "lru_rep (LRUCache dk dv cap) []"
  unfolding lru_rep_def by (intro exI [of _ "[]"]) (simp add: lru_ok_def lru_list_def LRUCache_def)

definition entries_of :: "('k, 'v) lru_cache \<Rightarrow> nat list \<Rightarrow> ('k \<times> 'v) list" where
  "entries_of c ns = map (\<lambda>n. (key c n, val c n)) ns"

lemma lru_ok_ends: "lru_ok c ns \<Longrightarrow> n \<in> set ns \<Longrightarrow> n \<noteq> head \<and> n \<noteq> tail"
  by (auto simp: lru_ok_def lru_list_def)

lemma promote_ok:
  assumes "lru_ok c (us @ n # vs)"
  shows "lru_ok (moveToFront n (detach n c)) (n # us @ vs)"
proof -
  have l: "lru_list c (us @ n # vs)" and d: "n \<notin> set (us @ vs)" using assms by (auto simp: lru_ok_def lru_list_def)
  have "lru_list (moveToFront n (detach n c)) (n # us @ vs)"
    using front_list [OF detach_list [OF l] d] lru_ok_ends [OF assms, of n] by simp
  with assms show ?thesis by (auto simp: lru_ok_def)
qed

lemma key_differs: "lru_ok c (us @ n # vs) \<Longrightarrow> m \<in> set (us @ vs) \<Longrightarrow> key c m \<noteq> key c n"
proof -
  assume "lru_ok c (us @ n # vs)" and m: "m \<in> set (us @ vs)"
  then have "distinct (map (key c) (us @ n # vs))" by (simp only: lru_ok_def)
  then have "key c n \<notin> set (map (key c) (us @ vs))" by simp
  with m show ?thesis by (metis image_eqI set_map)
qed

lemma without_self:
  assumes "lru_ok c (us @ n # vs)"
  shows "without (key c n) (entries_of c (us @ n # vs)) = entries_of c (us @ vs)"
proof -
  have "filter (\<lambda>m. key c m \<noteq> key c n) us = us" "filter (\<lambda>m. key c m \<noteq> key c n) vs = vs"
    by (rule filter_True, use key_differs [OF assms] in simp)+
  then show ?thesis by (simp add: without_def entries_of_def filter_map comp_def)
qed

lemma hash_cases:
  assumes "lru_ok c ns"
  obtains "hash c k = None" "map_of (entries_of c ns) k = None" "k \<notin> key c ` set ns"
  | us n vs where "hash c k = Some n" "ns = us @ n # vs" "key c n = k" "map_of (entries_of c ns) k = Some (val c n)"
proof (cases "hash c k")
  case None
  then have k: "k \<notin> key c ` set ns" using assms by (auto simp: lru_ok_def) (metis option.distinct(1))
  then have "map_of (entries_of c ns) k = None" by (auto simp: map_of_eq_None_iff entries_of_def)
  with None k that(1) show ?thesis by blast
next
  case (Some n)
  then have n: "n \<in> set ns" "key c n = k" using assms by (auto simp: lru_ok_def)
  then obtain us vs where ns: "ns = us @ n # vs" by (meson split_list)
  have "distinct (map fst (entries_of c ns))" using assms by (simp add: lru_ok_def entries_of_def comp_def)
  moreover have "(k, val c n) \<in> set (entries_of c ns)" using n by (auto simp: entries_of_def)
  ultimately have "map_of (entries_of c ns) k = Some (val c n)" by simp
  with Some ns n(2) that(2) show ?thesis by blast
qed

lemma get_refines:
  assumes "lru_rep c es" "spec_get k es = (r, es')"
  shows "\<exists>c'. concurrent_get k c = (r, c') \<and> get to_int k c = (case r of None \<Rightarrow> - 1 | Some v \<Rightarrow> to_int v, c') \<and>
           lru_rep c' es' \<and> capacity c' = capacity c \<and> freed c' = freed c"
proof -
  from assms(1) obtain ns where ok: "lru_ok c ns" and es: "es = entries_of c ns" by (auto simp: lru_rep_def entries_of_def)
  show ?thesis
  proof (rule hash_cases [OF ok, of k])
    assume "hash c k = None" "map_of (entries_of c ns) k = None"
    with assms es show ?thesis by (simp add: concurrent_get_def get_def spec_get_def)
  next
    fix us n vs
    assume h: "hash c k = Some n" "ns = us @ n # vs" "key c n = k" "map_of (entries_of c ns) k = Some (val c n)"
    let ?c = "moveToFront n (detach n c)"
    have "r = Some (val c n)" "es' = (k, val c n) # without k es" using assms(2) h(4) es by (auto simp: spec_get_def)
    moreover have "entries_of ?c (n # us @ vs) = (k, val c n) # without k es"
      using without_self [OF ok [unfolded h(2)]] h(2,3) es by (simp add: entries_of_def)
    moreover have "lru_ok ?c (n # us @ vs)" by (rule promote_ok [OF ok [unfolded h(2)]])
    ultimately have "lru_rep ?c es'" unfolding lru_rep_def entries_of_def by metis
    then show ?thesis using h \<open>r = Some (val c n)\<close> by (simp add: concurrent_get_def get_def Let_def)
  qed
qed

lemma evict_ok:
  assumes "lru_ok c (ns @ [n])"
  shows "lru_ok (evictLast c) ns \<and> entries_of (evictLast c) ns = entries_of c ns \<and> capacity (evictLast c) = capacity c \<and>
    freed (evictLast c) = n # freed c"
proof -
  have l: "lru_list c (ns @ [n])" using assms by (simp add: lru_ok_def)
  have n: "lst c tail = n" by (rule evict_list(2) [OF l])
  have f: "key (evictLast c) = key c" "val (evictLast c) = val c" "hash (evictLast c) = (hash c)(key c n := None)"
    "next_node (evictLast c) = next_node c" "current_size (evictLast c) = current_size c - 1"
    "capacity (evictLast c) = capacity c" "freed (evictLast c) = n # freed c"
    using n by (simp_all add: evictLast_def set_nxt_def set_lst_def Let_def)
  have "\<And>m. m \<in> set ns \<Longrightarrow> key c m \<noteq> key c n" using key_differs [of c ns n "[]"] assms by simp
  moreover have "\<And>k m. hash c k = Some m \<longleftrightarrow> m \<in> set (ns @ [n]) \<and> key c m = k" using assms by (simp only: lru_ok_def)
  ultimately have "hash (evictLast c) k = Some m \<longleftrightarrow> m \<in> set ns \<and> key c m = k" for k m
    unfolding f by (cases "k = key c n") auto
  with evict_list(1) [OF l] assms f show ?thesis by (simp add: lru_ok_def entries_of_def)
qed

lemma put_present:
  fixes c :: "('k, 'v) lru_cache" and v :: 'v
  assumes ok: "lru_ok c (us @ n # vs)" and h: "hash c k = Some n" "key c n = k"
  defines "c1 \<equiv> moveToFront n (detach n (c\<lparr>val := (val c)(n := v)\<rparr>))"
  shows "lru_ok c1 (n # us @ vs)" "entries_of c1 (n # us @ vs) = (k, v) # without k (entries_of c (us @ n # vs))"
    "capacity c1 = capacity c"
proof -
  let ?c = "c\<lparr>val := (val c)(n := v)\<rparr>"
  have "lru_list ?c ns = lru_list c ns" for ns by (rule lru_list_cong) simp_all
  then have "lru_ok ?c (us @ n # vs)" using ok by (simp add: lru_ok_def)
  from promote_ok [OF this] show "lru_ok c1 (n # us @ vs)" by (simp add: c1_def)
  have "n \<notin> set (us @ vs)" using ok by (auto simp: lru_ok_def lru_list_def)
  then show "entries_of c1 (n # us @ vs) = (k, v) # without k (entries_of c (us @ n # vs))"
    using without_self [OF ok] h by (auto simp: entries_of_def c1_def)
  show "capacity c1 = capacity c" by (simp add: c1_def)
qed

lemma put_absent:
  fixes c :: "('k, 'v) lru_cache" and v :: 'v
  assumes ok: "lru_ok c ns" and h: "hash c k = None" "k \<notin> key c ` set ns"
  defines "z \<equiv> next_node c"
  defines "c1 \<equiv> moveToFront z (c\<lparr>key := (key c)(z := k), val := (val c)(z := v), next_node := Suc z,
                        hash := (hash c)(k \<mapsto> z), current_size := current_size c + 1\<rparr>)"
  shows "lru_ok c1 (z # ns)" "entries_of c1 (z # ns) = (k, v) # without k (entries_of c ns)" "capacity c1 = capacity c"
proof -
  let ?c = "c\<lparr>key := (key c)(z := k), val := (val c)(z := v), next_node := Suc z,
                        hash := (hash c)(k \<mapsto> z), current_size := current_size c + 1\<rparr>"
  have z: "z \<notin> set ns" "z \<noteq> head" "z \<noteq> tail" using ok by (auto simp: lru_ok_def z_def)
  have "lru_list ?c ns = lru_list c ns" by (rule lru_list_cong) simp_all
  then have "lru_list ?c ns" using ok by (simp add: lru_ok_def)
  from front_list [OF this z] have "lru_list c1 (z # ns)" by (simp add: c1_def)
  moreover have mk: "map (key c1) ns = map (key c) ns" using z by (simp add: c1_def)
  have "distinct (map (key c1) (z # ns))"
    unfolding list.map mk using ok h(2) by (simp add: c1_def lru_ok_def)
  moreover have "hash c1 k' = Some m \<longleftrightarrow> m \<in> set (z # ns) \<and> key c1 m = k'" for k' m
    using ok h z by (auto simp: c1_def lru_ok_def)
  moreover have "\<forall>n \<in> set (z # ns). n < next_node c1" "2 < next_node c1" "current_size c1 = int (length (z # ns))"
    using ok by (auto simp: c1_def lru_ok_def z_def)
  ultimately show "lru_ok c1 (z # ns)" unfolding lru_ok_def by blast
  have "without k (entries_of c ns) = entries_of c ns"
    using h(2) by (auto simp: without_def entries_of_def intro!: filter_True)
  then show "entries_of c1 (z # ns) = (k, v) # without k (entries_of c ns)"
    using z by (auto simp: entries_of_def c1_def)
  show "capacity c1 = capacity c" by (simp add: c1_def)
qed

lemma put_refines:
  assumes "lru_rep c es"
  shows "lru_rep (put conv k value c) (spec_put (capacity c) k (conv value) es) \<and> capacity (put conv k value c) = capacity c"
proof -
  from assms obtain ns where ok: "lru_ok c ns" and es: "es = entries_of c ns" by (auto simp: lru_rep_def entries_of_def)
  have finish: "lru_rep c' (spec_put (capacity c) k (conv value) es) \<and> capacity c' = capacity c"
    if "lru_ok c2 ns2" "entries_of c2 ns2 = (k, conv value) # without k es" "capacity c2 = capacity c"
      "c' = (if current_size c2 > capacity c2 then evictLast c2 else c2)" for c' c2 ns2
  proof -
    have len: "current_size c2 = int (length ((k, conv value) # without k es))"
      using that(1,2) by (metis entries_of_def length_map lru_ok_def)
    have "ns2 \<noteq> []" using that(2) by (auto simp: entries_of_def)
    then obtain ms m where ms: "ns2 = ms @ [m]" by (cases ns2 rule: rev_cases) auto
    have "butlast (entries_of c2 ns2) = entries_of c2 ms" by (simp add: ms entries_of_def)
    with evict_ok [OF that(1) [unfolded ms]] that len show ?thesis
      by (auto simp: lru_rep_def spec_put_def Let_def entries_of_def)
  qed
  show ?thesis
  proof (rule hash_cases [OF ok, of k])
    assume h: "hash c k = None" "k \<notin> key c ` set ns"
    show ?thesis by (rule finish [OF put_absent [OF ok h, where v = "conv value", folded es]]) (simp add: put_def h Let_def)
  next
    fix us n vs
    assume h: "hash c k = Some n" "ns = us @ n # vs" "key c n = k"
    show ?thesis
      by (rule finish [OF put_present [OF ok [unfolded h(2)] h(1,3), where v = "conv value", folded h(2), folded es]])
         (simp add: put_def h(1) Let_def)
  qed
qed

section \<open>Whole runs\<close>

datatype 'k lru_op = Get 'k | Put 'k 'k

fun run_lru :: "('k \<Rightarrow> 'v) \<Rightarrow> 'k lru_op list \<Rightarrow> ('k, 'v) lru_cache \<Rightarrow> 'v option list \<times> ('k, 'v) lru_cache" where
  "run_lru conv [] c = ([], c)"
| "run_lru conv (Get k # ops) c =
     (case concurrent_get k c of (r, c1) \<Rightarrow> case run_lru conv ops c1 of (rs, c2) \<Rightarrow> (r # rs, c2))"
| "run_lru conv (Put k v # ops) c = run_lru conv ops (put conv k v c)"

fun run_spec :: "int \<Rightarrow> ('k \<Rightarrow> 'v) \<Rightarrow> 'k lru_op list \<Rightarrow> ('k \<times> 'v) list \<Rightarrow> 'v option list \<times> ('k \<times> 'v) list" where
  "run_spec cap conv [] es = ([], es)"
| "run_spec cap conv (Get k # ops) es =
     (case spec_get k es of (r, es1) \<Rightarrow> case run_spec cap conv ops es1 of (rs, es2) \<Rightarrow> (r # rs, es2))"
| "run_spec cap conv (Put k v # ops) es = run_spec cap conv ops (spec_put cap k (conv v) es)"

lemma run_refines:
  "lru_rep c es \<Longrightarrow> fst (run_lru conv ops c) = fst (run_spec (capacity c) conv ops es) \<and>
     lru_rep (snd (run_lru conv ops c)) (snd (run_spec (capacity c) conv ops es))"
proof (induction ops arbitrary: c es)
  case (Cons a ops)
  show ?case
  proof (cases a)
    case (Get k)
    obtain r es1 where g: "spec_get k es = (r, es1)" by fastforce
    from get_refines [OF Cons.prems g] obtain c1 where
      "concurrent_get k c = (r, c1)" "lru_rep c1 es1" "capacity c1 = capacity c" by blast
    with Cons.IH [of c1 es1] Get g show ?thesis by (auto split: prod.splits)
  next
    case (Put k v)
    with Cons.IH [OF conjunct1 [OF put_refines [OF Cons.prems, of conv k v]]] put_refines [OF Cons.prems, of conv k v]
    show ?thesis by simp
  qed
qed simp


lemma spec_get_length: "distinct (map fst es) \<Longrightarrow> spec_get k es = (r, es') \<Longrightarrow> length es' = length es \<and> distinct (map fst es')"
proof -
  assume d: "distinct (map fst es)" and g: "spec_get k es = (r, es')"
  show ?thesis
  proof (cases "map_of es k")
    case None
    with g d show ?thesis by (simp add: spec_get_def)
  next
    case (Some v)
    then obtain us vs where es: "es = us @ (k, v) # vs" by (meson map_of_SomeD split_list)
    have "filter (\<lambda>e. fst e \<noteq> k) us = us" "filter (\<lambda>e. fst e \<noteq> k) vs = vs"
      by (rule filter_True, use d es in force)+
    then have "es' = (k, v) # us @ vs" using g Some es by (simp add: spec_get_def without_def)
    with d es show ?thesis by auto
  qed
qed

lemma spec_put_length:
  "distinct (map fst es) \<Longrightarrow> int (length es) \<le> max 0 cap \<Longrightarrow>
   int (length (spec_put cap k v es)) \<le> max 0 cap \<and> distinct (map fst (spec_put cap k v es))"
proof -
  assume d: "distinct (map fst es)" and l: "int (length es) \<le> max 0 cap"
  let ?es = "(k, v) # without k es"
  have "distinct (map fst (without k es))" using d by (simp add: without_def distinct_map_filter)
  then have "distinct (map fst ?es)" by (auto simp: without_def)
  then have "distinct (map fst (butlast ?es))" unfolding map_butlast by (rule distinct_butlast)
  moreover have "length (without k es) \<le> length es" by (simp add: without_def)
  ultimately show ?thesis using l \<open>distinct (map fst ?es)\<close> unfolding spec_put_def Let_def by auto
qed

text \<open>After any sequence of operations the cache holds at most \<open>capacity\<close> entries (none for a negative one) and no
  key twice.\<close>

theorem lru_cache_is_bounded:
  "\<exists>es. lru_rep (snd (run_lru conv ops (LRUCache dk dv cap))) es \<and> int (length es) \<le> max 0 cap \<and> distinct (map fst es)"
proof -
  have "distinct (map fst es) \<Longrightarrow> int (length es) \<le> max 0 cap \<Longrightarrow>
      int (length (snd (run_spec cap conv ops es))) \<le> max 0 cap \<and> distinct (map fst (snd (run_spec cap conv ops es)))" for es :: "('a \<times> 'b) list"
  proof (induction ops arbitrary: es)
    case (Cons a ops)
    show ?case
    proof (cases a)
      case (Get k)
      obtain r es1 where "spec_get k es = (r, es1)" by fastforce
      with spec_get_length [OF Cons.prems(1) this] Cons.IH [of es1] Cons.prems(2) Get show ?thesis
        by (auto split: prod.splits)
    next
      case (Put k v)
      with spec_put_length [OF Cons.prems, of k "conv v"] Cons.IH show ?thesis by simp
    qed
  qed simp
  from this [of "[]"] show ?thesis
    using run_refines [OF lru_rep_new, of conv ops dk dv cap] by (auto simp: LRUCache_def)
qed

end
