(* ===== verification/Skip_List.thy ===== *)
theory Skip_List
  imports Prelude
begin

text \<open>
  include/data_structure/skiplist.h: a skip list of nodes with one forward pointer per level. Address 0 is the
  null pointer; following it, a freed node or a level a node does not have is undefined. \<open>rand()\<close> is a
  parameter: the sequence of numbers it will return. The abstract value is the list of entries in key order.
\<close>

section \<open>Nodes\<close>

record ('k, 'v) skiplist =
  header :: nat
  cur_level :: nat
  max_level :: nat
  forward :: "nat \<Rightarrow> nat list"
  key :: "nat \<Rightarrow> 'k"
  val :: "nat \<Rightarrow> 'v"
  next_node :: nat
  freed :: "nat list"

definition new_skiplist :: "'k \<Rightarrow> 'v \<Rightarrow> nat \<Rightarrow> ('k, 'v) skiplist" where
  "new_skiplist dk dv maxl =
     \<lparr>header = 1, cur_level = 0, max_level = maxl, forward = (\<lambda>_. replicate maxl 0), key = (\<lambda>_. dk), val = (\<lambda>_. dv),
      next_node = 2, freed = []\<rparr>"

definition fwd :: "('k, 'v) skiplist \<Rightarrow> nat \<Rightarrow> nat \<Rightarrow> nat cxx" where
  "fwd l n i = (if n = 0 \<or> n \<in> set (freed l) then Inl Undefined else index_at (forward l n) i)"

definition set_forward :: "nat \<Rightarrow> nat \<Rightarrow> nat \<Rightarrow> ('k, 'v) skiplist \<Rightarrow> ('k, 'v) skiplist" where
  "set_forward n i m l = l\<lparr>forward := (forward l)(n := (forward l n)[i := m])\<rparr>"

text \<open>\<open>randomLevel\<close>, from the position \<open>pos\<close> of the sequence on; with the next position.\<close>

function randomLevel :: "(nat \<Rightarrow> int) \<Rightarrow> nat \<Rightarrow> nat \<Rightarrow> nat \<Rightarrow> nat \<times> nat" where
  "randomLevel rand maxl ans pos =
     (if rand pos mod 2 = 0 \<and> ans < maxl then randomLevel rand maxl (Suc ans) (Suc pos) else (ans, Suc pos))"
  by pat_completeness auto
termination by (relation "measure (\<lambda>(rand, maxl, ans, pos). maxl - ans)") auto

declare randomLevel.simps [simp del]

section \<open>Searching\<close>

text \<open>\<open>while(cur->forward[i] && cur->forward[i]->key < key) cur = cur->forward[i]\<close>\<close>

partial_function (option) advance :: "('k::linorder, 'v) skiplist \<Rightarrow> 'k \<Rightarrow> nat \<Rightarrow> nat \<Rightarrow> nat cxx option" where
  "advance l k i cur =
     (case fwd l cur i of
        Inl e \<Rightarrow> Some (Inl e)
      | Inr n \<Rightarrow> if n \<noteq> 0 \<and> key l n < k then advance l k i n else Some (Inr cur))"

text \<open>The loop of \<open>find\<close> and of \<open>isExist\<close>, from the level below \<open>i\<close> down: the node with the key, or null.\<close>

fun search :: "('k::linorder, 'v) skiplist \<Rightarrow> 'k \<Rightarrow> nat \<Rightarrow> nat \<Rightarrow> nat cxx option" where
  "search l k 0 cur = Some (Inr 0)"
| "search l k (Suc i) cur =
     (case advance l k i cur of
        None \<Rightarrow> None
      | Some (Inl e) \<Rightarrow> Some (Inl e)
      | Some (Inr c) \<Rightarrow>
          (case fwd l c i of
             Inl e \<Rightarrow> Some (Inl e)
           | Inr n \<Rightarrow> if n \<noteq> 0 \<and> key l n = k then Some (Inr n) else search l k i c))"

text \<open>The test in front of it reads the first node's key without looking whether there is one.\<close>

definition too_small :: "('k::linorder, 'v) skiplist \<Rightarrow> 'k \<Rightarrow> bool cxx" where
  "too_small l k =
     (if cur_level l = 0 then Inr True
      else bindE (fwd l (header l) 0) (\<lambda>n. if n = 0 then Inl Undefined else Inr (k < key l n)))"

definition find :: "('k \<Rightarrow> string) \<Rightarrow> 'k::linorder \<Rightarrow> ('k, 'v) skiplist \<Rightarrow> 'v cxx option" where
  "find str k l =
     (let err = Inl (Thrown (''Key '' @ str k @ ''is not exist'')) in
      case too_small l k of
        Inl e \<Rightarrow> Some (Inl e)
      | Inr True \<Rightarrow> Some err
      | Inr False \<Rightarrow>
          (case search l k (cur_level l) (header l) of
             None \<Rightarrow> None
           | Some (Inl e) \<Rightarrow> Some (Inl e)
           | Some (Inr n) \<Rightarrow> Some (if n = 0 then err else Inr (val l n))))"

definition isExist :: "'k::linorder \<Rightarrow> ('k, 'v) skiplist \<Rightarrow> bool cxx option" where
  "isExist k l =
     (case too_small l k of
        Inl e \<Rightarrow> Some (Inl e)
      | Inr True \<Rightarrow> Some (Inr False)
      | Inr False \<Rightarrow>
          (case search l k (cur_level l) (header l) of
             None \<Rightarrow> None
           | Some (Inl e) \<Rightarrow> Some (Inl e)
           | Some (Inr n) \<Rightarrow> Some (Inr (n \<noteq> 0))))"

section \<open>Insertion and removal\<close>

text \<open>The loop that fills \<open>updates\<close>; with the last value of \<open>cur\<close>.\<close>

fun locate :: "('k::linorder, 'v) skiplist \<Rightarrow> 'k \<Rightarrow> nat \<Rightarrow> nat \<Rightarrow> nat list \<Rightarrow> (nat \<times> nat list) cxx option" where
  "locate l k 0 cur updates = Some (Inr (cur, updates))"
| "locate l k (Suc i) cur updates =
     (case advance l k i cur of
        None \<Rightarrow> None
      | Some (Inl e) \<Rightarrow> Some (Inl e)
      | Some (Inr c) \<Rightarrow> if i < length updates then locate l k i c (updates[i := c]) else Some (Inl Undefined))"

fun link_levels :: "nat \<Rightarrow> nat list \<Rightarrow> nat list \<Rightarrow> ('k, 'v) skiplist \<Rightarrow> ('k, 'v) skiplist cxx" where
  "link_levels new_node updates [] l = Inr l"
| "link_levels new_node updates (i # is) l =
     bindE (index_at updates i) (\<lambda>u. bindE (fwd l u i) (\<lambda>n.
       link_levels new_node updates is (set_forward u i new_node (set_forward new_node i n l))))"

definition insert :: "(nat \<Rightarrow> int) \<Rightarrow> 'k::linorder \<Rightarrow> 'v \<Rightarrow> ('k, 'v) skiplist \<Rightarrow> ('k, 'v) skiplist cxx option" where
  "insert rand k v l =
     (case locate l k (cur_level l) (header l) (replicate (max_level l) (header l)) of
        None \<Rightarrow> None
      | Some (Inl e) \<Rightarrow> Some (Inl e)
      | Some (Inr (cur, updates)) \<Rightarrow>
          (let lvl = fst (randomLevel rand (max_level l) 1 0);
               z = next_node l;
               l1 = l\<lparr>forward := (forward l)(z := replicate lvl 0), key := (key l)(z := k), val := (val l)(z := v),
                      next_node := Suc z\<rparr>
           in Some (bindE (link_levels z updates [0..<lvl] l1) (\<lambda>l2.
                Inr (l2\<lparr>cur_level := (if cur_level l2 > lvl then cur_level l2 else lvl)\<rparr>)))))"

fun unlink_levels :: "nat \<Rightarrow> nat list \<Rightarrow> nat list \<Rightarrow> ('k, 'v) skiplist \<Rightarrow> ('k, 'v) skiplist cxx" where
  "unlink_levels cur updates [] l = Inr l"
| "unlink_levels cur updates (i # is) l =
     bindE (index_at updates i) (\<lambda>u. bindE (fwd l u i) (\<lambda>n.
       if n \<noteq> cur then Inr l
       else bindE (fwd l cur i) (\<lambda>m. unlink_levels cur updates is (set_forward u i m l))))"

definition remove :: "'k::linorder \<Rightarrow> ('k, 'v) skiplist \<Rightarrow> ('k, 'v) skiplist cxx option" where
  "remove k l =
     (case locate l k (cur_level l) (header l) (replicate (max_level l) (header l)) of
        None \<Rightarrow> None
      | Some (Inl e) \<Rightarrow> Some (Inl e)
      | Some (Inr (cur, updates)) \<Rightarrow>
          Some (bindE (fwd l cur 0) (\<lambda>n.
            if n = 0 \<or> k < key l n then Inr l
            else bindE (unlink_levels n updates [0..<cur_level l] l) (\<lambda>l1.
              let l2 = l1\<lparr>freed := n # freed l1\<rparr> in
              if cur_level l2 > 1 then
                bindE (fwd l2 (header l2) (cur_level l2 - 1)) (\<lambda>h.
                  Inr (if h = 0 then l2\<lparr>cur_level := cur_level l2 - 1\<rparr> else l2))
              else Inr l2))))"

section \<open>Destruction and moving\<close>

text \<open>The loop of the destructor (and of the move assignment): each node, the header first.\<close>

partial_function (option) destroy_from :: "nat \<Rightarrow> ('k, 'v) skiplist \<Rightarrow> ('k, 'v) skiplist cxx option" where
  "destroy_from cur l =
     (case fwd l cur 0 of
        Inl e \<Rightarrow> Some (Inl e)
      | Inr temp \<Rightarrow>
          if temp \<noteq> 0 then destroy_from temp (l\<lparr>freed := cur # freed l\<rparr>) else Some (Inr (l\<lparr>freed := cur # freed l\<rparr>)))"

definition skiplist_destroy :: "('k, 'v) skiplist \<Rightarrow> ('k, 'v) skiplist cxx option" where
  "skiplist_destroy l = destroy_from (header l) l"

text \<open>The move constructor: the new list, and the old one without its header.\<close>

definition skiplist_move :: "('k, 'v) skiplist \<Rightarrow> ('k, 'v) skiplist \<times> ('k, 'v) skiplist" where
  "skiplist_move other = (other, other\<lparr>header := 0\<rparr>)"

definition skiplist_move_assign ::
  "('k, 'v) skiplist \<Rightarrow> ('k, 'v) skiplist \<Rightarrow> (('k, 'v) skiplist \<times> ('k, 'v) skiplist \<times> nat list) cxx option" where
  "skiplist_move_assign self other =
     (case skiplist_destroy self of
        None \<Rightarrow> None
      | Some r \<Rightarrow> Some (bindE r (\<lambda>l. Inr (other, other\<lparr>header := 0\<rparr>, freed l))))"

declare advance.simps [code] destroy_from.simps [code]

section \<open>Representation\<close>

text \<open>The nodes of the level \<open>i\<close>, and the chain of forward pointers of that level.\<close>

abbreviation on_level :: "('k, 'v) skiplist \<Rightarrow> nat \<Rightarrow> nat \<Rightarrow> bool" where
  "on_level l i n \<equiv> i < length (forward l n)"

definition hd0 :: "nat list \<Rightarrow> nat" where
  "hd0 xs = (case xs of [] \<Rightarrow> 0 | x # _ \<Rightarrow> x)"

lemma hd0_simps [simp]: "hd0 [] = 0" "hd0 (x # xs) = x"
  by (simp_all add: hd0_def)

text \<open>Each node of the list points to the next one on the level, the last one to null.\<close>

fun linked :: "('k, 'v) skiplist \<Rightarrow> nat \<Rightarrow> nat list \<Rightarrow> bool" where
  "linked l i [] \<longleftrightarrow> True"
| "linked l i (x # xs) \<longleftrightarrow> on_level l i x \<and> forward l x ! i = hd0 xs \<and> linked l i xs"

definition sl_ok :: "('k::linorder, 'v) skiplist \<Rightarrow> nat list \<Rightarrow> bool" where
  "sl_ok l ns \<longleftrightarrow> distinct (header l # ns) \<and> sorted (map (key l) ns) \<and>
     (\<forall>n \<in> set (header l # ns). 0 < n \<and> n < next_node l \<and> n \<notin> set (freed l)) \<and>
     (\<forall>n \<in> set (freed l). n < next_node l) \<and> 0 < max_level l \<and> cur_level l \<le> max_level l \<and> length (forward l (header l)) = max_level l \<and>
     (\<forall>n \<in> set ns. 0 < length (forward l n) \<and> length (forward l n) \<le> cur_level l) \<and>
     (\<forall>i < max_level l. linked l i (header l # filter (on_level l i) ns))"

definition entries :: "('k, 'v) skiplist \<Rightarrow> nat list \<Rightarrow> ('k \<times> 'v) list" where
  "entries l ns = map (\<lambda>n. (key l n, val l n)) ns"

definition sl_rep :: "('k::linorder, 'v) skiplist \<Rightarrow> ('k \<times> 'v) list \<Rightarrow> bool" where
  "sl_rep l es \<longleftrightarrow> (\<exists>ns. sl_ok l ns \<and> entries l ns = es)"


section \<open>The search reaches the last smaller node of each level\<close>

lemma linked_next: "linked l i (xs @ y # ys) \<Longrightarrow> on_level l i y \<and> forward l y ! i = hd0 ys"
  by (induction xs) simp_all

lemma fwd_in: "n \<noteq> 0 \<Longrightarrow> n \<notin> set (freed l) \<Longrightarrow> on_level l i n \<Longrightarrow> fwd l n i = Inr (forward l n ! i)"
  by (simp add: fwd_def)

lemma advance_ok:
  assumes "linked l i (ps @ c # qs @ rs)" "\<forall>n \<in> set (c # qs @ rs). n \<noteq> 0" "\<forall>n \<in> set (c # qs). n \<notin> set (freed l)"
    and "\<forall>n \<in> set qs. key l n < k" "\<forall>n \<in> set rs. \<not> key l n < k"
  shows "advance l k i c = Some (Inr (last (c # qs)))"
  using assms
proof (induction qs arbitrary: ps c)
  case Nil
  have "on_level l i c \<and> forward l c ! i = hd0 rs" using linked_next [of l i ps c rs] Nil.prems(1) by simp
  then have "fwd l c i = Inr (hd0 rs)" using Nil.prems(2,3) by (simp add: fwd_in)
  moreover have "hd0 rs \<noteq> 0 \<Longrightarrow> \<not> key l (hd0 rs) < k" using Nil.prems(5) by (cases rs) auto
  ultimately show ?case by (subst advance.simps) auto
next
  case (Cons q qs)
  have "on_level l i c \<and> forward l c ! i = q" using linked_next [of l i ps c "q # qs @ rs"] Cons.prems(1) by simp
  then have "fwd l c i = Inr q" using Cons.prems(2,3) by (simp add: fwd_in)
  moreover have "advance l k i q = Some (Inr (last (q # qs)))"
    by (rule Cons.IH [of "ps @ [c]"]) (use Cons.prems in auto)
  ultimately show ?case using Cons.prems(2,4) by (subst advance.simps) simp
qed

text \<open>The nodes split into those with a smaller key and the others.\<close>

definition splits :: "('k::linorder, 'v) skiplist \<Rightarrow> 'k \<Rightarrow> nat list \<Rightarrow> nat list \<Rightarrow> bool" where
  "splits l k A B \<longleftrightarrow> sl_ok l (A @ B) \<and> (\<forall>n \<in> set A. key l n < k) \<and> (\<forall>n \<in> set B. \<not> key l n < k)"

lemma splits_exist: "sl_ok l ns \<Longrightarrow> \<exists>A B. ns = A @ B \<and> splits l k A B"
proof -
  assume ok: "sl_ok l ns"
  let ?A = "takeWhile (\<lambda>n. key l n < k) ns" and ?B = "dropWhile (\<lambda>n. key l n < k) ns"
  have "\<not> key l n < k" if n: "n \<in> set ?B" for n
  proof -
    have s: "sorted (map (key l) ?B)" using ok sorted_append [of "map (key l) ?A" "map (key l) ?B"]
      by (simp add: sl_ok_def flip: map_append)
    have ne: "?B \<noteq> []" using n by (metis empty_iff list.set(1))
    then have h: "\<not> key l (hd ?B) < k" by (rule hd_dropWhile)
    obtain b bs where b: "?B = b # bs" using ne by (cases ?B) auto
    have "key l b \<le> key l n" using s n unfolding b by auto
    with h show ?thesis unfolding b by simp
  qed
  moreover have "sl_ok l (?A @ ?B)" using ok by (simp only: takeWhile_dropWhile_id)
  ultimately have "splits l k ?A ?B" unfolding splits_def by (blast dest: set_takeWhileD)
  then show ?thesis by (metis takeWhile_dropWhile_id)
qed

text \<open>The last node before the place of \<open>k\<close> on the level \<open>i\<close>.\<close>

definition pred_of :: "('k, 'v) skiplist \<Rightarrow> nat list \<Rightarrow> nat \<Rightarrow> nat" where
  "pred_of l A i = last (header l # filter (on_level l i) A)"

definition before_on :: "('k, 'v) skiplist \<Rightarrow> nat list \<Rightarrow> nat \<Rightarrow> nat list" where
  "before_on l A i = header l # filter (on_level l i) A"

lemma before_on_mono: "i < j \<Longrightarrow> set (before_on l A j) \<subseteq> set (before_on l A i)"
  by (auto simp: before_on_def)

lemma pred_in: "pred_of l A i \<in> set (before_on l A i)"
  unfolding pred_of_def before_on_def by (rule last_in_set) simp

lemma advance_to:
  assumes s: "splits l k A B" and i: "i < max_level l" and c: "c \<in> set (before_on l A i)"
  shows "advance l k i c = Some (Inr (pred_of l A i))"
proof -
  obtain ps qs where pq: "before_on l A i = ps @ c # qs" using c by (meson split_list)
  have ok: "sl_ok l (A @ B)" using s by (simp add: splits_def)
  have "linked l i (before_on l A i @ filter (on_level l i) B)"
    using ok i by (simp add: sl_ok_def before_on_def)
  then have "linked l i (ps @ c # qs @ filter (on_level l i) B)" by (simp add: pq)
  moreover have "set qs \<subseteq> set (List.tl (before_on l A i))" unfolding pq by (cases ps) auto
  then have "set qs \<subseteq> set A" by (auto simp: before_on_def)
  moreover have "set (c # qs) \<subseteq> set (before_on l A i)" unfolding pq by auto
  then have "set (c # qs) \<subseteq> set (header l # A)" by (auto simp: before_on_def)
  moreover have "last (c # qs) = pred_of l A i" unfolding pred_of_def before_on_def [symmetric] pq by simp
  moreover have "\<forall>n \<in> set (header l # A @ B). n \<noteq> 0 \<and> n \<notin> set (freed l)" using ok by (auto simp: sl_ok_def)
  ultimately have "advance l k i c = Some (Inr (last (c # qs)))"
    by (intro advance_ok [of l i ps c qs "filter (on_level l i) B" k])
       (assumption | use s in \<open>auto simp: splits_def simp del: last.simps\<close>)+
  then show ?thesis by (simp add: \<open>last (c # qs) = pred_of l A i\<close> del: last.simps)
qed

lemma next_of_pred:
  assumes s: "splits l k A B" and i: "i < max_level l"
  shows "fwd l (pred_of l A i) i = Inr (hd0 (filter (on_level l i) B))"
proof -
  have ok: "sl_ok l (A @ B)" using s by (simp add: splits_def)
  have "linked l i (before_on l A i @ filter (on_level l i) B)"
    using ok i by (simp add: sl_ok_def before_on_def)
  moreover have "before_on l A i = butlast (before_on l A i) @ [pred_of l A i]"
    by (simp add: before_on_def pred_of_def del: butlast.simps last.simps)
  ultimately have "linked l i (butlast (before_on l A i) @ pred_of l A i # filter (on_level l i) B)"
    by (metis append.assoc append_Cons append_Nil)
  from linked_next [OF this] have "on_level l i (pred_of l A i) \<and> forward l (pred_of l A i) ! i = hd0 (filter (on_level l i) B)" .
  moreover have "pred_of l A i \<in> set (header l # A)" using pred_in [of l A i] by (auto simp: before_on_def)
  then have "pred_of l A i \<noteq> 0 \<and> pred_of l A i \<notin> set (freed l)" using ok by (auto simp: sl_ok_def)
  ultimately show ?thesis by (simp add: fwd_in)
qed

section \<open>Lookup\<close>

lemma splits_keys:
  assumes "splits l k A B"
  shows "(\<exists>n \<in> set (A @ B). key l n = k) \<longleftrightarrow> B \<noteq> [] \<and> key l (hd B) = k"
proof
  assume "\<exists>n \<in> set (A @ B). key l n = k"
  then obtain n where n: "n \<in> set B" "key l n = k" using assms by (auto simp: splits_def)
  then obtain b bs where B: "B = b # bs" by (cases B) auto
  have "sorted (map (key l) (A @ B))" using assms by (simp add: splits_def sl_ok_def)
  then have "key l b \<le> k" using n B by (auto simp: sorted_append)
  moreover have "\<not> key l b < k" using assms B by (simp add: splits_def)
  ultimately show "B \<noteq> [] \<and> key l (hd B) = k" using B by simp
qed (auto intro: bexI [of _ "hd B"])

lemma search_ok:
  assumes s: "splits l k A B" and i: "i \<le> max_level l" and c: "i = 0 \<or> c \<in> set (before_on l A (i - 1))"
  shows "\<exists>n. search l k i c = Some (Inr n) \<and> (n \<noteq> 0 \<longrightarrow> n \<in> set B \<and> key l n = k) \<and>
    (0 < i \<and> B \<noteq> [] \<and> key l (hd B) = k \<longrightarrow> n \<noteq> 0)"
  using i c
proof (induction i arbitrary: c)
  case (Suc i)
  then have i: "i < max_level l" and c: "c \<in> set (before_on l A i)" by simp_all
  let ?F = "filter (on_level l i) B"
  have adv: "advance l k i c = Some (Inr (pred_of l A i))" by (rule advance_to [OF s i c])
  have nx: "fwd l (pred_of l A i) i = Inr (hd0 ?F)" by (rule next_of_pred [OF s i])
  have ok: "sl_ok l (A @ B)" using s by (simp add: splits_def)
  show ?case
  proof (cases "hd0 ?F \<noteq> 0 \<and> key l (hd0 ?F) = k")
    case True
    then have "?F \<noteq> []" by auto
    then have "hd0 ?F \<in> set ?F" by (cases ?F) auto
    with True adv nx show ?thesis by auto
  next
    case False
    have "pred_of l A i \<in> set (before_on l A (i - 1))"
      using pred_in [of l A i] before_on_mono [of "i - 1" i l A] by (cases "i = 0") auto
    with Suc.IH [of "pred_of l A i"] i obtain n where n: "search l k i (pred_of l A i) = Some (Inr n)"
        "n \<noteq> 0 \<longrightarrow> n \<in> set B \<and> key l n = k" "0 < i \<and> B \<noteq> [] \<and> key l (hd B) = k \<longrightarrow> n \<noteq> 0" by auto
    have "0 < i" if "B \<noteq> []" "key l (hd B) = k"
    proof (rule ccontr)
      assume "\<not> 0 < i"
      then have "on_level l i (hd B)" using that(1) ok by (cases B) (auto simp: sl_ok_def)
      then have "hd0 ?F = hd B" using that(1) by (cases B) auto
      moreover have "0 < hd B" using ok that(1) by (cases B) (auto simp: sl_ok_def)
      ultimately show False using False that(2) by simp
    qed
    with n adv nx False show ?thesis by auto
  qed
qed simp

lemma too_small_ok:
  assumes "sl_ok l ns"
  shows "too_small l k =
    (if cur_level l = 0 then Inr True else if ns = [] then Inl Undefined else Inr (k < key l (hd ns)))"
proof -
  have h: "header l \<noteq> 0" "header l \<notin> set (freed l)" "on_level l 0 (header l)"
    using assms by (auto simp: sl_ok_def)
  have all: "filter (on_level l 0) ns = ns" using assms by (intro filter_True) (auto simp: sl_ok_def)
  have "linked l 0 (header l # filter (on_level l 0) ns)" using assms by (auto simp: sl_ok_def)
  then have "fwd l (header l) 0 = Inr (hd0 ns)" using h all by (simp add: fwd_in)
  moreover have "ns \<noteq> [] \<Longrightarrow> hd0 ns \<noteq> 0" "ns \<noteq> [] \<Longrightarrow> hd0 ns = hd ns" using assms by (cases ns; auto simp: sl_ok_def)+
  ultimately show ?thesis by (auto simp: too_small_def)
qed

lemma lookup_ok:
  assumes "sl_rep l es" "es \<noteq> []"
  shows "if k \<in> fst ` set es then (\<exists>v. find str k l = Some (Inr v) \<and> (k, v) \<in> set es) \<and> isExist k l = Some (Inr True)
     else find str k l = Some (Inl (Thrown (''Key '' @ str k @ ''is not exist''))) \<and> isExist k l = Some (Inr False)"
proof -
  from assms obtain ns where ok: "sl_ok l ns" and es: "entries l ns = es" by (auto simp: sl_rep_def)
  then have ne: "ns \<noteq> []" using assms(2) by (auto simp: entries_def)
  then have "0 < length (forward l (hd ns)) \<and> length (forward l (hd ns)) \<le> cur_level l" using ok by (simp add: sl_ok_def)
  then have cl: "cur_level l \<noteq> 0" by linarith
  have ts: "too_small l k = Inr (k < key l (hd ns))" using too_small_ok [OF ok] ne cl by simp
  from splits_exist [OF ok] obtain A B where ns: "ns = A @ B" and s: "splits l k A B" by blast
  have keys: "k \<in> fst ` set es \<longleftrightarrow> (\<exists>n \<in> set (A @ B). key l n = k)"
    unfolding es [symmetric] ns entries_def by force
  obtain n where n: "search l k (cur_level l) (header l) = Some (Inr n)" "n \<noteq> 0 \<longrightarrow> n \<in> set B \<and> key l n = k"
      "0 < cur_level l \<and> B \<noteq> [] \<and> key l (hd B) = k \<longrightarrow> n \<noteq> 0"
    using search_ok [OF s, of "cur_level l" "header l"] ok by (auto simp: sl_ok_def before_on_def)
  have small: "k < key l (hd ns) \<Longrightarrow> k \<notin> fst ` set es"
  proof
    assume k: "k < key l (hd ns)" and "k \<in> fst ` set es"
    then obtain m where m: "m \<in> set ns" "key l m = k" using keys ns by auto
    have "key l (hd ns) \<le> key l m" using m(1) ok ne by (cases ns) (auto simp: sl_ok_def)
    with k m(2) show False by simp
  qed
  show ?thesis
  proof (cases "k \<in> fst ` set es")
    case True
    then have "n \<noteq> 0" using n(3) keys splits_keys [OF s] cl by simp
    then have "(k, val l n) \<in> set es" using n(2) unfolding es [symmetric] ns entries_def by force
    moreover have "too_small l k = Inr False" using small True ts by auto
    then have "find str k l = Some (Inr (val l n))" "isExist k l = Some (Inr True)"
      using n(1) \<open>n \<noteq> 0\<close> by (simp_all add: find_def isExist_def)
    ultimately show ?thesis using True by auto
  next
    case False
    then have "n = 0" using n(2) keys by auto
    with False n(1) ts show ?thesis by (auto simp: find_def isExist_def Let_def split: sum.splits bool.splits)
  qed
qed

section \<open>The places of an update\<close>

lemma locate_ok:
  assumes s: "splits l k A B" and i: "i \<le> max_level l" and c: "i = 0 \<or> c \<in> set (before_on l A (i - 1))"
    and u: "length updates = max_level l"
  shows "\<exists>us. locate l k i c updates = Some (Inr (if i = 0 then c else pred_of l A 0, us)) \<and> length us = max_level l \<and>
    (\<forall>j < max_level l. us ! j = (if j < i then pred_of l A j else updates ! j))"
  using i c u
proof (induction i arbitrary: c updates)
  case (Suc i)
  then have i: "i < max_level l" and c: "c \<in> set (before_on l A i)" by simp_all
  have "pred_of l A i \<in> set (before_on l A (i - 1))"
    using pred_in [of l A i] before_on_mono [of "i - 1" i l A] by (cases "i = 0") auto
  with Suc.IH [of "pred_of l A i" "updates[i := pred_of l A i]"] Suc.prems(3) i obtain us where
    "locate l k i (pred_of l A i) (updates[i := pred_of l A i]) =
       Some (Inr (if i = 0 then pred_of l A i else pred_of l A 0, us))" "length us = max_level l"
    "\<forall>j < max_level l. us ! j = (if j < i then pred_of l A j else updates[i := pred_of l A i] ! j)"
    by auto
  moreover have "advance l k i c = Some (Inr (pred_of l A i))" by (rule advance_to [OF s i c])
  ultimately show ?case using i Suc.prems(3) by (auto simp: nth_list_update less_Suc_eq)
qed simp

lemma pred_above:
  assumes "sl_ok l (A @ B)" "cur_level l \<le> j"
  shows "pred_of l A j = header l"
proof -
  have "filter (on_level l j) A = []" using assms by (force simp: sl_ok_def filter_empty_conv)
  then show ?thesis by (simp add: pred_of_def)
qed

lemma locate_all:
  assumes "splits l k A B"
  shows "\<exists>us. locate l k (cur_level l) (header l) (replicate (max_level l) (header l)) = Some (Inr (pred_of l A 0, us)) \<and>
    length us = max_level l \<and> (\<forall>j < max_level l. us ! j = pred_of l A j)"
proof -
  have ok: "sl_ok l (A @ B)" using assms by (simp add: splits_def)
  have "header l \<in> set (before_on l A j)" for j by (simp add: before_on_def)
  then obtain us where us: "locate l k (cur_level l) (header l) (replicate (max_level l) (header l)) =
      Some (Inr (if cur_level l = 0 then header l else pred_of l A 0, us))" "length us = max_level l"
    "\<forall>j < max_level l. us ! j = (if j < cur_level l then pred_of l A j else replicate (max_level l) (header l) ! j)"
    using locate_ok [OF assms, of "cur_level l" "header l" "replicate (max_level l) (header l)"] ok
    by (auto simp: sl_ok_def)
  have "us ! j = pred_of l A j" if "j < max_level l" for j
    using us(3) that pred_above [OF ok, of j] by auto
  moreover have "cur_level l = 0 \<Longrightarrow> header l = pred_of l A 0" using pred_above [OF ok, of 0] by simp
  ultimately show ?thesis using us(1,2) by auto
qed

section \<open>Changing the links\<close>

lemma set_forward_fields [simp]:
  "header (set_forward n i m l) = header l" "cur_level (set_forward n i m l) = cur_level l"
  "max_level (set_forward n i m l) = max_level l" "key (set_forward n i m l) = key l" "val (set_forward n i m l) = val l"
  "next_node (set_forward n i m l) = next_node l" "freed (set_forward n i m l) = freed l"
  "length (forward (set_forward n i m l) x) = length (forward l x)"
  by (simp_all add: set_forward_def)

lemma set_forward_nth:
  "on_level l i n \<Longrightarrow> forward (set_forward n i m l) x ! j = (if x = n \<and> j = i then m else forward l x ! j)"
  by (simp add: set_forward_def nth_list_update)

definition same_data :: "('k, 'v) skiplist \<Rightarrow> ('k, 'v) skiplist \<Rightarrow> bool" where
  "same_data l l' \<longleftrightarrow> header l' = header l \<and> cur_level l' = cur_level l \<and> max_level l' = max_level l \<and> key l' = key l \<and>
     val l' = val l \<and> next_node l' = next_node l \<and> freed l' = freed l \<and> (\<forall>x. length (forward l' x) = length (forward l x))"

definition ready :: "('k, 'v) skiplist \<Rightarrow> nat list \<Rightarrow> nat \<Rightarrow> nat \<Rightarrow> bool" where
  "ready l us z i \<longleftrightarrow> i < length us \<and> us ! i \<noteq> 0 \<and> us ! i \<noteq> z \<and> us ! i \<notin> set (freed l) \<and> on_level l i (us ! i) \<and>
     z \<noteq> 0 \<and> z \<notin> set (freed l) \<and> on_level l i z"

lemma link_levels_ok:
  assumes "distinct is" "\<forall>i \<in> set is. ready l us z i"
  shows "\<exists>l'. link_levels z us is l = Inr l' \<and> same_data l l' \<and>
    (\<forall>x i. forward l' x ! i =
       (if i \<in> set is \<and> x = us ! i then z else if i \<in> set is \<and> x = z then forward l (us ! i) ! i else forward l x ! i))"
  using assms
proof (induction "is" arbitrary: l)
  case Nil
  then show ?case by (simp add: same_data_def)
next
  case (Cons i js)
  let ?u = "us ! i"
  let ?l = "set_forward ?u i z (set_forward z i (forward l ?u ! i) l)"
  have r: "ready l us z i" using Cons.prems(2) by simp
  have f: "forward ?l x ! j = (if j = i \<and> x = ?u then z else if j = i \<and> x = z then forward l ?u ! i else forward l x ! j)" for x j
    using r by (simp add: ready_def set_forward_nth)
  have "\<forall>j \<in> set js. ready ?l us z j" using Cons.prems(2) by (simp add: ready_def)
  with Cons.IH [of ?l] Cons.prems(1) obtain l' where l': "link_levels z us js ?l = Inr l'" "same_data ?l l'"
    "\<forall>x j. forward l' x ! j =
       (if j \<in> set js \<and> x = us ! j then z else if j \<in> set js \<and> x = z then forward ?l (us ! j) ! j else forward ?l x ! j)"
    by auto
  have "link_levels z us (i # js) l = Inr l'"
    using r l'(1) by (simp add: ready_def fwd_in)
  moreover have "same_data l l'" using l'(2) by (simp add: same_data_def)
  moreover have "forward l' x ! j = (if j \<in> set (i # js) \<and> x = us ! j then z
      else if j \<in> set (i # js) \<and> x = z then forward l (us ! j) ! j else forward l x ! j)" for x j
    using l'(3) f Cons.prems(1) by (cases "j = i") auto
  ultimately show ?case by blast
qed

lemma unlink_levels_ok:
  assumes "distinct (is @ js)" "\<forall>i \<in> set is. ready l us n i \<and> forward l (us ! i) ! i = n"
    and "js = [] \<or> (hd js < length us \<and> us ! hd js \<noteq> 0 \<and> us ! hd js \<notin> set (freed l) \<and> on_level l (hd js) (us ! hd js) \<and>
       forward l (us ! hd js) ! hd js \<noteq> n)"
  shows "\<exists>l'. unlink_levels n us (is @ js) l = Inr l' \<and> same_data l l' \<and>
    (\<forall>x i. forward l' x ! i = (if i \<in> set is \<and> x = us ! i then forward l n ! i else forward l x ! i))"
  using assms
proof (induction "is" arbitrary: l)
  case Nil
  then show ?case
  proof (cases js)
    case (Cons j js')
    with Nil.prems(3) have "fwd l (us ! j) j = Inr (forward l (us ! j) ! j)" "forward l (us ! j) ! j \<noteq> n" "j < length us"
      by (auto simp: ready_def fwd_in)
    with Cons show ?thesis by (simp add: same_data_def)
  qed (simp add: same_data_def)
next
  case (Cons i is')
  let ?u = "us ! i"
  let ?l = "set_forward ?u i (forward l n ! i) l"
  have r: "ready l us n i" "forward l ?u ! i = n" using Cons.prems(2) by simp_all
  have f: "forward ?l x ! j = (if x = ?u \<and> j = i then forward l n ! i else forward l x ! j)" for x j
    using r by (simp add: ready_def set_forward_nth)
  have "\<forall>j \<in> set is'. ready ?l us n j \<and> forward ?l (us ! j) ! j = n"
    using Cons.prems(1,2) f by (auto simp: ready_def)
  moreover have "hd js \<noteq> i" if "js \<noteq> []" using Cons.prems(1) that by (cases js) auto
  then have "js = [] \<or> (hd js < length us \<and> us ! hd js \<noteq> 0 \<and> us ! hd js \<notin> set (freed ?l) \<and> on_level ?l (hd js) (us ! hd js) \<and>
       forward ?l (us ! hd js) ! hd js \<noteq> n)"
    using Cons.prems(3) f by (auto simp: ready_def)
  ultimately obtain l' where l': "unlink_levels n us (is' @ js) ?l = Inr l'" "same_data ?l l'"
    "\<forall>x j. forward l' x ! j = (if j \<in> set is' \<and> x = us ! j then forward ?l n ! j else forward ?l x ! j)"
    using Cons.IH [of ?l] Cons.prems(1) by auto
  have "unlink_levels n us ((i # is') @ js) l = Inr l'"
    using r l'(1) by (simp add: ready_def fwd_in)
  moreover have "same_data l l'" using l'(2) by (simp add: same_data_def)
  moreover have "forward l' x ! j = (if j \<in> set (i # is') \<and> x = us ! j then forward l n ! j else forward l x ! j)" for x j
    using l'(3) f Cons.prems(1) r(1) by (cases "j = i") (auto simp: ready_def)
  ultimately show ?case by blast
qed

lemma linked_cong:
  "(\<And>x. x \<in> set xs \<Longrightarrow> length (forward l' x) = length (forward l x) \<and> forward l' x ! i = forward l x ! i) \<Longrightarrow>
   linked l' i xs = linked l i xs"
  by (induction xs) auto

lemma linked_insert:
  assumes "linked l i (ps @ u # qs)" "distinct (ps @ u # qs)" "z \<notin> set (ps @ u # qs)" "on_level l' i z"
    and "\<And>x. x \<in> set (ps @ u # qs) \<Longrightarrow> length (forward l' x) = length (forward l x)"
    and "\<And>x. x \<in> set (ps @ qs) \<Longrightarrow> forward l' x ! i = forward l x ! i" "forward l' u ! i = z" "forward l' z ! i = hd0 qs"
  shows "linked l' i (ps @ u # z # qs)"
  using assms
proof (induction ps)
  case Nil
  have "linked l' i qs = linked l i qs" by (rule linked_cong) (use Nil.prems in auto)
  with Nil.prems show ?case by auto
next
  case (Cons p ps)
  have "linked l' i (ps @ u # z # qs)" by (rule Cons.IH) (use Cons.prems in auto)
  moreover have "hd0 (ps @ u # z # qs) = hd0 (ps @ u # qs)" by (cases ps) simp_all
  moreover have "length (forward l' p) = length (forward l p)" "forward l' p ! i = forward l p ! i"
    using Cons.prems(5) [of p] Cons.prems(6) [of p] by simp_all
  ultimately show ?case using Cons.prems(1) by simp
qed

lemma linked_remove:
  assumes "linked l i (ps @ u # n # qs)" "distinct (ps @ u # n # qs)"
    and "\<And>x. x \<in> set (ps @ u # qs) \<Longrightarrow> length (forward l' x) = length (forward l x)"
    and "\<And>x. x \<in> set (ps @ qs) \<Longrightarrow> forward l' x ! i = forward l x ! i" "forward l' u ! i = forward l n ! i"
  shows "linked l' i (ps @ u # qs)"
  using assms
proof (induction ps)
  case Nil
  have "linked l' i qs = linked l i qs" by (rule linked_cong) (use Nil.prems in auto)
  with Nil.prems show ?case by auto
next
  case (Cons p ps)
  have "linked l' i (ps @ u # qs)" by (rule Cons.IH) (use Cons.prems in auto)
  moreover have "hd0 (ps @ u # n # qs) = hd0 (ps @ u # qs)" by (cases ps) simp_all
  moreover have "length (forward l' p) = length (forward l p)" "forward l' p ! i = forward l p ! i"
    using Cons.prems(3) [of p] Cons.prems(4) [of p] by simp_all
  ultimately show ?case using Cons.prems(1) by simp
qed

lemma before_on_split: "before_on l A i = butlast (before_on l A i) @ [pred_of l A i]"
  by (simp add: before_on_def pred_of_def del: butlast.simps last.simps)

lemma level_facts:
  assumes "splits l k A B" "i < max_level l"
  shows "linked l i (butlast (before_on l A i) @ pred_of l A i # filter (on_level l i) B)"
    "distinct (butlast (before_on l A i) @ pred_of l A i # filter (on_level l i) B)"
    "set (butlast (before_on l A i) @ pred_of l A i # filter (on_level l i) B) \<subseteq> set (header l # A @ B)"
    "pred_of l A i \<in> set (header l # A)" "pred_of l A i \<noteq> 0" "pred_of l A i \<notin> set (freed l)" "on_level l i (pred_of l A i)"
proof -
  have ok: "sl_ok l (A @ B)" using assms by (simp add: splits_def)
  have eq: "butlast (before_on l A i) @ pred_of l A i # filter (on_level l i) B = header l # filter (on_level l i) (A @ B)"
    using before_on_split [of l A i] unfolding before_on_def by (metis append.assoc append_Cons append_Nil filter_append)
  show "linked l i (butlast (before_on l A i) @ pred_of l A i # filter (on_level l i) B)"
    "distinct (butlast (before_on l A i) @ pred_of l A i # filter (on_level l i) B)"
    "set (butlast (before_on l A i) @ pred_of l A i # filter (on_level l i) B) \<subseteq> set (header l # A @ B)"
    unfolding eq using ok assms(2) by (auto simp: sl_ok_def)
  show m: "pred_of l A i \<in> set (header l # A)" using pred_in [of l A i] by (auto simp: before_on_def)
  then show "pred_of l A i \<noteq> 0" "pred_of l A i \<notin> set (freed l)" using ok by (auto simp: sl_ok_def)
  show "on_level l i (pred_of l A i)" using pred_in [of l A i] ok assms(2) by (auto simp: before_on_def sl_ok_def)
qed

lemma level_list: "header l # filter (on_level l i) (A @ B) = butlast (before_on l A i) @ pred_of l A i # filter (on_level l i) B"
  using before_on_split [of l A i] unfolding before_on_def by (metis append.assoc append_Cons append_Nil filter_append)

text \<open>A node \<open>z\<close> of \<open>lvl\<close> levels linked in front of \<open>B\<close>.\<close>

lemma sl_ok_linked_in:
  assumes s: "splits l k A B" and z: "z = next_node l" and lvl: "0 < lvl" "lvl \<le> max_level l"
    and same: "header l' = header l" "max_level l' = max_level l" "next_node l' = Suc z" "freed l' = freed l"
      "cur_level l' = max (cur_level l) lvl"
    and key: "key l' z = k" "\<And>x. x \<noteq> z \<Longrightarrow> key l' x = key l x"
    and len: "length (forward l' z) = lvl" "\<And>x. x \<noteq> z \<Longrightarrow> length (forward l' x) = length (forward l x)"
    and fw: "\<And>x i. x \<noteq> z \<Longrightarrow> i < max_level l \<Longrightarrow>
        forward l' x ! i = (if i < lvl \<and> x = pred_of l A i then z else forward l x ! i)"
      "\<And>i. i < lvl \<Longrightarrow> forward l' z ! i = hd0 (filter (on_level l i) B)"
  shows "sl_ok l' (A @ z # B)"
proof -
  have ok: "sl_ok l (A @ B)" using s by (simp add: splits_def)
  have zn: "z \<notin> set (header l # A @ B)" using ok by (auto simp: sl_ok_def z)
  have zb: "\<And>x. x \<in> set (header l # A @ B) \<Longrightarrow> x \<noteq> z" using zn by auto
  have fil: "filter (on_level l' i) ns = filter (on_level l i) ns" if "set ns \<subseteq> set (A @ B)" for i ns
    by (rule filter_cong) (use that zb len(2) in auto)
  have "linked l' i (header l' # filter (on_level l' i) (A @ z # B))" if i: "i < max_level l'" for i
  proof -
    have im: "i < max_level l" using i same by simp
    note f = level_facts [OF s im]
    let ?bs = "butlast (before_on l A i)" and ?u = "pred_of l A i" and ?qs = "filter (on_level l i) B"
    have nz: "z \<notin> set (?bs @ ?u # ?qs)" using f(3) zn(1) by blast
    have pre: "header l # filter (on_level l i) A = ?bs @ [?u]" using before_on_split [of l A i] by (simp add: before_on_def)
    show ?thesis
    proof (cases "i < lvl")
      case True
      have "linked l' i (?bs @ ?u # z # ?qs)"
      proof (rule linked_insert [OF f(1,2) nz])
        show "forward l' x ! i = forward l x ! i" if "x \<in> set (?bs @ ?qs)" for x
        proof -
          have "x \<noteq> ?u" using that f(2) by auto
          moreover have "x \<noteq> z" using that nz by auto
          ultimately show ?thesis using fw(1) [OF _ im] by simp
        qed
        show "length (forward l' x) = length (forward l x)" if "x \<in> set (?bs @ ?u # ?qs)" for x
          by (rule len(2)) (use that nz in blast)
        show "forward l' ?u ! i = z" using fw(1) [OF _ im, of ?u] nz True by auto
      qed (use True len(1) fw(2) in simp_all)
      moreover have "header l' # filter (on_level l' i) (A @ z # B) = ?bs @ ?u # z # ?qs"
      proof -
        have "header l' # filter (on_level l' i) (A @ z # B) = (header l # filter (on_level l i) A) @ z # ?qs"
          using True len(1) by (simp add: fil same)
        then show ?thesis unfolding pre by simp
      qed
      ultimately show ?thesis by simp
    next
      case False
      have "header l' # filter (on_level l' i) (A @ z # B) = ?bs @ ?u # ?qs"
        using False len(1) pre by (simp add: fil same)
      moreover have "linked l' i (?bs @ ?u # ?qs) = linked l i (?bs @ ?u # ?qs)"
      proof (rule linked_cong)
        fix x assume "x \<in> set (?bs @ ?u # ?qs)"
        then have "x \<noteq> z" using nz by blast
        then show "length (forward l' x) = length (forward l x) \<and> forward l' x ! i = forward l x ! i"
          using len(2) fw(1) [OF _ im] False by simp
      qed
      ultimately show ?thesis using f(1) by simp
    qed
  qed
  moreover have "sorted (map (key l') (A @ z # B))"
  proof -
    have mk: "map (key l') A = map (key l) A" "map (key l') B = map (key l) B" using zb key(2) by auto
    have "sorted (map (key l) A @ map (key l) B)" using ok by (simp add: sl_ok_def)
    then show ?thesis using s
      unfolding map_append list.map mk key(1) by (auto simp: sorted_append splits_def not_less less_imp_le)
  qed
  moreover have "\<forall>n \<in> set (header l' # A @ z # B). 0 < n \<and> n < next_node l' \<and> n \<notin> set (freed l')"
  proof -
    have "0 < z" "z \<notin> set (freed l)" using ok by (auto simp: sl_ok_def z)
    moreover have "\<forall>n \<in> set (header l # A @ B). 0 < n \<and> n < next_node l \<and> n \<notin> set (freed l)"
      using ok unfolding sl_ok_def by blast
    ultimately show ?thesis unfolding same z by (auto intro: less_SucI)
  qed
  moreover have "\<forall>n \<in> set (freed l'). n < next_node l'"
    using ok unfolding same z by (auto simp: sl_ok_def intro: less_SucI)
  moreover have "\<forall>n \<in> set (A @ z # B). 0 < length (forward l' n) \<and> length (forward l' n) \<le> cur_level l'"
  proof
    fix n assume n: "n \<in> set (A @ z # B)"
    show "0 < length (forward l' n) \<and> length (forward l' n) \<le> cur_level l'"
    proof (cases "n = z")
      case True
      with len(1) lvl same(5) show ?thesis by simp
    next
      case False
      with n have "0 < length (forward l n) \<and> length (forward l n) \<le> cur_level l" using ok by (simp add: sl_ok_def)
      with False len(2) same(5) show ?thesis by (simp add: le_max_iff_disj)
    qed
  qed
  moreover have "length (forward l' (header l')) = max_level l'"
    using ok zb len(2) [of "header l"] same by (simp add: sl_ok_def)
  moreover have "distinct (header l' # A @ z # B)" using ok zn same(1) by (simp add: sl_ok_def)
  moreover have "0 < max_level l'" "cur_level l' \<le> max_level l'" using ok lvl same by (simp_all add: sl_ok_def)
  ultimately show ?thesis unfolding sl_ok_def by blast
qed

lemma randomLevel_bounds: "ans \<le> maxl \<Longrightarrow> ans \<le> fst (randomLevel rand maxl ans pos) \<and> fst (randomLevel rand maxl ans pos) \<le> maxl"
proof (induction rand maxl ans pos rule: randomLevel.induct)
  case (1 rand maxl ans pos)
  show ?case
  proof (cases "rand pos mod 2 = 0 \<and> ans < maxl")
    case True
    with 1 have "Suc ans \<le> fst (randomLevel rand maxl (Suc ans) (Suc pos)) \<and>
        fst (randomLevel rand maxl (Suc ans) (Suc pos)) \<le> maxl" by simp
    with True show ?thesis by (subst (1 2) randomLevel.simps) auto
  next
    case False
    with 1(2) show ?thesis by (subst (1 2) randomLevel.simps) auto
  qed
qed

lemma sl_insert_ok:
  assumes "sl_rep l es"
  shows "\<exists>l'. insert rand k v l = Some (Inr l') \<and> sl_rep l' (ins_entry k v es) \<and> max_level l' = max_level l \<and>
           cur_level l' \<noteq> 0"
proof -
  from assms obtain ns where "sl_ok l ns" and es: "entries l ns = es" by (auto simp: sl_rep_def)
  with splits_exist obtain A B where ns: "ns = A @ B" and s: "splits l k A B" by blast
  have ok: "sl_ok l (A @ B)" using s by (simp add: splits_def)
  let ?z = "next_node l" and ?lvl = "fst (randomLevel rand (max_level l) 1 0)"
  let ?l1 = "l\<lparr>forward := (forward l)(?z := replicate ?lvl 0), key := (key l)(?z := k), val := (val l)(?z := v),
                next_node := Suc ?z\<rparr>"
  have mx: "0 < max_level l" using ok by (simp add: sl_ok_def)
  then have lvl: "1 \<le> ?lvl" "?lvl \<le> max_level l" using randomLevel_bounds [of 1 "max_level l" rand 0] by auto
  from locate_all [OF s] obtain us where us:
    "locate l k (cur_level l) (header l) (replicate (max_level l) (header l)) = Some (Inr (pred_of l A 0, us))"
    "length us = max_level l" "\<And>j. j < max_level l \<Longrightarrow> us ! j = pred_of l A j" by blast
  have z: "x \<noteq> ?z" if "x \<in> set (header l # A @ B)" for x using ok that by (auto simp: sl_ok_def)
  have z0: "?z \<noteq> 0" "?z \<notin> set (freed l)" using ok by (auto simp: sl_ok_def)
  have pz: "pred_of l A i \<noteq> ?z" if "i < max_level l" for i using level_facts(4) [OF s that] z by auto
  have "\<forall>i \<in> set [0..<?lvl]. ready ?l1 us ?z i"
  proof
    fix i assume "i \<in> set [0..<?lvl]"
    then have i: "i < ?lvl" "i < max_level l" using lvl by auto
    show "ready ?l1 us ?z i" using level_facts(5-7) [OF s i(2)] us(2,3) i pz [OF i(2)] z0 by (simp add: ready_def)
  qed
  from link_levels_ok [OF _ this] obtain l2 where l2: "link_levels ?z us [0..<?lvl] ?l1 = Inr l2" "same_data ?l1 l2"
    "\<And>x i. forward l2 x ! i = (if i \<in> set [0..<?lvl] \<and> x = us ! i then ?z
        else if i \<in> set [0..<?lvl] \<and> x = ?z then forward ?l1 (us ! i) ! i else forward ?l1 x ! i)"
    by auto
  define l3 where "l3 = l2\<lparr>cur_level := (if cur_level l2 > ?lvl then cur_level l2 else ?lvl)\<rparr>"
  have f3: "header l3 = header l" "max_level l3 = max_level l" "next_node l3 = Suc ?z" "freed l3 = freed l"
    "cur_level l3 = max (cur_level l) ?lvl" "key l3 = (key l)(?z := k)" "val l3 = (val l)(?z := v)" "forward l3 = forward l2"
    "\<And>x. length (forward l2 x) = length (forward ?l1 x)"
    using l2(2) by (auto simp: l3_def same_data_def)
  have "sl_ok l3 (A @ ?z # B)"
  proof (rule sl_ok_linked_in [OF s refl _ lvl(2), where l' = l3])
    show "forward l3 x ! i = (if i < ?lvl \<and> x = pred_of l A i then ?z else forward l x ! i)"
      if "x \<noteq> ?z" "i < max_level l" for x i
      using that l2(3) [of x i] us(3) [OF that(2)] by (simp add: f3)
    show "forward l3 ?z ! i = hd0 (filter (on_level l i) B)" if "i < ?lvl" for i
    proof -
      have im: "i < max_level l" using that lvl by simp
      have "forward l (pred_of l A i) ! i = hd0 (filter (on_level l i) B)"
        using linked_next [OF level_facts(1) [OF s im]] by simp
      then show ?thesis using l2(3) [of ?z i] us(3) [OF im] pz [OF im] that by (simp add: f3)
    qed
  qed (use lvl f3 in simp_all)
  moreover have "entries l3 (A @ ?z # B) = ins_entry k v es"
  proof -
    have "entries l3 A = entries l A" "entries l3 B = entries l B" using z by (auto simp: entries_def f3)
    then have "entries l3 (A @ ?z # B) = entries l A @ (k, v) # entries l B"
      unfolding entries_def by (simp add: f3)
    also have "\<dots> = ins_entry k v (entries l A @ entries l B)"
      by (rule ins_entry_split [symmetric]) (use s in \<open>auto simp: splits_def entries_def not_less\<close>)
    finally show ?thesis using es ns by (simp add: entries_def)
  qed
  moreover have "insert rand k v l = Some (Inr l3)"
    using us(1) l2(1) by (simp add: insert_def Let_def l3_def)
  moreover have "cur_level l3 \<noteq> 0" using f3(5) lvl(1) by simp
  ultimately show ?thesis using f3(2) unfolding sl_rep_def by blast
qed

lemma sl_rep_new: "0 < maxl \<Longrightarrow> sl_rep (new_skiplist dk dv maxl) []"
  unfolding sl_rep_def by (intro exI [of _ "[]"]) (simp add: sl_ok_def new_skiplist_def entries_def)

text \<open>The first entry with the key is taken out.\<close>

fun del_entry :: "'k \<Rightarrow> ('k \<times> 'v) list \<Rightarrow> ('k \<times> 'v) list" where
  "del_entry k [] = []"
| "del_entry k (e # es) = (if fst e = k then es else e # del_entry k es)"

lemma del_entry_absent: "k \<notin> fst ` set es \<Longrightarrow> del_entry k es = es"
  by (induction es) auto

lemma del_entry_append: "k \<notin> fst ` set xs \<Longrightarrow> del_entry k (xs @ ys) = xs @ del_entry k ys"
  by (induction xs) auto

text \<open>The first node \<open>n\<close> of the not smaller ones taken out of its levels.\<close>

lemma sl_ok_unlinked:
  assumes s: "splits l k A (n # B)"
    and same: "header l' = header l" "max_level l' = max_level l" "next_node l' = next_node l" "freed l' = n # freed l"
      "key l' = key l"
    and len: "\<And>x. length (forward l' x) = length (forward l x)"
    and fw: "\<And>x i. i < max_level l \<Longrightarrow>
        forward l' x ! i = (if on_level l i n \<and> x = pred_of l A i then forward l n ! i else forward l x ! i)"
    and cur: "cur_level l' \<le> max_level l" "\<forall>x \<in> set (A @ B). length (forward l x) \<le> cur_level l'"
  shows "sl_ok l' (A @ B)"
proof -
  have ok: "sl_ok l (A @ n # B)" using s by (simp add: splits_def)
  have fil: "filter (on_level l' i) ns = filter (on_level l i) ns" for i ns by (simp add: len)
  have "linked l' i (header l' # filter (on_level l' i) (A @ B))" if i: "i < max_level l'" for i
  proof -
    have im: "i < max_level l" using i same by simp
    let ?bs = "butlast (before_on l A i)" and ?u = "pred_of l A i" and ?qs = "filter (on_level l i) B"
    have pre: "header l # filter (on_level l i) A = ?bs @ [?u]" using before_on_split [of l A i] by (simp add: before_on_def)
    then have goal: "header l' # filter (on_level l' i) (A @ B) = ?bs @ ?u # ?qs" by (simp add: len same)
    note f = level_facts(1,2) [OF s im]
    show ?thesis
    proof (cases "on_level l i n")
      case True
      then have f': "linked l i (?bs @ ?u # n # ?qs)" "distinct (?bs @ ?u # n # ?qs)" using f by simp_all
      have "linked l' i (?bs @ ?u # ?qs)"
      proof (rule linked_remove [OF f'])
        show "forward l' x ! i = forward l x ! i" if "x \<in> set (?bs @ ?qs)" for x
        proof -
          have "x \<noteq> ?u" using that f'(2) by auto
          then show ?thesis using fw [OF im] by simp
        qed
      qed (use True len fw [OF im] in simp_all)
      then show ?thesis unfolding goal .
    next
      case False
      then have "linked l i (?bs @ ?u # ?qs)" using f(1) by simp
      moreover have "linked l' i (?bs @ ?u # ?qs) = linked l i (?bs @ ?u # ?qs)"
        by (rule linked_cong) (use False len fw [OF im] in simp)
      ultimately show ?thesis unfolding goal by simp
    qed
  qed
  moreover have "\<forall>x \<in> set (header l' # A @ B). 0 < x \<and> x < next_node l' \<and> x \<notin> set (freed l')"
    using ok unfolding same by (auto simp: sl_ok_def)
  moreover have "\<forall>x \<in> set (freed l'). x < next_node l'" using ok unfolding same by (auto simp: sl_ok_def)
  moreover have "sorted (map (key l') (A @ B))" using ok unfolding same by (simp add: sl_ok_def sorted_append)
  moreover have "\<forall>x \<in> set (A @ B). 0 < length (forward l' x) \<and> length (forward l' x) \<le> cur_level l'"
    using ok cur(2) unfolding len by (auto simp: sl_ok_def)
  moreover have "length (forward l' (header l')) = max_level l'" "distinct (header l' # A @ B)" "0 < max_level l'"
      "cur_level l' \<le> max_level l'"
    using ok cur(1) unfolding len same by (simp_all add: sl_ok_def)
  ultimately show ?thesis unfolding sl_ok_def by blast
qed

text \<open>The loop over the levels takes the node out of all of its own.\<close>

lemma unlink_all:
  assumes s: "splits l k A (n # B)" and us: "length us = max_level l" "\<And>j. j < max_level l \<Longrightarrow> us ! j = pred_of l A j"
  shows "\<exists>l'. unlink_levels n us [0..<cur_level l] l = Inr l' \<and> same_data l l' \<and>
    (\<forall>x. \<forall>i < max_level l. forward l' x ! i = (if on_level l i n \<and> x = pred_of l A i then forward l n ! i else forward l x ! i))"
proof -
  have ok: "sl_ok l (A @ n # B)" using s by (simp add: splits_def)
  let ?m = "length (forward l n)" and ?c = "cur_level l"
  have m: "?m \<le> ?c" "?c \<le> max_level l" using ok by (auto simp: sl_ok_def)
  have nx: "forward l (pred_of l A i) ! i = hd0 (filter (on_level l i) (n # B))" if "i < max_level l" for i
    using linked_next [OF level_facts(1) [OF s that]] by simp
  have pn: "pred_of l A i \<noteq> n" if "i < max_level l" for i
    using level_facts(4) [OF s that] ok by (auto simp: sl_ok_def)
  have n0: "n \<noteq> 0" "n \<notin> set (freed l)" using ok by (auto simp: sl_ok_def)
  have "unlink_levels n us [0..<?c] l = unlink_levels n us ([0..<?m] @ [?m..<?c]) l"
    using upt_add_eq_append [of 0 ?m "?c - ?m"] m(1) by simp
  moreover have "\<forall>i \<in> set [0..<?m]. ready l us n i \<and> forward l (us ! i) ! i = n"
    using level_facts(5-7) [OF s] us nx pn n0 m by (simp add: ready_def)
  moreover have "[?m..<?c] = [] \<or> (hd [?m..<?c] < length us \<and> us ! hd [?m..<?c] \<noteq> 0 \<and>
      us ! hd [?m..<?c] \<notin> set (freed l) \<and> on_level l (hd [?m..<?c]) (us ! hd [?m..<?c]) \<and>
      forward l (us ! hd [?m..<?c]) ! hd [?m..<?c] \<noteq> n)"
  proof (cases "?m < ?c")
    case True
    then have im: "?m < max_level l" using m by simp
    have "hd0 (filter (on_level l ?m) B) \<noteq> n"
    proof (cases "filter (on_level l ?m) B")
      case (Cons b bs)
      then have "b \<in> set (filter (on_level l ?m) B)" by simp
      then have "b \<in> set B" by simp
      with Cons ok show ?thesis by (auto simp: sl_ok_def)
    qed (use n0 in simp)
    then show ?thesis using True level_facts(5-7) [OF s im] us im nx [OF im] by simp
  qed simp
  moreover have "distinct ([0..<?m] @ [?m..<?c])" by simp
  ultimately obtain l' where "unlink_levels n us [0..<?c] l = Inr l'" "same_data l l'"
    "\<forall>x i. forward l' x ! i = (if i \<in> set [0..<?m] \<and> x = us ! i then forward l n ! i else forward l x ! i)"
    using unlink_levels_ok [of "[0..<?m]" "[?m..<?c]" l us n] by auto
  then show ?thesis using us by auto
qed

lemma sl_ok_lower:
  assumes "sl_ok l ns" "\<forall>n \<in> set ns. length (forward l n) \<le> c" "c \<le> max_level l"
  shows "sl_ok (l\<lparr>cur_level := c\<rparr>) ns"
proof -
  have "linked (l\<lparr>cur_level := c\<rparr>) i xs = linked l i xs" for i xs by (rule linked_cong) simp
  with assms show ?thesis by (simp add: sl_ok_def)
qed

lemma first_on_level:
  assumes "sl_ok l ns" "i < max_level l"
  shows "fwd l (header l) i = Inr (hd0 (filter (on_level l i) ns))"
proof -
  have "linked l i (header l # filter (on_level l i) ns)" using assms by (simp add: sl_ok_def)
  then show ?thesis using assms by (auto simp: sl_ok_def fwd_in)
qed

lemma remove_node:
  assumes s: "splits l k A (n # B)" and us: "length us = max_level l" "\<And>j. j < max_level l \<Longrightarrow> us ! j = pred_of l A j"
  shows "\<exists>l'. bindE (unlink_levels n us [0..<cur_level l] l) (\<lambda>l1.
              let l2 = l1\<lparr>freed := n # freed l1\<rparr> in
              if cur_level l2 > 1 then
                bindE (fwd l2 (header l2) (cur_level l2 - 1)) (\<lambda>h.
                  Inr (if h = 0 then l2\<lparr>cur_level := cur_level l2 - 1\<rparr> else l2))
              else Inr l2) = Inr l' \<and> sl_ok l' (A @ B) \<and> key l' = key l \<and> val l' = val l \<and> max_level l' = max_level l \<and>
            freed l' = n # freed l \<and> (cur_level l \<noteq> 0 \<longrightarrow> cur_level l' \<noteq> 0)"
proof -
  have ok: "sl_ok l (A @ n # B)" using s by (simp add: splits_def)
  from unlink_all [OF s us] obtain l1 where l1: "unlink_levels n us [0..<cur_level l] l = Inr l1" "same_data l l1"
    "\<And>x i. i < max_level l \<Longrightarrow>
       forward l1 x ! i = (if on_level l i n \<and> x = pred_of l A i then forward l n ! i else forward l x ! i)" by blast
  define l2 where "l2 = l1\<lparr>freed := n # freed l1\<rparr>"
  have f: "header l2 = header l" "max_level l2 = max_level l" "cur_level l2 = cur_level l" "next_node l2 = next_node l"
    "freed l2 = n # freed l" "key l2 = key l" "val l2 = val l" "forward l2 = forward l1"
    "\<And>x. length (forward l1 x) = length (forward l x)"
    using l1(2) by (simp_all add: l2_def same_data_def)
  have ok2: "sl_ok l2 (A @ B)"
    by (rule sl_ok_unlinked [OF s f(1,2,4,5,6)]) (use f l1(3) ok in \<open>simp_all add: sl_ok_def\<close>)
  have f1: "cur_level l1 = cur_level l" "header l1 = header l" "freed l1 = freed l" using l1(2) by (simp_all add: same_data_def)
  let ?c = "cur_level l2 - 1"
  show ?thesis
  proof (cases "cur_level l2 > 1")
    case True
    moreover have "cur_level l2 \<le> max_level l2" using ok2 by (simp add: sl_ok_def)
    ultimately have cm: "?c < max_level l2" by linarith
    let ?F = "filter (on_level l2 ?c) (A @ B)"
    have fw: "fwd l2 (header l2) ?c = Inr (hd0 ?F)" by (rule first_on_level [OF ok2 cm])
    show ?thesis
    proof (cases "hd0 ?F = 0")
      case empty: True
      have "?F = []"
      proof (cases ?F)
        case (Cons x xs)
        then have "x \<in> set ?F" by simp
        then have "x \<in> set (A @ B)" by auto
        then have "0 < x" using ok2 by (auto simp: sl_ok_def)
        with Cons empty show ?thesis by simp
      qed simp
      then have "\<forall>x \<in> set (A @ B). length (forward l2 x) \<le> ?c" by (force simp: filter_empty_conv)
      with sl_ok_lower [OF ok2 this] cm have "sl_ok (l2\<lparr>cur_level := ?c\<rparr>) (A @ B)" by simp
      with l1(1) True fw empty f f1 show ?thesis
        by (intro exI [of _ "l2\<lparr>cur_level := ?c\<rparr>"]) (simp add: Let_def l2_def [symmetric, unfolded f1(3)])
    next
      case False
      with l1(1) True fw f f1 ok2 show ?thesis by (intro exI [of _ l2]) (simp add: Let_def l2_def [symmetric, unfolded f1(3)])
    qed
  next
    case False
    with l1(1) f f1 ok2 show ?thesis by (intro exI [of _ l2]) (simp add: Let_def l2_def [symmetric, unfolded f1(3)])
  qed
qed

lemma sl_remove_ok:
  assumes "sl_rep l es"
  shows "\<exists>l'. remove k l = Some (Inr l') \<and> sl_rep l' (del_entry k es) \<and> max_level l' = max_level l \<and>
           (cur_level l \<noteq> 0 \<longrightarrow> cur_level l' \<noteq> 0)"
proof -
  from assms obtain ns where "sl_ok l ns" and es: "entries l ns = es" by (auto simp: sl_rep_def)
  with splits_exist obtain A B where ns: "ns = A @ B" and s: "splits l k A B" by blast
  have ok: "sl_ok l (A @ B)" using s by (simp add: splits_def)
  then have mx: "0 < max_level l" by (simp add: sl_ok_def)
  from locate_all [OF s] obtain us where us:
    "locate l k (cur_level l) (header l) (replicate (max_level l) (header l)) = Some (Inr (pred_of l A 0, us))"
    "length us = max_level l" "\<And>j. j < max_level l \<Longrightarrow> us ! j = pred_of l A j" by blast
  have "filter (on_level l 0) B = B" using ok by (intro filter_True) (simp add: sl_ok_def)
  with next_of_pred [OF s mx] have nx: "fwd l (pred_of l A 0) 0 = Inr (hd0 B)" by simp
  have A: "k \<notin> fst ` set (entries l A)" using s by (auto simp: splits_def entries_def)
  have es': "es = entries l A @ entries l B" using es ns by (simp add: entries_def)
  show ?thesis
  proof (cases "B = [] \<or> k < key l (hd B)")
    case True
    have "k \<notin> fst ` set es"
      using splits_keys [OF s] True A es' by (auto simp: entries_def)
    moreover have "remove k l = Some (Inr l)"
      using us(1) nx True by (cases B) (auto simp: remove_def)
    ultimately show ?thesis using assms by (auto simp: del_entry_absent)
  next
    case False
    then obtain n B' where B: "B = n # B'" by (cases B) auto
    have n: "n \<noteq> 0" "key l n = k" using False ok s unfolding B by (auto simp: sl_ok_def splits_def)
    from remove_node [OF s [unfolded B] us(2,3)] obtain l' where l': "sl_ok l' (A @ B')" "key l' = key l" "val l' = val l"
        "max_level l' = max_level l" "remove k l = Some (Inr l')" "cur_level l \<noteq> 0 \<longrightarrow> cur_level l' \<noteq> 0"
      using us(1) nx n by (auto simp: remove_def B)
    moreover have "entries l' (A @ B') = del_entry k es"
      using A n(2) unfolding es' B by (simp add: entries_def l'(2,3) del_entry_append)
    ultimately show ?thesis unfolding sl_rep_def by blast
  qed
qed

section \<open>The list as a map with duplicates\<close>

text \<open>C15: \<open>insert\<close> and \<open>remove\<close> refine a sorted list of entries, whatever the random levels are: both return without
  undefined behaviour, an insertion puts its entry in front of the first key that is not smaller, and a removal
  takes the first entry with the key out, or changes nothing.\<close>

theorem skiplist_refines_sorted_list:
  assumes "sl_rep l es"
  shows "(\<exists>l'. insert rand k v l = Some (Inr l') \<and> sl_rep l' (ins_entry k v es)) \<and>
    (\<exists>l'. remove k l = Some (Inr l') \<and> sl_rep l' (del_entry k es))"
  using sl_insert_ok [OF assms, of rand k v] sl_remove_ok [OF assms, of k] by blast+

definition alternating :: "nat \<Rightarrow> int" where
  "alternating i = int i mod 2"

theorem skiplist_refines_sorted_list_witness:
  "\<exists>l1 l2 l3. insert alternating (5 :: nat) ''a'' (new_skiplist 0 [] 32) = Some (Inr l1) \<and>
     insert alternating 3 ''b'' l1 = Some (Inr l2) \<and> remove 5 l2 = Some (Inr l3) \<and> sl_rep l3 [(3, ''b'')]"
proof -
  have "sl_rep (new_skiplist (0 :: nat) ([] :: string) 32) []" by (simp add: sl_rep_new)
  from conjunct1 [OF skiplist_refines_sorted_list [OF this, of alternating 5 "''a''"]] obtain l1 where
    l1: "insert alternating (5 :: nat) ''a'' (new_skiplist 0 [] 32) = Some (Inr l1)" "sl_rep l1 [(5, ''a'')]"
    by (auto simp: ins_entry_def)
  from conjunct1 [OF skiplist_refines_sorted_list [OF l1(2), of alternating 3 "''b''"]] obtain l2 where
    l2: "insert alternating 3 ''b'' l1 = Some (Inr l2)" "sl_rep l2 [(3, ''b''), (5, ''a'')]"
    by (auto simp: ins_entry_def)
  from conjunct2 [OF skiplist_refines_sorted_list [OF l2(2), of alternating 5 "''c''"]] obtain l3 where
    "remove 5 l2 = Some (Inr l3)" "sl_rep l3 [(3, ''b'')]" by auto
  with l1 l2 show ?thesis by blast
qed

text \<open>On a list that is not empty \<open>find\<close> returns a value stored under the key, or throws when there is none, and
  \<open>isExist\<close> says which.\<close>

theorem skiplist_lookup:
  assumes "sl_rep l es" "es \<noteq> []"
  shows "if k \<in> fst ` set es then (\<exists>v. find str k l = Some (Inr v) \<and> (k, v) \<in> set es) \<and> isExist k l = Some (Inr True)
     else find str k l = Some (Inl (Thrown (''Key '' @ str k @ ''is not exist''))) \<and> isExist k l = Some (Inr False)"
  by (rule lookup_ok [OF assms])

theorem skiplist_lookup_witness:
  "\<exists>l. insert alternating (5 :: nat) ''a'' (new_skiplist 0 [] 32) = Some (Inr l) \<and> find (\<lambda>_. ''5'') 5 l = Some (Inr ''a'') \<and>
     isExist 4 l = Some (Inr False)"
proof -
  have "sl_rep (new_skiplist (0 :: nat) ([] :: string) 32) []" by (simp add: sl_rep_new)
  from sl_insert_ok [OF this, of alternating 5 "''a''"] obtain l where
    l: "insert alternating (5 :: nat) ''a'' (new_skiplist 0 [] 32) = Some (Inr l)" "sl_rep l [(5, ''a'')]"
    by (auto simp: ins_entry_def)
  from skiplist_lookup [OF l(2), of 5 "\<lambda>_. ''5''"] skiplist_lookup [OF l(2), of 4 "\<lambda>_. ''5''"] l(1) show ?thesis by auto
qed

lemma emptied_lookup:
  assumes "sl_rep l []" "cur_level l \<noteq> 0"
  shows "find str k l = Some (Inl Undefined) \<and> isExist k l = Some (Inl Undefined)"
proof -
  from assms obtain ns where "sl_ok l ns" "ns = []" by (auto simp: sl_rep_def entries_def)
  with too_small_ok [of l ns k] assms(2) show ?thesis by (simp add: find_def isExist_def Let_def)
qed

text \<open>A list that was filled and emptied again is not usable: its level stays above zero, and \<open>find\<close> and \<open>isExist\<close> of
  any key then follow the header's null pointer.\<close>

theorem skiplist_emptied_lookup_undefined:
  "\<exists>l1 l2. insert rand k v (new_skiplist dk dv (Suc m)) = Some (Inr l1) \<and> remove k l1 = Some (Inr l2) \<and>
     find str k' l2 = Some (Inl Undefined) \<and> isExist k' l2 = Some (Inl Undefined)"
proof -
  have "sl_rep (new_skiplist dk dv (Suc m)) []" by (simp add: sl_rep_new)
  from sl_insert_ok [OF this, of rand k v] obtain l1 where
    l1: "insert rand k v (new_skiplist dk dv (Suc m)) = Some (Inr l1)" "sl_rep l1 [(k, v)]" "cur_level l1 \<noteq> 0"
    by (auto simp: ins_entry_def)
  from sl_remove_ok [OF l1(2), of k] l1(3) obtain l2 where
    l2: "remove k l1 = Some (Inr l2)" "sl_rep l2 []" "cur_level l2 \<noteq> 0" by auto
  from emptied_lookup [OF l2(2,3)] l1(1) l2(1) show ?thesis by blast
qed

section \<open>Destruction\<close>

lemma destroy_from_ok:
  assumes "linked l 0 (c # ns)" "distinct (c # ns)" "\<forall>n \<in> set (c # ns). n \<noteq> 0 \<and> n \<notin> set (freed l)"
  shows "destroy_from c l = Some (Inr (l\<lparr>freed := rev (c # ns) @ freed l\<rparr>))"
  using assms
proof (induction ns arbitrary: c l)
  case Nil
  then have "fwd l c 0 = Inr 0" by (simp add: fwd_in)
  then show ?case by (subst destroy_from.simps) simp
next
  case (Cons x ns)
  then have "fwd l c 0 = Inr x" "x \<noteq> 0" by (simp_all add: fwd_in)
  then have "destroy_from c l = destroy_from x (l\<lparr>freed := c # freed l\<rparr>)" by (subst destroy_from.simps) simp
  moreover have "linked (l\<lparr>freed := c # freed l\<rparr>) 0 (x # ns) = linked l 0 (x # ns)" by (rule linked_cong) simp
  ultimately show ?case using Cons.IH [of "l\<lparr>freed := c # freed l\<rparr>" x] Cons.prems by auto
qed

text \<open>The destructor frees the header and every node once; the one of a list that was moved from follows a null
  pointer.\<close>

theorem skiplist_destructor:
  assumes "sl_rep l es"
  shows "(\<exists>l' ds. skiplist_destroy l = Some (Inr l') \<and> freed l' = ds @ freed l \<and> distinct ds \<and> header l \<in> set ds \<and>
            length ds = Suc (length es) \<and> set ds \<inter> set (freed l) = {}) \<and>
         skiplist_destroy (snd (skiplist_move l)) = Some (Inl Undefined)"
proof
  from assms obtain ns where ok: "sl_ok l ns" and es: "entries l ns = es" by (auto simp: sl_rep_def)
  have all: "filter (on_level l 0) ns = ns" using ok by (intro filter_True) (auto simp: sl_ok_def)
  have "linked l 0 (header l # filter (on_level l 0) ns)" using ok by (auto simp: sl_ok_def)
  then have "skiplist_destroy l = Some (Inr (l\<lparr>freed := rev (header l # ns) @ freed l\<rparr>))"
    unfolding skiplist_destroy_def using ok all by (intro destroy_from_ok) (auto simp: sl_ok_def)
  moreover have "length ns = length es" by (simp add: entries_def flip: es)
  moreover have "distinct (rev (header l # ns))" "set (rev (header l # ns)) \<inter> set (freed l) = {}"
    using ok by (auto simp: sl_ok_def)
  ultimately show "\<exists>l' ds. skiplist_destroy l = Some (Inr l') \<and> freed l' = ds @ freed l \<and> distinct ds \<and> header l \<in> set ds \<and>
            length ds = Suc (length es) \<and> set ds \<inter> set (freed l) = {}"
    by (intro exI [of _ "l\<lparr>freed := rev (header l # ns) @ freed l\<rparr>"] exI [of _ "rev (header l # ns)"]) auto
  show "skiplist_destroy (snd (skiplist_move l)) = Some (Inl Undefined)"
    unfolding skiplist_destroy_def by (subst destroy_from.simps) (simp add: skiplist_move_def fwd_def)
qed

theorem skiplist_destructor_witness:
  "\<exists>l. skiplist_destroy (new_skiplist (0 :: nat) (0 :: nat) 4) = Some (Inr l) \<and> freed l = [1]"
proof -
  have r: "sl_rep (new_skiplist (0 :: nat) (0 :: nat) 4) []" by (simp add: sl_rep_new)
  have f: "freed (new_skiplist (0 :: nat) (0 :: nat) 4) = []" "header (new_skiplist (0 :: nat) (0 :: nat) 4) = 1"
    by (simp_all add: new_skiplist_def)
  from skiplist_destructor [OF r] f obtain l ds where
    "skiplist_destroy (new_skiplist (0 :: nat) (0 :: nat) 4) = Some (Inr l)" "freed l = ds" "1 \<in> set ds" "length ds = 1"
    by auto
  then show ?thesis by (cases ds) auto
qed

end
