(* ===== verification/Encoding.thy ===== *)
theory Encoding
  imports Prelude
begin

text \<open>
  include/Rpc/encoding.h: base-128 varints of 32-bit integers and the zigzag pair. Signed
  arguments are the two's complement words the code casts them to.
\<close>

section \<open>Varints\<close>

text \<open>\<open>while (v > 0x7f) { ret += (v & 0x7f) | 0x80; v >>= 7; } ret += v;\<close>\<close>

lemma unat_drop_bit_less:
  fixes v :: u32
  assumes "0 < unat v"
  shows "unat (drop_bit 7 v) < unat v"
proof -
  have "unat (drop_bit 7 v) = unat v div 2 ^ 7"
    by (simp only: unat_drop_bit_eq) (simp add: drop_bit_eq_div)
  also have "\<dots> < unat v"
    using assms by (intro div_less_dividend) simp_all
  finally show ?thesis .
qed

function varint_loop :: "u32 \<Rightarrow> bytes \<Rightarrow> bytes" where
  "varint_loop v ret =
     (if v > 0x7f then varint_loop (drop_bit 7 v) (ret @ [ucast ((v AND 0x7f) OR 0x80)])
      else ret @ [ucast v])"
  by pat_completeness auto
termination
proof (relation "measure (\<lambda>(v, ret). unat v)")
  fix v :: u32 and ret :: bytes
  assume "v > 0x7f"
  then have "0 < unat v" by (simp add: word_less_nat_alt)
  then have "unat (drop_bit 7 v) < unat v"
    by (rule unat_drop_bit_less)
  then show "((drop_bit 7 v, ret @ [ucast ((v AND 0x7f) OR 0x80)]), v, ret) \<in> measure (\<lambda>(v, ret). unat v)"
    by simp
qed simp

declare varint_loop.simps [simp del]

definition pb_encode_varint :: "u32 \<Rightarrow> bytes" where
  "pb_encode_varint value = varint_loop value []"

text \<open>
  \<open>for (i = size - 1; i >= 0; i--) { ret <<= 7; ret |= buffer[i] & 0x7f; }\<close>: from the last byte
  to the first.
\<close>

definition pb_decode_varint :: "bytes \<Rightarrow> u32" where
  "pb_decode_varint buffer = foldr (\<lambda>b ret. push_bit 7 ret OR (ucast b AND 0x7f)) buffer 0"

section \<open>Zigzag\<close>

definition pb_encode_zigzag32 :: "u32 \<Rightarrow> u32" where
  "pb_encode_zigzag32 num = push_bit 1 num OR drop_bit 31 num"

definition pb_decode_zigzag32 :: "u32 \<Rightarrow> u32" where
  "pb_decode_zigzag32 num = drop_bit 1 num OR push_bit 31 num"

definition pb_encode_zigzag64 :: "u64 \<Rightarrow> u64" where
  "pb_encode_zigzag64 num = push_bit 1 num OR drop_bit 63 num"

definition pb_decode_zigzag64 :: "u64 \<Rightarrow> u64" where
  "pb_decode_zigzag64 num = drop_bit 1 num OR push_bit 63 num"

text \<open>The mapping the name promises (protocol buffers' sint32): \<open>(n << 1) ^ (n >> 31)\<close> with an
  arithmetic shift.\<close>

definition zigzag_spec :: "u32 \<Rightarrow> u32" where
  "zigzag_spec n = push_bit 1 n XOR signed_drop_bit 31 n"

section \<open>Laws\<close>

lemma bit_7f: "bit (0x7f :: int) i \<longleftrightarrow> i < 7"
proof -
  have eq: "(0x7f :: int) = mask 7" by (simp add: mask_eq_exp_minus_1)
  show ?thesis by (simp only: eq bit_mask_iff) simp
qed

lemma bit_80: "bit (0x80 :: int) i \<longleftrightarrow> i = 7"
proof -
  have eq: "(0x80 :: int) = 2 ^ 7" by simp
  show ?thesis by (simp only: eq bit_exp_iff) auto
qed

lemmas byte_mask_bits = bit_7f bit_80

text \<open>The loop appends to what it has built; without the accumulator it is this recursion.\<close>

lemma varint_loop_acc: "varint_loop v ret = ret @ varint_loop v []"
proof (induction v arbitrary: ret rule: measure_induct_rule [of unat])
  case (less v)
  show ?case
  proof (cases "v > 0x7f")
    case True
    then have "unat (drop_bit 7 v) < unat v"
      by (intro unat_drop_bit_less) (simp add: word_less_nat_alt)
    from less [OF this, of "ret @ [ucast ((v AND 0x7f) OR 0x80)]"] less [OF this, of "[ucast ((v AND 0x7f) OR 0x80)]"]
    show ?thesis
      using True by (simp add: varint_loop.simps [of v])
  next
    case False
    then show ?thesis by (simp add: varint_loop.simps [of v])
  qed
qed

lemma pb_encode_varint_rec:
  "pb_encode_varint v =
     (if v > 0x7f then ucast ((v AND 0x7f) OR 0x80) # pb_encode_varint (drop_bit 7 v) else [ucast v])"
  using varint_loop_acc [of "drop_bit 7 v" "[ucast ((v AND 0x7f) OR 0x80)]"]
  by (simp add: pb_encode_varint_def varint_loop.simps [of v])

lemma varint_induct:
  assumes "\<And>v. (0x7f < v \<Longrightarrow> P (drop_bit 7 v)) \<Longrightarrow> P (v :: u32)"
  shows "P v"
proof (induction v rule: measure_induct_rule [of unat])
  case (less v)
  show ?case
    by (rule assms, rule less, rule unat_drop_bit_less) (simp add: word_less_nat_alt)
qed

lemma small_bits: "\<not> 0x7f < (v :: u32) \<Longrightarrow> bit v i \<Longrightarrow> i < 7"
proof -
  assume "\<not> 0x7f < v" and b: "bit v i"
  then have "unat v < 2 ^ 7" by (simp add: word_less_nat_alt)
  then have "take_bit 7 v = v"
    by (simp add: word_unat_eq_iff unsigned_take_bit_eq take_bit_nat_eq_self)
  with b show ?thesis by (metis bit_take_bit_iff)
qed

lemma varint_recombine:
  fixes v :: u32
  shows "push_bit 7 (drop_bit 7 v) OR (ucast (ucast ((v AND 0x7f) OR 0x80) :: u8) AND 0x7f) = v"
  by (rule bit_word_eqI)
    (auto simp: bit_simps byte_mask_bits, (metis le_add_diff_inverse not_less)+)

text \<open>Decoding the varint of any 32-bit integer, negative ones included, gives the integer
  back.\<close>

theorem varint_roundtrip: "pb_decode_varint (pb_encode_varint v) = v"
proof (induction v rule: varint_induct)
  case (1 v)
  show ?case
  proof (cases "0x7f < v")
    case True
    with 1 have "pb_decode_varint (pb_encode_varint (drop_bit 7 v)) = drop_bit 7 v" by simp
    with True show ?thesis
      by (simp add: pb_encode_varint_rec [of v] pb_decode_varint_def varint_recombine)
  next
    case False
    have "(ucast (ucast v :: u8) AND 0x7f) = v"
      by (rule bit_word_eqI) (auto simp: bit_simps byte_mask_bits dest: small_bits [OF False])
    with False show ?thesis
      by (simp add: pb_encode_varint_rec [of v] pb_decode_varint_def)
  qed
qed


lemma varint_continuation:
  "bit (ucast ((v AND 0x7f) OR 0x80 :: u32) :: u8) 7"
  by (simp add: bit_simps byte_mask_bits)

lemma varint_last: "\<not> 0x7f < (v :: u32) \<Longrightarrow> \<not> bit (ucast v :: u8) 7"
  using small_bits [of v 7] by (auto simp: bit_simps)

lemma pb_encode_varint_nonempty [simp]: "pb_encode_varint v \<noteq> []"
  by (subst pb_encode_varint_rec) simp

lemma varint_length_le:
  "unat v < 2 ^ (7 * k) \<Longrightarrow> 0 < k \<Longrightarrow> length (pb_encode_varint v) \<le> k"
proof (induction k arbitrary: v)
  case 0
  then show ?case by simp
next
  case (Suc k)
  show ?case
  proof (cases "0x7f < v")
    case True
    then have big: "0x7f < unat v" by (simp add: word_less_nat_alt)
    have "0 < k"
    proof (rule ccontr)
      assume "\<not> 0 < k"
      with Suc.prems(1) big show False by simp
    qed
    moreover have "unat (drop_bit 7 v) < 2 ^ (7 * k)"
    proof -
      have "unat (drop_bit 7 v) = unat v div 2 ^ 7"
        by (simp only: unat_drop_bit_eq) (simp add: drop_bit_eq_div)
      moreover have "unat v < 2 ^ (7 * k) * 2 ^ 7"
        using Suc.prems(1) by (simp add: power_add)
      ultimately show ?thesis by (simp only: less_mult_imp_div_less)
    qed
    ultimately have "length (pb_encode_varint (drop_bit 7 v)) \<le> k" by (rule Suc.IH [rotated])
    with True show ?thesis by (simp add: pb_encode_varint_rec [of v])
  next
    case False
    then show ?thesis by (simp add: pb_encode_varint_rec [of v])
  qed
qed

text \<open>A varint has between one and five bytes; every byte but the last has its high bit
  set and the last has not, so a reader knows where it ends.\<close>

theorem varint_framing:
  "length (pb_encode_varint v) \<in> {1..5} \<and>
   \<not> bit (last (pb_encode_varint v)) 7 \<and>
   list_all (\<lambda>b. bit b 7) (butlast (pb_encode_varint v))"
proof -
  have "unat v < 2 ^ 32" using unsigned_less [of v, where ?'a = nat] by simp
  also have "\<dots> \<le> 2 ^ (7 * 5)" by simp
  finally have "length (pb_encode_varint v) \<le> 5" by (intro varint_length_le) simp_all
  moreover have "1 \<le> length (pb_encode_varint v)" by (simp add: Suc_le_eq)
  moreover have "\<not> bit (last (pb_encode_varint v)) 7 \<and> list_all (\<lambda>b. bit b 7) (butlast (pb_encode_varint v))"
  proof (induction v rule: varint_induct)
    case (1 v)
    then show ?case
      by (cases "0x7f < v")
        (simp_all add: pb_encode_varint_rec [of v] varint_continuation varint_last)
  qed
  ultimately show ?thesis by simp
qed

lemma bit_encode_zigzag32:
  "bit (pb_encode_zigzag32 n) i \<longleftrightarrow> i < 32 \<and> (if i = 0 then bit n 31 else bit n (i - 1))"
  unfolding pb_encode_zigzag32_def bit_or_iff bit_push_bit_iff bit_drop_bit_eq
  by (auto dest: bit_imp_le_length simp: o_def possible_bit_word)

lemma bit_decode_zigzag32:
  "bit (pb_decode_zigzag32 n) i \<longleftrightarrow> i < 32 \<and> (if i = 31 then bit n 0 else bit n (Suc i))"
  unfolding pb_decode_zigzag32_def bit_or_iff bit_push_bit_iff bit_drop_bit_eq
  by (auto dest: bit_imp_le_length simp: o_def possible_bit_word)

lemma bit_encode_zigzag64:
  "bit (pb_encode_zigzag64 n) i \<longleftrightarrow> i < 64 \<and> (if i = 0 then bit n 63 else bit n (i - 1))"
  unfolding pb_encode_zigzag64_def bit_or_iff bit_push_bit_iff bit_drop_bit_eq
  by (auto dest: bit_imp_le_length simp: o_def possible_bit_word)

lemma bit_decode_zigzag64:
  "bit (pb_decode_zigzag64 n) i \<longleftrightarrow> i < 64 \<and> (if i = 63 then bit n 0 else bit n (Suc i))"
  unfolding pb_decode_zigzag64_def bit_or_iff bit_push_bit_iff bit_drop_bit_eq
  by (auto dest: bit_imp_le_length simp: o_def possible_bit_word)

lemmas bit_zigzag = bit_encode_zigzag32 bit_decode_zigzag32 bit_encode_zigzag64 bit_decode_zigzag64

lemma bit_zigzag_spec:
  "bit (zigzag_spec n) i \<longleftrightarrow> i < 32 \<and> (if i = 0 then bit n 31 else bit n (i - 1) \<noteq> bit n 31)"
  unfolding zigzag_spec_def bit_xor_iff bit_push_bit_iff bit_signed_drop_bit_iff
  by (auto dest: bit_imp_le_length simp: possible_bit_word)

text \<open>The zigzag pair is a bijection at both widths: decoding what was encoded gives the
  integer back.\<close>

theorem zigzag_roundtrip:
  "pb_decode_zigzag32 (pb_encode_zigzag32 n) = n \<and> pb_decode_zigzag64 (pb_encode_zigzag64 m) = m"
proof
  show "pb_decode_zigzag32 (pb_encode_zigzag32 n) = n"
    by (rule bit_word_eqI) (auto simp: bit_zigzag)
  show "pb_decode_zigzag64 (pb_encode_zigzag64 m) = m"
    by (rule bit_word_eqI) (auto simp: bit_zigzag)
qed

text \<open>The encoding is protocol buffers' zigzag exactly for the non-negative integers; it
  differs for every negative one (it leaves the magnitude bits uninverted, a rotation by one).\<close>

theorem zigzag_matches_protobuf_iff:
  "pb_encode_zigzag32 n = zigzag_spec n \<longleftrightarrow> 0 \<le> sint n"
proof -
  have sign: "0 \<le> sint n \<longleftrightarrow> \<not> bit n 31"
    using bit_last_iff [of n] by (simp add: not_less)
  show ?thesis
  proof (cases "bit n 31")
    case True
    then have "bit (pb_encode_zigzag32 n) 1 \<noteq> bit (zigzag_spec n) 1"
      by (simp add: bit_zigzag bit_zigzag_spec)
    then have "pb_encode_zigzag32 n \<noteq> zigzag_spec n" by metis
    with True sign show ?thesis by simp
  next
    case False
    have "pb_encode_zigzag32 n = zigzag_spec n"
      by (rule bit_word_eqI) (use False in \<open>auto simp: bit_zigzag bit_zigzag_spec\<close>)
    with False sign show ?thesis by simp
  qed
qed

end
