(* ===== verification/Hash_Heap.thy ===== *)
theory Hash_Heap
  imports Prelude
begin

text \<open>
  include/data_structure/hashheap.hpp: the list of endpoints a load balancer chooses from, a map from
  keys to scores with access to the best key, to a random key and to the key at an index. Every
  public operation holds the mutex throughout, so each is one step.

  The multimap is the list of its nodes in iteration order; an iterator is the number of a node.
  \<open>random_list\<close> holds the addresses of the keys \<open>insert\<close> was called with, not of its own copies. The
  argument \<open>mem\<close> of the operations that follow such an address is the memory at that moment: the
  strings that are alive, by address.
\<close>

section \<open>State and operations\<close>

type_synonym ('k, 's) node = "nat \<times> 's \<times> 'k"

record ('k, 's, 'p) heap =
  sorted_scores :: "('k, 's) node list"
  key_index :: "'k \<rightharpoonup> 's \<times> nat"
  random_list :: "'p list"
  key_to_random_list :: "'k \<rightharpoonup> nat"
  next_node :: nat

definition empty_heap :: "('k, 's, 'p) heap" where
  "empty_heap = \<lparr>sorted_scores = [], key_index = Map.empty, random_list = [],
                 key_to_random_list = Map.empty, next_node = 0\<rparr>"

definition node_score :: "('k, 's) node \<Rightarrow> 's" where "node_score n = fst (snd n)"
definition node_key :: "('k, 's) node \<Rightarrow> 'k" where "node_key n = snd (snd n)"

text \<open>A \<open>multimap\<close> ordered by \<open>std::greater\<close> places a new node behind those with an equal key.\<close>

definition emplace :: "nat \<Rightarrow> 's::linorder \<Rightarrow> 'k \<Rightarrow> ('k, 's) node list \<Rightarrow> ('k, 's) node list" where
  "emplace i s k ns = takeWhile (\<lambda>n. s \<le> node_score n) ns @ (i, s, k) # dropWhile (\<lambda>n. s \<le> node_score n) ns"

definition erase :: "nat \<Rightarrow> ('k, 's) node list \<Rightarrow> ('k, 's) node list" where
  "erase i ns = filter (\<lambda>n. fst n \<noteq> i) ns"

definition deref :: "('p \<rightharpoonup> 'k) \<Rightarrow> 'p \<Rightarrow> 'k cxx" where
  "deref mem p = of_optionE Undefined (mem p)"

definition add_random_key :: "'p \<Rightarrow> 'k \<Rightarrow> ('k, 's, 'p) heap \<Rightarrow> ('k, 's, 'p) heap" where
  "add_random_key p key h =
     (let rl = random_list h @ [p]
      in h\<lparr>random_list := rl, key_to_random_list := (key_to_random_list h)(key \<mapsto> length rl - 1)\<rparr>)"

text \<open>\<open>insert(key, score)\<close>, where \<open>p\<close> is the address of the argument \<open>key\<close>.\<close>

definition insert :: "'p \<Rightarrow> 'k \<Rightarrow> 's::linorder \<Rightarrow> ('k, 's, 'p) heap \<Rightarrow> ('k, 's, 'p) heap" where
  "insert p key score h =
     (let isExist = (key_index h key \<noteq> None);
          ss = (case key_index h key of Some (_, it) \<Rightarrow> erase it (sorted_scores h) | None \<Rightarrow> sorted_scores h);
          pos = next_node h;
          h1 = h\<lparr>sorted_scores := emplace pos score key ss, key_index := (key_index h)(key \<mapsto> (score, pos)),
                 next_node := Suc pos\<rparr>
      in if \<not> isExist then add_random_key p key h1 else h1)"

definition maxOne :: "('k, 's, 'p) heap \<Rightarrow> 'k option" where
  "maxOne h = (case sorted_scores h of [] \<Rightarrow> None | n # _ \<Rightarrow> Some (node_key n))"

text \<open>The number the distribution draws is an argument.\<close>

definition randomOne :: "('p \<rightharpoonup> 'k) \<Rightarrow> nat \<Rightarrow> ('k, 's, 'p) heap \<Rightarrow> 'k option cxx" where
  "randomOne mem index h =
     (if sorted_scores h = [] then Inr None
      else bindE (index_at (random_list h) index) (\<lambda>p. bindE (deref mem p) (\<lambda>k. Inr (Some k))))"

text \<open>\<open>index % 0\<close> is undefined.\<close>

definition getKey :: "('p \<rightharpoonup> 'k) \<Rightarrow> nat \<Rightarrow> ('k, 's, 'p) heap \<Rightarrow> 'k option cxx" where
  "getKey mem index h =
     (if sorted_scores h = [] then Inr None
      else if random_list h = [] then Inl Undefined
      else bindE (index_at (random_list h) (index mod length (random_list h)))
             (\<lambda>p. bindE (deref mem p) (\<lambda>k. Inr (Some k))))"

text \<open>
  \<open>key_to_random_list[key]\<close> creates the entry 0 for an unknown key. After \<open>pop_back\<close> the element at
  \<open>pos_key\<close> is read again.
\<close>

definition remove_random_key :: "('p \<rightharpoonup> 'k) \<Rightarrow> 'k \<Rightarrow> ('k, 's, 'p) heap \<Rightarrow> ('k, 's, 'p) heap cxx" where
  "remove_random_key mem key h =
     (let pos_key = (case key_to_random_list h key of Some i \<Rightarrow> i | None \<Rightarrow> 0);
          rl = random_list h
      in bindE (index_at rl pos_key) (\<lambda>p.
         let rl' = butlast (rl[pos_key := last rl, length rl - 1 := p]);
             ktr = (key_to_random_list h)(key := None)
         in bindE (index_at rl' pos_key) (\<lambda>q. bindE (deref mem q) (\<lambda>k.
            Inr (h\<lparr>random_list := rl', key_to_random_list := ktr(k \<mapsto> pos_key)\<rparr>)))))"

definition remove :: "('p \<rightharpoonup> 'k) \<Rightarrow> 'k \<Rightarrow> ('k, 's, 'p) heap \<Rightarrow> ('k, 's, 'p) heap cxx" where
  "remove mem key h =
     remove_random_key mem key
       (case key_index h key of
          Some (_, it) \<Rightarrow> h\<lparr>sorted_scores := erase it (sorted_scores h), key_index := (key_index h)(key := None)\<rparr>
        | None \<Rightarrow> h)"

definition size_of :: "('k, 's, 'p) heap \<Rightarrow> nat" where
  "size_of h = card (dom (key_index h))"

definition clear_heap :: "('k, 's, 'p) heap \<Rightarrow> ('k, 's, 'p) heap" where
  "clear_heap h = h\<lparr>sorted_scores := [], key_index := Map.empty, random_list := [],
                    key_to_random_list := Map.empty\<rparr>"

section \<open>Invariant\<close>

text \<open>
  The scores: the nodes are sorted, have different numbers, and are the entries of the index.
\<close>

definition scores_wf :: "('k, 's::linorder, 'p) heap \<Rightarrow> bool" where
  "scores_wf h \<longleftrightarrow>
     sorted_wrt (\<lambda>m n. node_score n \<le> node_score m) (sorted_scores h) \<and>
     distinct (map fst (sorted_scores h)) \<and>
     (\<forall>n \<in> set (sorted_scores h). fst n < next_node h) \<and>
     (\<forall>i s k. (i, s, k) \<in> set (sorted_scores h) \<longleftrightarrow> key_index h k = Some (s, i))"

text \<open>The random list: its slots hold, one each, the keys of the index, and every key knows its slot.\<close>

definition slots_wf :: "('p \<rightharpoonup> 'k) \<Rightarrow> ('k, 's, 'p) heap \<Rightarrow> bool" where
  "slots_wf mem h \<longleftrightarrow>
     (\<forall>k i. key_to_random_list h k = Some i \<longleftrightarrow> i < length (random_list h) \<and> mem (random_list h ! i) = Some k) \<and>
     (\<forall>i < length (random_list h). mem (random_list h ! i) \<noteq> None) \<and>
     dom (key_to_random_list h) = dom (key_index h)"

definition heap_wf :: "('p \<rightharpoonup> 'k) \<Rightarrow> ('k, 's::linorder, 'p) heap \<Rightarrow> bool" where
  "heap_wf mem h \<longleftrightarrow> scores_wf h \<and> slots_wf mem h"

text \<open>The abstraction: the score of each key.\<close>

definition scores :: "('k, 's, 'p) heap \<Rightarrow> 'k \<rightharpoonup> 's" where
  "scores h k = map_option fst (key_index h k)"

lemma empty_heap_wf: "heap_wf mem empty_heap" "scores empty_heap = Map.empty"
  by (auto simp: heap_wf_def scores_wf_def slots_wf_def empty_heap_def scores_def)

lemma scores_wf_empty: "scores_wf empty_heap"
  by (simp add: scores_wf_def empty_heap_def)

section \<open>Scores\<close>

lemma set_emplace: "set (emplace i s k ns) = Set.insert (i, s, k) (set ns)"
  by (simp add: emplace_def) (metis Un_insert_right set_append takeWhile_dropWhile_id)

lemma map_fst_emplace_distinct:
  "distinct (map fst ns) \<Longrightarrow> i \<notin> fst ` set ns \<Longrightarrow> distinct (map fst (emplace i s k ns))"
proof -
  assume d: "distinct (map fst ns)" and i: "i \<notin> fst ` set ns"
  define xs where "xs = takeWhile (\<lambda>n. s \<le> node_score n) ns"
  define ys where "ys = dropWhile (\<lambda>n. s \<le> node_score n) ns"
  have "ns = xs @ ys" by (simp add: xs_def ys_def)
  with d i have "distinct (map fst xs @ map fst ys)" "i \<notin> fst ` set xs" "i \<notin> fst ` set ys"
    by auto
  then show ?thesis by (simp add: emplace_def flip: xs_def ys_def)
qed

lemma dropWhile_sorted:
  fixes s :: "'s::linorder"
  assumes "sorted_wrt (\<lambda>m n. node_score n \<le> node_score m) ns" "n \<in> set (dropWhile (\<lambda>n. s \<le> node_score n) ns)"
  shows "node_score n < s"
  using assms
  by (induction ns) (auto simp: not_le split: if_splits intro: le_less_trans)

lemma sorted_emplace:
  assumes "sorted_wrt (\<lambda>m n. node_score n \<le> node_score m) ns"
  shows "sorted_wrt (\<lambda>m n. node_score n \<le> node_score m) (emplace i s k ns)"
proof -
  let ?P = "\<lambda>n. s \<le> node_score n" and ?R = "\<lambda>m n. node_score n \<le> node_score m"
  have s: "sorted_wrt ?R (takeWhile ?P ns @ dropWhile ?P ns)" using assms by simp
  have "\<forall>n \<in> set (dropWhile ?P ns). node_score n \<le> s"
    using dropWhile_sorted [OF assms] by (auto intro: less_imp_le)
  moreover have "\<forall>m \<in> set (takeWhile ?P ns). s \<le> node_score m" by (auto dest: set_takeWhileD)
  moreover have "node_score (i, s, k) = s" by (simp add: node_score_def)
  ultimately show ?thesis
    using s unfolding emplace_def sorted_wrt_append by auto
qed

lemma set_erase: "set (erase i ns) = {n \<in> set ns. fst n \<noteq> i}"
  by (simp add: erase_def)

lemma sorted_erase:
  "sorted_wrt R ns \<Longrightarrow> sorted_wrt R (erase i ns)"
  by (simp add: erase_def sorted_wrt_filter)

lemma distinct_erase: "distinct (map fst ns) \<Longrightarrow> distinct (map fst (erase i ns))"
  by (simp add: erase_def distinct_map_filter)

text \<open>Removing the node of a key leaves the nodes of the other keys.\<close>

definition drop_score :: "'k \<Rightarrow> ('k, 's, 'p) heap \<Rightarrow> ('k, 's, 'p) heap" where
  "drop_score key h = (case key_index h key of
     Some (_, it) \<Rightarrow> h\<lparr>sorted_scores := erase it (sorted_scores h), key_index := (key_index h)(key := None)\<rparr>
   | None \<Rightarrow> h)"

lemma scores_wf_drop: "scores_wf h \<Longrightarrow> scores_wf (drop_score key h)"
proof (cases "key_index h key")
  case (Some si)
  assume wf: "scores_wf h"
  obtain s i where si: "si = (s, i)" by fastforce
  have mem: "(i, s, key) \<in> set (sorted_scores h)" using wf Some si by (simp add: scores_wf_def)
  have unique: "n = (i, s, key)" if "n \<in> set (sorted_scores h)" "fst n = i" for n
    using wf mem that by (auto simp: scores_wf_def distinct_map inj_on_def)
  have "(j, t, k) \<in> set (erase i (sorted_scores h)) \<longleftrightarrow> ((key_index h)(key := None)) k = Some (t, j)" for j t k
  proof -
    have "(j, t, k) \<in> set (sorted_scores h) \<longleftrightarrow> key_index h k = Some (t, j)"
      using wf by (simp add: scores_wf_def)
    moreover have "j = i \<Longrightarrow> (j, t, k) \<in> set (sorted_scores h) \<Longrightarrow> k = key"
      using unique [of "(j, t, k)"] by simp
    ultimately show ?thesis using Some si by (auto simp: set_erase)
  qed
  with wf Some si show ?thesis
    by (auto simp: drop_score_def scores_wf_def sorted_erase distinct_erase set_erase)
qed (simp add: drop_score_def)

lemma drop_score_fields [simp]:
  "random_list (drop_score key h) = random_list h"
  "key_to_random_list (drop_score key h) = key_to_random_list h"
  "next_node (drop_score key h) = next_node h"
  "key_index (drop_score key h) = (key_index h)(key := None)"
  by (auto simp: drop_score_def split: option.splits)

lemma insert_eq:
  "insert p key s h =
     (let h0 = drop_score key h;
          h1 = h0\<lparr>sorted_scores := emplace (next_node h) s key (sorted_scores h0),
                  key_index := (key_index h)(key \<mapsto> (s, next_node h)), next_node := Suc (next_node h)\<rparr>
      in if key_index h key = None then add_random_key p key h1 else h1)"
  by (auto simp: insert_def drop_score_def Let_def split: option.splits)

lemma scores_wf_add_random [simp]: "scores_wf (add_random_key p key h) \<longleftrightarrow> scores_wf h"
  by (simp add: scores_wf_def add_random_key_def Let_def)

lemma scores_wf_insert:
  assumes "scores_wf h"
  shows "scores_wf (insert p key s h)"
proof -
  let ?h0 = "drop_score key h"
  let ?ns = "emplace (next_node h) s key (sorted_scores ?h0)"
  have wf: "scores_wf ?h0" by (rule scores_wf_drop [OF assms])
  then have fresh: "next_node h \<notin> fst ` set (sorted_scores ?h0)"
    by (fastforce simp: scores_wf_def)
  have "(j, t, k) \<in> set ?ns \<longleftrightarrow> ((key_index h)(key \<mapsto> (s, next_node h))) k = Some (t, j)" for j t k
    using wf fresh by (force simp: set_emplace scores_wf_def image_iff split: if_splits)
  moreover have "\<forall>n \<in> set ?ns. fst n < Suc (next_node h)"
    using wf by (auto simp: set_emplace scores_wf_def intro: less_SucI)
  moreover have "sorted_wrt (\<lambda>m n. node_score n \<le> node_score m) ?ns" "distinct (map fst ?ns)"
    using wf fresh by (simp_all add: scores_wf_def sorted_emplace map_fst_emplace_distinct)
  ultimately have "scores_wf (?h0\<lparr>sorted_scores := ?ns, key_index := (key_index h)(key \<mapsto> (s, next_node h)),
      next_node := Suc (next_node h)\<rparr>)"
    by (simp add: scores_wf_def)
  then show ?thesis by (simp add: insert_eq Let_def)
qed

lemma scores_insert: "scores (insert p key s h) = (scores h)(key \<mapsto> s)"
  by (rule ext) (simp add: scores_def insert_eq Let_def add_random_key_def)

lemma scores_wf_index: "scores_wf h \<Longrightarrow> key_index h k = Some (s, i) \<longleftrightarrow> (i, s, k) \<in> set (sorted_scores h)"
  by (simp add: scores_wf_def)

lemma maxOne_None: "scores_wf h \<Longrightarrow> maxOne h = None \<longleftrightarrow> scores h = Map.empty"
proof -
  assume wf: "scores_wf h"
  have "scores h k \<noteq> None \<longleftrightarrow> (\<exists>i s. (i, s, k) \<in> set (sorted_scores h))" for k
    using scores_wf_index [OF wf, of k] by (auto simp: scores_def)
  moreover have "maxOne h = None \<longleftrightarrow> sorted_scores h = []" by (simp add: maxOne_def split: list.splits)
  moreover have "sorted_scores h = [] \<longleftrightarrow> (\<forall>i s k. (i, s, k) \<notin> set (sorted_scores h))"
    by (cases "sorted_scores h") auto
  ultimately show ?thesis by (auto simp: fun_eq_iff)
qed

lemma maxOne_Some:
  assumes "scores_wf h" "maxOne h = Some k"
  shows "\<exists>s. scores h k = Some s \<and> (\<forall>k' s'. scores h k' = Some s' \<longrightarrow> s' \<le> s)"
proof -
  obtain i s ns where ns: "sorted_scores h = (i, s, k) # ns"
    using assms(2) by (auto simp: maxOne_def node_key_def split: list.splits)
  have "key_index h k = Some (s, i)" using scores_wf_index [OF assms(1), of k s i] ns by simp
  moreover have "s' \<le> s" if "key_index h k' = Some (s', j)" for k' s' j
  proof -
    have "(j, s', k') \<in> set (sorted_scores h)" using that scores_wf_index [OF assms(1)] by blast
    moreover have "sorted_wrt (\<lambda>m n. node_score n \<le> node_score m) ((i, s, k) # ns)"
      using assms(1) ns by (simp add: scores_wf_def)
    ultimately show ?thesis using ns by (auto simp: node_score_def)
  qed
  ultimately show ?thesis by (auto simp: scores_def)
qed

section \<open>Slots\<close>

lemma slot_of: "slots_wf mem h \<Longrightarrow>
    key_to_random_list h k = Some i \<longleftrightarrow> i < length (random_list h) \<and> mem (random_list h ! i) = Some k"
  by (simp add: slots_wf_def)

lemma slot_live:
  "slots_wf mem h \<Longrightarrow> i < length (random_list h) \<Longrightarrow>
   mem (random_list h ! i) = Some (the (mem (random_list h ! i)))"
  by (simp add: slots_wf_def)

lemma slots_inj:
  assumes "slots_wf mem h" "i < length (random_list h)" "j < length (random_list h)"
    "mem (random_list h ! i) = mem (random_list h ! j)"
  shows "i = j"
proof -
  obtain k where "mem (random_list h ! i) = Some k" using assms(1,2) by (auto simp: slots_wf_def)
  with assms slot_of [OF assms(1), of k] have "key_to_random_list h k = Some i" "key_to_random_list h k = Some j"
    by simp_all
  then show ?thesis by simp
qed

lemma slots_dom: "slots_wf mem h \<Longrightarrow> dom (key_to_random_list h) = dom (key_index h)"
  by (simp add: slots_wf_def)

lemma slots_wf_insert:
  assumes wf: "slots_wf mem h" and p: "mem p = Some key"
  shows "slots_wf mem (insert p key s h)"
proof (cases "key_index h key")
  case None
  let ?h = "insert p key s h"
  have h: "random_list ?h = random_list h @ [p]"
    "key_to_random_list ?h = (key_to_random_list h)(key \<mapsto> length (random_list h))"
    "key_index ?h = (key_index h)(key \<mapsto> (s, next_node h))"
    using None by (simp_all add: insert_eq Let_def add_random_key_def)
  have "key_to_random_list h key = None" using None slots_dom [OF wf] by blast
  then have new: "mem (random_list h ! i) \<noteq> Some key" if "i < length (random_list h)" for i
    using slot_of [OF wf, of key i] that by auto
  have "key_to_random_list ?h k = Some i \<longleftrightarrow> i < length (random_list ?h) \<and> mem (random_list ?h ! i) = Some k" for k i
    using new [of i] slot_of [OF wf, of k i] p by (auto simp: h nth_append less_Suc_eq)
  moreover have "\<forall>i < length (random_list ?h). mem (random_list ?h ! i) \<noteq> None"
    using wf p by (auto simp: h nth_append less_Suc_eq slots_wf_def)
  moreover have "dom (key_to_random_list ?h) = dom (key_index ?h)" using slots_dom [OF wf] by (simp add: h)
  ultimately show ?thesis by (simp add: slots_wf_def)
next
  case (Some si)
  then have "Set.insert key (dom (key_index h)) = dom (key_index h)" by blast
  with Some show ?thesis using wf by (simp add: slots_wf_def insert_eq Let_def)
qed

lemma random_list_length: "slots_wf mem h \<Longrightarrow> length (random_list h) = size_of h"
proof -
  assume wf: "slots_wf mem h"
  have "dom (key_index h) = (\<lambda>i. the (mem (random_list h ! i))) ` {..<length (random_list h)}"
  proof (rule set_eqI)
    fix k
    note some = slot_live [OF wf]
    have "k \<in> dom (key_index h) \<longleftrightarrow> (\<exists>i < length (random_list h). mem (random_list h ! i) = Some k)"
    proof -
      have "k \<in> dom (key_index h) \<longleftrightarrow> (\<exists>i. key_to_random_list h k = Some i)"
        unfolding slots_dom [OF wf, symmetric] by auto
      then show ?thesis by (simp only: slot_of [OF wf])
    qed
    also have "\<dots> \<longleftrightarrow> k \<in> (\<lambda>i. the (mem (random_list h ! i))) ` {..<length (random_list h)}"
    proof
      assume "\<exists>i < length (random_list h). mem (random_list h ! i) = Some k"
      then show "k \<in> (\<lambda>i. the (mem (random_list h ! i))) ` {..<length (random_list h)}"
        by (elim exE conjE, intro image_eqI) simp_all
    next
      assume "k \<in> (\<lambda>i. the (mem (random_list h ! i))) ` {..<length (random_list h)}"
      then obtain i where "i < length (random_list h)" "k = the (mem (random_list h ! i))" by auto
      with some [of i] show "\<exists>i < length (random_list h). mem (random_list h ! i) = Some k" by auto
    qed
    finally show "k \<in> dom (key_index h) \<longleftrightarrow> \<dots>" .
  qed
  moreover have "inj_on (\<lambda>i. the (mem (random_list h ! i))) {..<length (random_list h)}"
  proof (rule inj_onI)
    fix i j
    assume ij: "i \<in> {..<length (random_list h)}" "j \<in> {..<length (random_list h)}"
      "the (mem (random_list h ! i)) = the (mem (random_list h ! j))"
    then have "mem (random_list h ! i) = mem (random_list h ! j)"
      using slot_live [OF wf, of i] slot_live [OF wf, of j] by simp
    with ij show "i = j" by (intro slots_inj [OF wf]) simp_all
  qed
  ultimately show ?thesis by (simp add: size_of_def card_image)
qed

lemma scores_nonempty: "scores_wf h \<Longrightarrow> sorted_scores h = [] \<longleftrightarrow> key_index h = Map.empty"
proof -
  assume wf: "scores_wf h"
  show ?thesis
  proof (cases "sorted_scores h")
    case Nil
    have "key_index h k = None" for k
      using scores_wf_index [OF wf, of k] Nil by (cases "key_index h k") auto
    with Nil show ?thesis by (auto simp: fun_eq_iff)
  next
    case (Cons n ns)
    obtain i s k where "n = (i, s, k)" by (metis prod.exhaust)
    with Cons scores_wf_index [OF wf, of k s i] show ?thesis by auto
  qed
qed

lemma getKey_slot:
  assumes "heap_wf mem h" "key_index h \<noteq> Map.empty"
  shows "getKey mem c h = Inr (mem (random_list h ! (c mod size_of h)))" "0 < size_of h"
proof -
  have wf: "scores_wf h" "slots_wf mem h" using assms(1) by (simp_all add: heap_wf_def)
  obtain k si where "key_index h k = Some si" using assms(2) by (auto simp: fun_eq_iff)
  then have "k \<in> dom (key_to_random_list h)" using slots_dom [OF wf(2)] by blast
  then obtain j where "key_to_random_list h k = Some j" by blast
  then have "j < length (random_list h)" by (simp add: slot_of [OF wf(2)])
  then have ne: "random_list h \<noteq> []" by auto
  then have "0 < length (random_list h)" by simp
  then show pos: "0 < size_of h" using random_list_length [OF wf(2)] by simp
  let ?i = "c mod length (random_list h)"
  have lt: "?i < length (random_list h)" using ne by simp
  then obtain q where q: "mem (random_list h ! ?i) = Some q" using wf(2) by (auto simp: slots_wf_def)
  have "sorted_scores h \<noteq> []" using scores_nonempty [OF wf(1)] assms(2) by simp
  with lt ne q have "getKey mem c h = Inr (mem (random_list h ! ?i))" by (simp add: getKey_def deref_def)
  then show "getKey mem c h = Inr (mem (random_list h ! (c mod size_of h)))"
    by (simp only: random_list_length [OF wf(2)])
qed

text \<open>The code of \<open>remove\<close> behind the search for the key's slot.\<close>

lemma remove_eq:
  "remove mem key h = remove_random_key mem key (drop_score key h)"
  by (simp add: remove_def drop_score_def)

lemma remove_at:
  assumes wf: "slots_wf mem h" and i: "i < length (random_list h)"
    and k: "key_to_random_list h key = Some i \<or> key_to_random_list h key = None \<and> i = 0"
  shows "remove mem key h =
    (let n = length (random_list h) - 1 in
     if i = n then Inl Undefined
     else Inr ((drop_score key h)\<lparr>random_list := take n ((random_list h)[i := random_list h ! n]),
        key_to_random_list := (key_to_random_list h)(key := None, the (mem (random_list h ! n)) \<mapsto> i)\<rparr>))"
proof -
  define n where "n = length (random_list h) - Suc 0"
  let ?rl = "random_list h"
  have pos: "(case key_to_random_list h key of Some i \<Rightarrow> i | None \<Rightarrow> 0) = i" using k by auto
  have n: "n < length ?rl" "last ?rl = ?rl ! n"
    using i last_conv_nth [of ?rl] by (cases ?rl; simp add: n_def)+
  have bl: "butlast (?rl[i := ?rl ! n, n := x]) = take n (?rl[i := ?rl ! n])" for x
    using n by (simp add: butlast_conv_take n_def list_update_beyond)
  obtain q where q: "mem (?rl ! n) = Some q" using wf n by (auto simp: slots_wf_def)
  have start: "remove mem key h = bindE (index_at (take n (?rl[i := ?rl ! n])) i) (\<lambda>q. bindE (deref mem q) (\<lambda>k.
      Inr ((drop_score key h)\<lparr>random_list := take n (?rl[i := ?rl ! n]),
           key_to_random_list := (key_to_random_list h)(key := None, k \<mapsto> i)\<rparr>)))"
    using i by (simp add: remove_eq remove_random_key_def Let_def pos n(2) bl flip: n_def)
  have "length (take n (?rl[i := ?rl ! n])) = n" using n by simp
  moreover have "i < n \<or> i = n" using i by (auto simp: n_def)
  ultimately show ?thesis
    using q n by (auto simp: start index_at_def deref_def Let_def simp flip: n_def)
qed

lemma slots_wf_remove:
  assumes wf: "slots_wf mem h" and i: "key_to_random_list h key = Some i" and n: "i \<noteq> length (random_list h) - 1"
    and r: "remove mem key h = Inr h'"
  shows "slots_wf mem h'"
proof -
  let ?rl = "random_list h"
  define n where "n = length ?rl - Suc 0"
  have il: "i < length ?rl" "mem (?rl ! i) = Some key" using i by (simp_all add: slot_of [OF wf])
  then have n': "n < length ?rl" "i < n" "length ?rl = Suc n" using n by (simp_all add: n_def)
  obtain q where q: "mem (?rl ! n) = Some q" using wf n' by (auto simp: slots_wf_def)
  have qk: "q \<noteq> key" using slots_inj [OF wf il(1) n'(1)] il(2) q n' by auto
  have h': "h' = (drop_score key h)\<lparr>random_list := take n (?rl[i := ?rl ! n]),
      key_to_random_list := (key_to_random_list h)(key := None, q \<mapsto> i)\<rparr>"
    using r n q il i remove_at [OF wf il(1), of key] by (simp add: Let_def flip: n_def)
  have kto: "key_to_random_list h' = (key_to_random_list h)(key := None, q \<mapsto> i)" by (simp add: h')
  have at: "random_list h' ! j = (if j = i then ?rl ! n else ?rl ! j)" "length (random_list h') = n" if "j < n" for j
    using that n' by (simp_all add: h' nth_list_update)
  have len: "length (random_list h') = n" using n' by (simp add: h')
  have kn: "key_to_random_list h q = Some n" using q n' by (simp add: slot_of [OF wf])
  have "key_to_random_list h' k = Some j \<longleftrightarrow> j < n \<and> mem (random_list h' ! j) = Some k" for k j
  proof (cases "j < n")
    case True
    then have "key_to_random_list h k = Some j \<longleftrightarrow> mem (?rl ! j) = Some k"
      using n' by (simp add: slot_of [OF wf])
    with True q qk kn i il show ?thesis by (auto simp: at(1) kto)
  next
    case False
    have "key_to_random_list h k = Some j \<Longrightarrow> j = n"
      using False n'(3) by (simp add: slot_of [OF wf])
    with False q kn n'(2) show ?thesis
      using slot_of [OF wf, of k n] by (auto simp: kto)
  qed
  moreover have "\<forall>j < n. mem (random_list h' ! j) \<noteq> None"
    using wf n' q by (auto simp: at(1) slots_wf_def)
  moreover have "dom (key_to_random_list h') = dom (key_index h')"
    using slots_dom [OF wf] kn qk by (auto simp: h')
  ultimately show ?thesis by (simp add: slots_wf_def len)
qed

lemma scores_drop: "scores (drop_score key h) = (scores h)(key := None)"
  by (rule ext) (simp add: scores_def)

section \<open>Properties\<close>

text \<open>C22: as long as the strings that \<open>insert\<close> was called with stay alive, inserting or updating a
  key keeps the three structures consistent, and sets exactly this key's score.\<close>

theorem heap_insert_updates:
  assumes "heap_wf mem h" and "mem p = Some key"
  shows "heap_wf mem (insert p key s h) \<and> scores (insert p key s h) = (scores h)(key \<mapsto> s)"
  using assms by (simp add: heap_wf_def scores_wf_insert slots_wf_insert scores_insert)

definition demo_heap :: "(string, nat, string) heap" where
  "demo_heap = insert ''b'' ''b'' 7 (insert ''a'' ''a'' 4 empty_heap)"

lemma demo_heap_wf: "heap_wf Some demo_heap"
  by (simp add: demo_heap_def heap_wf_def scores_wf_insert slots_wf_insert empty_heap_wf [unfolded heap_wf_def])

lemma demo_heap_scores: "scores demo_heap = [''a'' \<mapsto> 4, ''b'' \<mapsto> 7]"
  by (simp add: demo_heap_def scores_insert empty_heap_wf)

theorem heap_insert_updates_witness:
  "heap_wf Some (insert ''a'' ''a'' 9 demo_heap) \<and> scores (insert ''a'' ''a'' 9 demo_heap) ''a'' = Some 9"
  using heap_insert_updates [OF demo_heap_wf, of "''a''" "''a''" 9] by simp

text \<open>\<open>maxOne\<close> answers exactly when there is a key, with a key of maximal score.\<close>

theorem maxOne_is_maximal:
  assumes "scores_wf h"
  shows "case maxOne h of
           None \<Rightarrow> scores h = Map.empty
         | Some k \<Rightarrow> \<exists>s. scores h k = Some s \<and> (\<forall>k' s'. scores h k' = Some s' \<longrightarrow> s' \<le> s)"
  using maxOne_None [OF assms] maxOne_Some [OF assms] by (auto split: option.split)

theorem maxOne_is_maximal_witness: "maxOne demo_heap = Some ''b''"
proof -
  have wf: "scores_wf demo_heap" using demo_heap_wf by (simp add: heap_wf_def)
  show ?thesis
  proof (cases "maxOne demo_heap")
    case None
    with maxOne_is_maximal [OF wf] show ?thesis by (simp add: demo_heap_scores)
  next
    case (Some k)
    with maxOne_is_maximal [OF wf] obtain s where
      "scores demo_heap k = Some s" "\<And>k' s'. scores demo_heap k' = Some s' \<Longrightarrow> s' \<le> s" by auto
    from this(1) this(2) [of "''b''" 7] have "k = ''b''"
      by (simp add: demo_heap_scores split: if_splits)
    with Some show ?thesis by simp
  qed
qed

lemma same_residue:
  assumes "c \<le> j" "j < c + n" "c \<le> j'" "j' < c + n" "j mod n = j' mod (n :: nat)" "j \<le> j'"
  shows "j = j'"
proof (rule ccontr)
  assume "j \<noteq> j'"
  then have "0 < j' - j" "j' - j < n" using assms by auto
  moreover have "n dvd j' - j" using assms(5,6) by (simp add: mod_eq_dvd_iff_nat [symmetric])
  ultimately show False using nat_dvd_not_less by blast
qed

lemma unique_residue:
  assumes "i < (n :: nat)"
  shows "\<exists>!j. c \<le> j \<and> j < c + n \<and> j mod n = i"
proof (rule ex_ex1I)
  have n: "0 < n" using assms by simp
  have lt: "c mod n < n" using n by simp
  let ?j = "c + (i + n - c mod n) mod n"
  have "?j mod n = (c mod n + (i + n - c mod n)) mod n" by (simp add: mod_simps)
  also have "c mod n + (i + n - c mod n) = i + n" using lt by linarith
  finally have "?j mod n = i" using assms by simp
  then show "\<exists>j. c \<le> j \<and> j < c + n \<and> j mod n = i" using n by (intro exI [of _ ?j]) simp
next
  fix j j'
  assume "c \<le> j \<and> j < c + n \<and> j mod n = i" "c \<le> j' \<and> j' < c + n \<and> j' mod n = i"
  then show "j = j'" using same_residue [of c j n j'] same_residue [of c j' n j] by linarith
qed

lemma getKey_unique:
  assumes "heap_wf mem h" and "scores h k \<noteq> None"
  shows "\<exists>!i. c \<le> i \<and> i < c + size_of h \<and> getKey mem i h = Inr (Some k)"
proof -
  have wf: "slots_wf mem h" using assms(1) by (simp add: heap_wf_def)
  have ki: "key_index h k \<noteq> None" using assms(2) by (simp add: scores_def)
  then have ne: "key_index h \<noteq> Map.empty" by auto
  have "k \<in> dom (key_to_random_list h)" using ki slots_dom [OF wf] by blast
  then obtain s where s: "key_to_random_list h k = Some s" by blast
  then have sl: "s < size_of h" "mem (random_list h ! s) = Some k"
    using random_list_length [OF wf] by (simp_all add: slot_of [OF wf])
  have "getKey mem i h = Inr (Some k) \<longleftrightarrow> i mod size_of h = s" for i
  proof -
    have "i mod size_of h < length (random_list h)"
      using getKey_slot(2) [OF assms(1) ne] random_list_length [OF wf] by simp
    then have "mem (random_list h ! (i mod size_of h)) = Some k \<longleftrightarrow> i mod size_of h = s"
      using s slot_of [OF wf, of k "i mod size_of h"] by auto
    then show ?thesis by (simp add: getKey_slot(1) [OF assms(1) ne])
  qed
  then show ?thesis using unique_residue [OF sl(1), of c] by simp
qed

text \<open>A run of consecutive indices as long as the heap returns every key exactly once from
  \<open>getKey\<close>, wherever it starts: round robin is fair.\<close>

theorem getKey_round_robin:
  assumes "heap_wf mem h" and "scores h k \<noteq> None"
  shows "\<exists>!i. c \<le> i \<and> i < c + size_of h \<and> getKey mem i h = Inr (Some k)"
  using assms by (rule getKey_unique)

theorem getKey_round_robin_witness:
  "\<exists>!i. 5 \<le> i \<and> i < 5 + size_of demo_heap \<and> getKey Some i demo_heap = Inr (Some ''a'')"
  by (rule getKey_round_robin [OF demo_heap_wf]) (simp add: demo_heap_scores)

text \<open>Removing a key that is not in the last slot deletes exactly its score and keeps the
  structures consistent. Removing the key in the last slot, in particular the only key, reads past the
  end of the vector. Removing an unknown key throws the key in slot 0 out of the random list, where
  round robin and random choice do not find it any more, although it keeps its score.\<close>

theorem heap_remove_outcomes:
  assumes "heap_wf mem h" and "key_index h \<noteq> Map.empty"
  shows "(case key_to_random_list h key of
           Some i \<Rightarrow>
             if i = size_of h - 1 then remove mem key h = Inl Undefined
             else \<exists>h'. remove mem key h = Inr h' \<and> heap_wf mem h' \<and> scores h' = (scores h)(key := None)
         | None \<Rightarrow>
             if size_of h = 1 then remove mem key h = Inl Undefined
             else \<exists>h'. remove mem key h = Inr h' \<and> scores h' = scores h \<and>
                    length (random_list h') = size_of h - 1 \<and> random_list h ! 0 \<notin> set (random_list h'))"
proof -
  have wf: "scores_wf h" "slots_wf mem h" using assms(1) by (simp_all add: heap_wf_def)
  note len = random_list_length [OF wf(2)]
  have pos: "0 < length (random_list h)" using getKey_slot(2) [OF assms] len by simp
  show ?thesis
  proof (cases "key_to_random_list h key")
    case (Some i)
    then have i: "i < length (random_list h)" by (simp add: slot_of [OF wf(2)])
    show ?thesis
    proof (cases "i = size_of h - 1")
      case True
      with Some i remove_at [OF wf(2) i, of key] len show ?thesis by (simp add: Let_def)
    next
      case False
      with Some i len remove_at [OF wf(2) i, of key] obtain h' where r: "remove mem key h = Inr h'"
        and h': "sorted_scores h' = sorted_scores (drop_score key h)" "key_index h' = (key_index h)(key := None)"
          "next_node h' = next_node h"
        by (simp add: Let_def)
      have "slots_wf mem h'" using slots_wf_remove [OF wf(2) Some _ r] False len by simp
      moreover have "scores_wf h'"
        using scores_wf_drop [OF wf(1), of key] by (simp add: scores_wf_def h')
      moreover have "scores h' = (scores h)(key := None)" by (rule ext) (simp add: scores_def h')
      ultimately show ?thesis using Some False r by (simp add: heap_wf_def)
    qed
  next
    case None
    then have ki: "key_index h key = None" using slots_dom [OF wf(2)] by blast
    show ?thesis
    proof (cases "size_of h = 1")
      case True
      with None remove_at [OF wf(2) pos, of key] len show ?thesis by simp
    next
      case False
      define n where "n = length (random_list h) - Suc 0"
      have n: "0 < n" "n < length (random_list h)" using False len pos by (simp_all add: n_def)
      let ?rl = "take n ((random_list h)[0 := random_list h ! n])"
      have "random_list h ! 0 \<noteq> ?rl ! j" if "j < n" for j
      proof (cases "j = 0")
        case True
        have "(random_list h)[0 := random_list h ! n] ! 0 = random_list h ! n"
          using n by (intro nth_list_update_eq) (rule less_trans)
        moreover have "random_list h ! 0 \<noteq> random_list h ! n"
          using n slots_inj [OF wf(2) pos n(2)] by auto
        ultimately show ?thesis using True n by simp
      next
        case False
        then show ?thesis using that n slots_inj [OF wf(2) pos, of j] by auto
      qed
      then have "random_list h ! 0 \<notin> set ?rl" using n by (fastforce simp: in_set_conv_nth)
      moreover have "drop_score key h = h" using ki by (simp add: drop_score_def)
      ultimately show ?thesis
        using None False n remove_at [OF wf(2) pos, of key] len
        by (auto simp: Let_def scores_def fun_eq_iff n_def)
    qed
  qed
qed

theorem heap_remove_outcomes_witness:
  "remove Some ''b'' demo_heap = Inl Undefined \<and>
   (\<exists>h'. remove Some ''a'' demo_heap = Inr h' \<and> scores h' = [''b'' \<mapsto> 7])"
proof -
  have k: "key_to_random_list demo_heap ''a'' = Some 0" "key_to_random_list demo_heap ''b'' = Some 1"
    by (simp_all add: demo_heap_def insert_def add_random_key_def empty_heap_def Let_def)
  have ne: "key_index demo_heap \<noteq> Map.empty"
    by (simp add: demo_heap_def insert_def add_random_key_def empty_heap_def Let_def)
  have sz: "size_of demo_heap = 2"
    by (simp add: size_of_def demo_heap_def insert_def add_random_key_def empty_heap_def Let_def)
  have upd: "(scores demo_heap)(''a'' := None) = [''b'' \<mapsto> 7]"
    by (auto simp: demo_heap_scores)
  show ?thesis
    using heap_remove_outcomes [OF demo_heap_wf ne, of "''a''"] heap_remove_outcomes [OF demo_heap_wf ne, of "''b''"]
    by (auto simp: k sz upd)
qed

text \<open>The random list follows the addresses \<open>insert\<close> was called with: once the string at such an
  address is gone, the indices that lead there read a dead object.\<close>

theorem dead_key_is_read:
  assumes "heap_wf mem h" and "key_index h \<noteq> Map.empty" and "mem' (random_list h ! (c mod size_of h)) = None"
  shows "getKey mem' c h = Inl Undefined \<and> randomOne mem' (c mod size_of h) h = Inl Undefined"
proof -
  have wf: "scores_wf h" "slots_wf mem h" using assms(1) by (simp_all add: heap_wf_def)
  have len: "length (random_list h) = size_of h" by (rule random_list_length [OF wf(2)])
  have pos: "0 < size_of h" by (rule getKey_slot(2) [OF assms(1,2)])
  then have "random_list h \<noteq> []" "c mod size_of h < length (random_list h)" using len by auto
  then show ?thesis
    using assms(3) scores_nonempty [OF wf(1)] assms(2) by (simp add: getKey_def randomOne_def deref_def len)
qed

theorem dead_key_is_read_witness: "getKey Map.empty 0 demo_heap = Inl Undefined"
proof -
  have "key_index demo_heap \<noteq> Map.empty"
    by (simp add: demo_heap_def insert_def add_random_key_def empty_heap_def Let_def)
  from dead_key_is_read [OF demo_heap_wf this, of Map.empty 0] show ?thesis by simp
qed

section \<open>The best key as an interface\<close>

text \<open>
  What the best-score strategy relies on: a map of scores that is updated one key at a time, and a
  best key. Its client lemma is about a whole history of updates.
\<close>

definition apply_updates :: "('k \<Rightarrow> 's \<Rightarrow> 'h \<Rightarrow> 'h) \<Rightarrow> ('k \<times> 's) list \<Rightarrow> 'h \<Rightarrow> 'h" where
  "apply_updates update us h = fold (\<lambda>(k, s). update k s) us h"

locale ranking =
  fixes inv :: "'h \<Rightarrow> bool"
    and score_map :: "'h \<Rightarrow> 'k \<rightharpoonup> 's::linorder"
    and update :: "'k \<Rightarrow> 's \<Rightarrow> 'h \<Rightarrow> 'h"
    and best :: "'h \<Rightarrow> 'k option"
  assumes update_inv: "inv h \<Longrightarrow> inv (update k s h)"
    and update_score_map: "inv h \<Longrightarrow> score_map (update k s h) = (score_map h)(k \<mapsto> s)"
    and best_None: "inv h \<Longrightarrow> best h = None \<Longrightarrow> score_map h = Map.empty"
    and best_Some: "inv h \<Longrightarrow> best h = Some k \<Longrightarrow>
      \<exists>s. score_map h k = Some s \<and> (\<forall>k' s'. score_map h k' = Some s' \<longrightarrow> s' \<le> s)"
begin

lemma updates_inv: "inv h \<Longrightarrow> inv (apply_updates update us h)"
  by (induction us arbitrary: h) (auto simp: apply_updates_def update_inv)

lemma updates_score_map: "inv h \<Longrightarrow> score_map (apply_updates update us h) = score_map h ++ map_of (rev us)"
proof (induction us arbitrary: h)
  case (Cons u us)
  obtain k s where u: "u = (k, s)" by fastforce
  have "score_map (apply_updates update us (update k s h)) = (score_map h)(k \<mapsto> s) ++ map_of (rev us)"
    using Cons by (simp only: update_inv update_score_map)
  then show ?case by (auto simp: apply_updates_def u map_add_def fun_eq_iff map_of_append split: option.splits)
qed (simp add: apply_updates_def)

text \<open>The best key after a history has the largest of the scores written last for each key.\<close>

lemma best_after_updates:
  assumes "inv h" "score_map h = Map.empty" "best (apply_updates update us h) = Some k"
  shows "\<exists>s. map_of (rev us) k = Some s \<and> (\<forall>k' s'. map_of (rev us) k' = Some s' \<longrightarrow> s' \<le> s)"
  using best_Some [OF updates_inv [OF assms(1)] assms(3)] updates_score_map [OF assms(1)] assms(2) by simp

lemma best_exists: "inv h \<Longrightarrow> us \<noteq> [] \<Longrightarrow> best (apply_updates update us h) \<noteq> None"
proof
  assume inv: "inv h" and us: "us \<noteq> []" and n: "best (apply_updates update us h) = None"
  obtain k s where "(k, s) \<in> set us" using us by (cases us) auto
  then have "k \<in> fst ` set (rev us)" by force
  then have "map_of (rev us) k \<noteq> None" by (simp add: map_of_eq_None_iff)
  moreover have "score_map (apply_updates update us h) k = None" using best_None [OF updates_inv [OF inv] n] by simp
  ultimately show False using updates_score_map [OF inv] by (auto simp: map_add_def split: option.splits)
qed

end

interpretation by_score: ranking scores_wf scores "insert p" maxOne for p
  by unfold_locales (auto simp: scores_wf_insert scores_insert maxOne_None dest: maxOne_Some)

end
