(* ===== verification/Load_Balancer.thy ===== *)
theory Load_Balancer
  imports Hash_Heap
begin

text \<open>
  include/Rpc/load_balancer.h and src/Rpc/load_balancer.cc: the three strategies and the factory that
  finds a strategy by name. \<open>counter\<close> of the round robin strategy is an atomic \<open>size_t\<close>.
\<close>

section \<open>Strategies\<close>

definition RandomRule_select :: "('p \<rightharpoonup> 'k) \<Rightarrow> nat \<Rightarrow> ('k, 's, 'p) heap \<Rightarrow> 'k option cxx" where
  "RandomRule_select mem draw endpoints = randomOne mem draw endpoints"

definition BestScore_select :: "('k, 's, 'p) heap \<Rightarrow> 'k option" where
  "BestScore_select endpoints = maxOne endpoints"

text \<open>
  \<open>RoundRobinBalancer::select\<close>: load the counter, try to replace it by its successor, and start again
  when another thread was faster (or the weak exchange fails for no reason). A thread is at the top of
  the loop or has loaded \<open>key\<close>; \<open>claimed\<close> is the list of the keys the exchanges succeeded with.
\<close>

datatype select_pc = Top | Loaded u64

record round_robin =
  counter :: u64
  pcs :: "nat \<Rightarrow> select_pc"
  claimed :: "u64 list"

inductive rr_step :: "round_robin \<Rightarrow> round_robin \<Rightarrow> bool" where
  Load: "pcs s t = Top \<Longrightarrow> rr_step s (s\<lparr>pcs := (pcs s)(t := Loaded (counter s))\<rparr>)"
| Exchange: "pcs s t = Loaded key \<Longrightarrow> counter s = key \<Longrightarrow>
    rr_step s (s\<lparr>counter := key + 1, pcs := (pcs s)(t := Top), claimed := claimed s @ [key]\<rparr>)"
| Exchange_fails: "pcs s t = Loaded key \<Longrightarrow> rr_step s (s\<lparr>pcs := (pcs s)(t := Top)\<rparr>)"

inductive rr_reachable :: "round_robin \<Rightarrow> bool" where
  Start: "rr_reachable \<lparr>counter = 0, pcs = (\<lambda>_. Top), claimed = []\<rparr>"
| Step: "rr_reachable s \<Longrightarrow> rr_step s s' \<Longrightarrow> rr_reachable s'"

text \<open>One call without interference.\<close>

definition RoundRobin_select :: "('p \<rightharpoonup> 'k) \<Rightarrow> ('k, 's, 'p) heap \<Rightarrow> u64 \<Rightarrow> 'k option cxx \<times> u64" where
  "RoundRobin_select mem endpoints cnt = (getKey mem (unat cnt) endpoints, cnt + 1)"

fun selects :: "nat \<Rightarrow> ('p \<rightharpoonup> 'k) \<Rightarrow> ('k, 's, 'p) heap \<Rightarrow> u64 \<Rightarrow> 'k option cxx list" where
  "selects 0 mem endpoints cnt = []"
| "selects (Suc n) mem endpoints cnt =
     (case RoundRobin_select mem endpoints cnt of (r, cnt') \<Rightarrow> r # selects n mem endpoints cnt')"

section \<open>Factory\<close>

text \<open>
  The registry is a hash map; the list holds its entries in iteration order, which the language does
  not fix. \<open>registerType\<close> overwrites an entry or puts a new one somewhere.
\<close>

type_synonym 'c registry = "(string \<times> 'c) list"

definition starts_with :: "string \<Rightarrow> string \<Rightarrow> bool" where
  "starts_with s p \<longleftrightarrow> take (length p) s = p"

fun checkType :: "'c registry \<Rightarrow> string \<Rightarrow> string option" where
  "checkType [] type = None"
| "checkType ((name, c) # reg) type =
     (if \<not> starts_with type name \<and> \<not> starts_with name type then checkType reg type else Some name)"

text \<open>
  \<open>registerType\<close> at the place \<open>pos\<close> of the iteration order that the hash gives. The three classes register
  themselves when the program starts.
\<close>

definition registerType :: "nat \<Rightarrow> string \<Rightarrow> 'c \<Rightarrow> 'c registry \<Rightarrow> 'c registry" where
  "registerType pos name creator reg =
     (if name \<in> set (map fst reg) then map (\<lambda>(n, c). (n, if n = name then creator else c)) reg
      else take pos reg @ (name, creator) # drop pos reg)"

datatype balancer = RandomRuleBalancer | RoundRobinBalancer | BestScoreBalancer

definition registy :: "nat \<Rightarrow> nat \<Rightarrow> balancer registry" where
  "registy p q =
     registerType q ''bestscore'' BestScoreBalancer (registerType p ''roundrobin'' RoundRobinBalancer
       (registerType 0 ''random'' RandomRuleBalancer []))"

text \<open>\<open>char\<close> is signed: bytes from 128 on are below \<open>'a'\<close> too.\<close>

definition below_a :: "char \<Rightarrow> bool" where
  "below_a ch \<longleftrightarrow> (of_char ch :: nat) < 97 \<or> 128 \<le> (of_char ch :: nat)"

definition shift_char :: "char \<Rightarrow> char" where
  "shift_char ch = char_of ((of_char ch + 32) mod (256 :: nat))"

definition fold_case :: "string \<Rightarrow> string" where
  "fold_case type = map shift_char (filter below_a type)"

definition create :: "'c registry \<Rightarrow> string \<Rightarrow> 'c option" where
  "create reg type = (case checkType reg (fold_case type) of Some n \<Rightarrow> map_of reg n | None \<Rightarrow> None)"

section \<open>Properties\<close>

lemma rr_invariant:
  "rr_reachable s \<Longrightarrow> counter s = word_of_nat (length (claimed s)) \<and>
     claimed s = map word_of_nat [0..<length (claimed s)]"
proof (induction rule: rr_reachable.induct)
  case (Step s s')
  from Step(2,3) show ?case by (cases rule: rr_step.cases) auto
qed simp

text \<open>Whatever the interleaving of the threads, the keys the calls claim are 0, 1, 2, ... in this
  order, none twice and none left out, until the counter wraps after \<open>2^64\<close> calls.\<close>

theorem round_robin_claims_in_order:
  assumes "rr_reachable s"
  shows "claimed s = map word_of_nat [0..<length (claimed s)] \<and>
         (length (claimed s) \<le> 2 ^ 64 \<longrightarrow> distinct (claimed s))"
proof -
  have "inj_on (word_of_nat :: nat \<Rightarrow> u64) {0..<2 ^ 64}"
    by (rule inj_onI) (simp add: unat_of_nat word_unat_eq_iff)
  then have "distinct (map (word_of_nat :: nat \<Rightarrow> u64) [0..<n])" if "n \<le> 2 ^ 64" for n
    using that by (auto simp: distinct_map intro: inj_on_subset)
  then show ?thesis using rr_invariant [OF assms] by metis
qed

text \<open>Two threads load the same key; the slower one has to start again.\<close>

lemma demo_rr: "rr_reachable \<lparr>counter = 1, pcs = (\<lambda>_. Top), claimed = [0]\<rparr>"
proof -
  let ?s = "\<lparr>counter = 0, pcs = (\<lambda>_. Top), claimed = []\<rparr>"
  have "rr_reachable (?s\<lparr>pcs := (pcs ?s)(0 := Loaded (counter ?s))\<rparr>)"
    by (rule Step [OF Start Load]) simp
  from Step [OF this Exchange, of 0 0] show ?thesis by (simp add: fun_upd_idem)
qed

theorem round_robin_claims_in_order_witness:
  "claimed \<lparr>counter = 1, pcs = (\<lambda>_. Top), claimed = [0]\<rparr> = map word_of_nat [0..<1]"
  using round_robin_claims_in_order [OF demo_rr] by simp

lemma selects_eq:
  "unat cnt + n < 2 ^ 64 \<Longrightarrow>
   selects n mem endpoints cnt = map (\<lambda>i. getKey mem i endpoints) [unat cnt..<unat cnt + n]"
proof (induction n arbitrary: cnt)
  case (Suc n)
  then have "unat (cnt + 1) = Suc (unat cnt)" by (simp add: unat_word_ariths)
  then show ?case using Suc by (simp add: RoundRobin_select_def upt_conv_Cons del: upt_Suc)
qed simp

lemma count_map_unique:
  "\<exists>!i. a \<le> i \<and> i < b \<and> f i = x \<Longrightarrow> count_list (map f [a..<b]) x = 1"
proof -
  assume u: "\<exists>!i. a \<le> i \<and> i < b \<and> f i = x"
  then obtain i where i: "a \<le> i" "i < b" "f i = x" by auto
  have split: "[a..<b] = [a..<i] @ i # [Suc i..<b]"
    using i by (metis upt_add_eq_append upt_conv_Cons le_add_diff_inverse2 less_imp_le_nat le_add_diff_inverse)
  have ne: "f j \<noteq> x" if "a \<le> j" "j < b" "j \<noteq> i" for j using u i that by blast
  have "x \<notin> f ` {a..<i}" "x \<notin> f ` {Suc i..<b}"
  proof
    assume "x \<in> f ` {a..<i}"
    then obtain j where "x = f j" "a \<le> j" "j < i" by auto
    with ne [of j] i show False by simp
  next
    show "x \<notin> f ` {Suc i..<b}"
    proof
      assume "x \<in> f ` {Suc i..<b}"
      then obtain j where "x = f j" "Suc i \<le> j" "j < b" by auto
      with ne [of j] i show False by simp
    qed
  qed
  with i show ?thesis by (simp add: split count_notin)
qed

text \<open>As many calls in a row as there are endpoints select every endpoint exactly once, from any
  value of the counter that does not wrap meanwhile.\<close>

theorem round_robin_serves_all:
  assumes "heap_wf mem endpoints" and "scores endpoints k \<noteq> None"
    and "unat cnt + size_of endpoints < 2 ^ 64"
  shows "count_list (selects (size_of endpoints) mem endpoints cnt) (Inr (Some k)) = 1"
  using count_map_unique [OF getKey_unique [OF assms(1,2), of "unat cnt"]]
  by (simp only: selects_eq [OF assms(3)])

theorem round_robin_serves_all_witness:
  "count_list (selects (size_of demo_heap) Some demo_heap 41) (Inr (Some ''a'')) = 1"
proof -
  have "size_of demo_heap = 2"
    by (simp add: size_of_def demo_heap_def insert_def add_random_key_def empty_heap_def Let_def)
  then show ?thesis
    by (intro round_robin_serves_all [OF demo_heap_wf]) (simp_all add: demo_heap_scores)
qed

text \<open>After any history of score updates of a fresh list, the best-score strategy selects an
  endpoint whose last score is the largest of the last scores.\<close>

theorem best_score_selects_best:
  assumes "us \<noteq> []"
  shows "\<exists>k s. BestScore_select (apply_updates (insert p) us empty_heap) = Some k \<and>
           map_of (rev us) k = Some s \<and> (\<forall>k' s'. map_of (rev us) k' = Some s' \<longrightarrow> s' \<le> s)"
proof -
  note e = scores_wf_empty empty_heap_wf(2)
  obtain k where k: "maxOne (apply_updates (insert p) us empty_heap) = Some k"
    using by_score.best_exists [OF e(1) assms, of p] by auto
  from by_score.best_after_updates [OF e k] k show ?thesis by (auto simp: BestScore_select_def)
qed

theorem best_score_selects_best_witness:
  "\<exists>k s. BestScore_select (apply_updates (insert ()) [(''a'', 4 :: nat), (''b'', 7), (''a'', 9)] empty_heap) = Some k \<and>
     map_of (rev [(''a'', 4 :: nat), (''b'', 7), (''a'', 9)]) k = Some s \<and>
     (\<forall>k' s'. map_of (rev [(''a'', 4 :: nat), (''b'', 7), (''a'', 9)]) k' = Some s' \<longrightarrow> s' \<le> s)"
  by (rule best_score_selects_best) simp

lemma fold_case_lower: "list_all (\<lambda>c. 97 \<le> (of_char c :: nat) \<and> (of_char c :: nat) < 128) type \<Longrightarrow> fold_case type = []"
  by (induction type) (auto simp: fold_case_def below_a_def)

text \<open>The factory is meant to fold the case of a type name; it keeps only the characters below
  \<open>'a'\<close>, shifted by 32. A name in upper case finds the entry of its lower-case form, but every name in
  lower case, such as \<open>"bestscore"\<close>, becomes empty and gives whatever entry the hash map yields first.\<close>

theorem lower_case_type_gives_first:
  assumes "list_all (\<lambda>c. 97 \<le> (of_char c :: nat) \<and> (of_char c :: nat) < 128) type"
  shows "create reg type = (case reg of [] \<Rightarrow> None | (name, c) # _ \<Rightarrow> Some c)"
  using fold_case_lower [OF assms] by (simp add: create_def starts_with_def split: list.split)

text \<open>With the registered classes, in whatever order the hash map lists them: the names in upper case give
  their balancers, a name in lower case gives the first of the list, and an unknown name nothing.\<close>

lemma registy_orders:
  "registy p q \<in> {[(''bestscore'', BestScoreBalancer), (''roundrobin'', RoundRobinBalancer), (''random'', RandomRuleBalancer)],
    [(''roundrobin'', RoundRobinBalancer), (''bestscore'', BestScoreBalancer), (''random'', RandomRuleBalancer)],
    [(''roundrobin'', RoundRobinBalancer), (''random'', RandomRuleBalancer), (''bestscore'', BestScoreBalancer)],
    [(''bestscore'', BestScoreBalancer), (''random'', RandomRuleBalancer), (''roundrobin'', RoundRobinBalancer)],
    [(''random'', RandomRuleBalancer), (''bestscore'', BestScoreBalancer), (''roundrobin'', RoundRobinBalancer)],
    [(''random'', RandomRuleBalancer), (''roundrobin'', RoundRobinBalancer), (''bestscore'', BestScoreBalancer)]}"
proof -
  have two: "take q [x, y] @ z # drop q [x, y] \<in> {[z, x, y], [x, z, y], [x, y, z]}" for x y z :: "string \<times> balancer"
    by (cases q; cases "q - 1") (auto simp: take_Cons' drop_Cons')
  have one: "take p [x] @ y # drop p [x] \<in> {[y, x], [x, y]}" for x y :: "string \<times> balancer"
    by (cases p) auto
  have "registerType 0 ''random'' RandomRuleBalancer [] = [(''random'', RandomRuleBalancer)]"
    by (simp add: registerType_def)
  then have "registerType p ''roundrobin'' RoundRobinBalancer (registerType 0 ''random'' RandomRuleBalancer []) \<in>
      {[(''roundrobin'', RoundRobinBalancer), (''random'', RandomRuleBalancer)],
       [(''random'', RandomRuleBalancer), (''roundrobin'', RoundRobinBalancer)]}"
    using one [of "(''random'', RandomRuleBalancer)" "(''roundrobin'', RoundRobinBalancer)"] by (auto simp: registerType_def)
  then consider
      "registy p q = registerType q ''bestscore'' BestScoreBalancer [(''roundrobin'', RoundRobinBalancer), (''random'', RandomRuleBalancer)]"
    | "registy p q = registerType q ''bestscore'' BestScoreBalancer [(''random'', RandomRuleBalancer), (''roundrobin'', RoundRobinBalancer)]"
    by (auto simp: registy_def)
  then show ?thesis
    using two [of "(''roundrobin'', RoundRobinBalancer)" "(''random'', RandomRuleBalancer)" "(''bestscore'', BestScoreBalancer)"]
      two [of "(''random'', RandomRuleBalancer)" "(''roundrobin'', RoundRobinBalancer)" "(''bestscore'', BestScoreBalancer)"]
    by cases (simp_all add: registerType_def, auto)
qed

theorem registered_balancers:
  "create (registy p q) ''RANDOM'' = Some RandomRuleBalancer \<and> create (registy p q) ''ROUNDROBIN'' = Some RoundRobinBalancer \<and>
   create (registy p q) ''BESTSCORE'' = Some BestScoreBalancer \<and> create (registy p q) ''SCORE'' = None \<and>
   create (registy p q) ''score'' = Some (snd (hd (registy p q)))"
proof -
  have "fold_case ''RANDOM'' = ''random'' \<and> fold_case ''ROUNDROBIN'' = ''roundrobin'' \<and> fold_case ''BESTSCORE'' = ''bestscore'' \<and>
      fold_case ''SCORE'' = ''score'' \<and> fold_case ''score'' = []"
    by code_simp
  then show ?thesis
    using registy_orders [of p q] by (auto simp: create_def starts_with_def)
qed

definition demo_registry :: "nat registry" where
  "demo_registry = [(''roundrobin'', 0), (''random'', 1), (''bestscore'', 2)]"

theorem lower_case_type_gives_first_witness:
  "create demo_registry ''bestscore'' = Some 0 \<and> create demo_registry ''BESTSCORE'' = Some 2"
proof
  show "create demo_registry ''bestscore'' = Some 0"
    by (subst lower_case_type_gives_first) (simp_all add: demo_registry_def)
  show "create demo_registry ''BESTSCORE'' = Some 2"
    by code_simp
qed

end
