(* ===== verification/Service_Seeker.thy ===== *)
theory Service_Seeker
  imports Net_Base Hash_Heap
begin

text \<open>
  The class \<open>ServiceSeeker\<close> of include/Rpc/service_seeker.h and src/Rpc/service_seeker.cc: the nodes of
  the watched services, kept up to date by the events of an etcd watcher. Every operation holds
  \<open>_watch_mtx\<close>, so each is one step. Parameters: the generated parser of \<open>RpcNodeInfo\<close>, the rounding to
  \<open>float\<close>, the answer of \<open>etcd::Client::ls\<close>, and the load balancer.

  The objects behind \<open>ServiceEndpoint::addr\<close> are explicit: \<open>store\<close> maps the addresses of the live
  \<open>InetAddr\<close> objects to their values, \<open>new\<close> takes a fresh one, and deleting or reading an address that
  is not live is undefined. \<open>ServiceEndpoint\<close> declares a destructor that deletes \<open>addr\<close> and no copy or
  move operation, so every copy or "move" copies the pointer. The local strings \<open>node_name\<close>, whose
  addresses \<open>HashHeap::insert\<close> keeps, live for one round of the loop.
\<close>

section \<open>State\<close>

record 's node_ep = "'s service_endpoint" +
  addr :: "nat option"

record 's meta =
  nodes_pond :: "string \<rightharpoonup> 's node_ep"
  node_list :: "(string, 's, nat) heap"

record 's seeker =
  endpoint_map :: "string \<rightharpoonup> 's meta"
  store :: "nat \<rightharpoonup> inet_addr_t"
  next_addr :: nat
  next_string :: nat

definition ServiceSeeker :: "'s seeker" where
  "ServiceSeeker = \<lparr>endpoint_map = Map.empty, store = Map.empty, next_addr = 0, next_string = 0\<rparr>"

section \<open>Objects\<close>

definition new_addr :: "inet_addr_t \<Rightarrow> ('s seeker, nat) sm" where
  "new_addr a s = (Inr (next_addr s), s\<lparr>store := (store s)(next_addr s \<mapsto> a), next_addr := Suc (next_addr s)\<rparr>)"

definition delete_addr :: "nat option \<Rightarrow> ('s seeker, unit) sm" where
  "delete_addr p s =
     (case p of
        None \<Rightarrow> (Inr (), s)
      | Some a \<Rightarrow> if store s a = None then (Inl Undefined, s) else (Inr (), s\<lparr>store := (store s)(a := None)\<rparr>))"

definition destroy_endpoint :: "'s node_ep \<Rightarrow> ('s seeker, unit) sm" where
  "destroy_endpoint ep = delete_addr (addr ep)"

text \<open>\<open>parserNodeFromEtcd\<close> into an endpoint: all its fields are overwritten, the old \<open>addr\<close> is dropped.\<close>

definition parse_endpoint ::
  "(bytes \<Rightarrow> rpc_node_info) \<Rightarrow> (rat \<Rightarrow> 's) \<Rightarrow> bytes \<Rightarrow> ('s seeker, 's node_ep) sm" where
  "parse_endpoint ParseFromString float_of v =
     (case parserNodeFromEtcd ParseFromString float_of v of (e, a) \<Rightarrow>
        sbind (new_addr a) (\<lambda>p. sret \<lparr>active_conns = active_conns e, max_conns = max_conns e,
                                      load_score = load_score e, addr = Some p\<rparr>))"

section \<open>Keys\<close>

text \<open>\<open>find\<close> and \<open>rfind\<close> of a character, converted to \<open>int\<close>: -1 when it is not there.\<close>

fun find_in :: "char \<Rightarrow> string \<Rightarrow> nat \<Rightarrow> int" where
  "find_in c [] i = -1"
| "find_in c (x # xs) i = (if x = c then int i else find_in c xs (Suc i))"

definition find_from :: "char \<Rightarrow> string \<Rightarrow> nat \<Rightarrow> int" where
  "find_from c s i = find_in c (drop i s) i"

fun rfind_below :: "char \<Rightarrow> string \<Rightarrow> nat \<Rightarrow> int" where
  "rfind_below c s 0 = -1"
| "rfind_below c s (Suc i) = (if s ! i = c then int i else rfind_below c s i)"

definition rfind :: "char \<Rightarrow> string \<Rightarrow> int" where
  "rfind c s = rfind_below c s (length s)"

text \<open>\<open>substr\<close> with \<open>int\<close> arguments converted to \<open>size_t\<close>: a negative one is larger than any length.\<close>

definition substr_int :: "string \<Rightarrow> int \<Rightarrow> int \<Rightarrow> string cxx" where
  "substr_int s pos n =
     (if pos < 0 then Inl Out_Of_Range
      else substr s (nat pos) (if n < 0 then length s else nat n))"

definition key_names :: "string \<Rightarrow> (string \<times> string) cxx" where
  "key_names key =
     (let pos1 = find_from CHR ''/'' key 2; pos2 = rfind CHR ''/'' key
      in bindE (substr_int key (pos1 + 1) (pos2 - pos1 - 1)) (\<lambda>service_name.
         bindE (substr_int key (pos2 + 1) (int (length key) - pos2 - 1)) (\<lambda>node_name.
         Inr (service_name, node_name))))"

definition node_of_key :: "string \<Rightarrow> string cxx" where
  "node_of_key key = (let pos2 = rfind CHR ''/'' key in substr_int key (pos2 + 1) (int (length key) - pos2 - 1))"

section \<open>Operations\<close>

definition set_meta :: "string \<Rightarrow> 's meta \<Rightarrow> ('s seeker, unit) sm" where
  "set_meta svc m = smodify (\<lambda>s. s\<lparr>endpoint_map := (endpoint_map s)(svc \<mapsto> m)\<rparr>)"

text \<open>The string \<open>node_name\<close> of one round: a fresh address.\<close>

definition new_string :: "('s seeker, nat) sm" where
  "new_string s = (Inr (next_string s), s\<lparr>next_string := Suc (next_string s)\<rparr>)"

text \<open>
  A node that is not in the pond: a local endpoint is parsed, copied into the pond, and destroyed at
  the end of its scope, which deletes the address the copy points to.
\<close>

definition add_node ::
  "(bytes \<Rightarrow> rpc_node_info) \<Rightarrow> (rat \<Rightarrow> 's::linorder) \<Rightarrow> string \<Rightarrow> 's meta \<Rightarrow> nat \<Rightarrow> string \<Rightarrow> bytes \<Rightarrow>
   ('s seeker, unit) sm" where
  "add_node ParseFromString float_of svc m p node_name v =
     sbind (parse_endpoint ParseFromString float_of v) (\<lambda>new_node.
     sthen (destroy_endpoint new_node)
       (set_meta svc \<lparr>nodes_pond = (nodes_pond m)(node_name \<mapsto> new_node),
                      node_list = insert p node_name (load_score new_node) (node_list m)\<rparr>))"

text \<open>A node that is there: a copy is updated and destroyed; the list gets the score of the pond.\<close>

definition update_node ::
  "(bytes \<Rightarrow> rpc_node_info) \<Rightarrow> (rat \<Rightarrow> 's::linorder) \<Rightarrow> string \<Rightarrow> 's meta \<Rightarrow> nat \<Rightarrow> string \<Rightarrow> 's node_ep \<Rightarrow> bytes \<Rightarrow>
   ('s seeker, unit) sm" where
  "update_node ParseFromString float_of svc m p node_name old v =
     sbind (parse_endpoint ParseFromString float_of v) (\<lambda>node.
     sthen (destroy_endpoint node)
       (set_meta svc (m\<lparr>node_list := insert p node_name (load_score old) (node_list m)\<rparr>)))"

datatype event = PUT string bytes | DELETE string | OTHER string

definition event_key :: "event \<Rightarrow> string" where
  "event_key ev = (case ev of PUT k _ \<Rightarrow> k | DELETE k \<Rightarrow> k | OTHER k \<Rightarrow> k)"

text \<open>Deleting a node: its endpoint is destroyed with the map entry, then its key leaves the list.\<close>

definition delete_node :: "string \<Rightarrow> 's meta \<Rightarrow> nat \<Rightarrow> string \<Rightarrow> ('s seeker, unit) sm" where
  "delete_node svc m p node_name =
     sthen (case nodes_pond m node_name of Some ep \<Rightarrow> destroy_endpoint ep | None \<Rightarrow> sret ())
       (sbind (slift (remove [p \<mapsto> node_name] node_name (node_list m))) (\<lambda>h.
        set_meta svc \<lparr>nodes_pond = (nodes_pond m)(node_name := None), node_list = h\<rparr>))"

definition handle_event ::
  "(bytes \<Rightarrow> rpc_node_info) \<Rightarrow> (rat \<Rightarrow> 's::linorder) \<Rightarrow> event \<Rightarrow> ('s seeker, unit) sm" where
  "handle_event ParseFromString float_of ev =
     sbind (slift (key_names (event_key ev))) (\<lambda>(service_name, node_name).
     sbind new_string (\<lambda>p s.
       case endpoint_map s service_name of
         None \<Rightarrow> (Inr (), s)
       | Some m \<Rightarrow>
           (case ev of
              PUT _ v \<Rightarrow>
                (case nodes_pond m node_name of
                   Some old \<Rightarrow> update_node ParseFromString float_of service_name m p node_name old v s
                 | None \<Rightarrow> add_node ParseFromString float_of service_name m p node_name v s)
            | DELETE _ \<Rightarrow> delete_node service_name m p node_name s
            | OTHER _ \<Rightarrow> (Inr (), s))))"

fun handle_events ::
  "(bytes \<Rightarrow> rpc_node_info) \<Rightarrow> (rat \<Rightarrow> 's::linorder) \<Rightarrow> event list \<Rightarrow> ('s seeker, unit) sm" where
  "handle_events P F [] = sret ()"
| "handle_events P F (ev # evs) = sthen (handle_event P F ev) (handle_events P F evs)"

text \<open>\<open>watch\<close>: the argument \<open>values\<close> is the answer of etcd for the prefix.\<close>

fun watch_loop ::
  "(bytes \<Rightarrow> rpc_node_info) \<Rightarrow> (rat \<Rightarrow> 's::linorder) \<Rightarrow> string \<Rightarrow> (string \<times> bytes) list \<Rightarrow> ('s seeker, unit) sm" where
  "watch_loop P F svc [] = sret ()"
| "watch_loop P F svc ((key, v) # kvs) =
     sbind (slift (node_of_key key)) (\<lambda>node_name.
     sbind new_string (\<lambda>p.
     sthen (\<lambda>s. case endpoint_map s svc of
              None \<Rightarrow> (Inl Undefined, s)
            | Some m \<Rightarrow> add_node P F svc m p node_name v s)
       (watch_loop P F svc kvs)))"

definition watch ::
  "(bytes \<Rightarrow> rpc_node_info) \<Rightarrow> (rat \<Rightarrow> 's::linorder) \<Rightarrow> (string \<Rightarrow> (string \<times> bytes) list) \<Rightarrow> string \<Rightarrow>
   ('s seeker, bool) sm" where
  "watch P F ls svc s =
     (if endpoint_map s svc \<noteq> None then (Inr False, s)
      else sthen (set_meta svc \<lparr>nodes_pond = Map.empty, node_list = empty_heap\<rparr>)
             (sthen (watch_loop P F svc (ls (''/services/'' @ svc @ ''/''))) (sret True)) s)"

text \<open>
  \<open>unwatch\<close> destroys the map entry with every endpoint in it; \<open>pond_order\<close> is the iteration order of
  the pond.
\<close>

fun destroy_all :: "'s node_ep list \<Rightarrow> ('s seeker, unit) sm" where
  "destroy_all [] = sret ()"
| "destroy_all (ep # eps) = sthen (destroy_endpoint ep) (destroy_all eps)"

definition unwatch :: "(('s meta) \<Rightarrow> string list) \<Rightarrow> string \<Rightarrow> ('s seeker, unit) sm" where
  "unwatch pond_order svc s =
     (case endpoint_map s svc of
        None \<Rightarrow> (Inr (), s)
      | Some m \<Rightarrow>
          sthen (destroy_all (map (\<lambda>n. the (nodes_pond m n)) (pond_order m)))
            (smodify (\<lambda>s. s\<lparr>endpoint_map := (endpoint_map s)(svc := None)\<rparr>)) s)"

text \<open>
  \<open>getServiceNode\<close>. The balancer follows the addresses in the list while no string \<open>node_name\<close> lives.
\<close>

definition getServiceNode ::
  "((nat \<rightharpoonup> string) \<Rightarrow> (string, 's, nat) heap \<Rightarrow> string option cxx) \<Rightarrow> string \<Rightarrow> 's seeker \<Rightarrow>
   inet_addr_t option cxx" where
  "getServiceNode select svc s =
     (case endpoint_map s svc of
        None \<Rightarrow> Inr None
      | Some m \<Rightarrow>
          bindE (select Map.empty (node_list m)) (\<lambda>node_name.
          case node_name of
            None \<Rightarrow> Inr None
          | Some n \<Rightarrow>
              (case nodes_pond m n of
                 None \<Rightarrow> Inr None
               | Some ep \<Rightarrow>
                   (case addr ep of
                      None \<Rightarrow> Inl Undefined
                    | Some p \<Rightarrow> bindE (of_optionE Undefined (store s p)) (\<lambda>a. Inr (Some a))))))"

section \<open>Keys\<close>

lemma find_in_skip: "c \<notin> set xs \<Longrightarrow> find_in c (xs @ ys) i = find_in c ys (i + length xs)"
  by (induction xs arbitrary: i) auto

lemma rfind_below_skip: "c \<notin> set ys \<Longrightarrow> rfind_below c (xs @ c # ys) (Suc (length xs) + k) = int (length xs) \<or> length ys < k"
proof (induction k)
  case 0
  then show ?case by (simp add: nth_append)
next
  case (Suc k)
  show ?case
  proof (cases "k < length ys")
    case True
    then have "ys ! k \<noteq> c" using Suc.prems by auto
    moreover have "(xs @ c # ys) ! (Suc (length xs) + k) = ys ! k" by (simp add: nth_append)
    ultimately show ?thesis using Suc True by simp
  qed simp
qed

lemma rfind_last: "c \<notin> set ys \<Longrightarrow> rfind c (xs @ c # ys) = int (length xs)"
  using rfind_below_skip [of c ys xs "length ys"] by (simp add: rfind_def)

lemma key_names_registered:
  assumes "CHR ''/'' \<notin> set node"
  shows "key_names (''/services/'' @ svc @ ''/'' @ node) = Inr (svc, node)"
proof -
  define pre :: string where "pre = ''/services/''"
  have pre: "length pre = 10" "drop 2 pre = ''ervices'' @ ''/''" by (simp_all add: pre_def)
  let ?key = "pre @ svc @ CHR ''/'' # node"
  have "find_from CHR ''/'' ?key 2 = find_in CHR ''/'' (''ervices'' @ CHR ''/'' # svc @ CHR ''/'' # node) 2"
    by (simp add: find_from_def pre)
  also have "\<dots> = 9" by (subst find_in_skip) simp_all
  finally have 1: "find_from CHR ''/'' ?key 2 = 9" .
  have 2: "rfind CHR ''/'' ?key = 10 + int (length svc)"
    using rfind_last [OF assms, of "pre @ svc"] by (simp add: pre)
  have "key_names ?key = Inr (svc, node)"
    unfolding key_names_def Let_def 1 2 by (simp add: substr_int_def nat_add_distrib pre)
  then show ?thesis by (simp add: pre_def)
qed

section \<open>Invariant\<close>

text \<open>
  The pond and the list of a watched service hold the same nodes with the same scores. Every \<open>addr\<close> is
  set, and no address is live: the local endpoint it was copied from has deleted it.
\<close>

definition meta_ok :: "nat \<Rightarrow> 's::linorder meta \<Rightarrow> bool" where
  "meta_ok bound m \<longleftrightarrow>
     scores_wf (node_list m) \<and> (\<forall>n. scores (node_list m) n = map_option load_score (nodes_pond m n)) \<and>
     (\<forall>n ep. nodes_pond m n = Some ep \<longrightarrow> addr ep \<noteq> None) \<and> set (random_list (node_list m)) \<subseteq> {..<bound}"

definition seeker_ok :: "'s::linorder seeker \<Rightarrow> bool" where
  "seeker_ok s \<longleftrightarrow> store s = Map.empty \<and> (\<forall>svc m. endpoint_map s svc = Some m \<longrightarrow> meta_ok (next_string s) m)"

lemma meta_ok_mono: "meta_ok b m \<Longrightarrow> b \<le> b' \<Longrightarrow> meta_ok b' m"
  by (auto simp: meta_ok_def)

lemma random_list_insert: "set (random_list (insert p k s h)) \<subseteq> Set.insert p (set (random_list h))"
  by (auto simp: insert_eq Let_def add_random_key_def)

lemma seeker_ok_tick: "seeker_ok s \<Longrightarrow> seeker_ok (s\<lparr>next_string := Suc (next_string s)\<rparr>)"
  using meta_ok_mono [of "next_string s" _ "Suc (next_string s)"] by (auto simp: seeker_ok_def)

text \<open>What the two ways of receiving a node do when no address is live.\<close>

lemma parse_destroy:
  assumes "store s = Map.empty"
  shows "\<exists>ep. sbind (parse_endpoint P F v) (\<lambda>n. sthen (destroy_endpoint n) (f n)) s =
            f ep (s\<lparr>next_addr := Suc (next_addr s)\<rparr>) \<and> addr ep = Some (next_addr s) \<and>
            load_score ep = load_score (fst (parserNodeFromEtcd P F v))"
proof -
  obtain e a where p: "parserNodeFromEtcd P F v = (e, a)" by fastforce
  have eq: "s\<lparr>next_addr := n, store := Map.empty\<rparr> = s\<lparr>next_addr := n\<rparr>" for n
    using assms by (cases s) simp
  then show ?thesis
    using assms
    by (auto simp add: parse_endpoint_def p sbind_def new_addr_def destroy_endpoint_def delete_addr_def eq)
qed

lemma add_node_ok:
  assumes "seeker_ok s" and "meta_ok b m" and "p < next_string s" and "b \<le> next_string s"
  shows "\<exists>s'. add_node P F svc m p n v s = (Inr (), s') \<and> seeker_ok s' \<and>
           endpoint_map s' = (endpoint_map s)(svc \<mapsto> the (endpoint_map s' svc)) \<and> next_string s' = next_string s"
proof -
  from assms(1) have "store s = Map.empty" by (simp add: seeker_ok_def)
  from parse_destroy [OF this, of P F v "\<lambda>new_node. set_meta svc \<lparr>nodes_pond = (nodes_pond m)(n \<mapsto> new_node),
      node_list = insert p n (load_score new_node) (node_list m)\<rparr>"] obtain ep where
    r: "add_node P F svc m p n v s = set_meta svc \<lparr>nodes_pond = (nodes_pond m)(n \<mapsto> ep),
      node_list = insert p n (load_score ep) (node_list m)\<rparr> (s\<lparr>next_addr := Suc (next_addr s)\<rparr>)"
    and a: "addr ep = Some (next_addr s)" unfolding add_node_def by blast
  have "meta_ok (next_string s) \<lparr>nodes_pond = (nodes_pond m)(n \<mapsto> ep),
      node_list = insert p n (load_score ep) (node_list m)\<rparr>"
    using assms(2-4) a random_list_insert [of p n "load_score ep" "node_list m"]
    by (force simp: meta_ok_def scores_wf_insert scores_insert)
  then show ?thesis
    using assms(1) by (simp add: r set_meta_def seeker_ok_def)
qed

lemma update_node_ok:
  assumes "seeker_ok s" and "meta_ok b m" and "p < next_string s" and "b \<le> next_string s"
    and old: "nodes_pond m n = Some old"
  shows "\<exists>s' h. update_node P F svc m p n old v s = (Inr (), s') \<and> seeker_ok s' \<and>
           endpoint_map s' = (endpoint_map s)(svc \<mapsto> m\<lparr>node_list := h\<rparr>) \<and> scores h = scores (node_list m)"
proof -
  from assms(1) have "store s = Map.empty" by (simp add: seeker_ok_def)
  from parse_destroy [OF this, of P F v "\<lambda>_. set_meta svc (m\<lparr>node_list := insert p n (load_score old) (node_list m)\<rparr>)"]
  have r: "update_node P F svc m p n old v s =
      set_meta svc (m\<lparr>node_list := insert p n (load_score old) (node_list m)\<rparr>) (s\<lparr>next_addr := Suc (next_addr s)\<rparr>)"
    unfolding update_node_def by blast
  have sc: "scores (insert p n (load_score old) (node_list m)) = scores (node_list m)"
    using assms(2) old by (simp add: meta_ok_def scores_insert fun_upd_idem)
  then have "meta_ok (next_string s) (m\<lparr>node_list := insert p n (load_score old) (node_list m)\<rparr>)"
    using assms(2-4) random_list_insert [of p n "load_score old" "node_list m"]
    by (force simp: meta_ok_def scores_wf_insert)
  then show ?thesis
    using assms(1) sc
    by (intro exI [of _ "insert p n (load_score old) (node_list m)"] exI) (auto simp: r set_meta_def seeker_ok_def split: if_splits)
qed

text \<open>A deletion reads a dead string, whatever is in the list.\<close>

lemma remove_dead:
  fixes p :: nat
  assumes "set (random_list h) \<subseteq> {..<p}"
  shows "remove [p \<mapsto> n] n h = Inl Undefined"
proof -
  have dead: "deref [p \<mapsto> n] q = Inl Undefined" if "q \<in> set (random_list h)" for q
  proof -
    from that assms have "q < p" by blast
    then show ?thesis by (simp add: deref_def)
  qed
  define i where "i = (case key_to_random_list h n of Some i \<Rightarrow> i | None \<Rightarrow> 0)"
  define rl where "rl = random_list h"
  define rl' where "rl' = butlast (rl[i := last rl, length rl - 1 := rl ! i])"
  have start: "remove [p \<mapsto> n] n h = bindE (index_at rl i) (\<lambda>_.
      bindE (index_at rl' i) (\<lambda>q. bindE (deref [p \<mapsto> n] q) (\<lambda>k.
        Inr ((drop_score n h)\<lparr>random_list := rl', key_to_random_list := (key_to_random_list h)(n := None, k \<mapsto> i)\<rparr>))))"
    unfolding remove_eq remove_random_key_def Let_def drop_score_fields i_def [symmetric] rl_def [symmetric]
    by (cases "i < length rl") (simp_all add: index_at_def rl'_def)
  have "set rl' \<subseteq> set rl" if "i < length rl"
  proof -
    have "set ((rl[i := last rl])[length rl - 1 := rl ! i]) \<subseteq> set rl"
      using that by (intro set_update_subsetI) (auto intro: last_in_set)
    then show ?thesis unfolding rl'_def by (blast dest: in_set_butlastD)
  qed
  then have "deref [p \<mapsto> n] (rl' ! i) = Inl Undefined" if "i < length rl" "i < length rl'"
    using that nth_mem [of i rl'] by (intro dead) (auto simp: rl_def)
  then show ?thesis by (cases "i < length rl"; cases "i < length rl'") (simp_all add: start index_at_def)
qed

lemma handle_event_ok:
  assumes "seeker_ok s" and "handle_event P F ev s = (Inr (), s')"
  shows "seeker_ok s'"
proof -
  let ?s = "s\<lparr>next_string := Suc (next_string s)\<rparr>"
  have ok: "seeker_ok ?s"
    using assms(1) by (rule seeker_ok_tick)
  obtain svc n where k: "key_names (event_key ev) = Inr (svc, n)"
    using assms(2) by (cases "key_names (event_key ev)") (auto simp: handle_event_def sbind_def)
  show ?thesis
  proof (cases "endpoint_map s svc")
    case None
    with assms(2) k ok show ?thesis by (auto simp: handle_event_def sbind_def new_string_def)
  next
    case (Some m)
    then have m: "meta_ok (next_string s) m" using assms(1) by (simp add: seeker_ok_def)
    show ?thesis
    proof (cases ev)
      case (PUT key v)
      then show ?thesis
        using add_node_ok [OF ok m, of "next_string s" P F svc n v] assms(2) k Some
          update_node_ok [OF ok m, of "next_string s" n _ P F svc v]
        by (cases "nodes_pond m n") (force simp: handle_event_def sbind_def new_string_def)+
    next
      case (DELETE key)
      have "remove [next_string s \<mapsto> n] n (node_list m) = Inl Undefined"
        using m by (intro remove_dead) (simp add: meta_ok_def)
      then show ?thesis
        using assms(2) k Some DELETE
        by (auto simp: handle_event_def sbind_def new_string_def delete_node_def split: prod.splits sum.splits)
    next
      case (OTHER key)
      with assms(2) k Some ok show ?thesis by (auto simp: handle_event_def sbind_def new_string_def)
    qed
  qed
qed

lemma watch_loop_ok:
  "seeker_ok s \<Longrightarrow> watch_loop P F svc kvs s = (Inr u, s') \<Longrightarrow> seeker_ok s'"
proof (induction kvs arbitrary: s)
  case (Cons kv kvs)
  obtain key v where kv: "kv = (key, v)" by fastforce
  let ?s = "s\<lparr>next_string := Suc (next_string s)\<rparr>"
  have ok: "seeker_ok ?s"
    using Cons.prems(1) by (rule seeker_ok_tick)
  obtain n where n: "node_of_key key = Inr n"
    using Cons.prems(2) kv by (cases "node_of_key key") (auto simp: sbind_def)
  obtain m where m: "endpoint_map s svc = Some m"
    using Cons.prems(2) kv n by (cases "endpoint_map s svc") (auto simp: sbind_def new_string_def)
  then have "meta_ok (next_string s) m" using Cons.prems(1) by (simp add: seeker_ok_def)
  from add_node_ok [OF ok this, of "next_string s" P F svc n v] obtain s1 where
    "add_node P F svc m (next_string s) n v ?s = (Inr (), s1)" "seeker_ok s1" by auto
  with Cons kv n m show ?case by (simp add: sbind_def new_string_def)
qed simp

lemma watch_ok: "seeker_ok s \<Longrightarrow> watch P F ls svc s = (Inr b, s') \<Longrightarrow> seeker_ok s'"
proof -
  assume ok: "seeker_ok s" and w: "watch P F ls svc s = (Inr b, s')"
  let ?s = "s\<lparr>endpoint_map := (endpoint_map s)(svc \<mapsto> \<lparr>nodes_pond = Map.empty, node_list = empty_heap\<rparr>)\<rparr>"
  have "meta_ok (next_string s) \<lparr>nodes_pond = Map.empty, node_list = empty_heap\<rparr>"
    using scores_wf_empty by (simp add: meta_ok_def empty_heap_wf) (simp add: empty_heap_def)
  then have "seeker_ok ?s" using ok by (simp add: seeker_ok_def)
  then show ?thesis
    using w ok watch_loop_ok [of ?s P F svc]
    by (auto simp: watch_def sbind_def set_meta_def split: if_splits prod.splits sum.splits)
qed

lemma destroy_all_state: "store s = Map.empty \<Longrightarrow> destroy_all eps s = (Inr u, s') \<Longrightarrow> s' = s"
  by (induction eps arbitrary: s)
    (auto simp: destroy_endpoint_def delete_addr_def sbind_def split: option.splits if_splits)

lemma unwatch_ok: "seeker_ok s \<Longrightarrow> unwatch po svc s = (Inr u, s') \<Longrightarrow> seeker_ok s'"
proof -
  assume ok: "seeker_ok s" and w: "unwatch po svc s = (Inr u, s')"
  then have "store s = Map.empty" by (simp add: seeker_ok_def)
  note d = destroy_all_state [OF this]
  show ?thesis
    using ok w by (auto simp: unwatch_def sbind_def seeker_ok_def dest!: d split: option.splits prod.splits sum.splits if_splits)
qed

inductive seeker_reachable ::
  "(bytes \<Rightarrow> rpc_node_info) \<Rightarrow> (rat \<Rightarrow> 's::linorder) \<Rightarrow> 's seeker \<Rightarrow> bool" for P F where
  Start: "seeker_reachable P F ServiceSeeker"
| Watch: "seeker_reachable P F s \<Longrightarrow> watch P F ls svc s = (Inr b, s') \<Longrightarrow> seeker_reachable P F s'"
| Event: "seeker_reachable P F s \<Longrightarrow> handle_event P F ev s = (Inr (), s') \<Longrightarrow> seeker_reachable P F s'"
| Unwatch: "seeker_reachable P F s \<Longrightarrow> unwatch po svc s = (Inr (), s') \<Longrightarrow> seeker_reachable P F s'"

lemma seeker_reachable_ok: "seeker_reachable P F s \<Longrightarrow> seeker_ok s"
proof (induction rule: seeker_reachable.induct)
  case Start
  then show ?case by (simp add: seeker_ok_def ServiceSeeker_def)
qed (auto intro: watch_ok handle_event_ok unwatch_ok)

section \<open>Properties\<close>

text \<open>C23: after any sequence of watches, events and unwatches that ended without undefined behaviour,
  every watched service lists exactly the nodes of its pond, with the same scores.\<close>

theorem pond_and_list_agree:
  assumes "seeker_reachable P F s" and "endpoint_map s svc = Some m"
  shows "scores (node_list m) n = map_option load_score (nodes_pond m n) \<and> scores_wf (node_list m)"
  using seeker_reachable_ok [OF assms(1)] assms(2) by (simp add: seeker_ok_def meta_ok_def)

definition demo_info :: "bytes \<Rightarrow> rpc_node_info" where
  "demo_info v = \<lparr>node_addr = 0x7F000001, node_port = 8080, node_active_conn = word_of_nat (length v), node_max_conn = 100\<rparr>"

definition demo_seeker :: "rat seeker" where
  "demo_seeker = snd (watch demo_info id (\<lambda>_. [(''/services/A/n1'', [0])]) ''A'' ServiceSeeker)"

lemma demo_key: "node_of_key ''/services/A/n1'' = Inr ''n1''" "key_names ''/services/A/n1'' = Inr (''A'', ''n1'')"
  by code_simp+

lemma demo_watch:
  "watch demo_info id (\<lambda>_. [(''/services/A/n1'', [0])]) ''A'' ServiceSeeker = (Inr True, demo_seeker)"
  by (simp add: demo_seeker_def watch_def ServiceSeeker_def sbind_def set_meta_def demo_key new_string_def
      add_node_def parse_endpoint_def parserNodeFromEtcd_def new_addr_def destroy_endpoint_def delete_addr_def Let_def)

lemma demo_seeker_reachable: "seeker_reachable demo_info id demo_seeker"
  by (rule seeker_reachable.Watch [OF seeker_reachable.Start demo_watch])

lemma demo_seeker_pond: "\<exists>m ep. endpoint_map demo_seeker ''A'' = Some m \<and> nodes_pond m ''n1'' = Some ep"
  by (simp add: demo_seeker_def watch_def ServiceSeeker_def sbind_def set_meta_def demo_key new_string_def
      add_node_def parse_endpoint_def parserNodeFromEtcd_def new_addr_def destroy_endpoint_def delete_addr_def Let_def)

theorem pond_and_list_agree_witness:
  "\<exists>m. endpoint_map demo_seeker ''A'' = Some m \<and> scores (node_list m) ''n1'' \<noteq> None"
proof -
  from demo_seeker_pond obtain m ep where "endpoint_map demo_seeker ''A'' = Some m" "nodes_pond m ''n1'' = Some ep"
    by blast
  with pond_and_list_agree [OF demo_seeker_reachable this(1), of "''n1''"] show ?thesis by auto
qed

text \<open>A service lookup never gives an address. With a balancer that returns a listed node the
  address of the node is read after it was deleted.\<close>

theorem lookup_never_answers:
  assumes "seeker_reachable P F s"
  shows "(\<forall>a. getServiceNode select svc s \<noteq> Inr (Some a)) \<and>
         (\<forall>m n ep. endpoint_map s svc = Some m \<and> select Map.empty (node_list m) = Inr (Some n) \<and>
            nodes_pond m n = Some ep \<longrightarrow> getServiceNode select svc s = Inl Undefined)"
proof -
  have ok: "store s = Map.empty" "endpoint_map s svc = Some m \<Longrightarrow> meta_ok (next_string s) m" for m
    using seeker_reachable_ok [OF assms] by (simp_all add: seeker_ok_def)
  then show ?thesis
    by (force simp: getServiceNode_def meta_ok_def bindE_def split: option.splits sum.splits)
qed

theorem lookup_never_answers_witness:
  "getServiceNode (\<lambda>mem h. Inr (maxOne h)) ''A'' demo_seeker = Inl Undefined"
proof -
  from demo_seeker_pond obtain m ep where m: "endpoint_map demo_seeker ''A'' = Some m" "nodes_pond m ''n1'' = Some ep"
    by blast
  note ok = seeker_reachable_ok [OF demo_seeker_reachable]
  have wf: "scores_wf (node_list m)" and sc: "scores (node_list m) n = map_option load_score (nodes_pond m n)" for n
    using ok m(1) by (simp_all add: seeker_ok_def meta_ok_def)
  have "maxOne (node_list m) \<noteq> None"
    using maxOne_None [OF wf] sc [of "''n1''"] m(2) by auto
  then obtain n where n: "maxOne (node_list m) = Some n" by auto
  with maxOne_Some [OF wf n] sc [of n] obtain e where "nodes_pond m n = Some e" by auto
  with lookup_never_answers [OF demo_seeker_reachable, of "\<lambda>mem h. Inr (maxOne h)" "''A''"] m n show ?thesis
    by blast
qed

text \<open>A new value for a node that is already known is lost: it is parsed into a copy. The pond and
  the scores of the service stay what they were.\<close>

theorem put_on_known_node_is_lost:
  assumes "seeker_reachable P F s" and "key_names key = Inr (svc, n)"
    and "endpoint_map s svc = Some m" and "nodes_pond m n = Some old"
  shows "\<exists>s' m'. handle_event P F (PUT key v) s = (Inr (), s') \<and> endpoint_map s' svc = Some m' \<and>
           nodes_pond m' = nodes_pond m \<and> scores (node_list m') = scores (node_list m)"
proof -
  let ?s = "s\<lparr>next_string := Suc (next_string s)\<rparr>"
  have ok: "seeker_ok ?s" "meta_ok (next_string s) m"
    by (rule seeker_ok_tick [OF seeker_reachable_ok [OF assms(1)]])
      (use seeker_reachable_ok [OF assms(1)] assms(3) in \<open>simp add: seeker_ok_def\<close>)
  from update_node_ok [OF ok, of "next_string s" n old P F svc v] assms(4) obtain s' h where
    "update_node P F svc m (next_string s) n old v ?s = (Inr (), s')"
    "endpoint_map s' = (endpoint_map ?s)(svc \<mapsto> m\<lparr>node_list := h\<rparr>)" "scores h = scores (node_list m)" by auto
  then show ?thesis
    using assms(2-4)
    by (intro exI [of _ s'] exI [of _ "m\<lparr>node_list := h\<rparr>"])
      (simp add: handle_event_def event_key_def sbind_def new_string_def)
qed

theorem put_on_known_node_is_lost_witness:
  "\<exists>s' m'. handle_event demo_info id (PUT ''/services/A/n1'' (replicate 90 0)) demo_seeker = (Inr (), s') \<and>
     endpoint_map s' ''A'' = Some m' \<and>
     scores (node_list m') = scores (node_list (the (endpoint_map demo_seeker ''A'')))"
proof -
  from demo_seeker_pond obtain m ep where m: "endpoint_map demo_seeker ''A'' = Some m" "nodes_pond m ''n1'' = Some ep"
    by blast
  from put_on_known_node_is_lost [OF demo_seeker_reachable demo_key(2) m, of "replicate 90 0"] m(1)
  show ?thesis by auto
qed

text \<open>Every deletion event for a watched service is undefined behaviour: for a known node its
  address is deleted a second time, for an unknown one the list follows the address of a dead string
  or reads outside its vector.\<close>

theorem delete_event_is_undefined:
  assumes "seeker_reachable P F s" and "key_names key = Inr (svc, n)" and "endpoint_map s svc = Some m"
  shows "fst (handle_event P F (DELETE key) s) = Inl Undefined"
proof -
  have ok: "store s = Map.empty" "meta_ok (next_string s) m"
    using seeker_reachable_ok [OF assms(1)] assms(3) by (auto simp: seeker_ok_def)
  then have "remove [next_string s \<mapsto> n] n (node_list m) = Inl Undefined"
    by (intro remove_dead) (simp add: meta_ok_def)
  moreover have "nodes_pond m n = Some ep \<Longrightarrow> addr ep \<noteq> None" for ep
    using ok(2) by (simp add: meta_ok_def)
  ultimately show ?thesis
    using ok(1) assms(2,3)
    by (auto simp: handle_event_def event_key_def sbind_def new_string_def delete_node_def destroy_endpoint_def
        delete_addr_def split: option.split)
qed

theorem delete_event_is_undefined_witness:
  "fst (handle_event demo_info id (DELETE ''/services/A/n1'') demo_seeker) = Inl Undefined"
proof -
  from demo_seeker_pond obtain m where m: "endpoint_map demo_seeker ''A'' = Some m" by blast
  show ?thesis by (rule delete_event_is_undefined [OF demo_seeker_reachable demo_key(2) m])
qed

end
