(* ===== verification/Logger.thy ===== *)
theory Logger
  imports Prelude
begin

text \<open>
  include/logger and src/logger: messages and their levels, formatters, sinks and loggers. Objects that
  the code shares by pointer (formatters, the buffer of \<open>localtime\<close>) are addressed explicitly, because
  the behaviour depends on the sharing. A sink writes a line to standard output or to a file; the
  output so far is the state. Opening the file of a \<open>FileSink\<close> succeeds or fails by an argument.
\<close>

section \<open>Messages\<close>

datatype Level = TRACE | DEBUG | INFO | WARN | ERROR | CRITICAL | OFF

definition level_no :: "Level \<Rightarrow> nat" where
  "level_no l = (case l of TRACE \<Rightarrow> 0 | DEBUG \<Rightarrow> 1 | INFO \<Rightarrow> 2 | WARN \<Rightarrow> 3 | ERROR \<Rightarrow> 4 | CRITICAL \<Rightarrow> 5 | OFF \<Rightarrow> 6)"

instantiation Level :: linorder
begin

definition less_eq_Level :: "Level \<Rightarrow> Level \<Rightarrow> bool" where
  "less_eq_Level a b \<longleftrightarrow> level_no a \<le> level_no b"

definition less_Level :: "Level \<Rightarrow> Level \<Rightarrow> bool" where
  "less_Level a b \<longleftrightarrow> level_no a < level_no b"

instance
proof
  fix a b :: Level
  show "a \<le> b \<Longrightarrow> b \<le> a \<Longrightarrow> a = b"
    by (cases a; cases b) (simp_all add: less_eq_Level_def level_no_def)
qed (auto simp: less_eq_Level_def less_Level_def)

end

definition level_name :: "Level \<Rightarrow> string" where
  "level_name l = (case l of TRACE \<Rightarrow> ''TRACE'' | DEBUG \<Rightarrow> ''DEBUG'' | INFO \<Rightarrow> ''INFO'' | WARN \<Rightarrow> ''WARN''
     | ERROR \<Rightarrow> ''ERROR'' | CRITICAL \<Rightarrow> ''CRITICAL'' | OFF \<Rightarrow> ''OFF'')"

record source_loc =
  filename :: "string option"
  funcname :: "string option"
  line :: u32

definition valid_loc :: "source_loc \<Rightarrow> bool" where
  "valid_loc s \<longleftrightarrow> 0 < line s \<and> filename s \<noteq> None \<and> funcname s \<noteq> None"

text \<open>The broken-down time, with the offsets of \<open>struct tm\<close>.\<close>

record tm =
  tm_year :: nat
  tm_mon :: nat
  tm_mday :: nat
  tm_hour :: nat
  tm_min :: nat
  tm_sec :: nat

text \<open>\<open>LogMsg::time\<close> points to the one static buffer of \<open>std::localtime\<close>, so it is not a field here.\<close>

record log_msg =
  thread_id :: u32
  msg_level :: Level
  source :: source_loc
  msg :: string

section \<open>Formatters\<close>

type_synonym pattern = "(char \<times> string) list"

definition directive :: "char \<Rightarrow> bool" where
  "directive c \<longleftrightarrow> c \<in> set ''symdhielofnt''"

text \<open>
  The loop of \<open>setPattern\<close> over the rest of the format from index \<open>i\<close>; \<open>lit\<close> is the text from \<open>left\<close> to
  \<open>i\<close>. The last character is never the start of a directive.
\<close>

definition flush :: "string \<Rightarrow> pattern" where
  "flush lit = (if lit = [] then [] else [(CHR ''.'', lit)])"

fun pattern_loop :: "string \<Rightarrow> string \<Rightarrow> pattern" where
  "pattern_loop lit [] = flush lit"
| "pattern_loop lit [c] = flush (lit @ [c])"
| "pattern_loop lit (c # d # cs) =
     (if c \<noteq> CHR ''%'' then pattern_loop (lit @ [c]) (d # cs)
      else flush lit @ (if directive d then [(d, [])] else []) @ pattern_loop [] cs)"

definition setPattern :: "string \<Rightarrow> pattern" where
  "setPattern fmt = pattern_loop [] fmt"

definition default_format :: string where
  "default_format = ''[%l][%y-%m-%d-%h-%i-%e][%o,line:%n]: %s''"

text \<open>
  One piece of output. \<open>fmt_map.at\<close> throws for a character without an entry; a null message pointer is
  undefined.
\<close>

definition piece :: "tm \<Rightarrow> log_msg \<Rightarrow> char \<times> string \<Rightarrow> string cxx" where
  "piece t m pr =
     (case pr of (c, s) \<Rightarrow>
       if c = CHR ''s'' then Inr (msg m)
       else if c = CHR ''y'' then Inr (to_string (tm_year t + 1900))
       else if c = CHR ''m'' then Inr (to_string (tm_mon t + 1))
       else if c = CHR ''d'' then Inr (to_string (tm_mday t))
       else if c = CHR ''h'' then Inr (to_string (tm_hour t))
       else if c = CHR ''i'' then Inr (to_string (tm_min t))
       else if c = CHR ''e'' then Inr (to_string (tm_sec t))
       else if c = CHR ''l'' then Inr (level_name (msg_level m))
       else if c = CHR ''o'' then Inr (if valid_loc (source m) then the (filename (source m)) else [])
       else if c = CHR ''f'' then Inr (if valid_loc (source m) then the (funcname (source m)) else [])
       else if c = CHR ''n'' then Inr (if valid_loc (source m) then to_string (unat (line (source m))) else [])
       else if c = CHR ''t'' then Inr (to_string (unat (thread_id m)))
       else if c = CHR ''.'' then Inr s
       else Inl Out_Of_Range)"

fun pieces :: "tm \<Rightarrow> log_msg \<Rightarrow> pattern \<Rightarrow> string cxx" where
  "pieces t m [] = Inr []"
| "pieces t m (pr # prs) = bindE (piece t m pr) (\<lambda>a. bindE (pieces t m prs) (\<lambda>b. Inr (a @ b)))"

text \<open>
  \<open>format\<close> stores the message in the formatter and then goes through \<open>fmt_map\<close>. The map is a static
  variable of the function: it is built on the first call, and its lambdas capture the \<open>this\<close> of that
  call. \<open>captured\<close> is the formatter they refer to for the rest of the run.
\<close>

record log_world =
  patterns :: "nat \<Rightarrow> pattern"
  temp_msg :: "nat \<Rightarrow> log_msg option"
  captured :: "nat option"
  localtime_buf :: tm
  stdout :: "string list"
  files :: "string \<Rightarrow> string list"

definition format :: "nat \<Rightarrow> log_msg \<Rightarrow> (log_world, string) sm" where
  "format f m w0 =
     (let w = w0\<lparr>temp_msg := (temp_msg w0)(f := Some m),
                 captured := (case captured w0 of None \<Rightarrow> Some f | Some g \<Rightarrow> Some g)\<rparr>
      in case temp_msg w (the (captured w)) of
           None \<Rightarrow> (Inl Undefined, w)
         | Some m' \<Rightarrow> (pieces (localtime_buf w) m' (patterns w f), w))"

text \<open>\<open>LogMsg(...)\<close>: every construction writes the buffer of \<open>localtime\<close>.\<close>

definition new_msg :: "tm \<Rightarrow> log_world \<Rightarrow> log_world" where
  "new_msg now w = w\<lparr>localtime_buf := now\<rparr>"

section \<open>Sinks and loggers\<close>

datatype sink_kind = Stdout | File string

text \<open>\<open>opened\<close>: whether \<open>_file_stream\<close> holds an open stream.\<close>

record sink =
  kind :: sink_kind
  m_formatter :: nat
  sink_level :: Level
  opened :: bool

record logger =
  m_name :: string
  m_sinks :: "nat list"
  m_level :: Level

definition Sink_default :: "nat \<Rightarrow> sink" where
  "Sink_default f = \<lparr>kind = Stdout, m_formatter = f, sink_level = OFF, opened = False\<rparr>"

definition FileSink_default :: "nat \<Rightarrow> sink" where
  "FileSink_default f = \<lparr>kind = File ''log.txt'', m_formatter = f, sink_level = OFF, opened = False\<rparr>"

definition setFormatter :: "nat option \<Rightarrow> sink \<Rightarrow> sink" where
  "setFormatter f s = (case f of None \<Rightarrow> s | Some f \<Rightarrow> s\<lparr>m_formatter := f\<rparr>)"

text \<open>The result is the sink as it is afterwards. \<open>can_open\<close> says whether opening the file succeeds.\<close>

definition sink_log :: "(string \<Rightarrow> bool) \<Rightarrow> log_msg \<Rightarrow> sink \<Rightarrow> (log_world, sink) sm" where
  "sink_log can_open m s =
     (case kind s of
        Stdout \<Rightarrow>
          (if msg_level m > sink_level s then sret s
           else sbind (format (m_formatter s) m) (\<lambda>str.
                sthen (smodify (\<lambda>w. w\<lparr>stdout := stdout w @ [str]\<rparr>)) (sret s)))
      | File file_name \<Rightarrow>
          (if msg_level m < sink_level s then sret s
           else if \<not> opened s \<and> \<not> can_open file_name then
             sthen (smodify (\<lambda>w. w\<lparr>stdout := stdout w @ [''The file:['' @ file_name @ ''] doesn't exist'']\<rparr>)) (sret s)
           else sbind (format (m_formatter s) m) (\<lambda>str.
                sthen (smodify (\<lambda>w. w\<lparr>files := (files w)(file_name := files w file_name @ [str])\<rparr>))
                  (sret (s\<lparr>opened := True\<rparr>)))))"

definition addSink :: "nat \<Rightarrow> logger \<Rightarrow> logger" where
  "addSink s l = l\<lparr>m_sinks := m_sinks l @ [s]\<rparr>"

definition removeSink :: "nat \<Rightarrow> logger \<Rightarrow> logger" where
  "removeSink s l = l\<lparr>m_sinks := remove1 s (m_sinks l)\<rparr>"

definition removeAllSinks :: "logger \<Rightarrow> logger" where
  "removeAllSinks l = l\<lparr>m_sinks := []\<rparr>"

text \<open>The sinks a message goes to: each of the logger's, or none. The asynchronous logger hands the
  same calls to its thread pool.\<close>

definition log_targets :: "log_msg \<Rightarrow> logger \<Rightarrow> nat list" where
  "log_targets m l = (if msg_level m > m_level l then [] else m_sinks l)"

definition async_log_targets :: "log_msg \<Rightarrow> logger \<Rightarrow> nat list" where
  "async_log_targets m l = (if msg_level m < m_level l then [] else m_sinks l)"

fun log_to :: "(string \<Rightarrow> bool) \<Rightarrow> log_msg \<Rightarrow> nat list \<Rightarrow> (nat \<Rightarrow> sink) \<Rightarrow> (log_world, nat \<Rightarrow> sink) sm" where
  "log_to can_open m [] sinks = sret sinks"
| "log_to can_open m (i # is) sinks =
     sbind (sink_log can_open m (sinks i)) (\<lambda>s. log_to can_open m is (sinks(i := s)))"

definition log :: "(string \<Rightarrow> bool) \<Rightarrow> log_msg \<Rightarrow> logger \<Rightarrow> (nat \<Rightarrow> sink) \<Rightarrow> (log_world, nat \<Rightarrow> sink) sm" where
  "log can_open m l sinks = log_to can_open m (log_targets m l) sinks"

section \<open>Properties\<close>

text \<open>What a format string means, read from left to right.\<close>

fun expand :: "tm \<Rightarrow> log_msg \<Rightarrow> string \<Rightarrow> string cxx" where
  "expand t m [] = Inr []"
| "expand t m [c] = Inr [c]"
| "expand t m (c # d # cs) =
     (if c \<noteq> CHR ''%'' then bindE (expand t m (d # cs)) (\<lambda>s. Inr (c # s))
      else if directive d then bindE (piece t m (d, [])) (\<lambda>a. bindE (expand t m cs) (\<lambda>b. Inr (a @ b)))
      else expand t m cs)"

lemma pieces_append: "pieces t m (xs @ ys) = bindE (pieces t m xs) (\<lambda>a. bindE (pieces t m ys) (\<lambda>b. Inr (a @ b)))"
proof (induction xs)
  case Nil
  show ?case by (cases "pieces t m ys") simp_all
next
  case (Cons x xs)
  then show ?case by (cases "piece t m x"; cases "pieces t m xs"; cases "pieces t m ys") simp_all
qed

lemma pieces_flush: "pieces t m (flush lit) = Inr lit"
  by (simp add: flush_def piece_def)

lemma pattern_loop_expand: "pieces t m (pattern_loop lit fmt) = bindE (expand t m fmt) (\<lambda>s. Inr (lit @ s))"
proof (induction lit fmt rule: pattern_loop.induct)
  case (3 lit c d cs)
  show ?case
  proof (cases "c = CHR ''%''")
    case True
    with 3(2) have "pieces t m (pattern_loop [] cs) = bindE (expand t m cs) (\<lambda>s. Inr s)" by simp
    with True show ?thesis
      by (cases "expand t m cs"; cases "piece t m (d, [])") (simp_all add: pieces_append pieces_flush)
  next
    case False
    with 3(1) show ?thesis by (cases "expand t m (d # cs)") simp_all
  qed
qed (simp_all add: pieces_flush)

lemma piece_directive: "directive d \<Longrightarrow> \<exists>s. piece t m (d, []) = Inr s"
  by (auto simp: directive_def piece_def)

lemma expand_total: "\<exists>s. expand t m fmt = Inr s"
proof (induction t m fmt rule: expand.induct)
  case (3 t m c d cs)
  show ?case
  proof (cases "c = CHR ''%''")
    case True
    with 3 obtain s where "expand t m cs = Inr s" by (cases "directive d") auto
    with True piece_directive [of d t m] show ?thesis by auto
  next
    case False
    with 3(1) show ?thesis by auto
  qed
qed simp_all

lemma format_ok:
  assumes "captured w = None \<or> captured w = Some f" and "patterns w f = setPattern fmt"
  shows "\<exists>s. expand (localtime_buf w) m fmt = Inr s \<and>
    format f m w = (Inr s, w\<lparr>temp_msg := (temp_msg w)(f := Some m), captured := Some f\<rparr>)"
  using expand_total [of "localtime_buf w" m fmt] assms
  by (auto simp: format_def Let_def setPattern_def pattern_loop_expand)

text \<open>C35: a formatter prints what its format string means: \<open>setPattern\<close> and the loop over the pattern
  together replace every known directive by its value, drop an unknown one with its percent sign, and
  copy everything else, a percent sign at the end included; no format string makes it throw. This holds
  for the formatter of the program's first call of \<open>format\<close>.\<close>

theorem format_means_pattern:
  assumes "captured w = None \<or> captured w = Some f" and "patterns w f = setPattern fmt"
  shows "\<exists>s. expand (localtime_buf w) m fmt = Inr s \<and> fst (format f m w) = Inr s"
  using format_ok [OF assms, of m] by auto

definition demo_msg :: "Level \<Rightarrow> string \<Rightarrow> log_msg" where
  "demo_msg l s = \<lparr>thread_id = 0, msg_level = l, source = \<lparr>filename = Some ''a.cc'', funcname = Some ''f'', line = 7\<rparr>, msg = s\<rparr>"

definition demo_world :: log_world where
  "demo_world = \<lparr>patterns = (\<lambda>_. setPattern ''[%l] %s''), temp_msg = (\<lambda>_. None), captured = None,
     localtime_buf = \<lparr>tm_year = 125, tm_mon = 0, tm_mday = 2, tm_hour = 3, tm_min = 4, tm_sec = 5\<rparr>,
     stdout = [], files = (\<lambda>_. [])\<rparr>"

theorem format_means_pattern_witness:
  "fst (format 0 (demo_msg WARN ''hi'') demo_world) = Inr ''[WARN] hi''"
proof -
  have e: "expand (localtime_buf demo_world) (demo_msg WARN ''hi'') ''[%l] %s'' = Inr ''[WARN] hi''"
    by (simp add: demo_msg_def directive_def piece_def level_name_def)
  have "captured demo_world = None \<or> captured demo_world = Some 0" "patterns demo_world 0 = setPattern ''[%l] %s''"
    by (simp_all add: demo_world_def)
  from format_means_pattern [OF this, of "demo_msg WARN ''hi''"] e show ?thesis by auto
qed

text \<open>Every other formatter prints the message that the first formatter formatted last, in its own
  pattern, and not the message it was given, because the static map refers to the first formatter.\<close>

theorem later_formatters_print_stale_message:
  assumes "captured w = Some g" and "f \<noteq> g" and "temp_msg w g = Some old" and "patterns w f = setPattern fmt"
  shows "fst (format f m w) = expand (localtime_buf w) old fmt"
  using assms expand_total [of "localtime_buf w" old fmt]
  by (auto simp: format_def Let_def setPattern_def pattern_loop_expand)

theorem later_formatters_print_stale_message_witness:
  "fst (sbind (format 0 (demo_msg WARN ''old'')) (\<lambda>_. format 1 (demo_msg ERROR ''new'')) demo_world) = Inr ''[WARN] old''"
proof -
  obtain s where f: "format 0 (demo_msg WARN ''old'') demo_world =
      (Inr s, demo_world\<lparr>temp_msg := (temp_msg demo_world)(0 := Some (demo_msg WARN ''old'')), captured := Some 0\<rparr>)"
    (is "_ = (_, ?w)")
    using format_ok [of demo_world 0 "''[%l] %s''" "demo_msg WARN ''old''"] by (auto simp: demo_world_def)
  have w: "captured ?w = Some 0" "temp_msg ?w 0 = Some (demo_msg WARN ''old'')" "patterns ?w 1 = setPattern ''[%l] %s''"
    by (simp_all add: demo_world_def)
  have e: "expand (localtime_buf ?w) (demo_msg WARN ''old'') ''[%l] %s'' = Inr ''[WARN] old''"
    by (simp add: demo_msg_def directive_def piece_def level_name_def)
  show ?thesis
    using later_formatters_print_stale_message [OF w(1) _ w(2,3), of "demo_msg ERROR ''new''"] e
    by (simp add: f sbind_def)
qed

text \<open>With the default levels nothing below \<open>OFF\<close> ever reaches a file, while everything reaches
  standard output: loggers and console sinks let a message through when its level is at most theirs,
  file sinks (and the asynchronous logger) when it is at least theirs.\<close>

theorem default_levels_write_no_file:
  assumes "msg_level m < OFF"
  shows "sink_log can_open m (FileSink_default f) w = (Inr (FileSink_default f), w) \<and>
         log_targets m \<lparr>m_name = n, m_sinks = ss, m_level = OFF\<rparr> = ss \<and>
         async_log_targets m \<lparr>m_name = n, m_sinks = ss, m_level = OFF\<rparr> = []"
  using assms by (auto simp: sink_log_def FileSink_default_def log_targets_def async_log_targets_def dest: less_asym)

theorem default_levels_write_no_file_witness:
  "sink_log (\<lambda>_. True) (demo_msg CRITICAL ''x'') (FileSink_default 0) demo_world = (Inr (FileSink_default 0), demo_world)"
  using default_levels_write_no_file [of "demo_msg CRITICAL ''x''"] by (simp add: demo_msg_def less_Level_def level_no_def)

text \<open>A synchronous logger with a file sink writes a message exactly when its level lies between the
  two levels, the sink's below and the logger's above; so a level set to keep the important messages
  drops them.\<close>

theorem file_logging_window:
  assumes "kind (sinks i) = File file" and "opened (sinks i) \<or> can_open file"
    and "captured w = None \<or> captured w = Some (m_formatter (sinks i))"
    and "patterns w (m_formatter (sinks i)) = setPattern fmt"
  shows "files (snd (log can_open m \<lparr>m_name = n, m_sinks = [i], m_level = L\<rparr> sinks w)) file =
     files w file @ (if sink_level (sinks i) \<le> msg_level m \<and> msg_level m \<le> L
                     then [projr (expand (localtime_buf w) m fmt)] else [])"
proof -
  let ?f = "m_formatter (sinks i)"
  from format_ok [OF assms(3,4), of m] obtain s where s: "expand (localtime_buf w) m fmt = Inr s"
    and "format ?f m w = (Inr s, w\<lparr>temp_msg := (temp_msg w)(?f := Some m), captured := Some ?f\<rparr>)" by blast
  then show ?thesis
    using assms(1,2) s by (auto simp: log_def log_targets_def sink_log_def sbind_def not_le)
qed

theorem file_logging_window_witness:
  "files (snd (log (\<lambda>_. True) (demo_msg ERROR ''x'') \<lparr>m_name = ''n'', m_sinks = [0], m_level = WARN\<rparr>
     (\<lambda>_. FileSink_default 0) demo_world)) ''log.txt'' = []"
  using file_logging_window [of "\<lambda>_. FileSink_default 0" 0 "''log.txt''" "\<lambda>_. True" demo_world "''[%l] %s''"
      "demo_msg ERROR ''x''" "''n''" WARN]
  by (simp add: FileSink_default_def demo_world_def demo_msg_def less_eq_Level_def level_no_def)

end
