(* ===== verification/Spec2Isabelle.thy ===== *)
theory Spec2Isabelle
  imports Server_Ends Seeker_Thread Login_Example Application Rb_Delete Rb_Copy Lock_Free_Queue Linked_Queue LRU_Cache Skip_List Byte_Order Channel Encoding Base64 Net_Base Ring_Buffer Protocol Connection Conn_Manager
    Hash_Heap Load_Balancer Service_Seeker Etcd_Client Service_Register Config Provider Logger Thread_Pool
    Json_Roundtrip
begin

text \<open>
  GcRpc is a remote-procedure-call framework in C++ on io_uring, protobuf and etcd. This development
  models its own code under src/ and include/ and proves what its parts do.

  \<^bold>\<open>The program.\<close> A provider (src/Rpc/rpcprovider.cc) reads its configuration, keeps a pool of TCP
  connections (connection_pool.cc) and runs an event loop: every completion of io_uring carries the address
  of the object to call and the kind of event (channel.cc). A connection collects the received bytes in a
  ring buffer (buffer.cc), cuts them into protocol header, protobuf header and body (rpc_protocal.cc) and
  hands each request to the thread pool (hipe/), which runs the registered method and sends the response.
  The provider publishes itself in etcd through a lease with a timer (service_register.cc, etcd_client.cc,
  Base64 in net_base.cc). A client finds the nodes of a service with a seeker (service_seeker.cc), whose
  nodes are ranked in a hash heap (hashheap.hpp) and chosen by a load balancer (load_balancer.cc), and calls
  through rpc_caller.cc. A logging library (logger/) and container classes (data_structure/) stand beside.

  \<^bold>\<open>Theories.\<close>
  \<^item> Prelude: machine words, the abnormal ends of a C++ operation (\<open>cxx\<close>), state passing (\<open>sm\<close>), \<open>substr\<close>,
    number parsing and printing. Byte_Order: words in memory, \<open>htonl\<close> and the code's \<open>htonll\<close>.
  \<^item> Fifo: the interfaces \<open>stream\<close> (bytes in, bytes out) and \<open>queue\<close> (items) as locales, with what every
    run of operations conserves. Interpreted by the ring buffer (twice), the idle queue of the connection
    manager and the queues of data_structure/.
  \<^item> Ring_Buffer (buffer.h, buffer.cc): the fields of \<open>Buffer\<close>; \<open>content\<close> is the abstract byte list. Every
    operation is related to it, including the throw and the silent overflow of \<open>append\<close>.
  \<^item> Protocol (rpc_protocal): both parsers and the writer; round trip and behaviour on bad input.
  \<^item> Connection (class \<open>TcpConnection\<close>): all handlers; \<open>out\<close> lists the submissions and dispatches. The loop
    of \<open>callback_read\<close> is a partial function that is proved to end and to refine the total decoder \<open>decode\<close>
    of byte lists; from this follows what a fragmented stream of requests does.
  \<^item> Conn_Manager (class \<open>ConnectionManager\<close>): counters and idle queue, and the pool as a step relation.
  \<^item> Channel, Encoding, Base64, Config, Net_Base: the user data word, varint and zigzag, the Base64 codec,
    the configuration file, addresses and endpoints.
  \<^item> Hash_Heap, Load_Balancer, Service_Seeker: the ranked node list with its pointers into a memory, the
    balancers (the compare-and-swap loop as interleaved steps), and the seeker with the life time of addresses.
    Seeker_Thread: its working thread and its destructor, one atomic action per step.
  \<^item> Etcd_Client, Service_Register: JSON texts sent and received over one reused buffer, and what \<open>get\<close> reads
    back through JSON and Base64; the lease and its timer.
  \<^item> Provider: settings, service table, dispatch, node information, and the caller with its connection loop.
    Application: the command line and the configuration file it names.
  \<^item> Pb_Message, Pb_Codec, Login_Example (*.pb.cc, example/): the members that protoc generated for the five
    messages. \<open>pb_library\<close> is the library they call, the locale \<open>wire_format\<close> its documented format,
    \<open>pb_message\<close> the contract of a message class, of which every message is an instance: round trip, merging,
    size. The parsers' loop is a partial function that is proved to end. Then the example's service, the
    caller's request and the two configuration files.
  \<^item> Event_Loop (\<open>RpcProvider::loop\<close>): the server as a whole. Connections and the register are objects at
    addresses; submissions carry the address and the event in their user data, completions are dispatched
    through it, tasks run on the pool. A run is a step relation over turns of the loop, tasks and SIGINT.
    Server_Runs follows a call and a dying connection through the whole server, Server_Frame states as a locale
    what a run leaves alone (a connection nothing refers to is never reached again), and Server_Ends the end
    of the loop at SIGINT and of the heartbeat when the pool is full.
  \<^item> Json_Value, Json_Lexer, Json_Parser, Json_Dtoa, Json_Serializer (thirdParty/nlohmann/json.hpp): the JSON
    library as far as the etcd client uses it. Values and exceptions; the scanner over one string; the parser,
    a loop with its own stack that is proved to end; floating-point text by Grisu2; the serializer with its
    512-byte buffer. Json_Utf8 compares the scanner's byte ranges with the encoding of scalar values, Json_Types
    shows what the parser gives out, and Json_Text what the serializer writes; Json_Reading and Json_Roundtrip
    put both together: the text of a value is parsed back to it.
  \<^item> Logger, Thread_Pool: the logging library and the worker pool.
  \<^item> Rb_Tree, Rb_Delete, Rb_Copy (rbtree.h): the tree in a heap of nodes with parent pointers and a sentinel.
    Insertion refines a sorted list of entries and keeps the balance; removal keeps a search tree but neither
    the colours nor, in the end, its own termination; copy, destructor and the built-in self test.
  \<^item> Skip_List (skiplist.h): a heap of nodes with one pointer per level; insertion and removal refine the same
    sorted list, whatever the random levels. LRU_Cache (lru_cache.h): hash map and doubly linked list refine a
    list in order of use.
  \<^item> Lock_Free_Queue, Linked_Queue (lockfreequeue.h): the lock-free queue as interleaved atomic steps of any
    number of threads, with use after free as a fault; the two plain queues as instances of \<open>queue\<close>.

  \<^bold>\<open>Conventions.\<close> A 16-bit index is a natural number with the reduction written out, other fixed-width values
  are words; \<open>Inl Undefined\<close> is undefined behaviour, \<open>Inl Assert_Failed\<close> a failing assertion (the build type is
  Debug). Concurrent code is a step relation with one step per atomic access or critical section. A loop that
  may not end is a partial function, \<open>None\<close> when it does not; theorems about it say when it returns.

  \<^bold>\<open>Parameters.\<close> What is not in this repository is an argument of the definitions: the calls of the protobuf
  library, with its wire format as a locale (theories on the framework alone take the message codec as two
  functions, assumed inverse where a theorem says so), the answers of etcd and libcurl,
  \<open>inet_addr\<close>, rounding to \<open>float\<close>, the results of system calls, the completions the kernel delivers, the
  addresses of allocated objects (non-null, below \<open>2 ^ 48\<close>, different), the random levels of the skip list.

  \<^bold>\<open>Bounds.\<close> The ring buffer has 1024 bytes and holds 1023; theorems on chunks ask that a chunk fits the free
  space. No definition uses fuel.

  \<^bold>\<open>Not modelled.\<close> The sockets and rings behind the system calls, console output, the vendored queue, the
  headers of libcurl, the rest of the JSON header (binary formats, iterators, pointers and patches, parser
  callbacks, diagnostics), arenas, descriptors and reflection in the generated code, the main programs, the range
  query of the skip list (it returns a reference to a temporary), and code that is declared and never
  implemented (\<open>ServiceCaller\<close>, the logger registry).
\<close>

section \<open>A whole call\<close>

lemma whole_call:
  assumes "sendable SerializeAsString ParseFromString (call_request (svc_name s) method args)"
    and "concat ds = call_bytes SerializeAsString (svc_name s) method args"
    and "chunks_fit ParseFromString ds (TcpConnection p True)"
    and "map_of (rev (svc_methods s)) method = Some m"
    and "length (svc_call s m args) < MAX_BUFFER_SIZE"
    and "r = (call_request (svc_name s) method args)\<lparr>conn := p\<rparr>"
  shows "\<exists>c c'. feed ParseFromString ds (TcpConnection p True) = Some (Inr (), c) \<and>
           dispatched (out c) = [r] \<and> onMessage (Notify s prov) r = Some (svc_call s m args) \<and>
           content (write_buffer c') = svc_call s m args \<and>
           handle_request (Notify s prov) r (Some c) =
             (if length (svc_call s m args) = 15 then Inr () else Inl Assert_Failed, Some c') \<and>
           out c' = out c @ (if length (svc_call s m args) = 15
                             then [Sqe_Writev USER_EVENT_WRITE (readv_segments (write_buffer c'))] else [])"
proof -
  let ?c = "TcpConnection p True" and ?m = "call_request (svc_name s) method args"
  let ?P = ParseFromString and ?resp = "svc_call s m args" and ?r = "?m\<lparr>conn := p\<rparr>"
  have "awaiting_header ?c" by (simp add: awaiting_header_def)
  from decode_messages [OF this, of "[?m]" SerializeAsString ?P "[]"] assms(1) obtain i where
    d: "decode ?P ?c (concat ds) = (Inr (), ?c\<lparr>ri := i, out := [Dispatch ?r]\<rparr>, [])"
    using assms(2) by (auto simp: decode_wait call_bytes_def)
  have "readableBytes (Buffer MAX_BUFFER_SIZE) < target_bytes ?c"
    by (simp add: Buffer_def readableBytes_def)
  then obtain c where f: "feed ?P ds ?c = Some (Inr (), c)" "dispatched (out c) = [?r]"
      and w: "write_buffer c = Buffer MAX_BUFFER_SIZE"
    using feed_decode [of ?c ?P ds] assms(3) d by fastforce
  have resp: "onMessage (Notify s prov) ?r = Some ?resp"
    using assms(4) by (simp add: onMessage_def Notify_def fold_add_method call_request_def)
  have "length ?resp \<le> writableBytes (write_buffer c)"
    using assms(5) by (simp add: w MAX_BUFFER_SIZE_def)
  moreover have ri0: "readIndex (Buffer MAX_BUFFER_SIZE) = 0" by (simp add: Buffer_def)
  ultimately obtain wb where wb: "content wb = ?resp" "readIndex wb = 0"
      and send: "tcp_send ?resp c =
        (let c' = c\<lparr>write_buffer := wb, to_send_bytes := to_send_bytes c + int (length ?resp)\<rparr>
         in if readableBytes wb = 15 \<and> (readIndex wb \<le> writeIndex wb \<or> writeIndex wb = 0)
            then (Inr True, c'\<lparr>out := out c @ [Sqe_Writev USER_EVENT_WRITE (readv_segments wb)]\<rparr>)
            else (Inl Assert_Failed, c'))"
    using new_buffer_facts tcp_send_cases [of c ?resp] by (auto simp: w Let_def)
  have len: "readableBytes wb = length ?resp" using wb(1) by (metis length_content)
  define c' where "c' = c\<lparr>write_buffer := wb, to_send_bytes := to_send_bytes c + int (length ?resp)\<rparr>"
  have "handle_request (Notify s prov) ?r (Some c) =
      (if length ?resp = 15
       then (Inr (), Some (c'\<lparr>out := out c @ [Sqe_Writev USER_EVENT_WRITE (readv_segments wb)]\<rparr>))
       else (Inl Assert_Failed, Some c'))"
    by (simp add: handle_request_def resp send wb(2) len Let_def c'_def)
  then show ?thesis
    using f resp wb(1) assms(6)
    by (intro exI [of _ c]
          exI [of _ "if length ?resp = 15 then c'\<lparr>out := out c @ [Sqe_Writev USER_EVENT_WRITE (readv_segments wb)]\<rparr> else c'"])
      (auto simp: c'_def)
qed

text \<open>C1: a remote call end to end. The bytes the caller sends, cut anywhere by the network, make a new
  connection dispatch one request that points back to it; the provider runs on it the method that was
  registered under the two names, with the serialized arguments. The response lands behind nothing else
  in the connection's write buffer, and is submitted to the client when it has exactly 15 bytes; any
  other length up to 1023 stops the server at an assertion.\<close>

theorem rpc_call_end_to_end:
  assumes "sendable SerializeAsString ParseFromString (call_request (svc_name s) method args)"
    and "concat ds = call_bytes SerializeAsString (svc_name s) method args"
    and "chunks_fit ParseFromString ds (TcpConnection p True)"
    and "map_of (rev (svc_methods s)) method = Some m"
    and "length (svc_call s m args) < MAX_BUFFER_SIZE"
  shows "\<exists>c r c'. feed ParseFromString ds (TcpConnection p True) = Some (Inr (), c) \<and>
           dispatched (out c) = [r] \<and> conn r = p \<and> onMessage (Notify s prov) r = Some (svc_call s m args) \<and>
           content (write_buffer c') = svc_call s m args \<and>
           handle_request (Notify s prov) r (Some c) =
             (if length (svc_call s m args) = 15 then Inr () else Inl Assert_Failed, Some c') \<and>
           out c' = out c @ (if length (svc_call s m args) = 15
                             then [Sqe_Writev USER_EVENT_WRITE (readv_segments (write_buffer c'))] else [])"
proof -
  let ?r = "(call_request (svc_name s) method args)\<lparr>conn := p\<rparr>"
  have "conn ?r = p" by simp
  with whole_call [OF assms refl, of prov] show ?thesis by blast
qed

theorem rpc_call_end_to_end_witness:
  "\<forall>prov. \<exists>c r c'. feed demo_parse [take 9 demo_message, drop 9 demo_message] (TcpConnection 7 True) = Some (Inr (), c) \<and>
     handle_request (Notify demo_service prov) r (Some c) = (Inr (), Some c') \<and>
     content (write_buffer c') = replicate 15 1"
proof
  fix prov :: "unit provider"
  let ?c = "TcpConnection 7 True" and ?d = "take 9 demo_message"
  have "?d \<noteq> []" "length ?d \<le> writableBytes (read_buffer ?c)" by (simp_all add: length_demo_message)
  moreover have "decode demo_parse ?c ?d = (Inr (), ?c, ?d)"
    by (simp add: decode_wait length_demo_message)
  ultimately obtain rb where del: "deliver demo_parse ?d ?c =
      Some (Inr (), ?c\<lparr>read_buffer := rb, out := [Sqe_Read (writev_segments rb)]\<rparr>)" and rb: "content rb = ?d"
    using deliver_decode [of ?c ?d demo_parse] by auto
  have "readableBytes rb = 9" unfolding length_content [symmetric] rb by (simp add: length_demo_message)
  then have "writableBytes rb = 1014" by (simp add: writableBytes_def MAX_BUFFER_SIZE_def)
  then have fit: "chunks_fit demo_parse [?d, drop 9 demo_message] ?c"
    using del by (auto simp: length_demo_message split: option.splits sum.splits)
  have s: "sendable demo_serialize demo_parse (call_request (svc_name demo_service) [76] [1, 2, 3])"
    by (simp only: demo_call_request demo_sendable)
  have b: "concat [?d, drop 9 demo_message] = call_bytes demo_serialize (svc_name demo_service) [76] [1, 2, 3]"
    by (simp add: demo_call_bytes)
  have m: "map_of (rev (svc_methods demo_service)) [76] = Some ()"
    and l: "length (svc_call demo_service () [1, 2, 3]) < MAX_BUFFER_SIZE"
    and r: "svc_call demo_service () [1, 2, 3] = replicate 15 1"
    by (simp_all add: demo_service_def MAX_BUFFER_SIZE_def)
  have r15: "length (replicate 15 (1 :: u8)) = 15" by simp
  obtain c r c' where "feed demo_parse [?d, drop 9 demo_message] ?c = Some (Inr (), c)"
      "content (write_buffer c') = svc_call demo_service () [1, 2, 3]"
      "handle_request (Notify demo_service prov) r (Some c) =
         (if length (svc_call demo_service () [1, 2, 3]) = 15 then Inr () else Inl Assert_Failed, Some c')"
    using rpc_call_end_to_end [OF s b fit m l, of prov] by blast
  then show "\<exists>c r c'. feed demo_parse [?d, drop 9 demo_message] ?c = Some (Inr (), c) \<and>
     handle_request (Notify demo_service prov) r (Some c) = (Inr (), Some c') \<and>
     content (write_buffer c') = replicate 15 1"
    unfolding r r15 if_True simp_thms by blast
qed

section \<open>The login example\<close>

lemma whole_login_call:
  assumes "wire_format lib" and "LoginRequest_fits req" and "args = LoginRequest_InternalSerialize lib req"
    and "length args < 2 ^ 16"
    and "concat ds = call_bytes (RpcHeader_SerializeAsString lib) (bytes_of ''UserServiceRpc'') (bytes_of ''Login'') args"
    and "chunks_fit (RpcHeader_ParseFromString lib) ds (TcpConnection p True)"
  shows "\<exists>c r c'. feed (RpcHeader_ParseFromString lib) ds (TcpConnection p True) = Some (Inr (), c) \<and>
           dispatched (out c) = [r] \<and> conn r = p \<and> LoginRequest_ParseFromString lib (body_data r) = req \<and>
           handle_request (Notify (login_service lib) prov) r (Some c) = (Inr (), Some c') \<and>
           out c' = out c @ [Sqe_Writev USER_EVENT_WRITE (readv_segments (write_buffer c'))] \<and>
           LoginResponse_InternalParse lib LoginResponse_SharedCtor (content (write_buffer c')) =
             Some (True, LoginService_Login req LoginResponse_SharedCtor)"
proof -
  let ?s = "login_service lib" and ?m = "call_request (bytes_of ''UserServiceRpc'') (bytes_of ''Login'') args"
  have n: "svc_name ?s = bytes_of ''UserServiceRpc''" "map_of (rev (svc_methods ?s)) (bytes_of ''Login'') = Some 0"
    by (simp_all add: login_service_def)
  have p: "LoginRequest_ParseFromString lib args = req"
    using wire_format.login_request_roundtrip [OF assms(1,2)] by (simp add: LoginRequest_ParseFromString_def assms(3))
  have a: "svc_call ?s 0 args = LoginResponse_InternalSerialize lib (LoginService_Login req LoginResponse_SharedCtor)"
    by (simp add: login_service_def UserServiceRpc_CallMethod_def p)
  have l: "LoginService_Login req LoginResponse_SharedCtor = login_answer True LoginResponse_SharedCtor"
    by (simp add: LoginService_Login_def Login_def)
  have len: "length (svc_call ?s 0 args) = 15"
    unfolding a l wire_format.login_answer_size(2) [OF assms(1)] by simp
  have resp: "LoginResponse_InternalParse lib LoginResponse_SharedCtor (svc_call ?s 0 args) =
      Some (True, LoginService_Login req LoginResponse_SharedCtor)"
    unfolding a l by (rule wire_format.response_roundtrip [OF assms(1) wire_format.login_answer_size(1) [OF assms(1)]])
  have sz: "length (svc_call ?s 0 args) < MAX_BUFFER_SIZE" unfolding len by (simp add: MAX_BUFFER_SIZE_def)
  have b: "body_data (?m\<lparr>conn := p\<rparr>) = args" "conn (?m\<lparr>conn := p\<rparr>) = p" by (simp_all add: call_request_def)
  obtain c c' where "feed (RpcHeader_ParseFromString lib) ds (TcpConnection p True) = Some (Inr (), c)"
      "dispatched (out c) = [?m\<lparr>conn := p\<rparr>]" "content (write_buffer c') = svc_call ?s 0 args"
      "handle_request (Notify ?s prov) (?m\<lparr>conn := p\<rparr>) (Some c) = (Inr (), Some c')"
      "out c' = out c @ [Sqe_Writev USER_EVENT_WRITE (readv_segments (write_buffer c'))]"
    using whole_call [OF _ _ assms(6) n(2) sz refl, of "RpcHeader_SerializeAsString lib" prov]
      wire_format.login_header [OF assms(1,4)] assms(5) unfolding n(1) len by auto
  with b p resp show ?thesis
    by (intro exI [of _ c] exI [of _ "?m\<lparr>conn := p\<rparr>"] exI [of _ c']) simp
qed

text \<open>C2: the example of the repository end to end, with the generated message code and without assumptions on
  codecs other than the wire format of the library. The bytes of a login call, cut anywhere by the network,
  become one request on the server whose arguments parse as what the caller's message held, the provider
  answers it without running into the assertion of \<open>readvBegin\<close>, one write is submitted, and its bytes parse
  as the answer of \<open>Login\<close>.\<close>

theorem login_call_end_to_end:
  assumes "wire_format lib" and "LoginRequest_fits req" and "args = LoginRequest_InternalSerialize lib req"
    and "length args < 2 ^ 16"
    and "concat ds = call_bytes (RpcHeader_SerializeAsString lib) (bytes_of ''UserServiceRpc'') (bytes_of ''Login'') args"
    and "chunks_fit (RpcHeader_ParseFromString lib) ds (TcpConnection p True)"
  shows "\<exists>c r c'. feed (RpcHeader_ParseFromString lib) ds (TcpConnection p True) = Some (Inr (), c) \<and>
           dispatched (out c) = [r] \<and> conn r = p \<and> LoginRequest_ParseFromString lib (body_data r) = req \<and>
           handle_request (Notify (login_service lib) prov) r (Some c) = (Inr (), Some c') \<and>
           out c' = out c @ [Sqe_Writev USER_EVENT_WRITE (readv_segments (write_buffer c'))] \<and>
           LoginResponse_InternalParse lib LoginResponse_SharedCtor (content (write_buffer c')) =
             Some (True, LoginService_Login req LoginResponse_SharedCtor)"
  using whole_login_call [OF assms] .

text \<open>The call of example/caller/user_caller.cc, in one piece.\<close>

definition user_caller_request :: "login_request pb_msg" where
  "user_caller_request = \<lparr>contents = \<lparr>name = bytes_of ''zhangsan'', pwd = bytes_of ''123''\<rparr>, unknown = []\<rparr>"

theorem login_call_end_to_end_witness:
  "\<exists>c r (prov :: nat provider) c'. dispatched (out c) = [r] \<and> conn r = 7 \<and>
     handle_request (Notify (login_service wire_lib) prov) r (Some c) = (Inr (), Some c') \<and>
     LoginRequest_ParseFromString wire_lib (body_data r) = user_caller_request"
proof -
  let ?args = "LoginRequest_InternalSerialize wire_lib user_caller_request"
  let ?d = "call_bytes (RpcHeader_SerializeAsString wire_lib) (bytes_of ''UserServiceRpc'') (bytes_of ''Login'') ?args"
  have f: "LoginRequest_fits user_caller_request" by (simp add: LoginRequest_fits_def user_caller_request_def bytes_of_def)
  have a: "length ?args = 15" by code_simp
  have d: "length ?d = 60" by code_simp
  have "?d \<noteq> []" using d by (intro notI) simp
  moreover have "length ?d \<le> writableBytes (read_buffer (TcpConnection 7 True))" unfolding d by simp
  ultimately have fit: "chunks_fit (RpcHeader_ParseFromString wire_lib) [?d] (TcpConnection 7 True)"
    by (auto split: option.splits sum.splits)
  have l: "length ?args < 2 ^ 16" and c: "concat [?d] = ?d" unfolding a by simp_all
  show ?thesis
    using login_call_end_to_end [OF wire.wire_format_axioms f refl l c fit] by blast
qed

section \<open>What a provider publishes\<close>



end
